(* ===== verification/Prelude.thy ===== *)
theory Prelude
  imports Main "HOL-Library.Word" "HOL-Library.Monad_Syntax"
begin

text \<open>
  Shared vocabulary of the development: machine integers, pointers, typed heaps,
  C arrays with checked bounds and C assertions.

  A C function that may run into undefined behaviour (a dereference of a null, poisoned
  or unallocated pointer, an array access out of bounds, a failing assertion) is modelled
  by a function into \<^typ>\<open>'a option\<close>: \<open>None\<close> is the undefined behaviour, so that a theorem
  that an operation returns \<open>Some\<close> is a memory safety theorem.

  A struct type has its own heap, a partial function from addresses to records; a heap
  cell is read with \<open>load\<close> and written field by field with \<open>modify\<close>.
\<close>

section \<open>Machine integers\<close>

type_synonym u8 = "8 word"
type_synonym u16 = "16 word"
type_synonym u32 = "32 word"
type_synonym u64 = "64 word"

section \<open>Proof collections\<close>

named_theorems heap_simps \<open>evaluation of reads and writes of a heap under validity facts\<close>
named_theorems op_defs \<open>definitions of the modelled C functions\<close>

section \<open>Pointers and typed heaps\<close>

text \<open>
  A pointer is null, a poison value (a non-null value that faults when it is used, as
  \<open>LIST_POISON1\<close> in \<open>src/linux/no_proofs/list.c\<close>) or the address of an object.
\<close>

datatype 'a ptr = NULL | Poison nat | Addr 'a

type_synonym ('a, 'n) heap = "'a \<Rightarrow> 'n option"

definition load :: "('a, 'n) heap \<Rightarrow> 'a ptr \<Rightarrow> 'n option" where
  "load h p = (case p of Addr a \<Rightarrow> h a | _ \<Rightarrow> None)"

definition modify :: "('a, 'n) heap \<Rightarrow> 'a ptr \<Rightarrow> ('n \<Rightarrow> 'n) \<Rightarrow> ('a, 'n) heap option" where
  "modify h p f =
     (case p of
        Addr a \<Rightarrow> (case h a of None \<Rightarrow> None | Some n \<Rightarrow> Some (h(a \<mapsto> f n)))
      | _ \<Rightarrow> None)"

text \<open>
  Proofs work with total counterparts: \<open>node h p\<close> is the cell at a valid pointer and
  \<open>upd h p f\<close> the heap after a write through a valid pointer.
\<close>

definition valid :: "('a, 'n) heap \<Rightarrow> 'a ptr \<Rightarrow> bool" where
  "valid h p \<longleftrightarrow> load h p \<noteq> None"

definition node :: "('a, 'n) heap \<Rightarrow> 'a ptr \<Rightarrow> 'n" where
  "node h p = the (load h p)"

definition upd :: "('a, 'n) heap \<Rightarrow> 'a ptr \<Rightarrow> ('n \<Rightarrow> 'n) \<Rightarrow> ('a, 'n) heap" where
  "upd h p f = (case p of Addr a \<Rightarrow> h(a \<mapsto> f (the (h a))) | _ \<Rightarrow> h)"

lemma not_valid_NULL [simp]: "\<not> valid h NULL"
  by (simp add: valid_def load_def)

lemma not_valid_Poison [simp]: "\<not> valid h (Poison n)"
  by (simp add: valid_def load_def)

lemma valid_Addr [simp]: "valid h (Addr a) \<longleftrightarrow> a \<in> dom h"
  by (auto simp: valid_def load_def)

lemma node_Addr [simp]: "node h (Addr a) = the (h a)"
  by (simp add: node_def load_def)

lemma load_valid [heap_simps]: "valid h p \<Longrightarrow> load h p = Some (node h p)"
  by (simp add: valid_def node_def)

lemma load_invalid [heap_simps]: "\<not> valid h p \<Longrightarrow> load h p = None"
  by (simp add: valid_def)

lemma load_NULL [simp]: "load h NULL = None"
  by (simp add: load_def)

lemma modify_valid [heap_simps]: "valid h p \<Longrightarrow> modify h p f = Some (upd h p f)"
  by (auto simp: valid_def load_def modify_def upd_def split: ptr.splits)

lemma modify_invalid [heap_simps]: "\<not> valid h p \<Longrightarrow> modify h p f = None"
  by (auto simp: valid_def load_def modify_def split: ptr.splits option.splits)

lemma valid_upd [heap_simps]: "valid h p \<Longrightarrow> valid (upd h p f) q = valid h q"
  by (auto simp: valid_def load_def upd_def split: ptr.splits)

lemma node_upd [heap_simps]:
  "valid h p \<Longrightarrow> node (upd h p f) q = (if q = p then f (node h p) else node h q)"
  by (auto simp: valid_def node_def load_def upd_def split: ptr.splits)

lemma dom_upd: "valid h p \<Longrightarrow> dom (upd h p f) = dom h"
  by (auto simp: valid_def load_def upd_def split: ptr.splits if_splits)

subsection \<open>Footprints\<close>

text \<open>
  \<open>upd_only S h h'\<close>: the heap \<open>h'\<close> has the cells of \<open>h\<close>, and differs from it at most
  at the pointers of \<open>S\<close>.
\<close>

definition upd_only :: "'a ptr set \<Rightarrow> ('a, 'n) heap \<Rightarrow> ('a, 'n) heap \<Rightarrow> bool" where
  "upd_only S h h' \<longleftrightarrow> dom h' = dom h \<and> (\<forall>p. p \<notin> S \<longrightarrow> load h' p = load h p)"

lemma upd_only_refl [simp]: "upd_only S h h"
  by (simp add: upd_only_def)

lemma upd_only_trans: "upd_only S h h' \<Longrightarrow> upd_only T h' h'' \<Longrightarrow> upd_only (S \<union> T) h h''"
  by (auto simp: upd_only_def)

lemma upd_only_trans_same: "upd_only S h h' \<Longrightarrow> upd_only S h' h'' \<Longrightarrow> upd_only S h h''"
  by (auto simp: upd_only_def)

lemma upd_only_mono: "upd_only S h h' \<Longrightarrow> S \<subseteq> T \<Longrightarrow> upd_only T h h'"
  by (auto simp: upd_only_def)

lemma load_upd:
  "valid h p \<Longrightarrow> load (upd h p f) q = (if q = p then Some (f (node h p)) else load h q)"
  by (auto simp: valid_def node_def load_def upd_def split: ptr.splits)

lemma upd_only_upd [heap_simps]:
  "valid g p \<Longrightarrow> p \<in> S \<Longrightarrow> upd_only S h (upd g p f) \<longleftrightarrow> upd_only S h g"
  by (auto simp: upd_only_def dom_upd load_upd)

lemma upd_only_valid: "upd_only S h h' \<Longrightarrow> valid h' p = valid h p"
  by (cases p) (auto simp: upd_only_def)

lemma upd_only_node: "upd_only S h h' \<Longrightarrow> p \<notin> S \<Longrightarrow> node h' p = node h p"
  by (auto simp: upd_only_def node_def)

section \<open>C arrays and assertions\<close>

definition arr_get :: "'v list \<Rightarrow> nat \<Rightarrow> 'v option" where
  "arr_get xs i = (if i < length xs then Some (xs ! i) else None)"

definition arr_set :: "'v list \<Rightarrow> nat \<Rightarrow> 'v \<Rightarrow> 'v list option" where
  "arr_set xs i v = (if i < length xs then Some (xs[i := v]) else None)"

definition c_assert :: "bool \<Rightarrow> unit option" where
  "c_assert b = (if b then Some () else None)"

text \<open>A counted \<open>for\<close> loop whose body may fail.\<close>

fun c_for :: "'i list \<Rightarrow> ('i \<Rightarrow> 's \<Rightarrow> 's option) \<Rightarrow> 's \<Rightarrow> 's option" where
  "c_for [] body s = Some s"
| "c_for (i # is) body s = do { s \<leftarrow> body i s; c_for is body s }"

lemma c_for_append: "c_for (is @ js) body s = c_for is body s \<bind> c_for js body"
proof (induction "is" arbitrary: s)
  case (Cons i "is")
  then show ?case by (cases "body i s") auto
qed simp

text \<open>The loop rule: an invariant over the number of iterations done.\<close>

lemma c_for_inv:
  assumes "I 0 s" and "\<And>k t. k < length xs \<Longrightarrow> I k t \<Longrightarrow> \<exists>t'. body (xs ! k) t = Some t' \<and> I (Suc k) t'"
  shows "\<exists>t. c_for xs body s = Some t \<and> I (length xs) t"
  using assms
proof (induction xs rule: rev_induct)
  case (snoc x xs)
  have "\<exists>t. c_for xs body s = Some t \<and> I (length xs) t"
  proof (rule snoc.IH [OF snoc.prems(1)])
    fix k t assume "k < length xs" "I k t"
    then show "\<exists>t'. body (xs ! k) t = Some t' \<and> I (Suc k) t'"
      using snoc.prems(2) [of k t] by (simp add: nth_append)
  qed
  then obtain t where t: "c_for xs body s = Some t" "I (length xs) t" by blast
  with snoc.prems(2) [of "length xs" t] show ?case by (auto simp: c_for_append)
qed simp

lemma arr_get_in [simp]: "i < length xs \<Longrightarrow> arr_get xs i = Some (xs ! i)"
  by (simp add: arr_get_def)

lemma arr_set_in [simp]: "i < length xs \<Longrightarrow> arr_set xs i v = Some (xs[i := v])"
  by (simp add: arr_set_def)

lemma c_assert_True [simp]: "c_assert True = Some ()"
  by (simp add: c_assert_def)

lemma c_assert_False [simp]: "c_assert False = None"
  by (simp add: c_assert_def)

section \<open>Compiler builtins\<close>

text \<open>\<open>__builtin_ffsll\<close>: one plus the index of the least significant bit that is set, or 0.\<close>

definition builtin_ffsll :: "u64 \<Rightarrow> int" where
  "builtin_ffsll x = (if x = 0 then 0 else int (length (takeWhile (\<lambda>n. \<not> bit x n) [0..<64])) + 1)"

lemma builtin_ffsll_0 [simp]: "builtin_ffsll 0 = 0"
  by (simp add: builtin_ffsll_def)

lemma builtin_ffsll_lowest:
  assumes "x \<noteq> 0"
  shows "\<exists>k<64. builtin_ffsll x = int k + 1 \<and> bit x k \<and> (\<forall>j<k. \<not> bit x j)"
proof -
  let ?w = "takeWhile (\<lambda>n. \<not> bit x n) [0..<64]"
  have "\<exists>n<64. bit x n" using assms bit_imp_le_length [of x] by (fastforce simp: bit_eq_iff)
  then have "?w \<noteq> [0..<64]" by (auto simp: takeWhile_eq_all_conv)
  then have l: "length ?w < 64" using length_takeWhile_le [of "\<lambda>n. \<not> bit x n" "[0..<64]"] takeWhile_nth
    by (metis diff_zero le_neq_implies_less length_upt nth_equalityI)
  then have "bit x (length ?w)" using nth_length_takeWhile [of "\<lambda>n. \<not> bit x n" "[0..<64]"] by simp
  moreover have "\<not> bit x j" if "j < length ?w" for j
    using that l takeWhile_nth [OF that] set_takeWhileD [OF nth_mem [OF that]] by simp
  ultimately show ?thesis using l assms by (auto simp: builtin_ffsll_def)
qed

end
