(* ===== verification/Intrusive_List_Spec.thy ===== *)
theory Intrusive_List_Spec
  imports Prelude
begin

text \<open>
  The contract of an intrusive list library, as its clients use it: what the operations
  do to the list a header represents, and which nodes they may write. The lemmas of the
  locale are about a family of disjoint lists (all free lists of an allocator together
  with its unlinked nodes), which is what a client keeps between its calls.
\<close>

text \<open>
  \<open>family rep h H L\<close>: every header \<open>k\<close> of \<open>H\<close> represents the list \<open>L k\<close>, and no node is in
  two of the lists. An unlinked node is a header of the empty list.
\<close>

definition family ::
  "('h \<Rightarrow> 'p \<Rightarrow> 'p list \<Rightarrow> bool) \<Rightarrow> 'h \<Rightarrow> 'p set \<Rightarrow> ('p \<Rightarrow> 'p list) \<Rightarrow> bool" where
  "family rep h H L \<longleftrightarrow>
     (\<forall>k\<in>H. rep h k (L k)) \<and>
     (\<forall>k\<in>H. \<forall>j\<in>H. k \<noteq> j \<longrightarrow> set (k # L k) \<inter> set (j # L j) = {})"

lemma familyI:
  assumes "\<And>k. k \<in> H \<Longrightarrow> rep h k (L k)"
    and "\<And>k j. k \<in> H \<Longrightarrow> j \<in> H \<Longrightarrow> k \<noteq> j \<Longrightarrow> set (k # L k) \<inter> set (j # L j) = {}"
  shows "family rep h H L"
  using assms by (simp add: family_def)

lemma family_rep: "family rep h H L \<Longrightarrow> k \<in> H \<Longrightarrow> rep h k (L k)"
  by (simp add: family_def)

lemma family_disjoint:
  "family rep h H L \<Longrightarrow> k \<in> H \<Longrightarrow> j \<in> H \<Longrightarrow> k \<noteq> j \<Longrightarrow> set (k # L k) \<inter> set (j # L j) = {}"
  unfolding family_def by blast

lemma family_cong:
  "family rep h H L \<Longrightarrow> (\<And>k. k \<in> H \<Longrightarrow> L' k = L k) \<Longrightarrow> family rep h H L'"
  unfolding family_def by simp

locale intrusive_list =
  fixes rep :: "'h \<Rightarrow> 'p \<Rightarrow> 'p list \<Rightarrow> bool"
    and ok :: "'h \<Rightarrow> 'p \<Rightarrow> bool"
    and foot :: "'p set \<Rightarrow> 'h \<Rightarrow> 'h \<Rightarrow> bool"
    and init :: "'h \<Rightarrow> 'p \<Rightarrow> 'h option"
    and add :: "'h \<Rightarrow> 'p \<Rightarrow> 'p \<Rightarrow> 'h option"
    and add_tail :: "'h \<Rightarrow> 'p \<Rightarrow> 'p \<Rightarrow> 'h option"
    and del_init :: "'h \<Rightarrow> 'p \<Rightarrow> 'h option"
    and is_empty :: "'h \<Rightarrow> 'p \<Rightarrow> bool option"
    and first :: "'h \<Rightarrow> 'p \<Rightarrow> 'p option"
  assumes rep_frame:
      "foot S h h' \<Longrightarrow> rep h k xs \<Longrightarrow> set (k # xs) \<inter> S = {} \<Longrightarrow> rep h' k xs"
    and rep_ok: "rep h k xs \<Longrightarrow> p \<in> set (k # xs) \<Longrightarrow> ok h p"
    and rep_distinct: "rep h k xs \<Longrightarrow> distinct (k # xs)"
    and foot_ok: "foot S h h' \<Longrightarrow> ok h' p = ok h p"
    and init_law: "ok h p \<Longrightarrow> \<exists>h'. init h p = Some h' \<and> rep h' p [] \<and> foot {p} h h'"
    and add_law: "rep h k xs \<Longrightarrow> ok h e \<Longrightarrow> e \<notin> set (k # xs) \<Longrightarrow>
      \<exists>h'. add h e k = Some h' \<and> rep h' k (e # xs) \<and> foot (set (k # e # xs)) h h'"
    and add_tail_law: "rep h k xs \<Longrightarrow> ok h e \<Longrightarrow> e \<notin> set (k # xs) \<Longrightarrow>
      \<exists>h'. add_tail h e k = Some h' \<and> rep h' k (xs @ [e]) \<and> foot (set (k # e # xs)) h h'"
    and del_init_law: "rep h k (as @ e # bs) \<Longrightarrow>
      \<exists>h'. del_init h e = Some h' \<and> rep h' k (as @ bs) \<and> rep h' e [] \<and>
        foot (set (k # as @ e # bs)) h h'"
    and is_empty_law: "rep h k xs \<Longrightarrow> is_empty h k = Some (xs = [])"
    and is_empty_member: "rep h k xs \<Longrightarrow> e \<in> set xs \<Longrightarrow> is_empty h e = Some False"
    and first_law: "rep h k (x # xs) \<Longrightarrow> first h k = Some x"
begin

lemma family_frame:
  assumes "family rep h H L" "foot S h h'" "j \<in> H" "set (j # L j) \<inter> S = {}"
  shows "rep h' j (L j)"
  using rep_frame assms family_rep by metis

lemma family_add:
  assumes f: "family rep h H L" and k: "k \<in> H" and e: "e \<in> H" "e \<noteq> k" "L e = []"
  shows "\<exists>h'. add h e k = Some h' \<and> family rep h' (H - {e}) (L(k := e # L k))"
proof -
  have ek: "e \<notin> set (k # L k)" using family_disjoint [OF f e(1) k e(2)] e(3) by auto
  obtain h' where h': "add h e k = Some h'" "rep h' k (e # L k)" "foot (set (k # e # L k)) h h'"
    using add_law [OF family_rep [OF f k] _ ek] rep_ok [OF family_rep [OF f e(1)]] by auto
  have "family rep h' (H - {e}) (L(k := e # L k))"
  proof (rule familyI)
    fix j assume j: "j \<in> H - {e}"
    show "rep h' j ((L(k := e # L k)) j)"
    proof (cases "j = k")
      case False
      with j have "set (j # L j) \<inter> set (k # e # L k) = {}"
        using family_disjoint [OF f, of j k] family_disjoint [OF f, of j e] k e by auto
      with False show ?thesis using family_frame [OF f h'(3)] j by simp
    qed (use h' in simp)
  next
    fix i j assume "i \<in> H - {e}" "j \<in> H - {e}" "i \<noteq> j"
    then show "set (i # (L(k := e # L k)) i) \<inter> set (j # (L(k := e # L k)) j) = {}"
      using family_disjoint [OF f, of i j] family_disjoint [OF f, of i e]
        family_disjoint [OF f, of e j] e k by auto
  qed
  with h'(1) show ?thesis by blast
qed

lemma family_add_tail:
  assumes f: "family rep h H L" and k: "k \<in> H" and e: "e \<in> H" "e \<noteq> k" "L e = []"
  shows "\<exists>h'. add_tail h e k = Some h' \<and> family rep h' (H - {e}) (L(k := L k @ [e]))"
proof -
  have ek: "e \<notin> set (k # L k)" using family_disjoint [OF f e(1) k e(2)] e(3) by auto
  obtain h' where h': "add_tail h e k = Some h'" "rep h' k (L k @ [e])"
    "foot (set (k # e # L k)) h h'"
    using add_tail_law [OF family_rep [OF f k] _ ek] rep_ok [OF family_rep [OF f e(1)]] by auto
  have "family rep h' (H - {e}) (L(k := L k @ [e]))"
  proof (rule familyI)
    fix j assume j: "j \<in> H - {e}"
    show "rep h' j ((L(k := L k @ [e])) j)"
    proof (cases "j = k")
      case False
      with j have "set (j # L j) \<inter> set (k # e # L k) = {}"
        using family_disjoint [OF f, of j k] family_disjoint [OF f, of j e] k e by auto
      with False show ?thesis using family_frame [OF f h'(3)] j by simp
    qed (use h' in simp)
  next
    fix i j assume "i \<in> H - {e}" "j \<in> H - {e}" "i \<noteq> j"
    then show "set (i # (L(k := L k @ [e])) i) \<inter> set (j # (L(k := L k @ [e])) j) = {}"
      using family_disjoint [OF f, of i j] family_disjoint [OF f, of i e]
        family_disjoint [OF f, of e j] e k by auto
  qed
  with h'(1) show ?thesis by blast
qed

lemma family_del_init:
  assumes f: "family rep h H L" and k: "k \<in> H" and e: "L k = as @ e # bs"
  shows "\<exists>h'. del_init h e = Some h' \<and> family rep h' (insert e H) (L(k := as @ bs, e := []))"
proof -
  have r: "rep h k (as @ e # bs)" using family_rep [OF f k] e by simp
  obtain h' where h': "del_init h e = Some h'" "rep h' k (as @ bs)" "rep h' e []"
    "foot (set (k # as @ e # bs)) h h'"
    using del_init_law [OF r] by auto
  have ke: "k \<noteq> e" "e \<notin> set (as @ bs)" using rep_distinct [OF r] by auto
  have eH: "e \<notin> H" using family_disjoint [OF f _ k, of e] e ke by auto
  have "family rep h' (insert e H) (L(k := as @ bs, e := []))"
  proof (rule familyI)
    fix j assume j: "j \<in> insert e H"
    show "rep h' j ((L(k := as @ bs, e := [])) j)"
    proof (cases "j = k \<or> j = e")
      case False
      with j have "set (j # L j) \<inter> set (k # as @ e # bs) = {}"
        using family_disjoint [OF f, of j k] k e by auto
      with False show ?thesis using family_frame [OF f h'(4)] j by simp
    qed (use h' ke in auto)
  next
    fix i j assume "i \<in> insert e H" "j \<in> insert e H" "i \<noteq> j"
    then show "set (i # (L(k := as @ bs, e := [])) i) \<inter>
        set (j # (L(k := as @ bs, e := [])) j) = {}"
      using family_disjoint [OF f, of i j] family_disjoint [OF f, of i k]
        family_disjoint [OF f, of k j] e k ke eH by auto
  qed
  with h'(1) show ?thesis by blast
qed

lemma family_is_empty: "family rep h H L \<Longrightarrow> k \<in> H \<Longrightarrow> is_empty h k = Some (L k = [])"
  using is_empty_law family_rep by metis

lemma family_member_not_empty:
  "family rep h H L \<Longrightarrow> k \<in> H \<Longrightarrow> e \<in> set (L k) \<Longrightarrow> is_empty h e = Some False"
  using is_empty_member family_rep by metis

lemma family_first: "family rep h H L \<Longrightarrow> k \<in> H \<Longrightarrow> L k = x # xs \<Longrightarrow> first h k = Some x"
  using first_law family_rep by metis

end

end
