(* ===== verification/Linux_List.thy ===== *)
theory Linux_List
  imports Intrusive_List_Spec
begin

text \<open>
  The circular doubly linked lists of \<open>src/linux/no_proofs/list.c\<close>.
\<close>

record 'a list_head =
  lh_next :: "'a ptr"
  lh_prev :: "'a ptr"

type_synonym 'a lheap = "('a, 'a list_head) heap"

definition LIST_POISON1 :: "'a ptr" where "LIST_POISON1 = Poison 0x100"
definition LIST_POISON2 :: "'a ptr" where "LIST_POISON2 = Poison 0x122"

text \<open>The reads \<open>p->next\<close> and \<open>p->prev\<close> and the writes through them.\<close>

definition get_next :: "'a lheap \<Rightarrow> 'a ptr \<Rightarrow> 'a ptr option" where
  "get_next h p = map_option lh_next (load h p)"

definition get_prev :: "'a lheap \<Rightarrow> 'a ptr \<Rightarrow> 'a ptr option" where
  "get_prev h p = map_option lh_prev (load h p)"

definition set_next :: "'a lheap \<Rightarrow> 'a ptr \<Rightarrow> 'a ptr \<Rightarrow> 'a lheap option" where
  "set_next h p v = modify h p (\<lambda>n. n\<lparr>lh_next := v\<rparr>)"

definition set_prev :: "'a lheap \<Rightarrow> 'a ptr \<Rightarrow> 'a ptr \<Rightarrow> 'a lheap option" where
  "set_prev h p v = modify h p (\<lambda>n. n\<lparr>lh_prev := v\<rparr>)"

definition INIT_LIST_HEAD :: "'a lheap \<Rightarrow> 'a ptr \<Rightarrow> 'a lheap option" where
  "INIT_LIST_HEAD h list = do {
     h \<leftarrow> set_next h list list;
     set_prev h list list }"

definition list_add_valid :: "'a ptr \<Rightarrow> 'a ptr \<Rightarrow> 'a ptr \<Rightarrow> bool" where
  "list_add_valid new prv nxt = True"

definition list_del_entry_valid :: "'a ptr \<Rightarrow> bool" where
  "list_del_entry_valid entry = True"

definition raw_list_add :: "'a lheap \<Rightarrow> 'a ptr \<Rightarrow> 'a ptr \<Rightarrow> 'a ptr \<Rightarrow> 'a lheap option" where
  "raw_list_add h new prv nxt =
     (if \<not> list_add_valid new prv nxt then Some h
      else do {
        h \<leftarrow> set_prev h nxt new;
        h \<leftarrow> set_next h new nxt;
        h \<leftarrow> set_prev h new prv;
        set_next h prv new })"

definition list_add :: "'a lheap \<Rightarrow> 'a ptr \<Rightarrow> 'a ptr \<Rightarrow> 'a lheap option" where
  "list_add h new head = do {
     nxt \<leftarrow> get_next h head;
     raw_list_add h new head nxt }"

definition list_add_tail :: "'a lheap \<Rightarrow> 'a ptr \<Rightarrow> 'a ptr \<Rightarrow> 'a lheap option" where
  "list_add_tail h new head = do {
     prv \<leftarrow> get_prev h head;
     raw_list_add h new prv head }"

definition raw_list_del :: "'a lheap \<Rightarrow> 'a ptr \<Rightarrow> 'a ptr \<Rightarrow> 'a lheap option" where
  "raw_list_del h prv nxt = do {
     h \<leftarrow> set_prev h nxt prv;
     set_next h prv nxt }"

definition raw_list_del_clearprev :: "'a lheap \<Rightarrow> 'a ptr \<Rightarrow> 'a lheap option" where
  "raw_list_del_clearprev h entry = do {
     prv \<leftarrow> get_prev h entry;
     nxt \<leftarrow> get_next h entry;
     h \<leftarrow> raw_list_del h prv nxt;
     set_prev h entry NULL }"

definition raw_list_del_entry :: "'a lheap \<Rightarrow> 'a ptr \<Rightarrow> 'a lheap option" where
  "raw_list_del_entry h entry =
     (if \<not> list_del_entry_valid entry then Some h
      else do {
        prv \<leftarrow> get_prev h entry;
        nxt \<leftarrow> get_next h entry;
        raw_list_del h prv nxt })"

definition list_del :: "'a lheap \<Rightarrow> 'a ptr \<Rightarrow> 'a lheap option" where
  "list_del h entry = do {
     h \<leftarrow> raw_list_del_entry h entry;
     h \<leftarrow> set_next h entry LIST_POISON1;
     set_prev h entry LIST_POISON2 }"

definition list_replace :: "'a lheap \<Rightarrow> 'a ptr \<Rightarrow> 'a ptr \<Rightarrow> 'a lheap option" where
  "list_replace h old new = do {
     on \<leftarrow> get_next h old;
     h \<leftarrow> set_next h new on;
     nn \<leftarrow> get_next h new;
     h \<leftarrow> set_prev h nn new;
     op \<leftarrow> get_prev h old;
     h \<leftarrow> set_prev h new op;
     np \<leftarrow> get_prev h new;
     set_next h np new }"

definition list_replace_init :: "'a lheap \<Rightarrow> 'a ptr \<Rightarrow> 'a ptr \<Rightarrow> 'a lheap option" where
  "list_replace_init h old new = do {
     h \<leftarrow> list_replace h old new;
     INIT_LIST_HEAD h old }"

definition list_swap :: "'a lheap \<Rightarrow> 'a ptr \<Rightarrow> 'a ptr \<Rightarrow> 'a lheap option" where
  "list_swap h entry1 entry2 = do {
     pos \<leftarrow> get_prev h entry2;
     h \<leftarrow> list_del h entry2;
     h \<leftarrow> list_replace h entry1 entry2;
     list_add h entry1 (if pos = entry1 then entry2 else pos) }"

definition list_del_init :: "'a lheap \<Rightarrow> 'a ptr \<Rightarrow> 'a lheap option" where
  "list_del_init h entry = do {
     h \<leftarrow> raw_list_del_entry h entry;
     INIT_LIST_HEAD h entry }"

definition list_move :: "'a lheap \<Rightarrow> 'a ptr \<Rightarrow> 'a ptr \<Rightarrow> 'a lheap option" where
  "list_move h list head = do {
     h \<leftarrow> raw_list_del_entry h list;
     list_add h list head }"

definition list_move_tail :: "'a lheap \<Rightarrow> 'a ptr \<Rightarrow> 'a ptr \<Rightarrow> 'a lheap option" where
  "list_move_tail h list head = do {
     h \<leftarrow> raw_list_del_entry h list;
     list_add_tail h list head }"

definition list_bulk_move_tail ::
  "'a lheap \<Rightarrow> 'a ptr \<Rightarrow> 'a ptr \<Rightarrow> 'a ptr \<Rightarrow> 'a lheap option" where
  "list_bulk_move_tail h head first lastp = do {
     fp \<leftarrow> get_prev h first;
     ln \<leftarrow> get_next h lastp;
     h \<leftarrow> set_next h fp ln;
     ln \<leftarrow> get_next h lastp;
     fp \<leftarrow> get_prev h first;
     h \<leftarrow> set_prev h ln fp;
     hp \<leftarrow> get_prev h head;
     h \<leftarrow> set_next h hp first;
     hp \<leftarrow> get_prev h head;
     h \<leftarrow> set_prev h first hp;
     h \<leftarrow> set_next h lastp head;
     set_prev h head lastp }"

definition list_is_first :: "'a lheap \<Rightarrow> 'a ptr \<Rightarrow> 'a ptr \<Rightarrow> bool option" where
  "list_is_first h list head = do { p \<leftarrow> get_prev h list; Some (p = head) }"

definition list_is_last :: "'a lheap \<Rightarrow> 'a ptr \<Rightarrow> 'a ptr \<Rightarrow> bool option" where
  "list_is_last h list head = do { n \<leftarrow> get_next h list; Some (n = head) }"

definition list_empty :: "'a lheap \<Rightarrow> 'a ptr \<Rightarrow> bool option" where
  "list_empty h head = do { n \<leftarrow> get_next h head; Some (n = head) }"

definition list_rotate_left :: "'a lheap \<Rightarrow> 'a ptr \<Rightarrow> 'a lheap option" where
  "list_rotate_left h head = do {
     e \<leftarrow> list_empty h head;
     if \<not> e then do {
       first \<leftarrow> get_next h head;
       list_move_tail h first head }
     else Some h }"

definition list_rotate_to_front :: "'a lheap \<Rightarrow> 'a ptr \<Rightarrow> 'a ptr \<Rightarrow> 'a lheap option" where
  "list_rotate_to_front h list head = list_move_tail h head list"

definition list_is_singular :: "'a lheap \<Rightarrow> 'a ptr \<Rightarrow> bool option" where
  "list_is_singular h head = do {
     e \<leftarrow> list_empty h head;
     if e then Some False
     else do {
       n \<leftarrow> get_next h head;
       p \<leftarrow> get_prev h head;
       Some (n = p) } }"

definition raw_list_cut_position ::
  "'a lheap \<Rightarrow> 'a ptr \<Rightarrow> 'a ptr \<Rightarrow> 'a ptr \<Rightarrow> 'a lheap option" where
  "raw_list_cut_position h list head entry = do {
     new_first \<leftarrow> get_next h entry;
     hn \<leftarrow> get_next h head;
     h \<leftarrow> set_next h list hn;
     ln \<leftarrow> get_next h list;
     h \<leftarrow> set_prev h ln list;
     h \<leftarrow> set_prev h list entry;
     h \<leftarrow> set_next h entry list;
     h \<leftarrow> set_next h head new_first;
     set_prev h new_first head }"

definition list_cut_position ::
  "'a lheap \<Rightarrow> 'a ptr \<Rightarrow> 'a ptr \<Rightarrow> 'a ptr \<Rightarrow> 'a lheap option" where
  "list_cut_position h list head entry = do {
     e \<leftarrow> list_empty h head;
     if e then Some h
     else do {
       s \<leftarrow> list_is_singular h head;
       hn \<leftarrow> get_next h head;
       if s \<and> hn \<noteq> entry \<and> head \<noteq> entry then Some h
       else if entry = head then INIT_LIST_HEAD h list
       else raw_list_cut_position h list head entry } }"

definition list_cut_before ::
  "'a lheap \<Rightarrow> 'a ptr \<Rightarrow> 'a ptr \<Rightarrow> 'a ptr \<Rightarrow> 'a lheap option" where
  "list_cut_before h list head entry = do {
     hn \<leftarrow> get_next h head;
     if hn = entry then INIT_LIST_HEAD h list
     else do {
       hn \<leftarrow> get_next h head;
       h \<leftarrow> set_next h list hn;
       ln \<leftarrow> get_next h list;
       h \<leftarrow> set_prev h ln list;
       ep \<leftarrow> get_prev h entry;
       h \<leftarrow> set_prev h list ep;
       lp \<leftarrow> get_prev h list;
       h \<leftarrow> set_next h lp list;
       h \<leftarrow> set_next h head entry;
       set_prev h entry head } }"

definition raw_list_splice ::
  "'a lheap \<Rightarrow> 'a ptr \<Rightarrow> 'a ptr \<Rightarrow> 'a ptr \<Rightarrow> 'a lheap option" where
  "raw_list_splice h list prv nxt = do {
     first \<leftarrow> get_next h list;
     lastp \<leftarrow> get_prev h list;
     h \<leftarrow> set_prev h first prv;
     h \<leftarrow> set_next h prv first;
     h \<leftarrow> set_next h lastp nxt;
     set_prev h nxt lastp }"

definition list_splice :: "'a lheap \<Rightarrow> 'a ptr \<Rightarrow> 'a ptr \<Rightarrow> 'a lheap option" where
  "list_splice h list head = do {
     e \<leftarrow> list_empty h list;
     if \<not> e then do {
       hn \<leftarrow> get_next h head;
       raw_list_splice h list head hn }
     else Some h }"

definition list_splice_tail :: "'a lheap \<Rightarrow> 'a ptr \<Rightarrow> 'a ptr \<Rightarrow> 'a lheap option" where
  "list_splice_tail h list head = do {
     e \<leftarrow> list_empty h list;
     if \<not> e then do {
       hp \<leftarrow> get_prev h head;
       raw_list_splice h list hp head }
     else Some h }"

definition list_splice_init :: "'a lheap \<Rightarrow> 'a ptr \<Rightarrow> 'a ptr \<Rightarrow> 'a lheap option" where
  "list_splice_init h list head = do {
     e \<leftarrow> list_empty h list;
     if \<not> e then do {
       hn \<leftarrow> get_next h head;
       h \<leftarrow> raw_list_splice h list head hn;
       INIT_LIST_HEAD h list }
     else Some h }"

definition list_splice_tail_init :: "'a lheap \<Rightarrow> 'a ptr \<Rightarrow> 'a ptr \<Rightarrow> 'a lheap option" where
  "list_splice_tail_init h list head = do {
     e \<leftarrow> list_empty h list;
     if \<not> e then do {
       hp \<leftarrow> get_prev h head;
       h \<leftarrow> raw_list_splice h list hp head;
       INIT_LIST_HEAD h list }
     else Some h }"


section \<open>Iteration\<close>

text \<open>
  The iteration macros, with the loop body as a parameter: it gets the cursor, its own
  state and the heap. Each iteration spends one unit of fuel; \<open>None\<close> is undefined
  behaviour or a loop that did not end within the fuel. The lemmas below show that one
  unit more than the number of entries is enough.
\<close>

type_synonym ('a, 's) loop_body = "'a ptr \<Rightarrow> 's \<Rightarrow> 'a lheap \<Rightarrow> ('s \<times> 'a lheap) option"

fun each_loop ::
  "nat \<Rightarrow> ('a lheap \<Rightarrow> 'a ptr \<Rightarrow> 'a ptr option) \<Rightarrow> ('a, 's) loop_body \<Rightarrow> 'a ptr \<Rightarrow> 'a ptr \<Rightarrow> 's \<Rightarrow>
   'a lheap \<Rightarrow> ('s \<times> 'a lheap) option" where
  "each_loop 0 stp body pos head s h = None"
| "each_loop (Suc fuel) stp body pos head s h =
     (if pos = head then Some (s, h)
      else do {
        (s, h) \<leftarrow> body pos s h;
        pos \<leftarrow> stp h pos;
        each_loop fuel stp body pos head s h })"

definition list_for_each ::
  "nat \<Rightarrow> ('a, 's) loop_body \<Rightarrow> 'a ptr \<Rightarrow> 's \<Rightarrow> 'a lheap \<Rightarrow> ('s \<times> 'a lheap) option" where
  "list_for_each fuel body head s h = do {
     pos \<leftarrow> get_next h head;
     each_loop fuel get_next body pos head s h }"

definition list_for_each_continue ::
  "nat \<Rightarrow> ('a, 's) loop_body \<Rightarrow> 'a ptr \<Rightarrow> 'a ptr \<Rightarrow> 's \<Rightarrow> 'a lheap \<Rightarrow> ('s \<times> 'a lheap) option" where
  "list_for_each_continue fuel body pos head s h = do {
     pos \<leftarrow> get_next h pos;
     each_loop fuel get_next body pos head s h }"

definition list_for_each_prev ::
  "nat \<Rightarrow> ('a, 's) loop_body \<Rightarrow> 'a ptr \<Rightarrow> 's \<Rightarrow> 'a lheap \<Rightarrow> ('s \<times> 'a lheap) option" where
  "list_for_each_prev fuel body head s h = do {
     pos \<leftarrow> get_prev h head;
     each_loop fuel get_prev body pos head s h }"

fun safe_loop ::
  "nat \<Rightarrow> ('a lheap \<Rightarrow> 'a ptr \<Rightarrow> 'a ptr option) \<Rightarrow> ('a, 's) loop_body \<Rightarrow> 'a ptr \<Rightarrow> 'a ptr \<Rightarrow> 'a ptr \<Rightarrow>
   's \<Rightarrow> 'a lheap \<Rightarrow> ('s \<times> 'a lheap) option" where
  "safe_loop 0 stp body pos n head s h = None"
| "safe_loop (Suc fuel) stp body pos n head s h =
     (if pos = head then Some (s, h)
      else do {
        (s, h) \<leftarrow> body pos s h;
        n' \<leftarrow> stp h n;
        safe_loop fuel stp body n n' head s h })"

definition list_for_each_safe ::
  "nat \<Rightarrow> ('a, 's) loop_body \<Rightarrow> 'a ptr \<Rightarrow> 's \<Rightarrow> 'a lheap \<Rightarrow> ('s \<times> 'a lheap) option" where
  "list_for_each_safe fuel body head s h = do {
     pos \<leftarrow> get_next h head;
     n \<leftarrow> get_next h pos;
     safe_loop fuel get_next body pos n head s h }"

definition list_for_each_prev_safe ::
  "nat \<Rightarrow> ('a, 's) loop_body \<Rightarrow> 'a ptr \<Rightarrow> 's \<Rightarrow> 'a lheap \<Rightarrow> ('s \<times> 'a lheap) option" where
  "list_for_each_prev_safe fuel body head s h = do {
     pos \<leftarrow> get_prev h head;
     n \<leftarrow> get_prev h pos;
     safe_loop fuel get_prev body pos n head s h }"

section \<open>The lists a heap represents\<close>

definition nx :: "'a lheap \<Rightarrow> 'a ptr \<Rightarrow> 'a ptr" where
  "nx h p = lh_next (node h p)"

definition pv :: "'a lheap \<Rightarrow> 'a ptr \<Rightarrow> 'a ptr" where
  "pv h p = lh_prev (node h p)"

definition put_next :: "'a lheap \<Rightarrow> 'a ptr \<Rightarrow> 'a ptr \<Rightarrow> 'a lheap" where
  "put_next h p v = upd h p (\<lambda>n. n\<lparr>lh_next := v\<rparr>)"

definition put_prev :: "'a lheap \<Rightarrow> 'a ptr \<Rightarrow> 'a ptr \<Rightarrow> 'a lheap" where
  "put_prev h p v = upd h p (\<lambda>n. n\<lparr>lh_prev := v\<rparr>)"

text \<open>Consecutive nodes of \<open>xs\<close> are linked in both directions.\<close>

fun links :: "'a lheap \<Rightarrow> 'a ptr list \<Rightarrow> bool" where
  "links h (x # y # zs) = (nx h x = y \<and> pv h y = x \<and> links h (y # zs))"
| "links h xs = True"

text \<open>\<open>cyc h xs\<close>: the nodes \<open>xs\<close> form a ring, in this order.\<close>

definition cyc :: "'a lheap \<Rightarrow> 'a ptr list \<Rightarrow> bool" where
  "cyc h xs \<longleftrightarrow> xs \<noteq> [] \<and> distinct xs \<and> (\<forall>p\<in>set xs. valid h p) \<and> links h (xs @ [hd xs])"

text \<open>\<open>is_list h head xs\<close>: \<open>head\<close> is the header of a list with the entries \<open>xs\<close>.\<close>

definition is_list :: "'a lheap \<Rightarrow> 'a ptr \<Rightarrow> 'a ptr list \<Rightarrow> bool" where
  "is_list h head xs = cyc h (head # xs)"

subsection \<open>Evaluation of reads and writes\<close>

lemma get_next_valid [heap_simps]: "valid h p \<Longrightarrow> get_next h p = Some (nx h p)"
  by (simp add: get_next_def nx_def heap_simps)

lemma get_prev_valid [heap_simps]: "valid h p \<Longrightarrow> get_prev h p = Some (pv h p)"
  by (simp add: get_prev_def pv_def heap_simps)

lemma set_next_valid [heap_simps]: "valid h p \<Longrightarrow> set_next h p v = Some (put_next h p v)"
  by (simp add: set_next_def put_next_def heap_simps)

lemma set_prev_valid [heap_simps]: "valid h p \<Longrightarrow> set_prev h p v = Some (put_prev h p v)"
  by (simp add: set_prev_def put_prev_def heap_simps)

lemma valid_put_next [heap_simps]: "valid h p \<Longrightarrow> valid (put_next h p v) q = valid h q"
  by (simp add: put_next_def heap_simps)

lemma valid_put_prev [heap_simps]: "valid h p \<Longrightarrow> valid (put_prev h p v) q = valid h q"
  by (simp add: put_prev_def heap_simps)

lemma nx_put_next [heap_simps]:
  "valid h p \<Longrightarrow> nx (put_next h p v) q = (if q = p then v else nx h q)"
  by (simp add: put_next_def nx_def heap_simps)

lemma nx_put_prev [heap_simps]: "valid h p \<Longrightarrow> nx (put_prev h p v) q = nx h q"
  by (simp add: put_prev_def nx_def heap_simps)

lemma pv_put_prev [heap_simps]:
  "valid h p \<Longrightarrow> pv (put_prev h p v) q = (if q = p then v else pv h q)"
  by (simp add: put_prev_def pv_def heap_simps)

lemma pv_put_next [heap_simps]: "valid h p \<Longrightarrow> pv (put_next h p v) q = pv h q"
  by (simp add: put_next_def pv_def heap_simps)

lemma upd_only_put_next [heap_simps]:
  "valid g p \<Longrightarrow> p \<in> S \<Longrightarrow> upd_only S h (put_next g p v) \<longleftrightarrow> upd_only S h g"
  by (simp add: put_next_def heap_simps)

lemma upd_only_put_prev [heap_simps]:
  "valid g p \<Longrightarrow> p \<in> S \<Longrightarrow> upd_only S h (put_prev g p v) \<longleftrightarrow> upd_only S h g"
  by (simp add: put_prev_def heap_simps)

subsection \<open>Segments and rings\<close>

lemma links_append:
  "links h (xs @ y # ys) \<longleftrightarrow> links h (xs @ [y]) \<and> links h (y # ys)"
proof (induction xs)
  case Nil
  then show ?case by simp
next
  case (Cons x xs)
  then show ?case by (cases xs) auto
qed

lemma links_split:
  "links h (x # xs @ y # z # ys) \<longleftrightarrow> links h (x # xs @ [y]) \<and> links h (y # z # ys)"
  using links_append [of h "x # xs" y "z # ys"] by simp

lemma links_cong:
  assumes "\<And>p. p \<in> set (butlast xs) \<Longrightarrow> nx h' p = nx h p"
    and "\<And>p. p \<in> set (tl xs) \<Longrightarrow> pv h' p = pv h p"
  shows "links h' xs = links h xs"
  using assms by (induction h xs rule: links.induct) auto

lemma links_put_next [heap_simps]:
  "valid h p \<Longrightarrow> p \<notin> set (butlast xs) \<Longrightarrow> links (put_next h p v) xs = links h xs"
  by (rule links_cong) (auto simp: heap_simps)

lemma links_put_prev [heap_simps]:
  "valid h p \<Longrightarrow> p \<notin> set (tl xs) \<Longrightarrow> links (put_prev h p v) xs = links h xs"
  by (rule links_cong) (auto simp: heap_simps)

lemma cyc_frame: "upd_only S h h' \<Longrightarrow> set xs \<inter> S = {} \<Longrightarrow> cyc h' xs = cyc h xs"
proof -
  assume u: "upd_only S h h'" and d: "set xs \<inter> S = {}"
  have "links h' (xs @ [hd xs]) = links h (xs @ [hd xs])" if "xs \<noteq> []"
  proof (rule links_cong)
    fix p assume "p \<in> set (butlast (xs @ [hd xs]))"
    with d have "p \<notin> S" by auto
    with u show "nx h' p = nx h p" by (simp add: nx_def upd_only_node)
  next
    fix p assume "p \<in> set (tl (xs @ [hd xs]))"
    with d that have "p \<notin> S" by (cases xs) auto
    with u show "pv h' p = pv h p" by (simp add: pv_def upd_only_node)
  qed
  with u show ?thesis by (auto simp: cyc_def upd_only_valid)
qed

lemma is_list_frame:
  "upd_only S h h' \<Longrightarrow> is_list h head xs \<Longrightarrow> set (head # xs) \<inter> S = {} \<Longrightarrow> is_list h' head xs"
  unfolding is_list_def using cyc_frame [of S h h' "head # xs"] by simp

lemma cyc_rotate: "cyc h (xs @ ys) \<Longrightarrow> cyc h (ys @ xs)"
proof (cases xs)
  case Nil
  moreover assume "cyc h (xs @ ys)"
  ultimately show ?thesis by simp
next
  case xs: (Cons x xs')
  assume c: "cyc h (xs @ ys)"
  show ?thesis
  proof (cases ys)
    case Nil
    with c show ?thesis by simp
  next
    case (Cons y ys')
    with c xs show ?thesis
      using links_append [of h "x # xs'" y "ys' @ [x]"] links_append [of h "y # ys'" x "xs' @ [y]"]
      by (auto simp: cyc_def)
  qed
qed

lemma cyc_valid: "cyc h xs \<Longrightarrow> p \<in> set xs \<Longrightarrow> valid h p"
  by (simp add: cyc_def)

lemma cyc_single: "cyc h [p] \<longleftrightarrow> valid h p \<and> nx h p = p \<and> pv h p = p"
  by (auto simp: cyc_def)

lemma cyc_Cons2:
  "cyc h (a # b # zs) \<longleftrightarrow>
     distinct (a # b # zs) \<and> (\<forall>p\<in>set (a # b # zs). valid h p) \<and>
     nx h a = b \<and> pv h b = a \<and> links h (b # zs @ [a])"
  by (auto simp: cyc_def)

text \<open>A ring seen from its header and its last node.\<close>

lemma is_list_Nil: "is_list h head [] \<longleftrightarrow> valid h head \<and> nx h head = head \<and> pv h head = head"
  by (simp add: is_list_def cyc_single)

lemma is_list_valid: "is_list h head xs \<Longrightarrow> p = head \<or> p \<in> set xs \<Longrightarrow> valid h p"
  by (auto simp: is_list_def cyc_def)

lemma is_list_next: "is_list h head xs \<Longrightarrow> nx h head = hd (xs @ [head])"
  by (cases xs) (auto simp: is_list_def cyc_def)

lemma is_list_prev: "is_list h head xs \<Longrightarrow> pv h head = last (head # xs)"
proof (cases xs rule: rev_cases)
  case Nil
  moreover assume "is_list h head xs"
  ultimately show ?thesis by (simp add: is_list_Nil)
next
  case (snoc zs z)
  moreover assume "is_list h head xs"
  ultimately show ?thesis
    by (auto simp: is_list_def cyc_def links_split)
qed


section \<open>Insertion and deletion\<close>

lemma INIT_LIST_HEAD_ok:
  "valid h p \<Longrightarrow> \<exists>h'. INIT_LIST_HEAD h p = Some h' \<and> is_list h' p [] \<and> upd_only {p} h h'"
  by (simp add: INIT_LIST_HEAD_def is_list_Nil heap_simps)

lemma raw_list_add_cyc:
  assumes "cyc h (a # ys)" "b = hd (ys @ [a])" "valid h new" "new \<notin> set (a # ys)"
  shows "\<exists>h'. raw_list_add h new a b = Some h' \<and> cyc h' (a # new # ys) \<and>
           upd_only (set (a # new # ys)) h h'"
proof (cases ys)
  case Nil
  with assms show ?thesis
    by (auto simp: raw_list_add_def list_add_valid_def cyc_def heap_simps)
next
  case (Cons y zs)
  with assms show ?thesis
    by (auto simp: raw_list_add_def list_add_valid_def cyc_Cons2 heap_simps butlast_append)
qed

lemma list_add_cyc:
  assumes "cyc h (p # ys)" "valid h new" "new \<notin> set (p # ys)"
  shows "\<exists>h'. list_add h new p = Some h' \<and> cyc h' (p # new # ys) \<and>
           upd_only (set (p # new # ys)) h h'"
proof -
  from assms have "valid h p" "nx h p = hd (ys @ [p])"
    using is_list_next [of h p ys] by (auto simp: cyc_def is_list_def)
  with raw_list_add_cyc [OF assms(1) refl assms(2,3)] show ?thesis
    by (simp add: list_add_def heap_simps)
qed

lemma list_add_tail_cyc:
  assumes "cyc h (ys @ [p])" "valid h new" "new \<notin> set (ys @ [p])"
  shows "\<exists>h'. list_add_tail h new p = Some h' \<and> cyc h' (ys @ [new, p]) \<and>
           upd_only (set (ys @ [new, p])) h h'"
proof -
  from assms(1) have p: "cyc h (p # ys)" using cyc_rotate by fastforce
  then have v: "valid h p" and l: "pv h p = last (p # ys)"
    using is_list_prev [of h p ys] by (auto simp: cyc_def is_list_def)
  show ?thesis
  proof (cases ys rule: rev_cases)
    case Nil
    with p v l assms raw_list_add_cyc [of h p "[]" p new] show ?thesis
      using cyc_rotate [of _ "[p]" "[new]"]
      by (fastforce simp: list_add_tail_def heap_simps insert_commute)
  next
    case (snoc zs z)
    with p have "cyc h ((p # zs) @ [z])" by simp
    then have "cyc h (z # p # zs)" using cyc_rotate [of h "p # zs" "[z]"] by simp
    with snoc assms raw_list_add_cyc [of h z "p # zs" p new] obtain h' where
      "raw_list_add h new z p = Some h'" "cyc h' (z # new # p # zs)"
      "upd_only (set (z # new # p # zs)) h h'" by auto
    with snoc v l show ?thesis
      using cyc_rotate [of h' "[z, new, p]" zs]
      by (auto simp: list_add_tail_def heap_simps elim!: upd_only_mono)
  qed
qed

lemma raw_list_del_entry_cyc:
  assumes "cyc h (e # xs)" "xs \<noteq> []"
  shows "\<exists>h'. raw_list_del_entry h e = Some h' \<and> cyc h' xs \<and> upd_only (set xs) h h'"
proof -
  from assms(2) obtain x zs where xs: "xs = x # zs" by (cases xs) auto
  from assms(1) have v: "valid h e" and n: "nx h e = x" and p: "pv h e = last xs"
    using is_list_prev [of h e xs] is_list_next [of h e xs] xs
    by (auto simp: cyc_def is_list_def)
  show ?thesis
  proof (cases zs rule: rev_cases)
    case Nil
    with assms xs v n p show ?thesis
      by (auto simp: raw_list_del_entry_def list_del_entry_valid_def raw_list_del_def cyc_def
          heap_simps)
  next
    case (snoc ws w)
    with assms xs v n p show ?thesis
      by (auto simp: raw_list_del_entry_def list_del_entry_valid_def raw_list_del_def cyc_def
          links_split heap_simps butlast_append)
  qed
qed

lemma list_del_cyc:
  assumes "cyc h (e # xs)" "xs \<noteq> []"
  shows "\<exists>h'. list_del h e = Some h' \<and> cyc h' xs \<and> nx h' e = LIST_POISON1 \<and>
           pv h' e = LIST_POISON2 \<and> upd_only (set (e # xs)) h h'"
proof -
  from raw_list_del_entry_cyc [OF assms] obtain g where
    g: "raw_list_del_entry h e = Some g" "cyc g xs" "upd_only (set xs) h g" by auto
  from assms g have v: "valid g e" "e \<notin> set xs"
    by (auto simp: cyc_def upd_only_valid)
  define h' where "h' = put_prev (put_next g e LIST_POISON1) e LIST_POISON2"
  have "upd_only {e} g h'" using v by (simp add: h'_def heap_simps)
  then have "cyc h' xs" "upd_only (set xs \<union> {e}) h h'"
    using g v cyc_frame upd_only_trans by fastforce+
  moreover have "list_del h e = Some h'"
    using g v by (simp add: list_del_def h'_def heap_simps)
  moreover have "nx h' e = LIST_POISON1" "pv h' e = LIST_POISON2"
    using v by (simp_all add: h'_def heap_simps)
  ultimately show ?thesis by auto
qed

lemma list_del_init_cyc:
  assumes "cyc h (e # xs)" "xs \<noteq> []"
  shows "\<exists>h'. list_del_init h e = Some h' \<and> cyc h' xs \<and> is_list h' e [] \<and>
           upd_only (set (e # xs)) h h'"
proof -
  from raw_list_del_entry_cyc [OF assms] obtain g where
    g: "raw_list_del_entry h e = Some g" "cyc g xs" "upd_only (set xs) h g" by auto
  from assms g have v: "valid g e" "e \<notin> set xs"
    by (auto simp: cyc_def upd_only_valid)
  from INIT_LIST_HEAD_ok [OF v(1)] obtain h' where
    h': "INIT_LIST_HEAD g e = Some h'" "is_list h' e []" "upd_only {e} g h'" by auto
  then have "cyc h' xs" "upd_only (set xs \<union> {e}) h h'"
    using g v cyc_frame upd_only_trans by fastforce+
  with g h' show ?thesis by (auto simp: list_del_init_def)
qed

lemma list_replace_cyc:
  assumes "cyc h (old # xs)" "valid h new" "new \<notin> set (old # xs)"
  shows "\<exists>h'. list_replace h old new = Some h' \<and> cyc h' (new # xs) \<and>
           upd_only (set (old # new # xs)) h h'"
proof -
  from assms(1) have v: "valid h old" "nx h old = hd (xs @ [old])" "pv h old = last (old # xs)"
    using is_list_prev [of h old xs] is_list_next [of h old xs] by (auto simp: cyc_def is_list_def)
  consider "xs = []" | x where "xs = [x]" | x zs z where "xs = x # zs @ [z]"
    by (metis rev_exhaust list.exhaust)
  then show ?thesis
  proof cases
    case 1
    with assms v show ?thesis by (auto simp: list_replace_def cyc_def heap_simps)
  next
    case 2
    with assms v show ?thesis by (auto simp: list_replace_def cyc_def heap_simps)
  next
    case 3
    with assms v show ?thesis
      by (auto simp: list_replace_def cyc_def links_split heap_simps butlast_append)
  qed
qed


section \<open>The operations on whole lists\<close>

text \<open>
  The list operations, stated on the entries of the lists. The footprint in each result
  lets a client keep every list that shares no node with the operands.
\<close>

lemma is_list_rotate_to:
  "is_list h head (as @ e # bs) \<longleftrightarrow> cyc h (e # bs @ head # as)"
  using cyc_rotate [of h "head # as" "e # bs"] cyc_rotate [of h "e # bs" "head # as"]
  by (auto simp: is_list_def)

lemma list_add_ok:
  assumes "is_list h head xs" "valid h new" "new \<notin> set (head # xs)"
  shows "\<exists>h'. list_add h new head = Some h' \<and> is_list h' head (new # xs) \<and>
           upd_only (set (head # new # xs)) h h'"
  using list_add_cyc assms unfolding is_list_def by blast

lemma list_add_tail_ok:
  assumes "is_list h head xs" "valid h new" "new \<notin> set (head # xs)"
  shows "\<exists>h'. list_add_tail h new head = Some h' \<and> is_list h' head (xs @ [new]) \<and>
           upd_only (set (head # new # xs)) h h'"
proof -
  have "cyc h (xs @ [head])"
    using assms(1) cyc_rotate [of h "[head]" xs] by (simp add: is_list_def)
  with assms list_add_tail_cyc [of h xs head new] obtain h' where
    "list_add_tail h new head = Some h'" "cyc h' (xs @ [new, head])"
    "upd_only (set (xs @ [new, head])) h h'" by auto
  then show ?thesis
    using cyc_rotate [of h' "xs @ [new]" "[head]"]
    by (auto simp: is_list_def elim!: upd_only_mono)
qed

lemma list_del_ok:
  assumes "is_list h head (as @ e # bs)"
  shows "\<exists>h'. list_del h e = Some h' \<and> is_list h' head (as @ bs) \<and>
           nx h' e = LIST_POISON1 \<and> pv h' e = LIST_POISON2 \<and>
           upd_only (set (head # as @ e # bs)) h h'"
proof -
  from assms list_del_cyc [of h e "bs @ head # as"] obtain h' where
    "list_del h e = Some h'" "cyc h' (bs @ head # as)" "nx h' e = LIST_POISON1"
    "pv h' e = LIST_POISON2" "upd_only (set (e # bs @ head # as)) h h'"
    by (auto simp: is_list_rotate_to)
  then show ?thesis
    using cyc_rotate [of h' bs "head # as"] by (auto simp: is_list_def elim!: upd_only_mono)
qed

lemma list_del_init_ok:
  assumes "is_list h head (as @ e # bs)"
  shows "\<exists>h'. list_del_init h e = Some h' \<and> is_list h' head (as @ bs) \<and> is_list h' e [] \<and>
           upd_only (set (head # as @ e # bs)) h h'"
proof -
  from assms list_del_init_cyc [of h e "bs @ head # as"] obtain h' where
    "list_del_init h e = Some h'" "cyc h' (bs @ head # as)" "is_list h' e []"
    "upd_only (set (e # bs @ head # as)) h h'"
    by (auto simp: is_list_rotate_to)
  then show ?thesis
    using cyc_rotate [of h' bs "head # as"] by (auto simp: is_list_def elim!: upd_only_mono)
qed

lemma list_replace_ok:
  assumes "is_list h head (as @ old # bs)" "valid h new" "new \<notin> set (head # as @ old # bs)"
  shows "\<exists>h'. list_replace h old new = Some h' \<and> is_list h' head (as @ new # bs) \<and>
           upd_only (set (head # new # as @ old # bs)) h h'"
proof -
  from assms list_replace_cyc [of h old "bs @ head # as" new] obtain h' where
    "list_replace h old new = Some h'" "cyc h' (new # bs @ head # as)"
    "upd_only (set (old # new # bs @ head # as)) h h'"
    by (auto simp: is_list_rotate_to)
  then show ?thesis by (auto simp: is_list_rotate_to elim!: upd_only_mono)
qed

lemma list_replace_init_ok:
  assumes "is_list h head (as @ old # bs)" "valid h new" "new \<notin> set (head # as @ old # bs)"
  shows "\<exists>h'. list_replace_init h old new = Some h' \<and> is_list h' head (as @ new # bs) \<and>
           is_list h' old [] \<and> upd_only (set (head # new # as @ old # bs)) h h'"
proof -
  from list_replace_ok [OF assms] obtain g where
    g: "list_replace h old new = Some g" "is_list g head (as @ new # bs)"
    "upd_only (set (head # new # as @ old # bs)) h g" by auto
  from assms have v: "valid g old" "old \<notin> set (head # as @ new # bs)"
    using is_list_valid [of h head "as @ old # bs" old] g(3)
    by (auto simp: is_list_def cyc_def upd_only_valid)
  from INIT_LIST_HEAD_ok [OF v(1)] obtain h' where
    h': "INIT_LIST_HEAD g old = Some h'" "is_list h' old []" "upd_only {old} g h'" by auto
  then have "is_list h' head (as @ new # bs)"
    using g v is_list_frame by fastforce
  moreover have "upd_only (set (head # new # as @ old # bs)) h h'"
    using upd_only_trans [OF g(3) h'(3)] by (rule upd_only_mono) auto
  ultimately show ?thesis using g h' by (simp add: list_replace_init_def)
qed

lemma list_swap_cyc:
  assumes "cyc h (e1 # xs @ e2 # ys)"
  shows "\<exists>h'. list_swap h e1 e2 = Some h' \<and> cyc h' (e2 # xs @ e1 # ys) \<and>
           upd_only (set (e1 # xs @ e2 # ys)) h h'"
proof -
  let ?S = "set (e1 # xs @ e2 # ys)"
  from assms have c2: "cyc h (e2 # ys @ e1 # xs)"
    using cyc_rotate [of h "e1 # xs" "e2 # ys"] by simp
  then have v: "valid h e2" and pos: "pv h e2 = last (e1 # xs)" and
    d: "distinct (e2 # ys @ e1 # xs)"
    using is_list_prev [of h e2 "ys @ e1 # xs"] by (auto simp: cyc_def is_list_def)
  have ne: "ys @ e1 # xs \<noteq> []" and S: "set (e2 # ys @ e1 # xs) = ?S" by auto
  from list_del_cyc [OF c2 ne] obtain h1 where
    h1: "list_del h e2 = Some h1" "cyc h1 (ys @ e1 # xs)" "upd_only ?S h h1"
    unfolding S by blast
  from h1(2) have "cyc h1 (e1 # xs @ ys)" using cyc_rotate [of h1 ys "e1 # xs"] by simp
  moreover have "valid h1 e2" using v h1(3) by (simp add: upd_only_valid)
  ultimately obtain h2 where
    h2: "list_replace h1 e1 e2 = Some h2" "cyc h2 (e2 # xs @ ys)" "upd_only ?S h1 h2"
    using list_replace_cyc [of h1 e1 "xs @ ys" e2] d by (auto elim!: upd_only_mono)
  have v1: "valid h2 e1"
    using assms h1(3) h2(3) by (simp add: cyc_def upd_only_valid)
  define q where "q = (if last (e1 # xs) = e1 then e2 else last (e1 # xs))"
  define zs where "zs = butlast (e2 # xs)"
  have q: "e2 # xs = zs @ [q]"
    using d by (cases xs rule: rev_cases) (auto simp: q_def zs_def)
  then have "cyc h2 (q # ys @ zs)"
    using h2(2) cyc_rotate [of h2 zs "q # ys"] by (metis append_Cons append_assoc append_Nil)
  moreover have "e1 \<notin> set (q # ys @ zs)"
  proof -
    have "set (zs @ [q]) = set (e2 # xs)" by (simp add: q)
    with d show ?thesis by auto
  qed
  ultimately obtain h3 where
    h3: "list_add h2 e1 q = Some h3" "cyc h3 (q # e1 # ys @ zs)"
      "upd_only (set (q # e1 # ys @ zs)) h2 h3"
    using list_add_cyc [of h2 q "ys @ zs" e1] v1 by auto
  have "cyc h3 (zs @ q # e1 # ys)" using h3(2) cyc_rotate [of h3 "q # e1 # ys" zs] by simp
  then have "cyc h3 (e2 # xs @ e1 # ys)" using q by (metis append_Cons append_assoc append_Nil)
  moreover have "upd_only ?S h h3"
  proof -
    have "set (zs @ [q]) = set (e2 # xs)" by (simp add: q)
    then have "upd_only ?S h2 h3" by (intro upd_only_mono [OF h3(3)]) auto
    with h1(3) h2(3) show ?thesis by (blast intro: upd_only_trans_same)
  qed
  moreover have "list_swap h e1 e2 = Some h3"
    using h1(1) h2(1) h3(1) v pos
    by (simp add: list_swap_def heap_simps q_def del: last.simps)
  ultimately show ?thesis by blast
qed


lemma list_move_ok:
  assumes "is_list h head (as @ e # bs)"
  shows "\<exists>h'. list_move h e head = Some h' \<and> is_list h' head (e # as @ bs) \<and>
           upd_only (set (head # as @ e # bs)) h h'"
proof -
  from assms raw_list_del_entry_cyc [of h e "bs @ head # as"] obtain g where
    g: "raw_list_del_entry h e = Some g" "cyc g (bs @ head # as)"
      "upd_only (set (bs @ head # as)) h g"
    by (auto simp: is_list_rotate_to)
  have "is_list g head (as @ bs)"
    using g(2) cyc_rotate [of g bs "head # as"] by (simp add: is_list_def)
  moreover have "valid g e" "e \<notin> set (head # as @ bs)"
    using assms g(3) by (auto simp: is_list_def cyc_def upd_only_valid)
  ultimately obtain h' where
    h': "list_add g e head = Some h'" "is_list h' head (e # as @ bs)"
      "upd_only (set (head # e # as @ bs)) g h'"
    using list_add_ok by blast
  have "upd_only (set (head # as @ e # bs)) h h'"
    using upd_only_trans [OF g(3) h'(3)] by (rule upd_only_mono) auto
  with g h' show ?thesis by (simp add: list_move_def)
qed

lemma list_move_tail_cyc:
  assumes "cyc h (e # bs @ p # as)"
  shows "\<exists>h'. list_move_tail h e p = Some h' \<and> cyc h' (e # p # as @ bs) \<and>
           upd_only (set (e # bs @ p # as)) h h'"
proof -
  from assms raw_list_del_entry_cyc [of h e "bs @ p # as"] obtain g where
    g: "raw_list_del_entry h e = Some g" "cyc g (bs @ p # as)"
      "upd_only (set (bs @ p # as)) h g"
    by auto
  have "is_list g p (as @ bs)"
    using g(2) cyc_rotate [of g bs "p # as"] by (simp add: is_list_def)
  moreover have "valid g e" "e \<notin> set (p # as @ bs)"
    using assms g(3) by (auto simp: cyc_def upd_only_valid)
  ultimately obtain h' where
    h': "list_add_tail g e p = Some h'" "is_list h' p ((as @ bs) @ [e])"
      "upd_only (set (p # e # as @ bs)) g h'"
    using list_add_tail_ok by blast
  have "upd_only (set (e # bs @ p # as)) h h'"
    using upd_only_trans [OF g(3) h'(3)] by (rule upd_only_mono) auto
  moreover have "cyc h' (e # p # as @ bs)"
    using h'(2) cyc_rotate [of h' "p # as @ bs" "[e]"] by (simp add: is_list_def)
  ultimately show ?thesis using g h' by (simp add: list_move_tail_def)
qed

lemma list_move_tail_ok:
  assumes "is_list h head (as @ e # bs)"
  shows "\<exists>h'. list_move_tail h e head = Some h' \<and> is_list h' head (as @ bs @ [e]) \<and>
           upd_only (set (head # as @ e # bs)) h h'"
proof -
  have S: "set (e # bs @ head # as) = set (head # as @ e # bs)" by auto
  from assms list_move_tail_cyc [of h e bs head as] obtain h' where
    "list_move_tail h e head = Some h'" "cyc h' (e # head # as @ bs)"
    "upd_only (set (head # as @ e # bs)) h h'"
    unfolding is_list_rotate_to S by blast
  then show ?thesis
    using cyc_rotate [of h' "[e]" "head # as @ bs"] by (simp add: is_list_def)
qed

text \<open>Moving an entry between two different lists.\<close>

lemma list_move_other:
  assumes "is_list h src (as @ e # bs)" "is_list h dst ys"
    and "set (src # as @ e # bs) \<inter> set (dst # ys) = {}"
  shows "\<exists>h'. list_move h e dst = Some h' \<and> is_list h' src (as @ bs) \<and> is_list h' dst (e # ys)"
proof -
  from assms(1) raw_list_del_entry_cyc [of h e "bs @ src # as"] obtain g where
    g: "raw_list_del_entry h e = Some g" "cyc g (bs @ src # as)"
      "upd_only (set (bs @ src # as)) h g"
    by (auto simp: is_list_rotate_to)
  have src: "is_list g src (as @ bs)"
    using g(2) cyc_rotate [of g bs "src # as"] by (simp add: is_list_def)
  have "is_list g dst ys" using is_list_frame [OF g(3) assms(2)] assms(3) by auto
  moreover have "valid g e" "e \<notin> set (dst # ys)" "e \<notin> set (src # as @ bs)"
    using assms g(3) by (auto simp: is_list_def cyc_def upd_only_valid)
  ultimately obtain h' where
    h': "list_add g e dst = Some h'" "is_list h' dst (e # ys)"
      "upd_only (set (dst # e # ys)) g h'"
    using list_add_ok by blast
  then have "is_list h' src (as @ bs)"
    using is_list_frame [OF h'(3) src] \<open>e \<notin> set (src # as @ bs)\<close> assms(3) by auto
  with g h' show ?thesis by (simp add: list_move_def)
qed

lemma list_rotate_left_ok:
  assumes "is_list h head xs"
  shows "\<exists>h'. list_rotate_left h head = Some h' \<and> is_list h' head (rotate1 xs)"
proof (cases xs)
  case Nil
  with assms show ?thesis
    by (simp add: list_rotate_left_def list_empty_def is_list_Nil heap_simps)
next
  case (Cons x ys)
  have "valid h head" "nx h head = x" "x \<noteq> head"
    using assms Cons by (auto simp: is_list_def cyc_def)
  with list_move_tail_ok [of h head "[]" x ys] assms Cons show ?thesis
    by (auto simp: list_rotate_left_def list_empty_def heap_simps)
qed

lemma list_rotate_to_front_ok:
  assumes "is_list h head (as @ l # bs)"
  shows "\<exists>h'. list_rotate_to_front h l head = Some h' \<and> is_list h' head (l # bs @ as)"
  using assms list_move_tail_cyc [of h head as l bs]
  by (auto simp: is_list_def list_rotate_to_front_def)

lemma list_tests_ok:
  assumes "is_list h head xs"
  shows "list_empty h head = Some (xs = [])"
    and "list_is_singular h head = Some (length xs = 1)"
    and "e \<in> set xs \<Longrightarrow> list_is_first h e head = Some (e = hd xs)"
    and "e \<in> set xs \<Longrightarrow> list_is_last h e head = Some (e = last xs)"
proof -
  have v: "valid h head" "nx h head = hd (xs @ [head])" "pv h head = last (head # xs)"
    and d: "distinct (head # xs)"
    using is_list_next [OF assms] is_list_prev [OF assms] is_list_valid [OF assms] assms
    by (auto simp: is_list_def cyc_def)
  show empty: "list_empty h head = Some (xs = [])"
    using v d by (cases xs) (auto simp: list_empty_def heap_simps)
  show "list_is_singular h head = Some (length xs = 1)"
  proof (cases xs)
    case (Cons x ys)
    with v d empty show ?thesis
      by (cases ys rule: rev_cases) (auto simp: list_is_singular_def heap_simps)
  qed (use v empty in \<open>simp add: list_is_singular_def\<close>)
  assume "e \<in> set xs"
  then obtain as bs where xs: "xs = as @ e # bs" by (meson split_list)
  then have c: "is_list h e (bs @ head # as)"
    using assms is_list_rotate_to [of h head as e bs] by (simp add: is_list_def)
  have "valid h e" using c by (simp add: is_list_def cyc_def)
  moreover have "pv h e = last (head # as)" using is_list_prev [OF c] by simp
  moreover have "nx h e = hd (bs @ [head])" using is_list_next [OF c] by (cases bs) auto
  moreover have "(e = hd xs) = (as = [])" using d xs by (cases as) auto
  moreover have "(last (head # as) = head) = (as = [])"
    using d xs by (cases as rule: rev_cases) auto
  moreover have "(e = last xs) = (bs = [])" using d xs by (cases bs rule: rev_cases) auto
  moreover have "(hd (bs @ [head]) = head) = (bs = [])" using d xs by (cases bs) auto
  ultimately show "list_is_first h e head = Some (e = hd xs)"
    and "list_is_last h e head = Some (e = last xs)"
    by (simp_all add: list_is_first_def list_is_last_def heap_simps)
qed

text \<open>Bulk moves, cuts and splices.\<close>

lemma list_ends_cases:
  obtains "xs = []" | x where "xs = [x]" | x ys y where "xs = x # ys @ [y]"
  by (metis rev_exhaust list.exhaust)

lemma list_bulk_move_tail_ok:
  assumes "is_list h head (as @ ms @ bs)" "ms \<noteq> []"
  shows "\<exists>h'. list_bulk_move_tail h head (hd ms) (last ms) = Some h' \<and>
           is_list h' head (as @ bs @ ms) \<and> upd_only (set (head # as @ ms @ bs)) h h'"
  by (use assms in \<open>cases as rule: rev_cases; cases ms rule: list_ends_cases;
        cases bs rule: list_ends_cases;
        force simp: list_bulk_move_tail_def is_list_def cyc_def links_split heap_simps
          butlast_append\<close>)

lemma raw_list_cut_position_ok:
  assumes "is_list h head (as @ e # bs)" "valid h lst" "lst \<notin> set (head # as @ e # bs)"
  shows "\<exists>h'. raw_list_cut_position h lst head e = Some h' \<and> is_list h' lst (as @ [e]) \<and>
           is_list h' head bs \<and> upd_only (set (lst # head # as @ e # bs)) h h'"
  by (use assms in \<open>cases as; cases bs rule: list_ends_cases;
        force simp: raw_list_cut_position_def is_list_def cyc_def links_split heap_simps
          butlast_append\<close>)

lemma raw_list_splice_after:
  assumes "is_list h head xs" "is_list h lst ys" "ys \<noteq> []"
    and "set (head # xs) \<inter> set (lst # ys) = {}"
  shows "\<exists>h'. raw_list_splice h lst head (hd (xs @ [head])) = Some h' \<and>
           is_list h' head (ys @ xs) \<and> upd_only (set (head # xs @ ys)) h h' \<and> valid h' lst"
  by (use assms in \<open>cases xs; cases ys rule: list_ends_cases;
        force simp: raw_list_splice_def is_list_def cyc_def links_split heap_simps
          butlast_append\<close>)


lemma raw_list_splice_before:
  assumes "is_list h head xs" "is_list h lst ys" "ys \<noteq> []"
    and "set (head # xs) \<inter> set (lst # ys) = {}"
  shows "\<exists>h'. raw_list_splice h lst (last (head # xs)) head = Some h' \<and>
           is_list h' head (xs @ ys) \<and> upd_only (set (head # xs @ ys)) h h' \<and> valid h' lst"
  by (use assms in \<open>cases xs rule: rev_cases; cases ys rule: list_ends_cases;
        force simp: raw_list_splice_def is_list_def cyc_def links_split heap_simps
          butlast_append\<close>)

lemma list_splice_ok:
  assumes "is_list h head xs" "is_list h lst ys" "set (head # xs) \<inter> set (lst # ys) = {}"
  shows "\<exists>h'. list_splice h lst head = Some h' \<and> is_list h' head (ys @ xs)"
    and "\<exists>h'. list_splice_tail h lst head = Some h' \<and> is_list h' head (xs @ ys)"
  using raw_list_splice_after [OF assms(1,2) _ assms(3)]
    raw_list_splice_before [OF assms(1,2) _ assms(3)] assms
    list_tests_ok(1) [OF assms(2)] is_list_next [OF assms(1)] is_list_prev [OF assms(1)]
    is_list_valid [OF assms(1), of head]
  by (cases ys; auto simp: list_splice_def list_splice_tail_def heap_simps)+

lemma splice_then_init:
  assumes "\<exists>h'. raw_list_splice h lst p n = Some h' \<and> is_list h' head zs \<and>
             upd_only S h h' \<and> valid h' lst" "lst \<notin> set (head # zs)"
  shows "\<exists>h'. raw_list_splice h lst p n \<bind> (\<lambda>g. INIT_LIST_HEAD g lst) = Some h' \<and>
           is_list h' head zs \<and> is_list h' lst [] \<and> upd_only (insert lst S) h h'"
proof -
  from assms(1) obtain g where g: "raw_list_splice h lst p n = Some g" "is_list g head zs"
    "upd_only S h g" "valid g lst" by auto
  from INIT_LIST_HEAD_ok [OF g(4)] obtain h' where
    h': "INIT_LIST_HEAD g lst = Some h'" "is_list h' lst []" "upd_only {lst} g h'" by auto
  have "is_list h' head zs" using is_list_frame [OF h'(3) g(2)] assms(2) by auto
  with g h' upd_only_trans [OF g(3) h'(3)] show ?thesis by simp
qed

lemma list_splice_init_ok:
  assumes "is_list h head xs" "is_list h lst ys" "set (head # xs) \<inter> set (lst # ys) = {}"
  shows "\<exists>h'. list_splice_init h lst head = Some h' \<and> is_list h' head (ys @ xs) \<and>
           is_list h' lst [] \<and> upd_only (set (lst # head # xs @ ys)) h h'"
    and "\<exists>h'. list_splice_tail_init h lst head = Some h' \<and> is_list h' head (xs @ ys) \<and>
           is_list h' lst [] \<and> upd_only (set (lst # head # xs @ ys)) h h'"
proof -
  note facts = list_tests_ok(1) [OF assms(2)] is_list_next [OF assms(1)]
    is_list_prev [OF assms(1)] is_list_valid [OF assms(1), of head]
  have l: "ys \<noteq> [] \<Longrightarrow> lst \<notin> set (head # ys @ xs)" "ys \<noteq> [] \<Longrightarrow> lst \<notin> set (head # xs @ ys)"
    using assms by (auto simp: is_list_def cyc_def)
  show "\<exists>h'. list_splice_init h lst head = Some h' \<and> is_list h' head (ys @ xs) \<and>
          is_list h' lst [] \<and> upd_only (set (lst # head # xs @ ys)) h h'"
    using splice_then_init [OF raw_list_splice_after [OF assms(1,2) _ assms(3)] l(1)] assms facts
    by (cases ys) (auto simp: list_splice_init_def heap_simps)
  show "\<exists>h'. list_splice_tail_init h lst head = Some h' \<and> is_list h' head (xs @ ys) \<and>
          is_list h' lst [] \<and> upd_only (set (lst # head # xs @ ys)) h h'"
    using splice_then_init [OF raw_list_splice_before [OF assms(1,2) _ assms(3)] l(2)] assms facts
    by (cases ys) (auto simp: list_splice_tail_init_def heap_simps)
qed

lemma list_cut_position_ok:
  assumes "is_list h head (as @ e # bs)" "valid h lst" "lst \<notin> set (head # as @ e # bs)"
  shows "\<exists>h'. list_cut_position h lst head e = Some h' \<and> is_list h' lst (as @ [e]) \<and>
           is_list h' head bs \<and> upd_only (set (lst # head # as @ e # bs)) h h'"
proof -
  have "e \<noteq> head" using assms(1) by (auto simp: is_list_def cyc_def)
  moreover have "nx h head = hd (as @ e # bs @ [head])" "valid h head"
    using is_list_next [OF assms(1)] is_list_valid [OF assms(1)] by auto
  ultimately show ?thesis
    using raw_list_cut_position_ok [OF assms] list_tests_ok(1,2) [OF assms(1)]
    by (cases as) (auto simp: list_cut_position_def heap_simps)
qed

lemma list_cut_position_head:
  assumes "is_list h head xs" "valid h lst" "lst \<notin> set (head # xs)"
  shows "\<exists>h'. list_cut_position h lst head head = Some h' \<and> is_list h' head xs \<and>
           (if xs = [] then h' = h else is_list h' lst [])"
proof -
  from INIT_LIST_HEAD_ok [OF assms(2)] obtain h' where
    "INIT_LIST_HEAD h lst = Some h'" "is_list h' lst []" "upd_only {lst} h h'" by auto
  with assms show ?thesis
    using is_list_frame [of "{lst}" h h' head xs] list_tests_ok(1,2) [OF assms(1)]
      is_list_valid [OF assms(1), of head]
    by (auto simp: list_cut_position_def heap_simps)
qed

lemma list_cut_before_ok:
  assumes "is_list h head (as @ bs)" "valid h lst" "lst \<notin> set (head # as @ bs)"
  shows "\<exists>h'. list_cut_before h lst head (hd (bs @ [head])) = Some h' \<and> is_list h' lst as \<and>
           is_list h' head bs \<and> upd_only (set (lst # head # as @ bs)) h h'"
  by (use assms in \<open>cases as rule: list_ends_cases; cases bs rule: list_ends_cases;
        force simp: list_cut_before_def INIT_LIST_HEAD_def is_list_def cyc_def links_split
          heap_simps butlast_append\<close>)


section \<open>Iteration\<close>

text \<open>The \<open>next\<close> and \<open>prev\<close> chains from the header back to it.\<close>

fun chain :: "('a lheap \<Rightarrow> 'a ptr \<Rightarrow> 'a ptr option) \<Rightarrow> 'a lheap \<Rightarrow> 'a ptr list \<Rightarrow> bool" where
  "chain stp h (x # y # zs) = (stp h x = Some y \<and> chain stp h (y # zs))"
| "chain stp h xs = True"

lemma chain_next:
  "links h xs \<Longrightarrow> (\<And>p. p \<in> set (butlast xs) \<Longrightarrow> valid h p) \<Longrightarrow> chain get_next h xs"
  by (induction h xs rule: links.induct) (auto simp: heap_simps)

lemma chain_snoc: "chain stp h (xs @ [y, z]) \<longleftrightarrow> chain stp h (xs @ [y]) \<and> stp h y = Some z"
proof (induction xs)
  case (Cons x xs)
  then show ?case by (cases xs) auto
qed auto

lemma chain_prev:
  "links h xs \<Longrightarrow> (\<And>p. p \<in> set (tl xs) \<Longrightarrow> valid h p) \<Longrightarrow> chain get_prev h (rev xs)"
proof (induction h xs rule: links.induct)
  case (1 h x y zs)
  then have "chain get_prev h (rev zs @ [y])" by auto
  with 1 show ?case by (simp add: chain_snoc heap_simps)
qed auto

lemma is_list_chain:
  assumes "is_list h head xs"
  shows "chain get_next h (head # xs @ [head])" "chain get_prev h (head # rev xs @ [head])"
proof -
  have l: "links h (head # xs @ [head])" and v: "\<And>p. p \<in> set (head # xs) \<Longrightarrow> valid h p"
    using assms by (auto simp: is_list_def cyc_def)
  show "chain get_next h (head # xs @ [head])"
    by (rule chain_next [OF l]) (use v in \<open>auto simp: butlast_append\<close>)
  have "chain get_prev h (rev (head # xs @ [head]))"
    by (rule chain_prev [OF l]) (use v in auto)
  then show "chain get_prev h (head # rev xs @ [head])" by simp
qed

text \<open>A body that leaves the heap alone is folded over the entries, in order.\<close>

lemma each_loop_fold:
  assumes "chain stp h (xs @ [head])" "head \<notin> set xs" "length xs < fuel"
    and "\<And>p t. p \<in> set xs \<Longrightarrow> body p t h = Some (f p t, h)"
  shows "each_loop fuel stp body (hd (xs @ [head])) head s h = Some (fold f xs s, h)"
  using assms
proof (induction xs arbitrary: fuel s)
  case Nil
  then show ?case by (cases fuel) auto
next
  case (Cons x xs)
  from Cons.prems obtain m where m: "fuel = Suc m" by (cases fuel) auto
  from Cons.prems have c: "stp h x = Some (hd (xs @ [head]))" "chain stp h (xs @ [head])"
    by (cases xs; simp)+
  from Cons.prems m c(2) have
    "each_loop m stp body (hd (xs @ [head])) head (f x s) h = Some (fold f xs (f x s), h)"
    by (intro Cons.IH) auto
  with Cons.prems m c show ?case by auto
qed

lemma chain_tl: "chain stp h (x # xs) \<Longrightarrow> chain stp h xs"
  by (cases xs) auto

lemma list_for_each_fold:
  assumes "is_list h head xs" "length xs < fuel"
    and "\<And>p t. p \<in> set xs \<Longrightarrow> body p t h = Some (f p t, h)"
  shows "list_for_each fuel body head s h = Some (fold f xs s, h)"
    and "list_for_each_prev fuel body head s h = Some (fold f (rev xs) s, h)"
proof -
  have d: "head \<notin> set xs" "valid h head" using assms(1) by (auto simp: is_list_def cyc_def)
  note c = is_list_chain [OF assms(1)]
  have "each_loop fuel get_next body (hd (xs @ [head])) head s h = Some (fold f xs s, h)"
    by (rule each_loop_fold [OF chain_tl [OF c(1)]]) (use assms d in auto)
  then show "list_for_each fuel body head s h = Some (fold f xs s, h)"
    using d is_list_next [OF assms(1)] by (simp add: list_for_each_def heap_simps)
  have "each_loop fuel get_prev body (hd (rev xs @ [head])) head s h = Some (fold f (rev xs) s, h)"
    by (rule each_loop_fold [OF chain_tl [OF c(2)]]) (use assms d in auto)
  moreover have "hd (rev xs @ [head]) = pv h head"
    using is_list_prev [OF assms(1)] by (cases xs rule: rev_cases) auto
  ultimately show "list_for_each_prev fuel body head s h = Some (fold f (rev xs) s, h)"
    using d by (simp add: list_for_each_prev_def heap_simps)
qed

text \<open>
  Deleting the cursor. With \<open>list_del\<close> as the body the safe variant unlinks every entry;
  the plain variant reads the poisoned \<open>next\<close> field of the deleted entry and faults.
\<close>

definition del_body :: "('a, 's) loop_body" where
  "del_body p s h = do { h \<leftarrow> list_del_init h p; Some (s, h) }"

lemma safe_loop_del:
  assumes "is_list h head xs" "length xs < fuel" "n = hd (tl xs @ [head])"
    "xs = [] \<longrightarrow> n = hd (tl (head # xs @ [head]))"
  shows "\<exists>h'. safe_loop fuel get_next del_body (hd (xs @ [head])) n head s h = Some (s, h') \<and>
           is_list h' head [] \<and> (\<forall>p\<in>set xs. is_list h' p []) \<and> upd_only (set (head # xs)) h h'"
  using assms
proof (induction xs arbitrary: h fuel n)
  case Nil
  then show ?case by (cases fuel) auto
next
  case (Cons x xs)
  from Cons.prems obtain m where m: "fuel = Suc m" by (cases fuel) auto
  have d: "distinct (head # x # xs)" using Cons.prems by (auto simp: is_list_def cyc_def)
  from list_del_init_ok [of h head "[]" x xs] Cons.prems obtain g where
    g: "list_del_init h x = Some g" "is_list g head xs" "is_list g x []"
      "upd_only (set (head # x # xs)) h g" by auto
  let ?n = "hd (xs @ [head])" and ?n' = "if xs = [] then hd (tl (head # xs @ [head])) else hd (tl xs @ [head])"
  have n: "get_next g ?n = Some ?n'"
    using is_list_chain(1) [OF g(2)] by (cases xs; cases "tl xs") auto
  from Cons.IH [OF g(2), of m ?n'] Cons.prems m obtain h' where
    h': "safe_loop m get_next del_body ?n ?n' head s g = Some (s, h')" "is_list h' head []"
      "\<forall>p\<in>set xs. is_list h' p []" "upd_only (set (head # xs)) g h'"
    by (cases xs) auto
  have "is_list h' x []" using is_list_frame [OF h'(4) g(3)] d by auto
  moreover have "upd_only (set (head # x # xs)) h h'"
    using upd_only_trans [OF g(4) h'(4)] by (rule upd_only_mono) auto
  moreover have "del_body x s h = Some (s, g)" using g by (simp add: del_body_def)
  ultimately show ?case using m h' n d Cons.prems(3) by auto
qed

lemma list_for_each_safe_del:
  assumes "is_list h head xs" "length xs < fuel"
  shows "\<exists>h'. list_for_each_safe fuel del_body head s h = Some (s, h') \<and>
           is_list h' head [] \<and> (\<forall>p\<in>set xs. is_list h' p []) \<and> upd_only (set (head # xs)) h h'"
proof -
  let ?n = "if xs = [] then hd (tl (head # xs @ [head])) else hd (tl xs @ [head])"
  have "get_next h head = Some (hd (xs @ [head]))" "get_next h (hd (xs @ [head])) = Some ?n"
    using is_list_chain(1) [OF assms(1)] by (cases xs; cases "tl xs"; auto)+
  moreover have "\<exists>h'. safe_loop fuel get_next del_body (hd (xs @ [head])) ?n head s h = Some (s, h') \<and>
      is_list h' head [] \<and> (\<forall>p\<in>set xs. is_list h' p []) \<and> upd_only (set (head # xs)) h h'"
    by (rule safe_loop_del [OF assms]) auto
  ultimately show ?thesis by (simp add: list_for_each_safe_def)
qed

definition poison_body :: "('a, 's) loop_body" where
  "poison_body p s h = do { h \<leftarrow> list_del h p; Some (s, h) }"

lemma list_for_each_del_faults:
  assumes "is_list h head (x # xs)"
  shows "list_for_each fuel poison_body head s h = None"
proof -
  have v: "valid h head" "nx h head = x" "x \<noteq> head"
    using assms by (auto simp: is_list_def cyc_def)
  from list_del_ok [of h head "[]" x xs] assms obtain g where
    g: "list_del h x = Some g" "nx g x = LIST_POISON1" "upd_only (set (head # x # xs)) h g" by auto
  have vg: "valid g x" "\<not> valid g LIST_POISON1" "head \<noteq> LIST_POISON1"
    using assms g(3) v by (auto simp: is_list_def cyc_def upd_only_valid LIST_POISON1_def)
  have "list_del g LIST_POISON1 = None"
    by (simp add: list_del_def raw_list_del_entry_def list_del_entry_valid_def get_prev_def
        LIST_POISON1_def load_def)
  then have "each_loop m get_next poison_body LIST_POISON1 head s g = None" for m
    using vg by (cases m) (auto simp: poison_body_def)
  moreover have "poison_body x s h = Some (s, g)" using g by (simp add: poison_body_def)
  ultimately have "each_loop fuel get_next poison_body x head s h = None"
    using v vg g by (cases fuel) (auto simp: heap_simps)
  then show ?thesis using v by (simp add: list_for_each_def heap_simps)
qed

section \<open>The library implements its contract\<close>

interpretation ll: intrusive_list is_list valid upd_only INIT_LIST_HEAD list_add list_add_tail
  list_del_init list_empty get_next
proof unfold_locales
  fix h :: "'a lheap" and k e xs
  assume r: "is_list h k xs" and e: "e \<in> set xs"
  then obtain as bs where "xs = as @ e # bs" by (meson split_list)
  with r have "is_list h e (bs @ k # as)" by (metis is_list_def is_list_rotate_to)
  from list_tests_ok(1) [OF this] show "list_empty h e = Some False" by simp
next
  fix h :: "'a lheap" and k x xs
  assume "is_list h k (x # xs)"
  then show "get_next h k = Some x"
    using is_list_next is_list_valid by (fastforce simp: heap_simps)
next
  fix h :: "'a lheap" and k xs
  assume "is_list h k xs"
  then show "distinct (k # xs)" by (simp add: is_list_def cyc_def)
next
  fix h :: "'a lheap" and k xs p
  assume "is_list h k xs" "p \<in> set (k # xs)"
  then show "valid h p" by (auto simp: is_list_def cyc_def)
qed (fact is_list_frame upd_only_valid INIT_LIST_HEAD_ok list_tests_ok(1)
    list_add_ok list_add_tail_ok list_del_init_ok)+

section \<open>Correctness properties\<close>

text \<open>A concrete heap: the ring of the nodes 0, 1 and 2, and the unlinked node 3.\<close>

definition demo_heap :: "nat lheap" where
  "demo_heap =
     [0 \<mapsto> \<lparr>lh_next = Addr 1, lh_prev = Addr 2\<rparr>, 1 \<mapsto> \<lparr>lh_next = Addr 2, lh_prev = Addr 0\<rparr>,
      2 \<mapsto> \<lparr>lh_next = Addr 0, lh_prev = Addr 1\<rparr>, 3 \<mapsto> \<lparr>lh_next = Addr 3, lh_prev = Addr 3\<rparr>]"

lemma demo_list: "is_list demo_heap (Addr 0) [Addr 1, Addr 2]" "is_list demo_heap (Addr 3) []"
    "valid demo_heap (Addr 3)"
  by (auto simp: demo_heap_def is_list_def cyc_def nx_def pv_def)

text \<open>
  C17. Adding a node that is not in the list puts it first with \<open>list_add\<close> and last with
  \<open>list_add_tail\<close>; both run without a fault and write only nodes of that list.
\<close>

theorem list_add_spec:
  assumes "is_list h head xs" "valid h new" "new \<notin> set (head # xs)"
  shows "(\<exists>h'. list_add h new head = Some h' \<and> is_list h' head (new # xs) \<and>
            upd_only (set (head # new # xs)) h h') \<and>
         (\<exists>h'. list_add_tail h new head = Some h' \<and> is_list h' head (xs @ [new]) \<and>
            upd_only (set (head # new # xs)) h h')"
  using list_add_ok [OF assms] list_add_tail_ok [OF assms] by blast

theorem list_add_spec_witness:
  "(\<exists>h'. list_add demo_heap (Addr 3) (Addr 0) = Some h' \<and>
      is_list h' (Addr 0) [Addr 3, Addr 1, Addr 2]) \<and>
   (\<exists>h'. list_add_tail demo_heap (Addr 3) (Addr 0) = Some h' \<and>
      is_list h' (Addr 0) [Addr 1, Addr 2, Addr 3])"
  using list_add_spec [OF demo_list(1,3)] by auto

text \<open>
  Deleting an entry removes exactly it from its list: \<open>list_del\<close> leaves the entry
  poisoned, \<open>list_del_init\<close> leaves it an empty list.
\<close>

theorem list_del_spec:
  assumes "is_list h head (as @ e # bs)"
  shows "(\<exists>h'. list_del h e = Some h' \<and> is_list h' head (as @ bs) \<and>
            get_next h' e = Some LIST_POISON1 \<and> get_prev h' e = Some LIST_POISON2) \<and>
         (\<exists>h'. list_del_init h e = Some h' \<and> is_list h' head (as @ bs) \<and> is_list h' e [])"
proof -
  have "valid h e" using is_list_valid [OF assms] by auto
  then show ?thesis
    using list_del_ok [OF assms] list_del_init_ok [OF assms]
    by (metis get_next_valid get_prev_valid upd_only_valid)
qed

theorem list_del_spec_witness:
  "\<exists>h'. list_del_init demo_heap (Addr 1) = Some h' \<and> is_list h' (Addr 0) [Addr 2]"
  using list_del_spec [of demo_heap "Addr 0" "[]" "Addr 1" "[Addr 2]"] demo_list(1) by auto

text \<open>
  \<open>list_swap\<close> exchanges two entries of a list, adjacent or not, and nothing else
  changes its place.
\<close>

theorem list_swap_spec:
  assumes "is_list h head (as @ e1 # bs @ e2 # cs)"
  shows "\<exists>h'. list_swap h e1 e2 = Some h' \<and> is_list h' head (as @ e2 # bs @ e1 # cs)"
proof -
  have "cyc h (e1 # bs @ e2 # cs @ head # as)"
    using assms by (simp add: is_list_rotate_to)
  with list_swap_cyc [of h e1 bs e2 "cs @ head # as"] show ?thesis
    by (auto simp: is_list_rotate_to)
qed

theorem list_swap_spec_witness:
  "\<exists>h'. list_swap demo_heap (Addr 1) (Addr 2) = Some h' \<and> is_list h' (Addr 0) [Addr 2, Addr 1]"
  using list_swap_spec [of demo_heap "Addr 0" "[]" "Addr 1" "[]" "Addr 2" "[]"] demo_list(1)
  by auto

text \<open>
  Cutting a list after an entry and splicing the cut part back in front restores the
  list and leaves the auxiliary header empty.
\<close>

theorem cut_splice_roundtrip:
  assumes "is_list h head (as @ e # bs)" "valid h lst" "lst \<notin> set (head # as @ e # bs)"
  shows "\<exists>g h'. list_cut_position h lst head e = Some g \<and> is_list g lst (as @ [e]) \<and>
           is_list g head bs \<and> list_splice_init g lst head = Some h' \<and>
           is_list h' head (as @ e # bs) \<and> is_list h' lst []"
proof -
  from list_cut_position_ok [OF assms] obtain g where
    g: "list_cut_position h lst head e = Some g" "is_list g lst (as @ [e])" "is_list g head bs"
    by auto
  have "set (head # bs) \<inter> set (lst # as @ [e]) = {}"
    using assms by (auto simp: is_list_def cyc_def)
  from list_splice_init_ok(1) [OF g(3,2) this] g show ?thesis by auto
qed

theorem cut_splice_roundtrip_witness:
  "\<exists>g h'. list_cut_position demo_heap (Addr 3) (Addr 0) (Addr 1) = Some g \<and>
     is_list g (Addr 3) [Addr 1] \<and> is_list g (Addr 0) [Addr 2] \<and>
     list_splice_init g (Addr 3) (Addr 0) = Some h' \<and> is_list h' (Addr 0) [Addr 1, Addr 2]"
  using cut_splice_roundtrip [of demo_heap "Addr 0" "[]" "Addr 1" "[Addr 2]" "Addr 3"] demo_list
  by auto

text \<open>
  C18. Iteration. With one unit of fuel more than entries, \<open>list_for_each\<close> visits the entries
  in order and \<open>list_for_each_prev\<close> in reverse order, and \<open>list_for_each_safe\<close> may unlink the
  entry it visits: it empties the list and leaves every entry an empty list.
\<close>

theorem list_iteration_spec:
  assumes "is_list h head xs" "length xs < fuel"
  shows "(\<forall>f (s :: 's). list_for_each fuel (\<lambda>p s h. Some (f p s, h)) head s h = Some (fold f xs s, h)) \<and>
         (\<forall>f (s :: 't). list_for_each_prev fuel (\<lambda>p s h. Some (f p s, h)) head s h =
            Some (fold f (rev xs) s, h)) \<and>
         (\<exists>h'. list_for_each_safe fuel del_body head () h = Some ((), h') \<and>
            is_list h' head [] \<and> (\<forall>p\<in>set xs. is_list h' p []))"
proof (intro conjI allI)
  show "\<exists>h'. list_for_each_safe fuel del_body head () h = Some ((), h') \<and>
          is_list h' head [] \<and> (\<forall>p\<in>set xs. is_list h' p [])"
    using list_for_each_safe_del [OF assms, of "()"] by metis
next
  fix f :: "'a ptr \<Rightarrow> 's \<Rightarrow> 's" and s
  show "list_for_each fuel (\<lambda>p s h. Some (f p s, h)) head s h = Some (fold f xs s, h)"
    by (rule list_for_each_fold(1) [OF assms]) simp
next
  fix f :: "'a ptr \<Rightarrow> 't \<Rightarrow> 't" and s
  show "list_for_each_prev fuel (\<lambda>p s h. Some (f p s, h)) head s h = Some (fold f (rev xs) s, h)"
    by (rule list_for_each_fold(2) [OF assms]) simp
qed

theorem list_iteration_spec_witness:
  "list_for_each 3 (\<lambda>p s h. Some (p # s, h)) (Addr 0) [] demo_heap =
     Some ([Addr 2, Addr 1], demo_heap)"
proof -
  have "length [Addr 1, Addr 2 :: nat ptr] < 3" by simp
  from list_iteration_spec [OF demo_list(1) this, THEN conjunct1, THEN spec [of _ Cons],
      THEN spec [of _ "[]"]]
  show ?thesis by simp
qed

text \<open>
  Deleting the cursor inside a plain \<open>list_for_each\<close> faults: the next step follows the
  poison pointer that \<open>list_del\<close> left in the entry.
\<close>

theorem list_for_each_unsafe_delete:
  assumes "is_list h head (x # xs)"
  shows "list_for_each fuel poison_body head s h = None"
  using assms by (rule list_for_each_del_faults)

theorem list_for_each_unsafe_delete_witness:
  "list_for_each 5 poison_body (Addr 0) () demo_heap = None"
  by (rule list_for_each_unsafe_delete [OF demo_list(1)])

end
