(* ===== verification/Linux_Entry.thy ===== *)
theory Linux_Entry
  imports Linux_List
begin

text \<open>
  The macros of \<open>src/linux/no_proofs/list.c\<close> over the structs that a list head is embedded in:
  \<open>list_entry\<close> and the \<open>list_for_each_entry\<close> family. An address is an integer and \<open>off\<close> is the offset of
  the member \<open>member\<close> in the struct, so that \<open>container_of\<close> subtracts it and \<open>&pos->member\<close>
  adds it. A null or poison pointer stays one, since a use of it faults with and without the
  offset. The fuel of the loops is that of the loops over list heads.
\<close>

section \<open>Entries\<close>

definition container_of :: "int \<Rightarrow> int ptr \<Rightarrow> int ptr" where
  "container_of off p = map_ptr (\<lambda>a. a - off) p"

definition member_of :: "int \<Rightarrow> int ptr \<Rightarrow> int ptr" where
  "member_of off pos = map_ptr (\<lambda>a. a + off) pos"

definition list_entry :: "int \<Rightarrow> int ptr \<Rightarrow> int ptr" where
  "list_entry off p = container_of off p"

definition list_first_entry :: "int \<Rightarrow> int lheap \<Rightarrow> int ptr \<Rightarrow> int ptr option" where
  "list_first_entry off h p = do { n \<leftarrow> get_next h p; Some (list_entry off n) }"

definition list_last_entry :: "int \<Rightarrow> int lheap \<Rightarrow> int ptr \<Rightarrow> int ptr option" where
  "list_last_entry off h p = do { n \<leftarrow> get_prev h p; Some (list_entry off n) }"

definition list_first_entry_or_null :: "int \<Rightarrow> int lheap \<Rightarrow> int ptr \<Rightarrow> int ptr option" where
  "list_first_entry_or_null off h head = do {
     pos \<leftarrow> get_next h head;
     Some (if pos \<noteq> head then list_entry off pos else NULL) }"

definition list_next_entry :: "int \<Rightarrow> int lheap \<Rightarrow> int ptr \<Rightarrow> int ptr option" where
  "list_next_entry off h pos = do { n \<leftarrow> get_next h (member_of off pos); Some (list_entry off n) }"

definition list_prev_entry :: "int \<Rightarrow> int lheap \<Rightarrow> int ptr \<Rightarrow> int ptr option" where
  "list_prev_entry off h pos = do { n \<leftarrow> get_prev h (member_of off pos); Some (list_entry off n) }"

definition list_prepare_entry :: "int \<Rightarrow> int ptr \<Rightarrow> int ptr \<Rightarrow> int ptr" where
  "list_prepare_entry off pos head = (if pos \<noteq> NULL then pos else list_entry off head)"

definition list_safe_reset_next :: "int \<Rightarrow> int lheap \<Rightarrow> int ptr \<Rightarrow> int ptr option" where
  "list_safe_reset_next off h pos = list_next_entry off h pos"

section \<open>Iteration over entries\<close>

text \<open>
  The loop of the plain and of the safe macros: \<open>stp\<close> is \<open>list_next_entry\<close> or \<open>list_prev_entry\<close>.
\<close>

type_synonym entry_step = "int \<Rightarrow> int lheap \<Rightarrow> int ptr \<Rightarrow> int ptr option"

fun entry_loop ::
  "nat \<Rightarrow> int \<Rightarrow> entry_step \<Rightarrow> (int, 's) loop_body \<Rightarrow> int ptr \<Rightarrow> int ptr \<Rightarrow> 's \<Rightarrow> int lheap \<Rightarrow> ('s \<times> int lheap) option" where
  "entry_loop 0 off stp body pos head s h = None"
| "entry_loop (Suc fuel) off stp body pos head s h =
     (if member_of off pos = head then Some (s, h)
      else do {
        (s, h) \<leftarrow> body pos s h;
        pos \<leftarrow> stp off h pos;
        entry_loop fuel off stp body pos head s h })"

fun entry_safe_loop ::
  "nat \<Rightarrow> int \<Rightarrow> entry_step \<Rightarrow> (int, 's) loop_body \<Rightarrow> int ptr \<Rightarrow> int ptr \<Rightarrow> int ptr \<Rightarrow> 's \<Rightarrow> int lheap \<Rightarrow>
   ('s \<times> int lheap) option" where
  "entry_safe_loop 0 off stp body pos n head s h = None"
| "entry_safe_loop (Suc fuel) off stp body pos n head s h =
     (if member_of off pos = head then Some (s, h)
      else do {
        (s, h) \<leftarrow> body pos s h;
        n' \<leftarrow> stp off h n;
        entry_safe_loop fuel off stp body n n' head s h })"

definition list_for_each_entry ::
  "nat \<Rightarrow> int \<Rightarrow> (int, 's) loop_body \<Rightarrow> int ptr \<Rightarrow> 's \<Rightarrow> int lheap \<Rightarrow> ('s \<times> int lheap) option" where
  "list_for_each_entry fuel off body head s h = do {
     pos \<leftarrow> list_first_entry off h head;
     entry_loop fuel off list_next_entry body pos head s h }"

definition list_for_each_entry_reverse ::
  "nat \<Rightarrow> int \<Rightarrow> (int, 's) loop_body \<Rightarrow> int ptr \<Rightarrow> 's \<Rightarrow> int lheap \<Rightarrow> ('s \<times> int lheap) option" where
  "list_for_each_entry_reverse fuel off body head s h = do {
     pos \<leftarrow> list_last_entry off h head;
     entry_loop fuel off list_prev_entry body pos head s h }"

definition list_for_each_entry_continue ::
  "nat \<Rightarrow> int \<Rightarrow> (int, 's) loop_body \<Rightarrow> int ptr \<Rightarrow> int ptr \<Rightarrow> 's \<Rightarrow> int lheap \<Rightarrow> ('s \<times> int lheap) option" where
  "list_for_each_entry_continue fuel off body pos head s h = do {
     pos \<leftarrow> list_next_entry off h pos;
     entry_loop fuel off list_next_entry body pos head s h }"

definition list_for_each_entry_continue_reverse ::
  "nat \<Rightarrow> int \<Rightarrow> (int, 's) loop_body \<Rightarrow> int ptr \<Rightarrow> int ptr \<Rightarrow> 's \<Rightarrow> int lheap \<Rightarrow> ('s \<times> int lheap) option" where
  "list_for_each_entry_continue_reverse fuel off body pos head s h = do {
     pos \<leftarrow> list_prev_entry off h pos;
     entry_loop fuel off list_prev_entry body pos head s h }"

definition list_for_each_entry_from ::
  "nat \<Rightarrow> int \<Rightarrow> (int, 's) loop_body \<Rightarrow> int ptr \<Rightarrow> int ptr \<Rightarrow> 's \<Rightarrow> int lheap \<Rightarrow> ('s \<times> int lheap) option" where
  "list_for_each_entry_from fuel off body pos head s h =
     entry_loop fuel off list_next_entry body pos head s h"

definition list_for_each_entry_from_reverse ::
  "nat \<Rightarrow> int \<Rightarrow> (int, 's) loop_body \<Rightarrow> int ptr \<Rightarrow> int ptr \<Rightarrow> 's \<Rightarrow> int lheap \<Rightarrow> ('s \<times> int lheap) option" where
  "list_for_each_entry_from_reverse fuel off body pos head s h =
     entry_loop fuel off list_prev_entry body pos head s h"

definition list_for_each_entry_safe ::
  "nat \<Rightarrow> int \<Rightarrow> (int, 's) loop_body \<Rightarrow> int ptr \<Rightarrow> 's \<Rightarrow> int lheap \<Rightarrow> ('s \<times> int lheap) option" where
  "list_for_each_entry_safe fuel off body head s h = do {
     pos \<leftarrow> list_first_entry off h head;
     n \<leftarrow> list_next_entry off h pos;
     entry_safe_loop fuel off list_next_entry body pos n head s h }"

definition list_for_each_entry_safe_continue ::
  "nat \<Rightarrow> int \<Rightarrow> (int, 's) loop_body \<Rightarrow> int ptr \<Rightarrow> int ptr \<Rightarrow> 's \<Rightarrow> int lheap \<Rightarrow> ('s \<times> int lheap) option" where
  "list_for_each_entry_safe_continue fuel off body pos head s h = do {
     pos \<leftarrow> list_next_entry off h pos;
     n \<leftarrow> list_next_entry off h pos;
     entry_safe_loop fuel off list_next_entry body pos n head s h }"

definition list_for_each_entry_safe_from ::
  "nat \<Rightarrow> int \<Rightarrow> (int, 's) loop_body \<Rightarrow> int ptr \<Rightarrow> int ptr \<Rightarrow> 's \<Rightarrow> int lheap \<Rightarrow> ('s \<times> int lheap) option" where
  "list_for_each_entry_safe_from fuel off body pos head s h = do {
     n \<leftarrow> list_next_entry off h pos;
     entry_safe_loop fuel off list_next_entry body pos n head s h }"

definition list_for_each_entry_safe_reverse ::
  "nat \<Rightarrow> int \<Rightarrow> (int, 's) loop_body \<Rightarrow> int ptr \<Rightarrow> 's \<Rightarrow> int lheap \<Rightarrow> ('s \<times> int lheap) option" where
  "list_for_each_entry_safe_reverse fuel off body head s h = do {
     pos \<leftarrow> list_last_entry off h head;
     n \<leftarrow> list_prev_entry off h pos;
     entry_safe_loop fuel off list_prev_entry body pos n head s h }"

section \<open>Entries and list heads\<close>

lemma member_container [simp]: "member_of off (container_of off p) = p" "container_of off (member_of off p) = p"
  by (cases p; simp add: member_of_def container_of_def)+

lemma container_inj [simp]: "container_of off p = container_of off q \<longleftrightarrow> p = q"
  by (metis member_container(1))

lemma next_entry_container:
  "list_next_entry off h (container_of off p) = map_option (container_of off) (get_next h p)"
  "list_prev_entry off h (container_of off p) = map_option (container_of off) (get_prev h p)"
  by (auto simp: list_next_entry_def list_prev_entry_def list_entry_def map_option_case split: option.splits)

text \<open>A loop over entries is the loop over their list heads with a body that gets the entry.\<close>

definition on_entry :: "int \<Rightarrow> (int, 's) loop_body \<Rightarrow> (int, 's) loop_body" where
  "on_entry off body p s h = body (container_of off p) s h"

lemma entry_loop_eq:
  assumes "\<And>h p. stp off h (container_of off p) = map_option (container_of off) (stp' h p)"
  shows "entry_loop fuel off stp body (container_of off p) head s h = each_loop fuel stp' (on_entry off body) p head s h"
proof (induction fuel arbitrary: p s h)
  case (Suc fuel)
  show ?case
    by (simp add: on_entry_def assms Suc.IH bind_map_option comp_def cong: if_cong)
qed simp

lemma entry_safe_loop_eq:
  assumes "\<And>h p. stp off h (container_of off p) = map_option (container_of off) (stp' h p)"
  shows "entry_safe_loop fuel off stp body (container_of off p) (container_of off n) head s h =
    safe_loop fuel stp' (on_entry off body) p n head s h"
proof (induction fuel arbitrary: p n s h)
  case (Suc fuel)
  show ?case
    by (simp add: on_entry_def assms Suc.IH bind_map_option comp_def cong: if_cong)
qed simp

lemmas entry_loops_eq =
  entry_loop_eq [where stp = list_next_entry and stp' = get_next, OF next_entry_container(1)]
  entry_loop_eq [where stp = list_prev_entry and stp' = get_prev, OF next_entry_container(2)]
  entry_safe_loop_eq [where stp = list_next_entry and stp' = get_next, OF next_entry_container(1)]
  entry_safe_loop_eq [where stp = list_prev_entry and stp' = get_prev, OF next_entry_container(2)]

lemma first_entry_container:
  "list_first_entry off h p = map_option (container_of off) (get_next h p)"
  "list_last_entry off h p = map_option (container_of off) (get_prev h p)"
  by (auto simp: list_first_entry_def list_last_entry_def list_entry_def map_option_case split: option.splits)

lemmas entry_steps = first_entry_container next_entry_container

text \<open>Each macro over entries is its counterpart over list heads.\<close>

lemma for_each_entry_eq:
  "list_for_each_entry fuel off body head s h = list_for_each fuel (on_entry off body) head s h"
  "list_for_each_entry_reverse fuel off body head s h = list_for_each_prev fuel (on_entry off body) head s h"
  "list_for_each_entry_continue fuel off body (container_of off p) head s h =
     list_for_each_continue fuel (on_entry off body) p head s h"
  "list_for_each_entry_safe fuel off body head s h = list_for_each_safe fuel (on_entry off body) head s h"
  "list_for_each_entry_safe_reverse fuel off body head s h = list_for_each_prev_safe fuel (on_entry off body) head s h"
  unfolding list_for_each_entry_def list_for_each_entry_reverse_def list_for_each_entry_continue_def
    list_for_each_entry_safe_def list_for_each_entry_safe_reverse_def
    list_for_each_def list_for_each_prev_def list_for_each_continue_def list_for_each_safe_def list_for_each_prev_safe_def
  by (auto simp: entry_steps entry_loops_eq map_option_case split: option.splits Option.bind_splits)

text \<open>The chain of the list heads after one of them, and before it.\<close>

lemma chain_suffix: "chain stp h (xs @ ys) \<Longrightarrow> chain stp h ys"
  by (induction xs) (auto dest: chain_tl)

lemma is_list_parts:
  assumes "is_list h head (ys @ p # zs)"
  shows "chain get_next h (p # zs @ [head])" "chain get_prev h (p # rev ys @ [head])"
    "head \<notin> set (ys @ p # zs)" "\<exists>q. get_next h head = Some q" "\<exists>q. get_prev h head = Some q"
proof -
  note c = is_list_chain [OF assms]
  show "chain get_next h (p # zs @ [head])" using c(1) chain_suffix [of get_next h "head # ys" "p # zs @ [head]"] by simp
  show "chain get_prev h (p # rev ys @ [head])" using c(2) chain_suffix [of get_prev h "head # rev zs" "p # rev ys @ [head]"] by simp
  show "head \<notin> set (ys @ p # zs)" using assms by (auto simp: is_list_def cyc_def)
  show "\<exists>q. get_next h head = Some q" "\<exists>q. get_prev h head = Some q"
    using is_list_valid [OF assms, of head] by (auto simp: heap_simps)
qed

lemma chain_hd: "chain stp h (p # xs @ [head]) \<Longrightarrow> stp h p = Some (hd (xs @ [head]))"
  by (cases xs) auto

text \<open>The safe loop over a list that its body does not change.\<close>

lemma safe_loop_fold:
  assumes "chain stp h (xs @ [head])" "head \<notin> set xs" "length xs < fuel" "stp h head = Some q"
    and "\<And>p t. p \<in> set xs \<Longrightarrow> body p t h = Some (f p t, h)"
    and "xs \<noteq> [] \<Longrightarrow> n = hd (tl xs @ [head])"
  shows "safe_loop fuel stp body (hd (xs @ [head])) n head s h = Some (fold f xs s, h)"
  using assms
proof (induction xs arbitrary: fuel s n)
  case Nil
  then show ?case by (cases fuel) auto
next
  case (Cons x xs)
  from Cons.prems obtain m where m: "fuel = Suc m" by (cases fuel) auto
  have c: "chain stp h (xs @ [head])" using Cons.prems(1) chain_tl by simp
  obtain n' where n': "stp h n = Some n'" "xs \<noteq> [] \<Longrightarrow> n' = hd (tl xs @ [head])"
    using Cons.prems(4,6) c by (cases xs; cases "tl xs"; simp)
  have "safe_loop m stp body (hd (xs @ [head])) n' head (f x s) h = Some (fold f xs (f x s), h)"
    using Cons.prems m c n'(2) by (intro Cons.IH) auto
  with Cons.prems m n' show ?case by (cases xs) auto
qed

lemma fold_container: "fold (\<lambda>p. f (container_of off p)) xs s = fold f (map (container_of off) xs) s"
  by (simp add: fold_map comp_def)

lemma entry_loop_fold:
  assumes "chain stp' h (xs @ [head])" "head \<notin> set xs" "length xs < fuel"
    and "\<And>h p. stp off h (container_of off p) = map_option (container_of off) (stp' h p)"
  shows "entry_loop fuel off stp (\<lambda>e s h. Some (f e s, h)) (container_of off (hd (xs @ [head]))) head s h =
    Some (fold f (map (container_of off) xs) s, h)"
  using each_loop_fold [OF assms(1-3), of "on_entry off (\<lambda>e s h. Some (f e s, h))" "\<lambda>p. f (container_of off p)" s]
  by (simp add: entry_loop_eq [where stp = stp and stp' = stp', OF assms(4)] fold_container on_entry_def)

lemma entry_safe_loop_fold:
  assumes "chain stp' h (xs @ [head])" "head \<notin> set xs" "length xs < fuel" "\<exists>q. stp' h head = Some q"
    and "xs \<noteq> [] \<Longrightarrow> n = hd (tl xs @ [head])"
    and "\<And>h p. stp off h (container_of off p) = map_option (container_of off) (stp' h p)"
  shows "entry_safe_loop fuel off stp (\<lambda>e s h. Some (f e s, h)) (container_of off (hd (xs @ [head]))) (container_of off n) head s h =
    Some (fold f (map (container_of off) xs) s, h)"
proof -
  obtain q where "stp' h head = Some q" using assms(4) by blast
  from safe_loop_fold [OF assms(1-3) this, of "on_entry off (\<lambda>e s h. Some (f e s, h))" "\<lambda>p. f (container_of off p)" n s] assms(5)
  show ?thesis
    by (simp add: entry_safe_loop_eq [where stp = stp and stp' = stp', OF assms(6)] fold_container on_entry_def)
qed

text \<open>The start of a safe loop: the cursor and the entry after it.\<close>

lemma safe_start:
  assumes "chain stp h (x # xs @ [head])" "\<exists>q. stp h head = Some q"
  shows "\<exists>n. stp h (hd (xs @ [head])) = Some n \<and> (xs \<noteq> [] \<longrightarrow> n = hd (tl xs @ [head]))"
  using assms by (cases xs; cases "tl xs") auto

lemma entry_from_spec:
  assumes "is_list h head (ys @ p # zs)" "length (ys @ p # zs) < fuel"
  shows "list_for_each_entry_continue fuel off (\<lambda>e s h. Some (f e s, h)) (container_of off p) head s h =
      Some (fold f (map (container_of off) zs) s, h)"
    "list_for_each_entry_continue_reverse fuel off (\<lambda>e s h. Some (f e s, h)) (container_of off p) head s h =
      Some (fold f (map (container_of off) (rev ys)) s, h)"
    "list_for_each_entry_from fuel off (\<lambda>e s h. Some (f e s, h)) (container_of off p) head s h =
      Some (fold f (map (container_of off) (p # zs)) s, h)"
    "list_for_each_entry_from_reverse fuel off (\<lambda>e s h. Some (f e s, h)) (container_of off p) head s h =
      Some (fold f (map (container_of off) (p # rev ys)) s, h)"
    "list_for_each_entry_safe_continue fuel off (\<lambda>e s h. Some (f e s, h)) (container_of off p) head s h =
      Some (fold f (map (container_of off) zs) s, h)"
    "list_for_each_entry_safe_from fuel off (\<lambda>e s h. Some (f e s, h)) (container_of off p) head s h =
      Some (fold f (map (container_of off) (p # zs)) s, h)"
proof -
  note c = is_list_parts [OF assms(1)]
  note nxt = entry_loop_fold [where stp = list_next_entry and stp' = get_next and off = off, OF _ _ _ next_entry_container(1)]
  note prv = entry_loop_fold [where stp = list_prev_entry and stp' = get_prev and off = off, OF _ _ _ next_entry_container(2)]
  note safe = entry_safe_loop_fold [where stp = list_next_entry and stp' = get_next and off = off, OF _ _ _ c(4) _ next_entry_container(1)]
  have l: "length zs < fuel" "length (rev ys) < fuel" "length (p # zs) < fuel" "length (p # rev ys) < fuel"
    and d: "head \<notin> set zs" "head \<notin> set (rev ys)" "head \<notin> set (p # zs)" "head \<notin> set (p # rev ys)"
    using assms(2) c(3) by auto
  show "list_for_each_entry_continue fuel off (\<lambda>e s h. Some (f e s, h)) (container_of off p) head s h =
      Some (fold f (map (container_of off) zs) s, h)"
    unfolding list_for_each_entry_continue_def
    using nxt [OF chain_tl [OF c(1)] d(1) l(1), of f s] chain_hd [OF c(1)] by (simp add: entry_steps)
  show "list_for_each_entry_continue_reverse fuel off (\<lambda>e s h. Some (f e s, h)) (container_of off p) head s h =
      Some (fold f (map (container_of off) (rev ys)) s, h)"
    unfolding list_for_each_entry_continue_reverse_def
    using prv [OF chain_tl [OF c(2)] d(2) l(2), of f s] chain_hd [OF c(2)] by (simp add: entry_steps)
  show "list_for_each_entry_from fuel off (\<lambda>e s h. Some (f e s, h)) (container_of off p) head s h =
      Some (fold f (map (container_of off) (p # zs)) s, h)"
    unfolding list_for_each_entry_from_def using nxt [of h "p # zs" head fuel f s] c(1) d(3) l(3) by simp
  show "list_for_each_entry_from_reverse fuel off (\<lambda>e s h. Some (f e s, h)) (container_of off p) head s h =
      Some (fold f (map (container_of off) (p # rev ys)) s, h)"
    unfolding list_for_each_entry_from_reverse_def using prv [of h "p # rev ys" head fuel f s] c(2) d(4) l(4) by simp
  obtain n where n: "get_next h (hd (zs @ [head])) = Some n" "zs \<noteq> [] \<longrightarrow> n = hd (tl zs @ [head])"
    using safe_start [OF c(1,4)] by blast
  show "list_for_each_entry_safe_continue fuel off (\<lambda>e s h. Some (f e s, h)) (container_of off p) head s h =
      Some (fold f (map (container_of off) zs) s, h)"
    unfolding list_for_each_entry_safe_continue_def
    using safe [OF chain_tl [OF c(1)] d(1) l(1), of n f s] chain_hd [OF c(1)] n by (simp add: entry_steps)
  show "list_for_each_entry_safe_from fuel off (\<lambda>e s h. Some (f e s, h)) (container_of off p) head s h =
      Some (fold f (map (container_of off) (p # zs)) s, h)"
    unfolding list_for_each_entry_safe_from_def
    using safe [of "p # zs" fuel "hd (zs @ [head])" f s] c(1) d(3) l(3) chain_hd [OF c(1)] by (simp add: entry_steps)
qed

section \<open>Properties\<close>

text \<open>
  The \<open>list_for_each_entry\<close> macros: on a list with the entries \<open>xs\<close>, with one unit of fuel more than entries, the plain and
  safe macros call their body on the structs around the list heads \<open>xs\<close> in order and the reverse ones in reverse order; the
  macros that continue after, or from, an entry visit the part of the list after, or from, it; and \<open>list_for_each_entry_safe\<close> may
  unlink the entry it visits.
\<close>

theorem list_for_each_entry_spec:
  fixes s :: 's and f :: "int ptr \<Rightarrow> 's \<Rightarrow> 's"
  assumes "is_list h head xs" "length xs < fuel"
  shows "list_for_each_entry fuel off (\<lambda>e s h. Some (f e s, h)) head s h = Some (fold f (map (container_of off) xs) s, h) \<and>
    list_for_each_entry_reverse fuel off (\<lambda>e s h. Some (f e s, h)) head s h = Some (fold f (map (container_of off) (rev xs)) s, h) \<and>
    (\<forall>ys p zs. xs = ys @ p # zs \<longrightarrow>
      list_for_each_entry_continue fuel off (\<lambda>e s h. Some (f e s, h)) (container_of off p) head s h =
        Some (fold f (map (container_of off) zs) s, h) \<and>
      list_for_each_entry_from fuel off (\<lambda>e s h. Some (f e s, h)) (container_of off p) head s h =
        Some (fold f (map (container_of off) (p # zs)) s, h) \<and>
      list_for_each_entry_safe_continue fuel off (\<lambda>e s h. Some (f e s, h)) (container_of off p) head s h =
        Some (fold f (map (container_of off) zs) s, h) \<and>
      list_for_each_entry_continue_reverse fuel off (\<lambda>e s h. Some (f e s, h)) (container_of off p) head s h =
        Some (fold f (map (container_of off) (rev ys)) s, h)) \<and>
    (\<exists>h'. list_for_each_entry_safe fuel off (\<lambda>e s h. del_body (member_of off e) s h) head s h = Some (s, h') \<and>
      is_list h' head [] \<and> (\<forall>p\<in>set xs. is_list h' p []))"
proof (intro conjI allI impI)
  let ?b = "on_entry off (\<lambda>e s h. Some (f e s, h))"
  have b: "?b p t h = Some (f (container_of off p) t, h)" for p t by (simp add: on_entry_def)
  show "list_for_each_entry fuel off (\<lambda>e s h. Some (f e s, h)) head s h = Some (fold f (map (container_of off) xs) s, h)"
    using list_for_each_fold(1) [where body = ?b, OF assms b] by (simp add: for_each_entry_eq fold_container)
  show "list_for_each_entry_reverse fuel off (\<lambda>e s h. Some (f e s, h)) head s h = Some (fold f (map (container_of off) (rev xs)) s, h)"
    using list_for_each_fold(2) [where body = ?b, OF assms b] by (simp add: for_each_entry_eq fold_container)
  have "on_entry off (\<lambda>e s h. del_body (member_of off e) s h) = (del_body :: (int, 's) loop_body)"
    by (intro ext) (simp add: on_entry_def)
  then show "\<exists>h'. list_for_each_entry_safe fuel off (\<lambda>e s h. del_body (member_of off e) s h) head s h = Some (s, h') \<and>
      is_list h' head [] \<and> (\<forall>p\<in>set xs. is_list h' p [])"
    using list_for_each_safe_del [OF assms, of s] by (auto simp: for_each_entry_eq)
qed (use assms entry_from_spec in simp_all)

text \<open>A header at 100 and the structs at 1000 and 2000, with the member at the offset 16.\<close>

definition entry_heap :: "int lheap" where
  "entry_heap =
     [100 \<mapsto> \<lparr>lh_next = Addr 1016, lh_prev = Addr 2016\<rparr>, 1016 \<mapsto> \<lparr>lh_next = Addr 2016, lh_prev = Addr 100\<rparr>,
      2016 \<mapsto> \<lparr>lh_next = Addr 100, lh_prev = Addr 1016\<rparr>]"

theorem list_for_each_entry_spec_witness:
  "list_for_each_entry 3 16 (\<lambda>e s h. Some (e # s, h)) (Addr 100) [] entry_heap =
     Some ([Addr 2000, Addr 1000], entry_heap)"
proof -
  have "is_list entry_heap (Addr 100) [Addr 1016, Addr 2016]"
    by (auto simp: entry_heap_def is_list_def cyc_def nx_def pv_def)
  moreover have "length [Addr 1016 :: int ptr, Addr 2016] < 3" by simp
  ultimately show ?thesis using list_for_each_entry_spec [of entry_heap "Addr 100" "[Addr 1016, Addr 2016]" 3 16 Cons "[]"]
    by (simp add: container_of_def)
qed

end
