(* ===== verification/Hlist.thy ===== *)
theory Hlist
  imports Linux_Entry
begin

text \<open>
  The lists with a single pointer list head of \<open>src/linux/no_proofs/list.c\<close>, for the buckets of hash tables.

  The field \<open>pprev\<close> of a node is the address of the pointer to the node: of the field \<open>first\<close> of the header or
  of the field \<open>next\<close> of the node before. The memory therefore has the hcells of the type \<open>struct hlist_node *\<close>
  (the fields \<open>first\<close> and \<open>next\<close>) apart from those of the type \<open>struct hlist_node **\<close> (the fields \<open>pprev\<close>).
\<close>

section \<open>The functions\<close>

datatype 'a hslot = HFirst 'a | HNext 'a

record 'a hmem =
  hcells :: "('a hslot, 'a ptr) heap"
  pprevs :: "('a, 'a hslot ptr) heap"

text \<open>The addresses \<open>&h->first\<close> and \<open>&n->next\<close>; those of an invalid pointer are invalid.\<close>

definition first_of :: "'a ptr \<Rightarrow> 'a hslot ptr" where
  "first_of p = map_ptr HFirst p"

definition next_of :: "'a ptr \<Rightarrow> 'a hslot ptr" where
  "next_of p = map_ptr HNext p"

definition get_cell :: "'a hmem \<Rightarrow> 'a hslot ptr \<Rightarrow> 'a ptr option" where
  "get_cell m p = load (hcells m) p"

definition set_cell :: "'a hmem \<Rightarrow> 'a hslot ptr \<Rightarrow> 'a ptr \<Rightarrow> 'a hmem option" where
  "set_cell m p v = do { c \<leftarrow> modify (hcells m) p (\<lambda>_. v); Some (m\<lparr>hcells := c\<rparr>) }"

definition get_pprev :: "'a hmem \<Rightarrow> 'a ptr \<Rightarrow> 'a hslot ptr option" where
  "get_pprev m p = load (pprevs m) p"

definition set_pprev :: "'a hmem \<Rightarrow> 'a ptr \<Rightarrow> 'a hslot ptr \<Rightarrow> 'a hmem option" where
  "set_pprev m p v = do { c \<leftarrow> modify (pprevs m) p (\<lambda>_. v); Some (m\<lparr>pprevs := c\<rparr>) }"

definition INIT_HLIST_HEAD :: "'a hmem \<Rightarrow> 'a ptr \<Rightarrow> 'a hmem option" where
  "INIT_HLIST_HEAD m h = set_cell m (first_of h) NULL"

definition INIT_HLIST_NODE :: "'a hmem \<Rightarrow> 'a ptr \<Rightarrow> 'a hmem option" where
  "INIT_HLIST_NODE m h = do { m \<leftarrow> set_cell m (next_of h) NULL; set_pprev m h NULL }"

definition hlist_unhashed :: "'a hmem \<Rightarrow> 'a ptr \<Rightarrow> bool option" where
  "hlist_unhashed m h = do { p \<leftarrow> get_pprev m h; Some (p = NULL) }"

definition hlist_unhashed_lockless :: "'a hmem \<Rightarrow> 'a ptr \<Rightarrow> bool option" where
  "hlist_unhashed_lockless m h = do { p \<leftarrow> get_pprev m h; Some (p = NULL) }"

definition hlist_empty :: "'a hmem \<Rightarrow> 'a ptr \<Rightarrow> bool option" where
  "hlist_empty m h = do { p \<leftarrow> get_cell m (first_of h); Some (p = NULL) }"

definition raw_hlist_del :: "'a hmem \<Rightarrow> 'a ptr \<Rightarrow> 'a hmem option" where
  "raw_hlist_del m n = do {
     nxt \<leftarrow> get_cell m (next_of n);
     pprev \<leftarrow> get_pprev m n;
     m \<leftarrow> set_cell m pprev nxt;
     if nxt \<noteq> NULL then set_pprev m nxt pprev else Some m }"

definition hlist_del :: "'a hmem \<Rightarrow> 'a ptr \<Rightarrow> 'a hmem option" where
  "hlist_del m n = do {
     m \<leftarrow> raw_hlist_del m n;
     m \<leftarrow> set_cell m (next_of n) LIST_POISON1;
     set_pprev m n LIST_POISON2 }"

definition hlist_del_init :: "'a hmem \<Rightarrow> 'a ptr \<Rightarrow> 'a hmem option" where
  "hlist_del_init m n = do {
     u \<leftarrow> hlist_unhashed m n;
     if \<not> u then do { m \<leftarrow> raw_hlist_del m n; INIT_HLIST_NODE m n } else Some m }"

definition hlist_add_head :: "'a hmem \<Rightarrow> 'a ptr \<Rightarrow> 'a ptr \<Rightarrow> 'a hmem option" where
  "hlist_add_head m n h = do {
     first \<leftarrow> get_cell m (first_of h);
     m \<leftarrow> set_cell m (next_of n) first;
     m \<leftarrow> (if first \<noteq> NULL then set_pprev m first (next_of n) else Some m);
     m \<leftarrow> set_cell m (first_of h) n;
     set_pprev m n (first_of h) }"

definition hlist_add_before :: "'a hmem \<Rightarrow> 'a ptr \<Rightarrow> 'a ptr \<Rightarrow> 'a hmem option" where
  "hlist_add_before m n nxt = do {
     pp \<leftarrow> get_pprev m nxt;
     m \<leftarrow> set_pprev m n pp;
     m \<leftarrow> set_cell m (next_of n) nxt;
     m \<leftarrow> set_pprev m nxt (next_of n);
     pp \<leftarrow> get_pprev m n;
     set_cell m pp n }"

definition hlist_add_behind :: "'a hmem \<Rightarrow> 'a ptr \<Rightarrow> 'a ptr \<Rightarrow> 'a hmem option" where
  "hlist_add_behind m n prv = do {
     x \<leftarrow> get_cell m (next_of prv);
     m \<leftarrow> set_cell m (next_of n) x;
     m \<leftarrow> set_cell m (next_of prv) n;
     m \<leftarrow> set_pprev m n (next_of prv);
     x \<leftarrow> get_cell m (next_of n);
     if x \<noteq> NULL then set_pprev m x (next_of n) else Some m }"

definition hlist_add_fake :: "'a hmem \<Rightarrow> 'a ptr \<Rightarrow> 'a hmem option" where
  "hlist_add_fake m n = set_pprev m n (next_of n)"

definition hlist_fake :: "'a hmem \<Rightarrow> 'a ptr \<Rightarrow> bool option" where
  "hlist_fake m h = do { p \<leftarrow> get_pprev m h; Some (p = next_of h) }"

definition hlist_is_singular_node :: "'a hmem \<Rightarrow> 'a ptr \<Rightarrow> 'a ptr \<Rightarrow> bool option" where
  "hlist_is_singular_node m n h = do {
     x \<leftarrow> get_cell m (next_of n);
     if x \<noteq> NULL then Some False
     else do { p \<leftarrow> get_pprev m n; Some (p = first_of h) } }"

definition hlist_move_list :: "'a hmem \<Rightarrow> 'a ptr \<Rightarrow> 'a ptr \<Rightarrow> 'a hmem option" where
  "hlist_move_list m old new = do {
     first \<leftarrow> get_cell m (first_of old);
     m \<leftarrow> set_cell m (first_of new) first;
     first \<leftarrow> get_cell m (first_of new);
     m \<leftarrow> (if first \<noteq> NULL then set_pprev m first (first_of new) else Some m);
     set_cell m (first_of old) NULL }"

section \<open>Iteration\<close>

text \<open>
  The loops, from the cursor \<open>pos\<close> on; a list that is not finite gives \<open>None\<close>, as a fault does. The \<open>entry\<close> macros
  have a cursor to the struct around the node, \<open>off\<close> bytes before it; \<open>hlist_entry_safe\<close> keeps null.
\<close>

type_synonym ('a, 's) hbody = "'a ptr \<Rightarrow> 's \<Rightarrow> 'a hmem \<Rightarrow> ('s \<times> 'a hmem) option"

partial_function (option) hlist_loop ::
  "('a, 's) hbody \<Rightarrow> 'a ptr \<Rightarrow> 's \<Rightarrow> 'a hmem \<Rightarrow> ('s \<times> 'a hmem) option" where
  "hlist_loop body pos s m =
     (if pos = NULL then Some (s, m)
      else Option.bind (body pos s m) (\<lambda>(s, m).
        Option.bind (get_cell m (next_of pos)) (\<lambda>pos. hlist_loop body pos s m)))"

definition hlist_for_each :: "('a, 's) hbody \<Rightarrow> 'a ptr \<Rightarrow> 's \<Rightarrow> 'a hmem \<Rightarrow> ('s \<times> 'a hmem) option" where
  "hlist_for_each body head s m = do {
     pos \<leftarrow> get_cell m (first_of head);
     hlist_loop body pos s m }"

partial_function (option) hlist_safe_loop ::
  "('a, 's) hbody \<Rightarrow> 'a ptr \<Rightarrow> 's \<Rightarrow> 'a hmem \<Rightarrow> ('s \<times> 'a hmem) option" where
  "hlist_safe_loop body pos s m =
     (if pos = NULL then Some (s, m)
      else Option.bind (get_cell m (next_of pos)) (\<lambda>n.
        Option.bind (body pos s m) (\<lambda>(s, m). hlist_safe_loop body n s m)))"

definition hlist_for_each_safe :: "('a, 's) hbody \<Rightarrow> 'a ptr \<Rightarrow> 's \<Rightarrow> 'a hmem \<Rightarrow> ('s \<times> 'a hmem) option" where
  "hlist_for_each_safe body head s m = do {
     pos \<leftarrow> get_cell m (first_of head);
     hlist_safe_loop body pos s m }"

definition hlist_entry_safe :: "int \<Rightarrow> int ptr \<Rightarrow> int ptr" where
  "hlist_entry_safe off p = (if p \<noteq> NULL then container_of off p else NULL)"

partial_function (option) hlist_entry_loop ::
  "int \<Rightarrow> (int, 's) hbody \<Rightarrow> int ptr \<Rightarrow> 's \<Rightarrow> int hmem \<Rightarrow> ('s \<times> int hmem) option" where
  "hlist_entry_loop off body pos s m =
     (if pos = NULL then Some (s, m)
      else Option.bind (body pos s m) (\<lambda>(s, m).
        Option.bind (get_cell m (next_of (member_of off pos))) (\<lambda>n.
          hlist_entry_loop off body (hlist_entry_safe off n) s m)))"

definition hlist_for_each_entry ::
  "int \<Rightarrow> (int, 's) hbody \<Rightarrow> int ptr \<Rightarrow> 's \<Rightarrow> int hmem \<Rightarrow> ('s \<times> int hmem) option" where
  "hlist_for_each_entry off body head s m = do {
     p \<leftarrow> get_cell m (first_of head);
     hlist_entry_loop off body (hlist_entry_safe off p) s m }"

definition hlist_for_each_entry_continue ::
  "int \<Rightarrow> (int, 's) hbody \<Rightarrow> int ptr \<Rightarrow> 's \<Rightarrow> int hmem \<Rightarrow> ('s \<times> int hmem) option" where
  "hlist_for_each_entry_continue off body pos s m = do {
     p \<leftarrow> get_cell m (next_of (member_of off pos));
     hlist_entry_loop off body (hlist_entry_safe off p) s m }"

definition hlist_for_each_entry_from ::
  "int \<Rightarrow> (int, 's) hbody \<Rightarrow> int ptr \<Rightarrow> 's \<Rightarrow> int hmem \<Rightarrow> ('s \<times> int hmem) option" where
  "hlist_for_each_entry_from off body pos s m = hlist_entry_loop off body pos s m"

partial_function (option) hlist_entry_safe_loop ::
  "int \<Rightarrow> (int, 's) hbody \<Rightarrow> int ptr \<Rightarrow> 's \<Rightarrow> int hmem \<Rightarrow> ('s \<times> int hmem) option" where
  "hlist_entry_safe_loop off body pos s m =
     (if pos = NULL then Some (s, m)
      else Option.bind (get_cell m (next_of (member_of off pos))) (\<lambda>n.
        Option.bind (body pos s m) (\<lambda>(s, m). hlist_entry_safe_loop off body (hlist_entry_safe off n) s m)))"

definition hlist_for_each_entry_safe ::
  "int \<Rightarrow> (int, 's) hbody \<Rightarrow> int ptr \<Rightarrow> 's \<Rightarrow> int hmem \<Rightarrow> ('s \<times> int hmem) option" where
  "hlist_for_each_entry_safe off body head s m = do {
     p \<leftarrow> get_cell m (first_of head);
     hlist_entry_safe_loop off body (hlist_entry_safe off p) s m }"

section \<open>The list of a header\<close>

text \<open>
  The nodes \<open>xs\<close> are linked from the cell \<open>c\<close> on: \<open>c\<close> has the pointer to the first node, whose \<open>pprev\<close> is the address of \<open>c\<close>.
\<close>

fun hseg :: "'a hmem \<Rightarrow> 'a hslot \<Rightarrow> 'a list \<Rightarrow> bool" where
  "hseg m c [] \<longleftrightarrow> hcells m c = Some NULL"
| "hseg m c (x # xs) \<longleftrightarrow> hcells m c = Some (Addr x) \<and> pprevs m x = Some (Addr c) \<and> hseg m (HNext x) xs"

definition hlist :: "'a hmem \<Rightarrow> 'a \<Rightarrow> 'a list \<Rightarrow> bool" where
  "hlist m h xs = hseg m (HFirst h) xs"

text \<open>The hcells and the \<open>pprev\<close> fields of the memory are those of before, but for those of the nodes \<open>N\<close> and headers \<open>H\<close>.\<close>

definition hupd_only :: "'a set \<Rightarrow> 'a set \<Rightarrow> 'a hmem \<Rightarrow> 'a hmem \<Rightarrow> bool" where
  "hupd_only H N m m' \<longleftrightarrow> dom (hcells m') = dom (hcells m) \<and> dom (pprevs m') = dom (pprevs m) \<and>
     (\<forall>k. k \<notin> H \<longrightarrow> hcells m' (HFirst k) = hcells m (HFirst k)) \<and>
     (\<forall>k. k \<notin> N \<longrightarrow> hcells m' (HNext k) = hcells m (HNext k) \<and> pprevs m' k = pprevs m k)"

definition hnode :: "'a hmem \<Rightarrow> 'a \<Rightarrow> bool" where
  "hnode m n \<longleftrightarrow> HNext n \<in> dom (hcells m) \<and> n \<in> dom (pprevs m)"

lemma hupd_only_refl: "hupd_only H N m m"
  by (simp add: hupd_only_def)

lemma hupd_only_trans: "hupd_only H N m m' \<Longrightarrow> hupd_only H' N' m' m'' \<Longrightarrow> hupd_only (H \<union> H') (N \<union> N') m m''"
  unfolding hupd_only_def by auto

lemma hupd_only_mono: "hupd_only H N m m' \<Longrightarrow> H \<subseteq> H' \<Longrightarrow> N \<subseteq> N' \<Longrightarrow> hupd_only H' N' m m'"
  unfolding hupd_only_def by blast

lemma hseg_cong:
  "hcells m' c = hcells m c \<Longrightarrow> (\<And>x. x \<in> set xs \<Longrightarrow> hcells m' (HNext x) = hcells m (HNext x) \<and> pprevs m' x = pprevs m x) \<Longrightarrow>
   hseg m' c xs = hseg m c xs"
  by (induction xs arbitrary: c) auto

lemma hlist_frame:
  "hupd_only H N m m' \<Longrightarrow> hlist m k ys \<Longrightarrow> k \<notin> H \<Longrightarrow> set ys \<inter> N = {} \<Longrightarrow> hlist m' k ys"
  unfolding hlist_def hupd_only_def by (subst hseg_cong [of m' "HFirst k" m]) auto

text \<open>The cell that points to what follows the nodes \<open>ys\<close>.\<close>

definition last_cell :: "'a hslot \<Rightarrow> 'a list \<Rightarrow> 'a hslot" where
  "last_cell c ys = (if ys = [] then c else HNext (last ys))"

lemma last_cell_simps [simp]: "last_cell c [] = c" "last_cell c (y # ys) = last_cell (HNext y) ys"
  by (simp_all add: last_cell_def)

text \<open>The nodes \<open>ys\<close> are linked from the cell \<open>c\<close> on, and something follows.\<close>

fun hpre :: "'a hmem \<Rightarrow> 'a hslot \<Rightarrow> 'a list \<Rightarrow> bool" where
  "hpre m c [] \<longleftrightarrow> True"
| "hpre m c (x # xs) \<longleftrightarrow> hcells m c = Some (Addr x) \<and> pprevs m x = Some (Addr c) \<and> hpre m (HNext x) xs"

lemma hseg_append: "hseg m c (ys @ zs) \<longleftrightarrow> hpre m c ys \<and> hseg m (last_cell c ys) zs"
  by (induction ys arbitrary: c) auto

lemma last_cell_cases: "last_cell c ys = c \<or> last_cell c ys \<in> HNext ` set ys"
  by (simp add: last_cell_def)

lemma last_cell_fresh: "x \<notin> set ys \<Longrightarrow> HNext x \<noteq> last_cell (HFirst h) ys"
  by (cases "ys = []") (auto simp: last_cell_def)

lemma hpre_cong:
  assumes "hpre m c ys" "distinct ys" "c \<notin> HNext ` set ys"
    and "\<And>k. k \<in> insert c (HNext ` set ys) \<Longrightarrow> k \<noteq> last_cell c ys \<Longrightarrow> hcells m' k = hcells m k"
    and "\<And>x. x \<in> set ys \<Longrightarrow> pprevs m' x = pprevs m x"
  shows "hpre m' c ys"
  using assms
proof (induction ys arbitrary: c)
  case (Cons y ys)
  have "c \<noteq> last_cell (HNext y) ys" using Cons.prems(3) last_cell_cases [of "HNext y" ys] by auto
  with Cons.prems(1,4) have "hcells m' c = Some (Addr y)" by simp
  moreover have "hpre m' (HNext y) ys"
    by (rule Cons.IH) (use Cons.prems in auto)
  ultimately show ?case using Cons.prems by simp
qed simp

text \<open>No node occurs twice.\<close>

lemma hseg_unique: "hseg m c xs \<Longrightarrow> hseg m c ys \<Longrightarrow> xs = ys"
  by (induction xs arbitrary: c ys; case_tac ys) auto

lemma hseg_suffix: "hseg m c (ys @ zs) \<Longrightarrow> hseg m (last_cell c ys) zs"
  by (induction ys arbitrary: c) auto

lemma hseg_distinct: "hseg m c xs \<Longrightarrow> distinct xs"
proof (induction xs arbitrary: c)
  case (Cons x xs)
  have "x \<notin> set xs"
  proof
    assume "x \<in> set xs"
    then obtain ys zs where xs: "xs = ys @ x # zs" by (meson split_list)
    have "hseg m (HNext x) xs" using Cons.prems by simp
    moreover have "hseg m (HNext x) zs" using hseg_suffix [of m "HNext x" "ys @ [x]" zs] Cons.prems xs by (simp add: last_cell_def)
    ultimately have "xs = zs" by (rule hseg_unique)
    then show False using xs by auto
  qed
  with Cons show ?case by auto
qed simp

lemma hlist_distinct: "hlist m h xs \<Longrightarrow> distinct xs"
  unfolding hlist_def by (rule hseg_distinct)

lemma hlist_split:
  "hlist m h (ys @ zs) \<longleftrightarrow> hpre m (HFirst h) ys \<and> hseg m (last_cell (HFirst h) ys) zs"
  by (simp add: hlist_def hseg_append)

section \<open>The operations on lists\<close>

lemma of_Addr [simp]: "first_of (Addr a) = Addr (HFirst a)" "next_of (Addr a) = Addr (HNext a)"
  by (simp_all add: first_of_def next_of_def)

lemma cell_ops [simp]:
  "get_cell m (Addr c) = hcells m c" "get_pprev m (Addr a) = pprevs m a"
  "hcells m c \<noteq> None \<Longrightarrow> set_cell m (Addr c) v = Some (m\<lparr>hcells := (hcells m)(c \<mapsto> v)\<rparr>)"
  "pprevs m a \<noteq> None \<Longrightarrow> set_pprev m (Addr a) w = Some (m\<lparr>pprevs := (pprevs m)(a \<mapsto> w)\<rparr>)"
  by (auto simp: get_cell_def get_pprev_def set_cell_def set_pprev_def load_def modify_def)

text \<open>What is left of a list when a cell and a node after it are changed.\<close>

lemma hpre_before:
  assumes "hlist m h (ys @ zs)" "c = last_cell (HFirst h) ys" "n \<notin> set ys"
    and "\<And>k. k \<noteq> c \<Longrightarrow> k \<notin> HNext ` (insert n (set zs)) \<Longrightarrow> hcells m' k = hcells m k"
    and "\<And>x. x \<notin> insert n (set zs) \<Longrightarrow> pprevs m' x = pprevs m x"
  shows "hpre m' (HFirst h) ys"
proof -
  have d: "distinct (ys @ zs)" using assms(1) by (rule hlist_distinct)
  show ?thesis
  proof (rule hpre_cong [of m])
    fix x assume "x \<in> set ys"
    then have "x \<notin> insert n (set zs)" using assms(3) d by auto
    then show "pprevs m' x = pprevs m x" by (rule assms(5))
  next
    fix k assume k: "k \<in> insert (HFirst h) (HNext ` set ys)" "k \<noteq> last_cell (HFirst h) ys"
    then have "k \<notin> HNext ` insert n (set zs)" using assms(3) d by auto
    with k show "hcells m' k = hcells m k" using assms(2,4) by blast
  qed (use assms(1) d in \<open>auto simp: hlist_split\<close>)
qed

lemma raw_hlist_del_ok:
  assumes "hlist m h (ys @ n # zs)"
  shows "\<exists>m'. raw_hlist_del m (Addr n) = Some m' \<and> hlist m' h (ys @ zs) \<and> hnode m' n \<and>
    hupd_only {h} (set (ys @ zs)) m m'"
proof -
  let ?c = "last_cell (HFirst h) ys"
  have d: "distinct (ys @ n # zs)" using assms by (rule hlist_distinct)
  have n: "hcells m ?c = Some (Addr n)" "pprevs m n = Some (Addr ?c)" "hseg m (HNext n) zs"
    using assms by (auto simp: hlist_split)
  have c: "\<forall>x\<in>set (n # zs). HNext x \<noteq> ?c" using d by (intro ballI last_cell_fresh) auto
  have ch: "?c = HFirst h \<or> ?c \<in> HNext ` set ys" using last_cell_cases by metis
  show ?thesis
  proof (cases zs)
    case Nil
    let ?m = "m\<lparr>hcells := (hcells m)(?c \<mapsto> NULL)\<rparr>"
    have "raw_hlist_del m (Addr n) = Some ?m" using n Nil by (simp add: raw_hlist_del_def)
    moreover have "hpre ?m (HFirst h) ys" by (rule hpre_before [OF assms refl]) (use d in auto)
    then have "hlist ?m h ys" using hlist_split [of ?m h ys "[]"] by simp
    moreover have "hupd_only {h} (set ys) m ?m" using ch n(1) by (auto simp: hupd_only_def)
    ultimately show ?thesis using Nil n c by (auto simp: hnode_def)
  next
    case (Cons z zs')
    let ?m = "m\<lparr>hcells := (hcells m)(?c \<mapsto> Addr z), pprevs := (pprevs m)(z \<mapsto> Addr ?c)\<rparr>"
    have z: "hcells m (HNext n) = Some (Addr z)" "pprevs m z \<noteq> None" "hseg m (HNext z) zs'" using n(3) Cons by auto
    have "raw_hlist_del m (Addr n) = Some ?m" using n z Cons by (simp add: raw_hlist_del_def)
    moreover have "hpre ?m (HFirst h) ys" by (rule hpre_before [OF assms refl]) (use d Cons in auto)
    moreover have "hseg ?m (HNext z) zs'" by (subst hseg_cong [of _ _ m]) (use z(3) d c Cons in auto)
    ultimately have "hlist ?m h (ys @ zs)" using Cons by (simp add: hlist_split)
    moreover have "hupd_only {h} (set (ys @ zs)) m ?m" using ch n(1) z(2) Cons by (auto simp: hupd_only_def)
    ultimately show ?thesis using \<open>raw_hlist_del m (Addr n) = Some ?m\<close> n z c by (auto simp: hnode_def)
  qed
qed

lemma hlist_del_ok:
  assumes "hlist m h (ys @ n # zs)"
  shows "\<exists>m'. hlist_del m (Addr n) = Some m' \<and> hlist m' h (ys @ zs) \<and>
      hcells m' (HNext n) = Some LIST_POISON1 \<and> pprevs m' n = Some LIST_POISON2 \<and> hupd_only {h} (set (ys @ n # zs)) m m'"
    and "\<exists>m'. hlist_del_init m (Addr n) = Some m' \<and> hlist m' h (ys @ zs) \<and>
      hcells m' (HNext n) = Some NULL \<and> pprevs m' n = Some NULL \<and> hupd_only {h} (set (ys @ n # zs)) m m'"
proof -
  have d: "n \<notin> set (ys @ zs)" using hlist_distinct [OF assms] by auto
  obtain m1 where m1: "raw_hlist_del m (Addr n) = Some m1" "hlist m1 h (ys @ zs)" "hnode m1 n" "hupd_only {h} (set (ys @ zs)) m m1"
    using raw_hlist_del_ok [OF assms] by blast
  have n: "hcells m1 (HNext n) \<noteq> None" "pprevs m1 n \<noteq> None" using m1(3) by (auto simp: hnode_def)
  have upd: "hlist m' h (ys @ zs) \<and> hupd_only {h} (set (ys @ n # zs)) m m'"
    if m': "m' = m1\<lparr>hcells := (hcells m1)(HNext n \<mapsto> u), pprevs := (pprevs m1)(n \<mapsto> v)\<rparr>" for m' u v
  proof -
    have o: "hupd_only {} {n} m1 m'" using n unfolding m' hupd_only_def by auto
    then have "hlist m' h (ys @ zs)" using m1(2) d by (intro hlist_frame [OF o]) auto
    moreover have "hupd_only {h} (set (ys @ n # zs)) m m'"
      using hupd_only_trans [OF m1(4) o] by (rule hupd_only_mono) auto
    ultimately show ?thesis by blast
  qed
  show "\<exists>m'. hlist_del m (Addr n) = Some m' \<and> hlist m' h (ys @ zs) \<and>
      hcells m' (HNext n) = Some LIST_POISON1 \<and> pprevs m' n = Some LIST_POISON2 \<and> hupd_only {h} (set (ys @ n # zs)) m m'"
    using m1(1) n upd by (simp add: hlist_del_def)
  have "pprevs m n = Some (Addr (last_cell (HFirst h) ys))" using assms by (auto simp: hlist_split)
  then show "\<exists>m'. hlist_del_init m (Addr n) = Some m' \<and> hlist m' h (ys @ zs) \<and>
      hcells m' (HNext n) = Some NULL \<and> pprevs m' n = Some NULL \<and> hupd_only {h} (set (ys @ n # zs)) m m'"
    using m1(1) n upd by (simp add: hlist_del_init_def hlist_unhashed_def INIT_HLIST_NODE_def)
qed

text \<open>All three insertions link a node between the cell \<open>c\<close> and the node that \<open>c\<close> points to.\<close>

definition linked :: "'a hmem \<Rightarrow> 'a hslot \<Rightarrow> 'a \<Rightarrow> 'a list \<Rightarrow> 'a hmem \<Rightarrow> bool" where
  "linked m c n zs m' \<longleftrightarrow>
     hcells m' = (hcells m)(HNext n \<mapsto> (case zs of [] \<Rightarrow> NULL | z # _ \<Rightarrow> Addr z), c \<mapsto> Addr n) \<and>
     pprevs m' = (case zs of [] \<Rightarrow> (pprevs m)(n \<mapsto> Addr c) | z # _ \<Rightarrow> (pprevs m)(z \<mapsto> Addr (HNext n), n \<mapsto> Addr c))"

lemma linked_ok:
  assumes "hlist m h (ys @ zs)" "hnode m n" "n \<notin> set (ys @ zs)" "linked m (last_cell (HFirst h) ys) n zs m'"
  shows "hlist m' h (ys @ n # zs) \<and> hupd_only {h} (set (ys @ n # zs)) m m'"
proof -
  let ?c = "last_cell (HFirst h) ys"
  have d: "distinct (ys @ zs)" using assms(1) by (rule hlist_distinct)
  have s: "hseg m ?c zs" using assms(1) by (simp add: hlist_split)
  have c: "\<forall>x\<in>set (n # zs). HNext x \<noteq> ?c"
    using d assms(3) by (intro ballI last_cell_fresh) auto
  have ch: "?c = HFirst h \<or> ?c \<in> HNext ` set ys" using last_cell_cases by metis
  have cd: "?c \<in> dom (hcells m)" using s by (cases zs) auto
  note m' = assms(4) [unfolded linked_def]
  have "hpre m' (HFirst h) ys"
    by (rule hpre_before [OF assms(1) refl, of n]) (use assms(3) m' in \<open>auto split: list.splits\<close>)
  moreover have "hseg m' (HNext n) zs"
  proof (cases zs)
    case (Cons z zs')
    have "hseg m' (HNext z) zs'" by (subst hseg_cong [of _ _ m]) (use Cons s d assms(3) m' c in auto)
    with Cons s d assms(3) m' c show ?thesis by auto
  qed (use m' c in auto)
  ultimately have "hlist m' h (ys @ n # zs)" using m' by (simp add: hlist_split split: list.splits)
  moreover have "hupd_only {h} (set (ys @ n # zs)) m m'"
    using m' ch cd s assms(2) by (auto simp: hupd_only_def hnode_def split: list.splits)
  ultimately show ?thesis ..
qed

lemma hlist_add_head_ok:
  assumes "hlist m h xs" "hnode m n" "n \<notin> set xs"
  shows "\<exists>m'. hlist_add_head m (Addr n) (Addr h) = Some m' \<and> hlist m' h (n # xs) \<and> hupd_only {h} (set (n # xs)) m m'"
proof -
  have "\<exists>m'. hlist_add_head m (Addr n) (Addr h) = Some m' \<and> linked m (HFirst h) n xs m'"
    using assms by (cases xs) (auto simp: hlist_add_head_def linked_def hlist_def hnode_def)
  then show ?thesis using linked_ok [of m h "[]" xs n] assms by auto
qed

lemma hlist_add_before_ok:
  assumes "hlist m h (ys @ x # zs)" "hnode m n" "n \<notin> set (ys @ x # zs)"
  shows "\<exists>m'. hlist_add_before m (Addr n) (Addr x) = Some m' \<and> hlist m' h (ys @ n # x # zs) \<and>
    hupd_only {h} (set (ys @ n # x # zs)) m m'"
proof -
  let ?c = "last_cell (HFirst h) ys"
  have "hcells m ?c = Some (Addr x)" "pprevs m x = Some (Addr ?c)" using assms(1) by (auto simp: hlist_split)
  moreover have "n \<noteq> x" "?c \<noteq> HNext n" using assms(3) last_cell_fresh [of n ys h] by auto
  ultimately have "\<exists>m'. hlist_add_before m (Addr n) (Addr x) = Some m' \<and> linked m ?c n (x # zs) m'"
    using assms(2) by (auto simp: hlist_add_before_def linked_def hnode_def fun_upd_twist)
  then show ?thesis using linked_ok [OF assms(1-3)] by blast
qed

lemma hlist_add_behind_ok:
  assumes "hlist m h (ys @ x # zs)" "hnode m n" "n \<notin> set (ys @ x # zs)"
  shows "\<exists>m'. hlist_add_behind m (Addr n) (Addr x) = Some m' \<and> hlist m' h (ys @ x # n # zs) \<and>
    hupd_only {h} (set (ys @ x # n # zs)) m m'"
proof -
  have c: "last_cell (HFirst h) (ys @ [x]) = HNext x" by (simp add: last_cell_def)
  have s: "hlist m h ((ys @ [x]) @ zs)" "hseg m (HNext x) zs" using assms(1) by (simp_all add: hlist_split)
  have "n \<noteq> x" "n \<notin> set zs" using assms(3) by auto
  with s(2) assms(2) have "\<exists>m'. hlist_add_behind m (Addr n) (Addr x) = Some m' \<and> linked m (HNext x) n zs m'"
    by (cases zs) (auto simp: hlist_add_behind_def linked_def hnode_def fun_upd_twist)
  then show ?thesis using linked_ok [OF s(1) assms(2), unfolded c] assms(3) by auto
qed

lemma hlist_move_list_ok:
  assumes "hlist m old xs" "HFirst new \<in> dom (hcells m)" "new \<noteq> old"
  shows "\<exists>m'. hlist_move_list m (Addr old) (Addr new) = Some m' \<and> hlist m' new xs \<and> hlist m' old [] \<and>
    hupd_only {old, new} (set xs) m m'"
proof (cases xs)
  case Nil
  with assms show ?thesis by (auto simp: hlist_move_list_def hlist_def hupd_only_def)
next
  case (Cons x zs)
  let ?m = "m\<lparr>hcells := (hcells m)(HFirst new \<mapsto> Addr x, HFirst old \<mapsto> NULL), pprevs := (pprevs m)(x \<mapsto> Addr (HFirst new))\<rparr>"
  have x: "hcells m (HFirst old) = Some (Addr x)" "pprevs m x \<noteq> None" "hseg m (HNext x) zs" "x \<notin> set zs"
    using assms(1) hlist_distinct [OF assms(1)] Cons by (auto simp: hlist_def)
  have "hseg ?m (HNext x) zs" by (subst hseg_cong [of _ _ m]) (use x in auto)
  moreover have "hlist_move_list m (Addr old) (Addr new) = Some ?m"
    using x assms by (auto simp: hlist_move_list_def fun_upd_twist)
  moreover have "hupd_only {old, new} (set xs) m ?m" using x assms(2) Cons by (auto simp: hupd_only_def)
  ultimately show ?thesis using Cons assms(3) by (auto simp: hlist_def)
qed

lemma hlist_tests:
  assumes "hlist m h xs"
  shows "hlist_empty m (Addr h) = Some (xs = [])"
    and "n \<in> set xs \<Longrightarrow> hlist_unhashed m (Addr n) = Some False"
    and "n \<in> set xs \<Longrightarrow> hlist_is_singular_node m (Addr n) (Addr h) = Some (xs = [n])"
proof -
  show "hlist_empty m (Addr h) = Some (xs = [])"
    using assms by (cases xs) (auto simp: hlist_empty_def hlist_def)
  assume "n \<in> set xs"
  then obtain ys zs where xs: "xs = ys @ n # zs" by (meson split_list)
  with assms have n: "pprevs m n = Some (Addr (last_cell (HFirst h) ys))" "hseg m (HNext n) zs" by (auto simp: hlist_split)
  then show "hlist_unhashed m (Addr n) = Some False" by (simp add: hlist_unhashed_def)
  show "hlist_is_singular_node m (Addr n) (Addr h) = Some (xs = [n])"
    using n xs by (cases zs; cases ys rule: rev_cases) (auto simp: hlist_is_singular_node_def last_cell_def)
qed

section \<open>The loops on lists\<close>

definition cell_ptr :: "'a list \<Rightarrow> 'a ptr" where
  "cell_ptr xs = (case xs of [] \<Rightarrow> NULL | x # _ \<Rightarrow> Addr x)"

lemma hseg_ptr: "hseg m c xs \<Longrightarrow> hcells m c = Some (cell_ptr xs)"
  by (cases xs) (auto simp: cell_ptr_def)

lemma hlist_loop_fold:
  assumes "hseg m c xs"
  shows "hlist_loop (\<lambda>p s m. Some (f p s, m)) (cell_ptr xs) s m = Some (fold f (map Addr xs) s, m)"
  using assms
proof (induction xs arbitrary: c s)
  case Nil
  then show ?case by (subst hlist_loop.simps) (simp add: cell_ptr_def)
next
  case (Cons x xs)
  then show ?case using hseg_ptr [of m "HNext x" xs]
    by (subst hlist_loop.simps) (auto simp: cell_ptr_def)
qed

definition hdel_body :: "('a, 's) hbody" where
  "hdel_body p s m = do { m \<leftarrow> hlist_del_init m p; Some (s, m) }"

lemma hlist_safe_loop_del:
  assumes "hlist m h xs"
  shows "\<exists>m'. hlist_safe_loop hdel_body (cell_ptr xs) s m = Some (s, m') \<and> hlist m' h [] \<and>
    (\<forall>x\<in>set xs. hlist_unhashed m' (Addr x) = Some True) \<and> hupd_only {h} (set xs) m m'"
  using assms
proof (induction xs arbitrary: m)
  case Nil
  then show ?case by (subst hlist_safe_loop.simps) (simp add: cell_ptr_def hupd_only_refl)
next
  case (Cons x xs)
  have d: "x \<notin> set xs" using hlist_distinct [OF Cons.prems] by simp
  have nx: "hcells m (HNext x) = Some (cell_ptr xs)" using Cons.prems hseg_ptr [of m "HNext x" xs] by (simp add: hlist_def)
  obtain m1 where m1: "hlist_del_init m (Addr x) = Some m1" "hlist m1 h xs" "pprevs m1 x = Some NULL"
    "hupd_only {h} (set (x # xs)) m m1"
    using hlist_del_ok(2) [of m h "[]" x xs] Cons.prems by auto
  obtain m2 where m2: "hlist_safe_loop hdel_body (cell_ptr xs) s m1 = Some (s, m2)" "hlist m2 h []"
    "\<forall>x\<in>set xs. hlist_unhashed m2 (Addr x) = Some True" "hupd_only {h} (set xs) m1 m2"
    using Cons.IH [OF m1(2)] by blast
  have "pprevs m2 x = Some NULL" using m1(3) m2(4) d by (simp add: hupd_only_def)
  moreover have "hupd_only {h} (set (x # xs)) m m2"
    using hupd_only_trans [OF m1(4) m2(4)] by (rule hupd_only_mono) auto
  ultimately show ?case using nx m1(1) m2
    by (subst hlist_safe_loop.simps) (simp add: cell_ptr_def hdel_body_def hlist_unhashed_def)
qed

text \<open>A loop over entries does what the loop over the nodes does, with a body that gets the entry.\<close>

lemma hlist_entry_safe_eq [simp]: "hlist_entry_safe off p = container_of off p"
  by (simp add: hlist_entry_safe_def container_of_def)

lemma container_NULL [simp]: "container_of off p = NULL \<longleftrightarrow> p = NULL"
  by (cases p) (simp_all add: container_of_def)

lemma hlist_entry_loop_eq:
  "hlist_loop (\<lambda>p. body (container_of off p)) p s m = Some y \<Longrightarrow>
   hlist_entry_loop off body (container_of off p) s m = Some y"
proof (erule hlist_loop.raw_induct [where P = "\<lambda>b p s m y. b = (\<lambda>p. body (container_of off p)) \<longrightarrow>
    hlist_entry_loop off body (container_of off p) s m = Some y", rotated, THEN mp])
  fix f b p s m y
  assume IH: "\<And>b p s m y. f b p s m = Some y \<Longrightarrow> b = (\<lambda>p. body (container_of off p)) \<longrightarrow>
      hlist_entry_loop off body (container_of off p) s m = Some y"
    and b: "(if p = NULL then Some (s, m) else Option.bind (b p s m) (\<lambda>(s, m).
      Option.bind (get_cell m (next_of p)) (\<lambda>pos. f b pos s m))) = Some y"
  show "b = (\<lambda>p. body (container_of off p)) \<longrightarrow> hlist_entry_loop off body (container_of off p) s m = Some y"
    using b by (subst hlist_entry_loop.simps) (auto split: Option.bind_splits if_splits intro!: IH [rule_format])
qed simp

lemma hlist_entry_safe_loop_eq:
  "hlist_safe_loop (\<lambda>p. body (container_of off p)) p s m = Some y \<Longrightarrow>
   hlist_entry_safe_loop off body (container_of off p) s m = Some y"
proof (erule hlist_safe_loop.raw_induct [where P = "\<lambda>b p s m y. b = (\<lambda>p. body (container_of off p)) \<longrightarrow>
    hlist_entry_safe_loop off body (container_of off p) s m = Some y", rotated, THEN mp])
  fix f b p s m y
  assume IH: "\<And>b p s m y. f b p s m = Some y \<Longrightarrow> b = (\<lambda>p. body (container_of off p)) \<longrightarrow>
      hlist_entry_safe_loop off body (container_of off p) s m = Some y"
    and b: "(if p = NULL then Some (s, m) else Option.bind (get_cell m (next_of p)) (\<lambda>n.
      Option.bind (b p s m) (\<lambda>(s, m). f b n s m))) = Some y"
  show "b = (\<lambda>p. body (container_of off p)) \<longrightarrow> hlist_entry_safe_loop off body (container_of off p) s m = Some y"
    using b by (subst hlist_entry_safe_loop.simps) (auto split: Option.bind_splits if_splits intro!: IH [rule_format])
qed simp

section \<open>Properties\<close>

text \<open>Every list with a header outside \<open>H\<close> and no node of \<open>N\<close> stays as it is.\<close>

definition hlists_kept :: "'a set \<Rightarrow> 'a set \<Rightarrow> 'a hmem \<Rightarrow> 'a hmem \<Rightarrow> bool" where
  "hlists_kept H N m m' \<longleftrightarrow> (\<forall>k ks. hlist m k ks \<and> k \<notin> H \<and> set ks \<inter> N = {} \<longrightarrow> hlist m' k ks)"

lemma hupd_only_kept: "hupd_only H N m m' \<Longrightarrow> N \<subseteq> N' \<Longrightarrow> hlists_kept H N' m m'"
  unfolding hlists_kept_def using hlist_frame [of H N m m'] by blast

text \<open>What the operations at a node \<open>x\<close> of a list do.\<close>

lemma hlist_node_ops:
  assumes "hlist m h (ys @ x # zs)"
  shows "hnode m n \<Longrightarrow> n \<notin> set (ys @ x # zs) \<Longrightarrow>
      \<exists>m'. hlist_add_before m (Addr n) (Addr x) = Some m' \<and> hlist m' h (ys @ n # x # zs) \<and> hlists_kept {h} (set (n # ys @ x # zs)) m m'"
    and "hnode m n \<Longrightarrow> n \<notin> set (ys @ x # zs) \<Longrightarrow>
      \<exists>m'. hlist_add_behind m (Addr n) (Addr x) = Some m' \<and> hlist m' h (ys @ x # n # zs) \<and> hlists_kept {h} (set (n # ys @ x # zs)) m m'"
    and "\<exists>m'. hlist_del m (Addr x) = Some m' \<and> hlist m' h (ys @ zs) \<and> hlists_kept {h} (set (ys @ x # zs)) m m' \<and>
      get_cell m' (next_of (Addr x)) = Some LIST_POISON1 \<and> get_pprev m' (Addr x) = Some LIST_POISON2"
    and "\<exists>m'. hlist_del_init m (Addr x) = Some m' \<and> hlist m' h (ys @ zs) \<and> hlists_kept {h} (set (ys @ x # zs)) m m' \<and>
      hlist_unhashed m' (Addr x) = Some True \<and> hlist_del_init m' (Addr x) = Some m'"
proof -
  have sub: "set (ys @ n # x # zs) \<subseteq> set (n # ys @ x # zs)" "set (ys @ x # n # zs) \<subseteq> set (n # ys @ x # zs)" for n by auto
  show "hnode m n \<Longrightarrow> n \<notin> set (ys @ x # zs) \<Longrightarrow>
      \<exists>m'. hlist_add_before m (Addr n) (Addr x) = Some m' \<and> hlist m' h (ys @ n # x # zs) \<and> hlists_kept {h} (set (n # ys @ x # zs)) m m'"
    using hlist_add_before_ok [OF assms] hupd_only_kept [OF _ sub(1)] by blast
  show "hnode m n \<Longrightarrow> n \<notin> set (ys @ x # zs) \<Longrightarrow>
      \<exists>m'. hlist_add_behind m (Addr n) (Addr x) = Some m' \<and> hlist m' h (ys @ x # n # zs) \<and> hlists_kept {h} (set (n # ys @ x # zs)) m m'"
    using hlist_add_behind_ok [OF assms] hupd_only_kept [OF _ sub(2)] by blast
  show "\<exists>m'. hlist_del m (Addr x) = Some m' \<and> hlist m' h (ys @ zs) \<and> hlists_kept {h} (set (ys @ x # zs)) m m' \<and>
      get_cell m' (next_of (Addr x)) = Some LIST_POISON1 \<and> get_pprev m' (Addr x) = Some LIST_POISON2"
    using hlist_del_ok(1) [OF assms] hupd_only_kept [OF _ order_refl] by fastforce
  show "\<exists>m'. hlist_del_init m (Addr x) = Some m' \<and> hlist m' h (ys @ zs) \<and> hlists_kept {h} (set (ys @ x # zs)) m m' \<and>
      hlist_unhashed m' (Addr x) = Some True \<and> hlist_del_init m' (Addr x) = Some m'"
    using hlist_del_ok(2) [OF assms] hupd_only_kept [OF _ order_refl] by (fastforce simp: hlist_unhashed_def hlist_del_init_def)
qed

text \<open>
  C19. The operations on hash lists, on a list with the nodes \<open>xs\<close>, the empty list included: \<open>hlist_empty\<close> tells whether there are none, \<open>hlist_add_head\<close> puts a new node
  first, and \<open>hlist_move_list\<close> hands all nodes over to another header and leaves the old one empty. At each node \<open>x\<close> of the list, \<open>hlist_add_before\<close> and
  \<open>hlist_add_behind\<close> insert before and after it, and both deletions remove it, \<open>hlist_del\<close> leaving it poisoned and \<open>hlist_del_init\<close> unhashed, so that deleting it
  again changes nothing. No operation faults, and every list with another header and other nodes stays as it is.
\<close>

theorem hlist_ops_spec:
  assumes "hlist m h xs" "hnode m n" "n \<notin> set xs"
  shows "hlist_empty m (Addr h) = Some (xs = []) \<and>
    (\<exists>m'. hlist_add_head m (Addr n) (Addr h) = Some m' \<and> hlist m' h (n # xs) \<and> hlists_kept {h} (set (n # xs)) m m') \<and>
    (\<forall>k. k \<noteq> h \<and> HFirst k \<in> dom (hcells m) \<longrightarrow>
      (\<exists>m'. hlist_move_list m (Addr h) (Addr k) = Some m' \<and> hlist m' k xs \<and> hlist m' h [] \<and> hlists_kept {h, k} (set xs) m m')) \<and>
    (\<forall>ys x zs. xs = ys @ x # zs \<longrightarrow>
      (\<exists>m'. hlist_add_before m (Addr n) (Addr x) = Some m' \<and> hlist m' h (ys @ n # x # zs) \<and> hlists_kept {h} (set (n # xs)) m m') \<and>
      (\<exists>m'. hlist_add_behind m (Addr n) (Addr x) = Some m' \<and> hlist m' h (ys @ x # n # zs) \<and> hlists_kept {h} (set (n # xs)) m m') \<and>
      (\<exists>m'. hlist_del m (Addr x) = Some m' \<and> hlist m' h (ys @ zs) \<and> hlists_kept {h} (set xs) m m' \<and>
        get_cell m' (next_of (Addr x)) = Some LIST_POISON1 \<and> get_pprev m' (Addr x) = Some LIST_POISON2) \<and>
      (\<exists>m'. hlist_del_init m (Addr x) = Some m' \<and> hlist m' h (ys @ zs) \<and> hlists_kept {h} (set xs) m m' \<and>
        hlist_unhashed m' (Addr x) = Some True \<and> hlist_del_init m' (Addr x) = Some m'))"
proof (intro conjI allI impI)
  show "hlist_empty m (Addr h) = Some (xs = [])" by (rule hlist_tests(1) [OF assms(1)])
  show "\<exists>m'. hlist_add_head m (Addr n) (Addr h) = Some m' \<and> hlist m' h (n # xs) \<and> hlists_kept {h} (set (n # xs)) m m'"
    using hlist_add_head_ok [OF assms] hupd_only_kept [OF _ order_refl] by blast
  fix k assume "k \<noteq> h \<and> HFirst k \<in> dom (hcells m)"
  then show "\<exists>m'. hlist_move_list m (Addr h) (Addr k) = Some m' \<and> hlist m' k xs \<and> hlist m' h [] \<and> hlists_kept {h, k} (set xs) m m'"
    using hlist_move_list_ok [OF assms(1)] hupd_only_kept [OF _ order_refl] by blast
next
  fix ys x zs assume x: "xs = ys @ x # zs"
  note o = hlist_node_ops [OF assms(1) [unfolded x]]
  note n = assms(2) assms(3) [unfolded x]
  show "\<exists>m'. hlist_add_before m (Addr n) (Addr x) = Some m' \<and> hlist m' h (ys @ n # x # zs) \<and> hlists_kept {h} (set (n # xs)) m m'"
    unfolding x by (rule o(1) [OF n])
  show "\<exists>m'. hlist_add_behind m (Addr n) (Addr x) = Some m' \<and> hlist m' h (ys @ x # n # zs) \<and> hlists_kept {h} (set (n # xs)) m m'"
    unfolding x by (rule o(2) [OF n])
  show "\<exists>m'. hlist_del m (Addr x) = Some m' \<and> hlist m' h (ys @ zs) \<and> hlists_kept {h} (set xs) m m' \<and>
      get_cell m' (next_of (Addr x)) = Some LIST_POISON1 \<and> get_pprev m' (Addr x) = Some LIST_POISON2"
    unfolding x by (rule o(3))
  show "\<exists>m'. hlist_del_init m (Addr x) = Some m' \<and> hlist m' h (ys @ zs) \<and> hlists_kept {h} (set xs) m m' \<and>
      hlist_unhashed m' (Addr x) = Some True \<and> hlist_del_init m' (Addr x) = Some m'"
    unfolding x by (rule o(4))
qed

text \<open>The headers 0 and 1, the nodes 10 and 11 in the list of the header 0, and the node 12.\<close>

definition demo_hmem :: "nat hmem" where
  "demo_hmem = \<lparr>hcells = [HFirst 0 \<mapsto> Addr 10, HNext 10 \<mapsto> Addr 11, HNext 11 \<mapsto> NULL, HFirst 1 \<mapsto> NULL, HNext 12 \<mapsto> NULL],
     pprevs = [10 \<mapsto> Addr (HFirst 0), 11 \<mapsto> Addr (HNext 10), 12 \<mapsto> NULL]\<rparr>"

lemma demo_hlist: "hlist demo_hmem 0 ([10] @ 11 # [])" "hnode demo_hmem 12" "hlist demo_hmem 1 []"
  by (simp_all add: demo_hmem_def hlist_def hnode_def)

theorem hlist_ops_spec_witness:
  "(\<exists>m'. hlist_add_behind demo_hmem (Addr 12) (Addr 11) = Some m' \<and> hlist m' 0 [10, 11, 12] \<and> hlist m' 1 []) \<and>
   (\<exists>m'. hlist_add_head demo_hmem (Addr 12) (Addr 1) = Some m' \<and> hlist m' 1 [12]) \<and>
   (\<exists>m'. hlist_move_list demo_hmem (Addr 1) (Addr 0) = Some m' \<and> hlist m' 0 [])"
proof (intro conjI)
  have "12 \<notin> set ([10] @ 11 # [] :: nat list)" by simp
  note t = hlist_ops_spec [OF demo_hlist(1,2) this, THEN conjunct2, THEN conjunct2, THEN conjunct2]
  have "\<exists>m'. hlist_add_behind demo_hmem (Addr 12) (Addr 11) = Some m' \<and> hlist m' 0 ([10] @ 11 # 12 # []) \<and>
      hlists_kept {0} (set (12 # [10] @ 11 # [])) demo_hmem m'"
    using t [THEN spec [where x = "[10]"], THEN spec [where x = 11], THEN spec [where x = "[]"]] by blast
  then show "\<exists>m'. hlist_add_behind demo_hmem (Addr 12) (Addr 11) = Some m' \<and> hlist m' 0 [10, 11, 12] \<and> hlist m' 1 []"
    using demo_hlist(3) by (auto simp: hlists_kept_def)
  have k: "HFirst 0 \<in> dom (hcells demo_hmem)" by (simp add: demo_hmem_def)
  note e = hlist_ops_spec [OF demo_hlist(3,2)]
  show "\<exists>m'. hlist_add_head demo_hmem (Addr 12) (Addr 1) = Some m' \<and> hlist m' 1 [12]" using e by auto
  show "\<exists>m'. hlist_move_list demo_hmem (Addr 1) (Addr 0) = Some m' \<and> hlist m' 0 []" using e k by auto
qed

text \<open>
  Iteration over hash lists: \<open>hlist_for_each\<close> and \<open>hlist_for_each_entry\<close> visit the nodes, respectively the structs around
  them, in order and end, and \<open>hlist_for_each_safe\<close> and \<open>hlist_for_each_entry_safe\<close> may delete the node they visit.
\<close>

theorem hlist_iteration_spec:
  fixes s :: 's
  assumes "hlist m h xs"
  shows "hlist_for_each (\<lambda>p s m. Some (f p s, m)) (Addr h) s m = Some (fold f (map Addr xs) s, m) \<and>
    hlist_for_each_entry off (\<lambda>e s m. Some (f e s, m)) (Addr h) s m =
      Some (fold f (map (\<lambda>x. Addr (x - off)) xs) s, m) \<and>
    (\<exists>m'. hlist_for_each_safe hdel_body (Addr h) s m = Some (s, m') \<and>
      hlist_for_each_entry_safe off (\<lambda>e. hdel_body (member_of off e)) (Addr h) s m = Some (s, m') \<and>
      hlist m' h [] \<and> (\<forall>x\<in>set xs. hlist_unhashed m' (Addr x) = Some True))"
proof (intro conjI)
  have s: "hseg m (HFirst h) xs" using assms by (simp add: hlist_def)
  note c = hseg_ptr [OF s]
  show "hlist_for_each (\<lambda>p s m. Some (f p s, m)) (Addr h) s m = Some (fold f (map Addr xs) s, m)"
    using hlist_loop_fold [OF s] c by (simp add: hlist_for_each_def)
  have "fold (\<lambda>p. f (container_of off p)) (map Addr xs) s = fold f (map (\<lambda>x. Addr (x - off)) xs) s"
    by (simp add: fold_map comp_def container_of_def)
  then show "hlist_for_each_entry off (\<lambda>e s m. Some (f e s, m)) (Addr h) s m =
      Some (fold f (map (\<lambda>x. Addr (x - off)) xs) s, m)"
    using hlist_entry_loop_eq [where body = "\<lambda>e s m. Some (f e s, m)", OF hlist_loop_fold [OF s]] c
    by (simp add: hlist_for_each_entry_def)
  obtain m' where m': "hlist_safe_loop hdel_body (cell_ptr xs) s m = Some (s, m')" "hlist m' h []"
    "\<forall>x\<in>set xs. hlist_unhashed m' (Addr x) = Some True" using hlist_safe_loop_del [OF assms, of s] by metis
  moreover have "hlist_entry_safe_loop off (\<lambda>e. hdel_body (member_of off e)) (container_of off (cell_ptr xs)) s m = Some (s, m')"
    using m'(1) by (intro hlist_entry_safe_loop_eq) simp
  ultimately show "\<exists>m'. hlist_for_each_safe hdel_body (Addr h) s m = Some (s, m') \<and>
      hlist_for_each_entry_safe off (\<lambda>e. hdel_body (member_of off e)) (Addr h) s m = Some (s, m') \<and>
      hlist m' h [] \<and> (\<forall>x\<in>set xs. hlist_unhashed m' (Addr x) = Some True)"
    using c by (auto simp: hlist_for_each_safe_def hlist_for_each_entry_safe_def)
qed

text \<open>A fake list makes \<open>hlist_del\<close> safe on a node that is in no list.\<close>

lemma hlist_fake_del:
  assumes "hcells m (HNext n) = Some NULL" "pprevs m n \<noteq> None"
  shows "\<exists>m1 m2. hlist_add_fake m (Addr n) = Some m1 \<and> hlist_fake m1 (Addr n) = Some True \<and>
    hlist_unhashed m1 (Addr n) = Some False \<and> hlist_del m1 (Addr n) = Some m2 \<and> hupd_only {} {n} m m2"
proof -
  let ?m1 = "m\<lparr>pprevs := (pprevs m)(n \<mapsto> Addr (HNext n))\<rparr>"
  let ?m2 = "m\<lparr>hcells := (hcells m)(HNext n \<mapsto> LIST_POISON1), pprevs := (pprevs m)(n \<mapsto> LIST_POISON2)\<rparr>"
  have "hlist_add_fake m (Addr n) = Some ?m1" using assms by (simp add: hlist_add_fake_def)
  moreover have "hlist_fake ?m1 (Addr n) = Some True" "hlist_unhashed ?m1 (Addr n) = Some False"
    by (simp_all add: hlist_fake_def hlist_unhashed_def)
  moreover have "hlist_del ?m1 (Addr n) = Some ?m2" using assms by (simp add: hlist_del_def raw_hlist_del_def)
  moreover have "hupd_only {} {n} m ?m2" using assms unfolding hupd_only_def by (simp add: insert_absorb domIff)
  ultimately show ?thesis by blast
qed

theorem hlist_iteration_spec_witness:
  "hlist_for_each_entry 8 (\<lambda>e s m. Some (e # s, m)) (Addr 0) []
     \<lparr>hcells = [HFirst 0 \<mapsto> Addr 108, HNext 108 \<mapsto> Addr 208, HNext 208 \<mapsto> NULL],
      pprevs = [108 \<mapsto> Addr (HFirst 0), 208 \<mapsto> Addr (HNext 108)]\<rparr> =
   Some ([Addr 200, Addr 100], \<lparr>hcells = [HFirst 0 \<mapsto> Addr 108, HNext 108 \<mapsto> Addr 208, HNext 208 \<mapsto> NULL],
      pprevs = [108 \<mapsto> Addr (HFirst 0), 208 \<mapsto> Addr (HNext 108)]\<rparr>)"
  using hlist_iteration_spec [of "\<lparr>hcells = [HFirst 0 \<mapsto> Addr 108, HNext 108 \<mapsto> Addr 208, HNext 208 \<mapsto> NULL],
      pprevs = [108 \<mapsto> Addr (HFirst 0), 208 \<mapsto> Addr (HNext 108)]\<rparr>" 0 "[108, 208]" Cons "[]" 8]
  by (simp add: hlist_def)

end
