(* ===== verification/Spinlock.thy ===== *)
theory Spinlock
  imports Prelude
begin

text \<open>
  The spin lock of \<open>src/examples/spinlock.c\<close> and the latch of \<open>src/examples/latch.c\<close>.

  The functions are modelled twice. The sequential model is what one thread sees when no
  other thread runs: the spinning loops are partial functions, and a loop that spins
  forever is \<open>None\<close>. The other components call it. The concurrent model interleaves the
  atomic steps of any number of threads that run \<open>sl_lock_both\<close> and release their locks.
\<close>

section \<open>The functions\<close>

record spinlock =
  lock :: bool

record latch =
  released :: bool

text \<open>\<open>atomic_compare_exchange_strong\<close>: success, the new memory, the new expected value.\<close>

definition atomic_compare_exchange_strong ::
  "'v \<Rightarrow> 'v \<Rightarrow> 'v \<Rightarrow> bool \<times> 'v \<times> 'v" where
  "atomic_compare_exchange_strong mem expected desired =
     (if mem = expected then (True, desired, expected) else (False, mem, mem))"

definition sl_init :: "spinlock \<Rightarrow> spinlock" where
  "sl_init l = l\<lparr>lock := False\<rparr>"

partial_function (option) sl_lock :: "spinlock \<Rightarrow> spinlock option" where
  "sl_lock l =
     (case atomic_compare_exchange_strong (lock l) False True of
        (ok, m, _) \<Rightarrow> if ok = False then sl_lock (l\<lparr>lock := m\<rparr>) else Some (l\<lparr>lock := m\<rparr>))"

definition sl_unlock :: "spinlock \<Rightarrow> spinlock" where
  "sl_unlock l = l\<lparr>lock := False\<rparr>"

text \<open>
  Two locks in one memory: \<open>m\<close> maps the address of a lock to it. Both variants of the
  source compare the addresses of the locks.
\<close>

definition sl_lock_at :: "(u64, spinlock) heap \<Rightarrow> u64 ptr \<Rightarrow> (u64, spinlock) heap option" where
  "sl_lock_at m p = do {
     l \<leftarrow> load m p;
     l' \<leftarrow> sl_lock l;
     modify m p (\<lambda>_. l') }"

definition sl_lock_both :: "(u64, spinlock) heap \<Rightarrow> u64 \<Rightarrow> u64 \<Rightarrow> (u64, spinlock) heap option" where
  "sl_lock_both m a b =
     (if a < b then do { m \<leftarrow> sl_lock_at m (Addr a); sl_lock_at m (Addr b) }
      else do { m \<leftarrow> sl_lock_at m (Addr b); sl_lock_at m (Addr a) })"

definition sl_lock_both_same_prov ::
  "(u64, spinlock) heap \<Rightarrow> u64 \<Rightarrow> u64 \<Rightarrow> (u64, spinlock) heap option" where
  "sl_lock_both_same_prov m a b =
     (if a < b then do { m \<leftarrow> sl_lock_at m (Addr a); sl_lock_at m (Addr b) }
      else do { m \<leftarrow> sl_lock_at m (Addr b); sl_lock_at m (Addr a) })"

partial_function (option) latch_wait :: "latch \<Rightarrow> unit option" where
  "latch_wait l = (if released l = False then latch_wait l else Some ())"

definition latch_release :: "latch \<Rightarrow> latch" where
  "latch_release l = l\<lparr>released := True\<rparr>"

section \<open>The interleaving of threads\<close>

text \<open>
  \<open>lk a\<close>: the lock at address \<open>a\<close> is taken; \<open>todo t\<close>: the locks thread \<open>t\<close> has still to
  take in its call of \<open>sl_lock_both\<close>, in the order of the code; \<open>held t\<close>: the locks it holds.
\<close>

record locks =
  lk :: "u64 \<Rightarrow> bool"
  todo :: "nat \<Rightarrow> u64 list"
  held :: "nat \<Rightarrow> u64 list"

definition init_locks :: locks where
  "init_locks = \<lparr>lk = (\<lambda>_. False), todo = (\<lambda>_. []), held = (\<lambda>_. [])\<rparr>"

definition lock_both_order :: "u64 \<Rightarrow> u64 \<Rightarrow> u64 list" where
  "lock_both_order a b = (if a < b then [a, b] else [b, a])"

inductive lock_step :: "nat \<Rightarrow> locks \<Rightarrow> locks \<Rightarrow> bool" for n where
  call: "t < n \<Longrightarrow> todo s t = [] \<Longrightarrow> held s t = [] \<Longrightarrow> a \<noteq> b \<Longrightarrow>
     lock_step n s (s\<lparr>todo := (todo s)(t := lock_both_order a b)\<rparr>)"
| spin: "t < n \<Longrightarrow> todo s t = a # as \<Longrightarrow> lk s a \<Longrightarrow> lock_step n s s"
| take: "t < n \<Longrightarrow> todo s t = a # as \<Longrightarrow> \<not> lk s a \<Longrightarrow>
     lock_step n s (s\<lparr>lk := (lk s)(a := True), todo := (todo s)(t := as),
       held := (held s)(t := a # held s t)\<rparr>)"
| unlock: "t < n \<Longrightarrow> todo s t = [] \<Longrightarrow> held s t = a # as \<Longrightarrow>
     lock_step n s (s\<lparr>lk := (lk s)(a := False), held := (held s)(t := as)\<rparr>)"

inductive reachable :: "nat \<Rightarrow> locks \<Rightarrow> bool" for n where
  start: "reachable n init_locks"
| step: "reachable n s \<Longrightarrow> lock_step n s s' \<Longrightarrow> reachable n s'"

section \<open>The sequential functions\<close>

lemma sl_lock_free [simp]: "lock l = False \<Longrightarrow> sl_lock l = Some (l\<lparr>lock := True\<rparr>)"
  by (subst sl_lock.simps) (simp add: atomic_compare_exchange_strong_def)

lemma sl_lock_taken [simp]: "lock l = True \<Longrightarrow> sl_lock l = None"
proof (rule ccontr)
  assume l: "lock l = True" and "sl_lock l \<noteq> None"
  then obtain r where "sl_lock l = Some r" by auto
  then have "lock l = False"
  proof (rule sl_lock.raw_induct [where P = "\<lambda>l r. lock l = False", rotated])
    fix f l r
    assume IH: "\<And>l r. f l = Some r \<Longrightarrow> lock l = False"
      and eq: "(case atomic_compare_exchange_strong (lock l) False True of
        (ok, m, _) \<Rightarrow> if ok = False then f (l\<lparr>lock := m\<rparr>) else Some (l\<lparr>lock := m\<rparr>)) = Some r"
    show "lock l = False"
      using eq IH [of "l\<lparr>lock := True\<rparr>" r] by (cases "lock l") (auto simp: atomic_compare_exchange_strong_def)
  qed
  with l show False by simp
qed

lemma sl_lock_iff: "sl_lock l = Some l' \<longleftrightarrow> \<not> lock l \<and> l' = l\<lparr>lock := True\<rparr>"
  by (cases "lock l") auto

lemma sl_unlock_simps [simp]: "lock (sl_unlock l) = False" "lock (sl_init l) = False"
  by (simp_all add: sl_unlock_def sl_init_def)

lemma sl_lock_at_free:
  "m a = Some l \<Longrightarrow> \<not> lock l \<Longrightarrow> sl_lock_at m (Addr a) = Some (m(a \<mapsto> l\<lparr>lock := True\<rparr>))"
  by (simp add: sl_lock_at_def load_def modify_def)

lemma sl_lock_at_taken: "m a = Some l \<Longrightarrow> lock l \<Longrightarrow> sl_lock_at m (Addr a) = None"
  by (simp add: sl_lock_at_def load_def)

section \<open>The interleaved system\<close>

definition lock_inv :: "nat \<Rightarrow> locks \<Rightarrow> bool" where
  "lock_inv n s \<longleftrightarrow>
     (\<forall>a. lk s a \<longleftrightarrow> (\<exists>t<n. a \<in> set (held s t))) \<and>
     (\<forall>t u a. a \<in> set (held s t) \<longrightarrow> a \<in> set (held s u) \<longrightarrow> t = u) \<and>
     (\<forall>t. distinct (held s t)) \<and>
     (\<forall>t. sorted (todo s t) \<and> distinct (todo s t)) \<and>
     (\<forall>t. \<forall>a\<in>set (held s t). \<forall>b\<in>set (todo s t). a < b) \<and>
     (\<forall>t\<ge>n. held s t = [])"

lemma lock_both_order_sorted:
  "a \<noteq> b \<Longrightarrow> sorted (lock_both_order a b) \<and> distinct (lock_both_order a b)"
  by (auto simp: lock_both_order_def)

lemma lock_inv_init: "lock_inv n init_locks"
  by (simp add: lock_inv_def init_locks_def)

lemma some_thread_upd:
  fixes t n :: nat
  assumes "t < n"
  shows "(\<exists>u<n. b \<in> set ((f(t := xs)) u)) \<longleftrightarrow> b \<in> set xs \<or> (\<exists>u<n. u \<noteq> t \<and> b \<in> set (f u))"
  using assms by (metis fun_upd_apply)

lemma some_thread:
  fixes t n :: nat
  assumes "t < n"
  shows "(\<exists>u<n. b \<in> set (f u)) \<longleftrightarrow> b \<in> set (f t) \<or> (\<exists>u<n. u \<noteq> t \<and> b \<in> set (f u))"
  using assms by metis

lemma lock_invD:
  assumes "lock_inv n s"
  shows "lk s a \<longleftrightarrow> (\<exists>t<n. a \<in> set (held s t))"
    and "a \<in> set (held s t) \<Longrightarrow> a \<in> set (held s u) \<Longrightarrow> t = u"
    and "distinct (held s t)" "sorted (todo s t)" "distinct (todo s t)"
    and "a \<in> set (held s t) \<Longrightarrow> b \<in> set (todo s t) \<Longrightarrow> a < b"
    and "n \<le> t \<Longrightarrow> held s t = []"
  using assms unfolding lock_inv_def by blast+

lemma lock_invI:
  assumes "\<And>a. lk s a \<longleftrightarrow> (\<exists>t<n. a \<in> set (held s t))"
    and "\<And>t u a. a \<in> set (held s t) \<Longrightarrow> a \<in> set (held s u) \<Longrightarrow> t = u"
    and "\<And>t. distinct (held s t)" "\<And>t. sorted (todo s t)" "\<And>t. distinct (todo s t)"
    and "\<And>t a b. a \<in> set (held s t) \<Longrightarrow> b \<in> set (todo s t) \<Longrightarrow> a < b"
    and "\<And>t. n \<le> t \<Longrightarrow> held s t = []"
  shows "lock_inv n s"
  using assms unfolding lock_inv_def by blast

lemma lock_inv_take:
  assumes i: "lock_inv n s" and t: "t < n" and a: "todo s t = a # as" "\<not> lk s a"
  shows "lock_inv n (s\<lparr>lk := (lk s)(a := True), todo := (todo s)(t := as),
           held := (held s)(t := a # held s t)\<rparr>)"
proof -
  note d = lock_invD [OF i]
  have as: "\<forall>b\<in>set as. a < b" "sorted as" "distinct as"
    using d(4,5) [of t] a by (auto simp: less_le)
  have na: "a \<notin> set (held s u)" for u
    using d(1) [of a] d(7) [of u] a by (cases "u < n") auto
  have lk: "((lk s)(a := True)) b \<longleftrightarrow> (\<exists>u<n. b \<in> set (((held s)(t := a # held s t)) u))" for b
    unfolding some_thread_upd [OF t] using t d(1) [of b] some_thread [OF t, of b "held s"] by auto
  show ?thesis
  proof (rule lock_invI)
    fix b
    show "lk (s\<lparr>lk := (lk s)(a := True), todo := (todo s)(t := as),
           held := (held s)(t := a # held s t)\<rparr>) b \<longleftrightarrow>
         (\<exists>u<n. b \<in> set (held (s\<lparr>lk := (lk s)(a := True), todo := (todo s)(t := as),
           held := (held s)(t := a # held s t)\<rparr>) u))"
      using lk [of b] by (simp del: fun_upd_apply)
  qed (use d(2-7) as na a t in \<open>auto split: if_splits\<close>)
qed

lemma lock_inv_unlock:
  assumes i: "lock_inv n s" and t: "t < n" and a: "todo s t = []" "held s t = a # as"
  shows "lock_inv n (s\<lparr>lk := (lk s)(a := False), held := (held s)(t := as)\<rparr>)"
proof -
  note d = lock_invD [OF i]
  have na: "a \<notin> set as" "distinct as" using d(3) [of t] a by auto
  have own: "u \<noteq> t \<Longrightarrow> b \<in> set (a # as) \<Longrightarrow> b \<notin> set (held s u)" for b u
    using d(2) [of b u t] a by auto
  have lk: "((lk s)(a := False)) b \<longleftrightarrow> (\<exists>u<n. b \<in> set (((held s)(t := as)) u))" for b
    unfolding some_thread_upd [OF t]
    using t d(1) [of b] some_thread [OF t, of b "held s"] a na own [of _ b] by auto
  show ?thesis
  proof (rule lock_invI)
    fix b
    show "lk (s\<lparr>lk := (lk s)(a := False), held := (held s)(t := as)\<rparr>) b \<longleftrightarrow>
         (\<exists>u<n. b \<in> set (held (s\<lparr>lk := (lk s)(a := False), held := (held s)(t := as)\<rparr>) u))"
      using lk [of b] by (simp del: fun_upd_apply)
  next
    fix u v b
    assume "b \<in> set (held (s\<lparr>lk := (lk s)(a := False), held := (held s)(t := as)\<rparr>) u)"
      "b \<in> set (held (s\<lparr>lk := (lk s)(a := False), held := (held s)(t := as)\<rparr>) v)"
    then show "u = v" using d(2) [of b u v] own [of u b] own [of v b] by (auto split: if_splits)
  qed (use d(3-7) na a t in \<open>auto split: if_splits\<close>)
qed

lemma lock_inv_call:
  "lock_inv n s \<Longrightarrow> held s t = [] \<Longrightarrow> a \<noteq> b \<Longrightarrow>
   lock_inv n (s\<lparr>todo := (todo s)(t := lock_both_order a b)\<rparr>)"
  using lock_both_order_sorted [of a b] unfolding lock_inv_def by auto

lemma lock_step_inv: "lock_step n s s' \<Longrightarrow> lock_inv n s \<Longrightarrow> lock_inv n s'"
  by (induction rule: lock_step.induct) (auto intro: lock_inv_call lock_inv_take lock_inv_unlock)

lemma reachable_inv: "reachable n s \<Longrightarrow> lock_inv n s"
  by (induction rule: reachable.induct) (auto intro: lock_inv_init lock_step_inv)

text \<open>A step that is not a failed attempt to take a lock.\<close>

definition progress :: "nat \<Rightarrow> locks \<Rightarrow> bool" where
  "progress n s \<longleftrightarrow>
     (\<exists>t<n. \<exists>a as. todo s t = a # as \<and> \<not> lk s a) \<or>
     (\<exists>t<n. \<exists>a as. todo s t = [] \<and> held s t = a # as)"

lemma no_deadlock:
  assumes inv: "lock_inv n s" and t: "t < n" "todo s t \<noteq> [] \<or> held s t \<noteq> []"
  shows "progress n s"
proof (rule ccontr)
  assume stuck: "\<not> progress n s"
  define W where "W = {u. u < n \<and> todo s u \<noteq> []}"
  have "t \<in> W"
    using stuck t by (auto simp: W_def progress_def neq_Nil_conv)
  then have "finite W" "W \<noteq> {}" by (auto simp: W_def)
  then obtain u where u: "u \<in> W" "\<forall>v\<in>W. hd (todo s v) \<le> hd (todo s u)"
    using Max_in [of "(\<lambda>v. hd (todo s v)) ` W"] Max_ge [of "(\<lambda>v. hd (todo s v)) ` W"]
    by (smt (verit) finite_imageI image_iff image_is_empty)
  then obtain a as where a: "u < n" "todo s u = a # as" by (auto simp: W_def neq_Nil_conv)
  with stuck have "lk s a" by (auto simp: progress_def)
  with inv obtain v where v: "v < n" "a \<in> set (held s v)" by (auto simp: lock_inv_def)
  with stuck have "todo s v \<noteq> []"
    by (auto simp: progress_def neq_Nil_conv) (metis list.set_cases)
  moreover from this v inv have "a < hd (todo s v)"
    unfolding lock_inv_def by (metis list.set_sel(1))
  ultimately show False using u(2) a v by (auto simp: W_def)
qed


section \<open>Correctness properties\<close>

text \<open>
  C4. In every reachable state of any number of threads that take pairs of distinct locks
  with \<open>sl_lock_both\<close>, no lock is held by two threads, and a lock is marked as taken exactly
  when a thread holds it.
\<close>

theorem spinlock_mutual_exclusion:
  assumes "reachable n s"
  shows "(a \<in> set (held s t) \<and> a \<in> set (held s u) \<longrightarrow> t = u) \<and>
         (lk s a \<longleftrightarrow> (\<exists>t<n. a \<in> set (held s t)))"
  using reachable_inv [OF assms] unfolding lock_inv_def by blast

lemma reachable_call: "reachable 2 (init_locks\<lparr>todo := (\<lambda>_. [])(0 := [3, 5])\<rparr>)"
proof -
  have "lock_step 2 init_locks (init_locks\<lparr>todo := (todo init_locks)(0 := lock_both_order 5 3)\<rparr>)"
    by (rule lock_step.call) (simp_all add: init_locks_def)
  then show ?thesis
    using reachable.step [OF reachable.start] by (simp add: init_locks_def lock_both_order_def)
qed

lemma reachable_take:
  "reachable 2 \<lparr>lk = (\<lambda>_. False)(3 := True), todo = (\<lambda>_. [])(0 := [5]), held = (\<lambda>_. [])(0 := [3])\<rparr>"
proof -
  let ?s = "init_locks\<lparr>todo := (\<lambda>_. [])(0 := [3, 5])\<rparr>"
  have "lock_step 2 ?s (?s\<lparr>lk := (lk ?s)(3 := True), todo := (todo ?s)(0 := [5]),
       held := (held ?s)(0 := 3 # held ?s 0)\<rparr>)"
    by (rule lock_step.take) (simp_all add: init_locks_def)
  then show ?thesis
    using reachable.step [OF reachable_call] by (simp add: init_locks_def)
qed

theorem spinlock_mutual_exclusion_witness:
  "let s = \<lparr>lk = (\<lambda>_. False)(3 := True), todo = (\<lambda>_. [])(0 := [5]), held = (\<lambda>_. [])(0 := [3])\<rparr>
   in \<forall>u. (3::u64) \<in> set (held s u) \<longrightarrow> u = 0"
  using spinlock_mutual_exclusion [OF reachable_take, of 3 _ 0] by (simp add: Let_def)

text \<open>
  C5. Because \<open>sl_lock_both\<close> takes its two locks in the order of their addresses, the threads
  cannot deadlock: in every reachable state in which a thread is inside its call or holds a
  lock, some thread can take a lock or release one.
\<close>

theorem lock_both_deadlock_free:
  assumes "reachable n s" "t < n" "todo s t \<noteq> [] \<or> held s t \<noteq> []"
  shows "progress n s"
  using no_deadlock [OF reachable_inv [OF assms(1)] assms(2,3)] .

theorem lock_both_deadlock_free_witness:
  "progress 2 \<lparr>lk = (\<lambda>_. False)(3 := True), todo = (\<lambda>_. [])(0 := [5]), held = (\<lambda>_. [])(0 := [3])\<rparr>"
  by (rule lock_both_deadlock_free [OF reachable_take, of 0]) simp_all

text \<open>
  On free locks at different addresses \<open>sl_lock_both\<close> returns with both taken; called with
  the same lock twice it never returns, because the second attempt waits for the first.
\<close>

theorem sl_lock_both_result:
  assumes "m a = Some la" "m b = Some lb" "\<not> lock la" "\<not> lock lb"
  shows "sl_lock_both m a b =
     (if a = b then None
      else Some (m(a \<mapsto> la\<lparr>lock := True\<rparr>, b \<mapsto> lb\<lparr>lock := True\<rparr>)))"
  using assms
  by (auto simp: sl_lock_both_def sl_lock_at_free sl_lock_at_taken fun_upd_twist)

theorem sl_lock_both_result_witness:
  "sl_lock_both [1 \<mapsto> \<lparr>lock = False\<rparr>, 2 \<mapsto> \<lparr>lock = False\<rparr>] 1 1 = None"
  using sl_lock_both_result [of "[1 \<mapsto> \<lparr>lock = False\<rparr>, 2 \<mapsto> \<lparr>lock = False\<rparr>]" 1 "\<lparr>lock = False\<rparr>" 1
      "\<lparr>lock = False\<rparr>"] by simp

end
