(* ===== verification/Buddy_Blocks.thy ===== *)
theory Buddy_Blocks
  imports Prelude
begin

unbundle bit_operations_syntax

text \<open>
  The abstract side of the buddy allocator: blocks \<open>(q, i)\<close> of \<open>2 ^ i\<close> pages that start at
  page \<open>q\<close>, sets of disjoint aligned blocks, how a block merges with its buddy and splits,
  and the uniqueness of a set of blocks in which no two buddies are left unmerged.
\<close>

type_synonym block = "nat \<times> nat"

fun blk :: "block \<Rightarrow> nat set" where
  "blk (q, i) = {q..<q + 2 ^ i}"

definition area :: "block set \<Rightarrow> nat set" where
  "area B = (\<Union>x\<in>B. blk x)"

definition max_order :: nat where "max_order = 11"

definition wf_blocks :: "nat \<Rightarrow> nat \<Rightarrow> block set \<Rightarrow> bool" where
  "wf_blocks a b B \<longleftrightarrow>
     (\<forall>(q, i)\<in>B. i \<le> max_order \<and> 2 ^ i dvd q \<and> a \<le> q \<and> q + 2 ^ i \<le> b) \<and>
     (\<forall>x\<in>B. \<forall>y\<in>B. x \<noteq> y \<longrightarrow> blk x \<inter> blk y = {})"

definition buddy_of :: "nat \<Rightarrow> nat \<Rightarrow> nat" where
  "buddy_of q i = q XOR 2 ^ i"

definition coalesced :: "block set \<Rightarrow> bool" where
  "coalesced B \<longleftrightarrow> (\<forall>(q, i)\<in>B. i < max_order \<longrightarrow> (buddy_of q i, i) \<notin> B)"

section \<open>The buddy of a block\<close>

lemma buddy_of_buddy_of [simp]: "buddy_of (buddy_of q i) i = q"
  by (simp add: buddy_of_def xor.assoc)

lemma buddy_of_eq:
  "buddy_of q i = (if odd (q div 2 ^ i) then q - 2 ^ i else q + 2 ^ i)"
proof -
  have f: "buddy_of q i = flip_bit i q"
    by (simp add: buddy_of_def flip_bit_eq_xor push_bit_eq_mult)
  show ?thesis
  proof (cases "bit q i")
    case True
    then have "q = set_bit i (unset_bit i q)"
      by (auto intro!: bit_eqI simp: bit_set_bit_iff bit_unset_bit_iff)
    then have "q = unset_bit i q + 2 ^ i" by (subst (asm) set_bit_eq) (simp add: bit_unset_bit_iff)
    then have "unset_bit i q = q - 2 ^ i" by arith
    with True show ?thesis by (simp add: f flip_bit_eq_if bit_iff_odd)
  next
    case False
    then show ?thesis by (simp add: f flip_bit_eq_if set_bit_eq bit_iff_odd)
  qed
qed

lemma buddy_of_low: "2 ^ Suc i dvd q \<Longrightarrow> buddy_of q i = q + 2 ^ i"
  by (auto simp: buddy_of_eq elim!: dvdE)

lemma buddy_of_high: "2 ^ i dvd q \<Longrightarrow> \<not> 2 ^ Suc i dvd q \<Longrightarrow> 2 ^ i \<le> q \<and> buddy_of q i = q - 2 ^ i \<and> 2 ^ Suc i dvd q - 2 ^ i"
proof -
  assume "2 ^ i dvd q" and n: "\<not> 2 ^ Suc i dvd q"
  then obtain k where k: "q = 2 ^ i * k" by (auto elim: dvdE)
  have "odd k" using n unfolding k by (auto elim!: evenE)
  moreover from this obtain m where m: "k = 2 * m + 1" by (elim oddE)
  ultimately show ?thesis by (auto simp: buddy_of_eq k algebra_simps)
qed

lemma buddy_cases:
  assumes "2 ^ i dvd q"
  obtains (low) "2 ^ Suc i dvd q" "buddy_of q i = q + 2 ^ i"
    | (high) r where "q = r + 2 ^ i" "2 ^ Suc i dvd r" "buddy_of q i = r"
proof (cases "2 ^ Suc i dvd q")
  case True
  then show thesis using low buddy_of_low by blast
next
  case False
  with assms show thesis using high [of "q - 2 ^ i"] buddy_of_high by auto
qed

lemma buddy_of_aligned: "2 ^ i dvd q \<Longrightarrow> 2 ^ i dvd buddy_of q i"
  by (erule buddy_cases) (auto dest: dvd_trans [rotated] simp: power_Suc intro: dvd_trans [of _ "2 ^ Suc i"])

lemma buddy_of_neq [simp]: "buddy_of q i \<noteq> q"
proof -
  have "q - 2 ^ i \<noteq> q" if "odd (q div 2 ^ i)"
  proof (cases "q < 2 ^ i")
    case False
    have "0 < (2::nat) ^ i" by simp
    with False show ?thesis by linarith
  qed (use that in simp)
  then show ?thesis by (simp add: buddy_of_eq)
qed

section \<open>Sets of blocks\<close>

lemma blk_nonempty: "fst x \<in> blk x"
  by (cases x) simp

lemma blk_Suc: "blk (q, Suc i) = blk (q, i) \<union> blk (q + 2 ^ i, i)"
  by auto

lemma area_insert [simp]: "area (insert x B) = blk x \<union> area B"
  by (simp add: area_def)

lemma area_Un: "area (B \<union> C) = area B \<union> area C"
  by (auto simp: area_def)

lemma area_empty [simp]: "area {} = {}"
  by (simp add: area_def)

lemma blk_area: "x \<in> B \<Longrightarrow> blk x \<subseteq> area B"
  by (auto simp: area_def)

lemma wf_block:
  "wf_blocks a b B \<Longrightarrow> (q, i) \<in> B \<Longrightarrow> i \<le> max_order \<and> 2 ^ i dvd q \<and> a \<le> q \<and> q + 2 ^ i \<le> b"
  unfolding wf_blocks_def by blast

lemma wf_disjoint:
  "wf_blocks a b B \<Longrightarrow> x \<in> B \<Longrightarrow> y \<in> B \<Longrightarrow> x \<noteq> y \<Longrightarrow> blk x \<inter> blk y = {}"
  unfolding wf_blocks_def by blast

lemma wf_in_range: "wf_blocks a b B \<Longrightarrow> (q, i) \<in> B \<Longrightarrow> q \<in> {a..<b}"
  by (drule (1) wf_block) (auto simp: Suc_le_eq intro: less_le_trans [of _ "q + 2 ^ i"])

lemma wf_fst_unique: "wf_blocks a b B \<Longrightarrow> (q, i) \<in> B \<Longrightarrow> (q, j) \<in> B \<Longrightarrow> i = j"
  using wf_disjoint [of a b B "(q, i)" "(q, j)"] by auto

lemma wf_subset: "wf_blocks a b B \<Longrightarrow> C \<subseteq> B \<Longrightarrow> wf_blocks a b C"
  unfolding wf_blocks_def by blast

lemma wf_area_disjoint:
  "wf_blocks a b B \<Longrightarrow> C \<subseteq> B \<Longrightarrow> D \<subseteq> B \<Longrightarrow> C \<inter> D = {} \<Longrightarrow> area C \<inter> area D = {}"
  unfolding area_def by (auto dest: wf_disjoint [of a b B])

lemma wf_area: "wf_blocks a b B \<Longrightarrow> area B \<subseteq> {a..<b}"
  by (fastforce simp: area_def wf_blocks_def)

lemma wf_insert:
  "wf_blocks a b (insert (q, i) B) \<longleftrightarrow>
     i \<le> max_order \<and> 2 ^ i dvd q \<and> a \<le> q \<and> q + 2 ^ i \<le> b \<and> wf_blocks a b B \<and>
     ((q, i) \<in> B \<or> blk (q, i) \<inter> area B = {})"
proof
  assume w: "wf_blocks a b (insert (q, i) B)"
  have "blk (q, i) \<inter> blk x = {}" if "x \<in> B" "(q, i) \<notin> B" for x
    using wf_disjoint [OF w, of "(q, i)" x] that by (auto simp del: blk.simps)
  with wf_block [OF w, of q i] wf_subset [OF w]
  show "i \<le> max_order \<and> 2 ^ i dvd q \<and> a \<le> q \<and> q + 2 ^ i \<le> b \<and> wf_blocks a b B \<and>
     ((q, i) \<in> B \<or> blk (q, i) \<inter> area B = {})"
    by (auto simp: area_def simp del: blk.simps)
next
  assume w: "i \<le> max_order \<and> 2 ^ i dvd q \<and> a \<le> q \<and> q + 2 ^ i \<le> b \<and> wf_blocks a b B \<and>
     ((q, i) \<in> B \<or> blk (q, i) \<inter> area B = {})"
  show "wf_blocks a b (insert (q, i) B)"
  proof (cases "(q, i) \<in> B")
    case False
    then have "blk (q, i) \<inter> blk x = {}" if "x \<in> B" for x
      using w blk_area [OF that] by blast
    with w show ?thesis unfolding wf_blocks_def
      by (auto simp: Int_commute simp del: blk.simps)
  qed (use w in \<open>simp add: insert_absorb\<close>)
qed

lemma area_fst: "(q, i) \<in> B \<Longrightarrow> q \<in> area B"
  by (force simp: area_def)

lemma disjoint_notin: "blk (q, i) \<inter> area B = {} \<Longrightarrow> (q, j) \<notin> B"
  using area_fst [of q j B] blk_nonempty [of "(q, i)"] by (auto simp: disjoint_iff simp del: blk.simps)

text \<open>Merging two buddies and splitting a block.\<close>

lemma wf_merge:
  assumes "wf_blocks a b (insert (q, i) (insert (q + 2 ^ i, i) B))" "i < max_order" "2 ^ Suc i dvd q"
    and "(q, i) \<notin> B" "(q + 2 ^ i, i) \<notin> B"
  shows "wf_blocks a b (insert (q, Suc i) B)" "(q, Suc i) \<notin> B"
proof -
  have d: "blk (q, i) \<inter> area B = {}" "blk (q + 2 ^ i, i) \<inter> area B = {}"
    using assms by (auto simp add: wf_insert simp del: blk.simps)
  with assms show "wf_blocks a b (insert (q, Suc i) B)"
    by (auto simp: wf_insert blk_Suc Int_Un_distrib2 simp del: blk.simps)
  show "(q, Suc i) \<notin> B" using d(1) by (rule disjoint_notin)
qed

lemma wf_split:
  assumes "wf_blocks a b (insert (q, Suc i) B)" "(q, Suc i) \<notin> B"
  shows "wf_blocks a b (insert (q, i) (insert (q + 2 ^ i, i) B))" "(q, i) \<notin> B" "(q + 2 ^ i, i) \<notin> B"
    "2 ^ Suc i dvd q" "i < max_order"
proof -
  have d: "blk (q, i) \<inter> area B = {}" "blk (q + 2 ^ i, i) \<inter> area B = {}"
    and w: "Suc i \<le> max_order" "2 ^ Suc i dvd q" "a \<le> q" "q + 2 ^ Suc i \<le> b" "wf_blocks a b B"
    using assms by (auto simp add: wf_insert blk_Suc Int_Un_distrib2 simp del: blk.simps)
  have "(2::nat) ^ i dvd q" using w(2) dvd_trans [OF le_imp_power_dvd [of i "Suc i" "2::nat"]] by simp
  then show "wf_blocks a b (insert (q, i) (insert (q + 2 ^ i, i) B))"
    using d w by (auto simp: wf_insert simp del: blk.simps) (auto)
  show "(q, i) \<notin> B" using d(1) by (rule disjoint_notin)
  show "(q + 2 ^ i, i) \<notin> B" using d(2) by (rule disjoint_notin)
  show "2 ^ Suc i dvd q" "i < max_order" using w by auto
qed

section \<open>Uniqueness of the coalesced form\<close>

text \<open>Two aligned blocks are nested or disjoint.\<close>

lemma aligned_nested:
  assumes "2 ^ i dvd q" "2 ^ j dvd r" "i \<le> j" "x \<in> blk (q, i)" "x \<in> blk (r, j)"
  shows "blk (q, i) \<subseteq> blk (r, j)"
proof -
  obtain k where k: "q = 2 ^ i * k" using assms(1) by (elim dvdE)
  have "(2::nat) ^ i dvd 2 ^ j" using assms(3) by (simp add: le_imp_power_dvd)
  then obtain m where m: "(2::nat) ^ j = 2 ^ i * m" by (elim dvdE)
  obtain n where n: "r = 2 ^ i * n" using assms(2) m by (elim dvdE) (auto simp: mult.assoc)
  have x: "2 ^ i * k \<le> x" "x < 2 ^ i * (k + 1)" "2 ^ i * n \<le> x" "x < 2 ^ i * (n + m)"
    using assms(4,5) k m n by (auto simp: algebra_simps)
  have "2 ^ i * n < 2 ^ i * (k + 1)" using x by linarith
  then have 1: "n \<le> k" unfolding mult_less_cancel1 by simp
  have "2 ^ i * k < 2 ^ i * (n + m)" using x by linarith
  then have 2: "k + 1 \<le> n + m" by simp
  have "2 ^ i * n \<le> 2 ^ i * k" "2 ^ i * (k + 1) \<le> 2 ^ i * (n + m)"
    using mult_le_mono2 [OF 1] mult_le_mono2 [OF 2] by blast+
  then show ?thesis unfolding blk.simps k n m by (auto simp: algebra_simps)
qed

text \<open>A block and its buddy together are one block of the next order.\<close>

lemma blk_buddy: "2 ^ i dvd q \<Longrightarrow> \<exists>r. 2 ^ Suc i dvd r \<and> blk (r, Suc i) = blk (q, i) \<union> blk (buddy_of q i, i)"
  by (erule buddy_cases) (metis blk_Suc, metis blk_Suc Un_commute)

text \<open>A block that a coalesced set covers lies in one block of the set.\<close>

lemma coalesced_cover:
  assumes w: "wf_blocks a b B" and c: "coalesced B"
    and q: "2 ^ j dvd q" "j \<le> max_order" "blk (q, j) \<subseteq> area B"
  shows "\<exists>x\<in>B. blk (q, j) \<subseteq> blk x"
proof (rule ccontr)
  assume n: "\<not> ?thesis"
  let ?S = "{i. \<exists>p. (p, i) \<in> B \<and> i < j \<and> blk (p, i) \<subseteq> blk (q, j)}"
  have member: "\<exists>p i. (p, i) \<in> B \<and> i < j \<and> x \<in> blk (p, i) \<and> blk (p, i) \<subseteq> blk (q, j)"
    if x: "x \<in> blk (q, j)" for x
  proof -
    obtain p i where p: "(p, i) \<in> B" "x \<in> blk (p, i)" using q(3) x by (auto simp: area_def simp del: blk.simps)
    have "i < j"
      using aligned_nested [OF q(1), of i p x] wf_block [OF w p(1)] p x n by (meson not_le)
    with p aligned_nested [of i p j q x] wf_block [OF w p(1)] q x show ?thesis by (meson less_imp_le)
  qed
  then have "?S \<noteq> {}" using blk_nonempty [of "(q, j)"] by fastforce
  then have m: "Inf ?S \<in> ?S" "\<And>i. i \<in> ?S \<Longrightarrow> Inf ?S \<le> i"
    using Inf_nat_def1 [of ?S] cInf_lower [of _ ?S] by auto
  define i where "i = Inf ?S"
  obtain p where p: "(p, i) \<in> B" "i < j" "blk (p, i) \<subseteq> blk (q, j)" using m(1) i_def by blast
  note pw = wf_block [OF w p(1)]
  obtain r where r: "2 ^ Suc i dvd r" "blk (r, Suc i) = blk (p, i) \<union> blk (buddy_of p i, i)"
    using blk_buddy pw by metis
  have "p \<in> blk (r, Suc i)" "p \<in> blk (q, j)" using r(2) p(3) blk_nonempty [of "(p, i)"]
    by (auto simp del: blk.simps)
  then have "blk (r, Suc i) \<subseteq> blk (q, j)" using aligned_nested [OF r(1) q(1)] p(2) by simp
  then have "buddy_of p i \<in> blk (q, j)" using r(2) blk_nonempty [of "(buddy_of p i, i)"]
    by (auto simp del: blk.simps)
  then obtain u k where u: "(u, k) \<in> B" "k < j" "buddy_of p i \<in> blk (u, k)" "blk (u, k) \<subseteq> blk (q, j)"
    using member by blast
  note uw = wf_block [OF w u(1)]
  have "i \<le> k" using m(2) [of k] u i_def by blast
  show False
  proof (cases "k = i")
    case True
    then have "blk (u, i) = blk (buddy_of p i, i)"
      using aligned_nested [of i u i "buddy_of p i" "buddy_of p i"]
        aligned_nested [of i "buddy_of p i" i u "buddy_of p i"] buddy_of_aligned uw pw u(3)
        blk_nonempty [of "(buddy_of p i, i)"] by (metis fst_conv order.refl subset_antisym)
    then have "u = buddy_of p i" using blk_nonempty [of "(u, i)"] blk_nonempty [of "(buddy_of p i, i)"]
      by auto
    then show False using c p u True q(2) by (auto simp: coalesced_def)
  next
    case False
    then have "blk (r, Suc i) \<subseteq> blk (u, k)"
      using aligned_nested [OF r(1), of k u "buddy_of p i"] uw u(3) \<open>i \<le> k\<close> r(2)
        blk_nonempty [of "(buddy_of p i, i)"] by (simp del: blk.simps)
    then have "blk (p, i) \<inter> blk (u, k) \<noteq> {}" using r(2) blk_nonempty [of "(p, i)"] by blast
    then show False using wf_disjoint [OF w p(1) u(1)] False by auto
  qed
qed

theorem coalesced_unique:
  assumes "wf_blocks a b B" "coalesced B" "wf_blocks a b C" "coalesced C" "area B = area C"
  shows "B = C"
proof -
  have sub: "B \<subseteq> C" if w: "wf_blocks a b B" "coalesced B" "wf_blocks a b C" "coalesced C"
      "area B = area C" for B C
  proof
    fix x assume x: "x \<in> B"
    obtain q i where q: "x = (q, i)" by (cases x)
    obtain y where y: "y \<in> C" "blk x \<subseteq> blk y"
      using coalesced_cover [OF w(3,4), of i q] wf_block [OF w(1), of q i] x blk_area [OF x] w(5) q by auto
    obtain r j where r: "y = (r, j)" by (cases y)
    obtain z where z: "z \<in> B" "blk y \<subseteq> blk z"
      using coalesced_cover [OF w(1,2), of j r] wf_block [OF w(3), of r j] y blk_area [OF y(1)] w(5) r by auto
    have "z = x" using wf_disjoint [OF w(1) x z(1)] y(2) z(2) blk_nonempty [of x] by auto
    then have e: "blk (q, i) = blk (r, j)" using y(2) z(2) q r by auto
    then have "card (blk (q, i)) = card (blk (r, j))" by simp
    then have "i = j" by simp
    with e have "q = r" using blk_nonempty [of "(q, i)"] blk_nonempty [of "(r, j)"] by auto
    with \<open>i = j\<close> y r q show "x \<in> C" by simp
  qed
  show ?thesis using sub [of B C] sub [of C B] assms by auto
qed

end
