(* ===== verification/Buddy.thy ===== *)
theory Buddy
  imports Linux_List Spinlock Buddy_Blocks
begin

unbundle bit_operations_syntax

text \<open>
  The buddy page allocator of the pKVM hypervisor, \<open>src/linux/casestudies/page_alloc.c\<close>.

  A page descriptor is named by its index in \<open>hyp_vmemmap\<close> (its page frame number), a pool
  by a number. The list nodes of the free areas and of the pages live in a heap of
  \<open>Linux_List\<close>, whose functions are the ones the file repeats in its lines 56 to 182;
  \<open>container_of\<close> maps the node of a page to its index. The contents of the pages are a
  parameter \<open>'m\<close>, which only the external function \<open>clear_page\<close> changes.
\<close>

section \<open>Data\<close>

datatype node_addr = FreeArea nat nat | PageNode nat

record hyp_page =
  refcount :: u32
  order :: u32
  pg_pool :: "nat ptr"

record hyp_pool =
  pl_lock :: spinlock
  range_start :: u64
  range_end :: u64

record 'm hyp =
  pools :: "(nat, hyp_pool) heap"
  pages :: "(nat, hyp_page) heap"
  nodes :: "node_addr lheap"
  hyp_physvirt_offset :: u64
  mem :: 'm

definition PAGE_SIZE :: nat where "PAGE_SIZE = 4096"
definition PAGE_SHIFT :: nat where "PAGE_SHIFT = 12"
definition EINVAL :: int where "EINVAL = 22"
definition HYP_MAX_ORDER :: u32 where "HYP_MAX_ORDER = 11"
definition HYP_NO_ORDER :: u32 where "HYP_NO_ORDER = - 1"
definition HYP_GFP_ZERO :: u64 where "HYP_GFP_ZERO = 1"

section \<open>Address arithmetic\<close>

definition hyp_phys_to_virt :: "'m hyp \<Rightarrow> u64 \<Rightarrow> u64" where
  "hyp_phys_to_virt s phys = phys - hyp_physvirt_offset s"

definition hyp_virt_to_phys :: "'m hyp \<Rightarrow> u64 \<Rightarrow> u64" where
  "hyp_virt_to_phys s addr = addr + hyp_physvirt_offset s"

definition hyp_phys_to_page :: "u64 \<Rightarrow> nat" where
  "hyp_phys_to_page phys = unat (drop_bit PAGE_SHIFT phys)"

definition hyp_page_to_phys :: "nat \<Rightarrow> u64" where
  "hyp_page_to_phys p = push_bit PAGE_SHIFT (word_of_nat p)"

definition hyp_virt_to_page :: "'m hyp \<Rightarrow> u64 \<Rightarrow> nat" where
  "hyp_virt_to_page s virt = hyp_phys_to_page (hyp_virt_to_phys s virt)"

definition hyp_page_to_virt :: "'m hyp \<Rightarrow> nat \<Rightarrow> u64" where
  "hyp_page_to_virt s p = hyp_phys_to_virt s (hyp_page_to_phys p)"

text \<open>The \<open>int\<close> result of \<open>hyp_page_count\<close>, as its 32 bits.\<close>

definition hyp_page_count :: "'m hyp \<Rightarrow> u64 \<Rightarrow> u32 option" where
  "hyp_page_count s addr = do {
     p \<leftarrow> load (pages s) (Addr (hyp_virt_to_page s addr));
     Some (refcount p) }"

text \<open>The shift \<open>PAGE_SIZE << order\<close> is on \<open>int\<close>: it overflows from order 19 on.\<close>

definition find_buddy :: "'m hyp \<Rightarrow> nat \<Rightarrow> nat \<Rightarrow> u32 \<Rightarrow> nat ptr option" where
  "find_buddy s pool p ord = do {
     c_assert (unat ord < 19);
     let addr = hyp_page_to_phys p XOR push_bit (unat ord) (word_of_nat PAGE_SIZE);
     pl \<leftarrow> load (pools s) (Addr pool);
     if addr < range_start pl \<or> addr \<ge> range_end pl then Some NULL
     else Some (Addr (hyp_phys_to_page addr)) }"

section \<open>The allocator\<close>

definition set_order :: "'m hyp \<Rightarrow> nat \<Rightarrow> u32 \<Rightarrow> 'm hyp option" where
  "set_order s p ord = do {
     ps \<leftarrow> modify (pages s) (Addr p) (\<lambda>pg. pg\<lparr>order := ord\<rparr>);
     Some (s\<lparr>pages := ps\<rparr>) }"

definition set_refcount :: "'m hyp \<Rightarrow> nat \<Rightarrow> u32 \<Rightarrow> 'm hyp option" where
  "set_refcount s p n = do {
     ps \<leftarrow> modify (pages s) (Addr p) (\<lambda>pg. pg\<lparr>refcount := n\<rparr>);
     Some (s\<lparr>pages := ps\<rparr>) }"

partial_function (option) attach_loop ::
  "'m hyp \<Rightarrow> nat \<Rightarrow> nat \<Rightarrow> u32 \<Rightarrow> ('m hyp \<times> nat \<times> u32) option" where
  "attach_loop s pool p ord =
     (if ord < HYP_MAX_ORDER then do {
        buddy \<leftarrow> find_buddy s pool p ord;
        case buddy of
          Addr b \<Rightarrow> do {
            e \<leftarrow> list_empty (nodes s) (Addr (PageNode b));
            if e then Some (s, p, ord)
            else do {
              bp \<leftarrow> load (pages s) (Addr b);
              if order bp \<noteq> ord then Some (s, p, ord)
              else do {
                ns \<leftarrow> list_del_init (nodes s) (Addr (PageNode b));
                s' \<leftarrow> set_order (s\<lparr>nodes := ns\<rparr>) b HYP_NO_ORDER;
                attach_loop s' pool (if p < b then p else b) (ord + 1) } } }
        | _ \<Rightarrow> Some (s, p, ord) }
      else Some (s, p, ord))"

definition hyp_attach_page :: "'m hyp \<Rightarrow> nat \<Rightarrow> nat \<Rightarrow> 'm hyp option" where
  "hyp_attach_page s pool p = do {
     pg \<leftarrow> load (pages s) (Addr p);
     s \<leftarrow> set_order s p HYP_NO_ORDER;
     (s, p, ord) \<leftarrow> attach_loop s pool p (order pg);
     s \<leftarrow> set_order s p ord;
     ns \<leftarrow> list_add (nodes s) (Addr (PageNode p)) (Addr (FreeArea pool (unat ord)));
     Some (s\<lparr>nodes := ns\<rparr>) }"

definition hyp_spin_lock :: "'m hyp \<Rightarrow> nat \<Rightarrow> 'm hyp option" where
  "hyp_spin_lock s pool = do {
     pl \<leftarrow> load (pools s) (Addr pool);
     l \<leftarrow> sl_lock (pl_lock pl);
     ps \<leftarrow> modify (pools s) (Addr pool) (\<lambda>pl. pl\<lparr>pl_lock := l\<rparr>);
     Some (s\<lparr>pools := ps\<rparr>) }"

definition hyp_spin_unlock :: "'m hyp \<Rightarrow> nat \<Rightarrow> 'm hyp option" where
  "hyp_spin_unlock s pool = do {
     ps \<leftarrow> modify (pools s) (Addr pool) (\<lambda>pl. pl\<lparr>pl_lock := sl_unlock (pl_lock pl)\<rparr>);
     Some (s\<lparr>pools := ps\<rparr>) }"

text \<open>\<open>hyp_panic\<close> is a failing assertion.\<close>

definition hyp_panic :: "'s option" where
  "hyp_panic = do { c_assert False; None }"

definition hyp_put_page :: "'m hyp \<Rightarrow> u64 \<Rightarrow> 'm hyp option" where
  "hyp_put_page s addr = do {
     let p = hyp_virt_to_page s addr;
     pg \<leftarrow> load (pages s) (Addr p);
     case pg_pool pg of
       Addr pool \<Rightarrow> do {
         s \<leftarrow> hyp_spin_lock s pool;
         pg \<leftarrow> load (pages s) (Addr p);
         if refcount pg = 0 then hyp_panic
         else do {
           s \<leftarrow> set_refcount s p (refcount pg - 1);
           pg \<leftarrow> load (pages s) (Addr p);
           s \<leftarrow> (if refcount pg = 0 then hyp_attach_page s pool p else Some s);
           hyp_spin_unlock s pool } }
     | _ \<Rightarrow> None }"

definition hyp_get_page :: "'m hyp \<Rightarrow> u64 \<Rightarrow> 'm hyp option" where
  "hyp_get_page s addr = do {
     let p = hyp_virt_to_page s addr;
     pg \<leftarrow> load (pages s) (Addr p);
     case pg_pool pg of
       Addr pool \<Rightarrow> do {
         s \<leftarrow> hyp_spin_lock s pool;
         pg \<leftarrow> load (pages s) (Addr p);
         s \<leftarrow> set_refcount s p (refcount pg + 1);
         hyp_spin_unlock s pool }
     | _ \<Rightarrow> None }"

partial_function (option) extract_loop :: "'m hyp \<Rightarrow> nat \<Rightarrow> nat \<Rightarrow> u32 \<Rightarrow> 'm hyp option" where
  "extract_loop s pool p ord = do {
     pg \<leftarrow> load (pages s) (Addr p);
     if order pg > ord then do {
       s \<leftarrow> set_order s p (order pg - 1);
       pg \<leftarrow> load (pages s) (Addr p);
       buddy \<leftarrow> find_buddy s pool p (order pg);
       case buddy of
         Addr b \<Rightarrow> do {
           s \<leftarrow> set_order s b (order pg);
           bp \<leftarrow> load (pages s) (Addr b);
           ns \<leftarrow> list_add_tail (nodes s) (Addr (PageNode b)) (Addr (FreeArea pool (unat (order bp))));
           extract_loop (s\<lparr>nodes := ns\<rparr>) pool p ord }
       | _ \<Rightarrow> None }
     else Some s }"

definition hyp_extract_page ::
  "'m hyp \<Rightarrow> nat \<Rightarrow> nat \<Rightarrow> u32 \<Rightarrow> (nat ptr \<times> 'm hyp) option" where
  "hyp_extract_page s pool p ord = do {
     pg \<leftarrow> load (pages s) (Addr p);
     if order pg = HYP_NO_ORDER \<or> order pg < ord then Some (NULL, s)
     else do {
       ns \<leftarrow> list_del_init (nodes s) (Addr (PageNode p));
       s \<leftarrow> extract_loop (s\<lparr>nodes := ns\<rparr>) pool p ord;
       s \<leftarrow> set_refcount s p 1;
       Some (Addr p, s) } }"

definition clear_hyp_page ::
  "(u64 \<Rightarrow> 'm \<Rightarrow> 'm) \<Rightarrow> 'm hyp \<Rightarrow> nat ptr \<Rightarrow> 'm hyp option" where
  "clear_hyp_page clear_page s p = do {
     pg \<leftarrow> load (pages s) p;
     c_assert (unat (order pg) < 31);
     case p of
       Addr q \<Rightarrow>
         c_for [0..<2 ^ unat (order pg)]
           (\<lambda>i s. Some (s\<lparr>mem := clear_page
              (hyp_page_to_virt s q + push_bit PAGE_SHIFT (word_of_nat i)) (mem s)\<rparr>)) s
     | _ \<Rightarrow> None }"

partial_function (option) find_free_order :: "'m hyp \<Rightarrow> nat \<Rightarrow> u32 \<Rightarrow> u32 option" where
  "find_free_order s pool i =
     (if i \<le> HYP_MAX_ORDER then do {
        e \<leftarrow> list_empty (nodes s) (Addr (FreeArea pool (unat i)));
        if e then find_free_order s pool (i + 1) else Some i }
      else Some i)"

text \<open>\<open>list_first_entry\<close>: the page whose node is the first one of the list.\<close>

definition first_page_entry :: "'m hyp \<Rightarrow> node_addr ptr \<Rightarrow> nat option" where
  "first_page_entry s head = do {
     n \<leftarrow> get_next (nodes s) head;
     case n of Addr (PageNode p) \<Rightarrow> Some p | _ \<Rightarrow> None }"

definition raw_hyp_alloc_pages ::
  "(u64 \<Rightarrow> 'm \<Rightarrow> 'm) \<Rightarrow> 'm hyp \<Rightarrow> nat \<Rightarrow> u64 \<Rightarrow> u32 \<Rightarrow> (nat ptr \<times> 'm hyp) option" where
  "raw_hyp_alloc_pages clear_page s pool flags ord = do {
     i \<leftarrow> find_free_order s pool ord;
     if i > HYP_MAX_ORDER then Some (NULL, s)
     else do {
       p \<leftarrow> first_page_entry s (Addr (FreeArea pool (unat i)));
       (p, s) \<leftarrow> hyp_extract_page s pool p ord;
       s \<leftarrow> (if flags AND HYP_GFP_ZERO \<noteq> 0 then clear_hyp_page clear_page s p else Some s);
       Some (p, s) } }"

text \<open>The address that \<open>hyp_alloc_pages\<close> returns, 0 for a null pointer.\<close>

definition hyp_alloc_pages ::
  "(u64 \<Rightarrow> 'm \<Rightarrow> 'm) \<Rightarrow> 'm hyp \<Rightarrow> nat \<Rightarrow> u64 \<Rightarrow> u32 \<Rightarrow> (u64 \<times> 'm hyp) option" where
  "hyp_alloc_pages clear_page s pool flags ord = do {
     s \<leftarrow> hyp_spin_lock s pool;
     (p, s) \<leftarrow> raw_hyp_alloc_pages clear_page s pool flags ord;
     s \<leftarrow> hyp_spin_unlock s pool;
     Some (case p of Addr q \<Rightarrow> hyp_page_to_virt s q | _ \<Rightarrow> 0, s) }"

text \<open>
  \<open>hyp_pool_init\<close>. The shifts \<open>nr_pages << PAGE_SHIFT\<close> and \<open>used_pages << PAGE_SHIFT\<close> are on
  32 bits. \<open>memset\<close> clears the descriptors, the list nodes included. The loop counter is an
  \<open>int\<close>, so more than \<open>INT_MAX\<close> pages overflow it.
\<close>

definition init_page :: "nat \<Rightarrow> nat \<Rightarrow> 'm hyp \<Rightarrow> 'm hyp option" where
  "init_page pool p s = do {
     ps \<leftarrow> modify (pages s) (Addr p) (\<lambda>pg. pg\<lparr>pg_pool := Addr pool\<rparr>);
     ns \<leftarrow> INIT_LIST_HEAD (nodes s) (Addr (PageNode p));
     Some (s\<lparr>pages := ps, nodes := ns\<rparr>) }"

definition memset_page :: "nat \<Rightarrow> 'm hyp \<Rightarrow> 'm hyp option" where
  "memset_page p s = do {
     ps \<leftarrow> modify (pages s) (Addr p) (\<lambda>_. \<lparr>refcount = 0, order = 0, pg_pool = NULL\<rparr>);
     ns \<leftarrow> modify (nodes s) (Addr (PageNode p)) (\<lambda>_. \<lparr>lh_next = NULL, lh_prev = NULL\<rparr>);
     Some (s\<lparr>pages := ps, nodes := ns\<rparr>) }"

definition hyp_pool_init ::
  "'m hyp \<Rightarrow> nat \<Rightarrow> u64 \<Rightarrow> u32 \<Rightarrow> u32 \<Rightarrow> (int \<times> 'm hyp) option" where
  "hyp_pool_init s pool phys nr_pages used_pages =
     (if phys mod word_of_nat PAGE_SIZE \<noteq> 0 then Some (- EINVAL, s)
      else do {
        ps \<leftarrow> modify (pools s) (Addr pool) (\<lambda>pl. pl\<lparr>pl_lock := sl_init (pl_lock pl)\<rparr>);
        let s = s\<lparr>pools := ps\<rparr>;
        s \<leftarrow> c_for [0..<12] (\<lambda>i s. do {
               ns \<leftarrow> INIT_LIST_HEAD (nodes s) (Addr (FreeArea pool i));
               Some (s\<lparr>nodes := ns\<rparr>) }) s;
        ps \<leftarrow> modify (pools s) (Addr pool) (\<lambda>pl. pl\<lparr>range_start := phys,
               range_end := phys + ucast (push_bit PAGE_SHIFT nr_pages)\<rparr>);
        let s = s\<lparr>pools := ps\<rparr>;
        let p = hyp_phys_to_page phys;
        s \<leftarrow> c_for [p..<p + unat nr_pages] memset_page s;
        c_assert (unat nr_pages < 2 ^ 31);
        s \<leftarrow> c_for [p..<p + unat nr_pages] (init_page pool) s;
        let q = hyp_phys_to_page (phys + ucast (push_bit PAGE_SHIFT used_pages));
        s \<leftarrow> c_for [q..<q + (unat nr_pages - unat used_pages)] (\<lambda>p s. hyp_attach_page s pool p) s;
        Some (0, s) })"

section \<open>Addresses and buddies\<close>

text \<open>The page frame numbers that a 64-bit physical address can have.\<close>

definition pfn_limit :: nat where "pfn_limit = 2 ^ 52"

lemma unat_page_to_phys: "n < pfn_limit \<Longrightarrow> unat (hyp_page_to_phys n) = n * 4096"
  by (simp add: hyp_page_to_phys_def pfn_limit_def PAGE_SHIFT_def push_bit_eq_mult unat_mult_lem
      unat_of_nat take_bit_nat_eq_self unat_word_ariths)

lemma phys_to_page_to_phys: "n < pfn_limit \<Longrightarrow> hyp_phys_to_page (hyp_page_to_phys n) = n"
  unfolding hyp_phys_to_page_def unat_drop_bit_eq PAGE_SHIFT_def
  by (simp add: unat_page_to_phys drop_bit_eq_div)

lemma buddy_of_limit: "n < pfn_limit \<Longrightarrow> i < 52 \<Longrightarrow> buddy_of n i < pfn_limit"
proof -
  assume "n < pfn_limit" "i < 52"
  then have "take_bit 52 n = n" "take_bit 52 ((2::nat) ^ i) = 2 ^ i"
    by (auto simp: pfn_limit_def take_bit_nat_eq_self_iff)
  then have "take_bit 52 (buddy_of n i) = buddy_of n i"
    by (simp add: buddy_of_def take_bit_xor)
  then show ?thesis by (simp add: pfn_limit_def take_bit_nat_eq_self_iff)
qed

lemma page_to_phys_xor:
  "hyp_page_to_phys n XOR push_bit i (word_of_nat PAGE_SIZE) = hyp_page_to_phys (buddy_of n i)"
proof -
  have "push_bit i (word_of_nat PAGE_SIZE) = push_bit PAGE_SHIFT (push_bit i (1::u64))"
    by (simp add: PAGE_SIZE_def PAGE_SHIFT_def push_bit_eq_mult)
  moreover have "(word_of_nat (buddy_of n i) :: u64) = word_of_nat n XOR push_bit i 1"
    by (simp add: buddy_of_def of_nat_xor_eq push_bit_eq_mult)
  ultimately show ?thesis by (simp add: hyp_page_to_phys_def push_bit_xor)
qed

lemma page_to_phys_less:
  "m < pfn_limit \<Longrightarrow> n < pfn_limit \<Longrightarrow> hyp_page_to_phys m < hyp_page_to_phys n \<longleftrightarrow> m < n"
  by (simp add: word_less_nat_alt unat_page_to_phys)

lemma find_buddy_eq:
  assumes "pools s P = Some pl" "range_start pl = hyp_page_to_phys a" "range_end pl = hyp_page_to_phys b"
    and "a < pfn_limit" "b < pfn_limit" "n < pfn_limit" "unat ord < 19"
  shows "find_buddy s P n ord =
     Some (if a \<le> buddy_of n (unat ord) \<and> buddy_of n (unat ord) < b
           then Addr (buddy_of n (unat ord)) else NULL)"
  using assms buddy_of_limit [of n "unat ord"]
  by (auto simp: find_buddy_def load_def page_to_phys_xor page_to_phys_less phys_to_page_to_phys
      simp flip: not_less)

end
