(* ===== verification/Buddy_Correct.thy ===== *)
theory Buddy_Correct
  imports Buddy
begin

text \<open>
  Correctness of the buddy allocator of \<open>Buddy\<close> against the blocks of \<open>Buddy_Blocks\<close>: the
  invariant of a pool, what attaching and extracting a page do to its free blocks, and the
  contracts of the allocator's interface.
\<close>

section \<open>The invariant of a pool\<close>

text \<open>\<open>L i\<close> is the list of the free blocks of order \<open>i\<close>, by first page.\<close>

definition free_blocks :: "(nat \<Rightarrow> nat list) \<Rightarrow> block set" where
  "free_blocks L = {(q, i). i \<le> max_order \<and> q \<in> set (L i)}"

text \<open>The list headers of a pool: its free areas, and the nodes of pages in no free list.\<close>

definition heads :: "nat \<Rightarrow> nat \<Rightarrow> nat \<Rightarrow> block set \<Rightarrow> node_addr ptr set" where
  "heads P a b F =
     (\<lambda>i. Addr (FreeArea P i)) ` {..max_order} \<union>
     (\<lambda>q. Addr (PageNode q)) ` ({a..<b} - fst ` F)"

definition page_nodes :: "nat list \<Rightarrow> node_addr ptr list" where
  "page_nodes qs = map (\<lambda>q. Addr (PageNode q)) qs"

fun lists :: "nat \<Rightarrow> (nat \<Rightarrow> nat list) \<Rightarrow> node_addr ptr \<Rightarrow> node_addr ptr list" where
  "lists P L (Addr (FreeArea r i)) = (if r = P \<and> i \<le> max_order then page_nodes (L i) else [])"
| "lists P L _ = []"

definition pool_static :: "'m hyp \<Rightarrow> nat \<Rightarrow> nat \<Rightarrow> nat \<Rightarrow> bool" where
  "pool_static s P a b \<longleftrightarrow>
     (\<exists>pl. pools s P = Some pl \<and> range_start pl = hyp_page_to_phys a \<and>
           range_end pl = hyp_page_to_phys b) \<and>
     a \<le> b \<and> b < pfn_limit \<and>
     (\<forall>q\<in>{a..<b}. \<exists>pg. pages s q = Some pg \<and> pg_pool pg = Addr P)"

text \<open>
  \<open>pool_ok s P a b L B\<close>: the pool \<open>P\<close> manages the pages from \<open>a\<close> to \<open>b\<close>, its free lists
  are \<open>L\<close>, and the blocks \<open>B\<close> are in use, disjoint from each other and from the free ones.
\<close>

definition pool_ok ::
  "'m hyp \<Rightarrow> nat \<Rightarrow> nat \<Rightarrow> nat \<Rightarrow> (nat \<Rightarrow> nat list) \<Rightarrow> block set \<Rightarrow> bool" where
  "pool_ok s P a b L B \<longleftrightarrow>
     pool_static s P a b \<and>
     family is_list (nodes s) (heads P a b (free_blocks L)) (lists P L) \<and>
     (\<forall>(q, i)\<in>free_blocks L. order (node (pages s) (Addr q)) = word_of_nat i) \<and>
     wf_blocks a b (free_blocks L \<union> B) \<and> free_blocks L \<inter> B = {} \<and>
     coalesced (free_blocks L)"

text \<open>\<open>A\<close> are the allocated blocks: the pages with references, at the order they were given.\<close>

definition alloc_ok :: "'m hyp \<Rightarrow> nat \<Rightarrow> nat \<Rightarrow> block set \<Rightarrow> bool" where
  "alloc_ok s a b A \<longleftrightarrow>
     (\<forall>q\<in>{a..<b}. refcount (node (pages s) (Addr q)) \<noteq> 0 \<longleftrightarrow> q \<in> fst ` A) \<and>
     (\<forall>(q, i)\<in>A. order (node (pages s) (Addr q)) = word_of_nat i)"

lemma free_blocks_iff [simp]: "(q, i) \<in> free_blocks L \<longleftrightarrow> i \<le> max_order \<and> q \<in> set (L i)"
  by (simp add: free_blocks_def)

lemma pool_okD:
  assumes "pool_ok s P a b L B"
  shows "pool_static s P a b"
    "family is_list (nodes s) (heads P a b (free_blocks L)) (lists P L)"
    "\<And>q i. i \<le> max_order \<Longrightarrow> q \<in> set (L i) \<Longrightarrow> order (node (pages s) (Addr q)) = word_of_nat i"
    "wf_blocks a b (free_blocks L \<union> B)" "free_blocks L \<inter> B = {}" "coalesced (free_blocks L)"
  using assms by (auto simp: pool_ok_def)

lemma heads_FreeArea [simp]: "Addr (FreeArea P i) \<in> heads P a b F \<longleftrightarrow> i \<le> max_order"
  by (auto simp: heads_def)

lemma heads_PageNode [simp]: "Addr (PageNode q) \<in> heads P a b F \<longleftrightarrow> q \<in> {a..<b} \<and> q \<notin> fst ` F"
  by (auto simp: heads_def)

lemma set_page_nodes [simp]: "Addr (PageNode q) \<in> set (page_nodes qs) \<longleftrightarrow> q \<in> set qs"
  by (auto simp: page_nodes_def)

lemma page_nodes_simps [simp]:
  "page_nodes [] = []" "page_nodes (q # qs) = Addr (PageNode q) # page_nodes qs"
  "page_nodes (qs @ rs) = page_nodes qs @ page_nodes rs" "page_nodes qs = [] \<longleftrightarrow> qs = []"
  by (auto simp: page_nodes_def)

lemma lists_upd:
  "i \<le> max_order \<Longrightarrow> lists P (L(i := qs)) = (lists P L)(Addr (FreeArea P i) := page_nodes qs)"
proof (rule ext)
  fix k assume "i \<le> max_order"
  then show "lists P (L(i := qs)) k = ((lists P L)(Addr (FreeArea P i) := page_nodes qs)) k"
    by (cases "(P, L, k)" rule: lists.cases) auto
qed

lemma pool_distinct:
  assumes "pool_ok s P a b L B" "i \<le> max_order"
  shows "distinct (L i)"
proof -
  have "is_list (nodes s) (Addr (FreeArea P i)) (page_nodes (L i))"
    using family_rep [OF pool_okD(2) [OF assms(1)], of "Addr (FreeArea P i)"] assms(2) by simp
  then have "distinct (page_nodes (L i))" using ll.rep_distinct by force
  then show ?thesis by (simp add: page_nodes_def distinct_map)
qed

lemma free_blocks_remove:
  "i \<le> max_order \<Longrightarrow> L i = as @ q # bs \<Longrightarrow> distinct (L i) \<Longrightarrow>
     free_blocks (L(i := as @ bs)) = free_blocks L - {(q, i)}"
  by (auto simp: free_blocks_def split: if_splits)

lemma free_blocks_add:
  "i \<le> max_order \<Longrightarrow> set qs = insert q (set (L i)) \<Longrightarrow>
     free_blocks (L(i := qs)) = insert (q, i) (free_blocks L)"
  by (auto simp: free_blocks_def split: if_splits)

lemma fst_remove:
  "wf_blocks a b B \<Longrightarrow> F \<subseteq> B \<Longrightarrow> (q, i) \<in> F \<Longrightarrow> fst ` (F - {(q, i)}) = fst ` F - {q}"
  by (force dest: wf_fst_unique)

lemma heads_remove:
  assumes "wf_blocks a b B" "F \<subseteq> B" "(q, i) \<in> F"
  shows "heads P a b (F - {(q, i)}) = insert (Addr (PageNode q)) (heads P a b F)"
  using fst_remove [OF assms] wf_in_range [OF assms(1), of q i] assms(2,3)
  by (auto simp: heads_def)

lemma heads_add: "heads P a b (insert (q, i) F) = heads P a b F - {Addr (PageNode q)}"
  by (auto simp: heads_def)

lemma coalesced_subset: "coalesced B \<Longrightarrow> C \<subseteq> B \<Longrightarrow> coalesced C"
  by (auto simp: coalesced_def)

section \<open>Linking and unlinking a free block\<close>

text \<open>\<open>list_del_init\<close> on the node of a free block takes it out of the free lists.\<close>

lemma pool_unlink:
  assumes ok: "pool_ok s P a b L B" and i: "i \<le> max_order" "L i = as @ q # bs"
  shows "\<exists>ns. list_del_init (nodes s) (Addr (PageNode q)) = Some ns \<and>
    pool_ok (s\<lparr>nodes := ns\<rparr>) P a b (L(i := as @ bs)) (insert (q, i) B) \<and> (q, i) \<notin> B"
proof -
  note D = pool_okD [OF ok]
  have F: "(q, i) \<in> free_blocks L" using i by simp
  note rem = free_blocks_remove [of i L as q bs, OF i pool_distinct [OF ok i(1)]]
  obtain ns where ns: "list_del_init (nodes s) (Addr (PageNode q)) = Some ns"
    "family is_list ns (insert (Addr (PageNode q)) (heads P a b (free_blocks L)))
      ((lists P L)(Addr (FreeArea P i) := page_nodes (as @ bs), Addr (PageNode q) := []))"
    using ll.family_del_init [OF D(2), of "Addr (FreeArea P i)" "page_nodes as" "Addr (PageNode q)"
      "page_nodes bs"] i by auto
  have "(lists P L)(Addr (FreeArea P i) := page_nodes (as @ bs), Addr (PageNode q) := []) =
      lists P (L(i := as @ bs))"
    using i(1) by (simp add: lists_upd fun_eq_iff)
  with ns(2) have fam: "family is_list ns (heads P a b (free_blocks (L(i := as @ bs)))) (lists P (L(i := as @ bs)))"
    by (simp add: rem heads_remove [OF D(4) _ F])
  have u: "free_blocks L - {(q, i)} \<union> insert (q, i) B = free_blocks L \<union> B" using F by blast
  have "pool_ok (s\<lparr>nodes := ns\<rparr>) P a b (L(i := as @ bs)) (insert (q, i) B)"
    using D fam F coalesced_subset [OF D(6), of "free_blocks L - {(q, i)}"]
    unfolding pool_ok_def rem u by (auto simp: pool_static_def)
  with ns(1) D(5) F show ?thesis by blast
qed

text \<open>
  Linking a block in use into the free list of its order, whatever end of the list the
  operation puts it at, frees it.
\<close>

lemma pool_link:
  assumes ok: "pool_ok s P a b L (insert (q, i) B)" "(q, i) \<notin> B"
    and ord: "order (node (pages s) (Addr q)) = word_of_nat i"
    and bud: "i < max_order \<Longrightarrow> (buddy_of q i, i) \<notin> free_blocks L"
    and op: "\<exists>ns. f = Some ns \<and> family is_list ns
        (heads P a b (free_blocks L) - {Addr (PageNode q)})
        ((lists P L)(Addr (FreeArea P i) := page_nodes qs))"
    and qs: "set qs = insert q (set (L i))"
  shows "\<exists>ns. f = Some ns \<and> pool_ok (s\<lparr>nodes := ns\<rparr>) P a b (L(i := qs)) B"
proof -
  note D = pool_okD [OF ok(1)]
  have i: "i \<le> max_order" using wf_block [OF D(4)] by blast
  note add = free_blocks_add [of i qs q L, OF i qs]
  obtain ns where ns: "f = Some ns"
    "family is_list ns (heads P a b (insert (q, i) (free_blocks L))) (lists P (L(i := qs)))"
    using op i by (auto simp: heads_add lists_upd)
  have u: "insert (q, i) (free_blocks L) \<union> B = free_blocks L \<union> insert (q, i) B" by blast
  have c: "coalesced (insert (q, i) (free_blocks L))"
  proof -
    have "(buddy_of r i, i) \<noteq> (q, i)" if "(r, i) \<in> free_blocks L" "i < max_order" for r
      using bud that by fastforce
    with D(6) bud show ?thesis unfolding coalesced_def by auto
  qed
  have "pool_ok (s\<lparr>nodes := ns\<rparr>) P a b (L(i := qs)) B"
    using D ns(2) c ord ok(2) unfolding pool_ok_def add u by (auto simp: pool_static_def)
  with ns(1) show ?thesis by blast
qed

lemma pool_node_head:
  assumes "pool_ok s P a b L (insert (q, i) B)"
  shows "Addr (PageNode q) \<in> heads P a b (free_blocks L)"
proof -
  note D = pool_okD [OF assms]
  have "q \<in> {a..<b}" using wf_in_range [OF D(4)] by blast
  moreover have "q \<notin> fst ` free_blocks L"
  proof
    assume "q \<in> fst ` free_blocks L"
    then obtain j where j: "(q, j) \<in> free_blocks L" by auto
    then have "i = j" using wf_fst_unique [OF D(4), of q i j] by blast
    with j D(5) show False by blast
  qed
  ultimately show ?thesis by simp
qed

lemma pool_list_add:
  assumes "pool_ok s P a b L (insert (q, i) B)" "(q, i) \<notin> B"
    and "order (node (pages s) (Addr q)) = word_of_nat i"
    and "i < max_order \<Longrightarrow> (buddy_of q i, i) \<notin> free_blocks L"
  shows "\<exists>ns. list_add (nodes s) (Addr (PageNode q)) (Addr (FreeArea P i)) = Some ns \<and>
    pool_ok (s\<lparr>nodes := ns\<rparr>) P a b (L(i := q # L i)) B"
proof (rule pool_link [OF assms])
  have "i \<le> max_order" using wf_block [OF pool_okD(4) [OF assms(1)]] by blast
  then show "\<exists>ns. list_add (nodes s) (Addr (PageNode q)) (Addr (FreeArea P i)) = Some ns \<and>
    family is_list ns (heads P a b (free_blocks L) - {Addr (PageNode q)})
      ((lists P L)(Addr (FreeArea P i) := page_nodes (q # L i)))"
    using ll.family_add [OF pool_okD(2) [OF assms(1)] _ pool_node_head [OF assms(1)],
      of "Addr (FreeArea P i)"] by simp
qed simp_all

lemma pool_list_add_tail:
  assumes "pool_ok s P a b L (insert (q, i) B)" "(q, i) \<notin> B"
    and "order (node (pages s) (Addr q)) = word_of_nat i"
    and "i < max_order \<Longrightarrow> (buddy_of q i, i) \<notin> free_blocks L"
  shows "\<exists>ns. list_add_tail (nodes s) (Addr (PageNode q)) (Addr (FreeArea P i)) = Some ns \<and>
    pool_ok (s\<lparr>nodes := ns\<rparr>) P a b (L(i := L i @ [q])) B"
proof (rule pool_link [OF assms])
  have "i \<le> max_order" using wf_block [OF pool_okD(4) [OF assms(1)]] by blast
  then show "\<exists>ns. list_add_tail (nodes s) (Addr (PageNode q)) (Addr (FreeArea P i)) = Some ns \<and>
    family is_list ns (heads P a b (free_blocks L) - {Addr (PageNode q)})
      ((lists P L)(Addr (FreeArea P i) := page_nodes (L i @ [q])))"
    using ll.family_add_tail [OF pool_okD(2) [OF assms(1)] _ pool_node_head [OF assms(1)],
      of "Addr (FreeArea P i)"] by simp
qed simp_all

section \<open>Descriptors\<close>

definition put_order :: "'m hyp \<Rightarrow> nat \<Rightarrow> u32 \<Rightarrow> 'm hyp" where
  "put_order s q v = s\<lparr>pages := upd (pages s) (Addr q) (\<lambda>pg. pg\<lparr>order := v\<rparr>)\<rparr>"

definition put_refcount :: "'m hyp \<Rightarrow> nat \<Rightarrow> u32 \<Rightarrow> 'm hyp" where
  "put_refcount s q v = s\<lparr>pages := upd (pages s) (Addr q) (\<lambda>pg. pg\<lparr>refcount := v\<rparr>)\<rparr>"

lemma set_order_eq: "q \<in> dom (pages s) \<Longrightarrow> set_order s q v = Some (put_order s q v)"
  by (simp add: set_order_def put_order_def heap_simps)

lemma set_refcount_eq: "q \<in> dom (pages s) \<Longrightarrow> set_refcount s q v = Some (put_refcount s q v)"
  by (simp add: set_refcount_def put_refcount_def heap_simps)

lemma put_sel [simp]:
  "pools (put_order s q v) = pools s" "nodes (put_order s q v) = nodes s"
  "mem (put_order s q v) = mem s" "hyp_physvirt_offset (put_order s q v) = hyp_physvirt_offset s"
  "pools (put_refcount s q v) = pools s" "nodes (put_refcount s q v) = nodes s"
  "mem (put_refcount s q v) = mem s" "hyp_physvirt_offset (put_refcount s q v) = hyp_physvirt_offset s"
  by (simp_all add: put_order_def put_refcount_def)

lemma dom_put [simp]:
  "q \<in> dom (pages s) \<Longrightarrow> dom (pages (put_order s q v)) = dom (pages s)"
  "q \<in> dom (pages s) \<Longrightarrow> dom (pages (put_refcount s q v)) = dom (pages s)"
  by (auto simp: put_order_def put_refcount_def upd_def)

lemma pages_put:
  "pages (put_order s q v) r =
     (if r = q then Some ((node (pages s) (Addr q))\<lparr>order := v\<rparr>) else pages s r)"
  "pages (put_refcount s q v) r =
     (if r = q then Some ((node (pages s) (Addr q))\<lparr>refcount := v\<rparr>) else pages s r)"
  by (simp_all add: put_order_def put_refcount_def upd_def)

lemma in_dom_Some: "q \<in> dom m \<Longrightarrow> m q = Some (the (m q))"
  by auto

lemma pool_static_put:
  assumes "pool_static s P a b"
  shows "pool_static (put_order s q v) P a b" "pool_static (put_refcount s q v) P a b"
  using assms unfolding pool_static_def by (fastforce simp: pages_put)+

lemma pool_ok_put:
  assumes "pool_ok s P a b L B" "q \<notin> fst ` free_blocks L"
  shows "pool_ok (put_order s q v) P a b L B"
proof -
  note D = pool_okD [OF assms(1)]
  have "order (node (pages (put_order s q v)) (Addr r)) = word_of_nat i"
    if "(r, i) \<in> free_blocks L" for r i
  proof -
    have "r \<noteq> q" using assms(2) imageI [OF that, of fst] by auto
    with D(3) [of i r] that show ?thesis by (simp add: pages_put)
  qed
  with D pool_static_put show ?thesis unfolding pool_ok_def put_sel by blast
qed

lemma pool_ok_put_refcount:
  assumes "pool_ok s P a b L B"
  shows "pool_ok (put_refcount s q v) P a b L B"
proof -
  note D = pool_okD [OF assms(1)]
  have "order (node (pages (put_refcount s q v)) (Addr r)) = word_of_nat i"
    if "(r, i) \<in> free_blocks L" for r i
    using D(3) [of i r] that by (auto simp: pages_put)
  with D pool_static_put show ?thesis unfolding pool_ok_def put_sel by blast
qed

lemma pool_dom: "pool_ok s P a b L B \<Longrightarrow> q \<in> {a..<b} \<Longrightarrow> q \<in> dom (pages s)"
  by (auto simp: pool_ok_def pool_static_def)

text \<open>
  What no operation on the free lists changes: the pools, the memory, the references of the
  pages, and every descriptor outside of \<open>Q\<close>.
\<close>

definition page_frame :: "nat set \<Rightarrow> 'm hyp \<Rightarrow> 'm hyp \<Rightarrow> bool" where
  "page_frame Q s s' \<longleftrightarrow>
     pools s' = pools s \<and> hyp_physvirt_offset s' = hyp_physvirt_offset s \<and> mem s' = mem s \<and>
     (\<forall>r. refcount (node (pages s') (Addr r)) = refcount (node (pages s) (Addr r))) \<and>
     (\<forall>r. r \<notin> Q \<longrightarrow> pages s' r = pages s r)"

lemma page_frame_refl [simp]: "page_frame Q s s"
  by (simp add: page_frame_def)

lemma page_frame_nodes [simp]: "page_frame Q s (s\<lparr>nodes := ns\<rparr>)"
  by (simp add: page_frame_def)

lemma page_frame_put_order: "q \<in> Q \<Longrightarrow> page_frame Q s (put_order s q v)"
  by (auto simp: page_frame_def pages_put)

lemma page_frame_trans: "page_frame Q s s' \<Longrightarrow> page_frame R s' s'' \<Longrightarrow> Q \<union> R \<subseteq> S \<Longrightarrow> page_frame S s s''"
  unfolding page_frame_def by (metis Un_iff subsetD)

lemma page_frame_mono: "page_frame Q s s' \<Longrightarrow> Q \<subseteq> S \<Longrightarrow> page_frame S s s'"
  by (auto simp: page_frame_def)

section \<open>Attaching a page\<close>

lemma unat_order: "i \<le> max_order \<Longrightarrow> unat (word_of_nat i :: u32) = i"
  by (simp add: max_order_def unat_of_nat take_bit_nat_eq_self)

lemma order_inject:
  "i \<le> max_order \<Longrightarrow> j \<le> max_order \<Longrightarrow> (word_of_nat i :: u32) = word_of_nat j \<longleftrightarrow> i = j"
  using unat_order by metis

lemma order_less_max: "i \<le> max_order \<Longrightarrow> (word_of_nat i :: u32) < HYP_MAX_ORDER \<longleftrightarrow> i < max_order"
  by (simp add: word_less_nat_alt unat_order HYP_MAX_ORDER_def max_order_def)

lemma pool_find_buddy:
  assumes ok: "pool_static s P a b" and i: "i \<le> max_order" and n: "n < b"
  shows "find_buddy s P n (word_of_nat i) =
     Some (if buddy_of n i \<in> {a..<b} then Addr (buddy_of n i) else NULL)"
  using find_buddy_eq [of s P _ a b n "word_of_nat i"] ok i n
  by (auto simp: pool_static_def unat_order max_order_def)

lemma pool_merge:
  assumes ok: "pool_ok s P a b L (insert (buddy_of p i, i) (insert (p, i) B))" and i: "i < max_order"
    and n: "(p, i) \<notin> B" "(buddy_of p i, i) \<notin> B"
  defines "r \<equiv> if p < buddy_of p i then p else buddy_of p i"
  shows "pool_ok s P a b L (insert (r, Suc i) B)" "(r, Suc i) \<notin> B"
    "blk (r, Suc i) = blk (p, i) \<union> blk (buddy_of p i, i)"
proof -
  note D = pool_okD [OF ok]
  have al: "2 ^ i dvd p" using wf_block [OF D(4)] by blast
  let ?X = "free_blocks L \<union> B"
  have X: "(p, i) \<notin> ?X" "(buddy_of p i, i) \<notin> ?X" using D(5) n by auto
  have w: "wf_blocks a b (insert (p, i) (insert (buddy_of p i, i) ?X))"
    using D(4) by (simp add: insert_commute)
  have r: "2 ^ Suc i dvd r \<and> {p, buddy_of p i} = {r, r + 2 ^ i}"
    using al by (cases rule: buddy_cases) (auto simp: r_def)
  then have w': "wf_blocks a b (insert (r, i) (insert (r + 2 ^ i, i) ?X))"
      "(r, i) \<notin> ?X" "(r + 2 ^ i, i) \<notin> ?X"
    using w X by (auto simp: doubleton_eq_iff insert_commute)
  note m = wf_merge [OF w'(1) i conjunct1 [OF r] w'(2,3)]
  show "(r, Suc i) \<notin> B" using m(2) by simp
  show "pool_ok s P a b L (insert (r, Suc i) B)"
    using D m unfolding pool_ok_def by auto
  show "blk (r, Suc i) = blk (p, i) \<union> blk (buddy_of p i, i)"
    using r unfolding blk_Suc by (auto simp: doubleton_eq_iff simp del: blk.simps)
qed


text \<open>What \<open>list_empty\<close> and the order field say of a page of the pool.\<close>

lemma pool_list_empty:
  assumes ok: "pool_ok s P a b L B" and q: "q \<in> {a..<b}"
  shows "list_empty (nodes s) (Addr (PageNode q)) = Some (q \<notin> fst ` free_blocks L)"
proof (cases "q \<in> fst ` free_blocks L")
  case True
  then obtain i where "(q, i) \<in> free_blocks L" by auto
  then have "list_empty (nodes s) (Addr (PageNode q)) = Some False"
    by (intro ll.family_member_not_empty [OF pool_okD(2) [OF ok], of "Addr (FreeArea P i)"]) auto
  with True show ?thesis by simp
next
  case False
  then have "Addr (PageNode q) \<in> heads P a b (free_blocks L)" using q by simp
  with False show ?thesis using ll.family_is_empty [OF pool_okD(2) [OF ok]] by fastforce
qed

text \<open>
  The buddy test of the loop holds exactly when the buddy is a free block of the same order.
\<close>

lemma attach_test:
  assumes ok: "pool_ok s P a b L B" and i: "i \<le> max_order" and q: "q \<in> {a..<b}"
  shows "q \<notin> fst ` free_blocks L \<or> order (node (pages s) (Addr q)) \<noteq> word_of_nat i \<longleftrightarrow>
    (q, i) \<notin> free_blocks L"
proof
  assume l: "q \<notin> fst ` free_blocks L \<or> order (node (pages s) (Addr q)) \<noteq> word_of_nat i"
  show "(q, i) \<notin> free_blocks L"
  proof
    assume f: "(q, i) \<in> free_blocks L"
    then have "q \<in> fst ` free_blocks L" by (metis fst_conv imageI)
    with l f pool_okD(3) [OF ok, of i q] show False by simp
  qed
next
  assume n: "(q, i) \<notin> free_blocks L"
  show "q \<notin> fst ` free_blocks L \<or> order (node (pages s) (Addr q)) \<noteq> word_of_nat i"
  proof (cases "q \<in> fst ` free_blocks L")
    case True
    then obtain j where j: "(q, j) \<in> free_blocks L" by auto
    with pool_okD(3) [OF ok, of j q] n i show ?thesis using order_inject [of j i] by auto
  qed simp
qed

lemma attach_step:
  assumes ok: "pool_ok s P a b L (insert (p, i) B)" and i: "i < max_order"
  shows "attach_loop s P p (word_of_nat i) =
    (if (buddy_of p i, i) \<in> free_blocks L
     then do {
       ns \<leftarrow> list_del_init (nodes s) (Addr (PageNode (buddy_of p i)));
       attach_loop (put_order (s\<lparr>nodes := ns\<rparr>) (buddy_of p i) HYP_NO_ORDER) P
         (if p < buddy_of p i then p else buddy_of p i) (word_of_nat (Suc i)) }
     else Some (s, p, word_of_nat i))"
proof (cases "buddy_of p i \<in> {a..<b}")
  case True
  note D = pool_okD [OF ok]
  have p: "p < b" using wf_in_range [OF D(4), of p i] by simp
  have dom: "buddy_of p i \<in> dom (pages s)" using pool_dom [OF ok True] .
  have set_ord: "set_order (s\<lparr>nodes := ns\<rparr>) (buddy_of p i) HYP_NO_ORDER =
      Some (put_order (s\<lparr>nodes := ns\<rparr>) (buddy_of p i) HYP_NO_ORDER)" for ns
    using set_order_eq [of "buddy_of p i" "s\<lparr>nodes := ns\<rparr>"] dom by simp
  show ?thesis
    using i dom True attach_test [OF ok _ True, of i]
    by (subst attach_loop.simps)
      (auto simp: order_less_max pool_find_buddy [OF D(1) _ p] pool_list_empty [OF ok True] set_ord
        load_def add.commute)
next
  case False
  note D = pool_okD [OF ok]
  have p: "p < b" using wf_in_range [OF D(4), of p i] by simp
  have "(buddy_of p i, i) \<notin> free_blocks L"
    using wf_in_range [OF D(4), of "buddy_of p i" i] False by auto
  then show ?thesis using i False
    by (subst attach_loop.simps) (auto simp: order_less_max pool_find_buddy [OF D(1) _ p])
qed

lemma attach_loop_ok:
  assumes "pool_ok s P a b L (insert (p, i) B)" "(p, i) \<notin> B"
  shows "\<exists>s' q j L'. attach_loop s P p (word_of_nat i) = Some (s', q, word_of_nat j) \<and>
    pool_ok s' P a b L' (insert (q, j) B) \<and> (q, j) \<notin> B \<and>
    (j < max_order \<longrightarrow> (buddy_of q j, j) \<notin> free_blocks L') \<and>
    area (insert (q, j) (free_blocks L')) = area (insert (p, i) (free_blocks L)) \<and>
    (q = p \<or> q \<in> fst ` free_blocks L) \<and> fst ` free_blocks L' \<subseteq> fst ` free_blocks L \<and>
    page_frame (fst ` free_blocks L) s s'"
  using assms
proof (induction "max_order - i" arbitrary: s p i L)
  case 0
  then have i: "i = max_order" using wf_block [OF pool_okD(4) [OF 0(2)], of p i] by simp
  then have "attach_loop s P p (word_of_nat i) = Some (s, p, word_of_nat i)"
    by (subst attach_loop.simps) (simp add: order_less_max)
  with 0 i show ?case by (intro exI [of _ s] exI [of _ p] exI [of _ i] exI [of _ L]) auto
next
  case (Suc n)
  then have i: "i < max_order" by simp
  let ?b = "buddy_of p i"
  show ?case
  proof (cases "(?b, i) \<in> free_blocks L")
    case False
    with Suc.prems show ?thesis unfolding attach_step [OF Suc.prems(1) i]
      by (intro exI [of _ s] exI [of _ p] exI [of _ i] exI [of _ L]) auto
  next
    case True
    note D = pool_okD [OF Suc.prems(1)]
    obtain as bs where L: "L i = as @ ?b # bs" using True by (auto dest: split_list)
    obtain ns where ns: "list_del_init (nodes s) (Addr (PageNode ?b)) = Some ns"
      "pool_ok (s\<lparr>nodes := ns\<rparr>) P a b (L(i := as @ bs)) (insert (?b, i) (insert (p, i) B))"
      "(?b, i) \<notin> insert (p, i) B"
      using pool_unlink [OF Suc.prems(1) less_imp_le [OF i] L] by blast
    let ?L = "L(i := as @ bs)" and ?s = "put_order (s\<lparr>nodes := ns\<rparr>) ?b HYP_NO_ORDER"
      and ?r = "if p < ?b then p else ?b"
    have fb: "free_blocks ?L = free_blocks L - {(?b, i)}"
      using free_blocks_remove [of i L as ?b bs, OF _ L] pool_distinct [OF Suc.prems(1), of i] i by simp
    then have fst: "fst ` free_blocks ?L = fst ` free_blocks L - {?b}"
      using fst_remove [OF D(4) Un_upper1 True] by simp
    have ok: "pool_ok ?s P a b ?L (insert (?b, i) (insert (p, i) B))"
      using pool_ok_put [OF ns(2)] fst by simp
    note m = pool_merge [OF ok i Suc.prems(2)]
    have nB: "(?b, i) \<notin> B" using ns(3) by simp
    have bf: "?b \<in> fst ` free_blocks L" using True by (metis fst_conv imageI)
    have n: "n = max_order - Suc i" using Suc.hyps(2) by simp
    obtain s' q j L' where IH: "attach_loop ?s P ?r (word_of_nat (Suc i)) = Some (s', q, word_of_nat j)"
      "pool_ok s' P a b L' (insert (q, j) B)" "(q, j) \<notin> B"
      "j < max_order \<longrightarrow> (buddy_of q j, j) \<notin> free_blocks L'"
      "area (insert (q, j) (free_blocks L')) = area (insert (?r, Suc i) (free_blocks ?L))"
      "q = ?r \<or> q \<in> fst ` free_blocks ?L" "fst ` free_blocks L' \<subseteq> fst ` free_blocks ?L"
      "page_frame (fst ` free_blocks ?L) ?s s'"
      using Suc.hyps(1) [OF n m(1,2) [OF nB]] by (elim exE conjE) (rule that)
    have "insert (?b, i) (free_blocks ?L) = free_blocks L" using True fb by blast
    then have "area (free_blocks L) = blk (?b, i) \<union> area (free_blocks ?L)"
      using area_insert [of "(?b, i)" "free_blocks ?L"] by simp
    then have ar: "area (insert (?r, Suc i) (free_blocks ?L)) = area (insert (p, i) (free_blocks L))"
      using m(3) [OF nB] by (simp add: Un_ac del: blk.simps)
    have "page_frame {?b} s ?s"
      using page_frame_trans [OF page_frame_nodes page_frame_put_order, of ?b "{?b}" "{}" "{?b}"] by simp
    then have fr: "page_frame (fst ` free_blocks L) s s'"
      using IH(8) by (rule page_frame_trans) (simp add: bf fst)
    have "attach_loop s P p (word_of_nat i) = Some (s', q, word_of_nat j)"
      using attach_step [OF Suc.prems(1) i] True ns(1) IH(1) by simp
    moreover have "q = p \<or> q \<in> fst ` free_blocks L" using IH(6) fst bf by (auto split: if_splits)
    moreover have "fst ` free_blocks L' \<subseteq> fst ` free_blocks L" using IH(7) fst by blast
    ultimately show ?thesis using IH(2-5) ar fr by blast
  qed
qed

text \<open>A block in use is in no free list.\<close>

lemma pool_not_free: "pool_ok s P a b L (insert (p, i) B) \<Longrightarrow> p \<notin> fst ` free_blocks L"
  by (drule pool_node_head) simp

lemma pool_in_range: "pool_ok s P a b L (insert (p, i) B) \<Longrightarrow> p \<in> {a..<b} \<and> i \<le> max_order"
  using pool_node_head [of s P a b L p i B] wf_block [OF pool_okD(4), of s P a b L "insert (p, i) B" p i]
  by simp

lemma hyp_attach_page_ok:
  assumes ok: "pool_ok s P a b L (insert (p, i) B)" "(p, i) \<notin> B"
    and ord: "order (node (pages s) (Addr p)) = word_of_nat i"
  shows "\<exists>s' L'. hyp_attach_page s P p = Some s' \<and> pool_ok s' P a b L' B \<and>
    area (free_blocks L') = blk (p, i) \<union> area (free_blocks L) \<and>
    page_frame (insert p (fst ` free_blocks L)) s s'"
proof -
  have p: "p \<in> dom (pages s)" using pool_dom [OF ok(1)] pool_in_range [OF ok(1)] by blast
  let ?s = "put_order s p HYP_NO_ORDER"
  note ok1 = pool_ok_put [OF ok(1) pool_not_free [OF ok(1)]]
  obtain s' q j L' where loop: "attach_loop ?s P p (word_of_nat i) = Some (s', q, word_of_nat j)"
    "pool_ok s' P a b L' (insert (q, j) B)" "(q, j) \<notin> B"
    "j < max_order \<longrightarrow> (buddy_of q j, j) \<notin> free_blocks L'"
    "area (insert (q, j) (free_blocks L')) = area (insert (p, i) (free_blocks L))"
    "q = p \<or> q \<in> fst ` free_blocks L" "page_frame (fst ` free_blocks L) ?s s'"
    using attach_loop_ok [OF ok1 ok(2)] by metis
  have j: "q \<in> {a..<b}" "j \<le> max_order" using pool_in_range [OF loop(2)] by auto
  have q: "q \<in> dom (pages s')" using pool_dom [OF loop(2) j(1)] .
  let ?t = "put_order s' q (word_of_nat j)"
  have ok2: "pool_ok ?t P a b L' (insert (q, j) B)"
    using pool_ok_put [OF loop(2) pool_not_free [OF loop(2)]] .
  obtain ns where ns: "list_add (nodes ?t) (Addr (PageNode q)) (Addr (FreeArea P j)) = Some ns"
    "pool_ok (?t\<lparr>nodes := ns\<rparr>) P a b (L'(j := q # L' j)) B"
    using pool_list_add [OF ok2 loop(3)] loop(4) by (auto simp: pages_put)
  obtain pg where pg: "pages s p = Some pg" using p by blast
  have "hyp_attach_page s P p = Some (?t\<lparr>nodes := ns\<rparr>)"
    using loop(1) ns(1) ord j(2) pg
    by (simp add: hyp_attach_page_def load_def set_order_eq [OF p] set_order_eq [OF q] unat_order)
  moreover have "area (free_blocks (L'(j := q # L' j))) = blk (p, i) \<union> area (free_blocks L)"
    using loop(5) free_blocks_add [of j "q # L' j" q L'] j(2) by simp
  moreover have "page_frame (insert p (fst ` free_blocks L)) s (?t\<lparr>nodes := ns\<rparr>)"
  proof -
    let ?Q = "insert p (fst ` free_blocks L)"
    have "page_frame ?Q s ?s" by (simp add: page_frame_put_order)
    moreover have "page_frame ?Q ?s s'" using loop(7) by (rule page_frame_mono) blast
    moreover have "page_frame ?Q s' ?t" using loop(6) by (simp add: page_frame_put_order)
    ultimately show ?thesis using page_frame_trans [of ?Q _ _ ?Q _ ?Q] page_frame_nodes
      by (metis Un_absorb order.refl)
  qed
  ultimately show ?thesis using ns(2) by blast
qed

section \<open>Extracting a page\<close>

lemma pool_split:
  assumes ok: "pool_ok s P a b L (insert (p, Suc k) B)" "(p, Suc k) \<notin> B"
  shows "pool_ok s P a b L (insert (p + 2 ^ k, k) (insert (p, k) B))"
    "(p, k) \<notin> B" "(p + 2 ^ k, k) \<notin> insert (p, k) B" "buddy_of p k = p + 2 ^ k" "k < max_order"
proof -
  note D = pool_okD [OF ok(1)]
  have w: "wf_blocks a b (insert (p, Suc k) (free_blocks L \<union> B))" "(p, Suc k) \<notin> free_blocks L \<union> B"
    using D(4,5) ok(2) by auto
  note sp = wf_split [OF w]
  show "(p, k) \<notin> B" "(p + 2 ^ k, k) \<notin> insert (p, k) B" using sp(2,3) by auto
  show "buddy_of p k = p + 2 ^ k" using buddy_of_low [OF sp(4)] .
  show "k < max_order" by (rule sp(5))
  show "pool_ok s P a b L (insert (p + 2 ^ k, k) (insert (p, k) B))"
    using D sp(1-3) unfolding pool_ok_def by (auto simp: insert_commute)
qed

lemma order_less:
  "i \<le> max_order \<Longrightarrow> j \<le> max_order \<Longrightarrow> (word_of_nat i :: u32) < word_of_nat j \<longleftrightarrow> i < j"
  by (simp add: word_less_nat_alt unat_order)

lemma extract_loop_ok:
  assumes "pool_ok s P a b L (insert (p, j) B)" "(p, j) \<notin> B" "i \<le> j"
    and "order (node (pages s) (Addr p)) = word_of_nat j"
  shows "\<exists>s' L'. extract_loop s P p (word_of_nat i) = Some s' \<and>
    pool_ok s' P a b L' (insert (p, i) B) \<and> (p, i) \<notin> B \<and>
    order (node (pages s') (Addr p)) = word_of_nat i \<and>
    area (insert (p, i) (free_blocks L')) = area (insert (p, j) (free_blocks L)) \<and>
    page_frame (blk (p, j)) s s'"
  using assms
proof (induction "j - i" arbitrary: s j L)
  case 0
  then have j: "j = i" "i \<le> max_order" "p \<in> dom (pages s)"
    using pool_in_range [OF 0(2)] pool_dom [OF 0(2), of p] by auto
  then have "extract_loop s P p (word_of_nat i) = Some s"
    using 0 by (subst extract_loop.simps) (auto simp: load_def)
  with 0 j show ?case by (intro exI [of _ s] exI [of _ L]) auto
next
  case (Suc n)
  then obtain k where k: "j = Suc k" "i \<le> k" by (cases j) auto
  let ?b = "p + 2 ^ k"
  note sp = pool_split [OF Suc.prems(1,2) [unfolded k(1)]]
  have kk: "k < max_order" "i \<le> max_order" using sp(5) k by auto
  let ?s1 = "put_order s p (word_of_nat k)"
  let ?s2 = "put_order ?s1 ?b (word_of_nat k)"
  have pb: "p \<in> {a..<b}" "?b \<in> {a..<b}" using pool_in_range sp(1) insert_commute by metis+
  have dom: "p \<in> dom (pages s)" "?b \<in> dom (pages s)" using pool_dom [OF sp(1)] pb by auto
  have nf: "p \<notin> fst ` free_blocks L" "?b \<notin> fst ` free_blocks L"
    using pool_not_free [OF sp(1)] pool_not_free [OF Suc.prems(1)] by auto
  have ok1: "pool_ok ?s1 P a b L (insert (?b, k) (insert (p, k) B))"
    using pool_ok_put [OF sp(1) nf(1)] .
  have ok2: "pool_ok ?s2 P a b L (insert (?b, k) (insert (p, k) B))"
    using pool_ok_put [OF ok1 nf(2)] .
  have "(buddy_of ?b k, k) \<notin> free_blocks L"
    using nf(1) buddy_of_buddy_of [of p k] sp(4) by (metis fst_conv imageI)
  then obtain ns where ns: "list_add_tail (nodes ?s2) (Addr (PageNode ?b)) (Addr (FreeArea P k)) = Some ns"
    "pool_ok (?s2\<lparr>nodes := ns\<rparr>) P a b (L(k := L k @ [?b])) (insert (p, k) B)"
    using pool_list_add_tail [OF ok2 sp(3)] by (auto simp: pages_put)
  let ?s3 = "?s2\<lparr>nodes := ns\<rparr>" and ?L = "L(k := L k @ [?b])"
  have ord: "order (node (pages ?s3) (Addr p)) = word_of_nat k" by (simp add: pages_put)
  have n: "n = k - i" using Suc.hyps(2) k by simp
  obtain s' L' where IH: "extract_loop ?s3 P p (word_of_nat i) = Some s'"
    "pool_ok s' P a b L' (insert (p, i) B)" "(p, i) \<notin> B"
    "order (node (pages s') (Addr p)) = word_of_nat i"
    "area (insert (p, i) (free_blocks L')) = area (insert (p, k) (free_blocks ?L))"
    "page_frame (blk (p, k)) ?s3 s'"
    using Suc.hyps(1) [OF _ ns(2) sp(2) k(2) ord] n by blast
  have fb: "find_buddy ?s1 P p (word_of_nat k) = Some (Addr ?b)"
    using pool_find_buddy [OF pool_okD(1) [OF ok1], of k p] sp(4) kk pb by simp
  obtain pg where pg: "pages s p = Some pg" using dom(1) by blast
  have step: "extract_loop s P p (word_of_nat i) = extract_loop ?s3 P p (word_of_nat i)"
    using Suc.prems(4) fb ns(1) k kk sp(3) pg
      order_less [of i "Suc k"] unat_order [of k] set_order_eq [of ?b ?s1] dom(2) dom_put(1) [OF dom(1)]
    by (subst extract_loop.simps)
      (simp add: load_def set_order_eq [OF dom(1)] pages_put)
  have "area (insert (p, k) (free_blocks ?L)) = area (insert (p, j) (free_blocks L))"
    using free_blocks_add [of k "L k @ [?b]" ?b L] kk unfolding k(1)
    by (simp add: blk_Suc Un_ac del: blk.simps)
  moreover have "page_frame (blk (p, j)) s s'"
  proof -
    let ?Q = "blk (p, j)"
    have "page_frame ?Q s ?s1" "page_frame ?Q ?s1 ?s2" unfolding k(1)
      by (intro page_frame_put_order; simp)+
    moreover have "page_frame ?Q ?s3 s'"
      using IH(6) by (rule page_frame_mono) (simp add: k(1) blk_Suc del: blk.simps)
    ultimately show ?thesis using page_frame_trans [of ?Q _ _ ?Q _ ?Q] page_frame_nodes
      by (metis Un_absorb order.refl)
  qed
  ultimately show ?case using IH(1-5) step by metis
qed

text \<open>The allocated blocks do not notice what happens to other descriptors.\<close>

lemma alloc_ok_frame:
  "alloc_ok s a b A \<Longrightarrow> page_frame Q s s' \<Longrightarrow> Q \<inter> fst ` A = {} \<Longrightarrow> alloc_ok s' a b A"
  by (force simp: alloc_ok_def page_frame_def)

lemma alloc_ok_insert:
  assumes "alloc_ok s a b A" "p \<notin> fst ` A" "v \<noteq> 0" "order (node (pages s) (Addr p)) = word_of_nat i"
  shows "alloc_ok (put_refcount s p v) a b (insert (p, i) A)"
  using assms by (force simp: alloc_ok_def pages_put)

lemma alloc_ok_remove:
  assumes "alloc_ok s a b A" "wf_blocks a b A" "(p, i) \<in> A"
  shows "alloc_ok (put_refcount s p 0) a b (A - {(p, i)})"
proof -
  have F: "fst ` (A - {(p, i)}) = fst ` A - {p}" using fst_remove [OF assms(2) order.refl assms(3)] .
  have ord: "order (node (pages (put_refcount s p 0)) (Addr q)) = order (node (pages s) (Addr q))" for q
    by (simp add: pages_put)
  have ref: "refcount (node (pages (put_refcount s p 0)) (Addr q)) =
      (if q = p then 0 else refcount (node (pages s) (Addr q)))" for q
    by (simp add: pages_put)
  show ?thesis using assms(1) unfolding alloc_ok_def F ord ref by (simp add: if_distrib)
qed

lemma alloc_okD: "alloc_ok s a b A \<Longrightarrow> q \<in> {a..<b} \<Longrightarrow> refcount (node (pages s) (Addr q)) \<noteq> 0 \<longleftrightarrow> q \<in> fst ` A"
  unfolding alloc_ok_def by blast

lemma alloc_ok_put:
  assumes "alloc_ok s a b A" "p \<in> fst ` A" "v \<noteq> 0"
  shows "alloc_ok (put_refcount s p v) a b A"
proof -
  have ord: "order (node (pages (put_refcount s p v)) (Addr q)) = order (node (pages s) (Addr q))" for q
    by (simp add: pages_put)
  have ref: "refcount (node (pages (put_refcount s p v)) (Addr q)) =
      (if q = p then v else refcount (node (pages s) (Addr q)))" for q
    by (simp add: pages_put)
  show ?thesis using assms unfolding alloc_ok_def ord ref by (simp add: if_distrib)
qed

lemma pool_wf_used: "pool_ok s P a b L A \<Longrightarrow> wf_blocks a b A"
  using pool_okD(4) wf_subset by (metis Un_upper2)

lemma pool_wf_free: "pool_ok s P a b L A \<Longrightarrow> wf_blocks a b (free_blocks L)"
  using pool_okD(4) wf_subset by (metis Un_upper1)

text \<open>The areas of the free blocks and of the blocks in use are disjoint.\<close>

lemma pool_area: "pool_ok s P a b L A \<Longrightarrow> area (free_blocks L) \<inter> area A = {}"
  using wf_area_disjoint pool_okD(4,5) by (metis Un_upper1 Un_upper2)

lemma area_fst_image: "fst ` B \<subseteq> area B"
  using area_fst by fastforce

lemma hyp_extract_page_ok:
  assumes ok: "pool_ok s P a b L A" and al: "alloc_ok s a b A"
    and p: "j \<le> max_order" "p \<in> set (L j)" "i \<le> j"
  shows "\<exists>s' L'. hyp_extract_page s P p (word_of_nat i) = Some (Addr p, s') \<and>
    pool_ok s' P a b L' (insert (p, i) A) \<and> alloc_ok s' a b (insert (p, i) A) \<and> (p, i) \<notin> A \<and>
    area (free_blocks L) = blk (p, i) \<union> area (free_blocks L') \<and>
    pools s' = pools s \<and> hyp_physvirt_offset s' = hyp_physvirt_offset s \<and> mem s' = mem s \<and>
    refcount (node (pages s') (Addr p)) = 1"
proof -
  note D = pool_okD [OF ok]
  obtain as bs where L: "L j = as @ p # bs" using split_list [OF p(2)] by blast
  let ?L = "L(j := as @ bs)"
  obtain ns where ns: "list_del_init (nodes s) (Addr (PageNode p)) = Some ns"
    "pool_ok (s\<lparr>nodes := ns\<rparr>) P a b ?L (insert (p, j) A)" "(p, j) \<notin> A"
    using pool_unlink [OF ok p(1) L] by blast
  have pd: "p \<in> {a..<b}" using pool_in_range [OF ns(2)] by blast
  have ord: "order (node (pages s) (Addr p)) = word_of_nat j" using D(3) p by blast
  obtain s' L' where ex: "extract_loop (s\<lparr>nodes := ns\<rparr>) P p (word_of_nat i) = Some s'"
    "pool_ok s' P a b L' (insert (p, i) A)" "(p, i) \<notin> A"
    "order (node (pages s') (Addr p)) = word_of_nat i"
    "area (insert (p, i) (free_blocks L')) = area (insert (p, j) (free_blocks ?L))"
    "page_frame (blk (p, j)) (s\<lparr>nodes := ns\<rparr>) s'"
    using extract_loop_ok [OF ns(2,3) p(3)] ord by auto
  have fr: "page_frame (blk (p, j)) s s'"
    using page_frame_nodes ex(6) by (rule page_frame_trans [where Q = "{}"]) simp
  have "insert (p, j) (free_blocks ?L) = free_blocks L"
    using free_blocks_remove [of j L as p bs, OF p(1) L pool_distinct [OF ok p(1)]] p
    by (simp add: insert_absorb)
  then have ar: "area (free_blocks L) = blk (p, i) \<union> area (free_blocks L')" using ex(5) by simp
  have "blk (p, j) \<subseteq> area (free_blocks L)" using p by (intro blk_area) simp
  then have dj: "blk (p, j) \<inter> fst ` A = {}" using pool_area [OF ok] area_fst_image [of A] by blast
  moreover have "p \<notin> fst ` A" using dj blk_nonempty [of "(p, j)"] by (metis disjoint_iff fst_conv)
  ultimately have al': "alloc_ok (put_refcount s' p 1) a b (insert (p, i) A)"
    using alloc_ok_insert [OF alloc_ok_frame [OF al fr] _ _ ex(4)] by simp
  obtain pg where pg: "pages s p = Some pg" using pool_dom [OF ok pd] by blast
  have "p \<in> dom (pages s')" using pool_dom [OF ex(2) pd] .
  moreover have "(word_of_nat j :: u32) \<noteq> HYP_NO_ORDER"
    using unat_order [OF p(1)] p(1) by (auto simp: HYP_NO_ORDER_def max_order_def unsigned_minus_1_eq_mask mask_eq_exp_minus_1)
  moreover have "\<not> word_of_nat j < (word_of_nat i :: u32)" using order_less [of j i] p by simp
  ultimately have "hyp_extract_page s P p (word_of_nat i) = Some (Addr p, put_refcount s' p 1)"
    using ns(1) ex(1) ord pg set_refcount_eq [of p s' 1]
    by (simp add: hyp_extract_page_def load_def)
  with pool_ok_put_refcount [OF ex(2)] al' ex(3) ar fr show ?thesis
    by (intro exI [of _ "put_refcount s' p 1"] exI [of _ L']) (simp add: page_frame_def pages_put)
qed

section \<open>The search for a free block\<close>

lemma unat_order_Suc: "i \<le> Suc max_order \<Longrightarrow> unat (word_of_nat i :: u32) = i"
  by (simp add: max_order_def unat_of_nat take_bit_nat_eq_self)

lemma find_free_order_ok:
  assumes "pool_ok s P a b L B" "i \<le> Suc max_order"
  shows "\<exists>j. find_free_order s P (word_of_nat i) = Some (word_of_nat j) \<and> i \<le> j \<and> j \<le> Suc max_order \<and>
    (\<forall>k. i \<le> k \<and> k < j \<longrightarrow> L k = []) \<and> (j \<le> max_order \<longrightarrow> L j \<noteq> [])"
  using assms(2)
proof (induction "Suc max_order - i" arbitrary: i)
  case 0
  then have i: "i = 12" by (simp add: max_order_def)
  show ?case unfolding i
    by (subst find_free_order.simps) (auto simp: HYP_MAX_ORDER_def max_order_def intro!: exI [of _ 12])
next
  case (Suc n)
  then have i: "i \<le> max_order" by simp
  have le: "(word_of_nat i :: u32) \<le> HYP_MAX_ORDER"
    using i by (simp add: word_le_nat_alt unat_order HYP_MAX_ORDER_def max_order_def)
  have em: "list_empty (nodes s) (Addr (FreeArea P i)) = Some (L i = [])"
    using ll.family_is_empty [OF pool_okD(2) [OF assms(1)], of "Addr (FreeArea P i)"] i by simp
  show ?case
  proof (cases "L i = []")
    case True
    have n: "n = Suc max_order - Suc i" using Suc.hyps(2) by simp
    obtain j where j: "find_free_order s P (word_of_nat (Suc i)) = Some (word_of_nat j)"
      "Suc i \<le> j" "j \<le> Suc max_order" "\<forall>k. Suc i \<le> k \<and> k < j \<longrightarrow> L k = []" "j \<le> max_order \<longrightarrow> L j \<noteq> []"
      using Suc.hyps(1) [OF n] i by auto
    have "\<forall>k. i \<le> k \<and> k < j \<longrightarrow> L k = []" using j(4) True by (metis Suc_leI le_neq_implies_less)
    moreover have "find_free_order s P (word_of_nat i) = Some (word_of_nat j)"
      using True le em unat_order [OF i] j(1) by (subst find_free_order.simps) (simp add: add.commute)
    ultimately show ?thesis using j by (intro exI [of _ j]) auto
  next
    case False
    then show ?thesis using le em unat_order [OF i] i
      by (subst find_free_order.simps) (auto intro!: exI [of _ i])
  qed
qed

section \<open>The interface of the allocator\<close>

definition unlocked :: "'m hyp \<Rightarrow> nat \<Rightarrow> bool" where
  "unlocked s P \<longleftrightarrow> (\<exists>pl. pools s P = Some pl \<and> \<not> lock (pl_lock pl))"

definition buddy_inv ::
  "'m hyp \<Rightarrow> nat \<Rightarrow> nat \<Rightarrow> nat \<Rightarrow> (nat \<Rightarrow> nat list) \<Rightarrow> block set \<Rightarrow> bool" where
  "buddy_inv s P a b L A \<longleftrightarrow> pool_ok s P a b L A \<and> alloc_ok s a b A \<and> unlocked s P"

definition locked_state :: "'m hyp \<Rightarrow> nat \<Rightarrow> 'm hyp" where
  "locked_state s P =
     s\<lparr>pools := (pools s)(P \<mapsto> (the (pools s P))\<lparr>pl_lock := \<lparr>lock = True\<rparr>\<rparr>)\<rparr>"

lemma locked_state_sel [simp]:
  "pages (locked_state s P) = pages s" "nodes (locked_state s P) = nodes s"
  "mem (locked_state s P) = mem s" "hyp_physvirt_offset (locked_state s P) = hyp_physvirt_offset s"
  by (simp_all add: locked_state_def)

lemma spinlock_upd: "(l :: spinlock)\<lparr>lock := v\<rparr> = \<lparr>lock = v\<rparr>"
  by (cases l) simp

lemma hyp_spin_lock_eq: "unlocked s P \<Longrightarrow> hyp_spin_lock s P = Some (locked_state s P)"
  by (auto simp: hyp_spin_lock_def unlocked_def locked_state_def load_def modify_def spinlock_upd)

lemma hyp_spin_unlock_eq:
  assumes "unlocked s P" "pools t = pools (locked_state s P)"
  shows "hyp_spin_unlock t P = Some (t\<lparr>pools := pools s\<rparr>)"
proof -
  obtain pl where "pools s P = Some pl" "pl\<lparr>pl_lock := \<lparr>lock = False\<rparr>\<rparr> = pl"
    using assms(1) by (auto simp: unlocked_def)
  then show ?thesis using assms(2)
    by (simp add: hyp_spin_unlock_def locked_state_def modify_def sl_unlock_def fun_upd_idem)
qed

lemma pool_ok_locked: "unlocked s P \<Longrightarrow> pool_ok (locked_state s P) P a b L A = pool_ok s P a b L A"
  by (auto simp: pool_ok_def pool_static_def locked_state_def unlocked_def)

lemma pool_ok_unlocked:
  assumes "unlocked s P" "pools t = pools (locked_state s P)" "pool_ok t P a b L A"
  shows "pool_ok (t\<lparr>pools := pools s\<rparr>) P a b L A"
  using assms by (auto simp: pool_ok_def pool_static_def locked_state_def unlocked_def)

lemma pool_ok_mem [simp]: "pool_ok (s\<lparr>mem := m\<rparr>) P a b L A = pool_ok s P a b L A"
  by (simp add: pool_ok_def pool_static_def)

lemma alloc_ok_cong: "pages s' = pages s \<Longrightarrow> alloc_ok s' a b A = alloc_ok s a b A"
  by (simp add: alloc_ok_def)

lemma virt_to_page_to_virt:
  "n < pfn_limit \<Longrightarrow> hyp_physvirt_offset s' = hyp_physvirt_offset s \<Longrightarrow>
     hyp_virt_to_page s' (hyp_page_to_virt s n) = n"
  by (simp add: hyp_virt_to_page_def hyp_virt_to_phys_def hyp_page_to_virt_def hyp_phys_to_virt_def
      phys_to_page_to_phys)

text \<open>\<open>clear_hyp_page\<close> clears the pages of the block one after the other.\<close>

definition cleared :: "(u64 \<Rightarrow> 'm \<Rightarrow> 'm) \<Rightarrow> u64 \<Rightarrow> nat \<Rightarrow> 'm \<Rightarrow> 'm" where
  "cleared clear_page v n m =
     fold (\<lambda>k. clear_page (v + word_of_nat k * word_of_nat PAGE_SIZE)) [0..<n] m"

lemma c_for_mem:
  "c_for ks (\<lambda>i s. Some (s\<lparr>mem := f (hyp_page_to_virt s q) i (mem s)\<rparr>)) s =
     Some (s\<lparr>mem := fold (f (hyp_page_to_virt s q)) ks (mem s)\<rparr>)"
  by (induction ks arbitrary: s) (simp_all add: hyp_page_to_virt_def hyp_phys_to_virt_def)

lemma clear_hyp_page_ok:
  assumes "pages s q = Some pg" "order pg = word_of_nat i" "i \<le> max_order"
  shows "clear_hyp_page cl s (Addr q) =
    Some (s\<lparr>mem := cleared cl (hyp_page_to_virt s q) (2 ^ i) (mem s)\<rparr>)"
proof -
  have "push_bit PAGE_SHIFT (word_of_nat k :: u64) = word_of_nat (k * PAGE_SIZE)" for k
    by (simp add: PAGE_SHIFT_def PAGE_SIZE_def push_bit_eq_mult)
  then show ?thesis using assms
    by (simp add: clear_hyp_page_def load_def unat_order max_order_def cleared_def
        c_for_mem [where f = "\<lambda>v k. cl (v + word_of_nat k * word_of_nat PAGE_SIZE)"])
qed

text \<open>What an allocation of a block of order \<open>i\<close> gives.\<close>

definition allocated ::
  "'m hyp \<Rightarrow> 'm hyp \<Rightarrow> nat \<Rightarrow> nat \<Rightarrow> nat \<Rightarrow> (nat \<Rightarrow> nat list) \<Rightarrow> (nat \<Rightarrow> nat list) \<Rightarrow> block set \<Rightarrow> nat \<Rightarrow> nat \<Rightarrow> bool" where
  "allocated s s' P a b L L' A q i \<longleftrightarrow>
     pool_ok s' P a b L' (insert (q, i) A) \<and> alloc_ok s' a b (insert (q, i) A) \<and> (q, i) \<notin> A \<and>
     area (free_blocks L) = blk (q, i) \<union> area (free_blocks L') \<and>
     pools s' = pools s \<and> hyp_physvirt_offset s' = hyp_physvirt_offset s \<and>
     refcount (node (pages s') (Addr q)) = 1"

lemma raw_hyp_alloc_pages_ok:
  assumes ok: "pool_ok s P a b L A" "alloc_ok s a b A" and j: "unat ord \<le> j" "j \<le> max_order" "L j \<noteq> []"
  shows "\<exists>q s' L'. raw_hyp_alloc_pages cl s P flags ord = Some (Addr q, s') \<and>
    allocated s s' P a b L L' A q (unat ord) \<and>
    mem s' = (if flags AND HYP_GFP_ZERO \<noteq> 0 then cleared cl (hyp_page_to_virt s q) (2 ^ unat ord) (mem s)
              else mem s)"
proof -
  have ord: "word_of_nat (unat ord) = ord" "unat ord \<le> max_order" using j by auto
  obtain k where k: "find_free_order s P ord = Some (word_of_nat k)" "unat ord \<le> k" "k \<le> Suc max_order"
    "\<forall>m. unat ord \<le> m \<and> m < k \<longrightarrow> L m = []" "k \<le> max_order \<longrightarrow> L k \<noteq> []"
    using find_free_order_ok [OF ok(1), of "unat ord"] ord by auto
  have km: "k \<le> max_order" using k(4) j by (meson not_le le_trans)
  then obtain q qs where q: "L k = q # qs" using k(5) by (cases "L k") auto
  have first: "get_next (nodes s) (Addr (FreeArea P k)) = Some (Addr (PageNode q))"
    using ll.family_first [OF pool_okD(2) [OF ok(1)], of "Addr (FreeArea P k)" "Addr (PageNode q)"] km q
    by simp
  obtain s' L' where ex: "hyp_extract_page s P q (word_of_nat (unat ord)) = Some (Addr q, s')"
    "pool_ok s' P a b L' (insert (q, unat ord) A)" "alloc_ok s' a b (insert (q, unat ord) A)"
    "(q, unat ord) \<notin> A" "area (free_blocks L) = blk (q, unat ord) \<union> area (free_blocks L')"
    "pools s' = pools s" "hyp_physvirt_offset s' = hyp_physvirt_offset s" "mem s' = mem s"
    "refcount (node (pages s') (Addr q)) = 1"
    using hyp_extract_page_ok [OF ok km _ k(2), of q] q by auto
  obtain pg where pg: "pages s' q = Some pg"
    using pool_dom [OF ex(2)] pool_in_range [OF ex(2)] by blast
  have po: "order pg = word_of_nat (unat ord)" using ex(3) pg by (simp add: alloc_ok_def)
  have v: "hyp_page_to_virt s' q = hyp_page_to_virt s q"
    using ex(7) by (simp add: hyp_page_to_virt_def hyp_phys_to_virt_def)
  have nk: "\<not> HYP_MAX_ORDER < (word_of_nat k :: u32)"
    using unat_order [OF km] km by (simp add: word_less_nat_alt HYP_MAX_ORDER_def max_order_def)
  let ?s = "if flags AND HYP_GFP_ZERO \<noteq> 0
    then s'\<lparr>mem := cleared cl (hyp_page_to_virt s q) (2 ^ unat ord) (mem s)\<rparr> else s'"
  have "raw_hyp_alloc_pages cl s P flags ord = Some (Addr q, ?s)"
    using k(1) nk first ex(1,8) ord unat_order [OF km] clear_hyp_page_ok [OF pg po ord(2), of cl] v
    by (simp add: raw_hyp_alloc_pages_def first_page_entry_def)
  moreover have "allocated s ?s P a b L L' A q (unat ord)"
    using ex(2-7,9) alloc_ok_cong [of "?s" s'] by (simp add: allocated_def)
  ultimately show ?thesis using ex(8) by (intro exI [of _ q] exI [of _ ?s]) auto
qed

lemma raw_hyp_alloc_pages_none:
  assumes ok: "pool_ok s P a b L A" and none: "\<forall>j. unat ord \<le> j \<and> j \<le> max_order \<longrightarrow> L j = []"
  shows "raw_hyp_alloc_pages cl s P flags ord = Some (NULL, s)"
proof -
  have "\<exists>k. find_free_order s P ord = Some k \<and> HYP_MAX_ORDER < k"
  proof (cases "unat ord \<le> max_order")
    case True
    then obtain k where "find_free_order s P ord = Some (word_of_nat k)" "k \<le> Suc max_order" "unat ord \<le> k"
      "k \<le> max_order \<longrightarrow> L k \<noteq> []"
      using find_free_order_ok [OF ok, of "unat ord"] by auto
    moreover from this none have "k = 12" using max_order_def by force
    ultimately show ?thesis by (simp add: HYP_MAX_ORDER_def)
  next
    case False
    then have "HYP_MAX_ORDER < ord" by (simp add: word_less_nat_alt HYP_MAX_ORDER_def max_order_def)
    then show ?thesis by (subst find_free_order.simps) (simp add: not_le [symmetric])
  qed
  then show ?thesis by (auto simp: raw_hyp_alloc_pages_def)
qed

lemma buddy_invD:
  assumes "buddy_inv s P a b L A"
  shows "pool_ok s P a b L A" "alloc_ok s a b A" "unlocked s P"
  using assms by (auto simp: buddy_inv_def)

lemma buddy_inv_block:
  assumes "buddy_inv s P a b L A" "(q, i) \<in> A"
  shows "q \<in> {a..<b}" "i \<le> max_order" "q < pfn_limit"
    "\<exists>pg. pages s q = Some pg \<and> pg_pool pg = Addr P \<and> order pg = word_of_nat i \<and> refcount pg \<noteq> 0"
proof -
  note D = buddy_invD [OF assms(1)]
  show q: "q \<in> {a..<b}" and "i \<le> max_order"
    using wf_in_range [OF pool_wf_used [OF D(1)] assms(2)] wf_block [OF pool_wf_used [OF D(1)] assms(2)]
    by auto
  then show "q < pfn_limit" using pool_okD(1) [OF D(1)] by (auto simp: pool_static_def)
  have "q \<in> fst ` A" using assms(2) by (metis fst_conv imageI)
  moreover obtain pg where pg: "pages s q = Some pg" "pg_pool pg = Addr P"
    using pool_okD(1) [OF D(1)] q unfolding pool_static_def by blast
  ultimately have "order pg = word_of_nat i" "refcount pg \<noteq> 0"
    using D(2) q assms(2) bspec [of "{a..<b}" _ q] unfolding alloc_ok_def by fastforce+
  with pg show "\<exists>pg. pages s q = Some pg \<and> pg_pool pg = Addr P \<and> order pg = word_of_nat i \<and> refcount pg \<noteq> 0"
    by blast
qed

text \<open>Between the acquisition and the release of its lock, an operation works on \<open>locked_state\<close>.\<close>

lemma alloc_under_lock:
  assumes "unlocked s P"
  shows "hyp_alloc_pages cl s P flags ord =
    do { (p, t) \<leftarrow> raw_hyp_alloc_pages cl (locked_state s P) P flags ord;
         t \<leftarrow> hyp_spin_unlock t P;
         Some (case p of Addr q \<Rightarrow> hyp_page_to_virt t q | _ \<Rightarrow> 0, t) }"
  using hyp_spin_lock_eq [OF assms] by (simp add: hyp_alloc_pages_def)

lemma put_under_lock:
  assumes "unlocked s P" "hyp_virt_to_page s v = q" "pages s q = Some pg" "pg_pool pg = Addr P"
  shows "hyp_put_page s v =
    (if refcount pg = 0 then None
     else do { t \<leftarrow> (if refcount pg = 1
                 then hyp_attach_page (put_refcount (locked_state s P) q 0) P q
                 else Some (put_refcount (locked_state s P) q (refcount pg - 1)));
               hyp_spin_unlock t P })"
proof -
  have "q \<in> dom (pages (locked_state s P))" using assms(3) by auto
  then show ?thesis using assms hyp_spin_lock_eq [OF assms(1)]
    by (simp add: hyp_put_page_def load_def hyp_panic_def set_refcount_eq pages_put)
qed

lemma get_under_lock:
  assumes "unlocked s P" "hyp_virt_to_page s v = q" "pages s q = Some pg" "pg_pool pg = Addr P"
  shows "hyp_get_page s v = Some (put_refcount s q (refcount pg + 1))"
proof -
  have "q \<in> dom (pages (locked_state s P))" using assms(3) by auto
  moreover have "hyp_spin_unlock (put_refcount (locked_state s P) q r) P = Some (put_refcount s q r)" for r
    using hyp_spin_unlock_eq [OF assms(1), of "put_refcount (locked_state s P) q r"]
    by (simp add: put_refcount_def locked_state_def)
  ultimately show ?thesis using assms hyp_spin_lock_eq [OF assms(1)]
    by (simp add: hyp_get_page_def load_def set_refcount_eq)
qed

lemma hyp_alloc_pages_some:
  assumes inv: "buddy_inv s P a b L A" and j: "unat ord \<le> j" "j \<le> max_order" "L j \<noteq> []"
  shows "\<exists>q L' s'. hyp_alloc_pages cl s P flags ord = Some (hyp_page_to_virt s q, s') \<and>
    buddy_inv s' P a b L' (insert (q, unat ord) A) \<and> (q, unat ord) \<notin> A \<and>
    refcount (node (pages s') (Addr q)) = 1 \<and>
    area (free_blocks L) = blk (q, unat ord) \<union> area (free_blocks L') \<and>
    hyp_physvirt_offset s' = hyp_physvirt_offset s \<and>
    mem s' = (if flags AND HYP_GFP_ZERO \<noteq> 0
              then cleared cl (hyp_page_to_virt s q) (2 ^ unat ord) (mem s) else mem s)"
proof -
  note D = buddy_invD [OF inv]
  let ?l = "locked_state s P" and ?i = "unat ord"
  have okl: "pool_ok ?l P a b L A" "alloc_ok ?l a b A"
    using D pool_ok_locked [OF D(3)] alloc_ok_cong [of ?l s] by auto
  obtain q t L' where t: "raw_hyp_alloc_pages cl ?l P flags ord = Some (Addr q, t)"
    "allocated ?l t P a b L L' A q ?i"
    "mem t = (if flags AND HYP_GFP_ZERO \<noteq> 0 then cleared cl (hyp_page_to_virt ?l q) (2 ^ ?i) (mem s) else mem s)"
    using raw_hyp_alloc_pages_ok [OF okl j, of cl flags] by auto
  have v: "hyp_page_to_virt ?l q = hyp_page_to_virt s q"
    by (simp add: hyp_page_to_virt_def hyp_phys_to_virt_def)
  let ?t = "t\<lparr>pools := pools s\<rparr>"
  note A = t(2) [unfolded allocated_def]
  have "pool_ok ?t P a b L' (insert (q, ?i) A)" using pool_ok_unlocked [OF D(3)] A by blast
  then have "buddy_inv ?t P a b L' (insert (q, ?i) A)"
    using A D(3) alloc_ok_cong [of ?t t] by (simp add: buddy_inv_def unlocked_def)
  moreover have "hyp_alloc_pages cl s P flags ord = Some (hyp_page_to_virt s q, ?t)"
    using t(1) hyp_spin_unlock_eq [OF D(3), of t] A
    by (simp add: alloc_under_lock [OF D(3)] hyp_page_to_virt_def hyp_phys_to_virt_def)
  ultimately show ?thesis using t(3) A v
    by (intro exI [of _ q] exI [of _ L'] exI [of _ ?t]) (simp del: blk.simps)
qed

lemma hyp_alloc_pages_none:
  assumes inv: "buddy_inv s P a b L A" and none: "\<forall>j. unat ord \<le> j \<and> j \<le> max_order \<longrightarrow> L j = []"
  shows "hyp_alloc_pages cl s P flags ord = Some (0, s)"
proof -
  note D = buddy_invD [OF inv]
  have "raw_hyp_alloc_pages cl (locked_state s P) P flags ord = Some (NULL, locked_state s P)"
    using raw_hyp_alloc_pages_none [OF _ none] D(1) pool_ok_locked [OF D(3)] by blast
  then show ?thesis using hyp_spin_unlock_eq [OF D(3) refl]
    by (simp add: alloc_under_lock [OF D(3)] locked_state_def)
qed

text \<open>The block that an allocation takes away, by area.\<close>

lemma alloc_area:
  assumes "buddy_inv s P a b L A" "buddy_inv s' P a b L' (insert (q, i) A)" "(q, i) \<notin> A"
    "area (free_blocks L) = blk (q, i) \<union> area (free_blocks L')"
  shows "blk (q, i) \<inter> area A = {} \<and> blk (q, i) \<subseteq> area (free_blocks L) \<and>
    area (free_blocks L') = area (free_blocks L) - blk (q, i)"
  using pool_area [OF buddy_invD(1) [OF assms(1)]] pool_area [OF buddy_invD(1) [OF assms(2)]] assms(4)
  by (simp del: blk.simps) blast

lemma hyp_put_page_free:
  assumes inv: "buddy_inv s P a b L A" "(q, i) \<in> A" and r: "refcount (node (pages s) (Addr q)) = 1"
  shows "\<exists>s' L'. hyp_put_page s (hyp_page_to_virt s q) = Some s' \<and>
    buddy_inv s' P a b L' (A - {(q, i)}) \<and>
    area (free_blocks L') = blk (q, i) \<union> area (free_blocks L) \<and> mem s' = mem s \<and>
    hyp_physvirt_offset s' = hyp_physvirt_offset s"
proof -
  note D = buddy_invD [OF inv(1)] and B = buddy_inv_block [OF inv]
  obtain pg where pg: "pages s q = Some pg" "pg_pool pg = Addr P" "order pg = word_of_nat i"
    using B(4) by blast
  let ?A = "A - {(q, i)}" and ?l = "put_refcount (locked_state s P) q 0"
  have A: "insert (q, i) ?A = A" using inv(2) by blast
  have okl: "pool_ok ?l P a b L (insert (q, i) ?A)"
    using pool_ok_put_refcount pool_ok_locked [OF D(3)] D(1) A by metis
  have all: "alloc_ok ?l a b ?A"
    using alloc_ok_remove [OF _ pool_wf_used [OF D(1)] inv(2), of "locked_state s P"] D(2)
      alloc_ok_cong [of "locked_state s P" s] by simp
  have ord: "order (node (pages ?l) (Addr q)) = word_of_nat i" using pg by (simp add: pages_put)
  obtain t L' where t: "hyp_attach_page ?l P q = Some t" "pool_ok t P a b L' ?A"
    "area (free_blocks L') = blk (q, i) \<union> area (free_blocks L)"
    "page_frame (insert q (fst ` free_blocks L)) ?l t"
    using hyp_attach_page_ok [OF okl _ ord] by auto
  let ?t = "t\<lparr>pools := pools s\<rparr>"
  have "q \<notin> fst ` ?A" using fst_remove [OF pool_wf_used [OF D(1)] order.refl inv(2)] by simp
  moreover have "fst ` free_blocks L \<inter> fst ` ?A = {}"
    using pool_area [OF D(1)] area_fst_image [of "free_blocks L"] area_fst_image [of A] by blast
  ultimately have "alloc_ok t a b ?A" using alloc_ok_frame [OF all t(4)] by simp
  moreover have pt: "pools t = pools (locked_state s P)" "mem t = mem s"
      "hyp_physvirt_offset t = hyp_physvirt_offset s"
    using t(4) by (simp_all add: page_frame_def)
  ultimately have "buddy_inv ?t P a b L' ?A"
    using pool_ok_unlocked [OF D(3) _ t(2)] D(3) alloc_ok_cong [of ?t t]
    by (simp add: buddy_inv_def unlocked_def)
  moreover have "hyp_put_page s (hyp_page_to_virt s q) = Some ?t"
    using put_under_lock [OF D(3) virt_to_page_to_virt [OF B(3) refl] pg(1,2)] r pg(1) t(1)
      hyp_spin_unlock_eq [OF D(3) pt(1)] by simp
  ultimately show ?thesis using t(3) pt(2,3) by (intro exI [of _ ?t] exI [of _ L']) simp
qed

lemma hyp_put_page_drop:
  assumes inv: "buddy_inv s P a b L A" "(q, i) \<in> A" and r: "refcount (node (pages s) (Addr q)) \<noteq> 1"
  shows "hyp_put_page s (hyp_page_to_virt s q) =
      Some (put_refcount s q (refcount (node (pages s) (Addr q)) - 1))"
    "buddy_inv (put_refcount s q (refcount (node (pages s) (Addr q)) - 1)) P a b L A"
proof -
  note D = buddy_invD [OF inv(1)] and B = buddy_inv_block [OF inv]
  obtain pg where pg: "pages s q = Some pg" "pg_pool pg = Addr P" "refcount pg \<noteq> 0"
    using B(4) by blast
  have A: "q \<in> fst ` A" using inv(2) by force
  have "hyp_spin_unlock (put_refcount (locked_state s P) q r) P = Some (put_refcount s q r)" for r
    using hyp_spin_unlock_eq [OF D(3), of "put_refcount (locked_state s P) q r"]
    by (simp add: put_refcount_def locked_state_def)
  then show "hyp_put_page s (hyp_page_to_virt s q) =
      Some (put_refcount s q (refcount (node (pages s) (Addr q)) - 1))"
    using put_under_lock [OF D(3) virt_to_page_to_virt [OF B(3) refl] pg(1,2)] r pg by simp
  have "alloc_ok (put_refcount s q (refcount pg - 1)) a b A"
    using alloc_ok_put [OF D(2) A] pg r by simp
  then show "buddy_inv (put_refcount s q (refcount (node (pages s) (Addr q)) - 1)) P a b L A"
    using pg D pool_ok_put_refcount [OF D(1)] by (simp add: buddy_inv_def unlocked_def)
qed

lemma hyp_get_page_ok:
  assumes inv: "buddy_inv s P a b L A" "(q, i) \<in> A" and r: "refcount (node (pages s) (Addr q)) \<noteq> - 1"
  shows "hyp_get_page s (hyp_page_to_virt s q) =
      Some (put_refcount s q (refcount (node (pages s) (Addr q)) + 1))"
    "buddy_inv (put_refcount s q (refcount (node (pages s) (Addr q)) + 1)) P a b L A"
proof -
  note D = buddy_invD [OF inv(1)] and B = buddy_inv_block [OF inv]
  obtain pg where pg: "pages s q = Some pg" "pg_pool pg = Addr P" using B(4) by blast
  have A: "q \<in> fst ` A" using inv(2) by force
  show "hyp_get_page s (hyp_page_to_virt s q) =
      Some (put_refcount s q (refcount (node (pages s) (Addr q)) + 1))"
    using get_under_lock [OF D(3) virt_to_page_to_virt [OF B(3) refl] pg] pg by simp
  have "refcount pg + 1 \<noteq> 0" using r pg eq_neg_iff_add_eq_0 [of "refcount pg" 1] by simp
  then show "buddy_inv (put_refcount s q (refcount (node (pages s) (Addr q)) + 1)) P a b L A"
    using alloc_ok_put [OF D(2) A] pg D pool_ok_put_refcount [OF D(1)]
    by (simp add: buddy_inv_def unlocked_def)
qed

end
