(* ===== verification/Buddy_Init.thy ===== *)
theory Buddy_Init
  imports Buddy_Correct
begin

text \<open>
  \<open>hyp_pool_init\<close> of \<open>src/linux/casestudies/page_alloc.c\<close>: it establishes the invariant of
  the pool, and a pool that it made serves allocations.
\<close>

section \<open>The loops of the initialisation\<close>

text \<open>The part of the state that the pool's initialisation needs to be allocated.\<close>

definition backed :: "'m hyp \<Rightarrow> nat \<Rightarrow> nat \<Rightarrow> nat \<Rightarrow> bool" where
  "backed s P a b \<longleftrightarrow> P \<in> dom (pools s) \<and> {a..<b} \<subseteq> dom (pages s) \<and>
     FreeArea P ` {..max_order} \<subseteq> dom (nodes s) \<and> PageNode ` {a..<b} \<subseteq> dom (nodes s)"

text \<open>
  The states between the loops: \<open>z\<close> are the pages that are cleared, \<open>u\<close> those whose pool and
  node are set.
\<close>

definition initialised :: "'m hyp \<Rightarrow> 'm hyp \<Rightarrow> nat \<Rightarrow> nat set \<Rightarrow> nat set \<Rightarrow> nat set \<Rightarrow> bool" where
  "initialised s t P f z u \<longleftrightarrow>
     pools t = pools s \<and> mem t = mem s \<and> hyp_physvirt_offset t = hyp_physvirt_offset s \<and>
     dom (pages t) = dom (pages s) \<and> dom (nodes t) = dom (nodes s) \<and>
     (\<forall>i\<in>f. is_list (nodes t) (Addr (FreeArea P i)) []) \<and>
     (\<forall>q\<in>z. pages t q = Some \<lparr>refcount = 0, order = 0, pg_pool = if q \<in> u then Addr P else NULL\<rparr>) \<and>
     (\<forall>q\<in>u. is_list (nodes t) (Addr (PageNode q)) [])"

lemma initialised_start: "initialised s s P {} {} {}"
  by (simp add: initialised_def)

lemma is_list_Nil_frame:
  "upd_only {p} h h' \<Longrightarrow> is_list h q [] \<Longrightarrow> q \<noteq> p \<Longrightarrow> is_list h' q []"
  by (rule is_list_frame) auto

lemma upd_only_dom: "upd_only S h h' \<Longrightarrow> dom h' = dom h"
  by (simp add: upd_only_def)

lemma init_area_step:
  assumes "initialised s t P f {} {}" "FreeArea P i \<in> dom (nodes s)"
  shows "\<exists>t'. do { ns \<leftarrow> INIT_LIST_HEAD (nodes t) (Addr (FreeArea P i)); Some (t\<lparr>nodes := ns\<rparr>) } = Some t' \<and>
    initialised s t' P (insert i f) {} {}"
proof -
  have "valid (nodes t) (Addr (FreeArea P i))" using assms by (simp add: initialised_def)
  from INIT_LIST_HEAD_ok [OF this] obtain ns where
    ns: "INIT_LIST_HEAD (nodes t) (Addr (FreeArea P i)) = Some ns"
    "is_list ns (Addr (FreeArea P i)) []" "upd_only {Addr (FreeArea P i)} (nodes t) ns" by blast
  have "is_list ns (Addr (FreeArea P j)) []" if "j \<in> insert i f" for j
    using is_list_Nil_frame [OF ns(3), of "Addr (FreeArea P j)"] ns(2) that assms(1)
    by (cases "j = i") (auto simp: initialised_def)
  with ns assms(1) upd_only_dom [OF ns(3)] show ?thesis by (auto simp: initialised_def)
qed

lemma memset_step:
  assumes "initialised s t P f z {}" "q \<in> dom (pages s)" "PageNode q \<in> dom (nodes s)"
  shows "\<exists>t'. memset_page q t = Some t' \<and> initialised s t' P f (insert q z) {}"
proof -
  have v: "valid (pages t) (Addr q)" "valid (nodes t) (Addr (PageNode q))"
    using assms by (auto simp: initialised_def)
  let ?ns = "upd (nodes t) (Addr (PageNode q)) (\<lambda>_. \<lparr>lh_next = NULL, lh_prev = NULL\<rparr>)"
  let ?ps = "upd (pages t) (Addr q) (\<lambda>_. \<lparr>refcount = 0, order = 0, pg_pool = NULL\<rparr>)"
  have u: "upd_only {Addr (PageNode q)} (nodes t) ?ns" using v(2) by (simp add: heap_simps)
  have "is_list ?ns (Addr (FreeArea P i)) []" if "i \<in> f" for i
    using is_list_Nil_frame [OF u, of "Addr (FreeArea P i)"] that assms(1) by (auto simp: initialised_def)
  moreover have "dom ?ps = dom (pages s)" using dom_upd [OF v(1)] assms(1) by (simp add: initialised_def)
  moreover have "memset_page q t = Some (t\<lparr>pages := ?ps, nodes := ?ns\<rparr>)"
    using v by (simp only: memset_page_def modify_valid Option.bind.simps)
  ultimately show ?thesis using assms(1) upd_only_dom [OF u]
    by (auto simp: initialised_def upd_def)
qed

lemma init_page_step:
  assumes "initialised s t P f z u" "q \<in> z" "z \<subseteq> dom (pages s)" "PageNode q \<in> dom (nodes s)"
  shows "\<exists>t'. init_page P q t = Some t' \<and> initialised s t' P f z (insert q u)"
proof -
  have v: "valid (pages t) (Addr q)" "valid (nodes t) (Addr (PageNode q))"
    using assms by (auto simp: initialised_def)
  from INIT_LIST_HEAD_ok [OF v(2)] obtain ns where
    ns: "INIT_LIST_HEAD (nodes t) (Addr (PageNode q)) = Some ns"
    "is_list ns (Addr (PageNode q)) []" "upd_only {Addr (PageNode q)} (nodes t) ns" by blast
  let ?ps = "upd (pages t) (Addr q) (\<lambda>pg. pg\<lparr>pg_pool := Addr P\<rparr>)"
  have "is_list ns (Addr (FreeArea P i)) []" if "i \<in> f" for i
    using is_list_Nil_frame [OF ns(3), of "Addr (FreeArea P i)"] that assms(1) by (auto simp: initialised_def)
  moreover have "is_list ns (Addr (PageNode r)) []" if "r \<in> insert q u" for r
    using is_list_Nil_frame [OF ns(3), of "Addr (PageNode r)"] ns(2) that assms(1)
    by (cases "r = q") (auto simp: initialised_def)
  moreover have "dom ?ps = dom (pages s)" using dom_upd [OF v(1)] assms(1) by (simp add: initialised_def)
  moreover have "init_page P q t = Some (t\<lparr>pages := ?ps, nodes := ns\<rparr>)"
    using v(1) ns(1) by (simp only: init_page_def modify_valid Option.bind.simps)
  moreover have "?ps r = Some \<lparr>refcount = 0, order = 0, pg_pool = if r \<in> insert q u then Addr P else NULL\<rparr>"
    if "r \<in> z" for r
    using assms(1,2) that by (auto simp: initialised_def upd_def)
  ultimately show ?thesis using assms(1) upd_only_dom [OF ns(3)]
    by (auto simp: initialised_def)
qed

lemma c_for_set_inv:
  assumes "J {} s" "\<And>x S t. x \<in> set xs \<Longrightarrow> J S t \<Longrightarrow> \<exists>t'. body x t = Some t' \<and> J (insert x S) t'"
  shows "\<exists>t. c_for xs body s = Some t \<and> J (set xs) t"
proof -
  have "\<exists>t. c_for xs body s = Some t \<and> J (set (take (length xs) xs)) t"
    using assms by (intro c_for_inv [where I = "\<lambda>k. J (set (take k xs))"])
      (auto simp: take_Suc_conv_app_nth)
  then show ?thesis by simp
qed

lemma backed_page:
  "backed s P a b \<Longrightarrow> a \<le> q \<Longrightarrow> q < b \<Longrightarrow> q \<in> dom (pages s) \<and> PageNode q \<in> dom (nodes s)"
  unfolding backed_def by (meson atLeastLessThan_iff imageI subsetD)

definition init_area :: "nat \<Rightarrow> nat \<Rightarrow> 'm hyp \<Rightarrow> 'm hyp option" where
  "init_area P i s = do {
     ns \<leftarrow> INIT_LIST_HEAD (nodes s) (Addr (FreeArea P i));
     Some (s\<lparr>nodes := ns\<rparr>) }"

lemma init_areas:
  assumes "backed s P a b"
  shows "\<exists>t. c_for [0..<12] (init_area P) s = Some t \<and> initialised s t P {..max_order} {} {}"
proof -
  have F: "set [0..<12] = {..max_order}" by (auto simp: max_order_def)
  have "\<exists>t. c_for [0..<12] (init_area P) s = Some t \<and> initialised s t P (set [0..<12]) {} {}"
    using assms by (intro c_for_set_inv [where J = "\<lambda>S t. initialised s t P S {} {}"] initialised_start)
      (unfold F init_area_def, auto intro: init_area_step simp: backed_def simp del: set_upt)
  then show ?thesis unfolding F .
qed

lemma init_pages:
  assumes "backed s P a b" and t1: "initialised s t1 P {..max_order} {} {}"
  shows "\<exists>t. do { t \<leftarrow> c_for [a..<b] memset_page t1; c_for [a..<b] (init_page P) t } = Some t \<and>
    initialised s t P {..max_order} {a..<b} {a..<b}"
proof -
  have "\<exists>t. c_for [a..<b] memset_page t1 = Some t \<and> initialised s t P {..max_order} (set [a..<b]) {}"
    using t1 by (intro c_for_set_inv [where J = "\<lambda>S t. initialised s t P {..max_order} S {}"])
      (simp_all add: memset_step backed_page [OF assms(1)])
  then obtain t2 where t2: "c_for [a..<b] memset_page t1 = Some t2"
    "initialised s t2 P {..max_order} {a..<b} {}" by auto
  have "\<exists>t. c_for [a..<b] (init_page P) t2 = Some t \<and>
      initialised s t P {..max_order} {a..<b} (set [a..<b])"
    using t2(2) by (intro c_for_set_inv [where J = "\<lambda>S t. initialised s t P {..max_order} {a..<b} S"])
      (auto intro!: init_page_step dest: backed_page [OF assms(1)])
  then show ?thesis using t2(1) by auto
qed

text \<open>Before the first page is attached, every page of the pool is an unlinked block of order 0.\<close>

definition pending :: "nat \<Rightarrow> nat \<Rightarrow> block set" where
  "pending c b = (\<lambda>q. (q, 0)) ` {c..<b}"

lemma pending_step: "c < b \<Longrightarrow> pending c b = insert (c, 0) (pending (Suc c) b) \<and> (c, 0) \<notin> pending (Suc c) b"
  by (auto simp: pending_def image_iff)

lemma wf_pending: "a \<le> c \<Longrightarrow> wf_blocks a b (pending c b)"
  by (auto simp: wf_blocks_def pending_def)

lemma initialised_pool_ok:
  assumes "initialised s t P {..max_order} {a..<b} {a..<b}" "a \<le> b" "b < pfn_limit" "a \<le> c"
    and "pools s P = Some pl" "range_start pl = hyp_page_to_phys a" "range_end pl = hyp_page_to_phys b"
  shows "pool_ok t P a b (\<lambda>_. []) (pending c b)"
proof -
  have fb: "free_blocks (\<lambda>_. []) = {}" by (auto simp: free_blocks_def)
  have em: "lists P (\<lambda>_. []) k = []" for k by (cases "(P, (\<lambda>_. []) :: nat \<Rightarrow> nat list, k)" rule: lists.cases) auto
  have "family is_list (nodes t) (heads P a b {}) (lists P (\<lambda>_. []))"
    by (rule familyI) (use assms(1) in \<open>auto simp: em heads_def initialised_def\<close>)
  then show ?thesis using assms wf_pending [of a c b]
    unfolding pool_ok_def fb by (auto simp: pool_static_def initialised_def coalesced_def)
qed

text \<open>The pages that are not yet attached stay as they are.\<close>

lemma attach_all:
  fixes t :: "'a hyp"
  assumes "pool_ok t P a b (\<lambda>_. []) (pending c b)" "c \<le> b"
    and "\<forall>q\<in>{a..<b}. refcount (node (pages t) (Addr q)) = 0 \<and> order (node (pages t) (Addr q)) = 0"
  shows "\<exists>t' L. c_for [c..<b] (\<lambda>p s. hyp_attach_page s P p) t = Some t' \<and>
    pool_ok t' P a b L {} \<and> area (free_blocks L) = {c..<b} \<and> pools t' = pools t \<and>
    hyp_physvirt_offset t' = hyp_physvirt_offset t \<and> mem t' = mem t \<and>
    (\<forall>q\<in>{a..<b}. refcount (node (pages t') (Addr q)) = 0)"
proof -
  define I :: "nat \<Rightarrow> 'a hyp \<Rightarrow> bool" where "I k t' \<longleftrightarrow> (\<exists>L. pool_ok t' P a b L (pending (c + k) b) \<and>
      area (free_blocks L) = {c..<c + k} \<and> pools t' = pools t \<and>
      hyp_physvirt_offset t' = hyp_physvirt_offset t \<and> mem t' = mem t \<and>
      (\<forall>q\<in>{a..<b}. refcount (node (pages t') (Addr q)) = 0) \<and>
      (\<forall>q\<in>{c + k..<b}. order (node (pages t') (Addr q)) = 0))" for k t'
  have ac: "a \<le> c" if "c < b"
    using pool_in_range [of t P a b "\<lambda>_. []" c 0 "pending (Suc c) b"] assms(1) pending_step [OF that] by simp
  have "I 0 t" unfolding I_def
    using assms ac by (intro exI [of _ "\<lambda>_. []"]) (auto simp: free_blocks_def area_def)
  moreover have "\<exists>v'. hyp_attach_page v P ([c..<b] ! k) = Some v' \<and> I (Suc k) v'"
    if k: "k < length [c..<b]" and I: "I k v" for k v
  proof -
    obtain L where L: "pool_ok v P a b L (pending (c + k) b)" "area (free_blocks L) = {c..<c + k}"
      "pools v = pools t" "\<forall>q\<in>{a..<b}. refcount (node (pages v) (Addr q)) = 0"
      "\<forall>q\<in>{c + k..<b}. order (node (pages v) (Addr q)) = 0"
      "hyp_physvirt_offset v = hyp_physvirt_offset t" "mem v = mem t"
      using I unfolding I_def by blast
    have ck: "c + k < b" using k by simp
    note ps = pending_step [OF ck]
    have ord: "order (node (pages v) (Addr (c + k))) = word_of_nat 0" using L(5) ck by simp
    obtain v' L' where v': "hyp_attach_page v P (c + k) = Some v'"
      "pool_ok v' P a b L' (pending (Suc (c + k)) b)"
      "area (free_blocks L') = blk (c + k, 0) \<union> area (free_blocks L)"
      "page_frame (insert (c + k) (fst ` free_blocks L)) v v'"
      using hyp_attach_page_ok [OF _ _ ord, of P a b L "pending (Suc (c + k)) b"] L(1) ps by auto
    have "q \<notin> insert (c + k) (fst ` free_blocks L)" if "q \<in> {Suc (c + k)..<b}" for q
      using that L(2) area_fst_image [of "free_blocks L"] by fastforce
    then have "I (Suc k) v'" unfolding I_def
      using v' L by (intro exI [of _ L']) (auto simp: page_frame_def)
    with v'(1) k show ?thesis by simp
  qed
  ultimately obtain t' where "c_for [c..<b] (\<lambda>p s. hyp_attach_page s P p) t = Some t'" "I (b - c) t'"
    using c_for_inv [of I t "[c..<b]" "\<lambda>p s. hyp_attach_page s P p"] by auto
  then show ?thesis using assms(2) unfolding I_def by (auto simp: pending_def)
qed

section \<open>The initialisation\<close>

lemma range_end_eq:
  assumes "a + unat nr < pfn_limit" "unat nr < 2 ^ 20"
  shows "hyp_page_to_phys a + ucast (push_bit PAGE_SHIFT nr) = hyp_page_to_phys (a + unat (nr :: u32))"
proof -
  have "unat (push_bit PAGE_SHIFT nr) = unat nr * 4096"
    using assms(2) by (simp add: PAGE_SHIFT_def push_bit_eq_mult unat_word_ariths)
  then have "(ucast (push_bit PAGE_SHIFT nr) :: u64) = word_of_nat (unat nr * 4096)"
    by (metis of_nat_unat)
  then show ?thesis
    by (simp add: hyp_page_to_phys_def PAGE_SHIFT_def push_bit_eq_mult algebra_simps)
qed

lemma page_to_phys_aligned: "hyp_page_to_phys a mod word_of_nat PAGE_SIZE = 0"
proof -
  have "hyp_page_to_phys a = push_bit 12 (word_of_nat a)" by (simp add: hyp_page_to_phys_def PAGE_SHIFT_def)
  then have "take_bit 12 (hyp_page_to_phys a) = 0" by (simp add: take_bit_push_bit)
  then show ?thesis by (simp add: PAGE_SIZE_def take_bit_eq_mod)
qed

lemma hyp_pool_init_ok:
  assumes bk: "backed s P a (a + unat nr)" and lim: "a + unat nr < pfn_limit" "unat nr < 2 ^ 20"
    and us: "unat used \<le> unat nr"
  shows "\<exists>s' L. hyp_pool_init s P (hyp_page_to_phys a) nr used = Some (0, s') \<and>
    buddy_inv s' P a (a + unat nr) L {} \<and> area (free_blocks L) = {a + unat used..<a + unat nr} \<and>
    hyp_physvirt_offset s' = hyp_physvirt_offset s \<and> mem s' = mem s"
proof -
  let ?b = "a + unat nr" and ?c = "a + unat used"
  obtain pl where pl: "pools s P = Some pl" using bk by (auto simp: backed_def)
  let ?l = "pl\<lparr>pl_lock := \<lparr>lock = False\<rparr>\<rparr>"
  let ?r = "?l\<lparr>range_start := hyp_page_to_phys a, range_end := hyp_page_to_phys ?b\<rparr>"
  let ?s1 = "s\<lparr>pools := (pools s)(P \<mapsto> ?l)\<rparr>" and ?s2 = "s\<lparr>pools := (pools s)(P \<mapsto> ?r)\<rparr>"
  have b: "backed ?s1 P a ?b" "backed ?s2 P a ?b" using bk by (simp_all add: backed_def)
  obtain t1 where t1: "c_for [0..<12] (init_area P) ?s1 = Some t1" "initialised ?s1 t1 P {..max_order} {} {}"
    using init_areas [OF b(1)] by blast
  let ?t1 = "t1\<lparr>pools := (pools s)(P \<mapsto> ?r)\<rparr>"
  have "initialised ?s2 ?t1 P {..max_order} {} {}" using t1(2) by (simp add: initialised_def)
  then obtain t2 where t2: "do { t \<leftarrow> c_for [a..<?b] memset_page ?t1; c_for [a..<?b] (init_page P) t } = Some t2"
    "initialised ?s2 t2 P {..max_order} {a..<?b} {a..<?b}" using init_pages [OF b(2)] by blast
  have "pool_ok t2 P a ?b (\<lambda>_. []) (pending ?c ?b)"
    using initialised_pool_ok [OF t2(2) _ lim(1), of ?c] by simp
  moreover have "\<forall>q\<in>{a..<?b}. refcount (node (pages t2) (Addr q)) = 0 \<and> order (node (pages t2) (Addr q)) = 0"
    using t2(2) by (simp add: initialised_def)
  ultimately obtain t3 L where t3: "c_for [?c..<?b] (\<lambda>p s. hyp_attach_page s P p) t2 = Some t3"
    "pool_ok t3 P a ?b L {}" "area (free_blocks L) = {?c..<?b}" "pools t3 = pools t2"
    "hyp_physvirt_offset t3 = hyp_physvirt_offset t2" "mem t3 = mem t2"
    "\<forall>q\<in>{a..<?b}. refcount (node (pages t3) (Addr q)) = 0"
    using attach_all [of t2 P a ?b ?c] us by auto
  have "buddy_inv t3 P a ?b L {}"
    using t3 t2(2) by (simp add: buddy_inv_def alloc_ok_def unlocked_def initialised_def)
  moreover have "hyp_pool_init s P (hyp_page_to_phys a) nr used = Some (0, t3)"
  proof -
    have c: "?c + (unat nr - unat used) = ?b" using us by simp
    have pc: "hyp_phys_to_page (hyp_page_to_phys a) = a" "hyp_phys_to_page (hyp_page_to_phys ?c) = ?c"
      using lim us by (auto intro!: phys_to_page_to_phys)
    have re: "hyp_page_to_phys a + ucast (push_bit PAGE_SHIFT nr) = hyp_page_to_phys ?b"
      "hyp_page_to_phys a + ucast (push_bit PAGE_SHIFT used) = hyp_page_to_phys ?c"
      using range_end_eq lim us by auto
    have p1: "modify (pools t1) (Addr P) (\<lambda>pl. pl\<lparr>range_start := hyp_page_to_phys a,
        range_end := hyp_page_to_phys ?b\<rparr>) = Some ((pools s)(P \<mapsto> ?r))"
      using t1(2) by (simp add: modify_def initialised_def)
    have nr: "unat nr < 2 ^ 31" using lim(2) by simp
    show ?thesis using t1(1) t2(1) t3(1) p1 nr pl
      by (auto simp: hyp_pool_init_def page_to_phys_aligned re pc c modify_def sl_init_def spinlock_upd Let_def
          init_area_def [abs_def] bind_eq_Some_conv)
  qed
  moreover have "hyp_physvirt_offset t3 = hyp_physvirt_offset s" "mem t3 = mem s"
    using t3(5,6) t2(2) by (simp_all add: initialised_def)
  ultimately show ?thesis using t3(3) by blast
qed

section \<open>The contract of the allocator\<close>

text \<open>
  A memory in which every object is allocated, for concrete runs; \<open>count_clear\<close> counts the
  pages that were cleared.
\<close>

definition demo_hyp :: "nat hyp" where
  "demo_hyp = \<lparr>
     pools = (\<lambda>_. Some \<lparr>pl_lock = \<lparr>lock = True\<rparr>, range_start = 0, range_end = 0\<rparr>),
     pages = (\<lambda>_. Some \<lparr>refcount = 7, order = 7, pg_pool = NULL\<rparr>),
     nodes = (\<lambda>_. Some \<lparr>lh_next = NULL, lh_prev = NULL\<rparr>),
     hyp_physvirt_offset = 4096, mem = 0\<rparr>"

definition count_clear :: "u64 \<Rightarrow> nat \<Rightarrow> nat" where
  "count_clear v n = n + 1"

lemma demo_backed: "backed demo_hyp P a b"
  by (auto simp: backed_def demo_hyp_def)

text \<open>A pool of the pages 2 to 4, of which page 2 is in use.\<close>

lemma demo_pool:
  "\<exists>s L. hyp_pool_init demo_hyp 0 (hyp_page_to_phys 2) 3 1 = Some (0, s) \<and>
    buddy_inv s 0 2 5 L {} \<and> area (free_blocks L) = {3..<5} \<and>
    hyp_physvirt_offset s = 4096"
  using hyp_pool_init_ok [OF demo_backed, of 2 3 1 0] by (simp add: pfn_limit_def demo_hyp_def) blast

lemma area_nonempty: "area (free_blocks L) \<noteq> {} \<Longrightarrow> \<exists>j. unat (0 :: u32) \<le> j \<and> j \<le> max_order \<and> L j \<noteq> []"
  by (auto simp: area_def)

text \<open>A block of that pool, allocated.\<close>

lemma demo_alloc:
  "\<exists>s L q s' L'. hyp_pool_init demo_hyp 0 (hyp_page_to_phys 2) 3 1 = Some (0, s) \<and>
    buddy_inv s 0 2 5 L {} \<and> area (free_blocks L) = {3..<5} \<and>
    hyp_alloc_pages count_clear s 0 1 0 = Some (hyp_page_to_virt s q, s') \<and>
    buddy_inv s' 0 2 5 L' {(q, 0)} \<and> refcount (node (pages s') (Addr q)) = 1 \<and>
    q \<in> {3..<5} \<and> area (free_blocks L') = {3..<5} - {q} \<and> hyp_page_to_virt s q \<noteq> 0"
proof -
  obtain s L where s: "hyp_pool_init demo_hyp 0 (hyp_page_to_phys 2) 3 1 = Some (0, s)"
    "buddy_inv s 0 2 5 L {}" "area (free_blocks L) = {3..<5}"
    "hyp_physvirt_offset s = 4096" using demo_pool by blast
  obtain j where j: "unat (0 :: u32) \<le> j" "j \<le> max_order" "L j \<noteq> []"
    using area_nonempty [of L] s(3) by auto
  obtain q L' s' where q: "hyp_alloc_pages count_clear s 0 1 0 = Some (hyp_page_to_virt s q, s')"
    "buddy_inv s' 0 2 5 L' (insert (q, unat (0 :: u32)) {})" "(q, unat (0 :: u32)) \<notin> {}"
    "refcount (node (pages s') (Addr q)) = 1"
    "area (free_blocks L) = blk (q, unat (0 :: u32)) \<union> area (free_blocks L')"
    using hyp_alloc_pages_some [OF s(2) j, of count_clear 1] by blast
  have r: "q \<in> {3..<5}" "area (free_blocks L') = {3..<5} - {q}"
    using alloc_area [OF s(2) q(2,3,5)] s(3) by auto
  from r(1) have "q = 3 \<or> q = 4" by auto
  then have "hyp_page_to_virt s q \<noteq> 0"
    using s(4) by (auto simp: hyp_page_to_virt_def hyp_phys_to_virt_def hyp_page_to_phys_def PAGE_SHIFT_def
        push_bit_eq_mult)
  with r show ?thesis using s q by (simp del: blk.simps) blast
qed

text \<open>
  C2. \<open>hyp_alloc_pages\<close> returns a block of the requested order whenever some free block is at
  least as large, and null exactly otherwise, in which case nothing changes. The block is
  taken from the free area, disjoint from every allocated block, the rest of the free area
  stays free, the pool is well formed again with its lock released, and the memory of
  exactly the block's pages is cleared when \<open>HYP_GFP_ZERO\<close> is given.
\<close>

theorem hyp_alloc_pages_spec:
  assumes inv: "buddy_inv s P a b L A"
  shows "if \<exists>j. unat ord \<le> j \<and> j \<le> max_order \<and> L j \<noteq> []
    then \<exists>q L' s'. hyp_alloc_pages cl s P flags ord = Some (hyp_page_to_virt s q, s') \<and>
      buddy_inv s' P a b L' (insert (q, unat ord) A) \<and>
      refcount (node (pages s') (Addr q)) = 1 \<and>
      blk (q, unat ord) \<inter> area A = {} \<and> blk (q, unat ord) \<subseteq> area (free_blocks L) \<and>
      area (free_blocks L') = area (free_blocks L) - blk (q, unat ord) \<and>
      mem s' = (if flags AND HYP_GFP_ZERO \<noteq> 0
                then cleared cl (hyp_page_to_virt s q) (2 ^ unat ord) (mem s) else mem s)
    else hyp_alloc_pages cl s P flags ord = Some (0, s)"
proof (cases "\<exists>j. unat ord \<le> j \<and> j \<le> max_order \<and> L j \<noteq> []")
  case True
  then obtain q L' s' where "hyp_alloc_pages cl s P flags ord = Some (hyp_page_to_virt s q, s')"
    "buddy_inv s' P a b L' (insert (q, unat ord) A)" "(q, unat ord) \<notin> A"
    "refcount (node (pages s') (Addr q)) = 1"
    "area (free_blocks L) = blk (q, unat ord) \<union> area (free_blocks L')"
    "mem s' = (if flags AND HYP_GFP_ZERO \<noteq> 0
       then cleared cl (hyp_page_to_virt s q) (2 ^ unat ord) (mem s) else mem s)"
    using hyp_alloc_pages_some [OF inv, of ord _ cl flags] by blast
  then show ?thesis using True alloc_area [OF inv] by (simp del: blk.simps) blast
next
  case False
  then show ?thesis using hyp_alloc_pages_none [OF inv] by auto
qed

theorem hyp_alloc_pages_spec_witness:
  "\<exists>s q s'. hyp_pool_init demo_hyp 0 (hyp_page_to_phys 2) 3 1 = Some (0, s) \<and>
    hyp_alloc_pages count_clear s 0 1 0 = Some (hyp_page_to_virt s q, s') \<and>
    q \<in> {3..<5} \<and> mem s' = mem s + 1"
proof -
  obtain s L where s: "hyp_pool_init demo_hyp 0 (hyp_page_to_phys 2) 3 1 = Some (0, s)"
    "buddy_inv s 0 2 5 L {}" "area (free_blocks L) = {3..<5}"
    using demo_pool by blast
  then have "\<exists>q L' s'. hyp_alloc_pages count_clear s 0 1 0 = Some (hyp_page_to_virt s q, s') \<and>
      q \<in> {3..<5} \<and> mem s' = mem s + 1"
    using hyp_alloc_pages_spec [OF s(2), of 0 count_clear 1] area_nonempty [of L]
    by (simp add: HYP_GFP_ZERO_def cleared_def count_clear_def) blast
  with s(1) show ?thesis by metis
qed

text \<open>
  C14. \<open>hyp_put_page\<close> on an allocated block drops one reference. The last reference frees the
  block: it leaves the allocated blocks, the free area grows by exactly its pages, and the
  free blocks are fully merged again (part of the invariant). Otherwise nothing but the
  reference count changes.
\<close>

theorem hyp_put_page_spec:
  assumes inv: "buddy_inv s P a b L A" "(q, i) \<in> A"
  shows "if refcount (node (pages s) (Addr q)) = 1
    then \<exists>s' L'. hyp_put_page s (hyp_page_to_virt s q) = Some s' \<and>
      buddy_inv s' P a b L' (A - {(q, i)}) \<and>
      area (free_blocks L') = area (free_blocks L) \<union> blk (q, i) \<and> mem s' = mem s
    else \<exists>s'. hyp_put_page s (hyp_page_to_virt s q) = Some s' \<and> buddy_inv s' P a b L A \<and>
      s' = put_refcount s q (refcount (node (pages s) (Addr q)) - 1)"
proof (cases "refcount (node (pages s) (Addr q)) = 1")
  case True
  then show ?thesis using hyp_put_page_free [OF inv] by (simp add: Un_commute del: blk.simps) blast
next
  case False
  then show ?thesis using hyp_put_page_drop [OF inv False] by simp
qed

theorem hyp_put_page_spec_witness:
  "\<exists>s q s' s'' L''. hyp_pool_init demo_hyp 0 (hyp_page_to_phys 2) 3 1 = Some (0, s) \<and>
    hyp_alloc_pages count_clear s 0 1 0 = Some (hyp_page_to_virt s q, s') \<and>
    hyp_put_page s' (hyp_page_to_virt s' q) = Some s'' \<and> buddy_inv s'' 0 2 5 L'' {} \<and>
    area (free_blocks L'') = {3..<5}"
proof -
  obtain s q s' L' where s: "hyp_pool_init demo_hyp 0 (hyp_page_to_phys 2) 3 1 = Some (0, s)"
    "hyp_alloc_pages count_clear s 0 1 0 = Some (hyp_page_to_virt s q, s')"
    "buddy_inv s' 0 2 5 L' {(q, 0)}" "refcount (node (pages s') (Addr q)) = 1" "q \<in> {3..<5}"
    "area (free_blocks L') = {3..<5} - {q}"
    using demo_alloc by blast
  have "\<exists>s'' L''. hyp_put_page s' (hyp_page_to_virt s' q) = Some s'' \<and> buddy_inv s'' 0 2 5 L'' {} \<and>
      area (free_blocks L'') = {3..<5}"
    using hyp_put_page_spec [OF s(3), of q 0] s(4-6) by (simp add: insert_absorb) blast
  with s(1,2) show ?thesis by blast
qed

text \<open>
  C3. A block that is allocated and then released leaves the pool as it was: the same free
  blocks of the same orders (not only the same free pages), whatever splits the allocation
  did. It rests on the uniqueness of the fully merged set of free blocks.
\<close>

theorem alloc_put_roundtrip:
  assumes inv: "buddy_inv s P a b L A"
    and al: "hyp_alloc_pages cl s P flags ord = Some (v, s')" and v: "v \<noteq> 0"
  shows "\<exists>s'' L''. hyp_put_page s' v = Some s'' \<and> buddy_inv s'' P a b L'' A \<and>
    free_blocks L'' = free_blocks L"
proof -
  have "\<exists>j. unat ord \<le> j \<and> j \<le> max_order \<and> L j \<noteq> []"
    using hyp_alloc_pages_none [OF inv, of ord cl flags] al v by auto
  then obtain j where j: "unat ord \<le> j" "j \<le> max_order" "L j \<noteq> []" by blast
  obtain q L' where q: "v = hyp_page_to_virt s q" "buddy_inv s' P a b L' (insert (q, unat ord) A)"
    "(q, unat ord) \<notin> A" "refcount (node (pages s') (Addr q)) = 1"
    "area (free_blocks L) = blk (q, unat ord) \<union> area (free_blocks L')"
    "hyp_physvirt_offset s' = hyp_physvirt_offset s"
    using hyp_alloc_pages_some [OF inv j, of cl flags] al by auto
  have v': "v = hyp_page_to_virt s' q" using q(1,6) by (simp add: hyp_page_to_virt_def hyp_phys_to_virt_def)
  obtain s'' L'' where p: "hyp_put_page s' v = Some s''" "buddy_inv s'' P a b L'' A"
    "area (free_blocks L'') = blk (q, unat ord) \<union> area (free_blocks L')"
    using hyp_put_page_free [OF q(2) _ q(4), of "unat ord"] q(3) v' by auto
  have "free_blocks L'' = free_blocks L"
    using coalesced_unique [of a b "free_blocks L''" "free_blocks L"] p(3) q(5)
      pool_wf_free [OF buddy_invD(1) [OF p(2)]] pool_wf_free [OF buddy_invD(1) [OF inv]]
      pool_okD(6) [OF buddy_invD(1) [OF p(2)]] pool_okD(6) [OF buddy_invD(1) [OF inv]] by simp
  with p show ?thesis by blast
qed

theorem alloc_put_roundtrip_witness:
  "\<exists>s v s' s'' L L''. hyp_pool_init demo_hyp 0 (hyp_page_to_phys 2) 3 1 = Some (0, s) \<and>
    hyp_alloc_pages count_clear s 0 1 0 = Some (v, s') \<and> hyp_put_page s' v = Some s'' \<and>
    buddy_inv s 0 2 5 L {} \<and> buddy_inv s'' 0 2 5 L'' {} \<and> free_blocks L'' = free_blocks L"
proof -
  obtain s L q s' where s: "hyp_pool_init demo_hyp 0 (hyp_page_to_phys 2) 3 1 = Some (0, s)"
    "buddy_inv s 0 2 5 L {}" "hyp_page_to_virt s q \<noteq> 0"
    "hyp_alloc_pages count_clear s 0 1 0 = Some (hyp_page_to_virt s q, s')"
    using demo_alloc by blast
  show ?thesis using alloc_put_roundtrip [OF s(2,4,3)] s by metis
qed

text \<open>
  C16. Releasing a page that has no references (a double free) always ends in the panic, and
  taking a reference and dropping it again gives the same state back, unless the reference
  count overflows: at \<open>UINT_MAX\<close> references \<open>hyp_get_page\<close> wraps the count to 0 and the
  release panics although the page is in use.
\<close>

theorem put_page_errors:
  assumes inv: "buddy_inv s P a b L A" and q: "q \<in> {a..<b}"
  shows "(q \<notin> fst ` A \<longrightarrow> hyp_put_page s (hyp_page_to_virt s q) = None) \<and>
    (q \<in> fst ` A \<longrightarrow>
      do { s' \<leftarrow> hyp_get_page s (hyp_page_to_virt s q); hyp_put_page s' (hyp_page_to_virt s q) } =
      (if refcount (node (pages s) (Addr q)) = - 1 then None else Some s))"
proof -
  note D = buddy_invD [OF inv]
  have lim: "q < pfn_limit" using pool_okD(1) [OF D(1)] q by (auto simp: pool_static_def)
  obtain pg where pg: "pages s q = Some pg" "pg_pool pg = Addr P"
    using pool_okD(1) [OF D(1)] q unfolding pool_static_def by blast
  have r: "refcount pg \<noteq> 0 \<longleftrightarrow> q \<in> fst ` A" using alloc_okD [OF D(2) q] pg by simp
  let ?v = "hyp_page_to_virt s q" and ?g = "put_refcount s q (refcount pg + 1)"
  have g: "hyp_get_page s ?v = Some ?g"
    using get_under_lock [OF D(3) virt_to_page_to_virt [OF lim refl] pg] .
  have restored: "put_refcount ?g q (refcount pg) = s"
    using pg(1) by (auto simp: put_refcount_def upd_def fun_upd_idem)
  have "hyp_put_page ?g ?v = (if refcount pg + 1 = 0 then None else Some s)" if "q \<in> fst ` A"
  proof -
    have u: "unlocked ?g P" using D(3) by (simp add: unlocked_def)
    have "hyp_spin_unlock (put_refcount (locked_state ?g P) q (refcount pg)) P = Some s"
      using hyp_spin_unlock_eq [OF u, of "put_refcount (locked_state ?g P) q (refcount pg)"] restored
      by (simp add: put_refcount_def locked_state_def)
    moreover have "refcount pg + 1 \<noteq> 1" using r that by simp
    ultimately show ?thesis
      using put_under_lock [OF u virt_to_page_to_virt [OF lim], of s] pg by (simp add: pages_put)
  qed
  moreover have "hyp_put_page s ?v = None" if "q \<notin> fst ` A"
    using put_under_lock [OF D(3) virt_to_page_to_virt [OF lim refl] pg] r that by simp
  moreover have "refcount pg + 1 = 0 \<longleftrightarrow> refcount pg = - 1" by (rule eq_neg_iff_add_eq_0 [symmetric])
  ultimately show ?thesis using g pg by simp
qed

theorem put_page_errors_witness:
  "\<exists>s. hyp_pool_init demo_hyp 0 (hyp_page_to_phys 2) 3 1 = Some (0, s) \<and>
    hyp_put_page s (hyp_page_to_virt s 2) = None"
proof -
  obtain s L where s: "hyp_pool_init demo_hyp 0 (hyp_page_to_phys 2) 3 1 = Some (0, s)"
    "buddy_inv s 0 2 5 L {}" using demo_pool by blast
  then show ?thesis using put_page_errors [OF s(2), of 2] by simp
qed

lemma hyp_pool_init_unaligned:
  "phys mod word_of_nat PAGE_SIZE \<noteq> 0 \<Longrightarrow> hyp_pool_init s P phys nr used = Some (- EINVAL, s)"
  by (simp add: hyp_pool_init_def)

text \<open>
  The size \<open>nr_pages << PAGE_SHIFT\<close> is computed on 32 bits: a pool of \<open>2 ^ 20\<close> pages (4 GiB)
  is initialised with success, and its range is empty.
\<close>

lemma hyp_pool_init_truncates:
  assumes "backed s P a (a + 2 ^ 20)" "a + 2 ^ 20 < pfn_limit"
  shows "\<exists>s' pl. hyp_pool_init s P (hyp_page_to_phys a) (2 ^ 20) (2 ^ 20) = Some (0, s') \<and>
    pools s' P = Some pl \<and> range_start pl = hyp_page_to_phys a \<and> range_end pl = hyp_page_to_phys a"
proof -
  let ?b = "a + 2 ^ 20"
  obtain pl where pl: "pools s P = Some pl" using assms(1) by (auto simp: backed_def)
  let ?l = "pl\<lparr>pl_lock := \<lparr>lock = False\<rparr>\<rparr>"
  let ?r = "?l\<lparr>range_start := hyp_page_to_phys a, range_end := hyp_page_to_phys a\<rparr>"
  let ?s1 = "s\<lparr>pools := (pools s)(P \<mapsto> ?l)\<rparr>" and ?s2 = "s\<lparr>pools := (pools s)(P \<mapsto> ?r)\<rparr>"
  have b: "backed ?s1 P a ?b" "backed ?s2 P a ?b" using assms(1) by (simp_all add: backed_def)
  obtain t1 where t1: "c_for [0..<12] (init_area P) ?s1 = Some t1" "initialised ?s1 t1 P {..max_order} {} {}"
    using init_areas [OF b(1)] by blast
  let ?t1 = "t1\<lparr>pools := (pools s)(P \<mapsto> ?r)\<rparr>"
  have "initialised ?s2 ?t1 P {..max_order} {} {}" using t1(2) by (simp add: initialised_def)
  then obtain t2 where t2: "do { t \<leftarrow> c_for [a..<?b] memset_page ?t1; c_for [a..<?b] (init_page P) t } = Some t2"
    "initialised ?s2 t2 P {..max_order} {a..<?b} {a..<?b}" using init_pages [OF b(2)] by blast
  have p1: "modify (pools t1) (Addr P) (\<lambda>pl. pl\<lparr>range_start := hyp_page_to_phys a,
      range_end := hyp_page_to_phys a\<rparr>) = Some ((pools s)(P \<mapsto> ?r))"
    using t1(2) by (simp add: modify_def initialised_def)
  have n: "unat (2 ^ 20 :: u32) = 2 ^ 20" by simp
  have z: "ucast (push_bit PAGE_SHIFT (2 ^ 20 :: u32)) = (0 :: u64)" by (simp add: PAGE_SHIFT_def push_bit_eq_mult)
  have pa: "hyp_phys_to_page (hyp_page_to_phys a) = a" using assms(2) by (auto intro!: phys_to_page_to_phys)
  have "hyp_pool_init s P (hyp_page_to_phys a) (2 ^ 20) (2 ^ 20) = Some (0, t2)"
    unfolding hyp_pool_init_def n z pa using t1(1) t2(1) p1 pl
    by (auto simp: page_to_phys_aligned pa modify_def sl_init_def spinlock_upd Let_def
        init_area_def [abs_def] bind_eq_Some_conv simp del: upt.simps)
  moreover have "pools t2 P = Some ?r" using t2(2) by (simp add: initialised_def)
  ultimately show ?thesis by (intro exI [of _ t2] exI [of _ ?r]) simp
qed

text \<open>
  C15. \<open>hyp_pool_init\<close> refuses an unaligned address and leaves the state as it is. Given an
  aligned one, fewer than \<open>2 ^ 20\<close> pages of which at most all are used, below the last
  page frame number, and descriptors that exist, it terminates without a fault and
  makes a pool in which every page after the first \<open>used_pages\<close> is free, merged
  into maximal blocks, and no page is allocated. The bound is needed: with \<open>2 ^ 20\<close> pages, all
  in use, it returns 0 as well, but with an empty range of physical addresses.
\<close>

theorem hyp_pool_init_spec:
  assumes "backed s P a (a + unat nr)" "a + unat nr < pfn_limit" "unat nr < 2 ^ 20"
    and "unat used \<le> unat nr"
  shows "(\<forall>phys. phys mod word_of_nat PAGE_SIZE \<noteq> 0 \<longrightarrow>
      hyp_pool_init s P phys nr used = Some (- EINVAL, s)) \<and>
    (\<exists>s' L. hyp_pool_init s P (hyp_page_to_phys a) nr used = Some (0, s') \<and>
      buddy_inv s' P a (a + unat nr) L {} \<and> area (free_blocks L) = {a + unat used..<a + unat nr}) \<and>
    (backed s P a (a + 2 ^ 20) \<and> a + 2 ^ 20 < pfn_limit \<longrightarrow>
      (\<exists>s' pl. hyp_pool_init s P (hyp_page_to_phys a) (2 ^ 20) (2 ^ 20) = Some (0, s') \<and>
        pools s' P = Some pl \<and> range_start pl = hyp_page_to_phys a \<and> range_end pl = hyp_page_to_phys a))"
  using hyp_pool_init_ok [OF assms] hyp_pool_init_unaligned hyp_pool_init_truncates [of s P a] by blast

theorem hyp_pool_init_spec_witness:
  "hyp_pool_init demo_hyp 0 8193 3 1 = Some (- EINVAL, demo_hyp) \<and>
   (\<exists>s L. hyp_pool_init demo_hyp 0 (hyp_page_to_phys 2) 3 1 = Some (0, s) \<and>
     buddy_inv s 0 2 5 L {} \<and> area (free_blocks L) = {3..<5}) \<and>
   (\<exists>s' pl. hyp_pool_init demo_hyp 0 (hyp_page_to_phys 2) (2 ^ 20) (2 ^ 20) = Some (0, s') \<and>
     pools s' 0 = Some pl \<and> range_end pl = range_start pl)"
proof -
  have l: "2 + unat (3 :: u32) < pfn_limit" "unat (3 :: u32) < 2 ^ 20" "unat (1 :: u32) \<le> unat (3 :: u32)" "2 + 2 ^ 20 < pfn_limit"
    by (simp_all add: pfn_limit_def)
  note t = hyp_pool_init_spec [OF demo_backed, of 2 3 1 0, OF l(1-3)]
  have "8193 mod word_of_nat PAGE_SIZE \<noteq> (0 :: u64)" by (simp add: PAGE_SIZE_def)
  with t have "hyp_pool_init demo_hyp 0 8193 3 1 = Some (- EINVAL, demo_hyp)" by blast
  moreover from t have "\<exists>s L. hyp_pool_init demo_hyp 0 (hyp_page_to_phys 2) 3 1 = Some (0, s) \<and>
     buddy_inv s 0 2 5 L {} \<and> area (free_blocks L) = {3..<5}" by simp
  moreover from t l(4) demo_backed [of 0 2 "2 + 2 ^ 20"]
  have "\<exists>s' pl. hyp_pool_init demo_hyp 0 (hyp_page_to_phys 2) (2 ^ 20) (2 ^ 20) = Some (0, s') \<and>
     pools s' 0 = Some pl \<and> range_end pl = range_start pl" by force
  ultimately show ?thesis by blast
qed

section \<open>Clients of a pool\<close>

text \<open>
  A client of a pool: \<open>H\<close> are the blocks it holds. It allocates (and may fail to), takes and
  drops references, and releases what it holds.
\<close>

inductive client ::
  "(u64 \<Rightarrow> 'm \<Rightarrow> 'm) \<Rightarrow> nat \<Rightarrow> 'm hyp \<times> block set \<Rightarrow> 'm hyp \<times> block set \<Rightarrow> bool" for cl P where
  alloc: "hyp_alloc_pages cl s P flags ord = Some (v, s') \<Longrightarrow> v \<noteq> 0 \<Longrightarrow>
     client cl P (s, H) (s', insert (hyp_virt_to_page s v, unat ord) H)"
| fail: "hyp_alloc_pages cl s P flags ord = Some (0, s') \<Longrightarrow> client cl P (s, H) (s', H)"
| get: "(q, i) \<in> H \<Longrightarrow> refcount (node (pages s) (Addr q)) \<noteq> - 1 \<Longrightarrow>
     hyp_get_page s (hyp_page_to_virt s q) = Some s' \<Longrightarrow> client cl P (s, H) (s', H)"
| drop: "(q, i) \<in> H \<Longrightarrow> refcount (node (pages s) (Addr q)) \<noteq> 1 \<Longrightarrow>
     hyp_put_page s (hyp_page_to_virt s q) = Some s' \<Longrightarrow> client cl P (s, H) (s', H)"
| release: "(q, i) \<in> H \<Longrightarrow> refcount (node (pages s) (Addr q)) = 1 \<Longrightarrow>
     hyp_put_page s (hyp_page_to_virt s q) = Some s' \<Longrightarrow> client cl P (s, H) (s', H - {(q, i)})"

text \<open>
  What holds between the client's steps: the pool's invariant with the blocks of the client
  as the allocated ones, and every managed page either free or in a block of the client.
\<close>

definition client_inv :: "nat \<Rightarrow> nat \<Rightarrow> nat \<Rightarrow> nat \<Rightarrow> u64 \<Rightarrow> 'm hyp \<times> block set \<Rightarrow> bool" where
  "client_inv P a b c off x \<longleftrightarrow>
     (\<exists>L. buddy_inv (fst x) P a b L (snd x) \<and>
       area (free_blocks L) \<union> area (snd x) = {c..<b}) \<and>
     hyp_physvirt_offset (fst x) = off"

definition null_free :: "nat \<Rightarrow> nat \<Rightarrow> u64 \<Rightarrow> bool" where
  "null_free a b off \<longleftrightarrow> (\<forall>q\<in>{a..<b}. hyp_page_to_phys q \<noteq> off)"

lemma client_alloc_inv:
  assumes inv: "client_inv P a b c off (s, H)" and nf: "null_free a b off"
    and al: "hyp_alloc_pages cl s P flags ord = Some (v, s')"
  shows "if v = 0 then client_inv P a b c off (s', H)
    else client_inv P a b c off (s', insert (hyp_virt_to_page s v, unat ord) H)"
proof -
  obtain L where L: "buddy_inv s P a b L H" "area (free_blocks L) \<union> area H = {c..<b}"
    "hyp_physvirt_offset s = off" using inv by (auto simp: client_inv_def)
  show ?thesis
  proof (cases "\<exists>j. unat ord \<le> j \<and> j \<le> max_order \<and> L j \<noteq> []")
    case True
    then obtain j where j: "unat ord \<le> j" "j \<le> max_order" "L j \<noteq> []" by blast
    obtain q L' where q: "v = hyp_page_to_virt s q" "buddy_inv s' P a b L' (insert (q, unat ord) H)"
      "area (free_blocks L) = blk (q, unat ord) \<union> area (free_blocks L')"
      "hyp_physvirt_offset s' = hyp_physvirt_offset s"
      using hyp_alloc_pages_some [OF L(1) j, of cl flags] al by auto
    have b: "q \<in> {a..<b}" "q < pfn_limit" using buddy_inv_block [OF q(2), of q "unat ord"] by auto
    then have "v \<noteq> 0" using nf L(3) q(1) by (simp add: null_free_def hyp_page_to_virt_def hyp_phys_to_virt_def)
    moreover have "hyp_virt_to_page s v = q" using virt_to_page_to_virt [OF b(2) refl] q(1) by simp
    moreover have "area (free_blocks L') \<union> area (insert (q, unat ord) H) = {c..<b}"
      using q(3) L(2) by (simp add: Un_ac del: blk.simps)
    ultimately show ?thesis using q(2,4) L(3) by (auto simp: client_inv_def)
  next
    case False
    then have "hyp_alloc_pages cl s P flags ord = Some (0, s)"
      using hyp_alloc_pages_none [OF L(1)] by blast
    with al inv show ?thesis by simp
  qed
qed

lemma client_step_inv:
  assumes "client cl P x y" "client_inv P a b c off x" "null_free a b off"
  shows "client_inv P a b c off y"
  using assms
proof (induction rule: client.induct)
  case (alloc s flags ord v s' H)
  then show ?case using client_alloc_inv [of P a b c off s H cl flags ord v s'] by simp
next
  case (fail s flags ord s' H)
  then show ?case using client_alloc_inv [of P a b c off s H cl flags ord 0 s'] by simp
next
  case (get q i H s s')
  then obtain L where "buddy_inv s P a b L H" "area (free_blocks L) \<union> area H = {c..<b}"
    "hyp_physvirt_offset s = off" by (auto simp: client_inv_def)
  with get hyp_get_page_ok [of s P a b L H q i] show ?case by (auto simp: client_inv_def)
next
  case (drop q i H s s')
  then obtain L where "buddy_inv s P a b L H" "area (free_blocks L) \<union> area H = {c..<b}"
    "hyp_physvirt_offset s = off" by (auto simp: client_inv_def)
  with drop hyp_put_page_drop [of s P a b L H q i] show ?case by (auto simp: client_inv_def)
next
  case (release q i H s s')
  then obtain L where L: "buddy_inv s P a b L H" "area (free_blocks L) \<union> area H = {c..<b}"
    "hyp_physvirt_offset s = off" by (auto simp: client_inv_def)
  obtain L' where L': "buddy_inv s' P a b L' (H - {(q, i)})"
    "area (free_blocks L') = blk (q, i) \<union> area (free_blocks L)"
    "hyp_physvirt_offset s' = off"
    using hyp_put_page_free [OF L(1) release(1,2)] release(3) L(3) by auto
  have "area H = blk (q, i) \<union> area (H - {(q, i)})"
    using release(1) area_insert [of "(q, i)" "H - {(q, i)}"] by (simp add: insert_absorb del: blk.simps)
  then have "area (free_blocks L') \<union> area (H - {(q, i)}) = {c..<b}"
    using L(2) L'(2) by (simp add: Un_ac del: blk.simps)
  with L'(1,3) show ?case by (auto simp: client_inv_def)
qed

text \<open>
  C1. Whatever a client does with a pool of fewer than \<open>2 ^ 20\<close> pages, none of them at the virtual
  address 0, from its initialisation on, the blocks it holds are pairwise disjoint and lie within the managed pages, no managed page is ever lost (each is
  free or in a block of the client), the pool stays well formed, and a request for one page
  succeeds, with a page the client does not hold, as long as the client does not hold all.
\<close>

theorem client_safety:
  assumes "backed s0 P a (a + unat nr)" "a + unat nr < pfn_limit" "unat nr < 2 ^ 20" "unat used \<le> unat nr"
    and "null_free a (a + unat nr) (hyp_physvirt_offset s0)"
    and "hyp_pool_init s0 P (hyp_page_to_phys a) nr used = Some (0, s1)"
    and "(client cl P)\<^sup>*\<^sup>* (s1, {}) (s, H)"
  shows "wf_blocks a (a + unat nr) H \<and>
    (\<exists>L. buddy_inv s P a (a + unat nr) L H \<and>
      area (free_blocks L) \<union> area H = {a + unat used..<a + unat nr}) \<and>
    (area H \<noteq> {a + unat used..<a + unat nr} \<longrightarrow>
      (\<exists>q s'. hyp_alloc_pages cl s P flags 0 = Some (hyp_page_to_virt s q, s') \<and>
        q \<in> {a + unat used..<a + unat nr} - area H))"
proof -
  let ?b = "a + unat nr" and ?c = "a + unat used" and ?off = "hyp_physvirt_offset s0"
  obtain L0 where "buddy_inv s1 P a ?b L0 {}" "area (free_blocks L0) = {?c..<?b}" "hyp_physvirt_offset s1 = ?off"
    using hyp_pool_init_ok [OF assms(1-4)] assms(6) by auto
  then have "client_inv P a ?b ?c ?off (s1, {})" by (auto simp: client_inv_def)
  with assms(7) have "client_inv P a ?b ?c ?off (s, H)"
    by (induction rule: rtranclp_induct) (auto intro: client_step_inv [OF _ _ assms(5)])
  then obtain L where L: "buddy_inv s P a ?b L H" "area (free_blocks L) \<union> area H = {?c..<?b}"
    by (auto simp: client_inv_def)
  have "\<exists>q s'. hyp_alloc_pages cl s P flags 0 = Some (hyp_page_to_virt s q, s') \<and> q \<in> {?c..<?b} - area H"
    if "area H \<noteq> {?c..<?b}"
  proof -
    have "area (free_blocks L) \<noteq> {}" using L(2) that by auto
    then obtain j where j: "unat (0 :: u32) \<le> j" "j \<le> max_order" "L j \<noteq> []" using area_nonempty by blast
    obtain q L' s' where q: "hyp_alloc_pages cl s P flags 0 = Some (hyp_page_to_virt s q, s')"
      "buddy_inv s' P a ?b L' (insert (q, unat (0 :: u32)) H)" "(q, unat (0 :: u32)) \<notin> H"
      "area (free_blocks L) = blk (q, unat (0 :: u32)) \<union> area (free_blocks L')"
      using hyp_alloc_pages_some [OF L(1) j, of cl flags] by blast
    then have "q \<in> {?c..<?b} - area H" using alloc_area [OF L(1) q(2-4)] L(2) by auto
    with q(1) show ?thesis by blast
  qed
  with L pool_wf_used [OF buddy_invD(1) [OF L(1)]] show ?thesis by blast
qed

theorem client_safety_witness:
  "\<exists>s q s'. hyp_pool_init demo_hyp 0 (hyp_page_to_phys 2) 3 1 = Some (0, s) \<and>
    hyp_alloc_pages count_clear s 0 0 0 = Some (hyp_page_to_virt s q, s') \<and> q \<in> {3..<5}"
proof -
  have b: "backed demo_hyp 0 2 (2 + unat (3 :: u32))" "2 + unat (3 :: u32) < pfn_limit"
    by (auto simp: demo_backed pfn_limit_def)
  obtain s where s: "hyp_pool_init demo_hyp 0 (hyp_page_to_phys 2) 3 1 = Some (0, s)"
    using demo_pool by blast
  have "{2..<5} = {2, 3, 4 :: nat}" by auto
  then have n: "null_free 2 (2 + unat (3 :: u32)) (hyp_physvirt_offset demo_hyp)"
    by (simp add: null_free_def demo_hyp_def hyp_page_to_phys_def PAGE_SHIFT_def push_bit_eq_mult)
  have "\<exists>q s'. hyp_alloc_pages count_clear s 0 0 0 = Some (hyp_page_to_virt s q, s') \<and> q \<in> {3..<5}"
    using client_safety [OF b _ _ n s, of count_clear s "{}" 0] by simp
  with s show ?thesis by blast
qed

end
