(* ===== verification/Ticket_Lock.thy ===== *)
theory Ticket_Lock
  imports Prelude
begin

text \<open>
  The ticket lock of the pKVM hypervisor, \<open>src/linux/pkvm/spinlock.c\<close>, with its reset of the
  tickets. Every access to the atomic fields is one step; the program counter of a thread
  says between which accesses it is, and holds its local variables. Any number of threads
  run in any interleaving; the accesses are sequentially consistent.
\<close>

section \<open>The lock\<close>

record hyp_spinlock =
  owner :: u16
  next_ticket :: u16

definition NO_TICKET :: u16 where "NO_TICKET = 65535"
definition LAST_TICKET :: u16 where "LAST_TICKET = 65534"

definition hyp_spin_lock_init :: "hyp_spinlock \<Rightarrow> hyp_spinlock" where
  "hyp_spin_lock_init l = l\<lparr>owner := 0, next_ticket := 0\<rparr>"

text \<open>
  \<open>Taking\<close>: in \<open>hyp_spin_lock\<close>, before the read \<open>ticket = lock->next\<close>; \<open>Exchanging\<close>: it has
  read its \<open>ticket\<close>, before the compare and exchange; \<open>Waiting\<close>: it has the ticket, before
  the test \<open>lock->owner != ticket\<close>; \<open>Critical\<close>: it has the lock; \<open>Unlocking\<close>: in
  \<open>hyp_spin_unlock\<close>, after the read \<open>ticket = lock->owner\<close>; \<open>Resetting\<close>: after the write
  \<open>lock->owner = 0\<close>, before \<open>lock->next = 0\<close>.
\<close>

datatype pc =
  Idle | Taking | Exchanging u16 | Waiting u16 | Critical | Unlocking u16 | Resetting

text \<open>One step of \<open>hyp_spin_lock\<close>.\<close>

fun hyp_spin_lock_step :: "hyp_spinlock \<Rightarrow> pc \<Rightarrow> hyp_spinlock \<times> pc" where
  "hyp_spin_lock_step l Idle = (l, Taking)"
| "hyp_spin_lock_step l Taking =
     (if next_ticket l = NO_TICKET then (l, Taking) else (l, Exchanging (next_ticket l)))"
| "hyp_spin_lock_step l (Exchanging t) =
     (if next_ticket l = t then (l\<lparr>next_ticket := t + 1\<rparr>, Waiting t) else (l, Taking))"
| "hyp_spin_lock_step l (Waiting t) = (if owner l \<noteq> t then (l, Waiting t) else (l, Critical))"
| "hyp_spin_lock_step l p = (l, p)"

text \<open>One step of \<open>hyp_spin_unlock\<close>.\<close>

fun hyp_spin_unlock_step :: "hyp_spinlock \<Rightarrow> pc \<Rightarrow> hyp_spinlock \<times> pc" where
  "hyp_spin_unlock_step l Critical = (l, Unlocking (owner l))"
| "hyp_spin_unlock_step l (Unlocking t) =
     (if t = LAST_TICKET then (l\<lparr>owner := 0\<rparr>, Resetting) else (l\<lparr>owner := t + 1\<rparr>, Idle))"
| "hyp_spin_unlock_step l Resetting = (l\<lparr>next_ticket := 0\<rparr>, Idle)"
| "hyp_spin_unlock_step l p = (l, p)"

text \<open>A thread locks, and then unlocks, again and again.\<close>

fun thread_step :: "hyp_spinlock \<Rightarrow> pc \<Rightarrow> hyp_spinlock \<times> pc" where
  "thread_step l p =
     (case p of
        Critical \<Rightarrow> hyp_spin_unlock_step l p
      | Unlocking t \<Rightarrow> hyp_spin_unlock_step l p
      | Resetting \<Rightarrow> hyp_spin_unlock_step l p
      | _ \<Rightarrow> hyp_spin_lock_step l p)"

record tstate =
  tlock :: hyp_spinlock
  pcs :: "nat \<Rightarrow> pc"

definition step_of :: "nat \<Rightarrow> tstate \<Rightarrow> tstate" where
  "step_of t s = (case thread_step (tlock s) (pcs s t) of (l, p) \<Rightarrow> s\<lparr>tlock := l, pcs := (pcs s)(t := p)\<rparr>)"

inductive treach :: "nat \<Rightarrow> tstate \<Rightarrow> bool" for n where
  init: "treach n \<lparr>tlock = hyp_spin_lock_init l, pcs = (\<lambda>_. Idle)\<rparr>"
| step: "treach n s \<Longrightarrow> t < n \<Longrightarrow> treach n (step_of t s)"

section \<open>The invariant\<close>

fun ticket :: "hyp_spinlock \<Rightarrow> pc \<Rightarrow> nat option" where
  "ticket l (Waiting t) = Some (unat t)"
| "ticket l Critical = Some (unat (owner l))"
| "ticket l (Unlocking t) = Some (unat t)"
| "ticket l _ = None"

fun pc_ok :: "hyp_spinlock \<Rightarrow> pc \<Rightarrow> bool" where
  "pc_ok l (Exchanging t) = (t \<noteq> NO_TICKET)"
| "pc_ok l (Unlocking t) = (t = owner l)"
| "pc_ok l _ = True"

text \<open>
  Without a reset under way, the tickets held are the numbers from \<open>owner\<close> below \<open>next\<close>, each
  held once. During a reset no ticket is held and no ticket can be taken.
\<close>

definition tinv :: "nat \<Rightarrow> hyp_spinlock \<Rightarrow> (nat \<Rightarrow> pc) \<Rightarrow> bool" where
  "tinv n l ps \<longleftrightarrow>
     (\<forall>t. pc_ok l (ps t)) \<and> (\<forall>t. n \<le> t \<longrightarrow> ps t = Idle) \<and>
     unat (owner l) \<le> unat LAST_TICKET \<and>
     (\<forall>t u k. ticket l (ps t) = Some k \<and> ticket l (ps u) = Some k \<longrightarrow> t = u) \<and>
     (if \<exists>t. ps t = Resetting
      then owner l = 0 \<and> next_ticket l = NO_TICKET \<and> (\<forall>t. ticket l (ps t) = None) \<and>
        (\<forall>t u. ps t = Resetting \<and> ps u = Resetting \<longrightarrow> t = u)
      else unat (owner l) \<le> unat (next_ticket l) \<and>
        (\<forall>k. (\<exists>t. ticket l (ps t) = Some k) \<longleftrightarrow> unat (owner l) \<le> k \<and> k < unat (next_ticket l)))"

lemma tinv_normalI:
  assumes "\<And>u. pc_ok l (ps u)" "\<And>u. n \<le> u \<Longrightarrow> ps u = Idle" "unat (owner l) \<le> unat LAST_TICKET"
    "\<And>t u k. ticket l (ps t) = Some k \<Longrightarrow> ticket l (ps u) = Some k \<Longrightarrow> t = u"
    "\<And>u. ps u \<noteq> Resetting" "unat (owner l) \<le> unat (next_ticket l)"
    "\<And>k. (\<exists>t. ticket l (ps t) = Some k) \<longleftrightarrow> unat (owner l) \<le> k \<and> k < unat (next_ticket l)"
  shows "tinv n l ps"
  unfolding tinv_def using assms by presburger

lemma tinv_resetI:
  assumes "\<And>u. pc_ok l (ps u)" "\<And>u. n \<le> u \<Longrightarrow> ps u = Idle" "owner l = 0" "next_ticket l = NO_TICKET"
    "\<And>t. ticket l (ps t) = None" "ps t = Resetting" "\<And>u. ps u = Resetting \<Longrightarrow> u = t"
  shows "tinv n l ps"
proof -
  have "\<exists>t. ps t = Resetting" using assms(6) by blast
  moreover have "t' = u" if "ps t' = Resetting" "ps u = Resetting" for t' u
    using assms(7) that by blast
  ultimately show ?thesis using assms(1-5) unfolding tinv_def by simp
qed

lemma tinvD:
  assumes "tinv n l ps"
  shows "pc_ok l (ps t)" "n \<le> t \<Longrightarrow> ps t = Idle" "unat (owner l) \<le> unat LAST_TICKET"
    "ticket l (ps t) = Some k \<Longrightarrow> ticket l (ps u) = Some k \<Longrightarrow> t = u"
  using assms unfolding tinv_def by blast+

lemma tinv_reset:
  assumes "tinv n l ps" "ps t = Resetting"
  shows "owner l = 0" "next_ticket l = NO_TICKET" "ticket l (ps u) = None" "ps u = Resetting \<Longrightarrow> u = t"
proof -
  have "\<exists>t. ps t = Resetting" using assms(2) by blast
  with assms show "owner l = 0" "next_ticket l = NO_TICKET" "ticket l (ps u) = None" "ps u = Resetting \<Longrightarrow> u = t"
    unfolding tinv_def by simp_all
qed

lemma tinv_normal:
  assumes "tinv n l ps" "\<And>u. ps u \<noteq> Resetting"
  shows "unat (owner l) \<le> unat (next_ticket l)"
    "(\<exists>t. ticket l (ps t) = Some k) \<longleftrightarrow> unat (owner l) \<le> k \<and> k < unat (next_ticket l)"
  using assms unfolding tinv_def by simp_all

lemma tinv_holder:
  assumes "tinv n l ps" "ticket l (ps t) = Some k"
  shows "ps u \<noteq> Resetting" "unat (owner l) \<le> k" "k < unat (next_ticket l)"
proof -
  show r: "ps u \<noteq> Resetting" for u using tinv_reset(3) [OF assms(1), of u t] assms(2) by auto
  show "unat (owner l) \<le> k" "k < unat (next_ticket l)"
    using tinv_normal(2) [OF assms(1) r, of k] assms(2) by blast+
qed

text \<open>A step that changes neither the lock nor the ticket of the thread.\<close>

lemma tinv_local:
  assumes inv: "tinv n l ps" and t: "t < n" and p: "pc_ok l p" "p \<noteq> Resetting" "ps t \<noteq> Resetting"
    "ticket l p = ticket l (ps t)"
  shows "tinv n l (ps(t := p))"
proof -
  have tk: "ticket l ((ps(t := p)) u) = ticket l (ps u)" for u using p(4) by simp
  have rs: "(ps(t := p)) u = Resetting \<longleftrightarrow> ps u = Resetting" for u using p(2,3) by simp
  have "pc_ok l ((ps(t := p)) u)" for u using p(1) tinvD(1) [OF inv] by simp
  moreover have "(ps(t := p)) u = Idle" if "n \<le> u" for u using t tinvD(2) [OF inv that] that by auto
  ultimately show ?thesis using inv unfolding tinv_def tk rs by blast
qed

lemma LAST_NO: "unat LAST_TICKET = 65534" "unat NO_TICKET = 65535"
  by (simp_all add: LAST_TICKET_def NO_TICKET_def)

lemma unat_u16_le: "unat (t :: u16) \<le> 65535"
proof -
  have "unat t < 2 ^ LENGTH(16)" by (rule unsigned_less)
  then show ?thesis by simp
qed

lemma unat_u16_Suc: "t \<noteq> NO_TICKET \<Longrightarrow> unat (t + 1) = Suc (unat (t :: u16))"
proof -
  assume "t \<noteq> NO_TICKET"
  then have "unat t \<noteq> 65535" using LAST_NO(2) word_unat_eq_iff by metis
  with unat_u16_le [of t] show ?thesis by (simp add: unat_word_ariths)
qed

lemma ticket_next_upd [simp]: "ticket (l\<lparr>next_ticket := k\<rparr>) p = ticket l p"
  by (cases p) auto

lemma pc_ok_next_upd [simp]: "pc_ok (l\<lparr>next_ticket := k\<rparr>) p = pc_ok l p"
  by (cases p) auto

lemma tinv_take:
  assumes inv: "tinv n l ps" and t: "t < n" "ps t = Exchanging k" and k: "next_ticket l = k"
  shows "tinv n (l\<lparr>next_ticket := k + 1\<rparr>) (ps(t := Waiting k))"
proof -
  let ?p = "ps(t := Waiting k)"
  have kn: "k \<noteq> NO_TICKET" using tinvD(1) [OF inv, of t] t(2) by simp
  then have nr: "ps u \<noteq> Resetting" for u using tinv_reset(2) [OF inv, of u] k by auto
  note N = tinv_normal [OF inv nr] and S = unat_u16_Suc [OF kn]
  have no: "ticket l (ps u) \<noteq> Some (unat k)" for u using tinv_holder(3) [OF inv, of u "unat k"] k by auto
  have tk: "ticket l (?p u) = Some m \<longleftrightarrow> u = t \<and> m = unat k \<or> ticket l (ps u) = Some m" for u m
    using t(2) by auto
  have ex: "(\<exists>u. ticket l (?p u) = Some m) \<longleftrightarrow> unat (owner l) \<le> m \<and> m < Suc (unat k)" for m
    unfolding tk using N(1) N(2) [of m] k by auto
  let ?l = "l\<lparr>next_ticket := k + 1\<rparr>"
  show ?thesis
  proof (rule tinv_normalI)
    show "pc_ok ?l (?p u)" for u using tinvD(1) [OF inv, of u] by simp
    show "?p u = Idle" if "n \<le> u" for u using t(1) that tinvD(2) [OF inv that] by auto
    show "unat (owner ?l) \<le> unat LAST_TICKET" using tinvD(3) [OF inv] by simp
    show "t' = u" if "ticket ?l (?p t') = Some m" "ticket ?l (?p u) = Some m" for t' u m
      using that no tinvD(4) [OF inv, of t' m u] unfolding ticket_next_upd tk by auto
    show "?p u \<noteq> Resetting" for u using nr by simp
    show "unat (owner ?l) \<le> unat (next_ticket ?l)" using N(1) k S by simp
    show "(\<exists>u. ticket ?l (?p u) = Some m) \<longleftrightarrow> unat (owner ?l) \<le> m \<and> m < unat (next_ticket ?l)" for m
      using ex S by simp
  qed
qed

text \<open>The owner is the only thread whose ticket is \<open>owner\<close>; no other thread is critical.\<close>

lemma tinv_owner_unique:
  assumes inv: "tinv n l ps" and t: "ps t = Unlocking k" and u: "u \<noteq> t"
  shows "ticket l (ps u) \<noteq> Some (unat (owner l))" "ps u \<noteq> Critical" "\<And>m. ps u \<noteq> Unlocking m"
proof -
  have k: "ticket l (ps t) = Some (unat (owner l))" using tinvD(1) [OF inv, of t] t by simp
  show "ticket l (ps u) \<noteq> Some (unat (owner l))" using tinvD(4) [OF inv k, of u] u by auto
  then show "ps u \<noteq> Critical" by auto
  show "ps u \<noteq> Unlocking m" for m
    using \<open>ticket l (ps u) \<noteq> Some (unat (owner l))\<close> tinvD(1) [OF inv, of u] by auto
qed

lemma ticket_owner_upd:
  "p \<noteq> Critical \<Longrightarrow> ticket (l\<lparr>owner := k\<rparr>) p = ticket l p"
  by (cases p) auto

lemma tinv_pass:
  assumes inv: "tinv n l ps" and t: "t < n" "ps t = Unlocking k" and k: "k \<noteq> LAST_TICKET"
  shows "tinv n (l\<lparr>owner := k + 1\<rparr>) (ps(t := Idle))"
proof -
  let ?p = "ps(t := Idle)" and ?l = "l\<lparr>owner := k + 1\<rparr>"
  have ko: "k = owner l" using tinvD(1) [OF inv, of t] t(2) by simp
  have kn: "unat k < 65534" using tinvD(3) [OF inv] ko k LAST_NO(1) word_unat_eq_iff
    by (metis le_neq_implies_less)
  then have "k \<noteq> NO_TICKET" using LAST_NO(2) by auto
  then have S: "unat (k + 1) = Suc (unat k)" by (rule unat_u16_Suc)
  have tt: "ticket l (ps t) = Some (unat k)" using t(2) by simp
  note nr = tinv_holder(1) [OF inv tt] and H = tinv_holder(2,3) [OF inv tt]
  note U = tinv_owner_unique [OF inv t(2)] and N = tinv_normal [OF inv nr]
  have tk: "ticket ?l (?p u) = (if u = t then None else ticket l (ps u))" for u
    using U(2) [of u] ticket_owner_upd [of "ps u"] by auto
  have ex: "(\<exists>u. ticket ?l (?p u) = Some m) \<longleftrightarrow> Suc (unat k) \<le> m \<and> m < unat (next_ticket l)" for m
  proof -
    have "(\<exists>u. ticket ?l (?p u) = Some m) \<longleftrightarrow> (\<exists>u. ticket l (ps u) = Some m) \<and> m \<noteq> unat k"
      unfolding tk using tt U(1) ko by (metis option.distinct(1) option.inject)
    then show ?thesis using N(2) [of m] ko by auto
  qed
  show ?thesis
  proof (rule tinv_normalI)
    show "pc_ok ?l (?p u)" for u using tinvD(1) [OF inv, of u] U(3) [of u] by (cases "ps u") auto
    show "?p u = Idle" if "n \<le> u" for u using that tinvD(2) [OF inv that] by auto
    show "unat (owner ?l) \<le> unat LAST_TICKET" using kn S LAST_NO(1) by simp
    show "t' = u" if "ticket ?l (?p t') = Some m" "ticket ?l (?p u) = Some m" for t' u m
      using that tinvD(4) [OF inv, of t' m u] unfolding tk by (auto split: if_splits)
    show "?p u \<noteq> Resetting" for u using nr by simp
    show "unat (owner ?l) \<le> unat (next_ticket ?l)" using H S ko by simp
    show "(\<exists>u. ticket ?l (?p u) = Some m) \<longleftrightarrow> unat (owner ?l) \<le> m \<and> m < unat (next_ticket ?l)" for m
      using ex S by simp
  qed
qed

lemma tinv_last:
  assumes inv: "tinv n l ps" and t: "t < n" "ps t = Unlocking LAST_TICKET"
  shows "tinv n (l\<lparr>owner := 0\<rparr>) (ps(t := Resetting))"
proof -
  let ?p = "ps(t := Resetting)" and ?l = "l\<lparr>owner := 0\<rparr>"
  have ko: "owner l = LAST_TICKET" using tinvD(1) [OF inv, of t] t(2) by simp
  have tt: "ticket l (ps t) = Some (unat LAST_TICKET)" using t(2) by simp
  note nr = tinv_holder(1) [OF inv tt] and H = tinv_holder(2,3) [OF inv tt]
  note U = tinv_owner_unique [OF inv t(2)]
  have nx: "unat (next_ticket l) = 65535" using H(2) unat_u16_le [of "next_ticket l"] LAST_NO(1) by simp
  have none: "ticket l (ps u) = None" if "u \<noteq> t" for u
  proof (cases "ticket l (ps u)")
    case (Some m)
    then show ?thesis
      using tinv_holder(2,3) [OF inv Some] U(1) [OF that] nx ko LAST_NO(1) by simp
  qed
  show ?thesis
  proof (rule tinv_resetI)
    show "pc_ok ?l (?p u)" for u using tinvD(1) [OF inv, of u] U(3) [of u] by (cases "ps u") auto
    show "?p u = Idle" if "n \<le> u" for u using that t(1) tinvD(2) [OF inv that] by auto
    show "next_ticket ?l = NO_TICKET" using nx LAST_NO(2) word_unat_eq_iff [of "next_ticket l" NO_TICKET] by simp
    show "ticket ?l (?p u) = None" for u using none [of u] U(2) [of u] ticket_owner_upd [of "ps u"] by auto
    show "u = t" if "?p u = Resetting" for u using that nr by (auto split: if_splits)
  qed simp_all
qed

lemma tinv_rewind:
  assumes inv: "tinv n l ps" and t: "t < n" "ps t = Resetting"
  shows "tinv n (l\<lparr>next_ticket := 0\<rparr>) (ps(t := Idle))"
proof (rule tinv_normalI)
  let ?p = "ps(t := Idle)" and ?l = "l\<lparr>next_ticket := 0\<rparr>"
  note R = tinv_reset [OF inv t(2)]
  show "pc_ok ?l (?p u)" for u using tinvD(1) [OF inv, of u] by simp
  show "?p u = Idle" if "n \<le> u" for u using that tinvD(2) [OF inv that] by auto
  show "t' = u" if "ticket ?l (?p t') = Some m" for t' u m using that R(3) [of t'] by (auto split: if_splits)
  show "?p u \<noteq> Resetting" for u using R(4) [of u] by auto
  show "(\<exists>u. ticket ?l (?p u) = Some m) \<longleftrightarrow> unat (owner ?l) \<le> m \<and> m < unat (next_ticket ?l)" for m
    using R(1,3) by (auto split: if_splits)
qed (use tinv_reset(1) [OF inv t(2)] in simp_all)

lemma tinv_init: "tinv n (hyp_spin_lock_init l) (\<lambda>_. Idle)"
  by (rule tinv_normalI) (auto simp: hyp_spin_lock_init_def)

lemma tinv_step:
  assumes "tinv n l ps" "t < n" "thread_step l (ps t) = (l', p)"
  shows "tinv n l' (ps(t := p))"
proof (cases "ps t")
  case (Exchanging k)
  with assms show ?thesis
    using tinv_take [OF assms(1,2)] tinv_local [OF assms(1,2), of Taking] by (auto split: if_splits)
next
  case (Unlocking k)
  with assms show ?thesis
    by (auto split: if_splits intro: tinv_pass [OF assms(1,2)] tinv_last [OF assms(1,2)])
next
  case Resetting
  with assms show ?thesis by (auto intro: tinv_rewind [OF assms(1,2)])
qed (use assms in \<open>auto split: if_splits intro!: tinv_local intro: tinvD(1)\<close>)

lemma treach_inv: "treach n s \<Longrightarrow> tinv n (tlock s) (pcs s)"
proof (induction rule: treach.induct)
  case (step s t)
  obtain l p where lp: "thread_step (tlock s) (pcs s t) = (l, p)" by (cases "thread_step (tlock s) (pcs s t)")
  then show ?case using tinv_step [OF step.IH step.hyps(2) lp] by (simp add: step_of_def fun_upd_def del: thread_step.simps)
qed (simp add: tinv_init)

section \<open>Properties\<close>

text \<open>
  C6. Mutual exclusion of the ticket lock, for any number of threads, across the reset of the
  tickets and although the counters have 16 bits: at most one thread is between the end of
  \<open>hyp_spin_lock\<close> and the end of \<open>hyp_spin_unlock\<close>, and the tickets of waiting threads are
  pairwise different and not yet passed by the owner counter, so that they are served in
  the order of their tickets.
\<close>

theorem ticket_lock_mutual_exclusion:
  assumes "treach n s"
  shows "(\<forall>t u. pcs s t \<in> {Critical, Resetting} \<union> range Unlocking \<and>
      pcs s u \<in> {Critical, Resetting} \<union> range Unlocking \<longrightarrow> t = u) \<and>
    (\<forall>t u k. pcs s t = Waiting k \<and> pcs s u = Waiting k \<longrightarrow> t = u) \<and>
    (\<forall>t k. pcs s t = Waiting k \<longrightarrow> owner (tlock s) \<le> k)"
proof -
  note inv = treach_inv [OF assms]
  let ?T = "\<lambda>t. ticket (tlock s) (pcs s t)"
  have c: "?T t = Some (unat (owner (tlock s)))" if "pcs s t \<in> {Critical} \<union> range Unlocking" for t
    using that tinvD(1) [OF inv, of t] by auto
  have "t = u" if "pcs s t \<in> {Critical, Resetting} \<union> range Unlocking"
    "pcs s u \<in> {Critical, Resetting} \<union> range Unlocking" for t u
  proof (cases "pcs s t = Resetting \<or> pcs s u = Resetting")
    case True
    then show ?thesis using that tinv_reset(3,4) [OF inv] c
      by (metis Un_iff insert_iff option.distinct(1) singletonI)
  next
    case False
    then show ?thesis using that c [of t] c [of u] tinvD(4) [OF inv] by blast
  qed
  moreover have "t = u" if "pcs s t = Waiting k" "pcs s u = Waiting k" for t u k
    using that tinvD(4) [OF inv, of t "unat k" u] by simp
  moreover have "owner (tlock s) \<le> k" if "pcs s t = Waiting k" for t k
    using that tinv_holder(2) [OF inv, of t "unat k"] by (simp add: word_le_nat_alt)
  ultimately show ?thesis by blast
qed

text \<open>
  C20. The ticket lock does not deadlock: in every reachable state in which some thread runs
  \<open>hyp_spin_lock\<close> or \<open>hyp_spin_unlock\<close>, some such thread has a step that is not a mere
  repetition of a failing test.
\<close>

theorem ticket_lock_no_deadlock:
  assumes "treach n s" "pcs s t \<noteq> Idle"
  shows "\<exists>u<n. pcs s u \<noteq> Idle \<and> step_of u s \<noteq> s"
proof -
  note inv = treach_inv [OF assms(1)]
  have lt: "u < n" if "pcs s u \<noteq> Idle" for u using tinvD(2) [OF inv, of u] that by (meson not_le)
  have mv: ?thesis if "pcs s u \<noteq> Idle" "snd (thread_step (tlock s) (pcs s u)) \<noteq> pcs s u" for u
  proof -
    have "pcs (step_of u s) u \<noteq> pcs s u" using that(2)
      by (cases "thread_step (tlock s) (pcs s u)") (simp add: step_of_def del: thread_step.simps)
    then show ?thesis using lt that(1) by metis
  qed
  show ?thesis
  proof (cases "\<exists>u. pcs s u = Resetting")
    case True
    then obtain u where "pcs s u = Resetting" by blast
    then show ?thesis using mv [of u] by simp
  next
    case nr: False
    then have N: "unat (owner (tlock s)) \<le> unat (next_ticket (tlock s))"
      "\<And>k. (\<exists>t. ticket (tlock s) (pcs s t) = Some k) \<longleftrightarrow>
        unat (owner (tlock s)) \<le> k \<and> k < unat (next_ticket (tlock s))"
      using tinv_normal [OF inv] by blast+
    show ?thesis
    proof (cases "owner (tlock s) = next_ticket (tlock s)")
      case True
      then have "ticket (tlock s) (pcs s t) = None" using N(2) by (metis leD not_None_eq)
      moreover have "next_ticket (tlock s) \<noteq> NO_TICKET"
        using tinvD(3) [OF inv] True LAST_NO by auto
      ultimately show ?thesis using assms(2) nr mv [of t] by (cases "pcs s t") auto
    next
      case False
      then have "unat (owner (tlock s)) < unat (next_ticket (tlock s))"
        using N(1) word_unat_eq_iff by (metis le_neq_implies_less)
      then obtain u where u: "ticket (tlock s) (pcs s u) = Some (unat (owner (tlock s)))" using N(2) by blast
      then show ?thesis using mv [of u] by (cases "pcs s u") (auto simp: word_unat_eq_iff)
    qed
  qed
qed

text \<open>One thread of two takes the lock.\<close>

definition one_locked :: tstate where
  "one_locked = step_of 0 (step_of 0 (step_of 0 (step_of 0
     \<lparr>tlock = hyp_spin_lock_init \<lparr>owner = 7, next_ticket = 9\<rparr>, pcs = (\<lambda>_. Idle)\<rparr>)))"

lemma one_locked_reach: "treach 2 one_locked"
  unfolding one_locked_def by (intro treach.intros) simp_all

lemma one_locked_pcs: "pcs one_locked 0 = Critical"
  by (simp add: one_locked_def step_of_def hyp_spin_lock_init_def NO_TICKET_def)

theorem ticket_lock_mutual_exclusion_witness:
  "{u. pcs one_locked u = Critical} = {0}"
  using ticket_lock_mutual_exclusion [OF one_locked_reach] one_locked_pcs by force

theorem ticket_lock_no_deadlock_witness:
  "\<exists>u<2. pcs one_locked u \<noteq> Idle \<and> step_of u one_locked \<noteq> one_locked"
  using ticket_lock_no_deadlock [OF one_locked_reach, of 0] one_locked_pcs by simp

end
