(* ===== verification/Early_Alloc.thy ===== *)
theory Early_Alloc
  imports Prelude
begin

text \<open>
  The early page allocators of the hypervisor: \<open>src/linux/pkvm/early_alloc.c\<close> and the two
  variants of \<open>src/linux/casestudies/early_alloc.c\<close>. Addresses are 64-bit words, the null
  pointer is 0. The external functions \<open>memset\<close> and \<open>clear_page\<close> are parameters that act on
  the contents \<open>'m\<close> of the memory.
\<close>

section \<open>The allocator of pKVM\<close>

record region =
  r_end :: u64
  r_cur :: u64
  r_base :: u64

definition hyp_early_alloc_nr_used_pages :: "region \<Rightarrow> u64" where
  "hyp_early_alloc_nr_used_pages r = drop_bit 12 (r_cur r - r_base r)"

text \<open>The shift \<open>nr_pages << PAGE_SHIFT\<close> is on 32 bits.\<close>

definition hyp_early_alloc_contig ::
  "(u64 \<Rightarrow> u8 \<Rightarrow> u64 \<Rightarrow> 'm \<Rightarrow> 'm) \<Rightarrow> u32 \<Rightarrow> region \<times> 'm \<Rightarrow> u64 \<times> region \<times> 'm" where
  "hyp_early_alloc_contig memset nr_pages = (\<lambda>(r, m).
     let sz = ucast (push_bit 12 nr_pages); ret = r_cur r in
     if nr_pages = 0 then (0, r, m)
     else if r_end r - r_cur r < sz then (0, r, m)
     else (ret, r\<lparr>r_cur := r_cur r + sz\<rparr>, memset ret 0 sz m))"

definition hyp_early_alloc_page ::
  "(u64 \<Rightarrow> u8 \<Rightarrow> u64 \<Rightarrow> 'm \<Rightarrow> 'm) \<Rightarrow> region \<times> 'm \<Rightarrow> u64 \<times> region \<times> 'm" where
  "hyp_early_alloc_page memset = hyp_early_alloc_contig memset 1"

definition hyp_early_alloc_init :: "u64 \<Rightarrow> u64 \<Rightarrow> region \<Rightarrow> region" where
  "hyp_early_alloc_init virt sz r = (let r = r\<lparr>r_base := virt\<rparr>; r = r\<lparr>r_cur := r_base r\<rparr>
     in r\<lparr>r_end := r_base r + sz\<rparr>)"

section \<open>The variants of the case studies\<close>

record early =
  e_base :: u64
  e_end :: u64
  e_cur :: u64

definition hyp_early_alloc_nr_pages :: "early \<Rightarrow> u64" where
  "hyp_early_alloc_nr_pages e = drop_bit 12 (e_cur e - e_base e)"

definition early_alloc_page :: "(u64 \<Rightarrow> 'm \<Rightarrow> 'm) \<Rightarrow> early \<times> 'm \<Rightarrow> u64 \<times> early \<times> 'm" where
  "early_alloc_page clear_page = (\<lambda>(e, m).
     let ret = e_cur e; e = e\<lparr>e_cur := e_cur e + 4096\<rparr> in
     if e_cur e > e_end e then (0, e\<lparr>e_cur := ret\<rparr>, m)
     else (ret, e, clear_page ret m))"

definition early_alloc_init :: "u64 \<Rightarrow> u64 \<Rightarrow> early \<Rightarrow> early" where
  "early_alloc_init virt sz e = e\<lparr>e_base := virt, e_end := virt + sz, e_cur := virt\<rparr>"

text \<open>The variant with a size instead of an end pointer.\<close>

record early1 =
  base1 :: u64
  size1 :: u64
  cur1 :: u64

definition hyp_early_alloc_page1 :: "(u64 \<Rightarrow> 'm \<Rightarrow> 'm) \<Rightarrow> early1 \<times> 'm \<Rightarrow> u64 \<times> early1 \<times> 'm" where
  "hyp_early_alloc_page1 clear_page = (\<lambda>(e, m).
     if size1 e \<le> 4096 then (0, e, m)
     else
       let ret = cur1 e; e = e\<lparr>cur1 := cur1 e + 4096\<rparr>; e = e\<lparr>size1 := size1 e - 4096\<rparr>
       in (ret, e, clear_page ret m))"

definition hyp_early_alloc_init1 :: "u64 \<Rightarrow> u64 \<Rightarrow> early1 \<Rightarrow> early1" where
  "hyp_early_alloc_init1 virt sz e = e\<lparr>base1 := virt, size1 := sz, cur1 := virt\<rparr>"

section \<open>The abstract allocator\<close>

text \<open>Of \<open>n\<close> pages, \<open>k\<close> are given; a request gives the first page of the block, if it succeeds.\<close>

definition bump :: "nat \<Rightarrow> nat \<Rightarrow> nat \<Rightarrow> nat option \<times> nat" where
  "bump n m k = (if 0 < m \<and> k + m \<le> n then (Some k, k + m) else (None, k))"

text \<open>\<open>region_abs v n r k\<close>: the region \<open>r\<close> at address \<open>v\<close> represents the state \<open>k\<close> of \<open>n\<close> pages.\<close>

definition region_abs :: "nat \<Rightarrow> nat \<Rightarrow> region \<Rightarrow> nat \<Rightarrow> bool" where
  "region_abs v n r k \<longleftrightarrow> 0 < v \<and> v + n * 4096 < 2 ^ 64 \<and> k \<le> n \<and>
     unat (r_base r) = v \<and> unat (r_cur r) = v + k * 4096 \<and> unat (r_end r) = v + n * 4096"

lemma unat_shift12:
  "unat (nr :: u32) < 2 ^ 20 \<Longrightarrow> unat (ucast (push_bit 12 nr) :: u64) = unat nr * 4096"
  by (simp add: push_bit_eq_mult unat_word_ariths unsigned_ucast_eq take_bit_nat_eq_self)

lemma unat_diff: "(b :: u64) \<le> a \<Longrightarrow> unat (a - b) = unat a - unat b"
  by (rule unat_sub)

lemma unat_add_small: "unat (a :: u64) + unat b < 2 ^ 64 \<Longrightarrow> unat (a + b) = unat a + unat b"
  by (simp add: unat_word_ariths)

lemma unat_drop12: "unat (drop_bit 12 (w :: u64)) = unat w div 4096"
  unfolding unat_drop_bit_eq by (simp add: drop_bit_eq_div)

text \<open>
  C21. The allocator refines the abstract one, for requests below \<open>2 ^ 20\<close> pages: it succeeds
  exactly when the request is not empty and fits in the pages that are left, returns the
  address of the first page given, has the block cleared and counts the pages in use;
  otherwise it returns null and changes nothing.
\<close>

theorem early_alloc_refines:
  assumes R: "region_abs v n r k" and nr: "unat nr < 2 ^ 20"
  shows "(case bump n (unat nr) k of
      (Some p, k') \<Rightarrow> \<exists>r'. hyp_early_alloc_contig memset nr (r, m) =
          (word_of_nat (v + p * 4096), r', memset (word_of_nat (v + p * 4096)) 0 (word_of_nat (unat nr * 4096)) m) \<and>
          region_abs v n r' k' \<and> unat (hyp_early_alloc_nr_used_pages r') = k' \<and> r_base r' = r_base r
    | (None, k') \<Rightarrow> hyp_early_alloc_contig memset nr (r, m) = (0, r, m) \<and> k' = k)"
proof -
  let ?size = "ucast (push_bit 12 nr) :: u64"
  have R': "0 < v" "v + n * 4096 < 2 ^ 64" "k \<le> n" "unat (r_base r) = v"
    "unat (r_cur r) = v + k * 4096" "unat (r_end r) = v + n * 4096"
    using R by (auto simp: region_abs_def)
  have size: "unat ?size = unat nr * 4096" using unat_shift12 [OF nr] .
  have "unat (r_end r - r_cur r) = (n - k) * 4096"
    using R' unat_diff [of "r_cur r" "r_end r"] by (simp add: word_le_nat_alt diff_mult_distrib)
  then have lt: "r_end r - r_cur r < ?size \<longleftrightarrow> n < k + unat nr"
    using size R'(3) by (auto simp: word_less_nat_alt)
  have z: "nr = 0 \<longleftrightarrow> unat nr = 0" by (simp add: unat_eq_0)
  have cur: "r_cur r = word_of_nat (v + k * 4096)" "?size = word_of_nat (unat nr * 4096)"
  proof -
    have "word_of_nat (unat (r_cur r)) = r_cur r" "word_of_nat (unat ?size) = ?size" by simp_all
    then show "r_cur r = word_of_nat (v + k * 4096)" "?size = word_of_nat (unat nr * 4096)"
      unfolding R'(5) size by simp_all
  qed
  let ?r = "r\<lparr>r_cur := r_cur r + ?size\<rparr>"
  have ok: "region_abs v n ?r (k + unat nr) \<and> unat (hyp_early_alloc_nr_used_pages ?r) = k + unat nr"
    if "k + unat nr \<le> n"
  proof -
    have c: "unat (r_cur r + ?size) = v + (k + unat nr) * 4096"
      using R' size that unat_add_small [of "r_cur r" ?size] by (simp add: algebra_simps)
    moreover have "unat (r_cur r + ?size - r_base r) = (k + unat nr) * 4096"
      using c R'(4) unat_diff [of "r_base r" "r_cur r + ?size"] by (simp add: word_le_nat_alt)
    ultimately show ?thesis using R' that
      by (simp add: region_abs_def hyp_early_alloc_nr_used_pages_def unat_drop12)
  qed
  show ?thesis
  proof (cases "0 < unat nr \<and> k + unat nr \<le> n")
    case True
    then have "hyp_early_alloc_contig memset nr (r, m) = (r_cur r, ?r, memset (r_cur r) 0 ?size m)"
      using lt z by (simp add: hyp_early_alloc_contig_def Let_def)
    with True ok show ?thesis using cur by (simp add: bump_def)
  next
    case False
    then show ?thesis using lt z by (auto simp: hyp_early_alloc_contig_def Let_def bump_def)
  qed
qed

theorem early_alloc_refines_witness:
  "\<exists>r'. hyp_early_alloc_contig (\<lambda>_ _ _ m. Suc m) 2 (hyp_early_alloc_init 8192 (3 * 4096) \<lparr>r_end = 0, r_cur = 0, r_base = 0\<rparr>, 0)
     = (8192, r', 1 :: nat) \<and> hyp_early_alloc_nr_used_pages r' = 2"
proof -
  let ?r = "hyp_early_alloc_init 8192 (3 * 4096) \<lparr>r_end = 0, r_cur = 0, r_base = 0\<rparr>"
  have R: "region_abs 8192 3 ?r 0" by (simp add: region_abs_def hyp_early_alloc_init_def Let_def)
  obtain r' where r': "hyp_early_alloc_contig (\<lambda>_ _ _ m. Suc m) 2 (?r, 0) = (8192, r', 1 :: nat)"
    "unat (hyp_early_alloc_nr_used_pages r') = Suc (Suc 0)"
    using early_alloc_refines [OF R, of 2 "\<lambda>_ _ _ m. Suc m" 0] by (auto simp: bump_def)
  have "hyp_early_alloc_nr_used_pages r' = word_of_nat (unat (hyp_early_alloc_nr_used_pages r'))" by simp
  then have "hyp_early_alloc_nr_used_pages r' = 2" unfolding r'(2) by simp
  with r'(1) show ?thesis by blast
qed

text \<open>
  The size of a request is computed on 32 bits: a request for a multiple of \<open>2 ^ 20\<close> pages
  always succeeds, gives nothing, and the next request is given the same address.
\<close>

theorem early_alloc_truncates:
  assumes "unat nr mod 2 ^ 20 = 0" "nr \<noteq> 0"
  shows "hyp_early_alloc_contig memset nr (r, m) = (r_cur r, r, memset (r_cur r) 0 0 m)"
proof -
  have "push_bit 12 nr = 0"
  proof -
    have "2 ^ 20 dvd unat nr" using assms(1) by (simp add: mod_eq_0_iff_dvd)
    then obtain j where "unat nr = 2 ^ 20 * j" by (elim dvdE)
    then have "unat (push_bit 12 nr) = 0"
      by (simp add: push_bit_eq_mult unat_word_ariths)
    then show ?thesis by (simp add: unat_eq_0)
  qed
  with assms(2) show ?thesis by (simp add: hyp_early_alloc_contig_def Let_def)
qed

theorem early_alloc_truncates_witness:
  "hyp_early_alloc_contig (\<lambda>_ _ _. Suc) 0x100000 (\<lparr>r_end = 4096, r_cur = 4096, r_base = 0\<rparr>, 0) =
     (4096, \<lparr>r_end = 4096, r_cur = 4096, r_base = 0\<rparr>, 1)"
  using early_alloc_truncates [where nr = "0x100000" and memset = "\<lambda>_ _ _. Suc" and m = 0
      and r = "\<lparr>r_end = 4096, r_cur = 4096, r_base = 0\<rparr>"] by simp

definition same_early :: "region \<Rightarrow> early \<Rightarrow> early1 \<Rightarrow> bool" where
  "same_early r e f \<longleftrightarrow> e_base e = r_base r \<and> e_end e = r_end r \<and> e_cur e = r_cur r \<and>
     base1 f = r_base r \<and> cur1 f = r_cur r \<and> size1 f = r_end r - r_cur r"

text \<open>
  C22. The three page allocators agree: for the same region, as long as its end is at least one
  page below the top of the address space, \<open>hyp_early_alloc_page\<close> of the case studies does
  what the one of pKVM does, and so does the variant with a size, except that it refuses to
  give the last page. Without the bound the end pointer variant wraps around and gives a
  page that is not in the region.
\<close>

theorem early_alloc_variants:
  assumes S: "same_early r e f" and inv: "r_cur r \<le> r_end r" and cl: "\<And>p m. memset p 0 4096 m = clear_page p m"
  shows "(unat (r_end r) + 4096 < 2 ^ 64 \<longrightarrow>
      (\<exists>r' e' f' m' ret. hyp_early_alloc_page memset (r, m) = (ret, r', m') \<and>
        early_alloc_page clear_page (e, m) = (ret, e', m') \<and>
        (size1 f \<noteq> 4096 \<longrightarrow> hyp_early_alloc_page1 clear_page (f, m) = (ret, f', m') \<and> same_early r' e' f'))) \<and>
    (size1 f = 4096 \<longrightarrow> hyp_early_alloc_page1 clear_page (f, m) = (0, f, m)) \<and>
    (r_cur r = - 4096 \<longrightarrow> early_alloc_page clear_page (e, m) = (- 4096, e\<lparr>e_cur := 0\<rparr>, clear_page (- 4096) m))"
  (is "(?b \<longrightarrow> ?A) \<and> ?B \<and> ?C")
proof (intro conjI impI)
  assume b: ?b
  have u: "unat (r_end r - r_cur r) = unat (r_end r) - unat (r_cur r)" using unat_diff [OF inv] .
  have c: "unat (r_cur r + 4096) = unat (r_cur r) + 4096"
    using b inv unat_add_small [of "r_cur r" 4096] by (simp add: word_le_nat_alt)
  have t: "r_end r - r_cur r < 4096 \<longleftrightarrow> r_end r < r_cur r + 4096"
    using u c inv by (auto simp: word_less_nat_alt word_le_nat_alt)
  have page: "(ucast (push_bit 12 (1 :: u32)) :: u64) = 4096" by simp
  show ?A
  proof (cases "r_end r - r_cur r < 4096")
    case True
    then show ?thesis using S t page
      by (auto simp: hyp_early_alloc_page_def hyp_early_alloc_contig_def early_alloc_page_def
          hyp_early_alloc_page1_def Let_def same_early_def)
  next
    case False
    then show ?thesis using S t page cl
      by (auto simp: hyp_early_alloc_page_def hyp_early_alloc_contig_def early_alloc_page_def
          hyp_early_alloc_page1_def Let_def same_early_def)
  qed
next
  assume "size1 f = 4096"
  then show "hyp_early_alloc_page1 clear_page (f, m) = (0, f, m)" by (simp add: hyp_early_alloc_page1_def)
next
  assume "r_cur r = - 4096"
  then show "early_alloc_page clear_page (e, m) = (- 4096, e\<lparr>e_cur := 0\<rparr>, clear_page (- 4096) m)"
    using S by (simp add: early_alloc_page_def same_early_def Let_def)
qed

theorem early_alloc_variants_witness:
  "let e = \<lparr>e_base = 4096, e_end = 12288, e_cur = 4096\<rparr>; f = \<lparr>base1 = 4096, size1 = 8192, cur1 = 4096\<rparr>
   in \<exists>e' f'. early_alloc_page (\<lambda>_. Suc) (e, 0 :: nat) = (4096, e', Suc 0) \<and>
     hyp_early_alloc_page1 (\<lambda>_. Suc) (f, 0) = (4096, f', Suc 0)"
proof -
  let ?r = "\<lparr>r_end = 12288, r_cur = 4096, r_base = 4096\<rparr>"
  let ?e = "\<lparr>e_base = 4096, e_end = 12288, e_cur = 4096\<rparr>" and ?f = "\<lparr>base1 = 4096, size1 = 8192, cur1 = 4096\<rparr>"
  have S: "same_early ?r ?e ?f" by (simp add: same_early_def)
  have p: "hyp_early_alloc_page (\<lambda>_ _ _. Suc) (?r, 0 :: nat) = (4096, ?r\<lparr>r_cur := 8192\<rparr>, Suc 0)"
    by (simp add: hyp_early_alloc_page_def hyp_early_alloc_contig_def)
  show ?thesis
    using early_alloc_variants [OF S, of "\<lambda>_ _ _. Suc" "\<lambda>_. Suc" "0 :: nat", unfolded p]
    by auto
qed

end
