(* ===== verification/Pgtable.thy ===== *)
theory Pgtable
  imports Prelude
begin

unbundle bit_operations_syntax

text \<open>
  The page table entries of the hypervisor, \<open>src/linux/casestudies/pgtable.c\<close>: the bit field
  functions and the functions that test, build and install entries. A function through
  which a shift by a negative or too large amount, or a failing assertion, can occur
  returns an option. An entry that a function writes through its pointer argument is its
  argument and its result; the callback \<open>virt_to_phys\<close> is a parameter.
\<close>

section \<open>Bit fields\<close>

definition BIT :: "int \<Rightarrow> u64 option" where
  "BIT i = do { c_assert (0 \<le> i \<and> i < 64); Some (push_bit (nat i) 1) }"

definition GENMASK :: "int \<Rightarrow> int \<Rightarrow> u64 option" where
  "GENMASK h l = do {
     c_assert (0 \<le> l \<and> l < 64);
     c_assert (0 \<le> 64 - 1 - h \<and> 64 - 1 - h < 64);
     Some (((NOT 0) - push_bit (nat l) 1 + 1) AND drop_bit (nat (64 - 1 - h)) (NOT 0)) }"

definition bf_shf :: "u64 \<Rightarrow> int" where
  "bf_shf x = builtin_ffsll x - 1"

definition FIELD_GET :: "u64 \<Rightarrow> u64 \<Rightarrow> u64 option" where
  "FIELD_GET msk reg = do {
     c_assert (0 \<le> bf_shf msk);
     Some (drop_bit (nat (bf_shf msk)) (reg AND msk)) }"

definition FIELD_PREP :: "u64 \<Rightarrow> u64 \<Rightarrow> u64 option" where
  "FIELD_PREP msk v = do {
     c_assert (0 \<le> bf_shf msk);
     Some (push_bit (nat (bf_shf msk)) v AND msk) }"

section \<open>Constants\<close>

definition KVM_PGTABLE_PROT_X where "KVM_PGTABLE_PROT_X = BIT 0"
definition KVM_PGTABLE_PROT_W where "KVM_PGTABLE_PROT_W = BIT 1"
definition KVM_PGTABLE_PROT_R where "KVM_PGTABLE_PROT_R = BIT 2"
definition KVM_PGTABLE_PROT_DEVICE where "KVM_PGTABLE_PROT_DEVICE = BIT 3"
definition MT_NORMAL :: u32 where "MT_NORMAL = 0"
definition MT_DEVICE_nGnRE :: u32 where "MT_DEVICE_nGnRE = 5"
definition KVM_PGTABLE_MAX_LEVELS :: u32 where "KVM_PGTABLE_MAX_LEVELS = 4"
definition KVM_PTE_VALID where "KVM_PTE_VALID = BIT 0"
definition KVM_PTE_TYPE where "KVM_PTE_TYPE = BIT 1"
definition KVM_PTE_TYPE_BLOCK :: u64 where "KVM_PTE_TYPE_BLOCK = 0"
definition KVM_PTE_TYPE_PAGE :: u64 where "KVM_PTE_TYPE_PAGE = 1"
definition KVM_PTE_TYPE_TABLE :: u64 where "KVM_PTE_TYPE_TABLE = 1"
definition KVM_PTE_ADDR_MASK where "KVM_PTE_ADDR_MASK = GENMASK 47 12"
definition KVM_PTE_ADDR_51_48 where "KVM_PTE_ADDR_51_48 = GENMASK 15 12"
definition KVM_PTE_LEAF_ATTR_LO where "KVM_PTE_LEAF_ATTR_LO = GENMASK 11 2"
definition ATTR_LO_S1_ATTRIDX where "ATTR_LO_S1_ATTRIDX = GENMASK 4 2"
definition ATTR_LO_S1_AP where "ATTR_LO_S1_AP = GENMASK 7 6"
definition ATTR_LO_S1_AP_RO :: u32 where "ATTR_LO_S1_AP_RO = 3"
definition ATTR_LO_S1_AP_RW :: u32 where "ATTR_LO_S1_AP_RW = 1"
definition ATTR_LO_S1_SH where "ATTR_LO_S1_SH = GENMASK 9 8"
definition ATTR_LO_S1_SH_IS :: u32 where "ATTR_LO_S1_SH_IS = 3"
definition ATTR_LO_S1_AF where "ATTR_LO_S1_AF = BIT 10"
definition KVM_PTE_LEAF_ATTR_HI where "KVM_PTE_LEAF_ATTR_HI = GENMASK 63 51"
definition ATTR_HI_S1_XN where "ATTR_HI_S1_XN = BIT 54"
definition PGTABLE_EINVAL :: int where "PGTABLE_EINVAL = 22"

section \<open>Page table entries\<close>

definition kvm_pte_valid :: "u64 \<Rightarrow> bool option" where
  "kvm_pte_valid pte = do { v \<leftarrow> KVM_PTE_VALID; Some (0 \<noteq> (pte AND v)) }"

definition kvm_pte_table :: "u64 \<Rightarrow> u32 \<Rightarrow> bool option" where
  "kvm_pte_table pte level =
     (if level = KVM_PGTABLE_MAX_LEVELS - 1 then Some False
      else do {
        v \<leftarrow> kvm_pte_valid pte;
        if \<not> v then Some False
        else do { t \<leftarrow> KVM_PTE_TYPE; f \<leftarrow> FIELD_GET t pte; Some (f = KVM_PTE_TYPE_TABLE) } })"

definition kvm_set_invalid_pte :: "u64 \<Rightarrow> u64 option" where
  "kvm_set_invalid_pte pte = do { v \<leftarrow> KVM_PTE_VALID; Some (pte AND NOT v) }"

text \<open>\<open>PAGE_SHIFT\<close> is 12, so the branch for 16 is not taken.\<close>

definition kvm_phys_to_pte :: "u64 \<Rightarrow> u64 option" where
  "kvm_phys_to_pte pa = do {
     a \<leftarrow> KVM_PTE_ADDR_MASK;
     let pte = pa AND a;
     if (12 :: int) = 16 then do {
       m \<leftarrow> KVM_PTE_ADDR_51_48;
       f \<leftarrow> FIELD_PREP m (drop_bit 48 pa);
       Some (pte OR f) }
     else Some pte }"

text \<open>\<open>WARN_ON\<close> is defined in the file as \<open>assert\<close>: the old entry has to be valid.\<close>

definition kvm_set_table_pte :: "(u64 \<Rightarrow> u64) \<Rightarrow> u64 \<Rightarrow> u64 \<Rightarrow> u64 option" where
  "kvm_set_table_pte virt_to_phys old childp = do {
     pte \<leftarrow> kvm_phys_to_pte (virt_to_phys childp);
     t \<leftarrow> KVM_PTE_TYPE;
     f \<leftarrow> FIELD_PREP t KVM_PTE_TYPE_TABLE;
     let pte = pte OR f;
     v \<leftarrow> KVM_PTE_VALID;
     let pte = pte OR v;
     w \<leftarrow> kvm_pte_valid old;
     c_assert w;
     Some pte }"

definition kvm_set_valid_leaf_pte :: "u64 \<Rightarrow> u64 \<Rightarrow> u64 \<Rightarrow> u32 \<Rightarrow> (bool \<times> u64) option" where
  "kvm_set_valid_leaf_pte old pa attr level = do {
     pte \<leftarrow> kvm_phys_to_pte pa;
     let type = (if level = KVM_PGTABLE_MAX_LEVELS - 1 then KVM_PTE_TYPE_PAGE else KVM_PTE_TYPE_BLOCK);
     lo \<leftarrow> KVM_PTE_LEAF_ATTR_LO;
     hi \<leftarrow> KVM_PTE_LEAF_ATTR_HI;
     let pte = pte OR (attr AND (lo OR hi));
     t \<leftarrow> KVM_PTE_TYPE;
     f \<leftarrow> FIELD_PREP t type;
     let pte = pte OR f;
     v \<leftarrow> KVM_PTE_VALID;
     let pte = pte OR v;
     w \<leftarrow> kvm_pte_valid old;
     if w then Some (old = pte, old) else Some (True, pte) }"

record hyp_map_data =
  phys :: u64
  attr :: u64

definition hyp_map_set_prot_attr :: "u64 \<Rightarrow> hyp_map_data \<Rightarrow> (int \<times> hyp_map_data) option" where
  "hyp_map_set_prot_attr prot d = do {
     pd \<leftarrow> KVM_PGTABLE_PROT_DEVICE;
     pw \<leftarrow> KVM_PGTABLE_PROT_W;
     pr \<leftarrow> KVM_PGTABLE_PROT_R;
     px \<leftarrow> KVM_PGTABLE_PROT_X;
     let device = (0 \<noteq> (prot AND pd));
     let mtype = (if device then MT_DEVICE_nGnRE else MT_NORMAL);
     m \<leftarrow> ATTR_LO_S1_ATTRIDX;
     at \<leftarrow> FIELD_PREP m (ucast mtype);
     let sh = ATTR_LO_S1_SH_IS;
     let ap = (if prot AND pw \<noteq> 0 then ATTR_LO_S1_AP_RW else ATTR_LO_S1_AP_RO);
     if \<not> (prot AND pr \<noteq> 0) then Some (- PGTABLE_EINVAL, d)
     else if prot AND px \<noteq> 0 \<and> prot AND pw \<noteq> 0 then Some (- PGTABLE_EINVAL, d)
     else if prot AND px \<noteq> 0 \<and> device then Some (- PGTABLE_EINVAL, d)
     else do {
       xn \<leftarrow> ATTR_HI_S1_XN;
       let at = (if prot AND px \<noteq> 0 then at else at OR xn);
       m \<leftarrow> ATTR_LO_S1_AP;
       f \<leftarrow> FIELD_PREP m (ucast ap);
       let at = at OR f;
       m \<leftarrow> ATTR_LO_S1_SH;
       f \<leftarrow> FIELD_PREP m (ucast sh);
       let at = at OR f;
       af \<leftarrow> ATTR_LO_S1_AF;
       let at = at OR af;
       Some (0, d\<lparr>attr := at\<rparr>) } }"

section \<open>Masks\<close>

text \<open>The mask of the bits from \<open>l\<close> to \<open>h\<close>.\<close>

definition bits :: "nat \<Rightarrow> nat \<Rightarrow> u64" where
  "bits h l = push_bit l (mask (Suc h - l))"

lemma bit_bits: "h < 64 \<Longrightarrow> bit (bits h l) n \<longleftrightarrow> l \<le> n \<and> n \<le> h"
  by (auto simp: bits_def bit_simps)

lemma GENMASK_eq:
  assumes "0 \<le> l" "l \<le> h" "h < 64"
  shows "GENMASK h l = Some (bits (nat h) (nat l))"
proof -
  have "((NOT 0) - push_bit (nat l) 1 + 1) AND drop_bit (nat (63 - h)) (NOT 0) = bits (nat h) (nat l)"
  proof (rule bit_word_eqI)
    fix n assume n: "n < LENGTH(64)"
    have "(NOT 0 :: u64) - push_bit (nat l) 1 + 1 = - (2 ^ nat l)" by (simp add: push_bit_eq_mult)
    then show "bit (((NOT 0 :: u64) - push_bit (nat l) 1 + 1) AND drop_bit (nat (63 - h)) (NOT 0)) n =
        bit (bits (nat h) (nat l)) n"
      using assms n
      by (auto simp: bit_simps bit_bits bit_minus_exp_iff nat_le_iff simp flip: mask_eq_exp_minus_1)
  qed
  with assms show ?thesis by (simp add: GENMASK_def)
qed

lemma BIT_eq: "0 \<le> i \<Longrightarrow> i < 64 \<Longrightarrow> BIT i = Some (push_bit (nat i) 1)"
  by (simp add: BIT_def)

lemma BIT_bits: "0 \<le> i \<Longrightarrow> i < 64 \<Longrightarrow> BIT i = Some (bits (nat i) (nat i))"
  by (simp add: BIT_def bits_def)

lemma bf_shf_bits: "l \<le> h \<Longrightarrow> h < 64 \<Longrightarrow> bf_shf (bits h l) = int l"
proof -
  assume a: "l \<le> h" "h < 64"
  have ne: "bits h l \<noteq> 0" using bit_bits [OF a(2), of l l] a(1) by auto
  have "takeWhile (\<lambda>n. \<not> bit (bits h l) n) [0..<64] = [0..<l]"
  proof -
    have "[0..<64] = [0..<l] @ l # [Suc l..<64]"
      using a upt_add_eq_append [of 0 l "64 - l"] by (simp add: upt_conv_Cons)
    then show ?thesis using a by (simp add: takeWhile_append bit_bits)
  qed
  then show ?thesis using ne by (simp add: bf_shf_def builtin_ffsll_def)
qed

lemma FIELD_GET_eq: "l \<le> h \<Longrightarrow> h < 64 \<Longrightarrow> FIELD_GET (bits h l) r = Some (drop_bit l (r AND bits h l))"
  by (simp add: FIELD_GET_def bf_shf_bits)

lemma FIELD_PREP_eq: "l \<le> h \<Longrightarrow> h < 64 \<Longrightarrow> FIELD_PREP (bits h l) v = Some (push_bit l v AND bits h l)"
  by (simp add: FIELD_PREP_def bf_shf_bits)

lemma field_get_bit:
  "l \<le> h \<Longrightarrow> h < 64 \<Longrightarrow> bit (drop_bit l (r AND bits h l)) n \<longleftrightarrow> bit r (l + n) \<and> l + n \<le> h"
  by (auto simp: bit_simps bit_bits)

lemma field_prep_bit:
  "l \<le> h \<Longrightarrow> h < 64 \<Longrightarrow> bit (push_bit l v AND bits h l) n \<longleftrightarrow> l \<le> n \<and> n \<le> h \<and> bit v (n - l)"
  by (auto simp: bit_simps bit_bits)

lemma masks:
  "KVM_PGTABLE_PROT_X = Some (bits 0 0)" "KVM_PGTABLE_PROT_W = Some (bits 1 1)"
  "KVM_PGTABLE_PROT_R = Some (bits 2 2)" "KVM_PGTABLE_PROT_DEVICE = Some (bits 3 3)"
  "KVM_PTE_VALID = Some (bits 0 0)" "KVM_PTE_TYPE = Some (bits 1 1)"
  "KVM_PTE_ADDR_MASK = Some (bits 47 12)" "KVM_PTE_LEAF_ATTR_LO = Some (bits 11 2)"
  "ATTR_LO_S1_ATTRIDX = Some (bits 4 2)" "ATTR_LO_S1_AP = Some (bits 7 6)" "ATTR_LO_S1_SH = Some (bits 9 8)"
  "ATTR_LO_S1_AF = Some (bits 10 10)" "KVM_PTE_LEAF_ATTR_HI = Some (bits 63 51)" "ATTR_HI_S1_XN = Some (bits 54 54)"
  unfolding KVM_PGTABLE_PROT_X_def KVM_PGTABLE_PROT_W_def KVM_PGTABLE_PROT_R_def KVM_PGTABLE_PROT_DEVICE_def
    KVM_PTE_VALID_def KVM_PTE_TYPE_def KVM_PTE_ADDR_MASK_def KVM_PTE_LEAF_ATTR_LO_def ATTR_LO_S1_ATTRIDX_def
    ATTR_LO_S1_AP_def ATTR_LO_S1_SH_def ATTR_LO_S1_AF_def KVM_PTE_LEAF_ATTR_HI_def ATTR_HI_S1_XN_def
  by (simp_all add: GENMASK_eq BIT_bits)

lemma and_bit_nonzero: "n < 64 \<Longrightarrow> (x :: u64) AND bits n n \<noteq> 0 \<longleftrightarrow> bit x n"
  by (simp add: bits_def and_exp_eq_0_iff_not_bit)

lemma kvm_pte_valid_eq: "kvm_pte_valid pte = Some (bit pte 0)"
  by (simp add: kvm_pte_valid_def masks and_bit_nonzero)

lemma kvm_phys_to_pte_eq: "kvm_phys_to_pte pa = Some (pa AND bits 47 12)"
  by (simp add: kvm_phys_to_pte_def masks)

lemma bit_small:
  "bit (1 :: u64) n \<longleftrightarrow> n = 0" "bit (3 :: u64) n \<longleftrightarrow> n \<le> 1" "bit (5 :: u64) n \<longleftrightarrow> n = 0 \<or> n = 2"
proof -
  show "bit (1 :: u64) n \<longleftrightarrow> n = 0" by (simp add: bit_1_iff)
  have "(3 :: u64) = push_bit 1 1 OR 1" by simp
  then show "bit (3 :: u64) n \<longleftrightarrow> n \<le> 1"
    by (simp only: bit_or_iff bit_push_bit_iff bit_1_iff) auto
  have "(5 :: u64) = push_bit 2 1 OR 1" by simp
  then show "bit (5 :: u64) n \<longleftrightarrow> n = 0 \<or> n = 2"
    by (simp only: bit_or_iff bit_push_bit_iff bit_1_iff) auto
qed

section \<open>Properties\<close>

text \<open>
  Bit fields: for every field \<open>GENMASK(h, l)\<close> and value that fits in it, \<open>FIELD_GET\<close> reads
  back what \<open>FIELD_PREP\<close> put into a register, and reads every other, disjoint field of the
  register as it was before.
\<close>

theorem field_roundtrip:
  assumes "0 \<le> l" "l \<le> h" "h < 64" "unat v < 2 ^ nat (h - l + 1)"
    and "0 \<le> l2" "l2 \<le> h2" "h2 < 64" "h < l2 \<or> h2 < l"
  shows "do { m \<leftarrow> GENMASK h l; f \<leftarrow> FIELD_PREP m v; FIELD_GET m ((r AND NOT m) OR f) } = Some v \<and>
    do { m \<leftarrow> GENMASK h l; f \<leftarrow> FIELD_PREP m v; m2 \<leftarrow> GENMASK h2 l2; FIELD_GET m2 ((r AND NOT m) OR f) } =
    do { m2 \<leftarrow> GENMASK h2 l2; FIELD_GET m2 r }"
proof -
  define a b c d where "a = nat h" "b = nat l" "c = nat h2" "d = nat l2"
  have o: "b \<le> a" "a < 64" "d \<le> c" "c < 64" "a < d \<or> c < b"
    using assms by (auto simp: a_b_c_d_def nat_less_iff nat_le_iff)
  have "v = take_bit (Suc a - b) v"
  proof -
    have "unat v < 2 ^ (Suc a - b)" using assms by (simp add: a_b_c_d_def nat_diff_distrib nat_add_distrib Suc_diff_le)
    then have "unat (take_bit (Suc a - b) v) = unat v" by (simp add: unsigned_take_bit_eq take_bit_nat_eq_self)
    then show ?thesis by (simp add: word_unat_eq_iff)
  qed
  then have v: "bit v n \<Longrightarrow> n < Suc a - b" for n by (metis bit_take_bit_iff)
  let ?f = "(r AND NOT (bits a b)) OR (push_bit b v AND bits a b)"
  have 1: "drop_bit b (?f AND bits a b) = v"
    using o v by (intro bit_word_eqI) (auto simp: bit_simps bit_bits dest: v)
  have 2: "drop_bit d (?f AND bits c d) = drop_bit d (r AND bits c d)"
    using o by (intro bit_word_eqI) (auto simp: bit_simps bit_bits)
  show ?thesis using assms o 1 2
    by (simp add: GENMASK_eq FIELD_GET_eq FIELD_PREP_eq flip: a_b_c_d_def)
qed

theorem field_roundtrip_witness:
  "do { m \<leftarrow> GENMASK 7 6; f \<leftarrow> FIELD_PREP m 1; FIELD_GET m ((0xFFFF AND NOT m) OR f) } = Some 1"
  using field_roundtrip [of 6 7 1 8 9 "0xFFFF"] by simp

text \<open>The bits of the leaf entry for the address \<open>pa\<close> with the attributes \<open>at\<close>.\<close>

definition leaf_bit :: "u64 \<Rightarrow> u64 \<Rightarrow> u32 \<Rightarrow> nat \<Rightarrow> bool" where
  "leaf_bit pa at level n \<longleftrightarrow> n = 0 \<or> (n = 1 \<and> level = 3) \<or> (12 \<le> n \<and> n \<le> 47 \<and> bit pa n) \<or>
     ((2 \<le> n \<and> n \<le> 11 \<or> 51 \<le> n) \<and> bit at n)"

lemma leaf_eval:
  "\<exists>pte. (\<forall>n. bit pte n \<longleftrightarrow> leaf_bit pa at level n) \<and>
    kvm_set_valid_leaf_pte old pa at level = Some (if bit old 0 then (old = pte, old) else (True, pte))"
proof -
  let ?ty = "if level = 3 then 1 else 0 :: u64"
  let ?pte = "(pa AND bits 47 12) OR (at AND (bits 11 2 OR bits 63 51)) OR
     (push_bit 1 ?ty AND bits 1 1) OR bits 0 0"
  have "bit ?pte n \<longleftrightarrow> leaf_bit pa at level n" for n
    using bit_imp_le_length [of at n]
    by (auto simp: bit_simps bit_bits leaf_bit_def bit_small)
  moreover have "kvm_set_valid_leaf_pte old pa at level =
      Some (if bit old 0 then (old = ?pte, old) else (True, ?pte))"
    by (simp add: kvm_set_valid_leaf_pte_def kvm_phys_to_pte_eq masks kvm_pte_valid_eq FIELD_PREP_eq
        KVM_PGTABLE_MAX_LEVELS_def KVM_PTE_TYPE_PAGE_def KVM_PTE_TYPE_BLOCK_def or.assoc)
  ultimately show ?thesis by blast
qed

text \<open>
  \<open>kvm_set_valid_leaf_pte\<close> never faults. It leaves a valid entry alone and says whether it
  is the mapping asked for. It replaces an invalid entry by one that is valid, of type page
  at the last level and block elsewhere, with bits 47 to 12 of the address, the lower and
  upper attributes given, and no other bit.
\<close>

theorem kvm_set_valid_leaf_pte_spec:
  "\<exists>pte. (\<forall>n. bit pte n \<longleftrightarrow> leaf_bit pa at level n) \<and>
    kvm_set_valid_leaf_pte old pa at level = Some (if bit old 0 then (old = pte, old) else (True, pte))"
  by (rule leaf_eval)

lemma prot_eval:
  "\<exists>at. (\<forall>n. bit at n \<longleftrightarrow> n = 8 \<or> n = 9 \<or> n = 10 \<or> n = 6 \<or> (n = 7 \<and> \<not> bit prot 1) \<or>
      ((n = 2 \<or> n = 4) \<and> bit prot 3) \<or> (n = 54 \<and> \<not> bit prot 0)) \<and>
    hyp_map_set_prot_attr prot d =
      Some (if \<not> bit prot 2 \<or> (bit prot 0 \<and> (bit prot 1 \<or> bit prot 3)) then (- 22, d) else (0, d\<lparr>attr := at\<rparr>))"
proof -
  let ?m = "if bit prot 3 then 5 else 0 :: u64" and ?a = "if bit prot 1 then 1 else 3 :: u64"
  let ?x = "if bit prot 0 then 0 else bits 54 54"
  let ?at = "(push_bit 2 ?m AND bits 4 2) OR ?x OR (push_bit 6 ?a AND bits 7 6) OR (push_bit 8 3 AND bits 9 8) OR bits 10 10"
  have "bit (push_bit 2 ?m AND bits 4 2) n \<longleftrightarrow> (n = 2 \<or> n = 4) \<and> bit prot 3" for n
    by (cases "bit prot 3") (simp_all only: field_prep_bit if_True if_False bit_small, auto)
  moreover have "bit ?x n \<longleftrightarrow> n = 54 \<and> \<not> bit prot 0" for n by (auto simp: bit_bits)
  moreover have "bit (push_bit 6 ?a AND bits 7 6) n \<longleftrightarrow> n = 6 \<or> n = 7 \<and> \<not> bit prot 1" for n
    by (simp only: field_prep_bit) (auto simp: bit_small)
  moreover have "bit (push_bit 8 3 AND bits 9 8) n \<longleftrightarrow> n = 8 \<or> n = 9" for n
    by (simp only: field_prep_bit) (auto simp: bit_small)
  moreover have "bit (bits 10 10) n \<longleftrightarrow> n = 10" for n by (auto simp: bit_bits)
  ultimately have "bit ?at n \<longleftrightarrow> n = 8 \<or> n = 9 \<or> n = 10 \<or> n = 6 \<or> (n = 7 \<and> \<not> bit prot 1) \<or>
      ((n = 2 \<or> n = 4) \<and> bit prot 3) \<or> (n = 54 \<and> \<not> bit prot 0)" for n
    by (simp only: bit_or_iff) blast
  moreover have "hyp_map_set_prot_attr prot d =
      Some (if \<not> bit prot 2 \<or> (bit prot 0 \<and> (bit prot 1 \<or> bit prot 3)) then (- 22, d) else (0, d\<lparr>attr := ?at\<rparr>))"
    by (cases "bit prot 0"; cases "bit prot 1"; cases "bit prot 2"; cases "bit prot 3";
        simp add: hyp_map_set_prot_attr_def masks and_bit_nonzero FIELD_PREP_eq PGTABLE_EINVAL_def
          MT_DEVICE_nGnRE_def MT_NORMAL_def ATTR_LO_S1_AP_RW_def ATTR_LO_S1_AP_RO_def ATTR_LO_S1_SH_IS_def or.assoc)
  ultimately show ?thesis by blast
qed

text \<open>
  C7. Protection attributes and W xor X: \<open>hyp_map_set_prot_attr\<close> refuses, without a change, a
  request that is not readable, or that is executable and writable or a device. What it
  accepts, installed by \<open>kvm_set_valid_leaf_pte\<close> over an invalid entry, is a valid entry
  whose access permission is read-write exactly if write was asked for, that is
  execute-never exactly if execute was not asked for, and that is never both writable and
  executable.
\<close>

theorem prot_w_xor_x:
  assumes "hyp_map_set_prot_attr prot d = Some (r, d')" "\<not> bit old 0"
  shows "(r = 0 \<longleftrightarrow> bit prot 2 \<and> \<not> (bit prot 0 \<and> (bit prot 1 \<or> bit prot 3))) \<and>
    (r \<noteq> 0 \<longrightarrow> r = - PGTABLE_EINVAL \<and> d' = d) \<and>
    (r = 0 \<longrightarrow> (\<exists>pte ap. kvm_set_valid_leaf_pte old pa (attr d') level = Some (True, pte) \<and>
      kvm_pte_valid pte = Some True \<and> do { m \<leftarrow> ATTR_LO_S1_AP; FIELD_GET m pte } = Some ap \<and>
      (ap = ucast ATTR_LO_S1_AP_RW \<longleftrightarrow> bit prot 1) \<and> (bit pte 54 \<longleftrightarrow> \<not> bit prot 0) \<and>
      \<not> (ap = ucast ATTR_LO_S1_AP_RW \<and> \<not> bit pte 54)))"
proof -
  obtain at where at: "\<And>n. bit at n \<longleftrightarrow> n = 8 \<or> n = 9 \<or> n = 10 \<or> n = 6 \<or> (n = 7 \<and> \<not> bit prot 1) \<or>
      ((n = 2 \<or> n = 4) \<and> bit prot 3) \<or> (n = 54 \<and> \<not> bit prot 0)"
    "hyp_map_set_prot_attr prot d =
      Some (if \<not> bit prot 2 \<or> (bit prot 0 \<and> (bit prot 1 \<or> bit prot 3)) then (- 22, d) else (0, d\<lparr>attr := at\<rparr>))"
    using prot_eval [of prot d] by blast
  obtain pte where pte: "\<And>n. bit pte n \<longleftrightarrow> leaf_bit pa at level n"
    "kvm_set_valid_leaf_pte old pa at level = Some (True, pte)"
    using leaf_eval [of pa at level old] assms(2) by auto
  define ap where "ap = drop_bit 6 (pte AND bits 7 6)"
  have ap: "bit ap n \<longleftrightarrow> n = 0 \<or> n = 1 \<and> \<not> bit prot 1" for n
    unfolding ap_def by (subst field_get_bit) (auto simp: pte(1) leaf_bit_def at(1))
  have rw: "ap = ucast ATTR_LO_S1_AP_RW \<longleftrightarrow> bit prot 1"
  proof
    assume "ap = ucast ATTR_LO_S1_AP_RW"
    then have "bit ap 1 = bit (1 :: u64) 1" by (simp add: ATTR_LO_S1_AP_RW_def)
    then show "bit prot 1" using ap [of 1] bit_small(1) [of 1] by simp
  next
    assume "bit prot 1"
    then show "ap = ucast ATTR_LO_S1_AP_RW" unfolding ATTR_LO_S1_AP_RW_def
      by (intro bit_word_eqI) (simp add: ap bit_small(1))
  qed
  have xn: "bit pte 54 \<longleftrightarrow> \<not> bit prot 0" by (simp add: pte(1) leaf_bit_def at(1))
  have get: "do { m \<leftarrow> ATTR_LO_S1_AP; FIELD_GET m pte } = Some ap"
    by (simp add: masks FIELD_GET_eq ap_def)
  have v: "kvm_pte_valid pte = Some True" by (simp add: kvm_pte_valid_eq pte(1) leaf_bit_def)
  show ?thesis
  proof (cases "bit prot 2 \<and> \<not> (bit prot 0 \<and> (bit prot 1 \<or> bit prot 3))")
    case True
    then have "r = 0" "d' = d\<lparr>attr := at\<rparr>" using assms(1) at(2) by auto
    with True pte(2) v get rw xn show ?thesis by auto
  next
    case False
    then have "r = - 22" "d' = d" using assms(1) at(2) by (auto split: if_splits)
    with False show ?thesis by (auto simp: PGTABLE_EINVAL_def)
  qed
qed

theorem prot_w_xor_x_witness:
  "hyp_map_set_prot_attr 7 \<lparr>phys = 0, attr = 0\<rparr> = Some (- PGTABLE_EINVAL, \<lparr>phys = 0, attr = 0\<rparr>) \<and>
   (\<exists>d' pte. hyp_map_set_prot_attr 6 \<lparr>phys = 0, attr = 0\<rparr> = Some (0, d') \<and>
     kvm_set_valid_leaf_pte 0 4096 (attr d') 3 = Some (True, pte) \<and> bit pte 54)"
proof -
  let ?d = "\<lparr>phys = 0, attr = 0\<rparr>"
  obtain r d' where 7: "hyp_map_set_prot_attr 7 ?d = Some (r, d')" using prot_eval [of 7 ?d] by auto
  obtain r2 d2 where 6: "hyp_map_set_prot_attr 6 ?d = Some (r2, d2)" using prot_eval [of 6 ?d] by auto
  have "r = - PGTABLE_EINVAL \<and> d' = ?d" using prot_w_xor_x [OF 7, of 0 0 3] by simp
  moreover have "r2 = 0 \<and> (\<exists>pte. kvm_set_valid_leaf_pte 0 4096 (attr d2) 3 = Some (True, pte) \<and> bit pte 54)"
    using prot_w_xor_x [OF 6, of 0 4096 3] by auto
  ultimately show ?thesis using 7 6 by auto
qed

text \<open>
  Table entries: over a valid entry, \<open>kvm_set_table_pte\<close> writes an entry that
  \<open>kvm_pte_table\<close> recognises as a table below the last level and that points to the physical
  address of the child; over an invalid entry its assertion fails. Clearing the valid bit
  makes it an entry that is neither valid nor a table.
\<close>

theorem kvm_table_pte_spec:
  "(\<not> bit old 0 \<longrightarrow> kvm_set_table_pte v2p old childp = None) \<and>
   (bit old 0 \<longrightarrow> (\<exists>pte inv. kvm_set_table_pte v2p old childp = Some pte \<and>
      kvm_pte_table pte level = Some (level \<noteq> 3) \<and>
      pte AND bits 47 12 = v2p childp AND bits 47 12 \<and>
      kvm_set_invalid_pte pte = Some inv \<and> kvm_pte_valid inv = Some False \<and>
      kvm_pte_table inv level = Some False))"
proof -
  let ?f = "push_bit 1 1 AND bits 1 1 :: u64"
  let ?pte = "(v2p childp AND bits 47 12) OR ?f OR bits 0 0"
  have f: "bit ?f n \<longleftrightarrow> n = 1" for n by (simp only: field_prep_bit) (auto simp: bit_small)
  have b: "bit ?pte n \<longleftrightarrow> n = 0 \<or> n = 1 \<or> 12 \<le> n \<and> n \<le> 47 \<and> bit (v2p childp) n" for n
    by (simp only: bit_or_iff f bit_and_iff) (auto simp: bit_bits)
  let ?inv = "?pte AND NOT (bits 0 0)"
  have i: "\<not> bit ?inv 0" by (simp only: bit_and_iff bit_not_iff) (simp add: bit_bits)
  have "?pte AND bits 47 12 = v2p childp AND bits 47 12"
    by (rule bit_word_eqI) (auto simp only: bit_and_iff b bit_bits)
  moreover have "drop_bit 1 (?pte AND bits 1 1) = 1"
    by (rule bit_word_eqI) (simp only: field_get_bit b bit_small(1), auto)
  moreover have "kvm_set_table_pte v2p old childp = (if bit old 0 then Some ?pte else None)"
    by (simp add: kvm_set_table_pte_def kvm_phys_to_pte_eq masks FIELD_PREP_eq kvm_pte_valid_eq
        KVM_PTE_TYPE_TABLE_def or.assoc)
  moreover have "bit ?pte 0" using b by blast
  ultimately show ?thesis using i
    by (simp add: kvm_pte_table_def kvm_pte_valid_eq masks FIELD_GET_eq KVM_PGTABLE_MAX_LEVELS_def
        KVM_PTE_TYPE_TABLE_def kvm_set_invalid_pte_def)
qed

theorem kvm_table_pte_spec_witness:
  "kvm_set_table_pte (\<lambda>v. v) 2 4096 = None \<and>
   (\<exists>pte. kvm_set_table_pte (\<lambda>v. v) 1 4096 = Some pte \<and> kvm_pte_table pte 2 = Some True)"
  using kvm_table_pte_spec [of 2 "\<lambda>v. v" 4096 2] kvm_table_pte_spec [of 1 "\<lambda>v. v" 4096 2] by auto

end
