(* ===== verification/Pgtable_Walk.thy ===== *)
theory Pgtable_Walk
  imports Pgtable
begin

text \<open>
  The page table walker, \<open>src/linux/no_proofs/pgtable.c\<close>: it visits the entries of a page table of
  up to four levels that translate a range of addresses, and calls back on leaves, and on tables
  before and after their entries.

  The memory has the entries of the tables, at their addresses, and the rest of the state (\<open>'w\<close>) that
  the callback works on; the callback may change both. The functions the file calls and
  does not define (\<open>kvm_granule_size\<close>, \<open>kvm_pgtable_idx\<close>, \<open>kvm_pgd_page_idx\<close>, \<open>kvm_pte_follow\<close>,
  \<open>ALIGN_DOWN\<close> to a page, \<open>PAGE_ALIGN\<close> and the constants \<open>PTRS_PER_PTE\<close> and \<open>ERANGE\<close>) are the fields of
  an environment. \<open>struct kvm_pgtable_walk_data\<close> has the fields that the code uses; the file does
  not declare it.
\<close>

lemma unat_less_Suc: "i < n \<Longrightarrow> unat (i + 1) = Suc (unat (i :: u32))"
proof -
  assume "i < n"
  moreover have "unat n < 2 ^ LENGTH(32)" by (rule unsigned_less)
  ultimately show ?thesis by (simp add: word_less_nat_alt unat_word_ariths)
qed

section \<open>The walker\<close>

record 'w pmem =
  ptes :: "(nat, u64) heap"
  world :: 'w

record kvm_pgtable =
  ia_bits :: u32
  start_level :: u32
  pgd :: "nat ptr"

definition KVM_PGTABLE_WALK_LEAF where "KVM_PGTABLE_WALK_LEAF = BIT 0"
definition KVM_PGTABLE_WALK_TABLE_PRE where "KVM_PGTABLE_WALK_TABLE_PRE = BIT 1"
definition KVM_PGTABLE_WALK_TABLE_POST where "KVM_PGTABLE_WALK_TABLE_POST = BIT 2"

type_synonym 'w visitor_fn = "u64 \<Rightarrow> u64 \<Rightarrow> u32 \<Rightarrow> nat \<Rightarrow> u64 \<Rightarrow> nat ptr \<Rightarrow> 'w pmem \<Rightarrow> (int \<times> 'w pmem) option"

record 'w kvm_pgtable_walker =
  walker_cb :: "'w visitor_fn"
  walker_arg :: "nat ptr"
  walker_flags :: u64

record 'w walk_data =
  wd_pgt :: kvm_pgtable
  wd_addr :: u64
  wd_end :: u64
  wd_walker :: "'w kvm_pgtable_walker"

record 'w walk_env =
  granule_size :: "u32 \<Rightarrow> u64"
  pgtable_idx :: "'w walk_data \<Rightarrow> u32 \<Rightarrow> u32"
  pgd_page_idx :: "'w walk_data \<Rightarrow> u32"
  pte_follow :: "u64 \<Rightarrow> nat"
  page_align_down :: "u64 \<Rightarrow> u64"
  page_align :: "u64 \<Rightarrow> u64"
  ptrs_per_pte :: u32
  erange :: int

definition kvm_pgtable_visitor_cb ::
  "'w walk_data \<Rightarrow> u64 \<Rightarrow> u32 \<Rightarrow> nat \<Rightarrow> u64 \<Rightarrow> 'w pmem \<Rightarrow> (int \<times> 'w pmem) option" where
  "kvm_pgtable_visitor_cb data addr level ptep flag m =
     (let walker = wd_walker data
      in walker_cb walker addr (wd_end data) level ptep flag (walker_arg walker) m)"

text \<open>The result of a step of the walk: its return value, the walk data and the memory.\<close>

type_synonym 'w pgwalk_result = "(int \<times> 'w walk_data \<times> 'w pmem) option"

text \<open>\<open>walk\<close> is the function \<open>__kvm_pgtable_walk\<close>, which the source declares before \<open>__kvm_pgtable_visit\<close>.\<close>

definition kvm_pgtable_visit ::
  "'w walk_env \<Rightarrow> ('w walk_data \<Rightarrow> nat \<Rightarrow> u32 \<Rightarrow> 'w pmem \<Rightarrow> 'w pgwalk_result) \<Rightarrow>
   'w walk_data \<Rightarrow> nat \<Rightarrow> u32 \<Rightarrow> 'w pmem \<Rightarrow> 'w pgwalk_result" where
  "kvm_pgtable_visit env walk data ptep level m = do {
     let addr = wd_addr data;
     pte \<leftarrow> ptes m ptep;
     table \<leftarrow> kvm_pte_table pte level;
     let flags = walker_flags (wd_walker data);
     pre \<leftarrow> KVM_PGTABLE_WALK_TABLE_PRE;
     leaf \<leftarrow> KVM_PGTABLE_WALK_LEAF;
     post \<leftarrow> KVM_PGTABLE_WALK_TABLE_POST;
     (ret, m) \<leftarrow> (if table \<and> flags AND pre \<noteq> 0
       then kvm_pgtable_visitor_cb data addr level ptep pre m
       else Some (0, m));
     (ret, pte, table, m) \<leftarrow> (if \<not> table \<and> flags AND leaf \<noteq> 0
       then do {
         (ret, m) \<leftarrow> kvm_pgtable_visitor_cb data addr level ptep leaf m;
         pte \<leftarrow> ptes m ptep;
         table \<leftarrow> kvm_pte_table pte level;
         Some (ret, pte, table, m) }
       else Some (ret, pte, table, m));
     if ret \<noteq> 0 then Some (ret, data, m)
     else if \<not> table then Some (ret, data\<lparr>wd_addr := wd_addr data + granule_size env level\<rparr>, m)
     else do {
       (ret, data, m) \<leftarrow> walk data (pte_follow env pte) (level + 1) m;
       if ret \<noteq> 0 then Some (ret, data, m)
       else if flags AND post \<noteq> 0 then do {
         (ret, m) \<leftarrow> kvm_pgtable_visitor_cb data addr level ptep post m;
         Some (ret, data, m) }
       else Some (ret, data, m) } }"

text \<open>The loop of \<open>__kvm_pgtable_walk\<close> from the index \<open>idx\<close> on; \<open>visit\<close> is its body.\<close>

function kvm_pgtable_walk_loop ::
  "'w walk_env \<Rightarrow> ('w walk_data \<Rightarrow> nat \<Rightarrow> u32 \<Rightarrow> 'w pmem \<Rightarrow> 'w pgwalk_result) \<Rightarrow>
   nat \<Rightarrow> u32 \<Rightarrow> u32 \<Rightarrow> 'w walk_data \<Rightarrow> 'w pmem \<Rightarrow> 'w pgwalk_result" where
  "kvm_pgtable_walk_loop env visit pgtable level idx data m =
     (if idx < ptrs_per_pte env then
        if wd_addr data \<ge> wd_end data then Some (0, data, m)
        else do {
          (ret, data, m) \<leftarrow> visit data (pgtable + 8 * unat idx) level m;
          if ret \<noteq> 0 then Some (ret, data, m)
          else kvm_pgtable_walk_loop env visit pgtable level (idx + 1) data m }
      else Some (0, data, m))"
  by auto
termination
proof (relation "measure (\<lambda>(env, visit, pgtable, level, idx, data, m). unat (ptrs_per_pte env) - unat idx)", goal_cases)
  case (2 env visit pgtable level idx)
  then show ?case by (simp add: unat_less_Suc [of _ "ptrs_per_pte env"]) (simp add: word_less_nat_alt)
qed simp

declare kvm_pgtable_walk_loop.simps [simp del]

text \<open>
  \<open>__kvm_pgtable_walk\<close>. The recursion goes down one level per call and stops at the level
  \<open>KVM_PGTABLE_MAX_LEVELS\<close>, so a depth of five calls is enough from every start level.
\<close>

primrec kvm_pgtable_walk_depth ::
  "nat \<Rightarrow> 'w walk_env \<Rightarrow> 'w walk_data \<Rightarrow> nat \<Rightarrow> u32 \<Rightarrow> 'w pmem \<Rightarrow> 'w pgwalk_result" where
  "kvm_pgtable_walk_depth 0 env data pgtable level m = None"
| "kvm_pgtable_walk_depth (Suc d) env data pgtable level m =
     (if level \<ge> KVM_PGTABLE_MAX_LEVELS then Some (- PGTABLE_EINVAL, data, m)
      else kvm_pgtable_walk_loop env (kvm_pgtable_visit env (kvm_pgtable_walk_depth d env))
        pgtable level (pgtable_idx env data level) data m)"

definition kvm_pgtable_walk_level ::
  "'w walk_env \<Rightarrow> 'w walk_data \<Rightarrow> nat \<Rightarrow> u32 \<Rightarrow> 'w pmem \<Rightarrow> 'w pgwalk_result" where
  "kvm_pgtable_walk_level = kvm_pgtable_walk_depth 5"

text \<open>The loop of \<open>_kvm_pgtable_walk\<close> over the pages of the top level table.\<close>

partial_function (option) kvm_pgtable_walk_pgd ::
  "'w walk_env \<Rightarrow> nat \<Rightarrow> u32 \<Rightarrow> 'w walk_data \<Rightarrow> 'w pmem \<Rightarrow> 'w pgwalk_result" where
  "kvm_pgtable_walk_pgd env tbl idx data m =
     (if wd_addr data < wd_end data then
        Option.bind (kvm_pgtable_walk_level env data (tbl + 8 * unat (idx * ptrs_per_pte env))
          (start_level (wd_pgt data)) m) (\<lambda>(ret, data, m).
            if ret \<noteq> 0 then Some (ret, data, m)
            else kvm_pgtable_walk_pgd env tbl (idx + 1) data m)
      else Some (0, data, m))"

definition kvm_pgtable_walk_range ::
  "'w walk_env \<Rightarrow> 'w walk_data \<Rightarrow> 'w pmem \<Rightarrow> 'w pgwalk_result" where
  "kvm_pgtable_walk_range env data m = do {
     let pgt = wd_pgt data;
     limit \<leftarrow> BIT (uint (ia_bits pgt));
     if wd_addr data > limit \<or> wd_end data > limit then Some (- erange env, data, m)
     else case pgd pgt of
       NULL \<Rightarrow> Some (- PGTABLE_EINVAL, data, m)
     | Poison _ \<Rightarrow> None
     | Addr tbl \<Rightarrow> kvm_pgtable_walk_pgd env tbl (pgd_page_idx env data) data m }"

definition kvm_pgtable_walk ::
  "'w walk_env \<Rightarrow> kvm_pgtable \<Rightarrow> u64 \<Rightarrow> u64 \<Rightarrow> 'w kvm_pgtable_walker \<Rightarrow> 'w pmem \<Rightarrow> (int \<times> 'w pmem) option" where
  "kvm_pgtable_walk env pgt addr sz walker m = do {
     let start = page_align_down env addr;
     let data = \<lparr>wd_pgt = pgt, wd_addr = start, wd_end = page_align env (start + sz), wd_walker = walker\<rparr>;
     (ret, data, m) \<leftarrow> kvm_pgtable_walk_range env data m;
     Some (ret, m) }"

section \<open>Progress of the walk\<close>

text \<open>The bytes that an entry of level \<open>l\<close> translates; a table of level \<open>l\<close> has 512 entries.\<close>

definition gran :: "nat \<Rightarrow> nat" where
  "gran l = 2 ^ (12 + 9 * (3 - l))"

lemma gran_pos [simp]: "0 < gran l" "gran l \<noteq> 0"
  by (simp_all add: gran_def)

lemma gran_Suc: "l < 3 \<Longrightarrow> gran l = 512 * gran (Suc l)"
proof -
  assume "l < 3"
  then have "12 + 9 * (3 - l) = 9 + (12 + 9 * (3 - Suc l))" by simp
  then show ?thesis unfolding gran_def by (simp only: power_add) simp
qed

lemma gran_le: "gran l \<le> 2 ^ 39"
  unfolding gran_def by (rule power_increasing) auto

text \<open>
  The pages of the top level table: as many as the \<open>ia_bits\<close> of the input addresses need, at most \<open>2 ^ 23\<close> so that
  \<open>idx * PTRS_PER_PTE\<close> does not wrap around.
\<close>

definition pgt_ok :: "kvm_pgtable \<Rightarrow> bool" where
  "pgt_ok pgt \<longleftrightarrow> unat (ia_bits pgt) \<le> 62 \<and> unat (start_level pgt) < 4 \<and>
     (2 :: nat) ^ unat (ia_bits pgt) \<le> 2 ^ 23 * (512 * gran (unat (start_level pgt)))"

text \<open>The documented behaviour of the functions of the environment, for pages of 4 KiB.\<close>

definition arm64_env :: "'w walk_env \<Rightarrow> bool" where
  "arm64_env env \<longleftrightarrow> ptrs_per_pte env = 512 \<and>
     (\<forall>l. unat l < 4 \<longrightarrow> unat (granule_size env l) = gran (unat l)) \<and>
     (\<forall>d l. unat l < 4 \<longrightarrow> unat (pgtable_idx env d l) = unat (wd_addr d) div gran (unat l) mod 512) \<and>
     (\<forall>d. pgt_ok (wd_pgt d) \<longrightarrow> unat (pgd_page_idx env d) =
        unat (wd_addr d) mod 2 ^ unat (ia_bits (wd_pgt d)) div (512 * gran (unat (start_level (wd_pgt d))))) \<and>
     (\<forall>a. unat (page_align_down env a) = unat a div 4096 * 4096) \<and>
     (\<forall>a. page_align env a = page_align_down env (a + 4095))"

text \<open>
  A step from the address \<open>a\<close> to \<open>a'\<close> in a walk up to \<open>e\<close>, over an entry of \<open>g\<close> bytes: it moves forward,
  into the next entry or past the end of the range, by which it overshoots by less than \<open>b\<close>.
\<close>

definition adv :: "nat \<Rightarrow> nat \<Rightarrow> nat \<Rightarrow> nat \<Rightarrow> nat \<Rightarrow> bool" where
  "adv g b e a a' \<longleftrightarrow> a < a' \<and> a' < e + b \<and> (e \<le> a' \<or> a' div g = Suc (a div g))"

text \<open>
  The outcome of a step is in order: it returns, keeps the invariant and all of the walk data but the address,
  and its return value is one of the callback's, or 0 after it moved forward.
\<close>

definition walk_ok ::
  "('w pmem \<Rightarrow> bool) \<Rightarrow> int set \<Rightarrow> nat \<Rightarrow> nat \<Rightarrow> 'w walk_data \<Rightarrow> 'w pgwalk_result \<Rightarrow> bool" where
  "walk_ok Inv R g b data res \<longleftrightarrow> (\<exists>r a m. res = Some (r, data\<lparr>wd_addr := a\<rparr>, m) \<and> Inv m \<and> r \<in> insert 0 R \<and>
     (r = 0 \<longrightarrow> adv g b (unat (wd_end data)) (unat (wd_addr data)) (unat a)))"

text \<open>
  What the callback and the page table promise, for an invariant \<open>Inv\<close> of the memory and the tables \<open>tbl l\<close> of each
  level: the 512 entries of a table are there, an entry that is a table leads to a table of the next level, and the callback
  returns a value in \<open>R\<close> or 0 and keeps the invariant.
\<close>

definition walk_world ::
  "'w walk_env \<Rightarrow> 'w kvm_pgtable_walker \<Rightarrow> ('w pmem \<Rightarrow> bool) \<Rightarrow> (nat \<Rightarrow> nat \<Rightarrow> bool) \<Rightarrow> int set \<Rightarrow> bool" where
  "walk_world env w Inv tbl R \<longleftrightarrow>
     (\<forall>m l p i. Inv m \<longrightarrow> unat l < 4 \<longrightarrow> tbl (unat l) p \<longrightarrow> i < 512 \<longrightarrow>
        (\<exists>pte. ptes m (p + 8 * i) = Some pte \<and>
          (kvm_pte_table pte l = Some True \<longrightarrow> tbl (Suc (unat l)) (pte_follow env pte)))) \<and>
     (\<forall>m l p i a e f. Inv m \<longrightarrow> unat l < 4 \<longrightarrow> tbl (unat l) p \<longrightarrow> i < 512 \<longrightarrow>
        (\<exists>r m'. walker_cb w a e l (p + 8 * i) f (walker_arg w) m = Some (r, m') \<and> Inv m' \<and> r \<in> insert 0 R))"

lemma walk_okI:
  "Inv m \<Longrightarrow> r \<in> insert 0 R \<Longrightarrow> (r = 0 \<longrightarrow> adv g b (unat (wd_end data)) (unat (wd_addr data)) (unat a)) \<Longrightarrow>
   walk_ok Inv R g b data (Some (r, data\<lparr>wd_addr := a\<rparr>, m))"
  unfolding walk_ok_def by blast

lemma walk_world_entry:
  "walk_world env w Inv tbl R \<Longrightarrow> Inv m \<Longrightarrow> unat l < 4 \<Longrightarrow> tbl (unat l) p \<Longrightarrow> i < 512 \<Longrightarrow>
   \<exists>pte. ptes m (p + 8 * i) = Some pte \<and>
     (kvm_pte_table pte l = Some True \<longrightarrow> tbl (Suc (unat l)) (pte_follow env pte))"
  by (simp add: walk_world_def)

lemma walk_world_cb:
  "walk_world env (wd_walker data) Inv tbl R \<Longrightarrow> Inv m \<Longrightarrow> unat l < 4 \<Longrightarrow> tbl (unat l) p \<Longrightarrow> i < 512 \<Longrightarrow>
   \<exists>r m'. kvm_pgtable_visitor_cb data a l (p + 8 * i) f m = Some (r, m') \<and> Inv m' \<and> r \<in> insert 0 R"
  by (simp add: walk_world_def kvm_pgtable_visitor_cb_def Let_def)

lemma kvm_pte_table_total: "\<exists>b. kvm_pte_table pte l = Some b \<and> (b \<longrightarrow> l \<noteq> 3)"
  by (auto simp: kvm_pte_table_def kvm_pte_valid_eq masks FIELD_GET_eq KVM_PGTABLE_MAX_LEVELS_def)

lemma walk_flags:
  "KVM_PGTABLE_WALK_LEAF = Some 1" "KVM_PGTABLE_WALK_TABLE_PRE = Some 2" "KVM_PGTABLE_WALK_TABLE_POST = Some 4"
  by (simp_all add: KVM_PGTABLE_WALK_LEAF_def KVM_PGTABLE_WALK_TABLE_PRE_def KVM_PGTABLE_WALK_TABLE_POST_def BIT_def
      push_bit_eq_mult)

lemma visitor_cb_addr [simp]:
  "kvm_pgtable_visitor_cb (data\<lparr>wd_addr := a\<rparr>) = kvm_pgtable_visitor_cb data"
  by (intro ext) (simp add: kvm_pgtable_visitor_cb_def)

lemma leaf_step:
  assumes "arm64_env env" "unat l < 4" "unat e \<le> 2 ^ 62" "a < e"
  shows "adv (gran (unat l)) (gran (unat l)) (unat e) (unat a) (unat (a + granule_size env l))"
proof -
  have g: "unat (granule_size env l) = gran (unat l)" using assms by (simp add: arm64_env_def)
  have "unat a + gran (unat l) < 2 ^ 64" using assms gran_le [of "unat l"] by (simp add: word_less_nat_alt)
  then have "unat (a + granule_size env l) = unat a + gran (unat l)" using g by (simp add: unat_word_ariths)
  with assms show ?thesis by (simp add: adv_def word_less_nat_alt div_add_self2)
qed

lemma table_step:
  "l < 3 \<Longrightarrow> adv (512 * gran (Suc l)) (gran (Suc l)) e a a' \<Longrightarrow> adv (gran l) (gran l) e a a'"
  by (auto simp: adv_def gran_Suc)

lemma visit_ok:
  assumes env: "arm64_env env" and w: "walk_world env (wd_walker data) Inv tbl R"
    and m: "Inv m" and l: "unat l < 4" and p: "tbl (unat l) p" "i < 512"
    and a: "unat (wd_end data) \<le> 2 ^ 62" "wd_addr data < wd_end data"
    and walk: "\<And>q m. l \<noteq> 3 \<Longrightarrow> Inv m \<Longrightarrow> tbl (Suc (unat l)) q \<Longrightarrow>
      walk_ok Inv R (512 * gran (Suc (unat l))) (gran (Suc (unat l))) data (walk data q (l + 1) m)"
  shows "walk_ok Inv R (gran (unat l)) (gran (unat l)) data (kvm_pgtable_visit env walk data (p + 8 * i) l m)"
proof -
  note cb = walk_world_cb [OF w _ l p]
  note entry = walk_world_entry [OF w _ l p]
  note leaf = leaf_step [OF env l a]
  have l3: "unat l < 3" if "l \<noteq> 3" using that l by (simp add: word_unat_eq_iff)
  have rest: "walk_ok Inv R (gran (unat l)) (gran (unat l)) data
      (if \<not> t then Some (0, data\<lparr>wd_addr := wd_addr data + granule_size env l\<rparr>, n)
       else do { (ret, data, m) \<leftarrow> walk data (pte_follow env pte) (l + 1) n;
         if ret \<noteq> 0 then Some (ret, data, m)
         else if flags AND post \<noteq> 0 then do {
           (ret, m) \<leftarrow> kvm_pgtable_visitor_cb data addr l (p + 8 * i) post m;
           Some (ret, data, m) }
         else Some (ret, data, m) })"
    if n: "Inv n" and t: "kvm_pte_table pte l = Some t" "kvm_pte_table pte l = Some True \<longrightarrow> tbl (Suc (unat l)) (pte_follow env pte)"
    for t n pte flags post addr
  proof (cases t)
    case False
    with leaf n show ?thesis by (simp add: walk_okI)
  next
    case True
    with t have l: "l \<noteq> 3" "tbl (Suc (unat l)) (pte_follow env pte)" using kvm_pte_table_total [of pte l] by auto
    from walk [OF l(1) n l(2)] obtain r a' m' where r: "walk data (pte_follow env pte) (l + 1) n = Some (r, data\<lparr>wd_addr := a'\<rparr>, m')"
      "Inv m'" "r \<in> insert 0 R"
      "r = 0 \<longrightarrow> adv (gran (unat l)) (gran (unat l)) (unat (wd_end data)) (unat (wd_addr data)) (unat a')"
      using table_step [OF l3 [OF l(1)]] unfolding walk_ok_def by blast
    from cb [OF r(2)] obtain r2 m2 where "kvm_pgtable_visitor_cb data addr l (p + 8 * i) post m' = Some (r2, m2)"
      "Inv m2" "r2 \<in> insert 0 R" by blast
    with r True show ?thesis by (auto simp: walk_ok_def)
  qed
  obtain pte t where pte: "ptes m (p + 8 * i) = Some pte" "kvm_pte_table pte l = Some t"
    "kvm_pte_table pte l = Some True \<longrightarrow> tbl (Suc (unat l)) (pte_follow env pte)"
    using entry [OF m] kvm_pte_table_total by blast
  obtain r m1 where c: "kvm_pgtable_visitor_cb data (wd_addr data) l (p + 8 * i) (if t then 2 else 1) m = Some (r, m1)"
    "Inv m1" "r \<in> insert 0 R" using cb [OF m] by blast
  obtain pte1 t1 where pte1: "ptes m1 (p + 8 * i) = Some pte1" "kvm_pte_table pte1 l = Some t1"
    "kvm_pte_table pte1 l = Some True \<longrightarrow> tbl (Suc (unat l)) (pte_follow env pte1)"
    using entry [OF c(2)] kvm_pte_table_total by blast
  have stop: "walk_ok Inv R (gran (unat l)) (gran (unat l)) data (Some (r, data, m1))" if "r \<noteq> 0"
    unfolding walk_ok_def
    by (rule exI [of _ r], rule exI [of _ "wd_addr data"], rule exI [of _ m1]) (use that c in simp)
  show ?thesis
  proof (cases t)
    case True
    then show ?thesis
      using rest [OF m pte(2,3), of "walker_flags (wd_walker data)" 4 "wd_addr data"]
        rest [OF c(2) pte(2,3), of "walker_flags (wd_walker data)" 4 "wd_addr data"] pte c stop
      by (simp add: kvm_pgtable_visit_def Let_def walk_flags)
  next
    case False
    then show ?thesis
      using rest [OF m pte(2,3), of "walker_flags (wd_walker data)" 4 "wd_addr data"]
        rest [OF c(2) pte1(2,3), of "walker_flags (wd_walker data)" 4 "wd_addr data"] pte c pte1 stop
      by (cases t1) (simp_all add: kvm_pgtable_visit_def Let_def walk_flags)
  qed
qed

text \<open>The outcome of the loop over the entries of a table from the index \<open>i\<close> on.\<close>

definition loop_adv :: "nat \<Rightarrow> nat \<Rightarrow> nat \<Rightarrow> nat \<Rightarrow> nat \<Rightarrow> nat \<Rightarrow> bool" where
  "loop_adv g B i e a a' \<longleftrightarrow> (if e \<le> a then a' = a
     else a \<le> a' \<and> (i < 512 \<longrightarrow> a < a') \<and> a' < e + g \<and> (e \<le> a' \<or> a' div g = 512 * B + 512))"

lemma loop_adv_step:
  "adv g g e a a1 \<Longrightarrow> loop_adv g B i e a1 a2 \<Longrightarrow> a < e \<Longrightarrow> loop_adv g B j e a a2"
  by (auto simp: loop_adv_def adv_def split: if_splits)

lemma loop_ok:
  assumes env: "arm64_env env" and g: "g = gran (unat l)"
    and visit: "\<And>a i m. a < wd_end data \<Longrightarrow> Inv m \<Longrightarrow> i < 512 \<Longrightarrow>
      walk_ok Inv R g g (data\<lparr>wd_addr := a\<rparr>) (visit (data\<lparr>wd_addr := a\<rparr>) (p + 8 * i) l m)"
    and "Inv m" "unat idx \<le> 512" "wd_end data \<le> a \<or> unat a div g = 512 * B + unat idx"
  shows "\<exists>r a' m'. kvm_pgtable_walk_loop env visit p l idx (data\<lparr>wd_addr := a\<rparr>) m = Some (r, data\<lparr>wd_addr := a'\<rparr>, m') \<and>
    Inv m' \<and> r \<in> insert 0 R \<and> (r = 0 \<longrightarrow> loop_adv g B (unat idx) (unat (wd_end data)) (unat a) (unat a'))"
  using assms(4-)
proof (induction "512 - unat idx" arbitrary: idx a m)
  case 0
  then have i: "\<not> idx < 512" "unat idx = 512" by (simp_all add: word_less_nat_alt)
  have P: "ptrs_per_pte env = 512" using env by (simp add: arm64_env_def)
  have "kvm_pgtable_walk_loop env visit p l idx (data\<lparr>wd_addr := a\<rparr>) m = Some (0, data\<lparr>wd_addr := a\<rparr>, m)"
    using i P by (subst kvm_pgtable_walk_loop.simps) simp
  with 0 i g show ?case by (auto simp: loop_adv_def word_le_nat_alt intro!: exI [of _ a])
next
  case (Suc n)
  then have i: "idx < 512" "unat idx < 512" by (simp_all add: word_less_nat_alt)
  note i1 = unat_less_Suc [OF i(1)]
  have P: "ptrs_per_pte env = 512" using env by (simp add: arm64_env_def)
  show ?case
  proof (cases "wd_end data \<le> a")
    case True
    with P i have "kvm_pgtable_walk_loop env visit p l idx (data\<lparr>wd_addr := a\<rparr>) m = Some (0, data\<lparr>wd_addr := a\<rparr>, m)"
      by (subst kvm_pgtable_walk_loop.simps) simp
    with True Suc.prems show ?thesis by (auto simp: loop_adv_def word_le_nat_alt intro!: exI [of _ a])
  next
    case False
    then have a: "a < wd_end data" by simp
    from visit [OF this Suc.prems(1) i(2)] obtain r a1 m1 where v:
      "visit (data\<lparr>wd_addr := a\<rparr>) (p + 8 * unat idx) l m = Some (r, data\<lparr>wd_addr := a1\<rparr>, m1)"
      "Inv m1" "r \<in> insert 0 R" "r = 0 \<longrightarrow> adv g g (unat (wd_end data)) (unat a) (unat a1)"
      by (auto simp: walk_ok_def)
    have loop: "kvm_pgtable_walk_loop env visit p l idx (data\<lparr>wd_addr := a\<rparr>) m =
        (if r \<noteq> 0 then Some (r, data\<lparr>wd_addr := a1\<rparr>, m1)
         else kvm_pgtable_walk_loop env visit p l (idx + 1) (data\<lparr>wd_addr := a1\<rparr>) m1)"
      using P i False v(1) by (subst kvm_pgtable_walk_loop.simps) simp
    show ?thesis
    proof (cases "r = 0")
      case False
      with v loop show ?thesis by (intro exI [of _ r] exI [of _ a1] exI [of _ m1]) simp
    next
      case True
      with v have adv: "adv g g (unat (wd_end data)) (unat a) (unat a1)" by simp
      have "wd_end data \<le> a1 \<or> unat a1 div g = 512 * B + unat (idx + 1)"
        using adv Suc.prems(3) a i1 by (auto simp: adv_def word_le_nat_alt)
      moreover have "n = 512 - unat (idx + 1)" "unat (idx + 1) \<le> 512" using Suc.hyps(2) i1 i by simp_all
      ultimately obtain r2 a2 m2 where w:
        "kvm_pgtable_walk_loop env visit p l (idx + 1) (data\<lparr>wd_addr := a1\<rparr>) m1 = Some (r2, data\<lparr>wd_addr := a2\<rparr>, m2)"
        "Inv m2" "r2 \<in> insert 0 R"
        "r2 = 0 \<longrightarrow> loop_adv g B (unat (idx + 1)) (unat (wd_end data)) (unat a1) (unat a2)"
        using Suc.hyps(1) [OF _ v(2)] by blast
      have "r2 = 0 \<longrightarrow> loop_adv g B (unat idx) (unat (wd_end data)) (unat a) (unat a2)"
        using loop_adv_step [OF adv] w(4) a by (simp only: word_less_nat_alt) blast
      with w loop True show ?thesis
        by (intro exI [of _ r2] exI [of _ a2] exI [of _ m2]) simp
    qed
  qed
qed

lemma walk_depth_ok:
  assumes env: "arm64_env env" and w: "walk_world env (wd_walker data) Inv tbl R" and e: "unat (wd_end data) \<le> 2 ^ 62"
    and "unat l < 4" "4 < d + unat l" "tbl (unat l) p" "Inv m" "wd_addr data < wd_end data"
  shows "walk_ok Inv R (512 * gran (unat l)) (gran (unat l)) data (kvm_pgtable_walk_depth d env data p l m)"
  using assms
proof (induction d arbitrary: data l p m)
  case (Suc d)
  let ?g = "gran (unat l)" and ?visit = "kvm_pgtable_visit env (kvm_pgtable_walk_depth d env)"
  have idx: "unat (pgtable_idx env data l) = unat (wd_addr data) div ?g mod 512"
    using env Suc.prems(4) by (simp add: arm64_env_def)
  have "walk_ok Inv R ?g ?g (data\<lparr>wd_addr := a\<rparr>) (?visit (data\<lparr>wd_addr := a\<rparr>) (p + 8 * i) l m)"
    if "a < wd_end data" "Inv m" "i < 512" for a i m
  proof (rule visit_ok [OF env])
    fix q m assume h: "l \<noteq> 3" "Inv m" "tbl (Suc (unat l)) q"
    then have "unat l < 3" using Suc.prems(4) by (simp add: word_unat_eq_iff)
    then have l1: "unat (l + 1) = Suc (unat l)" using unat_less_Suc [of l 3] by (simp add: word_less_nat_alt)
    from Suc.IH [of "data\<lparr>wd_addr := a\<rparr>" "l + 1" q m] l1 h that Suc.prems \<open>unat l < 3\<close>
    show "walk_ok Inv R (512 * gran (Suc (unat l))) (gran (Suc (unat l))) (data\<lparr>wd_addr := a\<rparr>)
        (kvm_pgtable_walk_depth d env (data\<lparr>wd_addr := a\<rparr>) q (l + 1) m)" by simp
  qed (use Suc.prems that in auto)
  from loop_ok [where data = data and visit = ?visit and Inv = Inv and R = R and p = p and idx = "pgtable_idx env data l"
      and a = "wd_addr data" and B = "unat (wd_addr data) div ?g div 512", OF env refl this Suc.prems(7)] idx
  obtain r a' m' where l: "kvm_pgtable_walk_loop env ?visit p l (pgtable_idx env data l) data m =
      Some (r, data\<lparr>wd_addr := a'\<rparr>, m')" "Inv m'" "r \<in> insert 0 R"
      "r = 0 \<longrightarrow> loop_adv ?g (unat (wd_addr data) div ?g div 512) (unat (pgtable_idx env data l)) (unat (wd_end data)) (unat (wd_addr data)) (unat a')"
    by auto
  have "r = 0 \<longrightarrow> adv (512 * ?g) ?g (unat (wd_end data)) (unat (wd_addr data)) (unat a')"
    using l(4) Suc.prems(8) idx by (auto simp: loop_adv_def adv_def word_less_nat_alt div_mult2_eq mult.commute [of 512])
  with l Suc.prems(4) show ?case
    by (simp add: walk_ok_def KVM_PGTABLE_MAX_LEVELS_def word_le_nat_alt) blast
qed simp

text \<open>The depth of the recursion: five calls are enough.\<close>

lemma walk_loop_cong:
  "(\<And>data q m. visit data q l m = visit' data q l m) \<Longrightarrow>
   kvm_pgtable_walk_loop env visit p l idx data m = kvm_pgtable_walk_loop env visit' p l idx data m"
proof (induction env visit p l idx data m rule: kvm_pgtable_walk_loop.induct)
  case (1 env visit p l idx data m)
  then show ?case
    by (subst (1 2) kvm_pgtable_walk_loop.simps) (auto intro!: Option.bind_cong)
qed

lemma kvm_pte_table_3: "kvm_pte_table pte 3 = Some False"
  by (simp add: kvm_pte_table_def KVM_PGTABLE_MAX_LEVELS_def)

lemma visit_cong:
  "(\<And>data q m. l \<noteq> 3 \<Longrightarrow> walk data q (l + 1) m = walk' data q (l + 1) m) \<Longrightarrow>
   kvm_pgtable_visit env walk data q l m = kvm_pgtable_visit env walk' data q l m"
proof (cases "l = 3")
  case True
  then show ?thesis
    by (auto simp: kvm_pgtable_visit_def kvm_pte_table_3 Let_def intro!: Option.bind_cong)
      (auto simp: kvm_pte_table_3 split: if_splits Option.bind_splits)
next
  case False
  assume "\<And>data q m. l \<noteq> 3 \<Longrightarrow> walk data q (l + 1) m = walk' data q (l + 1) m"
  with False have "walk data q (l + 1) m = walk' data q (l + 1) m" for data q m by simp
  then show ?thesis by (simp add: kvm_pgtable_visit_def cong: if_cong)
qed

lemma walk_depth_enough:
  assumes "0 < d" "0 < d'" "4 < d + unat l" "4 < d' + unat l"
  shows "kvm_pgtable_walk_depth d env data p l m = kvm_pgtable_walk_depth d' env data p l m"
  using assms
proof (induction d arbitrary: d' data p l m)
  case (Suc d)
  then obtain k where k: "d' = Suc k" by (cases d') auto
  have "kvm_pgtable_walk_depth d env data q (l + 1) m = kvm_pgtable_walk_depth k env data q (l + 1) m"
    if "l \<noteq> 3" "\<not> 4 \<le> l" for data q m
  proof -
    from that have "unat l < 3" by (simp add: word_le_nat_alt word_unat_eq_iff)
    moreover then have "unat (l + 1) = Suc (unat l)" using unat_less_Suc [of l 3] by (simp add: word_less_nat_alt)
    ultimately show ?thesis using Suc.IH [of k "l + 1"] Suc.prems k by simp
  qed
  then show ?case using k
    by (auto simp: KVM_PGTABLE_MAX_LEVELS_def intro!: walk_loop_cong visit_cong)
qed simp

text \<open>The loop over the pages of the top level table.\<close>

lemma walk_pgd_ok:
  assumes env: "arm64_env env" and w: "walk_world env (wd_walker data) Inv tbl R"
    and s: "s = start_level (wd_pgt data)" "unat s < 4" "T = 512 * gran (unat s)"
    and e: "unat (wd_end data) \<le> 2 ^ 62" "unat (wd_end data) \<le> 2 ^ 23 * T"
    and t: "\<And>j. j * T < unat (wd_end data) \<Longrightarrow> tbl (unat s) (p + 4096 * j)"
    and "Inv m" "a < wd_end data \<Longrightarrow> unat idx = unat a div T"
  shows "\<exists>r a' m'. kvm_pgtable_walk_pgd env p idx (data\<lparr>wd_addr := a\<rparr>) m = Some (r, data\<lparr>wd_addr := a'\<rparr>, m') \<and>
    Inv m' \<and> r \<in> insert 0 R \<and> (r = 0 \<longrightarrow> wd_end data \<le> a')"
  using assms(9-)
proof (induction "unat (wd_end data) - unat a" arbitrary: a idx m rule: less_induct)
  case less
  show ?case
  proof (cases "a < wd_end data")
    case False
    then show ?thesis using less.prems by (subst kvm_pgtable_walk_pgd.simps) (auto intro!: exI [of _ a])
  next
    case True
    have T: "0 < T" using s by simp
    have idx: "unat idx = unat a div T" using less.prems(2) True by simp
    then have "unat idx * T \<le> unat a" by simp
    then have lt: "unat idx * T < unat (wd_end data)" using True by (simp add: word_less_nat_alt)
    then have "unat idx * T < 2 ^ 23 * T" using e(2) by (rule less_le_trans)
    then have i: "unat idx < 2 ^ 23" using T by simp
    then have u: "unat (idx * 512) = unat idx * 512" "unat (idx + 1) = Suc (unat idx)" by (simp_all add: unat_word_ariths)
    have P: "ptrs_per_pte env = 512" using env by (simp add: arm64_env_def)
    have "walk_ok Inv R T (gran (unat s)) (data\<lparr>wd_addr := a\<rparr>)
        (kvm_pgtable_walk_level env (data\<lparr>wd_addr := a\<rparr>) (p + 8 * unat (idx * 512)) s m)"
      unfolding kvm_pgtable_walk_level_def s(3) using s(2) True w e(1) less.prems(1) t [OF lt] u
      by (intro walk_depth_ok [where tbl = tbl, OF env]) (simp_all add: mult.commute)
    then obtain r a1 m1 where r: "kvm_pgtable_walk_level env (data\<lparr>wd_addr := a\<rparr>) (p + 8 * unat (idx * 512)) s m =
        Some (r, data\<lparr>wd_addr := a1\<rparr>, m1)" "Inv m1" "r \<in> insert 0 R"
      "r = 0 \<longrightarrow> adv T (gran (unat s)) (unat (wd_end data)) (unat a) (unat a1)"
      by (auto simp: walk_ok_def)
    have loop: "kvm_pgtable_walk_pgd env p idx (data\<lparr>wd_addr := a\<rparr>) m =
        (if r \<noteq> 0 then Some (r, data\<lparr>wd_addr := a1\<rparr>, m1) else kvm_pgtable_walk_pgd env p (idx + 1) (data\<lparr>wd_addr := a1\<rparr>) m1)"
      using True r(1) P s(1) by (subst kvm_pgtable_walk_pgd.simps) simp
    show ?thesis
    proof (cases "r = 0")
      case False
      with r loop show ?thesis by (intro exI [of _ r] exI [of _ a1] exI [of _ m1]) simp
    next
      case z: True
      with r have adv: "adv T (gran (unat s)) (unat (wd_end data)) (unat a) (unat a1)" by simp
      have "unat (wd_end data) - unat a1 < unat (wd_end data) - unat a"
        using adv True by (auto simp: adv_def word_less_nat_alt)
      moreover have "unat (idx + 1) = unat a1 div T" if "a1 < wd_end data"
        using that adv idx u by (auto simp: adv_def word_less_nat_alt)
      ultimately show ?thesis using less.hyps [OF _ r(2)] loop z by simp
    qed
  qed
qed

section \<open>The entries that a walk visits\<close>

text \<open>
  A page table as a tree, the type that the comment at the head of the file gives: an entry is a leaf or a
  table with its entries. \<open>pt_at env h l q t\<close>: the entry of level \<open>l\<close> at the address \<open>q\<close> is the tree \<open>t\<close>.
\<close>

datatype pgtable = PT_leaf u64 | PT_table u64 "pgtable list"

function pt_at :: "'w walk_env \<Rightarrow> (nat, u64) heap \<Rightarrow> u32 \<Rightarrow> nat \<Rightarrow> pgtable \<Rightarrow> bool" where
  "pt_at env h l q (PT_leaf pte) \<longleftrightarrow> h q = Some pte \<and> kvm_pte_table pte l = Some False"
| "pt_at env h l q (PT_table pte ts) \<longleftrightarrow> h q = Some pte \<and> kvm_pte_table pte l = Some True \<and> length ts = 512 \<and>
     (\<forall>i. i < length ts \<longrightarrow> pt_at env h (l + 1) (pte_follow env pte + 8 * i) (ts ! i))"
  by pat_completeness auto
termination
  by (relation "measure (\<lambda>(_, _, _, _, t). size t)") (auto simp: less_Suc_eq_le intro!: size_list_estimation' [OF nth_mem])

text \<open>
  The parts \<open>f i\<close> of those of \<open>n\<close> consecutive blocks of \<open>g\<close> bytes from \<open>b\<close> on that meet the range from \<open>s\<close> to \<open>e\<close>.
\<close>

definition covered :: "nat \<Rightarrow> nat \<Rightarrow> nat \<Rightarrow> nat \<Rightarrow> nat \<Rightarrow> (nat \<Rightarrow> 'v list) \<Rightarrow> 'v list" where
  "covered n g b s e f = concat (map (\<lambda>i. if b + i * g < e \<and> s < b + Suc i * g then f i else []) [0..<n])"

lemma covered_cong [fundef_cong]:
  "n = n' \<Longrightarrow> g = g' \<Longrightarrow> b = b' \<Longrightarrow> s = s' \<Longrightarrow> e = e' \<Longrightarrow> (\<And>i. i < n' \<Longrightarrow> f i = f' i) \<Longrightarrow>
   covered n g b s e f = covered n' g' b' s' e' f'"
  unfolding covered_def by (auto intro!: arg_cong [where f = concat])

text \<open>
  The visits of a walk over the entry \<open>t\<close> of level \<open>l\<close> that translates the addresses from \<open>b\<close> on: a leaf, or a
  table before its entries, then those of its entries that meet the range, and the table after them, as the flags ask for.
\<close>

type_synonym visit_log = "(nat \<times> nat \<times> u64) list"

definition visited :: "u64 \<Rightarrow> u64 \<Rightarrow> nat \<Rightarrow> nat \<Rightarrow> visit_log" where
  "visited F f a l = (if F AND f \<noteq> 0 then [(a, l, f)] else [])"

function visits :: "u64 \<Rightarrow> nat \<Rightarrow> nat \<Rightarrow> nat \<Rightarrow> nat \<Rightarrow> pgtable \<Rightarrow> visit_log" where
  "visits F s e l b (PT_leaf pte) = visited F 1 (max b s) l"
| "visits F s e l b (PT_table pte ts) = visited F 2 (max b s) l @
     covered (length ts) (gran (Suc l)) b s e (\<lambda>i. visits F s e (Suc l) (b + i * gran (Suc l)) (ts ! i)) @
     visited F 4 (max b s) l"
  by pat_completeness auto
termination
  by (relation "measure (\<lambda>(_, _, _, _, _, t). size t)") (auto simp: less_Suc_eq_le intro!: size_list_estimation' [OF nth_mem])

text \<open>The walk starts at the first address of a leaf, in whichever level that is.\<close>

function start_ok :: "nat \<Rightarrow> nat \<Rightarrow> nat \<Rightarrow> pgtable \<Rightarrow> bool" where
  "start_ok s l b (PT_leaf pte) \<longleftrightarrow> s \<le> b \<or> b + gran l \<le> s"
| "start_ok s l b (PT_table pte ts) \<longleftrightarrow>
     (\<forall>i. i < length ts \<longrightarrow> start_ok s (Suc l) (b + i * gran (Suc l)) (ts ! i))"
  by pat_completeness auto
termination
  by (relation "measure (\<lambda>(_, _, _, t). size t)") (auto simp: less_Suc_eq_le intro!: size_list_estimation' [OF nth_mem])

text \<open>A walker that records the visits.\<close>

definition log_walker :: "u64 \<Rightarrow> visit_log kvm_pgtable_walker" where
  "log_walker F = \<lparr>walker_cb = (\<lambda>a e l q f arg m. Some (0, m\<lparr>world := world m @ [(unat a, unat l, f)]\<rparr>)),
     walker_arg = NULL, walker_flags = F\<rparr>"

definition logged :: "visit_log pmem \<Rightarrow> visit_log \<Rightarrow> visit_log pmem" where
  "logged m v = m\<lparr>world := world m @ v\<rparr>"

lemma logged_simps [simp]:
  "ptes (logged m v) = ptes m" "logged (logged m v) w = logged m (v @ w)" "logged m [] = m"
  by (simp_all add: logged_def)

lemma log_cb [simp]:
  "wd_walker data = log_walker F \<Longrightarrow>
   kvm_pgtable_visitor_cb data a l q f m = Some (0, logged m [(unat a, unat l, f)])"
  by (simp add: kvm_pgtable_visitor_cb_def log_walker_def logged_def Let_def)

lemma log_flags [simp]: "walker_flags (log_walker F) = F"
  by (simp add: log_walker_def)

subsection \<open>Blocks in a range\<close>

lemma covered_0 [simp]: "covered 0 g b s e f = []"
  by (simp add: covered_def)

text \<open>The blocks from the block \<open>i\<close> on, when it is the first that meets the range.\<close>

definition covered_from :: "nat \<Rightarrow> nat \<Rightarrow> nat \<Rightarrow> nat \<Rightarrow> nat \<Rightarrow> (nat \<Rightarrow> 'v list) \<Rightarrow> 'v list" where
  "covered_from i n g b e f = concat (map (\<lambda>i. if b + i * g < e then f i else []) [i..<n])"

lemma covered_from_step:
  "i < n \<Longrightarrow> b + i * g < e \<Longrightarrow> covered_from i n g b e f = f i @ covered_from (Suc i) n g b e f"
  by (simp add: covered_from_def upt_conv_Cons)

lemma covered_from_end: "n \<le> i \<Longrightarrow> covered_from i n g b e f = []"
  by (simp add: covered_from_def)

lemma covered_from_stop: "e \<le> b + i * g \<Longrightarrow> covered_from i n g b e f = []"
proof -
  assume e: "e \<le> b + i * g"
  have "\<not> b + j * g < e" if "i \<le> j" for j
    using e mult_le_mono1 [OF that, of g] by linarith
  then show ?thesis unfolding covered_from_def by (auto simp: concat_eq_Nil_conv)
qed

lemma covered_eq_from:
  assumes "i \<le> n" "s < b + Suc i * g" "i = 0 \<or> b + i * g \<le> s"
  shows "covered n g b s e f = covered_from i n g b e f"
proof -
  let ?h = "\<lambda>i. if b + i * g < e \<and> s < b + Suc i * g then f i else []"
  have "[0..<n] = [0..<i] @ [i..<n]" using assms(1) upt_add_eq_append [of 0 i "n - i"] by simp
  moreover have "?h j = []" if "j < i" for j
    using assms(3) that mult_le_mono1 [of "Suc j" i g] by auto
  then have "concat (map ?h [0..<i]) = []" by (simp add: concat_eq_Nil_conv)
  moreover have "s < b + Suc j * g" if "i \<le> j" for j
    using assms(2) mult_le_mono1 [of "Suc i" "Suc j" g] that by linarith
  then have "map ?h [i..<n] = map (\<lambda>i. if b + i * g < e then f i else []) [i..<n]" by auto
  ultimately show ?thesis
    unfolding covered_def covered_from_def by (simp only: map_append concat_append append_Nil)
qed

subsection \<open>The walk visits the entries of the range\<close>

text \<open>Where a step over the addresses from \<open>b\<close> to \<open>b'\<close> ends: at \<open>b'\<close>, or past the end of the range with \<open>b'\<close>.\<close>

definition steps_to :: "nat \<Rightarrow> nat \<Rightarrow> u64 \<Rightarrow> bool" where
  "steps_to b' e a \<longleftrightarrow> unat a = b' \<or> e \<le> unat a \<and> e \<le> b'"

definition step_log :: "visit_log walk_data \<Rightarrow> visit_log pmem \<Rightarrow> nat \<Rightarrow> visit_log \<Rightarrow> visit_log pgwalk_result \<Rightarrow> bool" where
  "step_log data m b' v res \<longleftrightarrow>
     (\<exists>a. res = Some (0, data\<lparr>wd_addr := a\<rparr>, logged m v) \<and> steps_to b' (unat (wd_end data)) a)"

lemma step_log_addr [simp]: "step_log (data\<lparr>wd_addr := a\<rparr>) = step_log data"
  by (intro ext) (simp add: step_log_def)

lemma loop_log:
  assumes env: "arm64_env env" and s: "s < unat (wd_end data)"
    and visit: "\<And>i a m. i < 512 \<Longrightarrow> unat a = max s (b + i * g) \<Longrightarrow> a < wd_end data \<Longrightarrow> s < b + Suc i * g \<Longrightarrow> ptes m = h \<Longrightarrow>
      step_log data m (b + Suc i * g) (f i) (visit (data\<lparr>wd_addr := a\<rparr>) (p + 8 * i) l m)"
    and "ptes m = h" "unat idx \<le> 512" "s < b + Suc (unat idx) * g" "steps_to (max s (b + unat idx * g)) (unat (wd_end data)) a"
  shows "step_log data m (max s (b + 512 * g)) (covered_from (unat idx) 512 g b (unat (wd_end data)) f)
    (kvm_pgtable_walk_loop env visit p l idx (data\<lparr>wd_addr := a\<rparr>) m)"
  using assms(4-)
proof (induction "512 - unat idx" arbitrary: idx a m)
  case 0
  then have i: "\<not> idx < 512" "unat idx = 512" by (simp_all add: word_less_nat_alt)
  have P: "ptrs_per_pte env = 512" using env by (simp add: arm64_env_def)
  have "kvm_pgtable_walk_loop env visit p l idx (data\<lparr>wd_addr := a\<rparr>) m = Some (0, data\<lparr>wd_addr := a\<rparr>, m)"
    using i P by (subst kvm_pgtable_walk_loop.simps) simp
  with 0 i show ?case by (auto simp: step_log_def covered_from_end)
next
  case (Suc n)
  let ?e = "unat (wd_end data)"
  from Suc have i: "idx < 512" "unat idx < 512" by (simp_all add: word_less_nat_alt)
  note i1 = unat_less_Suc [OF i(1)]
  have P: "ptrs_per_pte env = 512" using env by (simp add: arm64_env_def)
  have le: "b + unat idx * g \<le> b + 512 * g" using i by (simp add: mult_le_mono1)
  show ?case
  proof (cases "wd_end data \<le> a")
    case True
    with P i have "kvm_pgtable_walk_loop env visit p l idx (data\<lparr>wd_addr := a\<rparr>) m = Some (0, data\<lparr>wd_addr := a\<rparr>, m)"
      by (subst kvm_pgtable_walk_loop.simps) simp
    moreover have "?e \<le> b + unat idx * g" using Suc.prems(4) True s by (auto simp: steps_to_def word_le_nat_alt)
    moreover from this le have "?e \<le> max s (b + 512 * g)" by (meson order_trans max.cobounded2)
    ultimately show ?thesis using True
      by (auto simp: step_log_def covered_from_stop steps_to_def word_le_nat_alt)
  next
    case False
    then have a: "a < wd_end data" "unat a = max s (b + unat idx * g)"
      using Suc.prems(4) by (auto simp: steps_to_def word_le_nat_alt word_less_nat_alt)
    from visit [OF i(2) a(2,1) Suc.prems(3,1)] obtain a1 where v:
      "visit (data\<lparr>wd_addr := a\<rparr>) (p + 8 * unat idx) l m = Some (0, data\<lparr>wd_addr := a1\<rparr>, logged m (f (unat idx)))"
      "steps_to (b + Suc (unat idx) * g) ?e a1"
      by (auto simp: step_log_def)
    then have loop: "kvm_pgtable_walk_loop env visit p l idx (data\<lparr>wd_addr := a\<rparr>) m =
        kvm_pgtable_walk_loop env visit p l (idx + 1) (data\<lparr>wd_addr := a1\<rparr>) (logged m (f (unat idx)))"
      using P i False by (subst kvm_pgtable_walk_loop.simps) simp
    have "step_log data (logged m (f (unat idx))) (max s (b + 512 * g)) (covered_from (unat (idx + 1)) 512 g b ?e f)
        (kvm_pgtable_walk_loop env visit p l (idx + 1) (data\<lparr>wd_addr := a1\<rparr>) (logged m (f (unat idx))))"
      using Suc.prems Suc.hyps(2) i1 i v(2) by (intro Suc.hyps(1)) (auto simp: max_def steps_to_def)
    moreover have "covered_from (unat idx) 512 g b ?e f = f (unat idx) @ covered_from (unat (idx + 1)) 512 g b ?e f"
      using i i1 a by (simp add: covered_from_step word_less_nat_alt)
    ultimately show ?thesis using loop by (simp add: step_log_def)
  qed
qed

lemma visit_leaf_log:
  assumes "arm64_env env" "wd_walker data = log_walker F" "ptes m q = Some pte" "kvm_pte_table pte l = Some False"
    and "unat l < 4" "unat (wd_end data) \<le> 2 ^ 62" "wd_addr data < wd_end data" "unat (wd_addr data) = b"
  shows "step_log data m (b + gran (unat l)) (visited F 1 b (unat l)) (kvm_pgtable_visit env walk data q l m)"
proof -
  let ?a = "wd_addr data + granule_size env l"
  have "unat (granule_size env l) = gran (unat l)" using assms by (simp add: arm64_env_def)
  moreover have "b + gran (unat l) < 2 ^ 64" using assms gran_le [of "unat l"] by (simp add: word_less_nat_alt)
  ultimately have "unat ?a = b + gran (unat l)" using assms(8) by (simp add: unat_word_ariths)
  then show ?thesis using assms
    by (auto simp: kvm_pgtable_visit_def walk_flags Let_def step_log_def steps_to_def visited_def intro!: exI [of _ ?a])
qed

lemma visit_table_log:
  assumes "wd_walker data = log_walker F" "ptes m q = Some pte" "kvm_pte_table pte l = Some True"
    and walk: "\<And>m'. ptes m' = ptes m \<Longrightarrow> step_log data m' b' v (walk data (pte_follow env pte) (l + 1) m')"
  shows "step_log data m b' (visited F 2 (unat (wd_addr data)) (unat l) @ v @ visited F 4 (unat (wd_addr data)) (unat l))
    (kvm_pgtable_visit env walk data q l m)"
proof -
  let ?m = "logged m (visited F 2 (unat (wd_addr data)) (unat l))"
  from walk [of ?m] obtain a where "walk data (pte_follow env pte) (l + 1) ?m = Some (0, data\<lparr>wd_addr := a\<rparr>, logged ?m v)"
    "steps_to b' (unat (wd_end data)) a" by (auto simp: step_log_def)
  then show ?thesis using assms(1-3)
    by (cases "F AND 2 = 0"; cases "F AND 4 = 0")
      (auto simp: kvm_pgtable_visit_def walk_flags Let_def step_log_def visited_def)
qed

text \<open>The entries of the table at \<open>p\<close>.\<close>

definition table_at :: "'w walk_env \<Rightarrow> (nat, u64) heap \<Rightarrow> u32 \<Rightarrow> nat \<Rightarrow> pgtable list \<Rightarrow> bool" where
  "table_at env h l p ts \<longleftrightarrow> length ts = 512 \<and> (\<forall>i<512. pt_at env h l (p + 8 * i) (ts ! i))"

definition table_visits :: "u64 \<Rightarrow> nat \<Rightarrow> nat \<Rightarrow> nat \<Rightarrow> nat \<Rightarrow> pgtable list \<Rightarrow> visit_log" where
  "table_visits F s e l b ts = covered (length ts) (gran l) b s e (\<lambda>i. visits F s e l (b + i * gran l) (ts ! i))"

lemma idx_block:
  fixes b g s :: nat
  assumes "512 * g dvd b" "0 < g" "s < b + 512 * g"
  defines "i \<equiv> max s b div g mod 512"
  shows "s < b + Suc i * g \<and> (i = 0 \<or> b + i * g \<le> s) \<and> max s (b + i * g) = max s b"
proof -
  obtain k where k: "b = 512 * g * k" using assms(1) by blast
  define x where "x = max s b - b"
  have x: "max s b = b + x" "x < 512 * g" using assms by (auto simp: x_def)
  have "(b + x) div g = 512 * k + x div g" using k assms(2) by (simp add: mult.assoc mult.left_commute [of _ g])
  moreover have "x div g < 512" using x(2) by (simp add: less_mult_imp_div_less mult.commute)
  ultimately have i: "i = x div g" unfolding i_def x(1) by simp
  have "i * g \<le> x" unfolding i by simp
  moreover have "x < Suc i * g" unfolding i using assms(2) dividend_less_div_times [of g x] by (simp add: add.commute)
  ultimately show ?thesis using x i by (cases "s \<le> b") auto
qed

lemma walk_log:
  assumes env: "arm64_env env" and "4 < d + unat l" "unat l < 4"
    and "wd_walker data = log_walker F" "unat (wd_end data) \<le> 2 ^ 62"
    and "table_at env (ptes m) l p ts" "\<And>i. i < 512 \<Longrightarrow> start_ok s (unat l) (b + i * gran (unat l)) (ts ! i)"
    and "512 * gran (unat l) dvd b" "unat (wd_addr data) = max s b" "s < b + 512 * gran (unat l)" "wd_addr data < wd_end data"
  shows "step_log data m (b + 512 * gran (unat l)) (table_visits F s (unat (wd_end data)) (unat l) b ts)
    (kvm_pgtable_walk_depth d env data p l m)"
  using assms(2-)
proof (induction d arbitrary: data l p ts b m)
  case (Suc d)
  let ?g = "gran (unat l)" and ?e = "unat (wd_end data)" and ?idx = "pgtable_idx env data l"
  let ?f = "\<lambda>i. visits F s ?e (unat l) (b + i * ?g) (ts ! i)"
  have idx: "unat ?idx = max s b div ?g mod 512" "unat ?idx < 512"
    using env Suc.prems(2,8) by (simp_all add: arm64_env_def)
  have s: "s < ?e" using Suc.prems(8,10) by (simp add: word_less_nat_alt)
  have visit: "step_log data m' (b + Suc i * ?g) (?f i)
      (kvm_pgtable_visit env (kvm_pgtable_walk_depth d env) (data\<lparr>wd_addr := a\<rparr>) (p + 8 * i) l m')"
    if i: "i < 512" and a: "unat a = max s (b + i * ?g)" "a < wd_end data" and si: "s < b + Suc i * ?g" and m': "ptes m' = ptes m"
    for i a m'
  proof (cases "ts ! i")
    case (PT_leaf pte)
    have t: "pt_at env (ptes m) l (p + 8 * i) (PT_leaf pte)" using Suc.prems(5) i PT_leaf by (simp add: table_at_def flip: PT_leaf)
    have "unat a = b + i * ?g" using Suc.prems(6) [OF i] PT_leaf a(1) si by (simp add: add.commute add.left_commute)
    with visit_leaf_log [OF env, of "data\<lparr>wd_addr := a\<rparr>" F m' "p + 8 * i" pte l "b + i * ?g"] t m' Suc.prems a PT_leaf
    show ?thesis by (simp add: ac_simps)
  next
    case (PT_table pte us)
    have t: "pt_at env (ptes m) l (p + 8 * i) (PT_table pte us)" using Suc.prems(5) i PT_table by (simp add: table_at_def flip: PT_table)
    then have k: "kvm_pte_table pte l = Some True" by simp
    then have "l \<noteq> 3" using kvm_pte_table_3 by auto
    then have l3: "unat l < 3" using Suc.prems(2) by (simp add: word_unat_eq_iff)
    then have l1: "unat (l + 1) = Suc (unat l)" using unat_less_Suc [of l 3] by (simp add: word_less_nat_alt)
    note g = gran_Suc [OF l3]
    have "512 * gran (Suc (unat l)) dvd b + i * ?g"
      unfolding g [symmetric] using dvd_mult_right [OF Suc.prems(7)] by simp
    moreover have "table_at env (ptes m') (l + 1) (pte_follow env pte) us" using t m' by (simp add: table_at_def)
    moreover have "start_ok s (Suc (unat l)) (b + i * ?g + j * gran (Suc (unat l))) (us ! j)" if "j < 512" for j
      using Suc.prems(6) [OF i] PT_table that t by simp
    ultimately have ih: "step_log (data\<lparr>wd_addr := a\<rparr>) m'' (b + Suc i * ?g) (table_visits F s ?e (Suc (unat l)) (b + i * ?g) us)
        (kvm_pgtable_walk_depth d env (data\<lparr>wd_addr := a\<rparr>) (pte_follow env pte) (l + 1) m'')" if "ptes m'' = ptes m'" for m''
      using Suc.IH [of "l + 1" "data\<lparr>wd_addr := a\<rparr>" m'' "pte_follow env pte" us "b + i * ?g"] Suc.prems(1-4) l1 l3 a si g that
      by (simp add: ac_simps)
    have "step_log (data\<lparr>wd_addr := a\<rparr>) m' (b + Suc i * ?g) (visits F s ?e (unat l) (b + i * ?g) (PT_table pte us))
        (kvm_pgtable_visit env (kvm_pgtable_walk_depth d env) (data\<lparr>wd_addr := a\<rparr>) (p + 8 * i) l m')"
      using visit_table_log [where walk = "kvm_pgtable_walk_depth d env", OF _ _ k ih, of F m' "p + 8 * i"] t m' Suc.prems(3) a(1)
      by (simp add: table_visits_def max.commute)
    then show ?thesis by (simp add: PT_table)
  qed
  note blk = idx_block [OF Suc.prems(7) gran_pos(1) Suc.prems(9), folded idx(1)]
  from blk have "steps_to (max s (b + unat ?idx * ?g)) ?e (wd_addr data)"
    using Suc.prems(8) by (auto simp: steps_to_def)
  then show ?case using blk loop_log [where visit = "kvm_pgtable_visit env (kvm_pgtable_walk_depth d env)" and f = ?f and p = p and l = l
        and idx = ?idx and a = "wd_addr data", OF env s visit refl] covered_eq_from [of "unat ?idx" 512 s b ?g ?e ?f]
      idx Suc.prems(2,5,9) by (simp add: KVM_PGTABLE_MAX_LEVELS_def word_le_nat_alt table_at_def table_visits_def)
qed simp

text \<open>The pages of the top level table.\<close>

definition pgd_at :: "'w walk_env \<Rightarrow> (nat, u64) heap \<Rightarrow> u32 \<Rightarrow> nat \<Rightarrow> pgtable list list \<Rightarrow> bool" where
  "pgd_at env h l p pages \<longleftrightarrow> (\<forall>j<length pages. table_at env h l (p + 4096 * j) (pages ! j))"

definition pgd_visits :: "u64 \<Rightarrow> nat \<Rightarrow> nat \<Rightarrow> nat \<Rightarrow> pgtable list list \<Rightarrow> visit_log" where
  "pgd_visits F s e l pages = covered (length pages) (512 * gran l) 0 s e
     (\<lambda>j. table_visits F s e l (j * (512 * gran l)) (pages ! j))"

definition pgd_start_ok :: "nat \<Rightarrow> nat \<Rightarrow> pgtable list list \<Rightarrow> bool" where
  "pgd_start_ok s l pages \<longleftrightarrow>
     (\<forall>j<length pages. \<forall>i<512. start_ok s l (j * (512 * gran l) + i * gran l) (pages ! j ! i))"

lemma walk_pgd_log:
  assumes env: "arm64_env env" and w: "wd_walker data = log_walker F" and l: "l = start_level (wd_pgt data)" "unat l < 4"
    and T: "T = 512 * gran (unat l)"
    and e: "unat (wd_end data) \<le> 2 ^ 62" "unat (wd_end data) \<le> 2 ^ 23 * T" "unat (wd_end data) \<le> length pages * T"
    and ok: "pgd_start_ok s (unat l) pages" and s: "s < unat (wd_end data)"
    and "pgd_at env (ptes m) l p pages" "s < Suc (unat idx) * T" "steps_to (max s (unat idx * T)) (unat (wd_end data)) a"
  shows "\<exists>a'. kvm_pgtable_walk_pgd env p idx (data\<lparr>wd_addr := a\<rparr>) m = Some (0, data\<lparr>wd_addr := a'\<rparr>,
    logged m (covered_from (unat idx) (length pages) T 0 (unat (wd_end data))
      (\<lambda>j. table_visits F s (unat (wd_end data)) (unat l) (j * T) (pages ! j))))"
  using assms(11-)
proof (induction "length pages - unat idx" arbitrary: idx a m rule: less_induct)
  case less
  let ?e = "unat (wd_end data)" and ?i = "unat idx"
  have T0: "0 < T" using T by simp
  show ?case
  proof (cases "a < wd_end data")
    case False
    then have "?e \<le> ?i * T" using less.prems(3) s by (auto simp: steps_to_def word_less_nat_alt)
    with False show ?thesis by (subst kvm_pgtable_walk_pgd.simps) (auto simp: covered_from_stop)
  next
    case True
    have P: "ptrs_per_pte env = 512" using env by (simp add: arm64_env_def)
    have a: "unat a = max s (?i * T)" using less.prems(3) True by (auto simp: steps_to_def word_less_nat_alt)
    then have ie: "?i * T < ?e" using True by (simp add: word_less_nat_alt)
    then have "?i * T < 2 ^ 23 * T" "?i * T < length pages * T" using e by linarith+
    then have i: "?i < 2 ^ 23" "?i < length pages" using T0 by simp_all
    then have u: "unat (idx * 512) = ?i * 512" "unat (idx + 1) = Suc ?i" by (simp_all add: unat_word_ariths)
    have "step_log (data\<lparr>wd_addr := a\<rparr>) m (Suc ?i * T) (table_visits F s ?e (unat l) (?i * T) (pages ! ?i))
        (kvm_pgtable_walk_level env (data\<lparr>wd_addr := a\<rparr>) (p + 8 * unat (idx * 512)) l m)"
      using walk_log [OF env, of 5 l "data\<lparr>wd_addr := a\<rparr>" F m "p + 4096 * ?i" "pages ! ?i" s "?i * T"]
        l w e less.prems ok i u a True
      by (simp add: T kvm_pgtable_walk_level_def pgd_at_def pgd_start_ok_def ac_simps)
    then obtain a1 where v: "kvm_pgtable_walk_level env (data\<lparr>wd_addr := a\<rparr>) (p + 8 * unat (idx * 512)) l m =
        Some (0, data\<lparr>wd_addr := a1\<rparr>, logged m (table_visits F s ?e (unat l) (?i * T) (pages ! ?i)))"
      "steps_to (Suc ?i * T) ?e a1" by (auto simp: step_log_def)
    have "s < Suc (unat (idx + 1)) * T" "max s (unat (idx + 1) * T) = Suc ?i * T"
      using less.prems(2) u(2) by auto
    then have "\<exists>a'. kvm_pgtable_walk_pgd env p (idx + 1) (data\<lparr>wd_addr := a1\<rparr>)
        (logged m (table_visits F s ?e (unat l) (?i * T) (pages ! ?i))) = Some (0, data\<lparr>wd_addr := a'\<rparr>,
        logged (logged m (table_visits F s ?e (unat l) (?i * T) (pages ! ?i))) (covered_from (unat (idx + 1)) (length pages) T 0 ?e
        (\<lambda>j. table_visits F s ?e (unat l) (j * T) (pages ! j))))"
      using less.prems(1) u(2) i(2) v(2) by (intro less.hyps) simp_all
    then show ?thesis using True v(1) P l(1) u(2) i ie
      by (subst kvm_pgtable_walk_pgd.simps) (simp add: covered_from_step)
  qed
qed

subsection \<open>A walk inside one leaf\<close>

text \<open>
  \<open>leads_to env h a l p L pte\<close>: the entries that translate the address \<open>a\<close>, from the table \<open>p\<close> of level \<open>l\<close> on, lead to the leaf \<open>pte\<close> of level \<open>L\<close>.
\<close>

inductive leads_to :: "'w walk_env \<Rightarrow> (nat, u64) heap \<Rightarrow> nat \<Rightarrow> u32 \<Rightarrow> nat \<Rightarrow> u32 \<Rightarrow> u64 \<Rightarrow> bool" for env h a where
  leads_leaf: "h (p + 8 * (a div gran (unat l) mod 512)) = Some pte \<Longrightarrow> kvm_pte_table pte l = Some False \<Longrightarrow> leads_to env h a l p l pte"
| leads_table: "h (p + 8 * (a div gran (unat l) mod 512)) = Some pte \<Longrightarrow> kvm_pte_table pte l = Some True \<Longrightarrow>
    leads_to env h a (l + 1) (pte_follow env pte) L lpte \<Longrightarrow> leads_to env h a l p L lpte"

text \<open>The visits of a walk that meets, from level \<open>l\<close> on, a single leaf of level \<open>L\<close>: the tables above it, the leaf, and the tables again.\<close>

definition path_visits :: "u64 \<Rightarrow> nat \<Rightarrow> nat \<Rightarrow> nat \<Rightarrow> visit_log" where
  "path_visits F a l L = concat (map (visited F 2 a) [l..<L]) @ visited F 1 a L @ concat (map (visited F 4 a) (rev [l..<L]))"

lemma path_visits_simps:
  "path_visits F a l l = visited F 1 a l"
  "l < L \<Longrightarrow> path_visits F a l L = visited F 2 a l @ path_visits F a (Suc l) L @ visited F 4 a l"
  by (simp_all add: path_visits_def upt_conv_Cons)

lemma path_visits_leaf: "(x, k, 1) \<in> set (path_visits F a l L) \<Longrightarrow> x = a \<and> k = L"
  by (auto simp: path_visits_def visited_def split: if_splits)

text \<open>The loop ends after an entry that takes the walk past the end of the range.\<close>

lemma loop_stop:
  assumes "ptrs_per_pte env = 512" "unat idx < 512" "wd_addr data < wd_end data" "unat (wd_end data) \<le> b"
    and "step_log data m b v (visit data (p + 8 * unat idx) l m)"
  shows "step_log data m b v (kvm_pgtable_walk_loop env visit p l idx data m)"
proof -
  from assms(5) obtain a where a: "visit data (p + 8 * unat idx) l m = Some (0, data\<lparr>wd_addr := a\<rparr>, logged m v)"
    "steps_to b (unat (wd_end data)) a" by (auto simp: step_log_def)
  then have "wd_end data \<le> a" using assms(4) by (auto simp: steps_to_def word_le_nat_alt)
  then have "kvm_pgtable_walk_loop env visit p l (idx + 1) (data\<lparr>wd_addr := a\<rparr>) (logged m v) = Some (0, data\<lparr>wd_addr := a\<rparr>, logged m v)"
    by (subst kvm_pgtable_walk_loop.simps) simp
  moreover have "idx < 512" using assms(2) by (simp add: word_less_nat_alt)
  ultimately have "kvm_pgtable_walk_loop env visit p l idx data m = Some (0, data\<lparr>wd_addr := a\<rparr>, logged m v)"
    using assms(1,3) a(1) by (subst kvm_pgtable_walk_loop.simps) simp
  then show ?thesis unfolding step_log_def using a(2) by blast
qed

lemma leads_to_level: "leads_to env h a l p L pte \<Longrightarrow> unat l < 4 \<Longrightarrow> unat l \<le> unat L \<and> unat L < 4"
proof (induction rule: leads_to.induct)
  case (leads_table p l pte L lpte)
  then have "l \<noteq> 3" using kvm_pte_table_3 by auto
  then have "unat l < 3" using leads_table.prems by (simp add: word_unat_eq_iff)
  moreover then have "unat (l + 1) = Suc (unat l)" using unat_less_Suc [of l 3] by (simp add: word_less_nat_alt)
  ultimately show ?case using leads_table.IH by simp
qed simp

lemma walk_leaf_log:
  assumes env: "arm64_env env" and "leads_to env (ptes m) (unat (wd_addr data)) l p L pte"
    and "4 < d + unat l" "unat l < 4" "wd_walker data = log_walker F"
    and "unat (wd_end data) \<le> 2 ^ 62" "wd_addr data < wd_end data" "unat (wd_end data) \<le> unat (wd_addr data) + gran (unat L)"
  shows "step_log data m (unat (wd_addr data) + gran (unat L)) (path_visits F (unat (wd_addr data)) (unat l) (unat L))
    (kvm_pgtable_walk_depth d env data p l m)"
  using assms(2-)
proof (induction d arbitrary: l p m)
  case (Suc d)
  let ?a = "unat (wd_addr data)" and ?idx = "pgtable_idx env data l"
  have P: "ptrs_per_pte env = 512" using env by (simp add: arm64_env_def)
  have idx: "unat ?idx = ?a div gran (unat l) mod 512" using env Suc.prems(3) by (simp add: arm64_env_def)
  then have i: "unat ?idx < 512" by simp
  have "step_log data m (?a + gran (unat L)) (path_visits F ?a (unat l) (unat L))
      (kvm_pgtable_visit env (kvm_pgtable_walk_depth d env) data (p + 8 * unat ?idx) l m)"
    using Suc.prems(1)
  proof cases
    case leads_leaf
    then show ?thesis using visit_leaf_log [OF env Suc.prems(4)] Suc.prems(3,5,6) by (simp add: idx path_visits_simps(1))
  next
    case (leads_table tpte)
    have "l \<noteq> 3" using leads_table(2) kvm_pte_table_3 by auto
    then have l3: "unat l < 3" using Suc.prems(3) by (simp add: word_unat_eq_iff)
    then have l1: "unat (l + 1) = Suc (unat l)" using unat_less_Suc [of l 3] by (simp add: word_less_nat_alt)
    have "step_log data m' (?a + gran (unat L)) (path_visits F ?a (Suc (unat l)) (unat L))
        (kvm_pgtable_walk_depth d env data (pte_follow env tpte) (l + 1) m')" if "ptes m' = ptes m" for m'
      using Suc.IH [of m' "l + 1" "pte_follow env tpte"] leads_table(3) Suc.prems(2,4-7) l1 l3 that by simp
    from visit_table_log [where walk = "kvm_pgtable_walk_depth d env", OF Suc.prems(4) leads_table(1,2) this]
    show ?thesis using leads_to_level [OF leads_table(3)] l1 l3 by (simp add: idx path_visits_simps(2))
  qed
  from loop_stop [where visit = "kvm_pgtable_visit env (kvm_pgtable_walk_depth d env)", OF P i Suc.prems(6,7) this]
  show ?case using Suc.prems(3) by (simp add: KVM_PGTABLE_MAX_LEVELS_def word_le_nat_alt)
qed simp

section \<open>Properties\<close>

lemma pgt_limit:
  assumes "pgt_ok pgt"
  shows "\<exists>limit. BIT (uint (ia_bits pgt)) = Some limit \<and> unat limit = 2 ^ unat (ia_bits pgt)"
proof -
  let ?n = "unat (ia_bits pgt)"
  have n: "uint (ia_bits pgt) = int ?n" "?n \<le> 62" using assms by (simp_all add: pgt_ok_def)
  then have "uint (ia_bits pgt) < 64" by linarith
  then have "BIT (uint (ia_bits pgt)) = Some (push_bit ?n 1)" by (simp add: BIT_def)
  moreover have "unat (push_bit ?n 1 :: u64) = 2 ^ ?n"
  proof -
    have "(2 :: nat) ^ ?n < 2 ^ 64" using n(2) by (intro power_strict_increasing) simp_all
    then have "unat (word_of_nat (2 ^ ?n) :: u64) = 2 ^ ?n" by (simp only: unsigned_of_nat) (use n(2) in \<open>simp add: take_bit_nat_eq_self\<close>)
    then show ?thesis by (simp add: push_bit_eq_mult)
  qed
  ultimately show ?thesis by simp
qed

text \<open>The range that \<open>kvm_pgtable_walk\<close> walks.\<close>

definition walk_start :: "'w walk_env \<Rightarrow> u64 \<Rightarrow> u64" where
  "walk_start env addr = page_align_down env addr"

definition walk_end :: "'w walk_env \<Rightarrow> u64 \<Rightarrow> u64 \<Rightarrow> u64" where
  "walk_end env addr sz = page_align env (walk_start env addr + sz)"

text \<open>
  C23. The walk returns and is memory safe, whatever the callback does within its contract: for every invariant of the memory under
  which the entries of the tables can be read and which the callback keeps (it may change entries, and turn the leaf
  it is called on into a table), \<open>kvm_pgtable_walk\<close> terminates, keeps the invariant, and returns \<open>-ERANGE\<close> on a range
  out of the input address space and \<open>-EINVAL\<close> without a top level table, both without any effect; otherwise it returns 0, or a value
  that the callback returned.
\<close>

theorem kvm_pgtable_walk_returns:
  assumes env: "arm64_env env" and w: "walk_world env walker Inv tbl R" and m: "Inv m"
    and pgt: "pgt_ok pgt" "\<And>n. pgd pgt \<noteq> Poison n"
    and t: "\<And>p j. pgd pgt = Addr p \<Longrightarrow> j * (512 * gran (unat (start_level pgt))) < 2 ^ unat (ia_bits pgt) \<Longrightarrow>
      tbl (unat (start_level pgt)) (p + 4096 * j)"
  shows "\<exists>r m'. kvm_pgtable_walk env pgt addr sz walker m = Some (r, m') \<and> Inv m' \<and>
    (if 2 ^ unat (ia_bits pgt) < unat (walk_start env addr) \<or> 2 ^ unat (ia_bits pgt) < unat (walk_end env addr sz)
     then r = - erange env \<and> m' = m
     else if pgd pgt = NULL then r = - PGTABLE_EINVAL \<and> m' = m
     else r \<in> insert 0 R)"
proof -
  let ?a = "walk_start env addr" and ?e = "walk_end env addr sz" and ?T = "512 * gran (unat (start_level pgt))"
  let ?data = "\<lparr>wd_pgt = pgt, wd_addr = ?a, wd_end = ?e, wd_walker = walker\<rparr>"
  obtain limit where lim: "BIT (uint (ia_bits pgt)) = Some limit" "unat limit = 2 ^ unat (ia_bits pgt)"
    using pgt_limit [OF pgt(1)] by blast
  have run: "kvm_pgtable_walk env pgt addr sz walker m =
      do { (ret, data, m) \<leftarrow> kvm_pgtable_walk_range env ?data m; Some (ret, m) }"
    by (simp add: kvm_pgtable_walk_def walk_start_def walk_end_def Let_def)
  show ?thesis
  proof (cases "2 ^ unat (ia_bits pgt) < unat ?a \<or> 2 ^ unat (ia_bits pgt) < unat ?e")
    case True
    with lim m run show ?thesis by (auto simp: kvm_pgtable_walk_range_def word_less_nat_alt)
  next
    case False
    show ?thesis
    proof (cases "pgd pgt")
      case NULL
      with False lim m run show ?thesis by (simp add: kvm_pgtable_walk_range_def word_less_nat_alt)
    next
      case (Addr p)
      have e: "unat ?e \<le> 2 ^ unat (ia_bits pgt)" using False by simp
      also have "(2 :: nat) ^ unat (ia_bits pgt) \<le> 2 ^ 62"
        using pgt(1) by (intro power_increasing) (simp_all add: pgt_ok_def)
      finally have e62: "unat ?e \<le> 2 ^ 62" .
      have "unat (pgd_page_idx env ?data) = unat ?a div ?T" if "?a < ?e"
        using that e env pgt(1) by (simp add: arm64_env_def pgt_ok_def word_less_nat_alt)
      moreover have "unat ?e \<le> 2 ^ 23 * ?T" using e pgt(1) by (simp add: pgt_ok_def)
      moreover have "tbl (unat (start_level pgt)) (p + 4096 * j)" if "j * ?T < unat ?e" for j
        using t [OF Addr] less_le_trans [OF that e] .
      ultimately have "\<exists>r a' m'. kvm_pgtable_walk_pgd env p (pgd_page_idx env ?data) (?data\<lparr>wd_addr := ?a\<rparr>) m =
          Some (r, ?data\<lparr>wd_addr := a'\<rparr>, m') \<and> Inv m' \<and> r \<in> insert 0 R \<and> (r = 0 \<longrightarrow> wd_end ?data \<le> a')"
        using w m pgt(1) e62
        by (intro walk_pgd_ok [where tbl = tbl and T = ?T, OF env]) (simp_all add: pgt_ok_def)
      with False lim run Addr show ?thesis by (auto simp: kvm_pgtable_walk_range_def word_less_nat_alt)
    qed (use pgt(2) in simp)
  qed
qed

text \<open>
  C24. The walk visits the entries of the range: with a callback that records its calls, on a page table of four or less levels and
  a range that starts at the first address of a leaf, \<open>kvm_pgtable_walk\<close> calls back exactly on the leaves and tables that
  translate an address of the range, in the order of the addresses, on a table before and after its entries, and only for the kinds of visits that
  the flags ask for.
\<close>

theorem kvm_pgtable_walk_visits:
  assumes env: "arm64_env env" and pgt: "pgt_ok pgt" "pgd pgt = Addr p"
    and pages: "pgd_at env (ptes m) (start_level pgt) p pages"
      "2 ^ unat (ia_bits pgt) \<le> length pages * (512 * gran (unat (start_level pgt)))"
    and r: "walk_start env addr < walk_end env addr sz" "unat (walk_end env addr sz) \<le> 2 ^ unat (ia_bits pgt)"
    and ok: "pgd_start_ok (unat (walk_start env addr)) (unat (start_level pgt)) pages"
  shows "kvm_pgtable_walk env pgt addr sz (log_walker F) m = Some (0, logged m
    (pgd_visits F (unat (walk_start env addr)) (unat (walk_end env addr sz)) (unat (start_level pgt)) pages))"
proof -
  let ?a = "walk_start env addr" and ?e = "walk_end env addr sz" and ?l = "start_level pgt"
  let ?T = "512 * gran (unat ?l)"
  let ?data = "\<lparr>wd_pgt = pgt, wd_addr = ?a, wd_end = ?e, wd_walker = log_walker F\<rparr>"
  let ?idx = "pgd_page_idx env ?data"
  obtain limit where lim: "BIT (uint (ia_bits pgt)) = Some limit" "unat limit = 2 ^ unat (ia_bits pgt)"
    using pgt_limit [OF pgt(1)] by blast
  have run: "kvm_pgtable_walk env pgt addr sz (log_walker F) m =
      do { (ret, data, m) \<leftarrow> kvm_pgtable_walk_range env ?data m; Some (ret, m) }"
    by (simp add: kvm_pgtable_walk_def walk_start_def walk_end_def Let_def)
  note r(2)
  also have "(2 :: nat) ^ unat (ia_bits pgt) \<le> 2 ^ 62"
    using pgt(1) by (intro power_increasing) (simp_all add: pgt_ok_def)
  finally have e62: "unat ?e \<le> 2 ^ 62" .
  have idx: "unat ?idx = unat ?a div ?T"
    using r env pgt(1) by (simp add: arm64_env_def pgt_ok_def word_less_nat_alt)
  have T: "0 < ?T" by simp
  have a: "unat ?idx * ?T \<le> unat ?a" "unat ?a < Suc (unat ?idx) * ?T"
    unfolding idx using dividend_less_div_times [OF T, of "unat ?a"] by (simp_all add: add.commute del: mult_Suc_right)
  have ip: "unat ?idx \<le> length pages"
  proof -
    have "unat ?a < length pages * ?T" using r pages(2) unfolding word_less_nat_alt by linarith
    with a(1) have "unat ?idx * ?T < length pages * ?T" by (rule le_less_trans)
    then show ?thesis by simp
  qed
  have "\<exists>a'. kvm_pgtable_walk_pgd env p ?idx (?data\<lparr>wd_addr := ?a\<rparr>) m = Some (0, ?data\<lparr>wd_addr := a'\<rparr>,
    logged m (covered_from (unat ?idx) (length pages) ?T 0 (unat (wd_end ?data))
      (\<lambda>j. table_visits F (unat ?a) (unat (wd_end ?data)) (unat ?l) (j * ?T) (pages ! j))))"
    by (rule walk_pgd_log [OF env]) (use pgt r pages ok e62 a in \<open>simp_all add: pgt_ok_def steps_to_def word_less_nat_alt\<close>)
  moreover have "covered_from (unat ?idx) (length pages) ?T 0 (unat ?e)
      (\<lambda>j. table_visits F (unat ?a) (unat ?e) (unat ?l) (j * ?T) (pages ! j)) = pgd_visits F (unat ?a) (unat ?e) (unat ?l) pages"
    unfolding pgd_visits_def by (rule covered_eq_from [symmetric, OF ip]) (use a in auto)
  moreover have "\<not> limit < ?a" "\<not> limit < ?e" using lim(2) r by (simp_all add: word_less_nat_alt)
  ultimately show ?thesis using lim(1) run pgt(2) by (auto simp: kvm_pgtable_walk_range_def)
qed

text \<open>The functions of the environment for pages of 4 KiB and an identity mapping of physical addresses.\<close>

definition std_env :: "'w walk_env" where
  "std_env = \<lparr>granule_size = (\<lambda>l. word_of_nat (gran (unat l))),
     pgtable_idx = (\<lambda>d l. word_of_nat (unat (wd_addr d) div gran (unat l) mod 512)),
     pgd_page_idx = (\<lambda>d. word_of_nat (unat (wd_addr d) mod 2 ^ unat (ia_bits (wd_pgt d)) div
       (512 * gran (unat (start_level (wd_pgt d)))))),
     pte_follow = (\<lambda>pte. unat (pte AND bits 47 12)),
     page_align_down = (\<lambda>a. word_of_nat (unat a div 4096 * 4096)),
     page_align = (\<lambda>a. word_of_nat (unat (a + 4095) div 4096 * 4096)),
     ptrs_per_pte = 512, erange = 34\<rparr>"

lemma unat_word_of_nat64: "n < 2 ^ 64 \<Longrightarrow> unat (word_of_nat n :: u64) = n"
  by (simp only: unsigned_of_nat) (simp add: take_bit_nat_eq_self)

lemma unat_word_of_nat32: "n < 2 ^ 32 \<Longrightarrow> unat (word_of_nat n :: u32) = n"
  by (simp only: unsigned_of_nat) (simp add: take_bit_nat_eq_self)

lemma std_env_arm64: "arm64_env std_env"
proof -
  have "unat (word_of_nat (gran n) :: u64) = gran n" for n
    using gran_le [of n] by (intro unat_word_of_nat64) simp
  moreover have "unat (word_of_nat (n mod 512) :: u32) = n mod 512" for n
    by (intro unat_word_of_nat32) (simp add: less_trans [OF mod_less_divisor])
  moreover have "unat (word_of_nat (unat a div 4096 * 4096) :: u64) = unat a div 4096 * 4096" for a :: u64
  proof (rule unat_word_of_nat64)
    have "unat a div 4096 * 4096 \<le> unat a" by simp
    also have "unat a < 2 ^ LENGTH(64)" by (rule unsigned_less)
    finally show "unat a div 4096 * 4096 < 2 ^ 64" by simp
  qed
  moreover have "unat (word_of_nat (n mod 2 ^ unat (ia_bits pgt) div (512 * gran (unat (start_level pgt)))) :: u32) =
      n mod 2 ^ unat (ia_bits pgt) div (512 * gran (unat (start_level pgt)))" if "pgt_ok pgt" for n pgt
  proof (rule unat_word_of_nat32)
    have "n mod 2 ^ unat (ia_bits pgt) < 2 ^ unat (ia_bits pgt)" by simp
    also have "\<dots> \<le> 2 ^ 23 * (512 * gran (unat (start_level pgt)))" using that by (simp add: pgt_ok_def)
    finally have "n mod 2 ^ unat (ia_bits pgt) div (512 * gran (unat (start_level pgt))) < 2 ^ 23"
      by (rule less_mult_imp_div_less)
    then show "n mod 2 ^ unat (ia_bits pgt) div (512 * gran (unat (start_level pgt))) < 2 ^ 32" by simp
  qed
  ultimately show ?thesis by (simp add: arm64_env_def std_env_def)
qed

text \<open>A page table with a single page of entries at the address 0, all of them invalid.\<close>

definition empty_pgt :: "u32 \<Rightarrow> u32 \<Rightarrow> kvm_pgtable" where
  "empty_pgt ia level = \<lparr>ia_bits = ia, start_level = level, pgd = Addr 0\<rparr>"

definition empty_mem :: "visit_log pmem" where
  "empty_mem = \<lparr>ptes = (\<lambda>_. Some 0), world = []\<rparr>"

lemma invalid_pte: "kvm_pte_table 0 l = Some False"
  by (simp add: kvm_pte_table_def kvm_pte_valid_eq)

lemma std_range:
  "walk_start std_env addr = word_of_nat (unat addr div 4096 * 4096)"
  "walk_end std_env addr sz = word_of_nat (unat (word_of_nat (unat addr div 4096 * 4096) + sz + 4095) div 4096 * 4096)"
  by (simp_all add: walk_start_def walk_end_def std_env_def)

theorem kvm_pgtable_walk_returns_witness:
  "\<exists>m'. kvm_pgtable_walk std_env (empty_pgt 21 3) 0 8192 (log_walker 1) empty_mem = Some (0, m')"
proof -
  let ?Inv = "\<lambda>m :: visit_log pmem. ptes m = (\<lambda>_. Some 0)" and ?tbl = "\<lambda>l p :: nat. l = (3 :: nat) \<and> p = 0"
  have w: "walk_world std_env (log_walker 1) ?Inv ?tbl {}"
    unfolding walk_world_def by (simp add: invalid_pte log_walker_def)
  have p: "pgt_ok (empty_pgt 21 3)" "\<And>n. pgd (empty_pgt 21 3) \<noteq> Poison n" by (simp_all add: pgt_ok_def empty_pgt_def gran_def)
  have m: "?Inv empty_mem" by (simp add: empty_mem_def)
  have t: "?tbl (unat (start_level (empty_pgt 21 3))) (p + 4096 * j)"
    if "pgd (empty_pgt 21 3) = Addr p" "j * (512 * gran (unat (start_level (empty_pgt 21 3)))) < 2 ^ unat (ia_bits (empty_pgt 21 3))" for p j
    using that by (simp add: empty_pgt_def gran_def)
  show ?thesis
    using kvm_pgtable_walk_returns [where addr = 0 and sz = 8192, OF std_env_arm64 w m p t]
    by (auto simp: empty_pgt_def std_range)
qed

lemma empty_pgd_at: "pgd_at env (ptes empty_mem) l 0 [replicate 512 (PT_leaf 0)]"
  by (simp add: pgd_at_def table_at_def empty_mem_def invalid_pte)

theorem kvm_pgtable_walk_visits_witness:
  "kvm_pgtable_walk std_env (empty_pgt 21 3) 4097 8192 (log_walker 7) empty_mem =
   Some (0, logged empty_mem [(4096, 3, 1), (8192, 3, 1)])"
proof -
  have "pgd_visits 7 4096 12288 3 [replicate 512 (PT_leaf 0)] = [(4096, 3, 1), (8192, 3, 1)]"
    by (simp add: pgd_visits_def covered_def table_visits_def visited_def upt_rec gran_def)
  then show ?thesis
    using kvm_pgtable_walk_visits [OF std_env_arm64, where pgt = "empty_pgt 21 3" and m = empty_mem and F = 7 and p = 0
        and pages = "[replicate 512 (PT_leaf 0)]" and addr = 4097 and sz = 8192]
    by (auto simp: empty_pgd_at pgd_start_ok_def pgt_ok_def empty_pgt_def gran_def std_range Suc_le_eq)
qed

text \<open>
  C25. A walk that does not start at the first address of a leaf misses entries: after a leaf, the walk adds the size of the entry to an address that is
  not aligned to it. Let the range start in a leaf (a block or page, or an invalid entry) of any level \<open>L\<close>, and end beyond the end \<open>b\<close> of that leaf, but no
  further than the size of a leaf after its start. Then the walk returns 0 after it called back on that leaf and the tables above it only: on no
  leaf that translates the address \<open>b\<close>, which is in the range.
\<close>

theorem kvm_pgtable_walk_skips:
  assumes env: "arm64_env env" and pgt: "pgt_ok pgt" "pgd pgt = Addr p"
    and leaf: "leads_to env (ptes m) (unat (walk_start env addr)) (start_level pgt)
      (p + 4096 * (unat (walk_start env addr) div (512 * gran (unat (start_level pgt))))) L pte"
    and r: "unat (walk_start env addr) < b" "gran (unat L) dvd b" "b < unat (walk_end env addr sz)"
      "unat (walk_end env addr sz) \<le> unat (walk_start env addr) + gran (unat L)" "unat (walk_end env addr sz) \<le> 2 ^ unat (ia_bits pgt)"
  shows "kvm_pgtable_walk env pgt addr sz (log_walker F) m =
      Some (0, logged m (path_visits F (unat (walk_start env addr)) (unat (start_level pgt)) (unat L))) \<and>
    (\<forall>x k. (x, k, 1) \<in> set (path_visits F (unat (walk_start env addr)) (unat (start_level pgt)) (unat L)) \<longrightarrow>
      x div gran k \<noteq> b div gran k)"
proof
  let ?a = "walk_start env addr" and ?e = "walk_end env addr sz" and ?l = "start_level pgt"
  let ?T = "512 * gran (unat ?l)"
  let ?data = "\<lparr>wd_pgt = pgt, wd_addr = ?a, wd_end = ?e, wd_walker = log_walker F\<rparr>"
  let ?idx = "pgd_page_idx env ?data"
  obtain limit where lim: "BIT (uint (ia_bits pgt)) = Some limit" "unat limit = 2 ^ unat (ia_bits pgt)"
    using pgt_limit [OF pgt(1)] by blast
  have "unat ?a < unat ?e" using r(1,3) by linarith
  then have ae: "?a < ?e" "unat ?a < 2 ^ unat (ia_bits pgt)" using r(5) by (simp_all add: word_less_nat_alt)
  have "(2 :: nat) ^ unat (ia_bits pgt) \<le> 2 ^ 62" using pgt(1) by (intro power_increasing) (simp_all add: pgt_ok_def)
  with r(5) have e62: "unat ?e \<le> 2 ^ 62" by (rule le_trans)
  have idx: "unat ?idx = unat ?a div ?T" using ae(2) env pgt(1) by (simp add: arm64_env_def)
  have "unat ?a < 2 ^ 23 * ?T" using ae(2) pgt(1) unfolding pgt_ok_def by linarith
  then have "unat ?idx < 2 ^ 23" unfolding idx by (rule less_mult_imp_div_less)
  moreover have P: "ptrs_per_pte env = 512" using env by (simp add: arm64_env_def)
  ultimately have u: "p + 8 * unat (?idx * ptrs_per_pte env) = p + 4096 * (unat ?a div ?T)" by (simp add: unat_word_ariths idx)
  have "step_log ?data m (unat ?a + gran (unat L)) (path_visits F (unat ?a) (unat ?l) (unat L))
      (kvm_pgtable_walk_level env ?data (p + 8 * unat (?idx * ptrs_per_pte env)) ?l m)"
    unfolding kvm_pgtable_walk_level_def u
    using walk_leaf_log [OF env, where data = ?data and d = 5 and F = F] leaf pgt(1) e62 ae(1) r(4) by (simp add: pgt_ok_def)
  then obtain a' where w: "kvm_pgtable_walk_level env ?data (p + 8 * unat (?idx * ptrs_per_pte env)) ?l m =
      Some (0, ?data\<lparr>wd_addr := a'\<rparr>, logged m (path_visits F (unat ?a) (unat ?l) (unat L)))" "steps_to (unat ?a + gran (unat L)) (unat ?e) a'"
    by (auto simp: step_log_def)
  then have "\<not> a' < ?e" using r(4) by (auto simp: steps_to_def word_less_nat_alt)
  then have "kvm_pgtable_walk_pgd env p (?idx + 1) (?data\<lparr>wd_addr := a'\<rparr>) n = Some (0, ?data\<lparr>wd_addr := a'\<rparr>, n)" for n
    by (subst kvm_pgtable_walk_pgd.simps) simp
  then have "kvm_pgtable_walk_pgd env p ?idx ?data m =
      Some (0, ?data\<lparr>wd_addr := a'\<rparr>, logged m (path_visits F (unat ?a) (unat ?l) (unat L)))"
    using ae(1) w(1) by (subst kvm_pgtable_walk_pgd.simps) simp
  moreover have "\<not> limit < ?a" "\<not> limit < ?e" using lim(2) ae(2) r(5) by (simp_all add: word_less_nat_alt)
  ultimately show "kvm_pgtable_walk env pgt addr sz (log_walker F) m =
      Some (0, logged m (path_visits F (unat ?a) (unat ?l) (unat L)))"
    using lim(1) pgt(2) by (simp add: kvm_pgtable_walk_def kvm_pgtable_walk_range_def walk_start_def walk_end_def Let_def)
  have "unat ?a div gran (unat L) < b div gran (unat L)" using r(1,2) by (auto simp: less_mult_imp_div_less mult.commute elim!: dvdE)
  then show "\<forall>x k. (x, k, 1) \<in> set (path_visits F (unat ?a) (unat ?l) (unat L)) \<longrightarrow> x div gran k \<noteq> b div gran k"
    using path_visits_leaf by fastforce
qed

text \<open>
  Two levels: the entry 0 of the table of level 1 at the address 0 leads to a table of level 2 at \<open>0x1000\<close> with valid blocks of 2 MiB. The range from \<open>0x1000\<close> to
  \<open>0x201000\<close> meets two of them, and the walk calls back on the first only.
\<close>

definition block_pgt :: kvm_pgtable where
  "block_pgt = \<lparr>ia_bits = 39, start_level = 1, pgd = Addr 0\<rparr>"

definition block_mem :: "visit_log pmem" where
  "block_mem = \<lparr>ptes = (\<lambda>q. Some (if q < 0x1000 then 0x1003 else 0x401)), world = []\<rparr>"

theorem kvm_pgtable_walk_skips_witness:
  "kvm_pgtable_walk std_env block_pgt 0x1000 0x200000 (log_walker 1) block_mem = Some (0, logged block_mem [(0x1000, 2, 1)]) \<and>
   kvm_pte_valid 0x401 = Some True"
proof
  show v: "kvm_pte_valid 0x401 = Some True" by (simp add: kvm_pte_valid_eq)
  have t: "kvm_pte_table 0x1003 1 = Some True" "kvm_pte_table 0x401 2 = Some False"
    by (simp_all add: kvm_pte_table_def kvm_pte_valid_eq masks FIELD_GET_eq KVM_PGTABLE_MAX_LEVELS_def KVM_PTE_TYPE_TABLE_def)
      (simp_all add: bits_def)
  have b: "pgt_ok block_pgt" "pgd block_pgt = Addr 0" by (simp_all add: pgt_ok_def block_pgt_def gran_def)
  have f: "pte_follow (std_env :: visit_log walk_env) 0x1003 = 0x1000" by (simp add: std_env_def bits_def mask_eq_exp_minus_1 push_bit_eq_mult)
  have l2: "leads_to (std_env :: visit_log walk_env) (ptes block_mem) 0x1000 2 0x1000 2 0x401" by (rule leads_leaf) (simp_all add: block_mem_def t)
  have "leads_to (std_env :: visit_log walk_env) (ptes block_mem) 0x1000 1 0 2 0x401"
    by (rule leads_table [where pte = "0x1003"]) (use l2 in \<open>simp_all add: block_mem_def t f gran_def\<close>)
  then have l: "leads_to (std_env :: visit_log walk_env) (ptes block_mem) (unat (walk_start (std_env :: visit_log walk_env) 0x1000)) (start_level block_pgt)
      (0 + 4096 * (unat (walk_start (std_env :: visit_log walk_env) 0x1000) div (512 * gran (unat (start_level block_pgt))))) 2 0x401"
    by (simp add: std_range block_pgt_def gran_def)
  have "path_visits 1 0x1000 1 2 = [(0x1000, 2, 1)]" by (simp add: path_visits_def visited_def upt_rec)
  then show "kvm_pgtable_walk std_env block_pgt 0x1000 0x200000 (log_walker 1) block_mem = Some (0, logged block_mem [(0x1000, 2, 1)])"
    using kvm_pgtable_walk_skips [OF std_env_arm64 b l, where b = "0x200000" and sz = "0x200000" and F = 1]
    by (simp add: std_range block_pgt_def gran_def)
qed

end
