(* ===== verification/Priority.thy ===== *)
theory Priority
  imports Prelude
begin

unbundle bit_operations_syntax

text \<open>
  The bitmap of non-empty priority levels of the scheduler,
  \<open>src/examples/scheduler/include/fdsched/priority.h\<close>: 256 bits in four 64-bit words.
\<close>

record prio_bitmap =
  bits :: "u64 list"

definition NUM_PRIORITIES :: nat where "NUM_PRIORITIES = 256"

definition prio_level_init :: "prio_bitmap \<Rightarrow> prio_bitmap option" where
  "prio_level_init bm =
     c_for [0..<4] (\<lambda>lvl bm. do { bs \<leftarrow> arr_set (bits bm) lvl 0; Some (bm\<lparr>bits := bs\<rparr>) }) bm"

fun pending_loop :: "prio_bitmap \<Rightarrow> nat list \<Rightarrow> int \<Rightarrow> int option" where
  "pending_loop bm [] offset = Some (- 1)"
| "pending_loop bm (i # is) offset = do {
     w \<leftarrow> arr_get (bits bm) i;
     let first_bit = builtin_ffsll w;
     if first_bit \<noteq> 0 then Some (first_bit + offset) else pending_loop bm is (offset + 64) }"

definition highest_pending_priority :: "prio_bitmap \<Rightarrow> int option" where
  "highest_pending_priority bm = pending_loop bm [0..<4] (- 1)"

definition priority_search_none_found :: "int \<Rightarrow> bool" where
  "priority_search_none_found result \<longleftrightarrow> result < 0"

definition priority_level_set :: "prio_bitmap \<Rightarrow> u8 \<Rightarrow> prio_bitmap option" where
  "priority_level_set bm prio = do {
     let wrd = unat (prio div 64);
     let bt = unat (prio mod 64);
     w \<leftarrow> arr_get (bits bm) wrd;
     bs \<leftarrow> arr_set (bits bm) wrd (w OR push_bit bt 1);
     Some (bm\<lparr>bits := bs\<rparr>) }"

definition priority_level_clear :: "prio_bitmap \<Rightarrow> u8 \<Rightarrow> prio_bitmap option" where
  "priority_level_clear bm prio = do {
     let wrd = unat (prio div 64);
     let bt = unat (prio mod 64);
     w \<leftarrow> arr_get (bits bm) wrd;
     bs \<leftarrow> arr_set (bits bm) wrd (w AND NOT (push_bit bt 1));
     Some (bm\<lparr>bits := bs\<rparr>) }"

section \<open>The set of levels\<close>

definition bitmap_ok :: "prio_bitmap \<Rightarrow> bool" where
  "bitmap_ok bm \<longleftrightarrow> length (bits bm) = 4"

definition levels :: "prio_bitmap \<Rightarrow> nat set" where
  "levels bm = {n. n < 256 \<and> bit (bits bm ! (n div 64)) (n mod 64)}"

lemma prio_level_init_ok:
  assumes "bitmap_ok bm"
  shows "\<exists>bm'. prio_level_init bm = Some bm' \<and> bitmap_ok bm' \<and> levels bm' = {}"
proof -
  have "\<exists>bm'. prio_level_init bm = Some bm' \<and>
      (length (bits bm') = 4 \<and> (\<forall>i<length [0..<4]. bits bm' ! i = 0))"
    unfolding prio_level_init_def
    using assms by (intro c_for_inv [where I = "\<lambda>k b. length (bits b) = 4 \<and> (\<forall>i<k. bits b ! i = 0)"])
      (auto simp: bitmap_ok_def nth_list_update less_Suc_eq)
  then show ?thesis by (fastforce simp: bitmap_ok_def levels_def)
qed

lemma unat_div_mod: "unat (prio div (64 :: u8)) = unat prio div 64" "unat (prio mod (64 :: u8)) = unat prio mod 64"
  by (simp_all add: unat_div unat_mod)

lemma u8_less: "unat (prio :: u8) < 256"
proof -
  have "unat prio < 2 ^ LENGTH(8)" by (rule unsigned_less)
  then show ?thesis by simp
qed

lemma same_level: "n div 64 = m div 64 \<Longrightarrow> n mod 64 = m mod 64 \<Longrightarrow> n = (m :: nat)"
  by (metis div_mult_mod_eq)

lemma priority_level_set_ok:
  assumes "bitmap_ok bm"
  shows "\<exists>bm'. priority_level_set bm prio = Some bm' \<and> bitmap_ok bm' \<and> levels bm' = insert (unat prio) (levels bm)"
proof -
  let ?i = "unat prio div 64" and ?k = "unat prio mod 64"
  let ?bm = "bm\<lparr>bits := (bits bm)[?i := bits bm ! ?i OR push_bit ?k 1]\<rparr>"
  have i: "?i < length (bits bm)" using assms u8_less [of prio] by (simp add: bitmap_ok_def div_less_iff_less_mult)
  have "priority_level_set bm prio = Some ?bm"
    using i by (simp add: priority_level_set_def unat_div_mod Let_def)
  moreover have "n \<in> levels ?bm \<longleftrightarrow> n = unat prio \<or> n \<in> levels bm" for n
  proof (cases "n div 64 = ?i")
    case True
    then have "n \<in> levels ?bm \<longleftrightarrow> n < 256 \<and> (bit (bits bm ! ?i) (n mod 64) \<or> n mod 64 = ?k)"
      using i by (auto simp: levels_def bit_simps)
    also have "\<dots> \<longleftrightarrow> n = unat prio \<or> n \<in> levels bm"
      using True same_level [of n "unat prio"] u8_less [of prio] by (auto simp: levels_def)
    finally show ?thesis .
  next
    case False
    then show ?thesis by (auto simp: levels_def)
  qed
  ultimately show ?thesis using assms by (auto simp: bitmap_ok_def)
qed

lemma priority_level_clear_ok:
  assumes "bitmap_ok bm"
  shows "\<exists>bm'. priority_level_clear bm prio = Some bm' \<and> bitmap_ok bm' \<and> levels bm' = levels bm - {unat prio}"
proof -
  let ?i = "unat prio div 64" and ?k = "unat prio mod 64"
  let ?bm = "bm\<lparr>bits := (bits bm)[?i := bits bm ! ?i AND NOT (push_bit ?k 1)]\<rparr>"
  have i: "?i < length (bits bm)" using assms u8_less [of prio] by (simp add: bitmap_ok_def div_less_iff_less_mult)
  have "priority_level_clear bm prio = Some ?bm"
    using i by (simp add: priority_level_clear_def unat_div_mod Let_def)
  moreover have "n \<in> levels ?bm \<longleftrightarrow> n \<noteq> unat prio \<and> n \<in> levels bm" for n
  proof (cases "n div 64 = ?i")
    case True
    then have "n \<in> levels ?bm \<longleftrightarrow> n < 256 \<and> bit (bits bm ! ?i) (n mod 64) \<and> n mod 64 \<noteq> ?k"
      using i by (auto simp: levels_def bit_simps)
    also have "\<dots> \<longleftrightarrow> n \<noteq> unat prio \<and> n \<in> levels bm"
      using True same_level [of n "unat prio"] by (auto simp: levels_def)
    finally show ?thesis .
  next
    case False
    then show ?thesis by (auto simp: levels_def)
  qed
  ultimately show ?thesis using assms by (auto simp: bitmap_ok_def)
qed

text \<open>The search looks at the words from \<open>i\<close> on; no level below \<open>64 * i\<close> is set.\<close>

lemma pending_loop_ok:
  assumes "bitmap_ok bm" "i \<le> 4" "\<forall>n\<in>levels bm. 64 * i \<le> n"
  shows "\<exists>r. pending_loop bm [i..<4] (64 * int i - 1) = Some r \<and>
    (if levels bm = {} then r = - 1
     else \<exists>n. r = int n \<and> n \<in> levels bm \<and> (\<forall>m\<in>levels bm. n \<le> m))"
  using assms(2,3)
proof (induction "4 - i" arbitrary: i)
  case 0
  then have "i = 4" by simp
  moreover from this 0 have "levels bm = {}" by (fastforce simp: levels_def)
  ultimately show ?case by simp
next
  case (Suc k)
  then have i: "i < 4" "i < length (bits bm)" using assms(1) by (auto simp: bitmap_ok_def)
  then have up: "[i..<4] = i # [Suc i..<4]" by (simp add: upt_conv_Cons)
  show ?case
  proof (cases "bits bm ! i = 0")
    case True
    have "64 * Suc i \<le> n" if "n \<in> levels bm" for n
    proof (rule ccontr)
      assume "\<not> 64 * Suc i \<le> n"
      then have "n div 64 = i" using Suc.prems(2) that by (auto intro!: div_nat_eqI)
      then show False using that True by (simp add: levels_def)
    qed
    then show ?thesis using Suc.hyps(1) [of "Suc i"] Suc.hyps(2) i True unfolding up
      by (simp add: algebra_simps)
  next
    case False
    then obtain b where b: "b < 64" "builtin_ffsll (bits bm ! i) = int b + 1" "bit (bits bm ! i) b"
      "\<forall>j<b. \<not> bit (bits bm ! i) j" using builtin_ffsll_lowest by blast
    let ?n = "64 * i + b"
    have "?n div 64 = i" "?n mod 64 = b" using b(1) by auto
    then have n: "?n \<in> levels bm" using b i by (simp add: levels_def)
    have "?n \<le> m" if "m \<in> levels bm" for m
    proof (rule ccontr)
      assume l: "\<not> ?n \<le> m"
      then have d: "m div 64 = i" using Suc.prems(2) that b(1) by (auto intro!: div_nat_eqI)
      moreover have "m = 64 * (m div 64) + m mod 64" by simp
      ultimately have "m mod 64 < b" using l by linarith
      with d show False using that b(4) by (simp add: levels_def)
    qed
    with n have "\<exists>n. int b + 1 + (64 * int i - 1) = int n \<and> n \<in> levels bm \<and> (\<forall>m\<in>levels bm. n \<le> m)"
      by (intro exI [of _ ?n]) simp
    then show ?thesis using i b(2) n unfolding up by auto
  qed
qed

lemma highest_pending_priority_ok:
  assumes "bitmap_ok bm"
  shows "highest_pending_priority bm = Some (if levels bm = {} then - 1 else int (Min (levels bm)))"
proof -
  have fin: "finite (levels bm)" by (auto simp: levels_def intro: finite_subset [of _ "{..<256}"])
  obtain r where r: "highest_pending_priority bm = Some r"
    "if levels bm = {} then r = - 1 else \<exists>n. r = int n \<and> n \<in> levels bm \<and> (\<forall>m\<in>levels bm. n \<le> m)"
    using pending_loop_ok [OF assms, of 0] by (auto simp: highest_pending_priority_def)
  then show ?thesis using Min_eqI [OF fin] by (auto split: if_splits)
qed

text \<open>
  The bitmap is a set of priorities: starting from the empty set of \<open>prio_level_init\<close>,
  \<open>priority_level_set\<close> and \<open>priority_level_clear\<close> insert and remove exactly one level, for
  each of the 256 levels and without an access out of bounds, and
  \<open>highest_pending_priority\<close> finds the smallest level of the set, or -1 if it is empty.
\<close>

theorem prio_bitmap_spec:
  assumes "bitmap_ok bm"
  shows "(\<exists>bm'. prio_level_init bm = Some bm' \<and> bitmap_ok bm' \<and> levels bm' = {}) \<and>
    (\<exists>bm'. priority_level_set bm p = Some bm' \<and> bitmap_ok bm' \<and> levels bm' = insert (unat p) (levels bm)) \<and>
    (\<exists>bm'. priority_level_clear bm p = Some bm' \<and> bitmap_ok bm' \<and> levels bm' = levels bm - {unat p}) \<and>
    highest_pending_priority bm = Some (if levels bm = {} then - 1 else int (Min (levels bm)))"
  using prio_level_init_ok [OF assms] priority_level_set_ok [OF assms] priority_level_clear_ok [OF assms]
    highest_pending_priority_ok [OF assms] by blast

theorem prio_bitmap_spec_witness:
  "highest_pending_priority \<lparr>bits = [0, 0, 0, 0]\<rparr> = Some (- 1)"
proof -
  have ok: "bitmap_ok \<lparr>bits = [0, 0, 0, 0]\<rparr>" by (simp add: bitmap_ok_def)
  have "levels \<lparr>bits = [0, 0, 0, 0]\<rparr> = {}"
    by (auto simp: levels_def nth_Cons split: nat.splits)
  with prio_bitmap_spec [OF ok, of 0] show ?thesis by simp
qed

end
