(* ===== verification/Npfp.thy ===== *)
theory Npfp
  imports Priority "HOL-Library.Multiset"
begin

text \<open>
  The message queues and the non-preemptive fixed-priority scheduler,
  \<open>src/examples/scheduler/include/fdsched/message.h\<close> and \<open>scheduler.h\<close>.

  Messages live in a heap, by address. The field \<open>last\<close> of a queue points to the pointer that
  the next message has to be stored in: the field \<open>first\<close> of the queue itself or the field
  \<open>next\<close> of its last message. A queue is named by its index in \<open>pending\<close>. The type of the
  callbacks is a parameter, and so is the function \<open>message_identify_type\<close>, which the
  application provides.
\<close>

section \<open>Data\<close>

record message =
  m_type :: u8
  m_len :: u64
  m_next :: "nat ptr"
  m_data :: "u8 list"

datatype slot = QFirst nat | MsgNext nat

record message_queue =
  first :: "nat ptr"
  last :: "slot ptr"

record 'f callback =
  prio :: u8
  cb_fn :: 'f

record 'f npfp_scheduler =
  callbacks :: "'f callback list"
  pending :: "message_queue list"
  prio_levels :: prio_bitmap

record 'f sstate =
  msgs :: "(nat, message) heap"
  sched :: "'f npfp_scheduler"

section \<open>Message queues\<close>

definition set_queue :: "'f sstate \<Rightarrow> nat \<Rightarrow> (message_queue \<Rightarrow> message_queue) \<Rightarrow> 'f sstate option" where
  "set_queue s i f = do {
     q \<leftarrow> arr_get (pending (sched s)) i;
     qs \<leftarrow> arr_set (pending (sched s)) i (f q);
     Some (s\<lparr>sched := (sched s)\<lparr>pending := qs\<rparr>\<rparr>) }"

text \<open>The write \<open>*p = v\<close> through a pointer to a message pointer.\<close>

definition store_slot :: "'f sstate \<Rightarrow> slot ptr \<Rightarrow> nat ptr \<Rightarrow> 'f sstate option" where
  "store_slot s p v =
     (case p of
        Addr (QFirst i) \<Rightarrow> set_queue s i (\<lambda>q. q\<lparr>first := v\<rparr>)
      | Addr (MsgNext a) \<Rightarrow> do {
          h \<leftarrow> modify (msgs s) (Addr a) (\<lambda>m. m\<lparr>m_next := v\<rparr>);
          Some (s\<lparr>msgs := h\<rparr>) }
      | _ \<Rightarrow> None)"

definition message_queue_add :: "'f sstate \<Rightarrow> nat \<Rightarrow> nat \<Rightarrow> 'f sstate option" where
  "message_queue_add s i msg = do {
     h \<leftarrow> modify (msgs s) (Addr msg) (\<lambda>m. m\<lparr>m_next := NULL\<rparr>);
     let s = s\<lparr>msgs := h\<rparr>;
     q \<leftarrow> arr_get (pending (sched s)) i;
     s \<leftarrow> store_slot s (last q) (Addr msg);
     set_queue s i (\<lambda>q. q\<lparr>last := Addr (MsgNext msg)\<rparr>) }"

definition message_queue_empty :: "'f sstate \<Rightarrow> nat \<Rightarrow> bool option" where
  "message_queue_empty s i = do {
     q \<leftarrow> arr_get (pending (sched s)) i;
     Some (first q = NULL) }"

definition message_queue_remove :: "'f sstate \<Rightarrow> nat \<Rightarrow> (nat ptr \<times> 'f sstate) option" where
  "message_queue_remove s i = do {
     e \<leftarrow> message_queue_empty s i;
     c_assert (\<not> e);
     q \<leftarrow> arr_get (pending (sched s)) i;
     let hd = first q;
     m \<leftarrow> load (msgs s) hd;
     s \<leftarrow> (if m_next m = NULL then do {
             s \<leftarrow> set_queue s i (\<lambda>q. q\<lparr>first := NULL\<rparr>);
             set_queue s i (\<lambda>q. q\<lparr>last := Addr (QFirst i)\<rparr>) }
           else set_queue s i (\<lambda>q. q\<lparr>first := m_next m\<rparr>));
     Some (hd, s) }"

section \<open>The scheduler\<close>

definition npfp_enqueue :: "(message \<Rightarrow> u8) \<Rightarrow> 'f sstate \<Rightarrow> nat \<Rightarrow> 'f sstate option" where
  "npfp_enqueue message_identify_type s msg = do {
     m \<leftarrow> load (msgs s) (Addr msg);
     h \<leftarrow> modify (msgs s) (Addr msg) (\<lambda>m'. m'\<lparr>m_type := message_identify_type m\<rparr>);
     let s = s\<lparr>msgs := h\<rparr>;
     m \<leftarrow> load (msgs s) (Addr msg);
     cb \<leftarrow> arr_get (callbacks (sched s)) (unat (m_type m));
     let msg_prio = prio cb;
     s \<leftarrow> message_queue_add s (unat msg_prio) msg;
     bm \<leftarrow> priority_level_set (prio_levels (sched s)) msg_prio;
     Some (s\<lparr>sched := (sched s)\<lparr>prio_levels := bm\<rparr>\<rparr>) }"

definition npfp_dequeue :: "'f sstate \<Rightarrow> (nat ptr \<times> 'f sstate) option" where
  "npfp_dequeue s = do {
     top_prio \<leftarrow> highest_pending_priority (prio_levels (sched s));
     if priority_search_none_found top_prio then Some (NULL, s)
     else do {
       (msg, s) \<leftarrow> message_queue_remove s (nat top_prio);
       e \<leftarrow> message_queue_empty s (nat top_prio);
       s \<leftarrow> (if e then do {
               bm \<leftarrow> priority_level_clear (prio_levels (sched s)) (word_of_int top_prio);
               Some (s\<lparr>sched := (sched s)\<lparr>prio_levels := bm\<rparr>\<rparr>) }
             else Some s);
       Some (msg, s) } }"

text \<open>\<open>npfp_dispatch\<close>; \<open>call f m e\<close> is the call of the callback \<open>f\<close> on the message \<open>m\<close>.\<close>

definition npfp_dispatch ::
  "('f \<Rightarrow> message \<Rightarrow> 'e \<Rightarrow> int \<times> 'e) \<Rightarrow> 'f sstate \<Rightarrow> nat ptr \<Rightarrow> 'e \<Rightarrow> (int \<times> 'e) option" where
  "npfp_dispatch call s msg e = do {
     m \<leftarrow> load (msgs s) msg;
     cb \<leftarrow> arr_get (callbacks (sched s)) (unat (m_type m));
     Some (call (cb_fn cb) m e) }"

section \<open>Representation\<close>

text \<open>\<open>chain h p xs\<close>: from the pointer \<open>p\<close> the messages \<open>xs\<close> are linked, up to null.\<close>

fun msg_chain :: "(nat, message) heap \<Rightarrow> nat ptr \<Rightarrow> nat list \<Rightarrow> bool" where
  "msg_chain h p [] \<longleftrightarrow> p = NULL"
| "msg_chain h p (x # xs) \<longleftrightarrow> p = Addr x \<and> (\<exists>m. h x = Some m \<and> msg_chain h (m_next m) xs)"

definition last_slot :: "nat \<Rightarrow> nat list \<Rightarrow> slot ptr" where
  "last_slot i xs = (if xs = [] then Addr (QFirst i) else Addr (MsgNext (List.last xs)))"

definition queue_ok :: "(nat, message) heap \<Rightarrow> message_queue list \<Rightarrow> nat \<Rightarrow> nat list \<Rightarrow> bool" where
  "queue_ok h qs i xs \<longleftrightarrow> i < length qs \<and> msg_chain h (first (qs ! i)) xs \<and> distinct xs \<and>
     last (qs ! i) = last_slot i xs"

definition sched_inv :: "'f sstate \<Rightarrow> (nat \<Rightarrow> nat list) \<Rightarrow> bool" where
  "sched_inv s Q \<longleftrightarrow>
     length (callbacks (sched s)) = 256 \<and> length (pending (sched s)) = 256 \<and>
     bitmap_ok (prio_levels (sched s)) \<and> levels (prio_levels (sched s)) = {i. i < 256 \<and> Q i \<noteq> []} \<and>
     (\<forall>i<256. queue_ok (msgs s) (pending (sched s)) i (Q i)) \<and>
     (\<forall>i<256. \<forall>j<256. i \<noteq> j \<longrightarrow> set (Q i) \<inter> set (Q j) = {})"

lemma sched_invD:
  assumes "sched_inv s Q"
  shows "length (callbacks (sched s)) = 256" "length (pending (sched s)) = 256"
    "bitmap_ok (prio_levels (sched s))" "levels (prio_levels (sched s)) = {i. i < 256 \<and> Q i \<noteq> []}"
    "\<And>i. i < 256 \<Longrightarrow> queue_ok (msgs s) (pending (sched s)) i (Q i)"
    "\<And>i j. i < 256 \<Longrightarrow> j < 256 \<Longrightarrow> i \<noteq> j \<Longrightarrow> set (Q i) \<inter> set (Q j) = {}"
  using assms by (auto simp: sched_inv_def)

lemma chain_frame: "(\<And>x. x \<in> set xs \<Longrightarrow> h' x = h x) \<Longrightarrow> msg_chain h' p xs = msg_chain h p xs"
  by (induction xs arbitrary: p) auto

text \<open>Only the links matter to a chain.\<close>

lemma chain_cong:
  "(\<And>x. x \<in> set xs \<Longrightarrow> map_option m_next (h' x) = map_option m_next (h x)) \<Longrightarrow> msg_chain h' p xs = msg_chain h p xs"
proof (induction xs arbitrary: p)
  case (Cons x xs)
  have "map_option m_next (h' x) = map_option m_next (h x)" using Cons.prems by simp
  then show ?case using Cons.IH Cons.prems by (cases "h x"; cases "h' x") auto
qed simp

lemma chain_valid: "msg_chain h p xs \<Longrightarrow> x \<in> set xs \<Longrightarrow> x \<in> dom h"
  by (induction xs arbitrary: p) auto

lemma msg_chain_snoc:
  assumes "msg_chain h p xs" "xs \<noteq> []" "distinct xs" "a \<notin> set xs" "h a = Some m" "m_next m = NULL"
  shows "\<exists>l. h (List.last xs) = Some l \<and> msg_chain (h(List.last xs \<mapsto> l\<lparr>m_next := Addr a\<rparr>)) p (xs @ [a])"
  using assms
proof (induction xs arbitrary: p)
  case (Cons x xs)
  then obtain mx where mx: "p = Addr x" "h x = Some mx" "msg_chain h (m_next mx) xs" by auto
  show ?case
  proof (cases "xs = []")
    case True
    then show ?thesis using mx Cons.prems by auto
  next
    case False
    have "\<exists>l. h (List.last xs) = Some l \<and>
        msg_chain (h(List.last xs \<mapsto> l\<lparr>m_next := Addr a\<rparr>)) (m_next mx) (xs @ [a])"
      by (rule Cons.IH [OF mx(3) False]) (use Cons.prems in auto)
    then obtain l where l: "h (List.last xs) = Some l"
      "msg_chain (h(List.last xs \<mapsto> l\<lparr>m_next := Addr a\<rparr>)) (m_next mx) (xs @ [a])" by blast
    have "List.last xs \<noteq> x" using False Cons.prems(3) last_in_set [of xs] by auto
    with l mx False show ?thesis by (auto simp: fun_upd_def)
  qed
qed simp

section \<open>Adding a message\<close>

lemma same_next [simp]: "\<exists>p. m = m\<lparr>m_next := p\<rparr>" for m :: message
  by (rule exI [of _ "m_next m"]) simp

text \<open>The heap and the queues after \<open>message_queue_add\<close>, for the queue \<open>i\<close> of contents \<open>xs\<close>.\<close>

lemma message_queue_add_ok:
  assumes q: "queue_ok (msgs s) (pending (sched s)) i xs" and a: "a \<in> dom (msgs s)" "a \<notin> set xs"
  shows "\<exists>s'. message_queue_add s i a = Some s' \<and>
    queue_ok (msgs s') (pending (sched s')) i (xs @ [a]) \<and> dom (msgs s') = dom (msgs s) \<and>
    (\<forall>x. x \<notin> insert a (set xs) \<longrightarrow> msgs s' x = msgs s x) \<and>
    (\<forall>x m. msgs s x = Some m \<longrightarrow> (\<exists>p. msgs s' x = Some (m\<lparr>m_next := p\<rparr>))) \<and>
    length (pending (sched s')) = length (pending (sched s)) \<and>
    (\<forall>j. j \<noteq> i \<longrightarrow> pending (sched s') ! j = pending (sched s) ! j) \<and>
    callbacks (sched s') = callbacks (sched s) \<and> prio_levels (sched s') = prio_levels (sched s)"
proof -
  have i: "i < length (pending (sched s))" and c: "msg_chain (msgs s) (first (pending (sched s) ! i)) xs"
    and d: "distinct xs" and l: "last (pending (sched s) ! i) = last_slot i xs"
    using q by (auto simp: queue_ok_def)
  obtain m where m: "msgs s a = Some m" using a(1) by blast
  let ?h = "(msgs s)(a \<mapsto> m\<lparr>m_next := NULL\<rparr>)" and ?qs = "pending (sched s)"
  have c1: "msg_chain ?h (first (?qs ! i)) xs" using c a(2) by (subst chain_frame [of xs _ "msgs s"]) auto
  show ?thesis
  proof (cases "xs = []")
    case True
    let ?q = "(?qs ! i)\<lparr>first := Addr a, last := Addr (MsgNext a)\<rparr>"
    let ?s = "s\<lparr>msgs := ?h, sched := (sched s)\<lparr>pending := ?qs[i := ?q]\<rparr>\<rparr>"
    have "message_queue_add s i a = Some ?s"
      using i m l True by (simp add: message_queue_add_def modify_def store_slot_def set_queue_def last_slot_def Let_def)
    then show ?thesis using True i m
      by (intro exI [of _ ?s]) (auto simp: queue_ok_def last_slot_def)
  next
    case False
    have "\<exists>lm. ?h (List.last xs) = Some lm \<and> msg_chain (?h(List.last xs \<mapsto> lm\<lparr>m_next := Addr a\<rparr>)) (first (?qs ! i)) (xs @ [a])"
      by (rule msg_chain_snoc [OF c1 False d a(2), of "m\<lparr>m_next := NULL\<rparr>"]) simp_all
    then obtain lm where lm: "?h (List.last xs) = Some lm"
      "msg_chain (?h(List.last xs \<mapsto> lm\<lparr>m_next := Addr a\<rparr>)) (first (?qs ! i)) (xs @ [a])" by blast
    have la: "List.last xs \<noteq> a" "List.last xs \<in> set xs" using False a(2) last_in_set [of xs] by auto
    let ?q = "(?qs ! i)\<lparr>last := Addr (MsgNext a)\<rparr>"
    let ?s = "s\<lparr>msgs := ?h(List.last xs \<mapsto> lm\<lparr>m_next := Addr a\<rparr>), sched := (sched s)\<lparr>pending := ?qs[i := ?q]\<rparr>\<rparr>"
    have "message_queue_add s i a = Some ?s"
      using i m l False lm(1) la
      by (simp add: message_queue_add_def modify_def store_slot_def set_queue_def last_slot_def Let_def)
    moreover have "queue_ok (msgs ?s) (pending (sched ?s)) i (xs @ [a])"
      using lm(2) i d a(2) by (simp add: queue_ok_def last_slot_def)
    moreover have "\<exists>p. msgs ?s x = Some (mx\<lparr>m_next := p\<rparr>)" if "msgs s x = Some mx" for x mx
      using that lm(1) m la by (cases "x = a"; cases "x = List.last xs") (auto intro: exI [of _ "m_next mx"])
    ultimately show ?thesis using lm(1) m la by (intro exI [of _ ?s]) auto
  qed
qed

text \<open>What may change of the messages when others are linked: nothing but their links.\<close>

definition relinked :: "(nat, message) heap \<Rightarrow> (nat, message) heap \<Rightarrow> bool" where
  "relinked h h' \<longleftrightarrow> dom h' = dom h \<and> (\<forall>x m. h x = Some m \<longrightarrow> (\<exists>p. h' x = Some (m\<lparr>m_next := p\<rparr>)))"

definition queued :: "(nat \<Rightarrow> nat list) \<Rightarrow> nat set" where
  "queued Q = (\<Union>i<256. set (Q i))"

lemma queued_add: "p < 256 \<Longrightarrow> queued (Q(p := Q p @ [a])) = insert a (queued Q)"
  by (auto simp: queued_def split: if_splits)

lemma sched_inv_add:
  assumes inv: "sched_inv s Q" and a: "a \<in> dom (msgs s)" "a \<notin> queued Q" and p: "p < 256"
  shows "\<exists>s'. message_queue_add s p a = Some s' \<and> relinked (msgs s) (msgs s') \<and>
    (\<forall>x. x \<notin> insert a (queued Q) \<longrightarrow> msgs s' x = msgs s x) \<and>
    callbacks (sched s') = callbacks (sched s) \<and> prio_levels (sched s') = prio_levels (sched s) \<and>
    (\<forall>bm. bitmap_ok bm \<and> levels bm = insert p (levels (prio_levels (sched s))) \<longrightarrow>
      sched_inv (s'\<lparr>sched := (sched s')\<lparr>prio_levels := bm\<rparr>\<rparr>) (Q(p := Q p @ [a])))"
proof -
  note D = sched_invD [OF inv]
  have np: "a \<notin> set (Q i)" if "i < 256" for i using a(2) that by (auto simp: queued_def)
  obtain s' where s': "message_queue_add s p a = Some s'"
    "queue_ok (msgs s') (pending (sched s')) p (Q p @ [a])" "dom (msgs s') = dom (msgs s)"
    "\<forall>x. x \<notin> insert a (set (Q p)) \<longrightarrow> msgs s' x = msgs s x"
    "\<forall>x m. msgs s x = Some m \<longrightarrow> (\<exists>n. msgs s' x = Some (m\<lparr>m_next := n\<rparr>))"
    "length (pending (sched s')) = length (pending (sched s))"
    "\<forall>j. j \<noteq> p \<longrightarrow> pending (sched s') ! j = pending (sched s) ! j"
    "callbacks (sched s') = callbacks (sched s)" "prio_levels (sched s') = prio_levels (sched s)"
    using message_queue_add_ok [OF D(5) [OF p] a(1) np [OF p]] by blast
  let ?Q = "Q(p := Q p @ [a])"
  have q: "queue_ok (msgs s') (pending (sched s')) i (?Q i)" if "i < 256" for i
  proof (cases "i = p")
    case False
    have "msgs s' x = msgs s x" if "x \<in> set (Q i)" for x
      using s'(4) np [OF \<open>i < 256\<close>] D(6) [OF \<open>i < 256\<close> p False] that by auto
    then have "msg_chain (msgs s') v (Q i) = msg_chain (msgs s) v (Q i)" for v by (rule chain_frame)
    then show ?thesis using False s'(6,7) D(5) [OF that] by (simp add: queue_ok_def)
  qed (use s'(2) in simp)
  have dj: "set (?Q i) \<inter> set (?Q j) = {}" if "i < 256" "j < 256" "i \<noteq> j" for i j
    using D(6) [OF that] np that by auto
  have "sched_inv (s'\<lparr>sched := (sched s')\<lparr>prio_levels := bm\<rparr>\<rparr>) ?Q"
    if "bitmap_ok bm" "levels bm = insert p (levels (prio_levels (sched s)))" for bm
    using q dj that D(1,2,4) s'(6,8) p by (auto simp: sched_inv_def)
  moreover have "msgs s' x = msgs s x" if "x \<notin> insert a (queued Q)" for x
    using that s'(4) p by (auto simp: queued_def)
  ultimately show ?thesis using s' by (auto simp: relinked_def)
qed

lemma npfp_enqueue_ok:
  assumes inv: "sched_inv s Q" and a: "msgs s a = Some m" "a \<notin> queued Q"
    and p: "p = unat (prio (callbacks (sched s) ! unat (ident m)))"
  shows "\<exists>s'. npfp_enqueue ident s a = Some s' \<and> sched_inv s' (Q(p := Q p @ [a])) \<and>
    callbacks (sched s') = callbacks (sched s) \<and>
    (\<forall>x. x \<notin> insert a (queued Q) \<longrightarrow> msgs s' x = msgs s x) \<and>
    relinked ((msgs s)(a \<mapsto> m\<lparr>m_type := ident m\<rparr>)) (msgs s')"
proof -
  let ?h = "(msgs s)(a \<mapsto> m\<lparr>m_type := ident m\<rparr>)"
  let ?s = "s\<lparr>msgs := ?h\<rparr>"
  note D = sched_invD [OF inv]
  have "msg_chain ?h v xs = msg_chain (msgs s) v xs" for v xs using a(1) by (intro chain_cong) auto
  then have inv1: "sched_inv ?s Q" using inv by (simp add: sched_inv_def queue_ok_def)
  have p256: "p < 256" unfolding p by (rule u8_less)
  have a1: "a \<in> dom (msgs ?s)" by simp
  obtain s' where s': "message_queue_add ?s p a = Some s'" "relinked (msgs ?s) (msgs s')"
    "\<forall>x. x \<notin> insert a (queued Q) \<longrightarrow> msgs s' x = msgs s x"
    "callbacks (sched s') = callbacks (sched s)" "prio_levels (sched s') = prio_levels (sched s)"
    "\<forall>bm. bitmap_ok bm \<and> levels bm = insert p (levels (prio_levels (sched s))) \<longrightarrow>
      sched_inv (s'\<lparr>sched := (sched s')\<lparr>prio_levels := bm\<rparr>\<rparr>) (Q(p := Q p @ [a]))"
    using sched_inv_add [OF inv1 a1 a(2) p256] by (auto split: if_splits)
  obtain bm where bm: "priority_level_set (prio_levels (sched s)) (prio (callbacks (sched s) ! unat (ident m))) = Some bm"
    "bitmap_ok bm" "levels bm = insert p (levels (prio_levels (sched s)))"
    using priority_level_set_ok [OF D(3)] p by blast
  let ?s' = "s'\<lparr>sched := (sched s')\<lparr>prio_levels := bm\<rparr>\<rparr>"
  have cb: "unat (ident m) < length (callbacks (sched s))" using D(1) u8_less [of "ident m"] by simp
  have "npfp_enqueue ident s a = Some ?s'"
    using a(1) cb s'(1,5) bm(1) p
    by (simp add: npfp_enqueue_def load_def modify_def Let_def)
  then show ?thesis using s' bm by (intro exI [of _ ?s']) simp
qed

section \<open>Removing a message\<close>

lemma message_queue_remove_ok:
  assumes q: "queue_ok (msgs s) (pending (sched s)) i (x # xs)"
  shows "\<exists>s'. message_queue_remove s i = Some (Addr x, s') \<and>
    queue_ok (msgs s') (pending (sched s')) i xs \<and> msgs s' = msgs s \<and>
    length (pending (sched s')) = length (pending (sched s)) \<and>
    (\<forall>j. j \<noteq> i \<longrightarrow> pending (sched s') ! j = pending (sched s) ! j) \<and>
    callbacks (sched s') = callbacks (sched s) \<and> prio_levels (sched s') = prio_levels (sched s) \<and>
    message_queue_empty s' i = Some (xs = [])"
proof -
  let ?qs = "pending (sched s)"
  have i: "i < length ?qs" and f: "first (?qs ! i) = Addr x" and d: "distinct (x # xs)"
    and l: "last (?qs ! i) = last_slot i (x # xs)" using q by (auto simp: queue_ok_def)
  obtain m where m: "msgs s x = Some m" "msg_chain (msgs s) (m_next m) xs" using q by (auto simp: queue_ok_def)
  have e: "m_next m = NULL \<longleftrightarrow> xs = []" using m(2) by (cases xs) auto
  let ?q = "if xs = [] then (?qs ! i)\<lparr>first := NULL, last := Addr (QFirst i)\<rparr> else (?qs ! i)\<lparr>first := m_next m\<rparr>"
  let ?s = "s\<lparr>sched := (sched s)\<lparr>pending := ?qs[i := ?q]\<rparr>\<rparr>"
  have "message_queue_remove s i = Some (Addr x, ?s)"
    using i f m(1) e
    by (auto simp: message_queue_remove_def message_queue_empty_def load_def set_queue_def)
  moreover have "queue_ok (msgs ?s) (pending (sched ?s)) i xs"
    using i l d m(2) by (auto simp: queue_ok_def last_slot_def)
  moreover have "message_queue_empty ?s i = Some (xs = [])"
    using i e by (simp add: message_queue_empty_def)
  ultimately show ?thesis by (intro exI [of _ ?s]) simp
qed

lemma npfp_dequeue_empty:
  assumes "sched_inv s Q" "\<forall>i<256. Q i = []"
  shows "npfp_dequeue s = Some (NULL, s)"
  using highest_pending_priority_ok [OF sched_invD(3) [OF assms(1)]] sched_invD(4) [OF assms(1)] assms(2)
  by (simp add: npfp_dequeue_def priority_search_none_found_def)

lemma npfp_dequeue_ok:
  assumes inv: "sched_inv s Q" and i: "i < 256" "\<forall>j<i. Q j = []" "Q i = x # xs"
  shows "\<exists>s'. npfp_dequeue s = Some (Addr x, s') \<and> sched_inv s' (Q(i := xs)) \<and> msgs s' = msgs s \<and>
    callbacks (sched s') = callbacks (sched s)"
proof -
  note D = sched_invD [OF inv]
  have lv: "levels (prio_levels (sched s)) = {j. j < 256 \<and> Q j \<noteq> []}" by (rule D(4))
  have "Min {j. j < 256 \<and> Q j \<noteq> []} = i"
    using i by (intro Min_eqI) (auto simp: not_less [symmetric])
  moreover have "{j. j < 256 \<and> Q j \<noteq> []} \<noteq> {}" using i by auto
  ultimately have top: "highest_pending_priority (prio_levels (sched s)) = Some (int i)"
    using highest_pending_priority_ok [OF D(3)] lv by simp
  obtain t where t: "message_queue_remove s i = Some (Addr x, t)"
    "queue_ok (msgs t) (pending (sched t)) i xs" "msgs t = msgs s"
    "length (pending (sched t)) = length (pending (sched s))"
    "\<forall>j. j \<noteq> i \<longrightarrow> pending (sched t) ! j = pending (sched s) ! j"
    "callbacks (sched t) = callbacks (sched s)" "prio_levels (sched t) = prio_levels (sched s)"
    "message_queue_empty t i = Some (xs = [])"
    using message_queue_remove_ok D(5) [OF i(1)] i(3) by metis
  let ?Q = "Q(i := xs)"
  have q: "queue_ok (msgs t) (pending (sched t)) j (?Q j)" if "j < 256" for j
    using t(2-5) D(5) [OF that] by (cases "j = i") (auto simp: queue_ok_def)
  have dj: "set (?Q j) \<inter> set (?Q k) = {}" if "j < 256" "k < 256" "j \<noteq> k" for j k
    using D(6) [OF that] D(6) [OF that(1) i(1)] D(6) [OF i(1) that(2)] that i(3) by auto
  have inv': "sched_inv (t\<lparr>sched := (sched t)\<lparr>prio_levels := bm\<rparr>\<rparr>) ?Q"
    if "bitmap_ok bm" "levels bm = {j. j < 256 \<and> ?Q j \<noteq> []}" for bm
    using q dj that D(1,2) t(4,6) by (simp add: sched_inv_def)
  obtain bm where bm: "priority_level_clear (prio_levels (sched s)) (word_of_int (int i)) = Some bm"
    "bitmap_ok bm" "levels bm = levels (prio_levels (sched s)) - {unat (word_of_int (int i) :: u8)}"
    using priority_level_clear_ok [OF D(3)] by blast
  have wi: "unat (word_of_int (int i) :: u8) = i" using i(1) by (simp add: unat_of_nat take_bit_nat_eq_self)
  show ?thesis
  proof (cases "xs = []")
    case True
    have "npfp_dequeue s = Some (Addr x, t\<lparr>sched := (sched t)\<lparr>prio_levels := bm\<rparr>\<rparr>)"
      using top t(1,7,8) bm(1) True by (simp add: npfp_dequeue_def priority_search_none_found_def)
    moreover have "levels bm = {j. j < 256 \<and> ?Q j \<noteq> []}" using bm(3) lv wi True by auto
    ultimately show ?thesis using inv' [OF bm(2)] t(3,6) by auto
  next
    case False
    have "npfp_dequeue s = Some (Addr x, t)"
      using top t(1,8) False by (simp add: npfp_dequeue_def priority_search_none_found_def)
    moreover have "sched_inv t ?Q"
    proof -
      have "{j. j < 256 \<and> Q j \<noteq> []} = {j. j < 256 \<and> ?Q j \<noteq> []}" using False i(3) by auto
      with inv' [of "prio_levels (sched t)"] t(7) D(3) lv
      have "sched_inv (t\<lparr>sched := (sched t)\<lparr>prio_levels := prio_levels (sched t)\<rparr>\<rparr>) ?Q" by simp
      then show ?thesis by simp
    qed
    ultimately show ?thesis using t(3,6) by auto
  qed
qed

section \<open>Order of service\<close>

text \<open>The messages in the order in which \<open>npfp_dequeue\<close> returns them, while there are any.\<close>

fun dequeue_all :: "nat \<Rightarrow> 'f sstate \<Rightarrow> (nat list \<times> 'f sstate) option" where
  "dequeue_all 0 s = None"
| "dequeue_all (Suc n) s = do {
     (p, s) \<leftarrow> npfp_dequeue s;
     case p of
       Addr a \<Rightarrow> do { (as, s) \<leftarrow> dequeue_all n s; Some (a # as, s) }
     | _ \<Rightarrow> Some ([], s) }"

fun enqueue_all :: "(message \<Rightarrow> u8) \<Rightarrow> nat list \<Rightarrow> 'f sstate \<Rightarrow> 'f sstate option" where
  "enqueue_all ident [] s = Some s"
| "enqueue_all ident (a # as) s = do { s \<leftarrow> npfp_enqueue ident s a; enqueue_all ident as s }"

definition flat :: "(nat \<Rightarrow> 'a list) \<Rightarrow> 'a list" where
  "flat Q = concat (map Q [0..<256])"

lemma flat_split: "i < 256 \<Longrightarrow> flat Q = concat (map Q [0..<i]) @ Q i @ concat (map Q [Suc i..<256])"
proof -
  assume "i < 256"
  then have "[0..<256] = [0..<i] @ i # [Suc i..<256]"
    using upt_add_eq_append [of 0 i "256 - i"] by (simp add: upt_conv_Cons)
  then show ?thesis by (simp add: flat_def)
qed

lemma flat_dequeue:
  assumes "i < 256" "\<forall>j<i. Q j = []" "Q i = x # xs"
  shows "flat Q = x # flat (Q(i := xs))"
proof -
  define c where "c = concat (map Q [0..<i])"
  have "c = []" using assms(2) by (simp add: c_def)
  moreover have "map (Q(i := xs)) [Suc i..<256] = map Q [Suc i..<256]" "map (Q(i := xs)) [0..<i] = map Q [0..<i]"
    by simp_all
  ultimately show ?thesis using flat_split [OF assms(1), of Q] flat_split [OF assms(1), of "Q(i := xs)"] assms(3)
    by (simp flip: c_def)
qed

lemma dequeue_all_ok:
  assumes "sched_inv s Q" "length (flat Q) < n"
  shows "\<exists>s' Q'. dequeue_all n s = Some (flat Q, s') \<and> sched_inv s' Q' \<and> queued Q' = {} \<and>
    msgs s' = msgs s \<and> callbacks (sched s') = callbacks (sched s)"
  using assms
proof (induction n arbitrary: s Q)
  case (Suc n)
  show ?case
  proof (cases "\<forall>i<256. Q i = []")
    case True
    then have "flat Q = []" "queued Q = {}" by (auto simp: flat_def queued_def)
    then show ?thesis using npfp_dequeue_empty [OF Suc.prems(1) True] Suc.prems(1) by auto
  next
    case False
    define i where "i = (LEAST i. i < 256 \<and> Q i \<noteq> [])"
    have i: "i < 256" "Q i \<noteq> []" unfolding i_def using False LeastI_ex [of "\<lambda>i. i < 256 \<and> Q i \<noteq> []"] by auto
    have l: "\<forall>j<i. Q j = []"
    proof (intro allI impI)
      fix j assume "j < i"
      then show "Q j = []" using i(1) not_less_Least [of j "\<lambda>i. i < 256 \<and> Q i \<noteq> []"] unfolding i_def [symmetric] by simp
    qed
    obtain x xs where x: "Q i = x # xs" using i(2) by (cases "Q i") auto
    obtain t where t: "npfp_dequeue s = Some (Addr x, t)" "sched_inv t (Q(i := xs))" "msgs t = msgs s"
      "callbacks (sched t) = callbacks (sched s)" using npfp_dequeue_ok [OF Suc.prems(1) i(1) l x] by blast
    note fl = flat_dequeue [where Q = Q, OF i(1) l x]
    have len: "length (flat (Q(i := xs))) < n" using Suc.prems(2) fl by simp
    obtain s' Q' where "dequeue_all n t = Some (flat (Q(i := xs)), s')" "sched_inv s' Q'" "queued Q' = {}"
      "msgs s' = msgs t" "callbacks (sched s') = callbacks (sched t)"
      using Suc.IH [OF t(2)] len by blast
    then show ?thesis using t fl by auto
  qed
qed simp

lemma enqueue_all_ok:
  assumes "sched_inv s Q" "distinct as" "set as \<subseteq> dom (msgs s)" "set as \<inter> queued Q = {}"
  shows "\<exists>s'. enqueue_all ident as s = Some s' \<and> callbacks (sched s') = callbacks (sched s) \<and>
    sched_inv s' (\<lambda>i. Q i @ filter (\<lambda>a. unat (prio (callbacks (sched s) ! unat (ident (the (msgs s a))))) = i) as)"
  using assms
proof (induction as arbitrary: s Q)
  case (Cons a as)
  let ?pr = "\<lambda>a. unat (prio (callbacks (sched s) ! unat (ident (the (msgs s a)))))"
  obtain m where m: "msgs s a = Some m" using Cons.prems(3) by auto
  have aq: "a \<notin> queued Q" using Cons.prems(4) by auto
  let ?Q = "Q(?pr a := Q (?pr a) @ [a])"
  obtain t where t: "npfp_enqueue ident s a = Some t" "sched_inv t ?Q" "callbacks (sched t) = callbacks (sched s)"
    "\<forall>x. x \<notin> insert a (queued Q) \<longrightarrow> msgs t x = msgs s x"
    "relinked ((msgs s)(a \<mapsto> m\<lparr>m_type := ident m\<rparr>)) (msgs t)"
    using npfp_enqueue_ok [OF Cons.prems(1) m aq refl, of ident] m by auto
  have qd: "queued ?Q = insert a (queued Q)" by (rule queued_add) (rule u8_less)
  have "dom (msgs t) = dom (msgs s)" using t(5) m by (auto simp: relinked_def)
  moreover have same: "msgs t x = msgs s x" if "x \<in> set as" for x
    using t(4) Cons.prems(2,4) that by auto
  moreover have "set as \<inter> queued ?Q = {}" using qd Cons.prems(2,4) by auto
  moreover have "distinct as" "set as \<subseteq> dom (msgs s)" using Cons.prems(2,3) by auto
  ultimately obtain s' where s': "enqueue_all ident as t = Some s'" "callbacks (sched s') = callbacks (sched t)"
    "sched_inv s' (\<lambda>i. ?Q i @ filter (\<lambda>a. unat (prio (callbacks (sched t) ! unat (ident (the (msgs t a))))) = i) as)"
    using Cons.IH [OF t(2)] by blast
  have "(\<lambda>i. ?Q i @ filter (\<lambda>a. unat (prio (callbacks (sched t) ! unat (ident (the (msgs t a))))) = i) as) =
      (\<lambda>i. Q i @ filter (\<lambda>a. ?pr a = i) (a # as))"
    using same t(3) by (auto simp: fun_eq_iff intro!: filter_cong)
  with s' t(1,3) show ?case by auto
qed auto

text \<open>Serving the levels in order is a stable sort by priority.\<close>

lemma flat_sort_key:
  assumes "\<And>a. a \<in> set as \<Longrightarrow> f a < 256"
  shows "flat (\<lambda>i. filter (\<lambda>a. f a = i) as) = sort_key f as"
proof (rule sym, rule properties_for_sort_key)
  let ?ys = "\<lambda>n. concat (map (\<lambda>i. filter (\<lambda>a. f a = i) as) [0..<n])"
  have fl: "flat (\<lambda>i. filter (\<lambda>a. f a = i) as) = ?ys 256" by (simp add: flat_def)
  have "mset (?ys n) = mset (filter (\<lambda>a. f a < n) as)" for n
  proof (induction n)
    case (Suc n)
    have "mset (filter (\<lambda>a. f a < Suc n) as) = mset (filter (\<lambda>a. f a < n) as) + mset (filter (\<lambda>a. f a = n) as)"
      by (induction as) auto
    with Suc show ?case by simp
  qed simp
  moreover have "filter (\<lambda>a. f a < 256) as = as" using assms by (simp add: filter_id_conv)
  ultimately show "mset (flat (\<lambda>i. filter (\<lambda>a. f a = i) as)) = mset as" unfolding fl by metis
  have flt: "filter (\<lambda>x. f x = k) (?ys n) = (if k < n then filter (\<lambda>x. f x = k) as else [])" for k n
    by (induction n) (auto simp: filter_filter intro: filter_cong)
  show "filter (\<lambda>x. f k = f x) (flat (\<lambda>i. filter (\<lambda>a. f a = i) as)) = filter (\<lambda>x. f k = f x) as"
    if "k \<in> set (flat (\<lambda>i. filter (\<lambda>a. f a = i) as))" for k
  proof -
    have "f k < 256" using that assms unfolding fl by auto
    moreover have "(\<lambda>x. f k = f x) = (\<lambda>x. f x = f k)" by auto
    ultimately show ?thesis unfolding fl using flt [of "f k" 256] by simp
  qed
  have eq: "sorted (map f (filter (\<lambda>a. f a = n) as))" for n
    by (induction as) auto
  have "sorted (map f (?ys n)) \<and> (\<forall>x\<in>set (?ys n). f x < n)" for n
    using eq by (induction n) (auto simp: sorted_append less_Suc_eq intro: less_imp_le)
  then show "sorted (map f (flat (\<lambda>i. filter (\<lambda>a. f a = i) as)))" unfolding fl by simp
qed

text \<open>
  Fixed-priority, first-in first-out service: messages that are handed to \<open>npfp_enqueue\<close> on
  an empty scheduler are returned by \<open>npfp_dequeue\<close> sorted by the priority of their type,
  those of equal priority in the order of their arrival, each exactly once and with its
  contents unchanged but for the link and the type; no step faults.
\<close>

theorem npfp_priority_order:
  assumes inv: "sched_inv s Q" "queued Q = {}" and as: "distinct as" "set as \<subseteq> dom (msgs s)"
  shows "\<exists>s1 s2 Q2. enqueue_all ident as s = Some s1 \<and>
    dequeue_all (Suc (length as)) s1 =
      Some (sort_key (\<lambda>a. unat (prio (callbacks (sched s) ! unat (ident (the (msgs s a)))))) as, s2) \<and>
    sched_inv s2 Q2 \<and> queued Q2 = {}"
proof -
  let ?f = "\<lambda>a. unat (prio (callbacks (sched s) ! unat (ident (the (msgs s a)))))"
  let ?Q = "\<lambda>i. Q i @ filter (\<lambda>a. ?f a = i) as"
  obtain s1 where s1: "enqueue_all ident as s = Some s1" "sched_inv s1 ?Q"
    using enqueue_all_ok [OF inv(1) as, of ident] inv(2) by auto
  have "Q i = []" if "i < 256" for i using inv(2) that by (auto simp: queued_def)
  then have "flat ?Q = flat (\<lambda>i. filter (\<lambda>a. ?f a = i) as)" 
    unfolding flat_def by (intro arg_cong [where f = concat] map_cong) auto
  also have "\<dots> = sort_key ?f as" by (rule flat_sort_key) (rule u8_less)
  finally have fl: "flat ?Q = sort_key ?f as" .
  then have "length (flat ?Q) < Suc (length as)" by simp
  from dequeue_all_ok [OF s1(2) this] obtain s2 Q2 where
    "dequeue_all (Suc (length as)) s1 = Some (flat ?Q, s2)" "sched_inv s2 Q2" "queued Q2 = {}" by blast
  with s1(1) show ?thesis unfolding fl by blast
qed

definition demo_sched :: "nat sstate" where
  "demo_sched = \<lparr>
     msgs = (\<lambda>a. Some \<lparr>m_type = word_of_nat a, m_len = 0, m_next = NULL, m_data = []\<rparr>),
     sched = \<lparr>callbacks = map (\<lambda>t. \<lparr>prio = if t = 7 then 3 else 5, cb_fn = t\<rparr>) [0..<256],
       pending = map (\<lambda>i. \<lparr>first = NULL, last = Addr (QFirst i)\<rparr>) [0..<256],
       prio_levels = \<lparr>bits = [0, 0, 0, 0]\<rparr>\<rparr>\<rparr>"

lemma demo_sched_inv: "sched_inv demo_sched (\<lambda>_. [])"
  by (auto simp: sched_inv_def demo_sched_def bitmap_ok_def levels_def queue_ok_def last_slot_def
      nth_Cons split: nat.splits)

lemma demo_prio: "t < 256 \<Longrightarrow> unat (prio (callbacks (sched demo_sched) ! t)) = (if t = 7 then 3 else 5)"
  by (simp add: demo_sched_def)

text \<open>Three messages, of the types 1, 7 and 1; type 7 is the more urgent.\<close>

theorem npfp_priority_order_witness:
  "\<exists>s1 s2. enqueue_all m_type [1, 7, 257] demo_sched = Some s1 \<and>
    dequeue_all 4 s1 = Some ([7, 1, 257], s2)"
proof -
  let ?id = "m_type"
  let ?f = "\<lambda>a. unat (prio (callbacks (sched demo_sched) ! unat (?id (the (msgs demo_sched a)))))"
  have m: "?id (the (msgs demo_sched a)) = word_of_nat a" for a by (simp add: demo_sched_def)
  have f: "?f 1 = 5" "?f 7 = 3" "?f 257 = 5"
    unfolding m using demo_prio [of 1] demo_prio [of 7] by simp_all
  have d: "set [1, 7, 257] \<subseteq> dom (msgs demo_sched)" by (simp add: demo_sched_def)
  have k: "sort_key ?f [1, 7, 257] = [7, 1, 257]"
    using f by (simp only: sort_key_simps insort_key.simps, simp)
  have "queued (\<lambda>_. []) = {}" by (simp add: queued_def)
  from npfp_priority_order [OF demo_sched_inv this _ d, of ?id] show ?thesis
    unfolding k by (auto simp: eval_nat_numeral(2,3))
qed

end
