(* ===== verification/Fdsched.thy ===== *)
theory Fdsched
  imports Npfp
begin

text \<open>
  The scheduler over file descriptors, \<open>src/examples/scheduler/src/fdsched.c\<close>, and the
  application of \<open>src/examples/scheduler/src/main.c\<close>, with \<open>io.c\<close>.

  The operating system is a parameter, the record \<open>os\<close> of the calls that the code makes, over a
  state \<open>'e\<close> of the outside world; \<open>message_identify_type\<close> and the callbacks are parameters of
  the scheduler, and are given by the model of \<open>main.c\<close>. The loops that may run forever are
  partial functions into \<open>option\<close>: \<open>None\<close> is a run that faults or does not return.
\<close>

section \<open>Data\<close>

text \<open>The function of a callback: the default \<open>nop_callback\<close> or one of the application.\<close>

datatype 'f callback_fn = Nop_callback | User 'f

record ('f, 'e) os =
  os_read :: "int \<Rightarrow> nat \<Rightarrow> 'e \<Rightarrow> (int \<times> u8 list \<times> int) \<times> 'e"
  os_fcntl :: "int \<Rightarrow> int \<Rightarrow> int \<Rightarrow> 'e \<Rightarrow> int \<times> 'e"
  os_malloc :: "(nat, message) heap \<Rightarrow> (nat \<times> message) option"
  os_call :: "'f \<Rightarrow> message \<Rightarrow> 'e \<Rightarrow> int \<times> 'e"
  os_identify :: "u64 \<Rightarrow> u8 list \<Rightarrow> u8"
  EWOULDBLOCK :: int
  EAGAIN :: int

record ('f, 'e) fd_scheduler =
  input_channels :: "int list"
  num_channels :: u64
  sst :: "'f callback_fn sstate"
  errno :: int
  env :: 'e

definition MAX_INPUT_CHANNELS :: nat where "MAX_INPUT_CHANNELS = 16"
definition MAX_MESSAGE_LEN :: nat where "MAX_MESSAGE_LEN = 4096 - 1 - 8 - 8"
definition NUM_MESSAGE_TYPES :: nat where "NUM_MESSAGE_TYPES = 256"
definition F_SETFL :: int where "F_SETFL = 4"
definition O_NONBLOCK :: int where "O_NONBLOCK = 2048"

text \<open>The conversion of a value to \<open>int\<close>.\<close>

definition c_int :: "int \<Rightarrow> int" where
  "c_int x = sint (word_of_int x :: 32 word)"

section \<open>Set-up\<close>

definition nop_callback :: "message \<Rightarrow> int" where
  "nop_callback m = 0"

fun call_fn :: "('f, 'e) os \<Rightarrow> 'f callback_fn \<Rightarrow> message \<Rightarrow> 'e \<Rightarrow> int \<times> 'e" where
  "call_fn os Nop_callback m e = (nop_callback m, e)"
| "call_fn os (User f) m e = os_call os f m e"

definition fds_init :: "('f, 'e) fd_scheduler \<Rightarrow> ('f, 'e) fd_scheduler option" where
  "fds_init w = do {
     let w = w\<lparr>num_channels := 0\<rparr>;
     bm \<leftarrow> prio_level_init (prio_levels (sched (sst w)));
     let s = (sst w)\<lparr>sched := (sched (sst w))\<lparr>prio_levels := bm\<rparr>\<rparr>;
     s \<leftarrow> c_for [0..<NUM_MESSAGE_TYPES] (\<lambda>typ s. do {
            cbs \<leftarrow> arr_set (callbacks (sched s)) typ \<lparr>prio = 0, cb_fn = Nop_callback\<rparr>;
            Some (s\<lparr>sched := (sched s)\<lparr>callbacks := cbs\<rparr>\<rparr>) }) s;
     s \<leftarrow> c_for [0..<NUM_PRIORITIES] (\<lambda>p s. do {
            s \<leftarrow> set_queue s p (\<lambda>_. \<lparr>first = NULL, last = NULL\<rparr>);
            set_queue s p (\<lambda>q. q\<lparr>last := Addr (QFirst p)\<rparr>) }) s;
     Some (w\<lparr>sst := s\<rparr>) }"

definition fds_add_channel ::
  "('f, 'e) os \<Rightarrow> ('f, 'e) fd_scheduler \<Rightarrow> int \<Rightarrow> (int \<times> ('f, 'e) fd_scheduler) option" where
  "fds_add_channel os w fd = do {
     c_assert (num_channels w < of_nat MAX_INPUT_CHANNELS);
     let (err, e) = os_fcntl os fd F_SETFL O_NONBLOCK (env w);
     let w = w\<lparr>env := e\<rparr>;
     if err \<noteq> 0 then Some (err, w)
     else do {
       cs \<leftarrow> arr_set (input_channels w) (unat (num_channels w)) fd;
       Some (0, w\<lparr>input_channels := cs, num_channels := num_channels w + 1\<rparr>) } }"

definition fds_set_callback ::
  "('f, 'e) fd_scheduler \<Rightarrow> u8 \<Rightarrow> 'f \<Rightarrow> u8 \<Rightarrow> ('f, 'e) fd_scheduler option" where
  "fds_set_callback w type f p = do {
     cbs \<leftarrow> arr_set (callbacks (sched (sst w))) (unat type) \<lparr>prio = p, cb_fn = User f\<rparr>;
     Some (w\<lparr>sst := (sst w)\<lparr>sched := (sched (sst w))\<lparr>callbacks := cbs\<rparr>\<rparr>\<rparr>) }"

section \<open>Receiving\<close>

text \<open>\<open>xmalloc\<close>: \<open>safe_exit\<close> does not return.\<close>

definition xmalloc :: "('f, 'e) os \<Rightarrow> 'f callback_fn sstate \<Rightarrow> (nat \<times> 'f callback_fn sstate) option" where
  "xmalloc os s =
     (case os_malloc os (msgs s) of
        None \<Rightarrow> None
      | Some (a, garbage) \<Rightarrow> Some (a, s\<lparr>msgs := (msgs s)(a \<mapsto> garbage)\<rparr>))"

definition free_msg :: "'f sstate \<Rightarrow> nat ptr \<Rightarrow> 'f sstate option" where
  "free_msg s p = do {
     _ \<leftarrow> load (msgs s) p;
     case p of Addr a \<Rightarrow> Some (s\<lparr>msgs := (msgs s)(a := None)\<rparr>) | _ \<Rightarrow> None }"

definition receive_one_message ::
  "('f, 'e) os \<Rightarrow> ('f, 'e) fd_scheduler \<Rightarrow> int \<Rightarrow> (int \<times> ('f, 'e) fd_scheduler) option" where
  "receive_one_message os w fd = do {
     (msg, s) \<leftarrow> xmalloc os (sst w);
     c_assert (Addr msg \<noteq> NULL);
     let ((r, bytes, en), e) = os_read os fd MAX_MESSAGE_LEN (env w);
     h \<leftarrow> modify (msgs s) (Addr msg) (\<lambda>m. m\<lparr>m_data := bytes\<rparr>);
     let s = s\<lparr>msgs := h\<rparr>;
     let w = w\<lparr>errno := en, env := e\<rparr>;
     let n = c_int r;
     if n < 0 then do {
       s \<leftarrow> free_msg s (Addr msg);
       Some (n, w\<lparr>sst := s\<rparr>) }
     else do {
       h \<leftarrow> modify (msgs s) (Addr msg) (\<lambda>m. m\<lparr>m_len := word_of_int n\<rparr>);
       s \<leftarrow> npfp_enqueue (\<lambda>m. os_identify os (m_len m) (m_data m)) (s\<lparr>msgs := h\<rparr>) msg;
       Some (0, w\<lparr>sst := s\<rparr>) } }"

text \<open>The loop of \<open>receive_messages\<close>: it returns \<open>err\<close> and \<open>non_empty\<close>.\<close>

partial_function (option) receive_loop ::
  "('f, 'e) os \<Rightarrow> int \<Rightarrow> int \<Rightarrow> ('f, 'e) fd_scheduler \<Rightarrow> (int \<times> int \<times> ('f, 'e) fd_scheduler) option" where
  "receive_loop os fd non_empty w =
     Option.bind (receive_one_message os w fd) (\<lambda>(err, w).
       if err = 0 then receive_loop os fd 1 w else Some (err, non_empty, w))"

definition receive_messages ::
  "('f, 'e) os \<Rightarrow> ('f, 'e) fd_scheduler \<Rightarrow> int \<Rightarrow> (int \<times> ('f, 'e) fd_scheduler) option" where
  "receive_messages os w fd = do {
     (err, non_empty, w) \<leftarrow> receive_loop os fd 0 w;
     if errno w = EWOULDBLOCK os \<or> errno w = EAGAIN os then Some (non_empty, w) else Some (err, w) }"

text \<open>The loop of \<open>check_channels\<close> over the remaining indices.\<close>

fun channel_loop ::
  "('f, 'e) os \<Rightarrow> nat list \<Rightarrow> int \<Rightarrow> ('f, 'e) fd_scheduler \<Rightarrow> (int \<times> ('f, 'e) fd_scheduler) option" where
  "channel_loop os [] flag w = Some (flag, w)"
| "channel_loop os (ch # chs) flag w = do {
     fd \<leftarrow> arr_get (input_channels w) ch;
     (err, w) \<leftarrow> receive_messages os w fd;
     if err < 0 then Some (err, w)
     else channel_loop os chs (if err > 0 then 1 else flag) w }"

definition check_channels ::
  "('f, 'e) os \<Rightarrow> ('f, 'e) fd_scheduler \<Rightarrow> (int \<times> ('f, 'e) fd_scheduler) option" where
  "check_channels os w = channel_loop os [0..<unat (num_channels w)] 0 w"

partial_function (option) check_channels_until_empty ::
  "('f, 'e) os \<Rightarrow> ('f, 'e) fd_scheduler \<Rightarrow> (int \<times> ('f, 'e) fd_scheduler) option" where
  "check_channels_until_empty os w =
     Option.bind (check_channels os w) (\<lambda>(err, w).
       if err < 0 then Some (err, w)
       else if err > 0 then check_channels_until_empty os w
       else Some (err, w))"

section \<open>The main loop\<close>

partial_function (option) fds_run_loop ::
  "('f, 'e) os \<Rightarrow> ('f, 'e) fd_scheduler \<Rightarrow> (int \<times> ('f, 'e) fd_scheduler) option" where
  "fds_run_loop os w =
     Option.bind (check_channels_until_empty os w) (\<lambda>(err, w).
     Option.bind (npfp_dequeue (sst w)) (\<lambda>(msg, s).
       if msg = NULL then fds_run_loop os (w\<lparr>sst := s\<rparr>)
       else Option.bind (npfp_dispatch (call_fn os) s msg (env w)) (\<lambda>(err, e).
         Option.bind (free_msg s msg) (\<lambda>s.
           if err \<noteq> 0 then Some (err, w\<lparr>sst := s, env := e\<rparr>)
           else fds_run_loop os (w\<lparr>sst := s, env := e\<rparr>)))))"

definition fds_run ::
  "('f, 'e) os \<Rightarrow> ('f, 'e) fd_scheduler \<Rightarrow> (int \<times> ('f, 'e) fd_scheduler) option" where
  "fds_run os w = do { c_assert (num_channels w > 0); fds_run_loop os w }"

section \<open>Abstraction\<close>

text \<open>
  The abstract state is the list of packets that wait at each priority. The heap holds the
  queued messages and nothing else, so that no message leaks.
\<close>

definition bytes_of :: "'f sstate \<Rightarrow> nat \<Rightarrow> u8 list" where
  "bytes_of s a = m_data (the (msgs s a))"

definition msg_ok :: "('f, 'e) os \<Rightarrow> message \<Rightarrow> bool" where
  "msg_ok os m \<longleftrightarrow> m_len m = word_of_nat (length (m_data m)) \<and> m_type m = os_identify os (m_len m) (m_data m)"

definition rep :: "('f, 'e) os \<Rightarrow> 'f callback_fn sstate \<Rightarrow> (nat \<Rightarrow> u8 list list) \<Rightarrow> bool" where
  "rep os s A \<longleftrightarrow> (\<exists>Q. sched_inv s Q \<and> dom (msgs s) = queued Q \<and> (\<forall>m\<in>ran (msgs s). msg_ok os m) \<and>
     (\<forall>i<256. A i = map (bytes_of s) (Q i)))"

definition packet_callback :: "('f, 'e) os \<Rightarrow> 'f callback_fn sstate \<Rightarrow> u8 list \<Rightarrow> 'f callback_fn callback" where
  "packet_callback os s p = callbacks (sched s) ! unat (os_identify os (word_of_nat (length p)) p)"

definition packet_prio :: "('f, 'e) os \<Rightarrow> 'f callback_fn sstate \<Rightarrow> u8 list \<Rightarrow> nat" where
  "packet_prio os s p = unat (prio (packet_callback os s p))"

definition arrive :: "('p \<Rightarrow> nat) \<Rightarrow> 'p \<Rightarrow> (nat \<Rightarrow> 'p list) \<Rightarrow> nat \<Rightarrow> 'p list" where
  "arrive pr p A = A(pr p := A (pr p) @ [p])"

lemma finite_queued [simp]: "finite (queued Q)"
  by (simp add: queued_def)

lemma rep_finite: "rep os s A \<Longrightarrow> finite (dom (msgs s))"
  by (auto simp: rep_def)

lemma c_int_id: "- (2 ^ 31) \<le> x \<Longrightarrow> x < 2 ^ 31 \<Longrightarrow> c_int x = x"
  by (simp add: c_int_def sint_sbintrunc' signed_take_bit_int_eq_self)

lemma fold_arrive: "fold (arrive pr) ps A = (\<lambda>i. A i @ filter (\<lambda>p. pr p = i) ps)"
  by (induction ps arbitrary: A) (auto simp: arrive_def fun_eq_iff)

text \<open>A message that is in no queue does not matter to the scheduler.\<close>

lemma sched_inv_other:
  assumes "sched_inv s Q" "a \<notin> queued Q"
  shows "sched_inv (s\<lparr>msgs := (msgs s)(a := v)\<rparr>) Q"
proof -
  have "msg_chain ((msgs s)(a := v)) p (Q i) = msg_chain (msgs s) p (Q i)" if "i < 256" for p i
    using assms(2) that by (intro chain_frame) (auto simp: queued_def)
  then show ?thesis using assms(1) by (simp add: sched_inv_def queue_ok_def)
qed

lemma receive_one_message_none:
  assumes r: "rep os (sst w) A" and m: "os_malloc os (msgs (sst w)) = Some (a, g)" "msgs (sst w) a = None"
    and rd: "os_read os fd MAX_MESSAGE_LEN (env w) = ((- 1, b, en), e')"
  shows "receive_one_message os w fd = Some (- 1, w\<lparr>errno := en, env := e'\<rparr>)"
proof -
  have c: "c_int (- 1) = - 1" by (rule c_int_id) simp_all
  have h: "(msgs (sst w))(a := None) = msgs (sst w)" using m(2) by auto
  show ?thesis using m rd
    by (simp add: receive_one_message_def xmalloc_def modify_def free_msg_def load_def Let_def c h fun_upd_upd)
qed

lemma receive_one_message_some:
  assumes r: "rep os (sst w) A" and m: "os_malloc os (msgs (sst w)) = Some (a, g)" "msgs (sst w) a = None"
    and rd: "os_read os fd MAX_MESSAGE_LEN (env w) = ((int (length p), p, en), e')"
    and l: "length p \<le> MAX_MESSAGE_LEN"
  shows "\<exists>s'. receive_one_message os w fd = Some (0, w\<lparr>errno := en, env := e', sst := s'\<rparr>) \<and>
    rep os s' (arrive (packet_prio os (sst w)) p A) \<and> callbacks (sched s') = callbacks (sched (sst w))"
proof -
  let ?s = "sst w" and ?id = "\<lambda>m. os_identify os (m_len m) (m_data m)"
  obtain Q where Q: "sched_inv ?s Q" "dom (msgs ?s) = queued Q" "\<forall>m\<in>ran (msgs ?s). msg_ok os m"
    "\<forall>i<256. A i = map (bytes_of ?s) (Q i)" using r by (auto simp: rep_def)
  let ?m = "g\<lparr>m_data := p, m_len := word_of_nat (length p)\<rparr>"
  let ?s1 = "?s\<lparr>msgs := (msgs ?s)(a \<mapsto> ?m)\<rparr>"
  have c: "c_int (int (length p)) = int (length p)"
    using l by (intro c_int_id) (simp_all add: MAX_MESSAGE_LEN_def)
  have a: "a \<notin> queued Q" using Q(2) m(2) by auto
  have inv1: "sched_inv ?s1 Q" by (rule sched_inv_other [OF Q(1) a])
  let ?i = "packet_prio os ?s p"
  have i: "?i = unat (prio (callbacks (sched ?s1) ! unat (?id ?m)))"
    by (simp add: packet_prio_def packet_callback_def)
  have i256: "?i < 256" unfolding packet_prio_def by (rule u8_less)
  have m1: "msgs ?s1 a = Some ?m" by simp
  obtain s' where s': "npfp_enqueue ?id ?s1 a = Some s'" "sched_inv s' (Q(?i := Q ?i @ [a]))"
    "callbacks (sched s') = callbacks (sched ?s)"
    "relinked ((msgs ?s1)(a \<mapsto> ?m\<lparr>m_type := ?id ?m\<rparr>)) (msgs s')"
    using npfp_enqueue_ok [where ident = ?id, OF inv1 m1 a i] by auto
  have "receive_one_message os w fd = Some (0, w\<lparr>errno := en, env := e', sst := s'\<rparr>)"
    using m rd s'(1)
    by (simp add: receive_one_message_def xmalloc_def modify_def free_msg_def load_def Let_def c)
  moreover have "rep os s' (arrive (packet_prio os ?s) p A)"
    unfolding rep_def
  proof (intro exI conjI)
    let ?Q = "Q(?i := Q ?i @ [a])" and ?h = "(msgs ?s)(a \<mapsto> ?m\<lparr>m_type := ?id ?m\<rparr>)"
    have rl: "relinked ?h (msgs s')" using s'(4) by simp
    have old: "\<exists>n. msgs s' x = Some (mx\<lparr>m_next := n\<rparr>)" if "?h x = Some mx" for x mx
      using rl that unfolding relinked_def by blast
    have dm: "dom (msgs s') = insert a (queued Q)" using rl Q(2) unfolding relinked_def by auto
    show "sched_inv s' ?Q" by (rule s'(2))
    show "dom (msgs s') = queued ?Q" using dm queued_add [OF i256] by metis
    show "\<forall>m\<in>ran (msgs s'). msg_ok os m"
    proof
      fix m' assume "m' \<in> ran (msgs s')"
      then obtain x where x: "msgs s' x = Some m'" by (auto simp: ran_def)
      then have "x \<in> dom ?h" using rl unfolding relinked_def by auto
      then obtain mx where mx: "?h x = Some mx" unfolding dom_def by blast
      then obtain n where "m' = mx\<lparr>m_next := n\<rparr>" using old [OF mx] x by auto
      moreover have "msg_ok os mx" using mx Q(3) by (auto simp: msg_ok_def ran_def split: if_splits)
      ultimately show "msg_ok os m'" by (simp add: msg_ok_def)
    qed
    have ba: "bytes_of s' a = p" using old [of a] by (auto simp: bytes_of_def)
    have bo: "bytes_of s' x = bytes_of ?s x" if "x \<in> queued Q" for x
    proof -
      have "x \<in> dom (msgs ?s)" "x \<noteq> a" using that Q(2) a by auto
      then obtain mx where "msgs ?s x = Some mx" "?h x = Some mx" by auto
      then show ?thesis using old [of x mx] by (auto simp: bytes_of_def)
    qed
    show "\<forall>i<256. arrive (packet_prio os ?s) p A i = map (bytes_of s') (?Q i)"
    proof (intro allI impI)
      fix j :: nat assume j: "j < 256"
      then have "map (bytes_of s') (Q j) = map (bytes_of ?s) (Q j)"
        using bo by (intro map_cong) (auto simp: queued_def)
      then show "arrive (packet_prio os ?s) p A j = map (bytes_of s') (?Q j)"
        using Q(4) j ba by (simp add: arrive_def)
    qed
  qed
  ultimately show ?thesis using s'(3) by blast
qed

section \<open>A network of packets\<close>

text \<open>
  What the scheduler relies on: \<open>malloc\<close> returns a block that is not in use; \<open>read\<close> on a
  non-blocking descriptor returns the next packet, cut to the size of the buffer by the network,
  or fails with \<open>EWOULDBLOCK\<close>; a callback returns a result that depends on the packet. \<open>pend e\<close>
  is the packets that wait on each descriptor and \<open>served e\<close> the callbacks that were called.
\<close>

definition malloc_ok :: "('f, 'e) os \<Rightarrow> bool" where
  "malloc_ok os \<longleftrightarrow> (\<forall>h. finite (dom h) \<longrightarrow> (\<exists>a g. os_malloc os h = Some (a, g) \<and> h a = None))"

definition read_ok :: "('f, 'e) os \<Rightarrow> ('e \<Rightarrow> int \<Rightarrow> u8 list list) \<Rightarrow> ('e \<Rightarrow> ('f \<times> u8 list) list) \<Rightarrow> bool" where
  "read_ok os pend served \<longleftrightarrow> (\<forall>fd e.
     (\<forall>p ps. pend e fd = p # ps \<longrightarrow> length p \<le> MAX_MESSAGE_LEN \<and>
       (\<exists>en e'. os_read os fd MAX_MESSAGE_LEN e = ((int (length p), p, en), e') \<and>
          pend e' = (pend e)(fd := ps) \<and> served e' = served e)) \<and>
     (pend e fd = [] \<longrightarrow>
       (\<exists>b e'. os_read os fd MAX_MESSAGE_LEN e = ((- 1, b, EWOULDBLOCK os), e') \<and>
          pend e' = pend e \<and> served e' = served e)))"

definition call_ok :: "('f, 'e) os \<Rightarrow> ('e \<Rightarrow> int \<Rightarrow> u8 list list) \<Rightarrow> ('e \<Rightarrow> ('f \<times> u8 list) list) \<Rightarrow>
    ('f \<Rightarrow> u8 list \<Rightarrow> int) \<Rightarrow> bool" where
  "call_ok os pend served ret \<longleftrightarrow> (\<forall>f m e. m_len m = word_of_nat (length (m_data m)) \<longrightarrow>
     (\<exists>e'. os_call os f m e = (ret f (m_data m), e') \<and>
        pend e' = pend e \<and> served e' = served e @ [(f, m_data m)]))"

text \<open>\<open>same_setup w w'\<close>: the channels and the callbacks are those of \<open>w\<close>.\<close>

definition same_setup :: "('f, 'e) fd_scheduler \<Rightarrow> ('f, 'e) fd_scheduler \<Rightarrow> bool" where
  "same_setup w w' \<longleftrightarrow> input_channels w' = input_channels w \<and> num_channels w' = num_channels w \<and>
     callbacks (sched (sst w')) = callbacks (sched (sst w))"

lemma same_setup_trans: "same_setup w w' \<Longrightarrow> same_setup w' w'' \<Longrightarrow> same_setup w w''"
  by (simp add: same_setup_def)

lemma same_setup_prio: "same_setup w w' \<Longrightarrow> packet_prio os (sst w') = packet_prio os (sst w)"
  by (simp add: same_setup_def packet_prio_def packet_callback_def fun_eq_iff)

lemma receive_loop_ok:
  assumes mo: "malloc_ok os" and ro: "read_ok os pend served"
  shows "rep os (sst w) A \<Longrightarrow> \<exists>w'. receive_loop os fd ne w = Some (- 1, if pend (env w) fd = [] then ne else 1, w') \<and>
    rep os (sst w') (fold (arrive (packet_prio os (sst w))) (pend (env w) fd) A) \<and> same_setup w w' \<and>
    errno w' = EWOULDBLOCK os \<and> pend (env w') = (pend (env w))(fd := []) \<and> served (env w') = served (env w)"
proof (induction "pend (env w) fd" arbitrary: w A ne)
  case Nil
  obtain a g where m: "os_malloc os (msgs (sst w)) = Some (a, g)" "msgs (sst w) a = None"
    using mo rep_finite [OF Nil.prems] unfolding malloc_ok_def by blast
  obtain b e' where rd: "os_read os fd MAX_MESSAGE_LEN (env w) = ((- 1, b, EWOULDBLOCK os), e')"
    "pend e' = pend (env w)" "served e' = served (env w)"
    using ro Nil.hyps unfolding read_ok_def by metis
  show ?case using receive_one_message_none [OF Nil.prems m rd(1)] rd(2,3) Nil.prems Nil.hyps
    by (subst receive_loop.simps) (auto simp: same_setup_def fun_eq_iff)
next
  case (Cons p ps)
  obtain a g where m: "os_malloc os (msgs (sst w)) = Some (a, g)" "msgs (sst w) a = None"
    using mo rep_finite [OF Cons.prems] unfolding malloc_ok_def by blast
  obtain en e' where rd: "length p \<le> MAX_MESSAGE_LEN"
    "os_read os fd MAX_MESSAGE_LEN (env w) = ((int (length p), p, en), e')"
    "pend e' = (pend (env w))(fd := ps)" "served e' = served (env w)"
    using ro Cons.hyps(2) [symmetric] unfolding read_ok_def by metis
  obtain s' where s': "receive_one_message os w fd = Some (0, w\<lparr>errno := en, env := e', sst := s'\<rparr>)"
    "rep os s' (arrive (packet_prio os (sst w)) p A)" "callbacks (sched s') = callbacks (sched (sst w))"
    using receive_one_message_some [OF Cons.prems m rd(2,1)] by blast
  let ?w = "w\<lparr>errno := en, env := e', sst := s'\<rparr>"
  have ss: "same_setup w ?w" using s'(3) by (simp add: same_setup_def)
  have pe: "ps = pend (env ?w) fd" using rd(3) by simp
  have r1: "rep os (sst ?w) (arrive (packet_prio os (sst w)) p A)" using s'(2) by simp
  obtain w' where w': "receive_loop os fd 1 ?w = Some (- 1, 1, w')"
    "rep os (sst w') (fold (arrive (packet_prio os (sst w))) ps (arrive (packet_prio os (sst w)) p A))"
    "same_setup ?w w'" "errno w' = EWOULDBLOCK os" "pend (env w') = (pend (env ?w))(fd := [])"
    "served (env w') = served (env ?w)"
    using Cons.hyps(1) [OF pe r1, of 1] same_setup_prio [OF ss, of os] pe [symmetric] by auto
  have "receive_loop os fd ne w = Some (- 1, 1, w')"
    using s'(1) w'(1) by (subst receive_loop.simps) simp
  then show ?case using w'(2-6) same_setup_trans [OF ss] rd(3,4) Cons.hyps(2) [symmetric] by auto
qed

lemma receive_messages_ok:
  assumes "malloc_ok os" "read_ok os pend served" "rep os (sst w) A"
  shows "\<exists>w'. receive_messages os w fd = Some (if pend (env w) fd = [] then 0 else 1, w') \<and>
    rep os (sst w') (fold (arrive (packet_prio os (sst w))) (pend (env w) fd) A) \<and> same_setup w w' \<and>
    pend (env w') = (pend (env w))(fd := []) \<and> served (env w') = served (env w)"
  using receive_loop_ok [OF assms, of fd 0] by (auto simp: receive_messages_def)

text \<open>The packets in the order in which the channels are read.\<close>

fun arrived :: "(int \<Rightarrow> 'p list) \<Rightarrow> int list \<Rightarrow> 'p list" where
  "arrived P [] = []"
| "arrived P (c # cs) = P c @ arrived (P(c := [])) cs"

definition drained :: "(int \<Rightarrow> 'p list) \<Rightarrow> int set \<Rightarrow> int \<Rightarrow> 'p list" where
  "drained P C c = (if c \<in> C then [] else P c)"

lemma arrived_drained: "set cs \<subseteq> C \<Longrightarrow> arrived (drained P C) cs = []"
proof (induction cs arbitrary: P)
  case (Cons c cs)
  have "(drained P C)(c := []) = drained P C" using Cons.prems by (auto simp: drained_def fun_eq_iff)
  moreover have "drained P C c = []" using Cons.prems by (simp add: drained_def)
  ultimately show ?case using Cons by simp
qed simp

lemma channel_loop_ok:
  assumes mo: "malloc_ok os" and ro: "read_ok os pend served"
  shows "rep os (sst w) A \<Longrightarrow> \<forall>i\<in>set is. i < length (input_channels w) \<Longrightarrow> cs = map ((!) (input_channels w)) is \<Longrightarrow>
    \<exists>w'. channel_loop os is flag w = Some (if arrived (pend (env w)) cs = [] then flag else 1, w') \<and>
    rep os (sst w') (fold (arrive (packet_prio os (sst w))) (arrived (pend (env w)) cs) A) \<and> same_setup w w' \<and>
    pend (env w') = drained (pend (env w)) (set cs) \<and> served (env w') = served (env w)"
proof (induction "is" arbitrary: w A flag cs)
  case Nil
  then show ?case by (auto simp: same_setup_def drained_def)
next
  case (Cons i "is")
  let ?fd = "input_channels w ! i" and ?cs = "map ((!) (input_channels w)) is"
  obtain w1 where w1: "receive_messages os w ?fd = Some (if pend (env w) ?fd = [] then 0 else 1, w1)"
    "rep os (sst w1) (fold (arrive (packet_prio os (sst w))) (pend (env w) ?fd) A)" "same_setup w w1"
    "pend (env w1) = (pend (env w))(?fd := [])" "served (env w1) = served (env w)"
    using receive_messages_ok [OF mo ro Cons.prems(1)] by blast
  have ic: "input_channels w1 = input_channels w" using w1(3) by (simp add: same_setup_def)
  let ?f = "if pend (env w) ?fd = [] then flag else 1"
  obtain w' where w': "channel_loop os is ?f w1 = Some (if arrived (pend (env w1)) ?cs = [] then ?f else 1, w')"
    "rep os (sst w') (fold (arrive (packet_prio os (sst w1))) (arrived (pend (env w1)) ?cs)
      (fold (arrive (packet_prio os (sst w))) (pend (env w) ?fd) A))" "same_setup w1 w'"
    "pend (env w') = drained (pend (env w1)) (set ?cs)" "served (env w') = served (env w1)"
    using Cons.IH [OF w1(2), of ?cs ?f] Cons.prems(2) ic by auto
  have c: "channel_loop os (i # is) flag w = channel_loop os is ?f w1"
    using w1(1) Cons.prems(2) by auto
  show ?case unfolding c using w' w1(4,5) same_setup_trans [OF w1(3)] same_setup_prio [OF w1(3), of os] Cons.prems(3)
    by (intro exI [of _ w']) (auto simp: drained_def fun_eq_iff)
qed

definition channels :: "('f, 'e) fd_scheduler \<Rightarrow> int list" where
  "channels w = map ((!) (input_channels w)) [0..<unat (num_channels w)]"

definition channels_ok :: "('f, 'e) fd_scheduler \<Rightarrow> bool" where
  "channels_ok w \<longleftrightarrow> length (input_channels w) = MAX_INPUT_CHANNELS \<and> unat (num_channels w) \<le> MAX_INPUT_CHANNELS"

lemma same_setup_channels:
  "same_setup w w' \<Longrightarrow> channels w' = channels w" "same_setup w w' \<Longrightarrow> channels_ok w' = channels_ok w"
  by (simp_all add: same_setup_def channels_def channels_ok_def)

lemma check_channels_ok:
  assumes "malloc_ok os" "read_ok os pend served" "rep os (sst w) A" "channels_ok w"
  shows "\<exists>w'. check_channels os w = Some (if arrived (pend (env w)) (channels w) = [] then 0 else 1, w') \<and>
    rep os (sst w') (fold (arrive (packet_prio os (sst w))) (arrived (pend (env w)) (channels w)) A) \<and> same_setup w w' \<and>
    pend (env w') = drained (pend (env w)) (set (channels w)) \<and> served (env w') = served (env w)"
  unfolding check_channels_def
  by (rule channel_loop_ok [OF assms(1-3)]) (use assms(4) in \<open>auto simp: channels_ok_def channels_def\<close>)

lemma drained_drained: "drained (drained P C) C = drained P C"
  by (auto simp: drained_def)

text \<open>One pass collects everything that waits; a second pass, if any, finds nothing.\<close>

lemma check_channels_until_empty_ok:
  assumes mo: "malloc_ok os" and ro: "read_ok os pend served" and r: "rep os (sst w) A" and ch: "channels_ok w"
  shows "\<exists>w'. check_channels_until_empty os w = Some (0, w') \<and>
    rep os (sst w') (fold (arrive (packet_prio os (sst w))) (arrived (pend (env w)) (channels w)) A) \<and> same_setup w w' \<and>
    pend (env w') = drained (pend (env w)) (set (channels w)) \<and> served (env w') = served (env w)"
proof -
  let ?A = "fold (arrive (packet_prio os (sst w))) (arrived (pend (env w)) (channels w)) A"
  obtain w1 where w1: "check_channels os w = Some (if arrived (pend (env w)) (channels w) = [] then 0 else 1, w1)"
    "rep os (sst w1) ?A" "same_setup w w1" "pend (env w1) = drained (pend (env w)) (set (channels w))"
    "served (env w1) = served (env w)" using check_channels_ok [OF mo ro r ch] by blast
  have ch1: "channels_ok w1" "channels w1 = channels w" using same_setup_channels [OF w1(3)] ch by simp_all
  have e: "arrived (pend (env w1)) (channels w1) = []" using w1(4) ch1(2) by (simp add: arrived_drained)
  obtain w2 where w2: "check_channels os w1 = Some (0, w2)" "rep os (sst w2) ?A" "same_setup w1 w2"
    "pend (env w2) = pend (env w1)" "served (env w2) = served (env w1)"
    using check_channels_ok [OF mo ro w1(2) ch1(1)] e w1(4) ch1(2) by (auto simp: drained_drained)
  have two: "check_channels_until_empty os w1 = Some (0, w2)"
    using w2(1) by (subst check_channels_until_empty.simps) simp
  show ?thesis
  proof (cases "arrived (pend (env w)) (channels w) = []")
    case True
    then have "check_channels_until_empty os w = Some (0, w1)"
      using w1(1) by (subst check_channels_until_empty.simps) simp
    then show ?thesis using w1 by blast
  next
    case False
    then have "check_channels_until_empty os w = Some (0, w2)"
      using w1(1) two by (subst check_channels_until_empty.simps) simp
    then show ?thesis using w1 w2 same_setup_trans [OF w1(3)] by auto
  qed
qed

section \<open>Service\<close>

lemma least_queue:
  assumes "flat Q \<noteq> []"
  obtains i x xs where "i < 256" "\<forall>j<i. Q j = []" "Q i = x # xs"
proof -
  let ?P = "\<lambda>i. i < 256 \<and> Q i \<noteq> []"
  have "\<exists>i. ?P i" using assms by (auto simp: flat_def)
  then have i: "?P (LEAST i. ?P i)" by (rule LeastI_ex)
  have "Q j = []" if "j < (LEAST i. ?P i)" for j using not_less_Least [OF that] i that by auto
  moreover obtain x xs where "Q (LEAST i. ?P i) = x # xs" using i by (cases "Q (LEAST i. ?P i)") auto
  ultimately show thesis using that i by blast
qed

lemma flat_cong: "(\<And>i. i < 256 \<Longrightarrow> A i = B i) \<Longrightarrow> flat A = flat B"
  unfolding flat_def by (intro arg_cong [where f = concat] map_cong) auto

lemma dequeue_empty:
  assumes "rep os s A" "flat A = []"
  shows "npfp_dequeue s = Some (NULL, s)"
proof -
  obtain Q where Q: "sched_inv s Q" "\<forall>i<256. A i = map (bytes_of s) (Q i)" using assms(1) by (auto simp: rep_def)
  have "Q i = []" if "i < 256" for i using Q(2) assms(2) that by (auto simp: flat_def)
  then show ?thesis using npfp_dequeue_empty [OF Q(1)] by blast
qed

lemma queued_remove:
  assumes "i < 256" "Q i = a # as"
  shows "queued Q = insert a (queued (Q(i := as)))"
proof (rule set_eqI)
  have q: "x \<in> queued R \<longleftrightarrow> (\<exists>j<256. x \<in> set (R j))" for x R by (auto simp: queued_def)
  show "x \<in> queued Q \<longleftrightarrow> x \<in> insert a (queued (Q(i := as)))" for x
    unfolding insert_iff q using assms by (metis fun_upd_other fun_upd_same set_ConsD list.set_intros)
qed

lemma dequeue_next:
  assumes r: "rep os s A" and ne: "flat A = p # ps"
  shows "\<exists>a m s' s'' A'. npfp_dequeue s = Some (Addr a, s') \<and> msgs s' a = Some m \<and> m_data m = p \<and> msg_ok os m \<and>
    callbacks (sched s') = callbacks (sched s) \<and> free_msg s' (Addr a) = Some s'' \<and>
    callbacks (sched s'') = callbacks (sched s) \<and> rep os s'' A' \<and> flat A' = ps"
proof -
  obtain Q where Q: "sched_inv s Q" "dom (msgs s) = queued Q" "\<forall>m\<in>ran (msgs s). msg_ok os m"
    "\<forall>i<256. A i = map (bytes_of s) (Q i)" using r by (auto simp: rep_def)
  have "flat A \<noteq> []" using ne by simp
  then have "flat Q \<noteq> []" using Q(4) by (auto simp: flat_def)
  then obtain i a as where i: "i < 256" "\<forall>j<i. Q j = []" "Q i = a # as" by (rule least_queue)
  obtain s' where s': "npfp_dequeue s = Some (Addr a, s')" "sched_inv s' (Q(i := as))" "msgs s' = msgs s"
    "callbacks (sched s') = callbacks (sched s)" using npfp_dequeue_ok [OF Q(1) i] by blast
  have aq: "a \<in> queued Q" using i by (auto simp: queued_def intro!: bexI [of _ i])
  obtain m where m: "msgs s a = Some m" using aq Q(2) by (metis domD)
  have Ai: "\<forall>j<i. A j = []" "A i = bytes_of s a # map (bytes_of s) as" using Q(4) i by auto
  have p: "p = m_data m" "flat (A(i := map (bytes_of s) as)) = ps"
    using flat_dequeue [OF i(1) Ai] ne m by (simp_all add: bytes_of_def)
  have na: "a \<notin> set as" "\<forall>j<256. j \<noteq> i \<longrightarrow> a \<notin> set (Q j)"
    using sched_invD(5) [OF Q(1) i(1)] sched_invD(6) [OF Q(1) i(1)] i(3) by (auto simp: queue_ok_def)
  then have nq: "a \<notin> queued (Q(i := as))" by (auto simp: queued_def)
  have qd: "queued (Q(i := as)) = queued Q - {a}"
    using nq queued_remove [where Q = Q, OF i(1,3)] by auto
  let ?s = "s'\<lparr>msgs := (msgs s')(a := None)\<rparr>"
  have fr: "free_msg s' (Addr a) = Some ?s" using m s'(3) by (simp add: free_msg_def load_def)
  have b: "bytes_of ?s x = bytes_of s x" if "x \<noteq> a" for x using that s'(3) by (simp add: bytes_of_def)
  have "rep os ?s (A(i := map (bytes_of s) as))" unfolding rep_def
  proof (intro exI conjI)
    show "sched_inv ?s (Q(i := as))" by (rule sched_inv_other [OF s'(2) nq])
    show "dom (msgs ?s) = queued (Q(i := as))" using qd Q(2) s'(3) by simp
    show "\<forall>m\<in>ran (msgs ?s). msg_ok os m" using Q(3) s'(3) by (auto simp: ran_def)
    show "\<forall>j<256. (A(i := map (bytes_of s) as)) j = map (bytes_of ?s) ((Q(i := as)) j)"
    proof (intro allI impI)
      fix j :: nat assume j: "j < 256"
      then have "a \<notin> set ((Q(i := as)) j)" using na by simp
      then have "map (bytes_of ?s) ((Q(i := as)) j) = map (bytes_of s) ((Q(i := as)) j)"
        by (intro map_cong refl b) metis
      then show "(A(i := map (bytes_of s) as)) j = map (bytes_of ?s) ((Q(i := as)) j)" using Q(4) j by simp
    qed
  qed
  moreover have "msg_ok os m" using m Q(3) by (auto simp: ran_def)
  ultimately show ?thesis using s' m p fr by (intro exI [of _ a] exI [of _ m] exI [of _ s'] exI [of _ ?s]) auto
qed

text \<open>The result of serving a packet, and the call of the application that it makes.\<close>

definition packet_ret :: "('f, 'e) os \<Rightarrow> 'f callback_fn sstate \<Rightarrow> ('f \<Rightarrow> u8 list \<Rightarrow> int) \<Rightarrow> u8 list \<Rightarrow> int" where
  "packet_ret os s ret p = (case cb_fn (packet_callback os s p) of Nop_callback \<Rightarrow> 0 | User f \<Rightarrow> ret f p)"

definition packet_call :: "('f, 'e) os \<Rightarrow> 'f callback_fn sstate \<Rightarrow> u8 list \<Rightarrow> ('f \<times> u8 list) list" where
  "packet_call os s p = (case cb_fn (packet_callback os s p) of Nop_callback \<Rightarrow> [] | User f \<Rightarrow> [(f, p)])"

lemma same_setup_packet:
  "same_setup w w' \<Longrightarrow> packet_ret os (sst w') = packet_ret os (sst w)"
  "same_setup w w' \<Longrightarrow> packet_call os (sst w') = packet_call os (sst w)"
  by (simp_all add: same_setup_def packet_ret_def packet_call_def packet_callback_def fun_eq_iff)

lemma dispatch_ok:
  assumes co: "call_ok os pend served ret" and m: "msgs s a = Some m" "msg_ok os m"
    and cb: "length (callbacks (sched s)) = 256"
  shows "\<exists>e'. npfp_dispatch (call_fn os) s (Addr a) e = Some (packet_ret os s ret (m_data m), e') \<and>
    pend e' = pend e \<and> served e' = served e @ packet_call os s (m_data m)"
proof -
  let ?cb = "callbacks (sched s) ! unat (m_type m)"
  have pc: "packet_callback os s (m_data m) = ?cb" using m(2) by (simp add: packet_callback_def msg_ok_def)
  have g: "arr_get (callbacks (sched s)) (unat (m_type m)) = Some ?cb" using cb u8_less [of "m_type m"] by simp
  have d: "npfp_dispatch (call_fn os) s (Addr a) e = Some (call_fn os (cb_fn ?cb) m e)"
    using m(1) g by (simp add: npfp_dispatch_def load_def)
  have l: "m_len m = word_of_nat (length (m_data m))" using m(2) by (simp add: msg_ok_def)
  show ?thesis
  proof (cases "cb_fn ?cb")
    case Nop_callback
    then show ?thesis unfolding d packet_ret_def packet_call_def pc by (simp add: nop_callback_def)
  next
    case (User f)
    obtain e' where "os_call os f m e = (ret f (m_data m), e')" "pend e' = pend e"
      "served e' = served e @ [(f, m_data m)]" using co l unfolding call_ok_def by blast
    then show ?thesis unfolding d packet_ret_def packet_call_def pc using User by simp
  qed
qed

lemma rep_callbacks: "rep os s A \<Longrightarrow> length (callbacks (sched s)) = 256"
  by (auto simp: rep_def sched_inv_def)

definition waiting :: "('f, 'e) os \<Rightarrow> ('e \<Rightarrow> int \<Rightarrow> u8 list list) \<Rightarrow> ('f, 'e) fd_scheduler \<Rightarrow>
    (nat \<Rightarrow> u8 list list) \<Rightarrow> u8 list list" where
  "waiting os pend w A = flat (fold (arrive (packet_prio os (sst w))) (arrived (pend (env w)) (channels w)) A)"

text \<open>One turn of the main loop serves the first waiting packet, after everything was received.\<close>

lemma fds_run_turn:
  assumes mo: "malloc_ok os" and ro: "read_ok os pend served" and co: "call_ok os pend served ret"
    and r: "rep os (sst w) A" and ch: "channels_ok w" and wt: "waiting os pend w A = p # ps"
  shows "\<exists>w' A'. fds_run_loop os w =
      (if packet_ret os (sst w) ret p \<noteq> 0 then Some (packet_ret os (sst w) ret p, w') else fds_run_loop os w') \<and>
    rep os (sst w') A' \<and> same_setup w w' \<and> waiting os pend w' A' = ps \<and>
    served (env w') = served (env w) @ packet_call os (sst w) p"
proof -
  let ?B = "fold (arrive (packet_prio os (sst w))) (arrived (pend (env w)) (channels w)) A"
  obtain w1 where w1: "check_channels_until_empty os w = Some (0, w1)" "rep os (sst w1) ?B" "same_setup w w1"
    "pend (env w1) = drained (pend (env w)) (set (channels w))" "served (env w1) = served (env w)"
    using check_channels_until_empty_ok [OF mo ro r ch] by blast
  have fl: "flat ?B = p # ps" using wt by (simp add: waiting_def)
  obtain a m s' s'' A' where d: "npfp_dequeue (sst w1) = Some (Addr a, s')" "msgs s' a = Some m" "m_data m = p"
    "msg_ok os m" "callbacks (sched s') = callbacks (sched (sst w1))" "free_msg s' (Addr a) = Some s''"
    "callbacks (sched s'') = callbacks (sched (sst w1))" "rep os s'' A'" "flat A' = ps"
    using dequeue_next [OF w1(2) fl] by blast
  have l: "length (callbacks (sched s')) = 256" using d(5) rep_callbacks [OF w1(2)] by simp
  have cbs: "callbacks (sched s') = callbacks (sched (sst w))" "callbacks (sched s'') = callbacks (sched (sst w))"
    using d(5,7) w1(3) by (simp_all add: same_setup_def)
  obtain e' where e': "npfp_dispatch (call_fn os) s' (Addr a) (env w1) = Some (packet_ret os s' ret p, e')"
    "pend e' = pend (env w1)" "served e' = served (env w1) @ packet_call os s' p"
    using dispatch_ok [OF co d(2,4) l] d(3) by metis
  have pk: "packet_ret os s' ret p = packet_ret os (sst w) ret p" "packet_call os s' p = packet_call os (sst w) p"
    using cbs by (simp_all add: packet_ret_def packet_call_def packet_callback_def)
  let ?w = "w1\<lparr>sst := s'', env := e'\<rparr>"
  have ss: "same_setup w ?w" using w1(3) cbs by (simp add: same_setup_def)
  have "arrived (pend (env ?w)) (channels ?w) = []"
    using e'(2) w1(4) same_setup_channels(1) [OF ss] by (simp add: arrived_drained)
  then have wt': "waiting os pend ?w A' = ps" using d(9) by (simp add: waiting_def)
  have "fds_run_loop os w = (if packet_ret os (sst w) ret p \<noteq> 0 then Some (packet_ret os (sst w) ret p, ?w)
      else fds_run_loop os ?w)"
    using w1(1) d(1,6) e'(1) pk by (subst fds_run_loop.simps) simp
  then show ?thesis using d(8) ss wt' e'(3) w1(5) pk by (intro exI [of _ ?w] exI [of _ A']) simp
qed

lemma fds_run_loop_ok:
  assumes mo: "malloc_ok os" and ro: "read_ok os pend served" and co: "call_ok os pend served ret"
  shows "rep os (sst w) A \<Longrightarrow> channels_ok w \<Longrightarrow> waiting os pend w A = pre @ x # post \<Longrightarrow>
    \<forall>p\<in>set pre. packet_ret os (sst w) ret p = 0 \<Longrightarrow> packet_ret os (sst w) ret x \<noteq> 0 \<Longrightarrow>
    \<exists>w' A'. fds_run_loop os w = Some (packet_ret os (sst w) ret x, w') \<and> rep os (sst w') A' \<and> same_setup w w' \<and>
      waiting os pend w' A' = post \<and>
      served (env w') = served (env w) @ concat (map (packet_call os (sst w)) (pre @ [x]))"
proof (induction pre arbitrary: w A)
  case Nil
  then show ?case using fds_run_turn [OF mo ro co Nil.prems(1,2), of x post] by auto
next
  case (Cons p pre)
  have pz: "packet_ret os (sst w) ret p = 0" using Cons.prems(4) by simp
  obtain w1 A1 where w1: "fds_run_loop os w = fds_run_loop os w1" "rep os (sst w1) A1" "same_setup w w1"
    "waiting os pend w1 A1 = pre @ x # post" "served (env w1) = served (env w) @ packet_call os (sst w) p"
    using fds_run_turn [OF mo ro co Cons.prems(1,2), of p "pre @ x # post"] Cons.prems(3) pz by auto
  have ch: "channels_ok w1" using same_setup_channels(2) [OF w1(3)] Cons.prems(2) by simp
  note pk = same_setup_packet [OF w1(3), of os]
  obtain w' A' where "fds_run_loop os w1 = Some (packet_ret os (sst w1) ret x, w')" "rep os (sst w') A'"
    "same_setup w1 w'" "waiting os pend w' A' = post"
    "served (env w') = served (env w1) @ concat (map (packet_call os (sst w1)) (pre @ [x]))"
    using Cons.IH [OF w1(2) ch w1(4)] Cons.prems(4,5) pk by auto
  then show ?case using w1 pk same_setup_trans [OF w1(3)] by (intro exI [of _ w'] exI [of _ A']) simp
qed

section \<open>Set-up of the scheduler\<close>

definition fresh_fds :: "('f, 'e) fd_scheduler \<Rightarrow> bool" where
  "fresh_fds w \<longleftrightarrow> length (input_channels w) = MAX_INPUT_CHANNELS \<and> msgs (sst w) = Map.empty \<and>
     length (callbacks (sched (sst w))) = 256 \<and> length (pending (sched (sst w))) = 256 \<and>
     bitmap_ok (prio_levels (sched (sst w)))"

lemma init_callbacks:
  assumes "length (callbacks (sched s)) = 256"
  shows "\<exists>s'. c_for [0..<NUM_MESSAGE_TYPES] (\<lambda>typ s. do {
        cbs \<leftarrow> arr_set (callbacks (sched s)) typ c;
        Some (s\<lparr>sched := (sched s)\<lparr>callbacks := cbs\<rparr>\<rparr>) }) s = Some s' \<and>
      s' = s\<lparr>sched := (sched s)\<lparr>callbacks := replicate 256 c\<rparr>\<rparr>" (is "\<exists>s'. c_for ?xs ?b s = _ \<and> _")
proof -
  let ?I = "\<lambda>k t. t = s\<lparr>sched := (sched s)\<lparr>callbacks := replicate k c @ drop k (callbacks (sched s))\<rparr>\<rparr>"
  have "\<exists>t. c_for ?xs ?b s = Some t \<and> ?I (length ?xs) t"
  proof (rule c_for_inv)
    fix k t assume k: "k < length ?xs" and t: "?I k t"
    have "(replicate k c @ drop k (callbacks (sched s)))[k := c] = replicate (Suc k) c @ drop (Suc k) (callbacks (sched s))"
      using k assms by (simp add: list_update_append NUM_MESSAGE_TYPES_def replicate_append_same
          flip: Cons_nth_drop_Suc)
    then show "\<exists>t'. ?b (?xs ! k) t = Some t' \<and> ?I (Suc k) t'"
      using k t assms by (simp add: NUM_MESSAGE_TYPES_def arr_set_def)
  qed simp
  then show ?thesis using assms by (simp add: NUM_MESSAGE_TYPES_def)
qed

lemma init_pending:
  assumes "length (pending (sched s)) = 256"
  shows "\<exists>s'. c_for [0..<NUM_PRIORITIES] (\<lambda>p s. do {
        s \<leftarrow> set_queue s p (\<lambda>_. \<lparr>first = NULL, last = NULL\<rparr>);
        set_queue s p (\<lambda>q. q\<lparr>last := Addr (QFirst p)\<rparr>) }) s = Some s' \<and>
      s' = s\<lparr>sched := (sched s)\<lparr>pending := map (\<lambda>p. \<lparr>first = NULL, last = Addr (QFirst p)\<rparr>) [0..<256]\<rparr>\<rparr>"
    (is "\<exists>s'. c_for ?xs ?b s = _ \<and> _")
proof -
  let ?q = "\<lambda>p. \<lparr>first = NULL, last = Addr (QFirst p)\<rparr>"
  let ?I = "\<lambda>k t. t = s\<lparr>sched := (sched s)\<lparr>pending := map ?q [0..<k] @ drop k (pending (sched s))\<rparr>\<rparr>"
  have "\<exists>t. c_for ?xs ?b s = Some t \<and> ?I (length ?xs) t"
  proof (rule c_for_inv)
    fix k t assume k: "k < length ?xs" and t: "?I k t"
    have "(map ?q [0..<k] @ drop k (pending (sched s)))[k := ?q k] = map ?q [0..<Suc k] @ drop (Suc k) (pending (sched s))"
      using k assms by (simp add: list_update_append NUM_PRIORITIES_def flip: Cons_nth_drop_Suc)
    then show "\<exists>t'. ?b (?xs ! k) t = Some t' \<and> ?I (Suc k) t'"
      using k t assms by (simp add: NUM_PRIORITIES_def set_queue_def)
  qed simp
  then show ?thesis using assms by (simp add: NUM_PRIORITIES_def)
qed

lemma fds_init_ok:
  assumes "fresh_fds w"
  shows "\<exists>w'. fds_init w = Some w' \<and> rep os (sst w') (\<lambda>_. []) \<and> channels w' = [] \<and> channels_ok w' \<and>
    num_channels w' = 0 \<and> env w' = env w \<and> callbacks (sched (sst w')) = replicate 256 \<lparr>prio = 0, cb_fn = Nop_callback\<rparr>"
proof -
  obtain bm where bm: "prio_level_init (prio_levels (sched (sst w))) = Some bm" "bitmap_ok bm" "levels bm = {}"
    using prio_level_init_ok assms by (auto simp: fresh_fds_def)
  let ?c = "\<lparr>prio = 0, cb_fn = Nop_callback\<rparr> :: 'a callback_fn callback"
  let ?s1 = "(sst w)\<lparr>sched := (sched (sst w))\<lparr>prio_levels := bm\<rparr>\<rparr>"
  let ?s2 = "?s1\<lparr>sched := (sched ?s1)\<lparr>callbacks := replicate 256 ?c\<rparr>\<rparr>"
  let ?s3 = "?s2\<lparr>sched := (sched ?s2)\<lparr>pending := map (\<lambda>p. \<lparr>first = NULL, last = Addr (QFirst p)\<rparr>) [0..<256]\<rparr>\<rparr>"
  have l: "length (callbacks (sched ?s1)) = 256" "length (pending (sched ?s2)) = 256"
    using assms by (simp_all add: fresh_fds_def)
  have "fds_init w = Some (w\<lparr>num_channels := 0, sst := ?s3\<rparr>)"
    using bm(1) init_callbacks [OF l(1), of ?c] init_pending [OF l(2)]
    by (simp add: fds_init_def)
  moreover have "rep os ?s3 (\<lambda>_. [])"
    unfolding rep_def using bm(2,3) assms
    by (intro exI [of _ "\<lambda>_. []"]) (auto simp: sched_inv_def queue_ok_def last_slot_def queued_def fresh_fds_def)
  ultimately show ?thesis using assms by (auto simp: channels_def channels_ok_def fresh_fds_def)
qed

lemma fds_add_channel_ok:
  assumes "channels_ok w" "unat (num_channels w) < MAX_INPUT_CHANNELS"
    and f: "os_fcntl os fd F_SETFL O_NONBLOCK (env w) = (0, e)"
  shows "\<exists>w'. fds_add_channel os w fd = Some (0, w') \<and> channels w' = channels w @ [fd] \<and> channels_ok w' \<and>
    sst w' = sst w \<and> env w' = e \<and> unat (num_channels w') = Suc (unat (num_channels w))"
proof -
  let ?n = "unat (num_channels w)"
  have n: "num_channels w < of_nat MAX_INPUT_CHANNELS"
    using assms(2) by (simp add: word_less_nat_alt MAX_INPUT_CHANNELS_def)
  have s: "unat (num_channels w + 1) = Suc ?n"
    using assms(2) by (simp add: unat_word_ariths MAX_INPUT_CHANNELS_def)
  let ?w = "w\<lparr>env := e, input_channels := (input_channels w)[?n := fd], num_channels := num_channels w + 1\<rparr>"
  have "fds_add_channel os w fd = Some (0, ?w)"
    using n f assms(1,2) by (simp add: fds_add_channel_def channels_ok_def)
  moreover have "channels ?w = channels w @ [fd]"
    using s assms by (simp add: channels_def channels_ok_def)
  ultimately show ?thesis using s assms by (auto simp: channels_ok_def)
qed

lemma fds_set_callback_ok:
  assumes "rep os (sst w) A"
  shows "\<exists>w'. fds_set_callback w t f p = Some w' \<and> rep os (sst w') A \<and> channels w' = channels w \<and>
    channels_ok w' = channels_ok w \<and> num_channels w' = num_channels w \<and> env w' = env w \<and>
    callbacks (sched (sst w')) = (callbacks (sched (sst w)))[unat t := \<lparr>prio = p, cb_fn = User f\<rparr>]"
proof -
  let ?cbs = "(callbacks (sched (sst w)))[unat t := \<lparr>prio = p, cb_fn = User f\<rparr>]"
  let ?w = "w\<lparr>sst := (sst w)\<lparr>sched := (sched (sst w))\<lparr>callbacks := ?cbs\<rparr>\<rparr>\<rparr>"
  have "fds_set_callback w t f p = Some ?w"
    using rep_callbacks [OF assms] u8_less [of t] by (simp add: fds_set_callback_def)
  moreover have "rep os (sst ?w) A"
  proof -
    have "sched_inv (sst ?w) Q = sched_inv (sst w) Q" for Q
      by (simp add: sched_inv_def)
    moreover have "bytes_of (sst ?w) = bytes_of (sst w)" by (simp add: bytes_of_def fun_eq_iff)
    ultimately show ?thesis using assms unfolding rep_def by simp
  qed
  ultimately show ?thesis by (auto simp: channels_def channels_ok_def)
qed

section \<open>Properties of the scheduler\<close>

text \<open>
  C8. The main loop of the scheduler is fixed-priority: when the packets of \<open>pend\<close> wait on the
  channels and the queues are empty, \<open>fds_run\<close> receives all of them, serves them by the callback
  of their type in the order of the priorities, equal priorities in the order of arrival, and
  returns the result of the first callback that fails, the packets after it staying queued. No
  step faults, and no message is leaked or served twice.
\<close>

theorem fds_run_priority_order:
  assumes sys: "malloc_ok os" "read_ok os pend served" "call_ok os pend served ret"
    and w: "rep os (sst w) (\<lambda>_. [])" "channels_ok w" "num_channels w > 0"
    and srt: "sort_key (packet_prio os (sst w)) (arrived (pend (env w)) (channels w)) = pre @ x # post"
    and ok: "\<forall>p\<in>set pre. packet_ret os (sst w) ret p = 0" and bad: "packet_ret os (sst w) ret x \<noteq> 0"
  shows "\<exists>w' A. fds_run os w = Some (packet_ret os (sst w) ret x, w') \<and>
    served (env w') = served (env w) @ concat (map (packet_call os (sst w)) (pre @ [x])) \<and>
    rep os (sst w') A \<and> waiting os pend w' A = post"
proof -
  have "waiting os pend w (\<lambda>_. []) = pre @ x # post"
    unfolding waiting_def fold_arrive srt [symmetric]
    by (simp, rule flat_sort_key, simp add: packet_prio_def u8_less)
  then show ?thesis using fds_run_loop_ok [OF sys w(1,2) _ ok bad] w(3) by (auto simp: fds_run_def)
qed

fun receive_times :: "('f, 'e) os \<Rightarrow> int \<Rightarrow> nat \<Rightarrow> ('f, 'e) fd_scheduler \<Rightarrow> ('f, 'e) fd_scheduler option" where
  "receive_times os fd 0 w = Some w"
| "receive_times os fd (Suc n) w = do {
     (err, w) \<leftarrow> receive_one_message os w fd;
     if err = 0 then receive_times os fd n w else None }"

lemma receive_one_eof:
  assumes "\<And>e. \<exists>en e'. os_read os fd MAX_MESSAGE_LEN e = ((0, [], en), e')"
    and "receive_one_message os w fd = Some (err, w')"
  shows "err = 0"
proof -
  have "c_int 0 = 0" by (simp add: c_int_def)
  with assms(1) [of "env w"] assms(2) show ?thesis
    by (auto simp: receive_one_message_def split: Option.bind_splits)
qed

lemma receive_loop_eof:
  fixes os :: "('f, 'e) os"
  assumes "\<And>e. \<exists>en e'. os_read os fd MAX_MESSAGE_LEN e = ((0, [], en), e')"
  shows "receive_loop os fd ne w = None"
proof (rule ccontr)
  assume "receive_loop os fd ne w \<noteq> None"
  then obtain y where y: "receive_loop os fd ne w = Some y" by blast
  let ?eof = "\<lambda>os fd. \<forall>e. \<exists>en e'. os_read os fd MAX_MESSAGE_LEN e = ((0, [], en), e')"
  have "\<not> ?eof os fd"
  proof (rule receive_loop.raw_induct [where P = "\<lambda>os fd ne w y. \<not> ?eof os fd", OF _ y])
    fix loop :: "('f, 'e) os \<Rightarrow> int \<Rightarrow> int \<Rightarrow> ('f, 'e) fd_scheduler \<Rightarrow> (int \<times> int \<times> ('f, 'e) fd_scheduler) option"
      and os fd ne w y
    assume IH: "\<And>os fd ne w y. loop os fd ne w = Some y \<Longrightarrow> \<not> ?eof os fd"
      and body: "receive_one_message os w fd \<bind>
        (\<lambda>(err, w). if err = 0 then loop os fd 1 w else Some (err, ne, w)) = Some y"
    show "\<not> ?eof os fd"
    proof
      assume eof: "?eof os fd"
      obtain err w' where r: "receive_one_message os w fd = Some (err, w')"
        using body by (auto split: Option.bind_splits)
      then have "err = 0" using receive_one_eof eof by blast
      then have "loop os fd 1 w' = Some y" using r body by simp
      then show False using IH eof by blast
    qed
  qed
  then show False using assms by blast
qed

text \<open>
  C27. A descriptor at the end of its input: \<open>read\<close> returns 0, which \<open>receive_one_message\<close>
  takes for a packet of no bytes. Every such call succeeds and queues another message, so that
  \<open>receive_messages\<close> never returns and its memory grows without bound.
\<close>

theorem receive_messages_eof:
  assumes mo: "malloc_ok os" and eof: "\<forall>e. \<exists>en e'. os_read os fd MAX_MESSAGE_LEN e = ((0, [], en), e')"
    and r: "rep os (sst w) A"
  shows "receive_messages os w fd = None \<and>
    (\<exists>w' A'. receive_times os fd n w = Some w' \<and> rep os (sst w') A' \<and> length (flat A') = length (flat A) + n)"
proof
  show "receive_messages os w fd = None"
    using receive_loop_eof [of os fd] eof by (simp add: receive_messages_def)
  show "\<exists>w' A'. receive_times os fd n w = Some w' \<and> rep os (sst w') A' \<and> length (flat A') = length (flat A) + n"
    using r
  proof (induction n arbitrary: w A)
    case (Suc n)
    obtain a g where m: "os_malloc os (msgs (sst w)) = Some (a, g)" "msgs (sst w) a = None"
      using mo rep_finite [OF Suc.prems] unfolding malloc_ok_def by blast
    obtain en e' where "os_read os fd MAX_MESSAGE_LEN (env w) = ((0, [], en), e')" using eof by blast
    then have rd: "os_read os fd MAX_MESSAGE_LEN (env w) = ((int (length ([] :: u8 list)), [], en), e')" by simp
    obtain s' where s': "receive_one_message os w fd = Some (0, w\<lparr>errno := en, env := e', sst := s'\<rparr>)"
      "rep os s' (arrive (packet_prio os (sst w)) [] A)"
      using receive_one_message_some [OF Suc.prems m rd] by auto
    have r1: "rep os (sst (w\<lparr>errno := en, env := e', sst := s'\<rparr>)) (arrive (packet_prio os (sst w)) [] A)"
      using s'(2) by simp
    have "length (flat (arrive (packet_prio os (sst w)) [] A)) = Suc (length (flat A))"
    proof -
      let ?i = "packet_prio os (sst w) []"
      have i: "?i < 256" unfolding packet_prio_def by (rule u8_less)
      have "map (A(?i := A ?i @ [[]])) [Suc ?i..<256] = map A [Suc ?i..<256]"
        "map (A(?i := A ?i @ [[]])) [0..<?i] = map A [0..<?i]" by simp_all
      then show ?thesis using flat_split [OF i, of A] flat_split [OF i, of "A(?i := A ?i @ [[]])"]
        by (simp add: arrive_def)
    qed
    then show ?case using Suc.IH [OF r1] s'(1) by auto
  qed auto
qed

end
