(* ===== verification/Fdsched_App.thy ===== *)
theory Fdsched_App
  imports Fdsched
begin

text \<open>
  The application of \<open>src/examples/scheduler/src/main.c\<close>: the kinds of messages, the callbacks
  and the set-up of the scheduler. The descriptors come from \<open>io.c\<close>, whose calls of the
  operating system are arguments of \<open>main_model\<close>; what the callbacks print and how long they
  sleep belongs to the state of the outside world.
\<close>

section \<open>The program\<close>

datatype message_types = MSG_FOO | MSG_BAR | MSG_SLEEP | MSG_EXIT | MSG_GARBAGE

fun type_code :: "message_types \<Rightarrow> u8" where
  "type_code MSG_FOO = 0"
| "type_code MSG_BAR = 1"
| "type_code MSG_SLEEP = 2"
| "type_code MSG_EXIT = 3"
| "type_code MSG_GARBAGE = 4"

definition FOO_PRIO :: u8 where "FOO_PRIO = 27"
definition BAR_PRIO :: u8 where "BAR_PRIO = 10"
definition SLEEP_PRIO :: u8 where "SLEEP_PRIO = 1"
definition EXIT_PRIO :: u8 where "EXIT_PRIO = 2"
definition GARBAGE_PRIO :: u8 where "GARBAGE_PRIO = 100"

definition c_bytes :: "string \<Rightarrow> u8 list" where
  "c_bytes cs = map (\<lambda>c. word_of_nat (of_char c)) cs"

text \<open>\<open>memcmp\<close> of the three bytes of a literal with the first three of the data.\<close>

definition starts_with :: "string \<Rightarrow> u8 list \<Rightarrow> bool" where
  "starts_with cs data \<longleftrightarrow> c_bytes cs = take 3 data"

definition classify :: "u64 \<Rightarrow> u8 list \<Rightarrow> message_types" where
  "classify len data =
     (if len < 3 then MSG_GARBAGE
      else if starts_with ''FOO'' data \<or> starts_with ''foo'' data then MSG_FOO
      else if starts_with ''BAR'' data \<or> starts_with ''bar'' data then MSG_BAR
      else if starts_with ''ZZZ'' data \<or> starts_with ''zzz'' data then MSG_SLEEP
      else if starts_with ''XXX'' data \<or> starts_with ''xxx'' data then MSG_EXIT
      else MSG_GARBAGE)"

definition message_identify_type :: "u64 \<Rightarrow> u8 list \<Rightarrow> u8" where
  "message_identify_type len data = type_code (classify len data)"

datatype handler = On_foo | On_bar | On_sleep | On_termination | On_garbage

text \<open>The results of \<open>on_foo\<close>, \<open>on_bar\<close>, \<open>on_sleep\<close>, \<open>on_termination\<close> and \<open>on_garbage\<close>.\<close>

fun handler_result :: "handler \<Rightarrow> int" where
  "handler_result On_foo = 0"
| "handler_result On_bar = 0"
| "handler_result On_sleep = 0"
| "handler_result On_termination = 1"
| "handler_result On_garbage = 0"

definition open_channel ::
  "('f, 'e) os \<Rightarrow> ('e \<Rightarrow> int \<times> 'e) \<Rightarrow> ('f, 'e) fd_scheduler \<Rightarrow> ('f, 'e) fd_scheduler option" where
  "open_channel os open_fd w = do {
     let (fd, e) = open_fd (env w);
     (_, w) \<leftarrow> fds_add_channel os (w\<lparr>env := e\<rparr>) fd;
     Some w }"

definition set_callbacks :: "(handler, 'e) fd_scheduler \<Rightarrow> (handler, 'e) fd_scheduler option" where
  "set_callbacks w = do {
     w \<leftarrow> fds_set_callback w (type_code MSG_FOO) On_foo FOO_PRIO;
     w \<leftarrow> fds_set_callback w (type_code MSG_BAR) On_bar BAR_PRIO;
     w \<leftarrow> fds_set_callback w (type_code MSG_SLEEP) On_sleep SLEEP_PRIO;
     w \<leftarrow> fds_set_callback w (type_code MSG_EXIT) On_termination EXIT_PRIO;
     fds_set_callback w (type_code MSG_GARBAGE) On_garbage GARBAGE_PRIO }"

definition main_model ::
  "(handler, 'e) os \<Rightarrow> ('e \<Rightarrow> int \<times> 'e) \<Rightarrow> ('e \<Rightarrow> int \<times> 'e) \<Rightarrow> ('e \<Rightarrow> int \<times> 'e) \<Rightarrow>
   (handler, 'e) fd_scheduler \<Rightarrow> (int \<times> (handler, 'e) fd_scheduler) option" where
  "main_model os open_udp1 open_udp2 open_stdin fds = do {
     fds \<leftarrow> fds_init fds;
     fds \<leftarrow> open_channel os open_udp1 fds;
     fds \<leftarrow> open_channel os open_udp2 fds;
     fds \<leftarrow> open_channel os open_stdin fds;
     fds \<leftarrow> set_callbacks fds;
     fds_run os fds }"

section \<open>The set-up\<close>

text \<open>Opening a descriptor does not touch the packets that wait, nor the record of the calls.\<close>

definition opens :: "('e \<Rightarrow> int \<Rightarrow> u8 list list) \<Rightarrow> ('e \<Rightarrow> ('f \<times> u8 list) list) \<Rightarrow> ('e \<Rightarrow> int \<times> 'e) \<Rightarrow> int \<Rightarrow> bool" where
  "opens pend served f fd \<longleftrightarrow> (\<forall>e. \<exists>e'. f e = (fd, e') \<and> pend e' = pend e \<and> served e' = served e)"

definition fcntl_ok :: "('f, 'e) os \<Rightarrow> ('e \<Rightarrow> int \<Rightarrow> u8 list list) \<Rightarrow> ('e \<Rightarrow> ('f \<times> u8 list) list) \<Rightarrow> bool" where
  "fcntl_ok os pend served \<longleftrightarrow> (\<forall>fd e. \<exists>e'. os_fcntl os fd F_SETFL O_NONBLOCK e = (0, e') \<and>
     pend e' = pend e \<and> served e' = served e)"

lemma open_channel_ok:
  assumes f: "fcntl_ok os pend served" and o: "opens pend served op fd"
    and ch: "channels_ok w" "unat (num_channels w) < MAX_INPUT_CHANNELS"
  shows "\<exists>w'. open_channel os op w = Some w' \<and> channels w' = channels w @ [fd] \<and> channels_ok w' \<and>
    sst w' = sst w \<and> pend (env w') = pend (env w) \<and> served (env w') = served (env w) \<and>
    unat (num_channels w') = Suc (unat (num_channels w))"
proof -
  obtain e where e: "op (env w) = (fd, e)" "pend e = pend (env w)" "served e = served (env w)"
    using o unfolding opens_def by blast
  let ?w = "w\<lparr>env := e\<rparr>"
  have ch1: "channels_ok ?w" "unat (num_channels ?w) < MAX_INPUT_CHANNELS"
    using ch by (simp_all add: channels_ok_def)
  obtain e' where e': "os_fcntl os fd F_SETFL O_NONBLOCK (env ?w) = (0, e')" "pend e' = pend e" "served e' = served e"
    using f unfolding fcntl_ok_def by (metis fd_scheduler.select_convs(5) fd_scheduler.surjective fd_scheduler.update_convs(5))
  obtain w' where "fds_add_channel os ?w fd = Some (0, w')" "channels w' = channels ?w @ [fd]" "channels_ok w'"
    "sst w' = sst ?w" "env w' = e'" "unat (num_channels w') = Suc (unat (num_channels ?w))"
    using fds_add_channel_ok [OF ch1 e'(1)] by blast
  then show ?thesis using e e' by (intro exI [of _ w']) (auto simp: open_channel_def channels_def)
qed

definition app_callbacks :: "handler callback_fn callback list" where
  "app_callbacks =
     [\<lparr>prio = 27, cb_fn = User On_foo\<rparr>, \<lparr>prio = 10, cb_fn = User On_bar\<rparr>, \<lparr>prio = 1, cb_fn = User On_sleep\<rparr>,
      \<lparr>prio = 2, cb_fn = User On_termination\<rparr>, \<lparr>prio = 100, cb_fn = User On_garbage\<rparr>] @
     replicate 251 \<lparr>prio = 0, cb_fn = Nop_callback\<rparr>"

lemma set_callbacks_ok:
  assumes r: "rep os (sst w) A"
    and cb: "callbacks (sched (sst w)) = replicate 256 \<lparr>prio = 0, cb_fn = Nop_callback\<rparr>"
  shows "\<exists>w'. set_callbacks w = Some w' \<and> rep os (sst w') A \<and> channels w' = channels w \<and>
    channels_ok w' = channels_ok w \<and> num_channels w' = num_channels w \<and> env w' = env w \<and>
    callbacks (sched (sst w')) = app_callbacks"
proof -
  note step = fds_set_callback_ok
  obtain w1 where w1: "fds_set_callback w (type_code MSG_FOO) On_foo FOO_PRIO = Some w1" "rep os (sst w1) A"
    "channels w1 = channels w" "channels_ok w1 = channels_ok w" "num_channels w1 = num_channels w" "env w1 = env w"
    "callbacks (sched (sst w1)) = (callbacks (sched (sst w)))[unat (type_code MSG_FOO) := \<lparr>prio = FOO_PRIO, cb_fn = User On_foo\<rparr>]"
    using step [OF r] by blast
  obtain w2 where w2: "fds_set_callback w1 (type_code MSG_BAR) On_bar BAR_PRIO = Some w2" "rep os (sst w2) A"
    "channels w2 = channels w1" "channels_ok w2 = channels_ok w1" "num_channels w2 = num_channels w1" "env w2 = env w1"
    "callbacks (sched (sst w2)) = (callbacks (sched (sst w1)))[unat (type_code MSG_BAR) := \<lparr>prio = BAR_PRIO, cb_fn = User On_bar\<rparr>]"
    using step [OF w1(2)] by blast
  obtain w3 where w3: "fds_set_callback w2 (type_code MSG_SLEEP) On_sleep SLEEP_PRIO = Some w3" "rep os (sst w3) A"
    "channels w3 = channels w2" "channels_ok w3 = channels_ok w2" "num_channels w3 = num_channels w2" "env w3 = env w2"
    "callbacks (sched (sst w3)) = (callbacks (sched (sst w2)))[unat (type_code MSG_SLEEP) := \<lparr>prio = SLEEP_PRIO, cb_fn = User On_sleep\<rparr>]"
    using step [OF w2(2)] by blast
  obtain w4 where w4: "fds_set_callback w3 (type_code MSG_EXIT) On_termination EXIT_PRIO = Some w4" "rep os (sst w4) A"
    "channels w4 = channels w3" "channels_ok w4 = channels_ok w3" "num_channels w4 = num_channels w3" "env w4 = env w3"
    "callbacks (sched (sst w4)) = (callbacks (sched (sst w3)))[unat (type_code MSG_EXIT) := \<lparr>prio = EXIT_PRIO, cb_fn = User On_termination\<rparr>]"
    using step [OF w3(2)] by blast
  obtain w5 where w5: "fds_set_callback w4 (type_code MSG_GARBAGE) On_garbage GARBAGE_PRIO = Some w5" "rep os (sst w5) A"
    "channels w5 = channels w4" "channels_ok w5 = channels_ok w4" "num_channels w5 = num_channels w4" "env w5 = env w4"
    "callbacks (sched (sst w5)) = (callbacks (sched (sst w4)))[unat (type_code MSG_GARBAGE) := \<lparr>prio = GARBAGE_PRIO, cb_fn = User On_garbage\<rparr>]"
    using step [OF w4(2)] by blast
  have "replicate 256 c = [c, c, c, c, c] @ replicate 251 c" for c :: "handler callback_fn callback"
    by (simp add: numeral_eq_Suc)
  moreover have "unat (type_code MSG_FOO) = 0" "unat (type_code MSG_BAR) = Suc 0"
    "unat (type_code MSG_SLEEP) = Suc (Suc 0)" "unat (type_code MSG_EXIT) = Suc (Suc (Suc 0))"
    "unat (type_code MSG_GARBAGE) = Suc (Suc (Suc (Suc 0)))" by simp_all
  ultimately have "callbacks (sched (sst w5)) = app_callbacks"
    unfolding w5(7) w4(7) w3(7) w2(7) w1(7) cb app_callbacks_def
    by (simp add: FOO_PRIO_def BAR_PRIO_def SLEEP_PRIO_def EXIT_PRIO_def GARBAGE_PRIO_def del: type_code.simps replicate.simps replicate_Suc)
  then show ?thesis using w1 w2 w3 w4 w5 by (intro exI [of _ w5]) (simp add: set_callbacks_def)
qed

section \<open>What the program does\<close>

definition kind :: "u8 list \<Rightarrow> message_types" where
  "kind p = classify (word_of_nat (length p)) p"

fun kind_prio :: "message_types \<Rightarrow> nat" where
  "kind_prio MSG_FOO = 27"
| "kind_prio MSG_BAR = 10"
| "kind_prio MSG_SLEEP = 1"
| "kind_prio MSG_EXIT = 2"
| "kind_prio MSG_GARBAGE = 100"

fun kind_handler :: "message_types \<Rightarrow> handler" where
  "kind_handler MSG_FOO = On_foo"
| "kind_handler MSG_BAR = On_bar"
| "kind_handler MSG_SLEEP = On_sleep"
| "kind_handler MSG_EXIT = On_termination"
| "kind_handler MSG_GARBAGE = On_garbage"

lemma app_callback:
  "app_callbacks ! unat (type_code k) = \<lparr>prio = word_of_nat (kind_prio k), cb_fn = User (kind_handler k)\<rparr>"
  by (cases k) (simp_all add: app_callbacks_def)

lemma kind_prio_less: "kind_prio k < 256"
  by (cases k) simp_all

lemma app_packet:
  assumes "os_identify os = message_identify_type" "callbacks (sched s) = app_callbacks"
  shows "packet_prio os s p = kind_prio (kind p)" "packet_ret os s ret p = ret (kind_handler (kind p)) p"
    "packet_call os s p = [(kind_handler (kind p), p)]"
proof -
  have "packet_callback os s p = \<lparr>prio = word_of_nat (kind_prio (kind p)), cb_fn = User (kind_handler (kind p))\<rparr>"
    using assms by (simp add: packet_callback_def message_identify_type_def kind_def app_callback)
  then show "packet_prio os s p = kind_prio (kind p)" "packet_ret os s ret p = ret (kind_handler (kind p)) p"
    "packet_call os s p = [(kind_handler (kind p), p)]"
    by (simp_all add: packet_prio_def packet_ret_def packet_call_def unat_of_nat take_bit_nat_eq_self kind_prio_less)
qed

text \<open>The packets in the order of service: those that ask to sleep come first, then those that ask to exit.\<close>

lemma sorted_packets:
  "\<exists>rest. sort_key (kind_prio \<circ> kind) ps =
    filter (\<lambda>p. kind p = MSG_SLEEP) ps @ filter (\<lambda>p. kind p = MSG_EXIT) ps @ rest"
proof -
  let ?f = "kind_prio \<circ> kind" and ?lt = "\<lambda>n. filter (\<lambda>p. (kind_prio \<circ> kind) p = n) ps"
  have "sort_key ?f ps = flat (\<lambda>i. ?lt i)" by (rule flat_sort_key [symmetric]) (simp add: kind_prio_less)
  also have "\<dots> = concat (map ?lt [0..<1]) @ ?lt 1 @ concat (map ?lt [2..<256])"
    using flat_split [of 1 ?lt] by (simp add: numeral_2_eq_2)
  also have "map ?lt [2..<256] = ?lt 2 # map ?lt [3..<256]"
    by (simp add: upt_conv_Cons numeral_3_eq_3)
  also have "concat (map ?lt [0..<1]) = []"
  proof -
    have "kind_prio k \<noteq> 0" for k by (cases k) simp_all
    then show ?thesis by simp
  qed
  also have "?lt 1 = filter (\<lambda>p. kind p = MSG_SLEEP) ps"
  proof (intro filter_cong refl)
    show "(?f p = 1) = (kind p = MSG_SLEEP)" for p by (cases "kind p") simp_all
  qed
  also have "?lt 2 = filter (\<lambda>p. kind p = MSG_EXIT) ps"
  proof (intro filter_cong refl)
    show "(?f p = 2) = (kind p = MSG_EXIT)" for p by (cases "kind p") simp_all
  qed
  finally show ?thesis unfolding concat.simps append_Nil by (rule exI)
qed

text \<open>
  C26. The whole program: when some packet that waits on the channels asks to exit, \<open>main\<close> returns 1;
  until then it has called \<open>on_sleep\<close> for every sleep packet, in the order of their arrival,
  and \<open>on_termination\<close> for the first exit packet, and no other callback, whatever else waits.
\<close>

theorem main_serves:
  assumes sys: "malloc_ok os" "read_ok os pend served" "call_ok os pend served (\<lambda>h _. handler_result h)"
      "fcntl_ok os pend served" and idt: "os_identify os = message_identify_type"
    and op: "opens pend served op1 fd1" "opens pend served op2 fd2" "opens pend served op3 fd3"
    and w: "fresh_fds w" and ps: "ps = arrived (pend (env w)) [fd1, fd2, fd3]"
    and ex: "filter (\<lambda>p. kind p = MSG_EXIT) ps = x # xs"
  shows "\<exists>w'. main_model os op1 op2 op3 w = Some (1, w') \<and>
    served (env w') = served (env w) @ map (\<lambda>p. (On_sleep, p)) (filter (\<lambda>p. kind p = MSG_SLEEP) ps) @ [(On_termination, x)]"
proof -
  let ?ret = "\<lambda>h _. handler_result h" and ?sl = "filter (\<lambda>p. kind p = MSG_SLEEP) ps"
  obtain w0 where w0: "fds_init w = Some w0" "rep os (sst w0) (\<lambda>_. [])" "channels w0 = []" "channels_ok w0"
    "num_channels w0 = 0" "env w0 = env w" "callbacks (sched (sst w0)) = replicate 256 \<lparr>prio = 0, cb_fn = Nop_callback\<rparr>"
    using fds_init_ok [OF w, of os] by blast
  have n0: "unat (num_channels w0) = 0" using w0(5) by simp
  note oc = open_channel_ok [OF sys(4)]
  obtain w1 where w1: "open_channel os op1 w0 = Some w1" "channels w1 = [fd1]" "channels_ok w1" "sst w1 = sst w0"
    "pend (env w1) = pend (env w)" "served (env w1) = served (env w)" "unat (num_channels w1) = 1"
    using oc [OF op(1) w0(4)] w0(3,6) n0 by (auto simp: MAX_INPUT_CHANNELS_def)
  obtain w2 where w2: "open_channel os op2 w1 = Some w2" "channels w2 = [fd1, fd2]" "channels_ok w2" "sst w2 = sst w0"
    "pend (env w2) = pend (env w)" "served (env w2) = served (env w)" "unat (num_channels w2) = 2"
    using oc [OF op(2) w1(3)] w1(2,4,5,6,7) by (auto simp: MAX_INPUT_CHANNELS_def)
  obtain w3 where w3: "open_channel os op3 w2 = Some w3" "channels w3 = [fd1, fd2, fd3]" "channels_ok w3"
    "sst w3 = sst w0" "pend (env w3) = pend (env w)" "served (env w3) = served (env w)" "unat (num_channels w3) = 3"
    using oc [OF op(3) w2(3)] w2(2,4,5,6,7) by (auto simp: MAX_INPUT_CHANNELS_def)
  have r3: "rep os (sst w3) (\<lambda>_. [])"
    and c3: "callbacks (sched (sst w3)) = replicate 256 \<lparr>prio = 0, cb_fn = Nop_callback\<rparr>"
    using w0(2,7) w3(4) by simp_all
  obtain v where v: "set_callbacks w3 = Some v" "rep os (sst v) (\<lambda>_. [])" "channels v = [fd1, fd2, fd3]" "channels_ok v"
    "num_channels v = num_channels w3" "env v = env w3" "callbacks (sched (sst v)) = app_callbacks"
    using set_callbacks_ok [OF r3 c3] w3(2,3) by auto
  note ap = app_packet [OF idt v(7)]
  have pp: "packet_prio os (sst v) = kind_prio \<circ> kind" using ap(1) by auto
  obtain rest where "sort_key (kind_prio \<circ> kind) ps = ?sl @ (x # xs) @ rest" using sorted_packets [of ps] ex by auto
  then have wt: "waiting os pend v (\<lambda>_. []) = ?sl @ x # (xs @ rest)"
    unfolding waiting_def fold_arrive pp v(3,6) w3(5) ps [symmetric]
    using flat_sort_key [of ps "kind_prio \<circ> kind"] kind_prio_less by simp
  have "x \<in> set (filter (\<lambda>p. kind p = MSG_EXIT) ps)" using ex by simp
  then have kx: "kind x = MSG_EXIT" by simp
  have sl: "\<forall>p\<in>set ?sl. packet_ret os (sst v) ?ret p = 0" and xr: "packet_ret os (sst v) ?ret x = 1"
    using kx by (simp_all add: ap)
  obtain w' where w': "fds_run_loop os v = Some (1, w')"
    "served (env w') = served (env v) @ concat (map (packet_call os (sst v)) (?sl @ [x]))"
    using fds_run_loop_ok [OF sys(1-3) v(2,4) wt sl] xr by auto
  have "concat (map (packet_call os (sst v)) ?sl) = map (\<lambda>p. (On_sleep, p)) ?sl"
    by (induction ps) (simp_all add: ap)
  then have "served (env w') = served (env w) @ map (\<lambda>p. (On_sleep, p)) ?sl @ [(On_termination, x)]"
    using w'(2) kx v(6) w3(6) by (simp add: ap)
  moreover have "num_channels v > 0" using v(5) w3(7) by (auto simp: word_less_nat_alt)
  ultimately show ?thesis using w0(1) w1(1) w2(1) w3(1) v(1) w'(1) by (auto simp: main_model_def fds_run_def)
qed

section \<open>A simulated system\<close>

text \<open>
  A system in which the packets of each descriptor are a list, and the calls are logged; the
  allocator takes the least free address.
\<close>

record 'f sim =
  sim_pend :: "int \<Rightarrow> u8 list list"
  sim_log :: "('f \<times> u8 list) list"

definition sim_os :: "('f \<Rightarrow> int) \<Rightarrow> (u64 \<Rightarrow> u8 list \<Rightarrow> u8) \<Rightarrow> int set \<Rightarrow> ('f, 'f sim) os" where
  "sim_os ret idt closed = \<lparr>
     os_read = (\<lambda>fd n e. if fd \<in> closed then ((0, [], 0), e) else
       (case sim_pend e fd of
          [] \<Rightarrow> ((- 1, [], 11), e)
        | p # ps \<Rightarrow> ((int (length (take n p)), take n p, 0), e\<lparr>sim_pend := (sim_pend e)(fd := ps)\<rparr>))),
     os_fcntl = (\<lambda>fd cmd arg e. (0, e)),
     os_malloc = (\<lambda>h. Some (LEAST a. h a = None, \<lparr>m_type = 0, m_len = 0, m_next = NULL, m_data = []\<rparr>)),
     os_call = (\<lambda>f m e. (ret f, e\<lparr>sim_log := sim_log e @ [(f, m_data m)]\<rparr>)),
     os_identify = idt, EWOULDBLOCK = 11, EAGAIN = 11\<rparr>"

definition sim_packets :: "'f sim \<Rightarrow> int \<Rightarrow> u8 list list" where
  "sim_packets e fd = map (take MAX_MESSAGE_LEN) (sim_pend e fd)"

lemma sim_malloc: "malloc_ok (sim_os ret idt closed)"
proof -
  have "h (LEAST a. h a = None) = None" if "finite (dom h)" for h :: "(nat, message) heap"
  proof -
    have "\<exists>a. a \<notin> dom h" using that by (rule ex_new_if_finite [rotated]) simp
    then obtain a where "h a = None" by auto
    then show ?thesis by (rule LeastI [of "\<lambda>a. h a = None"])
  qed
  then show ?thesis by (simp add: malloc_ok_def sim_os_def)
qed

lemma sim_read: "read_ok (sim_os ret idt {}) sim_packets sim_log"
  unfolding read_ok_def
proof (intro allI conjI impI)
  fix fd and e :: "'a sim" and p ps
  assume "sim_packets e fd = p # ps"
  then obtain q qs where q: "sim_pend e fd = q # qs" "p = take MAX_MESSAGE_LEN q" "ps = map (take MAX_MESSAGE_LEN) qs"
    by (auto simp: sim_packets_def)
  then show "length p \<le> MAX_MESSAGE_LEN" by simp
  have "sim_packets (e\<lparr>sim_pend := (sim_pend e)(fd := qs)\<rparr>) = (sim_packets e)(fd := ps)"
    using q by (simp add: sim_packets_def fun_eq_iff)
  then show "\<exists>en e'. os_read (sim_os ret idt {}) fd MAX_MESSAGE_LEN e = ((int (length p), p, en), e') \<and>
      sim_packets e' = (sim_packets e)(fd := ps) \<and> sim_log e' = sim_log e"
    using q by (simp add: sim_os_def)
next
  fix fd and e :: "'a sim"
  assume "sim_packets e fd = []"
  then show "\<exists>b e'. os_read (sim_os ret idt {}) fd MAX_MESSAGE_LEN e =
      ((- 1, b, EWOULDBLOCK (sim_os ret idt {})), e') \<and> sim_packets e' = sim_packets e \<and> sim_log e' = sim_log e"
    by (simp add: sim_packets_def sim_os_def)
qed

lemma sim_call: "call_ok (sim_os ret idt {}) sim_packets sim_log (\<lambda>f _. ret f)"
  by (simp add: call_ok_def sim_os_def sim_packets_def fun_eq_iff)

lemma sim_fcntl: "fcntl_ok (sim_os ret idt {}) sim_packets sim_log"
  by (simp add: fcntl_ok_def sim_os_def)

definition fds0 :: "'f sim \<Rightarrow> ('f, 'f sim) fd_scheduler" where
  "fds0 e = \<lparr>input_channels = replicate 16 0, num_channels = 0,
     sst = \<lparr>msgs = Map.empty,
       sched = \<lparr>callbacks = replicate 256 \<lparr>prio = 0, cb_fn = Nop_callback\<rparr>,
         pending = replicate 256 \<lparr>first = NULL, last = NULL\<rparr>, prio_levels = \<lparr>bits = replicate 4 0\<rparr>\<rparr>\<rparr>,
     errno = 0, env = e\<rparr>"

lemma fds0_fresh: "fresh_fds (fds0 e)"
  by (simp add: fresh_fds_def fds0_def MAX_INPUT_CHANNELS_def bitmap_ok_def)

definition demo_env :: "handler sim" where
  "demo_env = \<lparr>sim_pend = (\<lambda>fd.
       if fd = 3 then [c_bytes ''foo'', c_bytes ''XXX'']
       else if fd = 4 then [c_bytes ''xxx'', c_bytes ''zzz 1'']
       else if fd = 5 then [[], c_bytes ''ZZZ 2''] else []),
     sim_log = []\<rparr>"

lemma demo_arrived: "arrived (sim_packets demo_env) [3, 4, 5] =
  [c_bytes ''foo'', c_bytes ''XXX'', c_bytes ''xxx'', c_bytes ''zzz 1'', [], c_bytes ''ZZZ 2'']"
  by (simp add: sim_packets_def demo_env_def c_bytes_def MAX_MESSAGE_LEN_def)

lemma demo_kinds:
  "kind (c_bytes ''foo'') = MSG_FOO" "kind (c_bytes ''XXX'') = MSG_EXIT" "kind (c_bytes ''xxx'') = MSG_EXIT"
  "kind (c_bytes ''zzz 1'') = MSG_SLEEP" "kind [] = MSG_GARBAGE" "kind (c_bytes ''ZZZ 2'') = MSG_SLEEP"
  by code_simp+

text \<open>Two sleep packets and two exit packets, on three channels.\<close>

theorem main_serves_witness:
  "\<exists>w'. main_model (sim_os handler_result message_identify_type {}) (Pair 3) (Pair 4) (Pair 5) (fds0 demo_env) = Some (1, w') \<and>
    sim_log (env w') = [(On_sleep, c_bytes ''zzz 1''), (On_sleep, c_bytes ''ZZZ 2''), (On_termination, c_bytes ''XXX'')]"
proof -
  let ?os = "sim_os handler_result message_identify_type {}"
  have idt: "os_identify ?os = message_identify_type" by (simp add: sim_os_def)
  have op: "opens sim_packets sim_log (Pair fd) fd" for fd by (simp add: opens_def)
  have e: "env (fds0 demo_env) = demo_env" "sim_log demo_env = []" by (simp_all add: fds0_def demo_env_def)
  note D = main_serves [OF sim_malloc sim_read sim_call sim_fcntl idt op [of 3] op [of 4] op [of 5]
      fds0_fresh [of demo_env] refl, unfolded e demo_arrived]
  show ?thesis using D by (simp add: demo_kinds)
qed

text \<open>
  The scheduler in the state that \<open>fds_init\<close> leaves, with one channel and a callback: a
  packet of type 1 is served by the default callback, the failing one of type 0 stops the run.
\<close>

definition demo_w :: "(nat, nat sim) fd_scheduler" where
  "demo_w = the (do {
     w \<leftarrow> fds_init (fds0 \<lparr>sim_pend = (\<lambda>fd. if fd = 3 then [[1], [0, 9], [1, 1]] else []), sim_log = []\<rparr>);
     (_, w) \<leftarrow> fds_add_channel (sim_os int (\<lambda>len data. hd data) {}) w 3;
     fds_set_callback w 0 7 2 })"

lemma demo_w_ok:
  fixes os :: "(nat, nat sim) os"
  assumes os: "os = sim_os int (\<lambda>len data. hd data) closed"
  shows "rep os (sst demo_w) (\<lambda>_. [])" "channels_ok demo_w" "channels demo_w = [3]" "num_channels demo_w > 0"
    "sim_packets (env demo_w) 3 = [[1], [0, 9], [1, 1]]" "sim_log (env demo_w) = []"
    "callbacks (sched (sst demo_w)) = (replicate 256 \<lparr>prio = 0, cb_fn = Nop_callback\<rparr>)[0 := \<lparr>prio = 2, cb_fn = User 7\<rparr>]"
proof -
  let ?os = "sim_os int (\<lambda>len data. hd data) {} :: (nat, nat sim) os"
  let ?e = "\<lparr>sim_pend = (\<lambda>fd. if fd = 3 then [[1], [0, 9], [1, 1]] else []), sim_log = []\<rparr> :: nat sim"
  obtain w0 where w0: "fds_init (fds0 ?e) = Some w0" "rep os (sst w0) (\<lambda>_. [])" "channels w0 = []" "channels_ok w0"
    "num_channels w0 = 0" "env w0 = ?e" "callbacks (sched (sst w0)) = replicate 256 \<lparr>prio = 0, cb_fn = Nop_callback\<rparr>"
    using fds_init_ok [OF fds0_fresh, of ?e os] by (auto simp: fds0_def)
  have f: "os_fcntl ?os 3 F_SETFL O_NONBLOCK (env w0) = (0, ?e)" using w0(6) by (simp add: sim_os_def)
  obtain w1 where w1: "fds_add_channel ?os w0 3 = Some (0, w1)" "channels w1 = [3]" "channels_ok w1"
    "sst w1 = sst w0" "env w1 = ?e" "unat (num_channels w1) = 1"
    using fds_add_channel_ok [OF w0(4) _ f] w0(3,5) by (auto simp: MAX_INPUT_CHANNELS_def)
  have r1: "rep os (sst w1) (\<lambda>_. [])" using w0(2) w1(4) by simp
  obtain w2 where w2: "fds_set_callback w1 0 7 2 = Some w2" "rep os (sst w2) (\<lambda>_. [])" "channels w2 = channels w1"
    "channels_ok w2 = channels_ok w1" "num_channels w2 = num_channels w1" "env w2 = env w1"
    "callbacks (sched (sst w2)) = (callbacks (sched (sst w1)))[unat (0 :: u8) := \<lparr>prio = 2, cb_fn = User 7\<rparr>]"
    using fds_set_callback_ok [OF r1] by blast
  have d: "demo_w = w2" unfolding demo_w_def using w0(1) w1(1) w2(1) by simp
  show "rep os (sst demo_w) (\<lambda>_. [])" "channels_ok demo_w" "channels demo_w = [3]" "sim_log (env demo_w) = []"
    "callbacks (sched (sst demo_w)) = (replicate 256 \<lparr>prio = 0, cb_fn = Nop_callback\<rparr>)[0 := \<lparr>prio = 2, cb_fn = User 7\<rparr>]"
    unfolding d using w2 w1 w0 by simp_all
  show "num_channels demo_w > 0" unfolding d using w2(5) w1(6) by (auto simp: word_less_nat_alt)
  show "sim_packets (env demo_w) 3 = [[1], [0, 9], [1, 1]]"
    unfolding d using w2(6) w1(5) by (simp add: sim_packets_def MAX_MESSAGE_LEN_def)
qed

theorem fds_run_priority_order_witness:
  "\<exists>w' A. fds_run (sim_os int (\<lambda>len data. hd data) {}) demo_w = Some (7, w') \<and> sim_log (env w') = [(7, [0, 9])] \<and>
    rep (sim_os int (\<lambda>len data. hd data) {}) (sst w') A \<and>
    waiting (sim_os int (\<lambda>len data. hd data) {}) sim_packets w' A = []"
proof -
  let ?os = "sim_os int (\<lambda>len data. hd data) {} :: (nat, nat sim) os"
  note D = demo_w_ok [where closed = "{}", OF refl]
  have cb: "packet_callback ?os (sst demo_w) p =
      (if hd p = 0 then \<lparr>prio = 2, cb_fn = User 7\<rparr> else \<lparr>prio = 0, cb_fn = Nop_callback\<rparr>)" for p
    using u8_less [of "hd p"] unfolding packet_callback_def D(7)
    by (simp add: sim_os_def nth_list_update unat_eq_zero)
  have pr: "packet_prio ?os (sst demo_w) = (\<lambda>p. if hd p = 0 then 2 else 0)"
    by (simp add: packet_prio_def cb fun_eq_iff)
  have "arrived (sim_packets (env demo_w)) (channels demo_w) = [[1], [0, 9], [1, 1]]" using D(3,5) by simp
  then have srt: "sort_key (packet_prio ?os (sst demo_w)) (arrived (sim_packets (env demo_w)) (channels demo_w)) =
      [[1], [1, 1]] @ [0, 9] # []" unfolding pr by (simp add: insort_key_def)
  show ?thesis
    using fds_run_priority_order [OF sim_malloc sim_read sim_call D(1,2,4) srt] D(6)
    by (simp add: packet_ret_def packet_call_def cb)
qed

lemma flat_nil: "flat (\<lambda>_. []) = []"
  by (simp add: flat_def del: upt_rec_numeral)

text \<open>The same scheduler when the descriptor 3 is at the end of its input.\<close>

theorem receive_messages_eof_witness:
  "receive_messages (sim_os int (\<lambda>len data. hd data) {3}) demo_w 3 = None \<and>
   (\<exists>w' A'. receive_times (sim_os int (\<lambda>len data. hd data) {3}) 3 1000 demo_w = Some w' \<and>
     rep (sim_os int (\<lambda>len data. hd data) {3}) (sst w') A' \<and> length (flat A') = 1000)"
proof -
  have "\<forall>e. \<exists>en e'. os_read (sim_os int (\<lambda>len data. hd data) {3}) 3 MAX_MESSAGE_LEN e = ((0, [], en), e')"
    by (simp add: sim_os_def)
  from receive_messages_eof [OF sim_malloc this demo_w_ok(1) [OF refl], of 1000] show ?thesis
    unfolding flat_nil by simp
qed

end
