(* ===== verification/Mpool.thy ===== *)
theory Mpool
  imports Spinlock
begin

text \<open>
  The memory pool of Hafnium, \<open>src/examples/mpool.c\<close>.

  Free memory is threaded onto itself: a free entry holds the pointer to the next one in its first
  word, a free chunk its size and, eight bytes on, the pointer to the next chunk. The memory is
  a map from addresses to words, and a word that is read at another type than it was written at
  is a fault. The pools are in a heap of their own. \<open>round_pointer_up\<close>, which the file only
  declares, is a parameter.
\<close>

section \<open>Data\<close>

datatype cell = Uninit | CSize u64 | CPtr "nat ptr"

record mpool =
  entry_size :: u64
  mp_lock :: spinlock
  chunk_list :: "nat ptr"
  entry_list :: "nat ptr"
  fallback :: "nat ptr"

record mstate =
  mpools :: "(nat, mpool) heap"
  cells :: "(nat, cell) heap"

definition read_size :: "mstate \<Rightarrow> nat \<Rightarrow> u64 option" where
  "read_size s a = (case cells s a of Some (CSize n) \<Rightarrow> Some n | _ \<Rightarrow> None)"

definition read_ptr :: "mstate \<Rightarrow> nat \<Rightarrow> nat ptr option" where
  "read_ptr s a = (case cells s a of Some (CPtr p) \<Rightarrow> Some p | _ \<Rightarrow> None)"

definition write_cell :: "mstate \<Rightarrow> nat \<Rightarrow> cell \<Rightarrow> mstate option" where
  "write_cell s a c = (case cells s a of None \<Rightarrow> None | Some _ \<Rightarrow> Some (s\<lparr>cells := (cells s)(a \<mapsto> c)\<rparr>))"

text \<open>The field \<open>next_chunk\<close> of a chunk; its field \<open>size\<close> is at offset 0, as is \<open>next\<close> of an entry.\<close>

definition next_chunk :: "nat \<Rightarrow> nat" where
  "next_chunk a = a + 8"

definition set_pool :: "mstate \<Rightarrow> nat \<Rightarrow> (mpool \<Rightarrow> mpool) \<Rightarrow> mstate option" where
  "set_pool s p f = do { ps \<leftarrow> modify (mpools s) (Addr p) f; Some (s\<lparr>mpools := ps\<rparr>) }"

definition pool_lock :: "mstate \<Rightarrow> nat \<Rightarrow> mstate option" where
  "pool_lock s p = do {
     m \<leftarrow> load (mpools s) (Addr p);
     l \<leftarrow> sl_lock (mp_lock m);
     set_pool s p (\<lambda>m. m\<lparr>mp_lock := l\<rparr>) }"

definition pool_unlock :: "mstate \<Rightarrow> nat \<Rightarrow> mstate option" where
  "pool_unlock s p = set_pool s p (\<lambda>m. m\<lparr>mp_lock := sl_unlock (mp_lock m)\<rparr>)"

section \<open>Operations\<close>

definition mpool_init :: "mstate \<Rightarrow> nat \<Rightarrow> u64 \<Rightarrow> mstate option" where
  "mpool_init s p es = do {
     s \<leftarrow> set_pool s p (\<lambda>m. m\<lparr>entry_size := es\<rparr>);
     s \<leftarrow> set_pool s p (\<lambda>m. m\<lparr>chunk_list := NULL, entry_list := NULL\<rparr>);
     s \<leftarrow> set_pool s p (\<lambda>m. m\<lparr>fallback := NULL\<rparr>);
     set_pool s p (\<lambda>m. m\<lparr>mp_lock := sl_init (mp_lock m)\<rparr>) }"

definition mpool_init_from :: "mstate \<Rightarrow> nat \<Rightarrow> nat \<Rightarrow> mstate option" where
  "mpool_init_from s p from = do {
     f \<leftarrow> load (mpools s) (Addr from);
     s \<leftarrow> mpool_init s p (entry_size f);
     s \<leftarrow> pool_lock s from;
     f \<leftarrow> load (mpools s) (Addr from);
     s \<leftarrow> set_pool s p (\<lambda>m. m\<lparr>chunk_list := chunk_list f, entry_list := entry_list f, fallback := fallback f\<rparr>);
     s \<leftarrow> set_pool s from (\<lambda>m. m\<lparr>chunk_list := NULL, entry_list := NULL\<rparr>);
     pool_unlock s from }"

definition mpool_init_with_fallback :: "mstate \<Rightarrow> nat \<Rightarrow> nat \<Rightarrow> mstate option" where
  "mpool_init_with_fallback s p fb = do {
     f \<leftarrow> load (mpools s) (Addr fb);
     s \<leftarrow> mpool_init s p (entry_size f);
     set_pool s p (\<lambda>m. m\<lparr>fallback := Addr fb\<rparr>) }"

definition mpool_add_chunk :: "mstate \<Rightarrow> nat \<Rightarrow> nat \<Rightarrow> u64 \<Rightarrow> (bool \<times> mstate) option" where
  "mpool_add_chunk s p begn sz =
     (if sz = 0 then Some (False, s)
      else do {
        s \<leftarrow> write_cell s begn (CSize sz);
        s \<leftarrow> pool_lock s p;
        m \<leftarrow> load (mpools s) (Addr p);
        s \<leftarrow> write_cell s (next_chunk begn) (CPtr (chunk_list m));
        s \<leftarrow> set_pool s p (\<lambda>m. m\<lparr>chunk_list := Addr begn\<rparr>);
        s \<leftarrow> pool_unlock s p;
        Some (True, s) })"

definition mpool_free :: "mstate \<Rightarrow> nat \<Rightarrow> nat \<Rightarrow> mstate option" where
  "mpool_free s p e = do {
     s \<leftarrow> pool_lock s p;
     m \<leftarrow> load (mpools s) (Addr p);
     s \<leftarrow> write_cell s e (CPtr (entry_list m));
     s \<leftarrow> set_pool s p (\<lambda>m. m\<lparr>entry_list := Addr e\<rparr>);
     pool_unlock s p }"

definition mpool_alloc_no_fallback :: "mstate \<Rightarrow> nat \<Rightarrow> (nat ptr \<times> mstate) option" where
  "mpool_alloc_no_fallback s p = do {
     s \<leftarrow> pool_lock s p;
     m \<leftarrow> load (mpools s) (Addr p);
     (ret, s) \<leftarrow>
       (case entry_list m of
          Addr e \<Rightarrow> do {
            nxt \<leftarrow> read_ptr s e;
            s \<leftarrow> set_pool s p (\<lambda>m. m\<lparr>entry_list := nxt\<rparr>);
            Some (Addr e, s) }
        | Poison _ \<Rightarrow> None
        | NULL \<Rightarrow>
            (case chunk_list m of
               NULL \<Rightarrow> Some (NULL, s)
             | Poison _ \<Rightarrow> None
             | Addr c \<Rightarrow> do {
                 sz \<leftarrow> read_size s c;
                 s \<leftarrow> (if entry_size m \<ge> sz then do {
                        nxt \<leftarrow> read_ptr s (next_chunk c);
                        set_pool s p (\<lambda>m. m\<lparr>chunk_list := nxt\<rparr>) }
                      else do {
                        let new_chunk = c + unat (entry_size m);
                        nxt \<leftarrow> read_ptr s (next_chunk c);
                        s \<leftarrow> write_cell s (next_chunk new_chunk) (CPtr nxt);
                        sz \<leftarrow> read_size s c;
                        s \<leftarrow> write_cell s new_chunk (CSize (sz - entry_size m));
                        set_pool s p (\<lambda>m. m\<lparr>chunk_list := Addr new_chunk\<rparr>) });
                 Some (Addr c, s) }));
     s \<leftarrow> pool_unlock s p;
     Some (ret, s) }"

text \<open>The loop of \<open>mpool_alloc\<close> over the fallback pools.\<close>

partial_function (option) alloc_loop :: "mstate \<Rightarrow> nat ptr \<Rightarrow> (nat ptr \<times> mstate) option" where
  "alloc_loop s p =
     (case p of
        NULL \<Rightarrow> Some (NULL, s)
      | Poison _ \<Rightarrow> None
      | Addr a \<Rightarrow> Option.bind (mpool_alloc_no_fallback s a) (\<lambda>(ret, s).
          if ret \<noteq> NULL then Some (ret, s)
          else Option.bind (load (mpools s) (Addr a)) (\<lambda>m. alloc_loop s (fallback m))))"

definition mpool_alloc :: "mstate \<Rightarrow> nat \<Rightarrow> (nat ptr \<times> mstate) option" where
  "mpool_alloc s p = do {
     (ret, s) \<leftarrow> mpool_alloc_no_fallback s p;
     if ret \<noteq> NULL then Some (ret, s)
     else do {
       m \<leftarrow> load (mpools s) (Addr p);
       alloc_loop s (fallback m) } }"

text \<open>
  \<open>mpool_alloc_contiguous_no_fallback\<close>: \<open>prev\<close> points to the head of the chunk list or to the
  field \<open>next_chunk\<close> of a chunk.
\<close>

datatype chunk_slot = Chunk_head | Chunk_next nat

definition load_slot :: "mstate \<Rightarrow> nat \<Rightarrow> chunk_slot \<Rightarrow> nat ptr option" where
  "load_slot s p prev =
     (case prev of
        Chunk_head \<Rightarrow> map_option chunk_list (load (mpools s) (Addr p))
      | Chunk_next c \<Rightarrow> read_ptr s (next_chunk c))"

definition store_chunk_slot :: "mstate \<Rightarrow> nat \<Rightarrow> chunk_slot \<Rightarrow> nat ptr \<Rightarrow> mstate option" where
  "store_chunk_slot s p prev q =
     (case prev of
        Chunk_head \<Rightarrow> set_pool s p (\<lambda>m. m\<lparr>chunk_list := q\<rparr>)
      | Chunk_next c \<Rightarrow> write_cell s (next_chunk c) (CPtr q))"

definition take_from_chunk ::
  "mstate \<Rightarrow> nat \<Rightarrow> u64 \<Rightarrow> chunk_slot \<Rightarrow> nat \<Rightarrow> u64 \<Rightarrow> u64 \<Rightarrow> (nat ptr \<times> mstate) option" where
  "take_from_chunk s p es prev chunk before_start count = do {
     chunk_size \<leftarrow> read_size s chunk;
     chunk_next \<leftarrow> read_ptr s (next_chunk chunk);
     let start = chunk + unat before_start;
     s \<leftarrow> (if before_start + count * es = chunk_size then store_chunk_slot s p prev chunk_next
          else do {
            let new_chunk = start + unat (count * es);
            s \<leftarrow> write_cell s new_chunk (CSize (chunk_size - (before_start + count * es)));
            s \<leftarrow> write_cell s (next_chunk new_chunk) (CPtr chunk_next);
            store_chunk_slot s p prev (Addr new_chunk) });
     s \<leftarrow> (if before_start \<ge> es then do {
            q \<leftarrow> load_slot s p prev;
            s \<leftarrow> write_cell s (next_chunk chunk) (CPtr q);
            s \<leftarrow> store_chunk_slot s p prev (Addr chunk);
            write_cell s chunk (CSize before_start) }
          else Some s);
     Some (Addr start, s) }"

partial_function (option) contiguous_loop ::
  "(nat \<Rightarrow> u64 \<Rightarrow> u64) \<Rightarrow> mstate \<Rightarrow> nat \<Rightarrow> u64 \<Rightarrow> u64 \<Rightarrow> u64 \<Rightarrow> chunk_slot \<Rightarrow> (nat ptr \<times> mstate) option" where
  "contiguous_loop round_pointer_up s p es count al prev =
     Option.bind (load_slot s p prev) (\<lambda>q.
       case q of
         NULL \<Rightarrow> Some (NULL, s)
       | Poison _ \<Rightarrow> None
       | Addr chunk \<Rightarrow>
           Option.bind (read_size s chunk) (\<lambda>sz.
             if round_pointer_up chunk al + count * es \<le> sz
             then take_from_chunk s p es prev chunk (round_pointer_up chunk al) count
             else contiguous_loop round_pointer_up s p es count al (Chunk_next chunk)))"

definition mpool_alloc_contiguous_no_fallback ::
  "(nat \<Rightarrow> u64 \<Rightarrow> u64) \<Rightarrow> mstate \<Rightarrow> nat \<Rightarrow> u64 \<Rightarrow> u64 \<Rightarrow> (nat ptr \<times> mstate) option" where
  "mpool_alloc_contiguous_no_fallback round_pointer_up s p count al = do {
     m \<leftarrow> load (mpools s) (Addr p);
     let al = al * entry_size m;
     s \<leftarrow> pool_lock s p;
     (ret, s) \<leftarrow> contiguous_loop round_pointer_up s p (entry_size m) count al Chunk_head;
     s \<leftarrow> pool_unlock s p;
     Some (ret, s) }"

partial_function (option) alloc_contiguous_loop ::
  "(nat \<Rightarrow> u64 \<Rightarrow> u64) \<Rightarrow> mstate \<Rightarrow> nat ptr \<Rightarrow> u64 \<Rightarrow> u64 \<Rightarrow> (nat ptr \<times> mstate) option" where
  "alloc_contiguous_loop round_pointer_up s p count al =
     (case p of
        NULL \<Rightarrow> Some (NULL, s)
      | Poison _ \<Rightarrow> None
      | Addr a \<Rightarrow> Option.bind (mpool_alloc_contiguous_no_fallback round_pointer_up s a count al) (\<lambda>(ret, s).
          if ret \<noteq> NULL then Some (ret, s)
          else Option.bind (load (mpools s) (Addr a)) (\<lambda>m.
            alloc_contiguous_loop round_pointer_up s (fallback m) count al)))"

definition mpool_alloc_contiguous ::
  "(nat \<Rightarrow> u64 \<Rightarrow> u64) \<Rightarrow> mstate \<Rightarrow> nat \<Rightarrow> u64 \<Rightarrow> u64 \<Rightarrow> (nat ptr \<times> mstate) option" where
  "mpool_alloc_contiguous round_pointer_up s p count al = do {
     (ret, s) \<leftarrow> mpool_alloc_contiguous_no_fallback round_pointer_up s p count al;
     if ret \<noteq> NULL then Some (ret, s)
     else do {
       m \<leftarrow> load (mpools s) (Addr p);
       alloc_contiguous_loop round_pointer_up s (fallback m) count al } }"

text \<open>The two loops of \<open>mpool_fini\<close>.\<close>

partial_function (option) fini_entries :: "mstate \<Rightarrow> nat \<Rightarrow> nat ptr \<Rightarrow> mstate option" where
  "fini_entries s fb entry =
     (case entry of
        NULL \<Rightarrow> Some s
      | Poison _ \<Rightarrow> None
      | Addr e \<Rightarrow> Option.bind (read_ptr s e) (\<lambda>nxt.
          Option.bind (mpool_free s fb e) (\<lambda>s. fini_entries s fb nxt)))"

partial_function (option) fini_chunks :: "mstate \<Rightarrow> nat \<Rightarrow> nat ptr \<Rightarrow> mstate option" where
  "fini_chunks s fb chunk =
     (case chunk of
        NULL \<Rightarrow> Some s
      | Poison _ \<Rightarrow> None
      | Addr c \<Rightarrow> Option.bind (read_size s c) (\<lambda>sz.
          Option.bind (read_ptr s (next_chunk c)) (\<lambda>nxt.
            Option.bind (mpool_add_chunk s fb c sz) (\<lambda>(_, s). fini_chunks s fb nxt))))"

definition mpool_fini :: "mstate \<Rightarrow> nat \<Rightarrow> mstate option" where
  "mpool_fini s p = do {
     m \<leftarrow> load (mpools s) (Addr p);
     case fallback m of
       NULL \<Rightarrow> Some s
     | Poison _ \<Rightarrow> None
     | Addr fb \<Rightarrow> do {
         s \<leftarrow> fini_entries s fb (entry_list m);
         s \<leftarrow> fini_chunks s fb (chunk_list m);
         set_pool s p (\<lambda>m. m\<lparr>chunk_list := NULL, entry_list := NULL, fallback := NULL\<rparr>) } }"

section \<open>Regions of memory\<close>

text \<open>A region is an address and a length; the regions of a pool are its chunks and its entries.\<close>

fun iv :: "nat \<times> nat \<Rightarrow> nat set" where
  "iv (a, l) = {a..<a + l}"

declare iv.simps [simp del]

definition iv_area :: "(nat \<times> nat) list \<Rightarrow> nat set" where
  "iv_area rs = (\<Union>r\<in>set rs. iv r)"

fun disj_regs :: "(nat \<times> nat) list \<Rightarrow> bool" where
  "disj_regs [] \<longleftrightarrow> True"
| "disj_regs (r # rs) \<longleftrightarrow> iv r \<inter> iv_area rs = {} \<and> disj_regs rs"

definition regs :: "u64 \<Rightarrow> (nat \<times> u64) list \<Rightarrow> nat list \<Rightarrow> (nat \<times> nat) list" where
  "regs es cs xs = map (\<lambda>(a, sz). (a, unat sz)) cs @ map (\<lambda>e. (e, unat es)) xs"

definition region_ok :: "(nat, cell) heap \<Rightarrow> nat \<Rightarrow> nat \<times> nat \<Rightarrow> bool" where
  "region_ok c n r \<longleftrightarrow> n dvd fst r \<and> n dvd snd r \<and> 0 < snd r \<and> iv r \<subseteq> dom c"

lemma area_simps [simp]:
  "iv_area [] = {}" "iv_area (r # rs) = iv r \<union> iv_area rs" "iv_area (rs @ rs') = iv_area rs \<union> iv_area rs'"
  by (auto simp: iv_area_def)

lemma disj_regs_append: "disj_regs (xs @ ys) \<longleftrightarrow> disj_regs xs \<and> disj_regs ys \<and> iv_area xs \<inter> iv_area ys = {}"
  by (induction xs) auto

lemma regs_simps [simp]:
  "regs es ((a, sz) # cs) xs = (a, unat sz) # regs es cs xs"
  "regs es [] (e # xs) = (e, unat es) # regs es [] xs" "regs es [] [] = []"
  by (simp_all add: regs_def)

lemma regs_append: "regs es (cs @ cs') xs = map (\<lambda>(a, sz). (a, unat sz)) cs @ regs es cs' xs"
  by (simp add: regs_def)

section \<open>Representation\<close>

fun chunks_at :: "(nat, cell) heap \<Rightarrow> nat ptr \<Rightarrow> (nat \<times> u64) list \<Rightarrow> bool" where
  "chunks_at c p [] \<longleftrightarrow> p = NULL"
| "chunks_at c p ((a, sz) # cs) \<longleftrightarrow> p = Addr a \<and> c a = Some (CSize sz) \<and>
     (\<exists>q. c (next_chunk a) = Some (CPtr q) \<and> chunks_at c q cs)"

fun entries_at :: "(nat, cell) heap \<Rightarrow> nat ptr \<Rightarrow> nat list \<Rightarrow> bool" where
  "entries_at c p [] \<longleftrightarrow> p = NULL"
| "entries_at c p (e # xs) \<longleftrightarrow> p = Addr e \<and> (\<exists>q. c e = Some (CPtr q) \<and> entries_at c q xs)"

text \<open>The pool \<open>m\<close> holds the chunks \<open>cs\<close> and the entries \<open>xs\<close>: its lock is free, its lists are linked
  in the memory \<open>c\<close>, and its regions are disjoint, aligned and multiples of the entry size.\<close>

definition pool_rep :: "(nat, cell) heap \<Rightarrow> mpool \<Rightarrow> (nat \<times> u64) list \<Rightarrow> nat list \<Rightarrow> bool" where
  "pool_rep c m cs xs \<longleftrightarrow> \<not> lock (mp_lock m) \<and> 16 \<le> unat (entry_size m) \<and>
     chunks_at c (chunk_list m) cs \<and> entries_at c (entry_list m) xs \<and>
     (\<forall>r\<in>set (regs (entry_size m) cs xs). region_ok c (unat (entry_size m)) r) \<and>
     disj_regs (regs (entry_size m) cs xs)"

definition free_area :: "mpool \<Rightarrow> (nat \<times> u64) list \<Rightarrow> nat list \<Rightarrow> nat set" where
  "free_area m cs xs = iv_area (regs (entry_size m) cs xs)"

lemma pool_repD:
  assumes "pool_rep c m cs xs"
  shows "\<not> lock (mp_lock m)" "16 \<le> unat (entry_size m)" "chunks_at c (chunk_list m) cs"
    "entries_at c (entry_list m) xs" "disj_regs (regs (entry_size m) cs xs)"
    "\<And>r. r \<in> set (regs (entry_size m) cs xs) \<Longrightarrow> region_ok c (unat (entry_size m)) r"
  using assms by (auto simp: pool_rep_def)

lemma region_ok_long: "region_ok c n r \<Longrightarrow> n \<le> snd r"
  by (auto simp: region_ok_def intro: dvd_imp_le)

lemma region_cells:
  assumes "region_ok c n (a, l)" "16 \<le> n"
  shows "a \<in> iv (a, l)" "next_chunk a \<in> iv (a, l)" "a \<in> dom c" "next_chunk a \<in> dom c"
  using region_ok_long [OF assms(1)] assms by (auto simp: next_chunk_def region_ok_def subset_iff iv.simps)

lemma chunks_at_cong:
  "(\<And>a sz. (a, sz) \<in> set cs \<Longrightarrow> c' a = c a \<and> c' (next_chunk a) = c (next_chunk a)) \<Longrightarrow>
   chunks_at c' p cs = chunks_at c p cs"
proof (induction cs arbitrary: p)
  case (Cons r cs)
  obtain a sz where r: "r = (a, sz)" by (cases r)
  have "chunks_at c' q cs = chunks_at c q cs" for q by (rule Cons.IH, rule Cons.prems, rule list.set_intros(2))
  then show ?case using Cons.prems [of a sz] r by simp
qed simp

lemma entries_at_cong:
  "(\<And>e. e \<in> set xs \<Longrightarrow> c' e = c e) \<Longrightarrow> entries_at c' p xs = entries_at c p xs"
  by (induction xs arbitrary: p) auto

text \<open>The cells of the lists lie in the free area, so that writes elsewhere leave the pool alone.\<close>

lemma lists_frame:
  assumes "\<forall>r\<in>set (regs es cs xs). region_ok c n r" "16 \<le> n" "\<And>x. x \<in> iv_area (regs es cs xs) \<Longrightarrow> c' x = c x"
  shows "chunks_at c' p cs = chunks_at c p cs" "entries_at c' q xs = entries_at c q xs"
proof -
  show "chunks_at c' p cs = chunks_at c p cs"
  proof (rule chunks_at_cong)
    fix a sz assume "(a, sz) \<in> set cs"
    then have r: "(a, unat sz) \<in> set (regs es cs xs)" by (force simp: regs_def)
    from region_cells [OF bspec [OF assms(1) r] assms(2)] have "a \<in> iv_area (regs es cs xs)" "next_chunk a \<in> iv_area (regs es cs xs)"
      using r unfolding iv_area_def by blast+
    then show "c' a = c a \<and> c' (next_chunk a) = c (next_chunk a)" using assms(3) by blast
  qed
  show "entries_at c' q xs = entries_at c q xs"
  proof (rule entries_at_cong)
    fix e assume "e \<in> set xs"
    then have r: "(e, unat es) \<in> set (regs es cs xs)" by (force simp: regs_def)
    from region_cells(1) [OF bspec [OF assms(1) r] assms(2)] have "e \<in> iv_area (regs es cs xs)"
      using r unfolding iv_area_def by blast
    then show "c' e = c e" by (rule assms(3))
  qed
qed

lemma region_ok_frame: "region_ok c n r \<Longrightarrow> (\<And>x. x \<in> iv r \<Longrightarrow> c' x = c x) \<Longrightarrow> region_ok c' n r"
  by (auto simp: region_ok_def dom_def subset_iff)

lemma region_ok_dom: "region_ok c n r \<Longrightarrow> dom c \<subseteq> dom c' \<Longrightarrow> region_ok c' n r"
  unfolding region_ok_def by blast

lemma pool_rep_frame:
  assumes "pool_rep c m cs xs" "\<And>x. x \<in> free_area m cs xs \<Longrightarrow> c' x = c x"
  shows "pool_rep c' m cs xs"
proof -
  let ?rs = "regs (entry_size m) cs xs" and ?n = "unat (entry_size m)"
  have R: "\<forall>r\<in>set ?rs. region_ok c ?n r" and n: "16 \<le> ?n" using assms(1) by (auto simp: pool_rep_def)
  have e: "\<And>x. x \<in> iv_area ?rs \<Longrightarrow> c' x = c x" using assms(2) by (simp add: free_area_def)
  have "region_ok c' ?n r" if "r \<in> set ?rs" for r
    using R that by (rule_tac region_ok_frame [of c]) (auto intro!: e simp: iv_area_def)
  then show ?thesis using assms(1) lists_frame [OF R n e] by (simp add: pool_rep_def)
qed

section \<open>Locking\<close>

definition locked :: "mstate \<Rightarrow> nat \<Rightarrow> mpool \<Rightarrow> mstate" where
  "locked s p m = s\<lparr>mpools := (mpools s)(p \<mapsto> m\<lparr>mp_lock := (mp_lock m)\<lparr>lock := True\<rparr>\<rparr>)\<rparr>"

lemma pool_lock_ok: "mpools s p = Some m \<Longrightarrow> \<not> lock (mp_lock m) \<Longrightarrow> pool_lock s p = Some (locked s p m)"
  by (simp add: pool_lock_def load_def set_pool_def modify_def sl_lock_free locked_def)

lemma unlocked_same [simp]: "\<not> lock l \<Longrightarrow> l\<lparr>lock := False\<rparr> = l"
  by (cases l) simp

lemmas pool_op_defs = load_def set_pool_def modify_def pool_unlock_def sl_unlock_def locked_def
  read_size_def read_ptr_def write_cell_def Let_def

section \<open>Freeing and adding memory\<close>

lemma mpool_free_ok:
  assumes m: "mpools s p = Some m" and r: "pool_rep (cells s) m cs xs"
    and e: "region_ok (cells s) (unat (entry_size m)) (e, unat (entry_size m))"
      "iv (e, unat (entry_size m)) \<inter> free_area m cs xs = {}"
  shows "\<exists>m'. mpool_free s p e = Some (s\<lparr>mpools := (mpools s)(p \<mapsto> m'), cells := (cells s)(e \<mapsto> CPtr (entry_list m))\<rparr>) \<and>
    m' = m\<lparr>entry_list := Addr e\<rparr> \<and> pool_rep ((cells s)(e \<mapsto> CPtr (entry_list m))) m' cs (e # xs)"
proof -
  note D = pool_repD [OF r]
  let ?c = "(cells s)(e \<mapsto> CPtr (entry_list m))" and ?m = "m\<lparr>entry_list := Addr e\<rparr>" and ?n = "unat (entry_size m)"
  note ec = region_cells [OF e(1) D(2)]
  obtain v where v: "cells s e = Some v" using ec(3) by auto
  have "mpool_free s p e = Some (s\<lparr>mpools := (mpools s)(p \<mapsto> ?m), cells := ?c\<rparr>)"
    using m v D(1) by (simp add: mpool_free_def pool_lock_ok pool_op_defs)
  moreover have "pool_rep ?c ?m cs (e # xs)"
  proof -
    have fr: "?c x = cells s x" if "x \<in> free_area m cs xs" for x using that e(2) ec(1) by auto
    have "pool_rep ?c m cs xs" by (rule pool_rep_frame [OF r]) (rule fr)
    note P = pool_repD [OF this]
    have rs: "regs (entry_size m) cs (e # xs) =
        map (\<lambda>(a, sz). (a, unat sz)) cs @ (e, ?n) # map (\<lambda>e. (e, ?n)) xs" by (simp add: regs_def)
    have "region_ok ?c ?n (e, ?n)" using e(1) by (rule region_ok_dom) auto
    then have "\<forall>r\<in>set (regs (entry_size m) cs (e # xs)). region_ok ?c ?n r"
      using P(6) unfolding rs by (auto simp: regs_def)
    moreover have "disj_regs (regs (entry_size m) cs (e # xs))"
      using P(5) e(2) unfolding rs by (auto simp: regs_def free_area_def disj_regs_append)
    ultimately show ?thesis using P D(1,2) by (simp add: pool_rep_def)
  qed
  ultimately show ?thesis by simp
qed

lemma mpool_add_chunk_ok:
  assumes m: "mpools s p = Some m" and r: "pool_rep (cells s) m cs xs" and sz: "sz \<noteq> 0"
    and a: "region_ok (cells s) (unat (entry_size m)) (a, unat sz)" "iv (a, unat sz) \<inter> free_area m cs xs = {}"
  shows "\<exists>c m'. mpool_add_chunk s p a sz = Some (True, s\<lparr>mpools := (mpools s)(p \<mapsto> m'), cells := c\<rparr>) \<and>
    m' = m\<lparr>chunk_list := Addr a\<rparr> \<and> pool_rep c m' ((a, sz) # cs) xs \<and> dom c = dom (cells s) \<and>
    (\<forall>x. x \<notin> iv (a, unat sz) \<longrightarrow> c x = cells s x)"
proof -
  note D = pool_repD [OF r]
  let ?c = "(cells s)(a \<mapsto> CSize sz, next_chunk a \<mapsto> CPtr (chunk_list m))" and ?m = "m\<lparr>chunk_list := Addr a\<rparr>"
    and ?n = "unat (entry_size m)"
  note ac = region_cells [OF a(1) D(2)]
  have ne: "next_chunk a \<noteq> a" by (simp add: next_chunk_def)
  obtain v w where v: "cells s a = Some v" "cells s (next_chunk a) = Some w" using ac(3,4) by auto
  have "mpool_add_chunk s p a sz = Some (True, s\<lparr>mpools := (mpools s)(p \<mapsto> ?m), cells := ?c\<rparr>)"
    using m v D(1) sz ne by (simp add: mpool_add_chunk_def pool_lock_ok pool_op_defs)
  moreover have "pool_rep ?c ?m ((a, sz) # cs) xs"
  proof -
    have fr: "?c x = cells s x" if "x \<in> free_area m cs xs" for x using that a(2) ac(1,2) by auto
    have "pool_rep ?c m cs xs" by (rule pool_rep_frame [OF r]) (rule fr)
    note P = pool_repD [OF this]
    have "region_ok ?c ?n (a, unat sz)" using a(1) by (rule region_ok_dom) auto
    then have "\<forall>r\<in>set (regs (entry_size m) ((a, sz) # cs) xs). region_ok ?c ?n r" using P(6) by auto
    then show ?thesis using P D(1,2) a(2) ne by (simp add: pool_rep_def free_area_def)
  qed
  moreover have "dom ?c = dom (cells s)" using v by auto
  moreover have "\<forall>x. x \<notin> iv (a, unat sz) \<longrightarrow> ?c x = cells s x" using ac(1,2) by auto
  ultimately show ?thesis by blast
qed

section \<open>Allocating an entry\<close>

text \<open>What an allocation does to the lists: an entry is taken, or else the front of a chunk.\<close>

fun alloc_lists :: "u64 \<Rightarrow> (nat \<times> u64) list \<Rightarrow> nat list \<Rightarrow> nat ptr \<times> (nat \<times> u64) list \<times> nat list" where
  "alloc_lists es cs (e # xs) = (Addr e, cs, xs)"
| "alloc_lists es [] [] = (NULL, [], [])"
| "alloc_lists es ((a, sz) # cs) [] =
     (Addr a, if es \<ge> sz then cs else (a + unat es, sz - es) # cs, [])"

lemma unat_minus: "b \<le> a \<Longrightarrow> unat (a - b) = unat a - unat (b :: u64)"
  by (simp add: unat_sub)

text \<open>Cutting the front off a region.\<close>

lemma iv_split: "k \<le> l \<Longrightarrow> iv (a, l) = iv (a, k) \<union> iv (a + k, l - k)" "iv (a, k) \<inter> iv (a + k, j) = {}"
  by (auto simp: iv.simps)

lemma alloc_no_fallback_ok:
  assumes m: "mpools s p = Some m" and r: "pool_rep (cells s) m cs xs"
    and al: "alloc_lists (entry_size m) cs xs = (ret, cs', xs')"
  shows "\<exists>c m'. mpool_alloc_no_fallback s p = Some (ret, s\<lparr>mpools := (mpools s)(p \<mapsto> m'), cells := c\<rparr>) \<and>
    pool_rep c m' cs' xs' \<and> entry_size m' = entry_size m \<and> fallback m' = fallback m \<and> dom c = dom (cells s) \<and>
    (\<forall>x. x \<notin> free_area m cs' xs' \<longrightarrow> c x = cells s x)"
proof -
  note D = pool_repD [OF r]
  let ?n = "unat (entry_size m)"
  consider (entry) e ys where "xs = e # ys" | (chunk) a sz ds where "xs = []" "cs = (a, sz) # ds" | (none) "xs = []" "cs = []"
    by (cases xs; cases cs) auto
  then show ?thesis
  proof cases
    case entry
    then obtain q where q: "entry_list m = Addr e" "cells s e = Some (CPtr q)" "entries_at (cells s) q ys" using D(4) by auto
    let ?m = "m\<lparr>entry_list := q\<rparr>"
    have "mpool_alloc_no_fallback s p = Some (Addr e, s\<lparr>mpools := (mpools s)(p \<mapsto> ?m), cells := cells s\<rparr>)"
      using m q D(1) by (simp add: mpool_alloc_no_fallback_def pool_lock_ok pool_op_defs)
    moreover have "pool_rep (cells s) ?m cs ys"
      using r entry q unfolding pool_rep_def by (auto simp: regs_def disj_regs_append)
    moreover have "ret = Addr e" "cs' = cs" "xs' = ys" using al entry by auto
    ultimately show ?thesis by (intro exI [of _ "cells s"] exI [of _ ?m]) simp
  next
    case none
    have "mpool_alloc_no_fallback s p = Some (NULL, s\<lparr>mpools := (mpools s)(p \<mapsto> m), cells := cells s\<rparr>)"
      using m none D(1,3,4) by (simp add: mpool_alloc_no_fallback_def pool_lock_ok pool_op_defs)
    moreover have "ret = NULL" "cs' = cs" "xs' = xs" using al none by auto
    ultimately show ?thesis using r by (intro exI [of _ "cells s"] exI [of _ m]) simp
  next
    case chunk
    then obtain q where q: "chunk_list m = Addr a" "cells s a = Some (CSize sz)" "cells s (next_chunk a) = Some (CPtr q)"
      "chunks_at (cells s) q ds" and el: "entry_list m = NULL" using D(3,4) by auto
    have ra: "region_ok (cells s) ?n (a, unat sz)" using D(6) chunk by simp
    show ?thesis
    proof (cases "entry_size m \<ge> sz")
      case True
      let ?m = "m\<lparr>chunk_list := q\<rparr>"
      have "mpool_alloc_no_fallback s p = Some (Addr a, s\<lparr>mpools := (mpools s)(p \<mapsto> ?m), cells := cells s\<rparr>)"
        using m q el D(1) True by (simp add: mpool_alloc_no_fallback_def pool_lock_ok pool_op_defs)
      moreover have "pool_rep (cells s) ?m ds []" using r chunk q unfolding pool_rep_def by auto
      moreover have "ret = Addr a" "cs' = ds" "xs' = []" using al chunk True by auto
      ultimately show ?thesis by (intro exI [of _ "cells s"] exI [of _ ?m]) simp
    next
      case False
      let ?b = "a + ?n" and ?sz = "sz - entry_size m"
      have lt: "?n < unat sz" using False by (simp add: word_le_nat_alt)
      have us: "unat ?sz = unat sz - ?n" using False by (intro unat_minus) simp
      let ?c = "(cells s)(next_chunk ?b \<mapsto> CPtr q, ?b \<mapsto> CSize ?sz)" and ?m = "m\<lparr>chunk_list := Addr ?b\<rparr>"
      have sub: "iv (?b, unat ?sz) \<subseteq> iv (a, unat sz)" using lt us by (auto simp: iv.simps)
      have rb: "region_ok (cells s) ?n (?b, unat ?sz)"
        using ra lt us sub unfolding region_ok_def by (auto intro: dvd_diff_nat)
      note bc = region_cells [OF rb D(2)]
      obtain v w where v: "cells s ?b = Some v" "cells s (next_chunk ?b) = Some w" using bc(3,4) by auto
      have ne: "next_chunk ?b \<noteq> a" "next_chunk a \<noteq> ?b" "next_chunk ?b \<noteq> ?b" "?b \<noteq> a"
        using D(2) by (simp_all add: next_chunk_def)
      have "mpool_alloc_no_fallback s p = Some (Addr a, s\<lparr>mpools := (mpools s)(p \<mapsto> ?m), cells := ?c\<rparr>)"
        using m q el v D(1) False ne by (simp add: mpool_alloc_no_fallback_def pool_lock_ok pool_op_defs)
      moreover have "pool_rep ?c ?m ((?b, ?sz) # ds) []"
      proof -
        have dj: "iv (a, unat sz) \<inter> iv_area (regs (entry_size m) ds []) = {}" using D(5) chunk by simp
        have R: "\<forall>r\<in>set (regs (entry_size m) ds []). region_ok (cells s) ?n r" using D(6) chunk by simp
        have fr: "?c x = cells s x" if "x \<in> iv_area (regs (entry_size m) ds [])" for x
          using that bc(1,2) sub dj by auto
        have "chunks_at ?c q ds = chunks_at (cells s) q ds" by (rule lists_frame(1) [OF R D(2)]) (rule fr)
        moreover have "region_ok ?c ?n r" if "region_ok (cells s) ?n r" for r
          using that by (rule region_ok_dom) auto
        ultimately show ?thesis using D(1,2,5) R rb q(4) el dj sub chunk ne by (auto simp: pool_rep_def)
      qed
      moreover have "dom ?c = dom (cells s)" using v by auto
      moreover have "\<forall>x. x \<notin> free_area m ((?b, ?sz) # ds) [] \<longrightarrow> ?c x = cells s x"
        using bc(1,2) by (auto simp: free_area_def)
      moreover have "ret = Addr a" "cs' = (?b, ?sz) # ds" "xs' = []" using al chunk False by auto
      ultimately show ?thesis by (intro exI [of _ ?c] exI [of _ ?m]) simp
    qed
  qed
qed

lemma alloc_lists_area:
  assumes r: "pool_rep c m cs xs" and al: "alloc_lists (entry_size m) cs xs = (ret, cs', xs')"
  shows "case ret of
      Addr a \<Rightarrow> region_ok c (unat (entry_size m)) (a, unat (entry_size m)) \<and>
        free_area m cs xs = iv (a, unat (entry_size m)) \<union> free_area m cs' xs' \<and>
        iv (a, unat (entry_size m)) \<inter> free_area m cs' xs' = {}
    | _ \<Rightarrow> ret = NULL \<and> cs = [] \<and> xs = [] \<and> cs' = [] \<and> xs' = []"
proof -
  note D = pool_repD [OF r]
  let ?n = "unat (entry_size m)"
  consider (entry) e ys where "xs = e # ys" | (chunk) a sz ds where "xs = []" "cs = (a, sz) # ds" | (none) "xs = []" "cs = []"
    by (cases xs; cases cs) auto
  then show ?thesis
  proof cases
    case entry
    have "(e, ?n) \<in> set (regs (entry_size m) cs xs)" using entry by (simp add: regs_def)
    then have "region_ok c ?n (e, ?n)" by (rule D(6))
    then show ?thesis using al entry D(5) by (auto simp: free_area_def regs_def disj_regs_append)
  next
    case chunk
    have ra: "region_ok c ?n (a, unat sz)" using D(6) chunk by simp
    have le: "?n \<le> unat sz" using region_ok_long [OF ra] by simp
    have rn: "region_ok c ?n (a, ?n)" using ra le iv_split(1) [OF le, of a] D(2) unfolding region_ok_def by auto
    show ?thesis
    proof (cases "entry_size m \<ge> sz")
      case True
      then have "?n = unat sz" using le by (simp add: word_le_nat_alt)
      then show ?thesis using al chunk True D(5) rn by (auto simp: free_area_def)
    next
      case False
      have us: "unat (sz - entry_size m) = unat sz - ?n" using False by (intro unat_minus) simp
      show ?thesis using al chunk False D(5) rn us iv_split(1) [OF le, of a] iv_split(2) [of a ?n "unat sz - ?n"]
        by (auto simp: free_area_def)
    qed
  next
    case none
    then show ?thesis using al by simp
  qed
qed

section \<open>Contiguous allocation\<close>

text \<open>A segment of the chunk list: from \<open>h\<close>, over the chunks \<open>cs\<close>, to the pointer \<open>q\<close>.\<close>

fun seg :: "(nat, cell) heap \<Rightarrow> nat ptr \<Rightarrow> (nat \<times> u64) list \<Rightarrow> nat ptr \<Rightarrow> bool" where
  "seg c h [] q \<longleftrightarrow> h = q"
| "seg c h ((a, sz) # cs) q \<longleftrightarrow> h = Addr a \<and> c a = Some (CSize sz) \<and>
     (\<exists>h'. c (next_chunk a) = Some (CPtr h') \<and> seg c h' cs q)"

definition slot_of :: "(nat \<times> u64) list \<Rightarrow> chunk_slot" where
  "slot_of pre = (if pre = [] then Chunk_head else Chunk_next (fst (last pre)))"

lemma chunks_at_append: "chunks_at c h (cs @ ds) \<longleftrightarrow> (\<exists>q. seg c h cs q \<and> chunks_at c q ds)"
proof (induction cs arbitrary: h)
  case (Cons r cs)
  then show ?case by (cases r) (simp, blast)
qed simp

lemma seg_last: "seg c h cs q \<Longrightarrow> if cs = [] then h = q else c (next_chunk (fst (last cs))) = Some (CPtr q)"
proof (induction cs arbitrary: h)
  case (Cons r cs)
  then show ?case by (cases r; cases cs) auto
qed simp

lemma load_slot_ok:
  assumes "mpools s p = Some m" "chunks_at (cells s) (chunk_list m) (pre @ rest)"
  shows "\<exists>q. load_slot s p (slot_of pre) = Some q \<and> chunks_at (cells s) q rest"
proof -
  obtain q where q: "seg (cells s) (chunk_list m) pre q" "chunks_at (cells s) q rest"
    using assms(2) by (auto simp: chunks_at_append)
  then show ?thesis using seg_last [OF q(1)] assms(1)
    by (auto simp: load_slot_def slot_of_def load_def read_ptr_def split: if_splits)
qed

text \<open>Redirecting the end of a segment.\<close>

lemma seg_store:
  assumes "seg c h cs q" "cs \<noteq> []" "c' (next_chunk (fst (last cs))) = Some (CPtr q')"
    and "\<And>a sz. (a, sz) \<in> set cs \<Longrightarrow> c' a = c a"
    and "\<And>a sz. (a, sz) \<in> set (butlast cs) \<Longrightarrow> c' (next_chunk a) = c (next_chunk a)"
  shows "seg c' h cs q'"
  using assms
proof (induction cs arbitrary: h)
  case (Cons r cs)
  obtain a sz where r: "r = (a, sz)" by (cases r)
  show ?case
  proof (cases "cs = []")
    case True
    then show ?thesis using Cons.prems r by auto
  next
    case False
    obtain h' where h': "h = Addr a" "c a = Some (CSize sz)" "c (next_chunk a) = Some (CPtr h')" "seg c h' cs q"
      using Cons.prems(1) r by auto
    have "seg c' h' cs q'"
    proof (rule Cons.IH [OF h'(4) False])
      show "c' (next_chunk (fst (last cs))) = Some (CPtr q')" using Cons.prems(3) False by simp
      show "c' b = c b" if "(b, z) \<in> set cs" for b z using Cons.prems(4) [of b z] that by simp
      show "c' (next_chunk b) = c (next_chunk b)" if "(b, z) \<in> set (butlast cs)" for b z
        using Cons.prems(5) [of b z] that False by simp
    qed
    then show ?thesis using h' r False Cons.prems(4) [of a sz] Cons.prems(5) [of a sz] by auto
  qed
qed simp

lemma contiguous_loop_ok:
  assumes "mpools s p = Some m" "chunks_at (cells s) (chunk_list m) (pre @ rest)"
  shows "(\<forall>(a, sz)\<in>set rest. \<not> rpu a al + count * es \<le> sz) \<and>
      contiguous_loop rpu s p es count al (slot_of pre) = Some (NULL, s) \<or>
    (\<exists>mid a sz post. rest = mid @ (a, sz) # post \<and> rpu a al + count * es \<le> sz \<and>
      contiguous_loop rpu s p es count al (slot_of pre) = take_from_chunk s p es (slot_of (pre @ mid)) a (rpu a al) count)"
  using assms(2)
proof (induction rest arbitrary: pre)
  case Nil
  then have "load_slot s p (slot_of pre) = Some NULL" using load_slot_ok [OF assms(1), of pre "[]"] by auto
  then show ?case by (subst (1 2) contiguous_loop.simps) simp
next
  case (Cons r rest)
  obtain a sz where r: "r = (a, sz)" by (cases r)
  have q: "load_slot s p (slot_of pre) = Some (Addr a)" "cells s a = Some (CSize sz)"
    using load_slot_ok [OF assms(1) Cons.prems] r by auto
  show ?case
  proof (cases "rpu a al + count * es \<le> sz")
    case True
    have "contiguous_loop rpu s p es count al (slot_of pre) = take_from_chunk s p es (slot_of pre) a (rpu a al) count"
      using q True by (subst contiguous_loop.simps) (simp add: read_size_def)
    then show ?thesis using True r by (intro disjI2 exI [of _ "[]"] exI [of _ a]) simp
  next
    case False
    have st: "contiguous_loop rpu s p es count al (slot_of pre) = contiguous_loop rpu s p es count al (slot_of (pre @ [r]))"
      using q False r by (subst contiguous_loop.simps) (simp add: read_size_def slot_of_def)
    have "chunks_at (cells s) (chunk_list m) ((pre @ [r]) @ rest)" using Cons.prems by simp
    from Cons.IH [OF this] show ?thesis
    proof (elim disjE exE conjE)
      assume "\<forall>(a, sz)\<in>set rest. \<not> rpu a al + count * es \<le> sz"
        "contiguous_loop rpu s p es count al (slot_of (pre @ [r])) = Some (NULL, s)"
      then show ?thesis using False r st by simp
    next
      fix mid b z post
      assume "rest = mid @ (b, z) # post" "rpu b al + count * es \<le> z"
        "contiguous_loop rpu s p es count al (slot_of (pre @ [r])) =
           take_from_chunk s p es (slot_of ((pre @ [r]) @ mid)) b (rpu b al) count"
      then show ?thesis using st
        by (intro disjI2 exI [of _ "r # mid"] exI [of _ b] exI [of _ z] exI [of _ post]) simp
    qed
  qed
qed

text \<open>The writes of \<open>take_from_chunk\<close>; the slot is that of the list \<open>pre\<close>.\<close>

lemma take_from_chunk_ok:
  assumes m: "mpools s p = Some m" and hd: "cells s a = Some (CSize sz)" "cells s (next_chunk a) = Some (CPtr nx)"
    and cn: "cn = count * es" and nc: "nc = a + unat bs + unat (cn)"
    and new: "bs + cn \<noteq> sz \<longrightarrow> nc \<in> dom (cells s) \<and> next_chunk nc \<in> dom (cells s)" "next_chunk a < nc"
    and slot: "pre \<noteq> [] \<longrightarrow> l = next_chunk (fst (last pre)) \<and> l \<in> dom (cells s) \<and> l \<notin> {a, next_chunk a} \<and>
      (bs + cn \<noteq> sz \<longrightarrow> l \<notin> {nc, next_chunk nc})"
    and q: "q = (if bs + cn = sz then nx else Addr nc)" and q': "q' = (if es \<le> bs then Addr a else q)"
  shows "\<exists>s'. take_from_chunk s p es (slot_of pre) a bs count = Some (Addr (a + unat bs), s') \<and>
    mpools s' = (mpools s)(p \<mapsto> m\<lparr>chunk_list := if pre = [] then q' else chunk_list m\<rparr>) \<and>
    (pre \<noteq> [] \<longrightarrow> cells s' l = Some (CPtr q')) \<and>
    (es \<le> bs \<longrightarrow> cells s' a = Some (CSize bs) \<and> cells s' (next_chunk a) = Some (CPtr q)) \<and>
    (bs + cn \<noteq> sz \<longrightarrow> cells s' nc = Some (CSize (sz - (bs + cn))) \<and> cells s' (next_chunk nc) = Some (CPtr nx)) \<and>
    dom (cells s') = dom (cells s) \<and>
    (\<forall>x. x \<notin> {a, next_chunk a} \<and> (bs + cn \<noteq> sz \<longrightarrow> x \<notin> {nc, next_chunk nc}) \<and> (pre \<noteq> [] \<longrightarrow> x \<noteq> l) \<longrightarrow>
      cells s' x = cells s x)"
proof -
  have ne: "next_chunk a \<noteq> a" "next_chunk nc \<noteq> nc" "nc \<noteq> a" "nc \<noteq> next_chunk a" "next_chunk nc \<noteq> a"
      "next_chunk nc \<noteq> next_chunk a" using new(2) by (simp_all add: next_chunk_def)
  have sl: "next_chunk (fst (last pre)) = l" "l \<notin> {a, next_chunk a}" "\<exists>u. cells s l = Some u"
      "bs + cn \<noteq> sz \<longrightarrow> l \<notin> {nc, next_chunk nc}"
    if "pre \<noteq> []" using mp [OF slot that] by blast+
  note E = m hd q q' ne [symmetric] nc [symmetric] cn [symmetric] take_from_chunk_def pool_op_defs store_chunk_slot_def load_slot_def slot_of_def
  show ?thesis
  proof (cases "pre = []"; cases "bs + cn = sz"; cases "es \<le> bs")
    assume "pre = []" "bs + cn = sz" "es \<le> bs"
    then show ?thesis using hd ne by (auto simp: E)
  next
    assume "pre = []" "bs + cn = sz" "\<not> es \<le> bs"
    then show ?thesis using hd ne by (auto simp: E)
  next
    assume c: "pre = []" "bs + cn \<noteq> sz" "es \<le> bs"
    obtain v w where "cells s nc = Some v" "cells s (next_chunk nc) = Some w" using new(1) c by auto
    then show ?thesis using c hd ne by (auto simp: E)
  next
    assume c: "pre = []" "bs + cn \<noteq> sz" "\<not> es \<le> bs"
    obtain v w where "cells s nc = Some v" "cells s (next_chunk nc) = Some w" using new(1) c by auto
    then show ?thesis using c hd ne by (auto simp: E)
  next
    assume c: "pre \<noteq> []" "bs + cn = sz" "es \<le> bs"
    obtain u where "cells s l = Some u" "next_chunk (fst (last pre)) = l" "l \<notin> {a, next_chunk a}"
      using sl c(1) by blast
    then show ?thesis using c hd ne by (auto simp: E)
  next
    assume c: "pre \<noteq> []" "bs + cn = sz" "\<not> es \<le> bs"
    obtain u where "cells s l = Some u" "next_chunk (fst (last pre)) = l" "l \<notin> {a, next_chunk a}"
      using sl c(1) by blast
    then show ?thesis using c hd ne by (auto simp: E)
  next
    assume c: "pre \<noteq> []" "bs + cn \<noteq> sz" "es \<le> bs"
    obtain v w where "cells s nc = Some v" "cells s (next_chunk nc) = Some w" using new(1) c by auto
    moreover obtain u where "cells s l = Some u" "next_chunk (fst (last pre)) = l" "l \<notin> {a, next_chunk a, nc, next_chunk nc}"
      using sl [OF c(1)] c(2) by blast
    ultimately show ?thesis using c hd ne by (auto simp: E)
  next
    assume c: "pre \<noteq> []" "bs + cn \<noteq> sz" "\<not> es \<le> bs"
    obtain v w where "cells s nc = Some v" "cells s (next_chunk nc) = Some w" using new(1) c by auto
    moreover obtain u where "cells s l = Some u" "next_chunk (fst (last pre)) = l" "l \<notin> {a, next_chunk a, nc, next_chunk nc}"
      using sl [OF c(1)] c(2) by blast
    ultimately show ?thesis using c hd ne by (auto simp: E)
  qed
qed

abbreviation creg :: "nat \<times> u64 \<Rightarrow> nat \<times> nat" where
  "creg \<equiv> \<lambda>(a, sz). (a, unat sz)"

lemma seg_redirect:
  assumes sg: "seg c h pre q0" and pre: "pre \<noteq> []" and l: "l = next_chunk (fst (last pre))"
    and dj: "disj_regs (map creg pre)" and R: "\<forall>r\<in>set (map creg pre). region_ok c n r" "16 \<le> n"
    and c': "c' l = Some (CPtr q')" "\<And>x. x \<in> iv_area (map creg pre) \<Longrightarrow> x \<noteq> l \<Longrightarrow> c' x = c x"
  shows "seg c' h pre q'"
proof -
  obtain ps b z where ps: "pre = ps @ [(b, z)]" using pre by (metis append_butlast_last_id surj_pair)
  have lb: "l = next_chunk b" using l ps by simp
  have dl: "iv (y, unat w) \<inter> iv (b, unat z) = {}" if "(y, w) \<in> set ps" for y w
    using dj that unfolding ps by (force simp: disj_regs_append iv_area_def)
  have cl: "x \<in> iv (x, unat w)" "next_chunk x \<in> iv (x, unat w)" "iv (x, unat w) \<subseteq> iv_area (map creg pre)"
    if "(x, w) \<in> set pre" for x w
  proof -
    have "creg (x, w) \<in> set (map creg pre)" unfolding set_map using that by (rule imageI)
    then have r: "(x, unat w) \<in> set (map creg pre)" by simp
    note rc = region_cells [OF bspec [OF R(1) r] R(2)]
    show "x \<in> iv (x, unat w)" "next_chunk x \<in> iv (x, unat w)" by (rule rc(1), rule rc(2))
    show "iv (x, unat w) \<subseteq> iv_area (map creg pre)" using r unfolding iv_area_def by (rule UN_upper)
  qed
  have "(b, z) \<in> set pre" by (simp add: ps)
  then have lm: "l \<in> iv (b, unat z)" unfolding lb by (rule cl(2))
  have apart: "y \<noteq> l" if "(x, w) \<in> set ps" "y \<in> iv (x, unat w)" for x w y
    using dl [OF that(1)] that(2) lm by auto
  show ?thesis
  proof (rule seg_store [OF sg pre])
    show "c' (next_chunk (fst (last pre))) = Some (CPtr q')" using c'(1) l by simp
    show "c' x = c x" if "(x, w) \<in> set pre" for x w
    proof (rule c'(2))
      show "x \<in> iv_area (map creg pre)" using cl [OF that] by blast
      show "x \<noteq> l"
      proof (cases "(x, w) \<in> set ps")
        case True
        then show ?thesis by (rule apart [OF _ cl(1) [OF that]])
      next
        case False
        then have "x = b" using that ps by auto
        then show ?thesis using lb by (simp add: next_chunk_def)
      qed
    qed
    show "c' (next_chunk x) = c (next_chunk x)" if "(x, w) \<in> set (butlast pre)" for x w
    proof (rule c'(2))
      have x: "(x, w) \<in> set ps" "(x, w) \<in> set pre" using that ps by auto
      show "next_chunk x \<in> iv_area (map creg pre)" using cl [OF x(2)] by blast
      show "next_chunk x \<noteq> l" by (rule apart [OF x(1) cl(2) [OF x(2)]])
    qed
  qed
qed

text \<open>The chunks that replace the chunk \<open>(a, sz)\<close> when \<open>cn\<close> bytes are taken \<open>bs\<close> bytes into it.\<close>

definition rest_chunks :: "u64 \<Rightarrow> nat \<Rightarrow> u64 \<Rightarrow> u64 \<Rightarrow> u64 \<Rightarrow> (nat \<times> u64) list" where
  "rest_chunks es a sz bs cn =
     (if es \<le> bs then [(a, bs)] else []) @
     (if bs + cn = sz then [] else [(a + unat bs + unat cn, sz - (bs + cn))])"

lemma rest_chunks_area:
  assumes n: "n = unat es" "16 \<le> n" and ra: "region_ok c n (a, unat sz)"
    and bs: "n dvd unat bs" and cn: "n dvd unat cn" "unat (bs + cn) = unat bs + unat cn" "bs + cn \<le> sz" "0 < unat cn"
  shows "iv (a, unat sz) = iv (a + unat bs, unat cn) \<union> iv_area (map creg (rest_chunks es a sz bs cn))"
    "iv (a + unat bs, unat cn) \<inter> iv_area (map creg (rest_chunks es a sz bs cn)) = {}"
    "disj_regs (map creg (rest_chunks es a sz bs cn))"
    "\<forall>r\<in>set (map creg (rest_chunks es a sz bs cn)). region_ok c n r"
    "bs + cn \<noteq> sz \<Longrightarrow> region_ok c n (a + unat bs + unat cn, unat (sz - (bs + cn)))"
proof -
  have le: "unat bs + unat cn \<le> unat sz" using cn(2,3) by (simp add: word_le_nat_alt)
  have us: "unat (sz - (bs + cn)) = unat sz - (unat bs + unat cn)" using unat_minus [OF cn(3)] cn(2) by simp
  have b: "es \<le> bs \<longleftrightarrow> unat bs \<noteq> 0" using bs n by (auto simp: word_le_nat_alt dest: dvd_imp_le)
  have e: "bs + cn = sz \<longleftrightarrow> unat sz = unat bs + unat cn" using cn(2) by (metis word_unat_eq_iff)
  have d: "n dvd a" "n dvd unat sz" "iv (a, unat sz) \<subseteq> dom c" using ra by (auto simp: region_ok_def)
  have dd: "n dvd a + unat bs + unat cn" "n dvd unat sz - (unat bs + unat cn)"
    using d bs cn(1) by (auto intro: dvd_diff_nat)
  have s1: "iv (a + unat bs + unat cn, unat sz - (unat bs + unat cn)) \<subseteq> iv (a, unat sz)" "iv (a, unat bs) \<subseteq> iv (a, unat sz)"
    using le by (auto simp: iv.simps)
  show g5: "bs + cn \<noteq> sz \<Longrightarrow> region_ok c n (a + unat bs + unat cn, unat (sz - (bs + cn)))"
    using dd s1(1) d(3) e le us by (auto simp: region_ok_def)
  show "iv (a, unat sz) = iv (a + unat bs, unat cn) \<union> iv_area (map creg (rest_chunks es a sz bs cn))"
    "iv (a + unat bs, unat cn) \<inter> iv_area (map creg (rest_chunks es a sz bs cn)) = {}"
    "disj_regs (map creg (rest_chunks es a sz bs cn))"
    using le us b e by (auto simp: rest_chunks_def iv.simps)
  have "region_ok c n (a, unat bs)" if "es \<le> bs" using that b bs d s1(2) by (auto simp: region_ok_def)
  then show "\<forall>r\<in>set (map creg (rest_chunks es a sz bs cn)). region_ok c n r"
    using g5 by (auto simp: rest_chunks_def)
qed

text \<open>Taking a block from the chunk \<open>(a, sz)\<close> of the list.\<close>

lemma take_rep:
  assumes m: "mpools s p = Some ml" "ml = m\<lparr>mp_lock := lck\<rparr>" and r: "pool_rep (cells s) m (pre @ (a, sz) # post) xs"
    and n: "n = unat (entry_size m)" and bs: "n dvd unat bs" and cn: "cn = count * entry_size m" "n dvd unat cn"
      "unat (bs + cn) = unat bs + unat cn" "bs + cn \<le> sz" "0 < unat cn"
  shows "\<exists>s' h. take_from_chunk s p (entry_size m) (slot_of pre) a bs count = Some (Addr (a + unat bs), s') \<and>
    mpools s' = (mpools s)(p \<mapsto> ml\<lparr>chunk_list := h\<rparr>) \<and>
    pool_rep (cells s') (m\<lparr>chunk_list := h\<rparr>) (pre @ rest_chunks (entry_size m) a sz bs cn @ post) xs \<and>
    dom (cells s') = dom (cells s) \<and> (\<forall>x. x \<notin> free_area m (pre @ (a, sz) # post) xs \<longrightarrow> cells s' x = cells s x)"
proof -
  note D = pool_repD [OF r]
  let ?es = "entry_size m" and ?c = "cells s" and ?nc = "a + unat bs + unat cn"
  let ?rest = "rest_chunks ?es a sz bs cn"
  have R: "regs ?es (pre @ (a, sz) # post) xs = map creg pre @ (a, unat sz) # regs ?es post xs" by (simp add: regs_append)
  note D5 = D(5) [unfolded R] and D6 = D(6) [unfolded R]
  have n16: "16 \<le> n" using D(2) n by simp
  have ra: "region_ok ?c n (a, unat sz)" using D6 n by simp
  note A = rest_chunks_area [OF n n16 ra bs cn(2-5)]
  note ac = region_cells [OF ra n16]
  obtain q0 nx where ch: "seg ?c (chunk_list m) pre q0" "q0 = Addr a" "?c a = Some (CSize sz)"
    "?c (next_chunk a) = Some (CPtr nx)" "chunks_at ?c nx post" using D(3) by (auto simp: chunks_at_append)
  have ncn: "next_chunk a < ?nc" using cn(2,5) n16 by (auto simp: next_chunk_def dest: dvd_imp_le)
  have nca: "?nc \<in> iv (a, unat sz)" "next_chunk ?nc \<in> iv (a, unat sz)" "?nc \<in> dom ?c" "next_chunk ?nc \<in> dom ?c"
    if "bs + cn \<noteq> sz"
  proof -
    note c5 = region_cells [OF A(5) [OF that] n16]
    have "iv (?nc, unat (sz - (bs + cn))) \<subseteq> iv (a, unat sz)" unfolding A(1) using that by (auto simp: rest_chunks_def)
    then show "?nc \<in> iv (a, unat sz)" "next_chunk ?nc \<in> iv (a, unat sz)" "?nc \<in> dom ?c" "next_chunk ?nc \<in> dom ?c"
      using c5 by blast+
  qed
  have dj: "iv_area (map creg pre) \<inter> iv (a, unat sz) = {}" "iv_area (map creg pre) \<inter> iv_area (regs ?es post xs) = {}"
    "iv (a, unat sz) \<inter> iv_area (regs ?es post xs) = {}" "disj_regs (map creg pre)" "disj_regs (regs ?es post xs)"
    using D5 by (auto simp: disj_regs_append)
  define l where "l = next_chunk (fst (last pre))"
  have la: "l \<in> iv_area (map creg pre)" "l \<in> dom ?c" if ne: "pre \<noteq> []"
  proof -
    have "creg (last pre) \<in> set (map creg pre)" using ne by simp
    then have lr: "(fst (last pre), unat (snd (last pre))) \<in> set (map creg pre)" by (simp add: case_prod_beta)
    then have "region_ok ?c n (fst (last pre), unat (snd (last pre)))" using D6 n by simp
    note lc = region_cells [OF this n16]
    show "l \<in> iv_area (map creg pre)" unfolding l_def iv_area_def using lr lc(2) by blast
    show "l \<in> dom ?c" unfolding l_def by (rule lc(4))
  qed
  let ?q = "if bs + cn = sz then nx else Addr ?nc" let ?q' = "if ?es \<le> bs then Addr a else ?q"
  have lnot: "pre \<noteq> [] \<longrightarrow> l = next_chunk (fst (last pre)) \<and> l \<in> dom ?c \<and> l \<notin> {a, next_chunk a} \<and>
      (bs + cn \<noteq> sz \<longrightarrow> l \<notin> {?nc, next_chunk ?nc})"
  proof
    assume ne: "pre \<noteq> []"
    have "l \<notin> iv (a, unat sz)" using la(1) [OF ne] dj(1) by blast
    then show "l = next_chunk (fst (last pre)) \<and> l \<in> dom ?c \<and> l \<notin> {a, next_chunk a} \<and>
        (bs + cn \<noteq> sz \<longrightarrow> l \<notin> {?nc, next_chunk ?nc})"
      using la(2) [OF ne] ac(1,2) nca(1,2) l_def by blast
  qed
  have new: "bs + cn \<noteq> sz \<longrightarrow> ?nc \<in> dom ?c \<and> next_chunk ?nc \<in> dom ?c" using nca(3,4) by blast
  have cl: "chunk_list ml = chunk_list m" using m(2) by simp
  obtain s' where s': "take_from_chunk s p ?es (slot_of pre) a bs count = Some (Addr (a + unat bs), s')"
    "mpools s' = (mpools s)(p \<mapsto> ml\<lparr>chunk_list := if pre = [] then ?q' else chunk_list ml\<rparr>)"
    "pre \<noteq> [] \<longrightarrow> cells s' l = Some (CPtr ?q')"
    "?es \<le> bs \<longrightarrow> cells s' a = Some (CSize bs) \<and> cells s' (next_chunk a) = Some (CPtr ?q)"
    "bs + cn \<noteq> sz \<longrightarrow> cells s' ?nc = Some (CSize (sz - (bs + cn))) \<and> cells s' (next_chunk ?nc) = Some (CPtr nx)"
    "dom (cells s') = dom ?c"
    "\<forall>x. x \<notin> {a, next_chunk a} \<and> (bs + cn \<noteq> sz \<longrightarrow> x \<notin> {?nc, next_chunk ?nc}) \<and> (pre \<noteq> [] \<longrightarrow> x \<noteq> l) \<longrightarrow> cells s' x = ?c x"
    using take_from_chunk_ok [OF m(1) ch(3,4) cn(1) refl new ncn lnot refl refl] by (elim exE conjE) (rule that)
  define h where "h = (if pre = [] then ?q' else chunk_list m)"
  have out: "cells s' x = ?c x" if "x \<notin> iv (a, unat sz)" "pre \<noteq> [] \<Longrightarrow> x \<noteq> l" for x
  proof (rule mp [OF spec [OF s'(7)]], intro conjI impI)
    show "x \<notin> {a, next_chunk a}" using that(1) ac(1,2) by auto
    show "x \<notin> {?nc, next_chunk ?nc}" if "bs + cn \<noteq> sz" using \<open>x \<notin> iv (a, unat sz)\<close> nca(1,2) [OF that] by auto
    show "x \<noteq> l" if "pre \<noteq> []" using \<open>pre \<noteq> [] \<Longrightarrow> x \<noteq> l\<close> that by blast
  qed
  have fp: "cells s' x = ?c x" if "x \<in> iv_area (regs ?es post xs)" for x
    using that dj la by (intro out) blast+
  have Rp: "\<forall>r\<in>set (regs ?es post xs). region_ok ?c n r" using D6 n by simp
  have post: "chunks_at (cells s') nx post" using ch(5) lists_frame(1) [OF Rp n16] fp by blast
  have es: "entries_at (cells s') (entry_list m) xs" using D(4) lists_frame(2) [OF Rp n16] fp by blast
  have mid: "chunks_at (cells s') ?q' (?rest @ post)"
    using post s'(4,5) by (auto simp: rest_chunks_def)
  have "seg (cells s') h pre ?q'"
  proof (cases "pre = []")
    case False
    have "seg (cells s') (chunk_list m) pre ?q'"
    proof (rule seg_redirect [OF ch(1) False l_def dj(4) _ n16])
      show "\<forall>r\<in>set (map creg pre). region_ok ?c n r" using D6 n by simp
      show "cells s' l = Some (CPtr ?q')" using s'(3) False by blast
      show "cells s' x = ?c x" if "x \<in> iv_area (map creg pre)" "x \<noteq> l" for x
        using that dj(1) by (intro out) blast+
    qed
    then show ?thesis using False by (simp add: h_def)
  qed (simp add: h_def)
  with mid have chn: "chunks_at (cells s') h (pre @ ?rest @ post)" by (auto simp: chunks_at_append)
  have R': "regs ?es (pre @ ?rest @ post) xs = map creg pre @ map creg ?rest @ regs ?es post xs"
    by (simp add: regs_append)
  have sub: "iv_area (map creg ?rest) \<subseteq> iv (a, unat sz)" using A(1) by blast
  have "disj_regs (regs ?es (pre @ ?rest @ post) xs)"
    unfolding R' disj_regs_append area_simps using dj A(3) sub by blast
  moreover have "\<forall>r\<in>set (regs ?es (pre @ ?rest @ post) xs). region_ok (cells s') n r"
  proof
    fix r assume "r \<in> set (regs ?es (pre @ ?rest @ post) xs)"
    then consider "r \<in> set (map creg ?rest)" | "r \<in> set (map creg pre @ (a, unat sz) # regs ?es post xs)"
      unfolding R' set_append list.set(2) by blast
    then have "region_ok ?c n r" using A(4) D6 unfolding n by cases blast+
    then show "region_ok (cells s') n r" by (rule region_ok_dom) (simp add: s'(6))
  qed
  ultimately have "pool_rep (cells s') (m\<lparr>chunk_list := h\<rparr>) (pre @ ?rest @ post) xs"
    using D(1) n16 chn es n by (simp add: pool_rep_def)
  moreover have "\<forall>x. x \<notin> free_area m (pre @ (a, sz) # post) xs \<longrightarrow> cells s' x = ?c x"
    unfolding free_area_def R using la by (auto intro!: out)
  ultimately show ?thesis using s'(1,2,6) cl unfolding h_def by auto
qed

text \<open>What \<open>round_pointer_up\<close> is declared to do: the distance to the next aligned address.\<close>

definition rounds_up :: "(nat \<Rightarrow> u64 \<Rightarrow> u64) \<Rightarrow> bool" where
  "rounds_up rpu \<longleftrightarrow> (\<forall>a al. al \<noteq> 0 \<longrightarrow> rpu a al < al \<and> unat al dvd a + unat (rpu a al))"

lemma unat_mult_small: "unat a * unat b < 2 ^ 64 \<Longrightarrow> unat (a * b) = unat a * unat (b :: u64)"
  by (simp add: unat_word_ariths)

lemma unat_plus_small: "unat a + unat b < 2 ^ 64 \<Longrightarrow> unat (a + b) = unat a + unat (b :: u64)"
  by (simp add: unat_word_ariths)

lemma contiguous_no_fallback_ok:
  assumes rpu: "rounds_up rpu" and m: "mpools s p = Some m" and r: "pool_rep (cells s) m cs xs"
    and n: "n = unat (entry_size m)" and ca: "count \<noteq> 0" "al \<noteq> 0" "unat al * n + unat count * n < 2 ^ 64"
  shows "(\<forall>(a, sz)\<in>set cs. unat sz < unat (rpu a (al * entry_size m)) + unat count * n) \<and>
      mpool_alloc_contiguous_no_fallback rpu s p count al = Some (NULL, s) \<or>
    (\<exists>start s' m' cs'. mpool_alloc_contiguous_no_fallback rpu s p count al = Some (Addr start, s') \<and>
      mpools s' = (mpools s)(p \<mapsto> m') \<and> entry_size m' = entry_size m \<and> fallback m' = fallback m \<and>
      pool_rep (cells s') m' cs' xs \<and> unat al * n dvd start \<and>
      free_area m cs xs = iv (start, unat count * n) \<union> free_area m' cs' xs \<and>
      iv (start, unat count * n) \<inter> free_area m' cs' xs = {} \<and> dom (cells s') = dom (cells s) \<and>
      (\<forall>x. x \<notin> free_area m cs xs \<longrightarrow> cells s' x = cells s x))"
proof -
  note D = pool_repD [OF r]
  let ?es = "entry_size m" let ?al = "al * ?es" and ?cn = "count * ?es" and ?s = "locked s p m"
    and ?ml = "m\<lparr>mp_lock := (mp_lock m)\<lparr>lock := True\<rparr>\<rparr>"
  have ua: "unat ?al = unat al * n" and uc: "unat ?cn = unat count * n"
    using ca(3) unfolding n by (auto intro!: unat_mult_small)
  have pos: "0 < n" "0 < unat count" "0 < unat al" using D(2) n ca by (auto simp: unat_gt_0)
  have al0: "?al \<noteq> 0" using ua pos by (auto simp: unat_eq_0 [symmetric])
  have ms: "mpools ?s p = Some ?ml" "cells ?s = cells s" by (simp_all add: locked_def)
  have ch: "chunks_at (cells ?s) (chunk_list ?ml) ([] @ cs)" using D(3) ms(2) by simp
  have st: "mpool_alloc_contiguous_no_fallback rpu s p count al =
      contiguous_loop rpu ?s p ?es count ?al (slot_of []) \<bind> (\<lambda>(ret, s). pool_unlock s p \<bind> (\<lambda>s. Some (ret, s)))"
    using m D(1) by (simp add: mpool_alloc_contiguous_no_fallback_def load_def pool_lock_ok slot_of_def)
  have fits: "rpu a ?al + ?cn \<le> sz \<longleftrightarrow> unat (rpu a ?al) + unat count * n \<le> unat sz"
    "unat (rpu a ?al + ?cn) = unat (rpu a ?al) + unat ?cn" for a sz
  proof -
    have "unat (rpu a ?al) < unat al * n" using rpu al0 ua unfolding rounds_up_def by (metis word_less_nat_alt)
    then have "unat (rpu a ?al) + unat ?cn < 2 ^ 64" using ca(3) uc by linarith
    then show u: "unat (rpu a ?al + ?cn) = unat (rpu a ?al) + unat ?cn" by (rule unat_plus_small)
    show "rpu a ?al + ?cn \<le> sz \<longleftrightarrow> unat (rpu a ?al) + unat count * n \<le> unat sz"
      unfolding word_le_nat_alt u uc ..
  qed
  from contiguous_loop_ok [OF ms(1) ch, of rpu ?al count ?es] show ?thesis
  proof (elim disjE exE conjE)
    assume a: "\<forall>(a, sz)\<in>set cs. \<not> rpu a ?al + ?cn \<le> sz" "contiguous_loop rpu ?s p ?es count ?al (slot_of []) = Some (NULL, ?s)"
    have "pool_unlock ?s p = Some s" using m D(1) by (simp add: pool_op_defs fun_upd_idem)
    moreover have "\<forall>(a, sz)\<in>set cs. unat sz < unat (rpu a ?al) + unat count * n"
      using a(1) unfolding fits(1) by (auto simp: not_le)
    ultimately show ?thesis using st a(2) by simp
  next
    fix pre a sz post
    assume cs: "cs = pre @ (a, sz) # post" and fit: "rpu a ?al + ?cn \<le> sz"
      and lp: "contiguous_loop rpu ?s p ?es count ?al (slot_of []) = take_from_chunk ?s p ?es (slot_of ([] @ pre)) a (rpu a ?al) count"
    let ?bs = "rpu a ?al"
    have dv: "unat al * n dvd a + unat ?bs" using rpu al0 ua unfolding rounds_up_def by metis
    have ra: "region_ok (cells s) n (a, unat sz)" using D(6) n cs by (simp add: regs_append)
    have "n dvd a + unat ?bs" using dv by (metis dvd_mult_right)
    then have bs: "n dvd unat ?bs" using ra by (auto simp: region_ok_def dvd_add_right_iff)
    have cnd: "n dvd unat ?cn" "0 < unat ?cn" using uc pos by simp_all
    have r1: "pool_rep (cells ?s) m (pre @ (a, sz) # post) xs" using r ms(2) cs by simp
    obtain s1 h where s1: "take_from_chunk ?s p ?es (slot_of pre) a ?bs count = Some (Addr (a + unat ?bs), s1)"
      "mpools s1 = (mpools ?s)(p \<mapsto> ?ml\<lparr>chunk_list := h\<rparr>)"
      "pool_rep (cells s1) (m\<lparr>chunk_list := h\<rparr>) (pre @ rest_chunks ?es a sz ?bs ?cn @ post) xs"
      "dom (cells s1) = dom (cells s)" "\<forall>x. x \<notin> free_area m cs xs \<longrightarrow> cells s1 x = cells s x"
      using take_rep [OF ms(1) refl r1 n bs refl cnd(1) fits(2) fit cnd(2)] cs ms(2) by auto
    let ?m = "m\<lparr>chunk_list := h\<rparr>" and ?cs = "pre @ rest_chunks ?es a sz ?bs ?cn @ post"
    let ?s' = "s1\<lparr>mpools := (mpools s)(p \<mapsto> ?m)\<rparr>"
    have "pool_unlock s1 p = Some ?s'" using s1(2) D(1) by (simp add: pool_op_defs)
    then have "mpool_alloc_contiguous_no_fallback rpu s p count al = Some (Addr (a + unat ?bs), ?s')"
      using st lp s1(1) by simp
    moreover note A = rest_chunks_area [OF n _ ra bs cnd(1) fits(2) fit cnd(2), OF D(2) [folded n]]
    have dj: "disj_regs (map creg pre @ (a, unat sz) # regs ?es post xs)" using D(5) cs by (simp add: regs_append)
    have fa: "free_area m cs xs = iv (a, unat sz) \<union> iv_area (map creg pre) \<union> iv_area (regs ?es post xs)"
      "free_area ?m ?cs xs = iv_area (map creg (rest_chunks ?es a sz ?bs ?cn)) \<union> iv_area (map creg pre) \<union> iv_area (regs ?es post xs)"
      using cs by (auto simp: free_area_def regs_append)
    have "free_area m cs xs = iv (a + unat ?bs, unat count * n) \<union> free_area ?m ?cs xs"
      unfolding fa A(1) uc by blast
    moreover have "iv (a + unat ?bs, unat count * n) \<inter> free_area ?m ?cs xs = {}"
    proof -
      have "iv (a + unat ?bs, unat count * n) \<subseteq> iv (a, unat sz)" using A(1) uc by auto
      then show ?thesis using dj A(2) uc unfolding fa by (auto simp: disj_regs_append)
    qed
    ultimately show ?thesis using s1(3-5) dv
      by (intro disjI2 exI [of _ "a + unat ?bs"] exI [of _ ?s'] exI [of _ ?m] exI [of _ ?cs]) simp
  qed
qed

section \<open>Chains of pools\<close>

fun pools_ok :: "mstate \<Rightarrow> nat ptr \<Rightarrow> (nat \<times> (nat \<times> u64) list \<times> nat list) list \<Rightarrow> bool" where
  "pools_ok s q [] \<longleftrightarrow> q = NULL"
| "pools_ok s q ((p, cs, xs) # ps) \<longleftrightarrow> q = Addr p \<and>
     (\<exists>m. mpools s p = Some m \<and> pool_rep (cells s) m cs xs \<and> pools_ok s (fallback m) ps)"

definition empty_pool :: "nat \<times> (nat \<times> u64) list \<times> nat list \<Rightarrow> bool" where
  "empty_pool r \<longleftrightarrow> snd r = ([], [])"

lemma alloc_empty:
  assumes "mpools s p = Some m" "pool_rep (cells s) m [] []"
  shows "mpool_alloc_no_fallback s p = Some (NULL, s)"
  using assms pool_repD [OF assms(2)]
  by (simp add: mpool_alloc_no_fallback_def pool_lock_ok pool_op_defs fun_upd_idem)

lemma alloc_nonempty:
  assumes "mpools s p = Some m" "pool_rep (cells s) m cs xs" "\<not> empty_pool (p, cs, xs)"
  shows "\<exists>a c m' cs' xs'. mpool_alloc_no_fallback s p = Some (Addr a, s\<lparr>mpools := (mpools s)(p \<mapsto> m'), cells := c\<rparr>) \<and>
    pool_rep c m' cs' xs' \<and> entry_size m' = entry_size m \<and> fallback m' = fallback m \<and> unat (entry_size m) dvd a \<and>
    free_area m cs xs = iv (a, unat (entry_size m)) \<union> free_area m' cs' xs' \<and>
    iv (a, unat (entry_size m)) \<inter> free_area m' cs' xs' = {} \<and> dom c = dom (cells s) \<and>
    (\<forall>x. x \<notin> free_area m cs xs \<longrightarrow> c x = cells s x)"
proof -
  obtain ret cs' xs' where al: "alloc_lists (entry_size m) cs xs = (ret, cs', xs')" by (metis prod_cases3)
  note A = alloc_lists_area [OF assms(2) al]
  obtain a where a: "ret = Addr a" using A assms(3) by (cases ret) (auto simp: empty_pool_def)
  obtain c m' where c: "mpool_alloc_no_fallback s p = Some (ret, s\<lparr>mpools := (mpools s)(p \<mapsto> m'), cells := c\<rparr>)"
    "pool_rep c m' cs' xs'" "entry_size m' = entry_size m" "fallback m' = fallback m" "dom c = dom (cells s)"
    "\<forall>x. x \<notin> free_area m cs' xs' \<longrightarrow> c x = cells s x"
    using alloc_no_fallback_ok [OF assms(1,2) al] by blast
  have fm: "free_area m' cs' xs' = free_area m cs' xs'" using c(3) by (simp add: free_area_def)
  have B: "unat (entry_size m) dvd a" "free_area m cs xs = iv (a, unat (entry_size m)) \<union> free_area m cs' xs'"
    "iv (a, unat (entry_size m)) \<inter> free_area m cs' xs' = {}" using A a by (auto simp: region_ok_def)
  show ?thesis using c B a by (intro exI conjI) (assumption | simp add: fm | blast)+
qed

lemma alloc_loop_ok:
  assumes "pools_ok s q ps"
  shows "(\<forall>r\<in>set ps. empty_pool r) \<and> alloc_loop s q = Some (NULL, s) \<or>
    (\<exists>pre p cs xs post m. ps = pre @ (p, cs, xs) # post \<and> (\<forall>r\<in>set pre. empty_pool r) \<and> \<not> empty_pool (p, cs, xs) \<and>
      mpools s p = Some m \<and> pool_rep (cells s) m cs xs \<and> alloc_loop s q = mpool_alloc_no_fallback s p)"
  using assms
proof (induction ps arbitrary: q)
  case Nil
  then show ?case by (subst (1 2) alloc_loop.simps) simp
next
  case (Cons r ps)
  obtain p cs xs where r: "r = (p, cs, xs)" by (cases r) auto
  then obtain m where m: "q = Addr p" "mpools s p = Some m" "pool_rep (cells s) m cs xs" "pools_ok s (fallback m) ps"
    using Cons.prems by auto
  show ?case
  proof (cases "empty_pool r")
    case True
    then have e: "cs = []" "xs = []" using r by (auto simp: empty_pool_def)
    have st: "alloc_loop s q = alloc_loop s (fallback m)"
      using alloc_empty [OF m(2)] m(3) e m(1,2) by (subst alloc_loop.simps) (simp add: load_def)
    from Cons.IH [OF m(4)] show ?thesis
    proof (elim disjE exE conjE)
      assume "\<forall>r\<in>set ps. empty_pool r" "alloc_loop s (fallback m) = Some (NULL, s)"
      then show ?thesis using True st by simp
    next
      fix pre p' cs' xs' post m'
      assume "ps = pre @ (p', cs', xs') # post" "\<forall>r\<in>set pre. empty_pool r" "\<not> empty_pool (p', cs', xs')"
        "mpools s p' = Some m'" "pool_rep (cells s) m' cs' xs'" "alloc_loop s (fallback m) = mpool_alloc_no_fallback s p'"
      then show ?thesis using True st
        by (intro disjI2 exI [of _ "r # pre"] exI [of _ p'] exI [of _ cs'] exI [of _ xs'] exI [of _ post] exI [of _ m']) simp
    qed
  next
    case False
    obtain a s' where "mpool_alloc_no_fallback s p = Some (Addr a, s')"
      using alloc_nonempty [OF m(2,3)] False r by blast
    then have "alloc_loop s q = mpool_alloc_no_fallback s p" using m(1) by (subst alloc_loop.simps) simp
    then show ?thesis using False r m(2,3)
      by (intro disjI2 exI [of _ "[]"] exI [of _ p] exI [of _ cs] exI [of _ xs] exI [of _ ps] exI [of _ m]) simp
  qed
qed

lemma mpool_alloc_loop: "mpool_alloc s p = alloc_loop s (Addr p)"
  by (subst alloc_loop.simps) (simp add: mpool_alloc_def)

section \<open>Giving memory to the fallback pool\<close>

lemma fini_entries_ok:
  assumes "mpools s fb = Some f" "pool_rep (cells s) f ds ys" "entries_at (cells s) q xs" and n: "n = unat (entry_size f)"
    and "\<forall>e\<in>set xs. region_ok (cells s) n (e, n)" "disj_regs (map (\<lambda>e. (e, n)) xs)"
    and "iv_area (map (\<lambda>e. (e, n)) xs) \<inter> free_area f ds ys = {}"
  shows "\<exists>s' f'. fini_entries s fb q = Some s' \<and> mpools s' = (mpools s)(fb \<mapsto> f') \<and> entry_size f' = entry_size f \<and>
    pool_rep (cells s') f' ds (rev xs @ ys) \<and> dom (cells s') = dom (cells s) \<and>
    (\<forall>x. x \<notin> iv_area (map (\<lambda>e. (e, n)) xs) \<longrightarrow> cells s' x = cells s x)"
  using assms(1-3,5-7) n
proof (induction xs arbitrary: s f ys q)
  case Nil
  then have "fini_entries s fb q = Some s" by (subst fini_entries.simps) simp
  then show ?case using Nil by (intro exI [of _ s] exI [of _ f]) (simp add: fun_upd_idem)
next
  case (Cons e xs)
  obtain q' where q': "q = Addr e" "cells s e = Some (CPtr q')" "entries_at (cells s) q' xs" using Cons.prems(3) by auto
  let ?c = "(cells s)(e \<mapsto> CPtr (entry_list f))" and ?f = "f\<lparr>entry_list := Addr e\<rparr>"
  let ?s = "s\<lparr>mpools := (mpools s)(fb \<mapsto> ?f), cells := ?c\<rparr>" and ?A = "\<lambda>xs. iv_area (map (\<lambda>e. (e, n)) xs)"
  have re: "region_ok (cells s) (unat (entry_size f)) (e, unat (entry_size f))"
    and de: "iv (e, unat (entry_size f)) \<inter> free_area f ds ys = {}" using Cons.prems(4,6,7) by auto
  have n16: "16 \<le> n" using pool_repD(2) [OF Cons.prems(2)] Cons.prems(7) by simp
  have ee: "e \<in> iv (e, n)" using region_cells(1) [OF re] n16 Cons.prems(7) by simp
  have fr: "mpool_free s fb e = Some ?s" "pool_rep ?c ?f ds (e # ys)"
    using mpool_free_ok [OF Cons.prems(1,2) re de] by auto
  have dom: "dom ?c = dom (cells s)" using q'(2) by auto
  have dx: "iv (e, n) \<inter> ?A xs = {}" "disj_regs (map (\<lambda>e. (e, n)) xs)" using Cons.prems(5) by auto
  have ok: "\<forall>y\<in>set xs. region_ok (cells ?s) n (y, n)"
  proof
    fix y assume "y \<in> set xs"
    then have "region_ok (cells s) n (y, n)" using Cons.prems(4) by simp
    then show "region_ok (cells ?s) n (y, n)" by (rule region_ok_dom) auto
  qed
  have en: "entries_at (cells ?s) q' xs"
  proof -
    have "y \<noteq> e" if "y \<in> set xs" for y
    proof -
      have "region_ok (cells s) n (y, n)" using Cons.prems(4) that by simp
      from region_cells(1) [OF this n16] have "y \<in> ?A xs" using that by (force simp: iv_area_def)
      then show ?thesis using dx(1) ee by blast
    qed
    then have "entries_at ?c q' xs = entries_at (cells s) q' xs" by (intro entries_at_cong) auto
    then show ?thesis using q'(3) by simp
  qed
  have fa: "?A xs \<inter> free_area ?f ds (e # ys) = {}"
    using Cons.prems(6,7) dx(1) by (auto simp: free_area_def regs_def)
  have s1: "mpools ?s fb = Some ?f" "pool_rep (cells ?s) ?f ds (e # ys)" "n = unat (entry_size ?f)"
    using fr(2) Cons.prems(7) by simp_all
  obtain s' f' where s': "fini_entries ?s fb q' = Some s'" "mpools s' = (mpools ?s)(fb \<mapsto> f')"
    "entry_size f' = entry_size ?f" "pool_rep (cells s') f' ds (rev xs @ e # ys)" "dom (cells s') = dom (cells ?s)"
    "\<forall>x. x \<notin> ?A xs \<longrightarrow> cells s' x = cells ?s x"
    using Cons.IH [OF s1(1,2) en ok dx(2) fa s1(3)] by blast
  have "fini_entries s fb q = Some s'"
    using q' fr(1) s'(1) by (subst fini_entries.simps) (simp add: read_ptr_def)
  then show ?case using s'(2-6) dom ee by (intro exI [of _ s'] exI [of _ f']) auto
qed

lemma fini_chunks_ok:
  assumes "mpools s fb = Some f" "pool_rep (cells s) f ds ys" "chunks_at (cells s) q cs" and n: "n = unat (entry_size f)"
    and "\<forall>r\<in>set (map creg cs). region_ok (cells s) n r" "disj_regs (map creg cs)"
    and "iv_area (map creg cs) \<inter> free_area f ds ys = {}"
  shows "\<exists>s' f'. fini_chunks s fb q = Some s' \<and> mpools s' = (mpools s)(fb \<mapsto> f') \<and> entry_size f' = entry_size f \<and>
    pool_rep (cells s') f' (rev cs @ ds) ys \<and> dom (cells s') = dom (cells s) \<and>
    (\<forall>x. x \<notin> iv_area (map creg cs) \<longrightarrow> cells s' x = cells s x)"
  using assms(1-3,5-7) n
proof (induction cs arbitrary: s f ds q)
  case Nil
  then have "fini_chunks s fb q = Some s" by (subst fini_chunks.simps) simp
  then show ?case using Nil by (intro exI [of _ s] exI [of _ f]) (simp add: fun_upd_idem)
next
  case (Cons r cs)
  obtain a sz where r: "r = (a, sz)" by (cases r)
  obtain q' where q': "q = Addr a" "cells s a = Some (CSize sz)" "cells s (next_chunk a) = Some (CPtr q')"
    "chunks_at (cells s) q' cs" using Cons.prems(3) r by auto
  have n16: "16 \<le> n" using pool_repD(2) [OF Cons.prems(2)] Cons.prems(7) by simp
  have ra: "region_ok (cells s) (unat (entry_size f)) (a, unat sz)" and da: "iv (a, unat sz) \<inter> free_area f ds ys = {}"
    using Cons.prems(4,6,7) r by auto
  have sz: "sz \<noteq> 0" using ra by (auto simp: region_ok_def)
  obtain c f1 where c: "mpool_add_chunk s fb a sz = Some (True, s\<lparr>mpools := (mpools s)(fb \<mapsto> f1), cells := c\<rparr>)"
    "f1 = f\<lparr>chunk_list := Addr a\<rparr>" "pool_rep c f1 ((a, sz) # ds) ys" "dom c = dom (cells s)"
    "\<forall>x. x \<notin> iv (a, unat sz) \<longrightarrow> c x = cells s x"
    using mpool_add_chunk_ok [OF Cons.prems(1,2) sz ra da] by blast
  let ?s = "s\<lparr>mpools := (mpools s)(fb \<mapsto> f1), cells := c\<rparr>"
  have dx: "iv (a, unat sz) \<inter> iv_area (map creg cs) = {}" "disj_regs (map creg cs)" using Cons.prems(5) r by auto
  have R: "\<forall>r\<in>set (regs (entry_size f) cs []). region_ok (cells s) n r" using Cons.prems(4) by (simp add: regs_def)
  have ok: "\<forall>r\<in>set (map creg cs). region_ok (cells ?s) n r"
  proof
    fix y assume "y \<in> set (map creg cs)"
    then have "region_ok (cells s) n y" using Cons.prems(4) by auto
    then show "region_ok (cells ?s) n y" by (rule region_ok_dom) (simp add: c(4))
  qed
  have ch: "chunks_at (cells ?s) q' cs"
  proof -
    have "chunks_at c q' cs = chunks_at (cells s) q' cs"
    proof (rule lists_frame(1) [OF R n16])
      fix x assume "x \<in> iv_area (regs (entry_size f) cs [])"
      then show "c x = cells s x" using dx(1) c(5) by (auto simp: regs_def)
    qed
    then show ?thesis using q'(4) by simp
  qed
  have fa: "iv_area (map creg cs) \<inter> free_area f1 ((a, sz) # ds) ys = {}"
    using Cons.prems(6) dx(1) c(2) by (auto simp: free_area_def)
  have s1: "mpools ?s fb = Some f1" "pool_rep (cells ?s) f1 ((a, sz) # ds) ys" "n = unat (entry_size f1)"
    using c(2,3) Cons.prems(7) by simp_all
  obtain s' f' where s': "fini_chunks ?s fb q' = Some s'" "mpools s' = (mpools ?s)(fb \<mapsto> f')"
    "entry_size f' = entry_size f1" "pool_rep (cells s') f' (rev cs @ (a, sz) # ds) ys" "dom (cells s') = dom (cells ?s)"
    "\<forall>x. x \<notin> iv_area (map creg cs) \<longrightarrow> cells s' x = cells ?s x"
    using Cons.IH [OF s1(1,2) ch ok dx(2) fa s1(3)] by blast
  have "fini_chunks s fb q = Some s'"
    using q' c(1) s'(1) by (subst fini_chunks.simps) (simp add: read_ptr_def read_size_def)
  then show ?case using s'(2-6) c(2,4,5) r by (intro exI [of _ s'] exI [of _ f']) auto
qed

section \<open>Initialisation\<close>

text \<open>A pool that is made from another takes over all of its memory and its fallback.\<close>

lemma mpool_init_from_ok:
  assumes "mpools s p = Some m0" "mpools s from = Some m" "pool_rep (cells s) m cs xs" "p \<noteq> from"
  shows "\<exists>s' m' f'. mpool_init_from s p from = Some s' \<and> cells s' = cells s \<and> mpools s' p = Some m' \<and>
    mpools s' from = Some f' \<and> pool_rep (cells s') m' cs xs \<and> pool_rep (cells s') f' [] [] \<and> fallback m' = fallback m"
proof -
  let ?m = "m0\<lparr>entry_size := entry_size m, mp_lock := sl_init (mp_lock m0), chunk_list := chunk_list m,
    entry_list := entry_list m, fallback := fallback m\<rparr>" and ?f = "m\<lparr>chunk_list := NULL, entry_list := NULL\<rparr>"
  let ?s = "s\<lparr>mpools := (mpools s)(p \<mapsto> ?m, from \<mapsto> ?f)\<rparr>"
  note D = pool_repD [OF assms(3)]
  have "mpool_init_from s p from = Some ?s"
    using assms D(1) by (simp add: mpool_init_from_def mpool_init_def pool_lock_def pool_op_defs fun_upd_twist)
  moreover have "pool_rep (cells ?s) ?m cs xs" using assms(3) by (simp add: pool_rep_def sl_init_def)
  moreover have "pool_rep (cells ?s) ?f [] []" using D(1,2) by (simp add: pool_rep_def)
  ultimately show ?thesis using assms(4) by (intro exI [of _ ?s] exI [of _ ?m] exI [of _ ?f]) simp
qed

lemma mpool_init_with_fallback_ok:
  assumes "mpools s p = Some m0" "mpools s fb = Some m" "pool_rep (cells s) m cs xs" "p \<noteq> fb"
  shows "\<exists>s' m'. mpool_init_with_fallback s p fb = Some s' \<and> cells s' = cells s \<and> mpools s' = (mpools s)(p \<mapsto> m') \<and>
    pool_rep (cells s') m' [] [] \<and> fallback m' = Addr fb \<and> entry_size m' = entry_size m"
proof -
  let ?m = "m0\<lparr>entry_size := entry_size m, chunk_list := NULL, entry_list := NULL, mp_lock := sl_init (mp_lock m0),
    fallback := Addr fb\<rparr>"
  have "mpool_init_with_fallback s p fb = Some (s\<lparr>mpools := (mpools s)(p \<mapsto> ?m)\<rparr>)"
    using assms by (simp add: mpool_init_with_fallback_def mpool_init_def pool_op_defs)
  then show ?thesis using pool_repD(2) [OF assms(3)]
    by (intro exI [of _ "s\<lparr>mpools := (mpools s)(p \<mapsto> ?m)\<rparr>"] exI [of _ ?m]) (simp add: pool_rep_def sl_init_def)
qed

section \<open>Properties\<close>

text \<open>
  \<open>mpool_alloc\<close> on a chain of pools linked by \<open>fallback\<close>: it returns null exactly when every
  pool of the chain is empty, and leaves everything as it was; otherwise the first pool that is
  not empty gives a block of its entry size, aligned to it, that was free and is not any more,
  and no cell outside of the free memory of that pool changes.
\<close>

theorem mpool_alloc_spec:
  assumes "pools_ok s (Addr p0) ps"
  shows "if \<forall>r\<in>set ps. empty_pool r then mpool_alloc s p0 = Some (NULL, s)
    else \<exists>pre p cs xs post m a c m' cs' xs'. ps = pre @ (p, cs, xs) # post \<and> (\<forall>r\<in>set pre. empty_pool r) \<and>
      mpools s p = Some m \<and>
      mpool_alloc s p0 = Some (Addr a, s\<lparr>mpools := (mpools s)(p \<mapsto> m'), cells := c\<rparr>) \<and>
      pool_rep c m' cs' xs' \<and> fallback m' = fallback m \<and> unat (entry_size m) dvd a \<and>
      free_area m cs xs = iv (a, unat (entry_size m)) \<union> free_area m' cs' xs' \<and>
      iv (a, unat (entry_size m)) \<inter> free_area m' cs' xs' = {} \<and>
      (\<forall>x. x \<notin> free_area m cs xs \<longrightarrow> c x = cells s x)"
proof (cases "\<forall>r\<in>set ps. empty_pool r")
  case True
  then show ?thesis using alloc_loop_ok [OF assms] by (auto simp: mpool_alloc_loop)
next
  case False
  then obtain pre p cs xs post m where p: "ps = pre @ (p, cs, xs) # post" "\<forall>r\<in>set pre. empty_pool r"
    "\<not> empty_pool (p, cs, xs)" "mpools s p = Some m" "pool_rep (cells s) m cs xs"
    "alloc_loop s (Addr p0) = mpool_alloc_no_fallback s p"
    using alloc_loop_ok [OF assms] by blast
  obtain a c m' cs' xs' where a: "mpool_alloc_no_fallback s p = Some (Addr a, s\<lparr>mpools := (mpools s)(p \<mapsto> m'), cells := c\<rparr>)"
    "pool_rep c m' cs' xs'" "fallback m' = fallback m" "unat (entry_size m) dvd a"
    "free_area m cs xs = iv (a, unat (entry_size m)) \<union> free_area m' cs' xs'"
    "iv (a, unat (entry_size m)) \<inter> free_area m' cs' xs' = {}" "\<forall>x. x \<notin> free_area m cs xs \<longrightarrow> c x = cells s x"
    using alloc_nonempty [OF p(4,5,3)] by (elim exE conjE) (rule that)
  have "mpool_alloc s p0 = Some (Addr a, s\<lparr>mpools := (mpools s)(p \<mapsto> m'), cells := c\<rparr>)"
    using a(1) p(6) by (simp add: mpool_alloc_loop)
  with p(1,2,4) a(2-7) show ?thesis unfolding if_not_P [OF False] by (intro exI conjI)
qed

text \<open>
  C9. \<open>mpool_alloc_contiguous_no_fallback\<close>, for a request that does not overflow: it fails only
  if no chunk has room for the block after rounding up, and changes nothing then; otherwise it
  returns a block of the requested size and alignment that was free in the pool, and exactly
  that block stops being free, whether the chunk is used up, cut at its front, at its end or
  in the middle.
\<close>

theorem mpool_alloc_contiguous_spec:
  assumes "rounds_up rpu" "mpools s p = Some m" "pool_rep (cells s) m cs xs" "n = unat (entry_size m)"
    and "count \<noteq> 0" "al \<noteq> 0" "unat al * n + unat count * n < 2 ^ 64"
  shows "(\<forall>(a, sz)\<in>set cs. unat sz < unat (rpu a (al * entry_size m)) + unat count * n) \<and>
      mpool_alloc_contiguous_no_fallback rpu s p count al = Some (NULL, s) \<or>
    (\<exists>start s' m' cs'. mpool_alloc_contiguous_no_fallback rpu s p count al = Some (Addr start, s') \<and>
      mpools s' = (mpools s)(p \<mapsto> m') \<and> entry_size m' = entry_size m \<and> fallback m' = fallback m \<and>
      pool_rep (cells s') m' cs' xs \<and> unat al * n dvd start \<and>
      free_area m cs xs = iv (start, unat count * n) \<union> free_area m' cs' xs \<and>
      iv (start, unat count * n) \<inter> free_area m' cs' xs = {} \<and> dom (cells s') = dom (cells s) \<and>
      (\<forall>x. x \<notin> free_area m cs xs \<longrightarrow> cells s' x = cells s x))"
  by (rule contiguous_no_fallback_ok [OF assms])

text \<open>
  \<open>mpool_fini\<close> loses no memory: the free memory of the fallback pool afterwards is its own and
  that of the finished pool, which is left empty and without fallback.
\<close>

theorem mpool_fini_conserves:
  assumes p: "mpools s p = Some m" "pool_rep (cells s) m cs xs" "fallback m = Addr fb" "fb \<noteq> p"
    and f: "mpools s fb = Some f" "pool_rep (cells s) f ds ys" "entry_size f = entry_size m"
    and dj: "free_area m cs xs \<inter> free_area f ds ys = {}"
  shows "\<exists>s' f' ds' ys'. mpool_fini s p = Some s' \<and> mpools s' fb = Some f' \<and> pool_rep (cells s') f' ds' ys' \<and>
    free_area f' ds' ys' = free_area f ds ys \<union> free_area m cs xs \<and>
    mpools s' p = Some (m\<lparr>chunk_list := NULL, entry_list := NULL, fallback := NULL\<rparr>)"
proof -
  note D = pool_repD [OF p(2)]
  let ?n = "unat (entry_size f)" and ?E = "map (\<lambda>e. (e, unat (entry_size m))) xs" and ?C = "map creg cs"
  have R: "regs (entry_size m) cs xs = ?C @ ?E" by (simp add: regs_def)
  have fm: "free_area m cs xs = iv_area ?C \<union> iv_area ?E" by (simp add: free_area_def R)
  have dr: "disj_regs ?C" "disj_regs ?E" "iv_area ?C \<inter> iv_area ?E = {}" using D(5) unfolding R by (auto simp: disj_regs_append)
  have ok: "\<forall>e\<in>set xs. region_ok (cells s) ?n (e, ?n)" using D(6) f(3) unfolding R by auto
  have de: "iv_area ?E \<inter> free_area f ds ys = {}" using dj fm by auto
  obtain s1 f1 where s1: "fini_entries s fb (entry_list m) = Some s1" "mpools s1 = (mpools s)(fb \<mapsto> f1)"
    "entry_size f1 = entry_size f" "pool_rep (cells s1) f1 ds (rev xs @ ys)" "dom (cells s1) = dom (cells s)"
    "\<forall>x. x \<notin> iv_area ?E \<longrightarrow> cells s1 x = cells s x"
    using fini_entries_ok [OF f(1,2) D(4) refl ok, unfolded f(3), OF dr(2) de] f(3) by auto
  have okc: "\<forall>r\<in>set ?C. region_ok (cells s1) ?n r"
  proof
    fix r assume "r \<in> set ?C"
    then have "region_ok (cells s) ?n r" using D(6) f(3) unfolding R by simp
    then show "region_ok (cells s1) ?n r" by (rule region_ok_dom) (simp add: s1(5))
  qed
  have ch: "chunks_at (cells s1) (chunk_list m) cs"
  proof -
    have "chunks_at (cells s1) (chunk_list m) cs = chunks_at (cells s) (chunk_list m) cs"
    proof (rule lists_frame(1) [where es = "entry_size m" and xs = "[]"])
      show "\<forall>r\<in>set (regs (entry_size m) cs []). region_ok (cells s) ?n r" using D(6) f(3) by (auto simp: regs_def)
      show "16 \<le> ?n" using D(2) f(3) by simp
      show "cells s1 x = cells s x" if "x \<in> iv_area (regs (entry_size m) cs [])" for x
        using that dr(3) s1(6) by (auto simp: regs_def)
    qed
    then show ?thesis using D(3) by simp
  qed
  have dc: "iv_area ?C \<inter> free_area f1 ds (rev xs @ ys) = {}"
  proof -
    have "free_area f1 ds (rev xs @ ys) = free_area f ds ys \<union> iv_area ?E"
      using s1(3) f(3) by (auto simp: free_area_def regs_def iv_area_def)
    then show ?thesis using dr(3) dj fm by auto
  qed
  have fb1: "mpools s1 fb = Some f1" using s1(2) by simp
  have nn: "?n = unat (entry_size f1)" using s1(3) by simp
  obtain s2 f2 where s2: "fini_chunks s1 fb (chunk_list m) = Some s2" "mpools s2 = (mpools s1)(fb \<mapsto> f2)"
    "entry_size f2 = entry_size f1" "pool_rep (cells s2) f2 (rev cs @ ds) (rev xs @ ys)"
    using fini_chunks_ok [OF fb1 s1(4) ch nn okc dr(1) dc] by blast
  let ?s = "s2\<lparr>mpools := (mpools s2)(p \<mapsto> m\<lparr>chunk_list := NULL, entry_list := NULL, fallback := NULL\<rparr>)\<rparr>"
  have "mpools s2 p = Some m" using s2(2) s1(2) p(1,4) by simp
  then have "mpool_fini s p = Some ?s"
    using p(1,3) s1(1) s2(1) by (simp add: mpool_fini_def load_def set_pool_def modify_def)
  moreover have "free_area f2 (rev cs @ ds) (rev xs @ ys) = free_area f ds ys \<union> free_area m cs xs"
    using s2(3) s1(3) f(3) by (auto simp: free_area_def regs_def iv_area_def)
  ultimately show ?thesis using s2(2,4) p(4)
    by (intro exI [of _ ?s] exI [of _ f2] exI [of _ "rev cs @ ds"] exI [of _ "rev xs @ ys"]) simp
qed

section \<open>Examples\<close>

text \<open>Pool 5 has one entry, pool 6 a chunk of 96 bytes, pool 7 nothing; pool 6 is the fallback.\<close>

definition demo_round :: "nat \<Rightarrow> u64 \<Rightarrow> u64" where
  "demo_round a al = word_of_nat ((unat al - a mod unat al) mod unat al)"

definition demo_pools :: mstate where
  "demo_pools = \<lparr>
     mpools = [5 \<mapsto> \<lparr>entry_size = 16, mp_lock = \<lparr>lock = False\<rparr>, chunk_list = NULL, entry_list = Addr 32, fallback = Addr 6\<rparr>,
       6 \<mapsto> \<lparr>entry_size = 16, mp_lock = \<lparr>lock = False\<rparr>, chunk_list = Addr 80, entry_list = NULL, fallback = NULL\<rparr>,
       7 \<mapsto> \<lparr>entry_size = 16, mp_lock = \<lparr>lock = False\<rparr>, chunk_list = NULL, entry_list = NULL, fallback = Addr 6\<rparr>],
     cells = (\<lambda>x. Some (if x = 80 then CSize 96 else if x = 32 \<or> x = 88 then CPtr NULL else Uninit))\<rparr>"

lemma demo_rounds_up: "rounds_up demo_round"
proof -
  have "unat (demo_round a al) < unat al \<and> unat al dvd a + unat (demo_round a al)" if "al \<noteq> 0" for a al
  proof -
    define k where "k = (unat al - a mod unat al) mod unat al"
    have al: "0 < unat al" using that by (simp add: unat_gt_0)
    have k: "k < unat al" unfolding k_def using al by simp
    also have "unat al < 2 ^ 64" using unsigned_less [of al] by simp
    finally have u: "unat (demo_round a al) = k" by (simp add: demo_round_def k_def unat_of_nat take_bit_nat_eq_self)
    have "(a + k) mod unat al = 0"
    proof -
      have "(a + k) mod unat al = (a mod unat al + (unat al - a mod unat al)) mod unat al"
        unfolding k_def by (metis mod_add_eq mod_mod_trivial)
      also have "\<dots> = 0" using al by (simp add: less_imp_le)
      finally show ?thesis .
    qed
    then show ?thesis using k u by (simp add: mod_eq_0_iff_dvd)
  qed
  then show ?thesis by (simp add: rounds_up_def word_less_nat_alt)
qed

lemma demo_sel:
  "mpools demo_pools 5 = Some \<lparr>entry_size = 16, mp_lock = \<lparr>lock = False\<rparr>, chunk_list = NULL, entry_list = Addr 32, fallback = Addr 6\<rparr>"
  "mpools demo_pools 6 = Some \<lparr>entry_size = 16, mp_lock = \<lparr>lock = False\<rparr>, chunk_list = Addr 80, entry_list = NULL, fallback = NULL\<rparr>"
  "mpools demo_pools 7 = Some \<lparr>entry_size = 16, mp_lock = \<lparr>lock = False\<rparr>, chunk_list = NULL, entry_list = NULL, fallback = Addr 6\<rparr>"
  "cells demo_pools = (\<lambda>x. Some (if x = 80 then CSize 96 else if x = 32 \<or> x = 88 then CPtr NULL else Uninit))"
  by (simp_all add: demo_pools_def)

lemma demo_reps:
  "pool_rep (cells demo_pools) (the (mpools demo_pools 5)) [] [32]"
  "pool_rep (cells demo_pools) (the (mpools demo_pools 6)) [(80, 96)] []"
  "pool_rep (cells demo_pools) (the (mpools demo_pools 7)) [] []"
  by (auto simp: pool_rep_def demo_sel next_chunk_def region_ok_def)

lemma demo_area: "mpools demo_pools p = Some m \<Longrightarrow> entry_size m = 16"
  by (auto simp: demo_pools_def split: if_splits)

theorem mpool_alloc_spec_witness:
  "\<exists>a s'. mpool_alloc demo_pools 7 = Some (Addr a, s') \<and> 80 \<le> a \<and> a + 16 \<le> 176 \<and> 16 dvd a"
proof -
  let ?ps = "[(7, [], []), (6, [(80, 96)], [])] :: (nat \<times> (nat \<times> u64) list \<times> nat list) list"
  have po: "pools_ok demo_pools (Addr 7) ?ps" using demo_reps by (simp add: demo_sel)
  have ne: "\<not> (\<forall>r\<in>set ?ps. empty_pool r)" by (simp add: empty_pool_def)
  obtain pre p cs xs post m a c m' cs' xs' where A: "?ps = pre @ (p, cs, xs) # post" "mpools demo_pools p = Some m"
      "mpool_alloc demo_pools 7 = Some (Addr a, demo_pools\<lparr>mpools := (mpools demo_pools)(p \<mapsto> m'), cells := c\<rparr>)"
      "unat (entry_size m) dvd a" "free_area m cs xs = iv (a, unat (entry_size m)) \<union> free_area m' cs' xs'"
    using mpool_alloc_spec [OF po, unfolded if_not_P [OF ne]] by (elim exE conjE) (rule that)
  have e: "entry_size m = 16" by (rule demo_area [OF A(2)])
  have sub: "{a..<a + 16} \<subseteq> free_area m cs xs" using A(5) e by (auto simp: iv.simps)
  have "(cs, xs) = ([], []) \<or> (cs, xs) = ([(80, 96)], [])" using A(1) by (cases pre) (auto simp: Cons_eq_append_conv)
  then have "{a..<a + 16} \<subseteq> {80..<176}"
    using sub by (auto simp: free_area_def iv.simps)
  then have "80 \<le> a \<and> a + 16 \<le> 176" by (auto simp: subset_iff dest!: spec [of _ a] spec [of _ "a + 15"])
  then show ?thesis using A(3,4) e by auto
qed

text \<open>Two entries aligned to four entries, out of the middle of the chunk.\<close>

theorem mpool_alloc_contiguous_spec_witness:
  "\<exists>s'. mpool_alloc_contiguous_no_fallback demo_round demo_pools 6 2 4 = Some (Addr 128, s')"
proof -
  let ?m = "the (mpools demo_pools 6)"
  have m: "mpools demo_pools 6 = Some ?m" by (simp add: demo_sel)
  have e: "entry_size ?m = 16" by (simp add: demo_sel)
  have u: "unat (demo_round 80 (4 * 16)) = 48" by (simp add: demo_round_def)
  have ne: "\<not> (\<forall>(a, sz)\<in>set [(80, 96 :: u64)]. unat sz < unat (demo_round a (4 * entry_size ?m)) + unat (2 :: u64) * 16)"
    using e u by simp
  have n: "16 = unat (entry_size ?m)" using e by simp
  have b: "unat (4 :: u64) * 16 + unat (2 :: u64) * 16 < 2 ^ 64" by simp
  obtain start s' m' cs' where A:
    "mpool_alloc_contiguous_no_fallback demo_round demo_pools 6 2 4 = Some (Addr start, s')"
    "unat (4 :: u64) * 16 dvd start"
    "free_area ?m [(80, 96)] [] = iv (start, unat (2 :: u64) * 16) \<union> free_area m' cs' []"
    using mpool_alloc_contiguous_spec [OF demo_rounds_up m demo_reps(2) n _ _ b] ne by auto
  have "iv (start, 32) \<subseteq> {80..<176}" using A(3) by (auto simp: free_area_def iv.simps)
  then have "80 \<le> start" "start + 32 \<le> 176" by (auto simp: iv.simps subset_iff dest!: spec [of _ start] spec [of _ "start + 31"])
  moreover obtain k where "start = 64 * k" using A(2) by (auto elim: dvdE)
  ultimately have "start = 128" by presburger
  then show ?thesis using A(1) by auto
qed

text \<open>Pool 5 gives its entry to pool 6.\<close>

theorem mpool_fini_conserves_witness:
  "\<exists>s' f' ds' ys'. mpool_fini demo_pools 5 = Some s' \<and> mpools s' 6 = Some f' \<and> pool_rep (cells s') f' ds' ys' \<and>
    free_area f' ds' ys' = {80..<176} \<union> {32..<48}"
proof -
  let ?m = "the (mpools demo_pools 5)" and ?f = "the (mpools demo_pools 6)"
  have m: "mpools demo_pools 5 = Some ?m" "fallback ?m = Addr 6" "(6 :: nat) \<noteq> 5" "mpools demo_pools 6 = Some ?f"
    "entry_size ?f = entry_size ?m" by (simp_all add: demo_sel)
  have fa: "free_area ?f [(80, 96)] [] = {80..<176}" "free_area ?m [] [32] = {32..<48}"
    by (simp_all add: free_area_def iv.simps demo_sel)
  have dj: "free_area ?m [] [32] \<inter> free_area ?f [(80, 96)] [] = {}" unfolding fa by auto
  show ?thesis using mpool_fini_conserves [OF m(1) demo_reps(1) m(2,3,4) demo_reps(2) m(5) dj] unfolding fa
    by (elim exE conjE) (intro exI conjI)
qed

end
