(* ===== verification/Map_Spec.thy ===== *)
theory Map_Spec
  imports Prelude
begin

text \<open>
  The interface of a finite map with operations that may fail, shared by the hash table of
  \<open>src/examples/mutable_map.c\<close> and the search trees: a look-up reads the abstract map, an
  insertion that has room updates it.
\<close>

locale lookup_map =
  fixes inv :: "'s \<Rightarrow> bool" and abs :: "'s \<Rightarrow> 'k \<Rightarrow> 'v option" and get :: "'s \<Rightarrow> 'k \<Rightarrow> 'v option option"
  assumes get_abs: "inv s \<Longrightarrow> get s k = Some (abs s k)"

locale insert_map = lookup_map inv abs get
  for inv :: "'s \<Rightarrow> bool" and abs :: "'s \<Rightarrow> 'k \<Rightarrow> 'v option" and get +
  fixes room :: "'s \<Rightarrow> bool" and insert :: "'s \<Rightarrow> 'k \<Rightarrow> 'v \<Rightarrow> 's option"
  assumes insert_ok: "inv s \<Longrightarrow> room s \<Longrightarrow> \<exists>s'. insert s k v = Some s' \<and> inv s' \<and> abs s' = (abs s)(k \<mapsto> v)"
begin

text \<open>What a client sees: the inserted key has the new value, every other key what it had.\<close>

lemma get_insert:
  assumes "inv s" "room s"
  shows "\<exists>s'. insert s k v = Some s' \<and> inv s' \<and> get s' j = (if j = k then Some (Some v) else get s j)"
  using insert_ok [OF assms, of k v] get_abs assms(1) by fastforce

text \<open>The order of two insertions at different keys does not matter to the map.\<close>

lemma insert_commute:
  assumes "inv s" "j \<noteq> k" "\<And>s. inv s \<Longrightarrow> room s"
  shows "\<exists>s1 s2. insert s j u \<bind> (\<lambda>s. insert s k v) = Some s1 \<and> insert s k v \<bind> (\<lambda>s. insert s j u) = Some s2 \<and>
    abs s1 = abs s2"
proof -
  obtain a where a: "insert s j u = Some a" "inv a" "abs a = (abs s)(j \<mapsto> u)" using insert_ok assms by blast
  obtain b where b: "insert s k v = Some b" "inv b" "abs b = (abs s)(k \<mapsto> v)" using insert_ok assms by blast
  obtain a' where "insert a k v = Some a'" "abs a' = (abs a)(k \<mapsto> v)" using insert_ok [OF a(2)] assms(3) a(2) by blast
  moreover obtain b' where "insert b j u = Some b'" "abs b' = (abs b)(j \<mapsto> u)" using insert_ok [OF b(2)] assms(3) b(2) by blast
  ultimately show ?thesis using a b assms(2) by (auto simp: fun_upd_twist)
qed

end

locale remove_map = insert_map inv abs get room insert
  for inv :: "'s \<Rightarrow> bool" and abs :: "'s \<Rightarrow> 'k \<Rightarrow> 'v option" and get room insert +
  fixes remove :: "'s \<Rightarrow> 'k \<Rightarrow> 's option"
  assumes remove_ok: "inv s \<Longrightarrow> \<exists>s'. remove s k = Some s' \<and> inv s' \<and> abs s' = (abs s)(k := None)"
begin

text \<open>Removing an inserted key gives back the map without the key.\<close>

lemma insert_remove:
  assumes "inv s" "room s" "abs s k = None"
  shows "\<exists>s1 s2. insert s k v = Some s1 \<and> remove s1 k = Some s2 \<and> inv s2 \<and> abs s2 = abs s"
proof -
  obtain s1 where s1: "insert s k v = Some s1" "inv s1" "abs s1 = (abs s)(k \<mapsto> v)" using insert_ok assms by blast
  obtain s2 where "remove s1 k = Some s2" "inv s2" "abs s2 = (abs s1)(k := None)" using remove_ok s1(2) by blast
  with s1 assms(3) show ?thesis by (auto simp: fun_upd_idem)
qed

end

end
