(* ===== verification/Mutable_Map.thy ===== *)
theory Mutable_Map
  imports Map_Spec
begin

text \<open>
  The hash table with open addressing of \<open>src/examples/mutable_map.c\<close>.

  The table is an array of items; a removed entry leaves a tombstone with its key, so that a
  slot keeps the key it once got until the table is copied. \<open>malloc\<close> is a parameter that says
  whether a request succeeds. \<open>fsm_insert\<close> and \<open>fsm_realloc_if_necessary\<close> call each other;
  the model bounds the depth of these calls by two, which is shown to be enough.
\<close>

section \<open>The program\<close>

datatype 'a item = Uninit_item | Empty | Entry u64 "'a ptr" | Tombstone u64

record 'a fixed_size_map =
  items :: "'a item list"
  count :: u64
  fsm_length :: u64

definition sizeof_item :: u64 where "sizeof_item = 24"
definition SIZE_MAX :: u64 where "SIZE_MAX = 18446744073709551615"

definition fsm_init ::
  "(u64 \<Rightarrow> bool) \<Rightarrow> 'a fixed_size_map \<Rightarrow> u64 \<Rightarrow> 'a fixed_size_map option" where
  "fsm_init malloc m len = do {
     storage \<leftarrow> (if malloc (sizeof_item * len)
                then Some (replicate (unat (sizeof_item * len) div unat sizeof_item) Uninit_item) else None);
     let m = m\<lparr>fsm_length := len, items := storage, count := len\<rparr>;
     c_for [0..<unat len] (\<lambda>i m. do {
       its \<leftarrow> arr_set (items m) i Empty;
       Some (m\<lparr>items := its\<rparr>) }) m }"

definition fsm_slot_for_key :: "u64 \<Rightarrow> u64 \<Rightarrow> u64 option" where
  "fsm_slot_for_key len key = (if len = 0 then None else Some (key mod len))"

partial_function (option) probe_loop :: "'a fixed_size_map \<Rightarrow> u64 \<Rightarrow> u64 \<Rightarrow> u64 option" where
  "probe_loop m key slot_idx =
     Option.bind (arr_get (items m) (unat slot_idx)) (\<lambda>it.
       if it = Uninit_item then None
       else if it = Empty \<or> it = Tombstone key then Some slot_idx
       else if (case it of Entry k v \<Rightarrow> k = key | _ \<Rightarrow> False) then Some slot_idx
       else if fsm_length m = 0 then None
       else probe_loop m key ((slot_idx + 1) mod fsm_length m))"

definition fsm_probe :: "'a fixed_size_map \<Rightarrow> u64 \<Rightarrow> u64 option" where
  "fsm_probe m key = do {
     slot_idx \<leftarrow> fsm_slot_for_key (fsm_length m) key;
     probe_loop m key slot_idx }"

text \<open>\<open>fsm_insert\<close> after the call of \<open>fsm_realloc_if_necessary\<close>.\<close>

definition insert_item :: "'a fixed_size_map \<Rightarrow> u64 \<Rightarrow> 'a ptr \<Rightarrow> ('a ptr \<times> 'a fixed_size_map) option" where
  "insert_item m key val = do {
     slot_idx \<leftarrow> fsm_probe m key;
     it \<leftarrow> arr_get (items m) (unat slot_idx);
     let (replaced, m) = (case it of
         Entry _ v \<Rightarrow> (v, m)
       | Empty \<Rightarrow> (NULL, m\<lparr>count := count m - 1\<rparr>)
       | _ \<Rightarrow> (NULL, m));
     its \<leftarrow> arr_set (items m) (unat slot_idx) (Entry key val);
     Some (replaced, m\<lparr>items := its\<rparr>) }"

definition fsm_get :: "'a fixed_size_map \<Rightarrow> u64 \<Rightarrow> 'a ptr option" where
  "fsm_get m key = do {
     slot_idx \<leftarrow> fsm_probe m key;
     it \<leftarrow> arr_get (items m) (unat slot_idx);
     Some (case it of Entry _ v \<Rightarrow> v | _ \<Rightarrow> NULL) }"

definition fsm_remove :: "'a fixed_size_map \<Rightarrow> u64 \<Rightarrow> ('a ptr \<times> 'a fixed_size_map) option" where
  "fsm_remove m key = do {
     slot_idx \<leftarrow> fsm_probe m key;
     it \<leftarrow> arr_get (items m) (unat slot_idx);
     case it of
       Entry _ removed \<Rightarrow> do {
         its \<leftarrow> arr_set (items m) (unat slot_idx) (Tombstone key);
         Some (removed, m\<lparr>items := its\<rparr>) }
     | _ \<Rightarrow> Some (NULL, m) }"

definition compute_min_count :: "u64 \<Rightarrow> u64" where
  "compute_min_count len = 2"

text \<open>\<open>ins\<close> is the recursive call of \<open>fsm_insert\<close>; the new table is built over the old record,
  all fields of which \<open>fsm_init\<close> overwrites.\<close>

definition fsm_realloc_if_necessary ::
  "(u64 \<Rightarrow> bool) \<Rightarrow> ('a fixed_size_map \<Rightarrow> u64 \<Rightarrow> 'a ptr \<Rightarrow> ('a ptr \<times> 'a fixed_size_map) option) \<Rightarrow>
   'a fixed_size_map \<Rightarrow> 'a fixed_size_map option" where
  "fsm_realloc_if_necessary malloc ins m =
     (if compute_min_count (fsm_length m) \<le> count m then Some m
      else if \<not> fsm_length m < SIZE_MAX div 2 div sizeof_item - 16 then None
      else do {
        let new_len = fsm_length m * 2;
        m2 \<leftarrow> fsm_init malloc m new_len;
        c_for [0..<unat (fsm_length m)] (\<lambda>i m2. do {
          it \<leftarrow> arr_get (items m) i;
          case it of
            Entry k v \<Rightarrow> do { (_, m2) \<leftarrow> ins m2 k v; Some m2 }
          | Uninit_item \<Rightarrow> None
          | _ \<Rightarrow> Some m2 }) m2 })"

fun insert_depth ::
  "(u64 \<Rightarrow> bool) \<Rightarrow> nat \<Rightarrow> 'a fixed_size_map \<Rightarrow> u64 \<Rightarrow> 'a ptr \<Rightarrow> ('a ptr \<times> 'a fixed_size_map) option" where
  "insert_depth malloc 0 m key val = None"
| "insert_depth malloc (Suc d) m key val = do {
     m \<leftarrow> fsm_realloc_if_necessary malloc (insert_depth malloc d) m;
     insert_item m key val }"

definition fsm_insert ::
  "(u64 \<Rightarrow> bool) \<Rightarrow> 'a fixed_size_map \<Rightarrow> u64 \<Rightarrow> 'a ptr \<Rightarrow> ('a ptr \<times> 'a fixed_size_map) option" where
  "fsm_insert malloc = insert_depth malloc 2"

section \<open>The abstract map and the invariant\<close>

fun key_of :: "'a item \<Rightarrow> u64 option" where
  "key_of (Entry k v) = Some k"
| "key_of (Tombstone k) = Some k"
| "key_of _ = None"

text \<open>The slots in the order in which a key is probed.\<close>

definition probe_slot :: "nat \<Rightarrow> u64 \<Rightarrow> nat \<Rightarrow> nat" where
  "probe_slot n k d = (unat k + d) mod n"

text \<open>The first \<open>d\<close> slots that are probed for \<open>k\<close> are in use, by other keys.\<close>

definition busy :: "'a item list \<Rightarrow> u64 \<Rightarrow> nat \<Rightarrow> bool" where
  "busy its k d \<longleftrightarrow> (\<forall>e<d. its ! probe_slot (length its) k e \<notin> {Empty, Uninit_item} \<and>
     key_of (its ! probe_slot (length its) k e) \<noteq> Some k)"

definition stops :: "'a item list \<Rightarrow> u64 \<Rightarrow> nat \<Rightarrow> bool" where
  "stops its k i \<longleftrightarrow> (\<exists>d. i = probe_slot (length its) k d \<and> busy its k d)"

definition table_ok :: "'a item list \<Rightarrow> bool" where
  "table_ok its \<longleftrightarrow> Uninit_item \<notin> set its \<and> 1 < length its \<and> Empty \<in> set its \<and>
     (\<forall>i<length its. \<forall>k. key_of (its ! i) = Some k \<longrightarrow> stops its k i)"

definition empties :: "'a item list \<Rightarrow> nat" where
  "empties its = length (filter (\<lambda>it. it = Empty) its)"

definition fsm_map :: "'a item list \<Rightarrow> u64 \<Rightarrow> 'a ptr option" where
  "fsm_map its = map_of (concat (map (\<lambda>it. case it of Entry k v \<Rightarrow> [(k, v)] | _ \<Rightarrow> []) its))"

definition fsm_ok :: "'a fixed_size_map \<Rightarrow> bool" where
  "fsm_ok m \<longleftrightarrow> table_ok (items m) \<and> unat (fsm_length m) = length (items m) \<and> unat (count m) = empties (items m) \<and>
     24 * length (items m) < 2 ^ 64"

lemma slot_less [simp]: "0 < n \<Longrightarrow> probe_slot n k d < n"
  by (simp add: probe_slot_def)

text \<open>Two slots at which a probe can stop for the same key are the same.\<close>

lemma stops_unique:
  assumes "stops its k i" "stops its k j"
    and "its ! i = Empty \<or> key_of (its ! i) = Some k" "its ! j = Empty \<or> key_of (its ! j) = Some k"
  shows "i = j"
proof -
  obtain d e where d: "i = probe_slot (length its) k d" "busy its k d" and e: "j = probe_slot (length its) k e" "busy its k e"
    using assms(1,2) by (auto simp: stops_def)
  have "\<not> d < e" using d(1) e(2) assms(3) by (auto simp: busy_def)
  moreover have "\<not> e < d" using e(1) d(2) assms(4) by (auto simp: busy_def)
  ultimately show ?thesis using d(1) e(1) by (metis linorder_neqE_nat)
qed

lemma table_key_unique:
  assumes "table_ok its" "i < length its" "j < length its" "key_of (its ! i) = Some k" "key_of (its ! j) = Some k"
  shows "i = j"
  using assms by (intro stops_unique [of its k]) (auto simp: table_ok_def)

lemma map_of_entries:
  assumes "\<And>i j k. i < length its \<Longrightarrow> j < length its \<Longrightarrow> key_of (its ! i) = Some k \<Longrightarrow> key_of (its ! j) = Some k \<Longrightarrow> i = j"
  shows "map_of (concat (map (\<lambda>it. case it of Entry k v \<Rightarrow> [(k, v)] | _ \<Rightarrow> []) its)) k = Some v \<longleftrightarrow> Entry k v \<in> set its"
  using assms
proof (induction its)
  case (Cons it its)
  have IH: "map_of (concat (map (\<lambda>it. case it of Entry k v \<Rightarrow> [(k, v)] | _ \<Rightarrow> []) its)) k = Some v \<longleftrightarrow> Entry k v \<in> set its"
  proof (rule Cons.IH)
    fix i j k assume "i < length its" "j < length its" "key_of (its ! i) = Some k" "key_of (its ! j) = Some k"
    then show "i = j" using Cons.prems [of "Suc i" "Suc j" k] by simp
  qed
  show ?case
  proof (cases it)
    case (Entry k' v')
    have "Entry k w \<notin> set its" if "k' = k" for w
    proof
      assume "Entry k w \<in> set its"
      then obtain j where "j < length its" "its ! j = Entry k w" by (auto simp: in_set_conv_nth)
      then show False using Cons.prems [of 0 "Suc j" k] Entry that by simp
    qed
    then show ?thesis using Entry IH by auto
  qed (use IH in auto)
qed simp

lemma fsm_map_iff: "table_ok its \<Longrightarrow> fsm_map its k = Some v \<longleftrightarrow> Entry k v \<in> set its"
  unfolding fsm_map_def by (rule map_of_entries) (rule table_key_unique)

section \<open>Probing\<close>

text \<open>Within \<open>length its\<close> steps a probe meets an empty slot or its key.\<close>

lemma probe_end_exists:
  assumes "table_ok its"
  shows "\<exists>d<length its. busy its k d \<and>
    (its ! probe_slot (length its) k d = Empty \<or> key_of (its ! probe_slot (length its) k d) = Some k)"
proof -
  let ?n = "length its" and ?P = "\<lambda>d. its ! probe_slot (length its) k d = Empty \<or> key_of (its ! probe_slot (length its) k d) = Some k"
  have n: "0 < ?n" and U: "Uninit_item \<notin> set its" using assms by (auto simp: table_ok_def)
  obtain i where i: "i < ?n" "its ! i = Empty" using assms by (auto simp: table_ok_def in_set_conv_nth)
  let ?d = "(i + (?n - unat k mod ?n)) mod ?n"
  have "probe_slot ?n k ?d = (unat k mod ?n + (i + (?n - unat k mod ?n))) mod ?n"
    unfolding probe_slot_def by (metis mod_add_eq mod_mod_trivial)
  also have "unat k mod ?n + (i + (?n - unat k mod ?n)) = i + ?n" using mod_less_divisor [OF n, of "unat k"] by linarith
  finally have "probe_slot ?n k ?d = i" using i(1) by simp
  then have ex: "?P ?d" "?d < ?n" using i n by simp_all
  define d where "d = (LEAST d. ?P d)"
  have d: "?P d" "d \<le> ?d" unfolding d_def using ex(1) by (rule LeastI, rule Least_le)
  have "busy its k d" unfolding busy_def
  proof (intro allI impI)
    fix e assume "e < d"
    then have "\<not> ?P e" unfolding d_def by (rule not_less_Least)
    moreover have "its ! probe_slot ?n k e \<in> set its" using n by simp
    ultimately show "its ! probe_slot ?n k e \<notin> {Empty, Uninit_item} \<and> key_of (its ! probe_slot ?n k e) \<noteq> Some k" using U by auto
  qed
  then show ?thesis using d ex(2) by (intro exI [of _ d]) linarith
qed

lemma probe_loop_ok:
  assumes m: "unat (fsm_length m) = length (items m)" "2 * length (items m) < 2 ^ 64" "0 < length (items m)"
    and U: "Uninit_item \<notin> set (items m)"
    and d: "busy (items m) k d" "items m ! probe_slot (length (items m)) k d = Empty \<or> key_of (items m ! probe_slot (length (items m)) k d) = Some k"
  shows "c \<le> d \<Longrightarrow> unat s = probe_slot (length (items m)) k c \<Longrightarrow>
    \<exists>r. probe_loop m k s = Some r \<and> unat r = probe_slot (length (items m)) k d"
proof (induction "d - c" arbitrary: c s)
  case 0
  let ?it = "items m ! unat s"
  have "c = d" using 0 by simp
  then have "unat s < length (items m)" "?it = Empty \<or> key_of ?it = Some k" "?it \<noteq> Uninit_item"
    using 0 m(3) d(2) U nth_mem [of "unat s" "items m"] by auto
  then have "probe_loop m k s = Some s"
    by (subst probe_loop.simps) (cases ?it; simp)
  then show ?case using 0 \<open>c = d\<close> by simp
next
  case (Suc x)
  let ?n = "length (items m)" and ?it = "items m ! unat s"
  have c: "c < d" and xc: "x = d - Suc c" using Suc.hyps(2) by simp_all
  have s: "unat s < ?n" using Suc.prems(2) m(3) by simp
  have it: "?it \<notin> {Empty, Uninit_item}" "key_of ?it \<noteq> Some k" using d(1) c Suc.prems(2) by (auto simp: busy_def)
  have l0: "fsm_length m \<noteq> 0" using m by auto
  have "unat (s + 1) = unat s + 1" using s m(2) by (simp add: unat_word_ariths)
  then have "unat ((s + 1) mod fsm_length m) = probe_slot ?n k (Suc c)"
    using Suc.prems(2) m(1) by (simp add: unat_mod_distrib probe_slot_def mod_Suc_eq)
  then obtain r where r: "probe_loop m k ((s + 1) mod fsm_length m) = Some r" "unat r = probe_slot ?n k d"
    using Suc.hyps(1) [of "Suc c"] xc c by auto
  have "probe_loop m k s = probe_loop m k ((s + 1) mod fsm_length m)"
    using s it l0 by (subst probe_loop.simps) (cases ?it; simp)
  then show ?case using r by simp
qed

lemma fsm_probe_ok:
  assumes ok: "fsm_ok m"
  shows "\<exists>r. fsm_probe m k = Some r \<and> unat r < length (items m) \<and> stops (items m) k (unat r) \<and>
    (items m ! unat r = Empty \<or> key_of (items m ! unat r) = Some k)"
proof -
  have T: "table_ok (items m)" and l: "unat (fsm_length m) = length (items m)" and sz: "2 * length (items m) < 2 ^ 64"
    using ok by (auto simp: fsm_ok_def)
  have U: "Uninit_item \<notin> set (items m)" and n: "0 < length (items m)" using T by (auto simp: table_ok_def)
  obtain d where d: "busy (items m) k d" "items m ! probe_slot (length (items m)) k d = Empty \<or>
      key_of (items m ! probe_slot (length (items m)) k d) = Some k" using probe_end_exists [OF T] by blast
  have "unat (k mod fsm_length m) = probe_slot (length (items m)) k 0" using l by (simp add: unat_mod_distrib probe_slot_def)
  from probe_loop_ok [OF l sz n U d _ this] obtain r where
    r: "probe_loop m k (k mod fsm_length m) = Some r" "unat r = probe_slot (length (items m)) k d" by auto
  have "fsm_length m \<noteq> 0" using l n by auto
  then have "fsm_probe m k = Some r" using r(1) by (simp add: fsm_probe_def fsm_slot_for_key_def)
  then show ?thesis using r(2) d n by (auto simp: stops_def)
qed

section \<open>Writing a probe_slot\<close>

text \<open>
  Writing an item of the key \<open>k\<close> to the slot at which its probe stops keeps the table in order,
  as long as an empty slot is left.
\<close>

lemma busy_update:
  assumes T: "table_ok its" and i: "i < length its" "stops its k i" "its ! i = Empty \<or> key_of (its ! i) = Some k"
    and it: "key_of it = Some k" and b: "busy its k' d" and ne: "k' = k \<Longrightarrow> i \<notin> probe_slot (length its) k ` {..<d}"
  shows "busy (its[i := it]) k' d"
  unfolding busy_def
proof (intro allI impI)
  fix e assume e: "e < d"
  let ?j = "probe_slot (length its) k' e"
  have j: "?j < length its" using i(1) by (intro slot_less) linarith
  have old: "its ! ?j \<notin> {Empty, Uninit_item}" "key_of (its ! ?j) \<noteq> Some k'" using b e by (auto simp: busy_def)
  have "it \<notin> {Empty, Uninit_item}" using it by (cases it) auto
  moreover have "k \<noteq> k'" if "?j = i" using ne e that by auto
  ultimately show "its[i := it] ! probe_slot (length (its[i := it])) k' e \<notin> {Empty, Uninit_item} \<and>
      key_of (its[i := it] ! probe_slot (length (its[i := it])) k' e) \<noteq> Some k'"
    using old it j by (cases "?j = i") auto
qed

lemma table_update:
  assumes T: "table_ok its" and i: "i < length its" "stops its k i" "its ! i = Empty \<or> key_of (its ! i) = Some k"
    and it: "key_of it = Some k" and E: "Empty \<in> set (its[i := it])"
  shows "table_ok (its[i := it])"
proof -
  have U: "Uninit_item \<notin> set (its[i := it])"
    using T it set_update_subset_insert [of its i it] by (auto simp: table_ok_def)
  have "stops (its[i := it]) k' j" if j: "j < length its" "key_of (its[i := it] ! j) = Some k'" for j k'
  proof (cases "j = i")
    case True
    then have k: "k' = k" using j it by simp
    obtain d where d: "i = probe_slot (length its) k d" "busy its k d" using i(2) by (auto simp: stops_def)
    have "i \<notin> probe_slot (length its) k ` {..<d}"
    proof
      assume "i \<in> probe_slot (length its) k ` {..<d}"
      then obtain e where "e < d" "i = probe_slot (length its) k e" by auto
      then show False using d(2) i(3) by (auto simp: busy_def)
    qed
    then have "busy (its[i := it]) k d" by (intro busy_update [OF T i it d(2)]) simp
    then show ?thesis using d(1) True k by (auto simp: stops_def)
  next
    case False
    then have kj: "key_of (its ! j) = Some k'" using j by simp
    then obtain d where d: "j = probe_slot (length its) k' d" "busy its k' d"
      using T j(1) by (auto simp: table_ok_def stops_def)
    have "i \<notin> probe_slot (length its) k ` {..<d}" if "k' = k"
    proof
      assume "i \<in> probe_slot (length its) k ` {..<d}"
      then obtain e where "e < d" "i = probe_slot (length its) k e" by auto
      then show False using d(2) i(3) that by (auto simp: busy_def)
    qed
    then have "busy (its[i := it]) k' d" by (intro busy_update [OF T i it d(2)]) simp
    then show ?thesis using d(1) by (auto simp: stops_def)
  qed
  then show ?thesis using T U E by (auto simp: table_ok_def)
qed

lemma empties_update:
  "i < length its \<Longrightarrow> it \<noteq> Empty \<Longrightarrow> empties (its[i := it]) = empties its - (if its ! i = Empty then 1 else 0)"
  unfolding empties_def
proof (induction its arbitrary: i)
  case (Cons x xs)
  show ?case
  proof (cases i)
    case (Suc j)
    have "xs ! j = Empty \<Longrightarrow> 0 < length (filter (\<lambda>it. it = Empty) xs)"
      using Cons.prems(1) Suc nth_mem [of j xs] by (auto simp: filter_empty_conv)
    then show ?thesis using Cons.IH [of j] Cons.prems Suc by (auto simp: Suc_diff_le)
  qed (use Cons.prems in simp)
qed simp

lemma empties_pos: "0 < empties its \<longleftrightarrow> Empty \<in> set its"
  by (auto simp: empties_def filter_empty_conv)

text \<open>The map after a write at the slot of its key.\<close>

lemma fsm_map_at:
  assumes T: "table_ok its" and i: "i < length its" "stops its k i" "its ! i = Empty \<or> key_of (its ! i) = Some k"
  shows "fsm_map its k = (case its ! i of Entry _ v \<Rightarrow> Some v | _ \<Rightarrow> None)"
proof -
  have only: "its ! i = Entry k v" if v: "fsm_map its k = Some v" for v
  proof -
    obtain j where j: "j < length its" "its ! j = Entry k v" using v fsm_map_iff [OF T] by (auto simp: in_set_conv_nth)
    have "i = j" using T i j by (intro stops_unique [of its k]) (auto simp: table_ok_def)
    then show ?thesis using j by simp
  qed
  show ?thesis
  proof (cases "fsm_map its k")
    case None
    have "its ! i \<noteq> Entry k v" for v using None fsm_map_iff [OF T, of k v] nth_mem [OF i(1)] by (metis option.distinct(1))
    then show ?thesis using None i(3) by (cases "its ! i") auto
  next
    case (Some v)
    then show ?thesis using only by simp
  qed
qed

lemma fsm_map_update:
  assumes T: "table_ok its" and i: "i < length its" "stops its k i" "its ! i = Empty \<or> key_of (its ! i) = Some k"
    and it: "key_of it = Some k" and E: "Empty \<in> set (its[i := it])"
  shows "fsm_map (its[i := it]) = (fsm_map its)(k := case it of Entry _ v \<Rightarrow> Some v | _ \<Rightarrow> None)"
proof
  fix k'
  have T': "table_ok (its[i := it])" by (rule table_update [OF T i it E])
  show "fsm_map (its[i := it]) k' = ((fsm_map its)(k := case it of Entry _ v \<Rightarrow> Some v | _ \<Rightarrow> None)) k'"
  proof (cases "k' = k")
    case True
    have "stops (its[i := it]) k i" using T' i(1) it by (auto simp: table_ok_def)
    then show ?thesis using fsm_map_at [OF T', of i k] i(1) it True by simp
  next
    case False
    have "Entry k' v \<in> set (its[i := it]) \<longleftrightarrow> Entry k' v \<in> set its" for v
    proof -
      have "its[i := it] ! j = Entry k' v \<longleftrightarrow> its ! j = Entry k' v" if "j < length its" for j
        using that False it i(3) by (cases "j = i") auto
      then show ?thesis unfolding in_set_conv_nth length_list_update by blast
    qed
    then have "fsm_map (its[i := it]) k' = Some v \<longleftrightarrow> fsm_map its k' = Some v" for v
      using fsm_map_iff [OF T] fsm_map_iff [OF T'] by simp
    then show ?thesis using False by (metis fun_upd_other not_Some_eq)
  qed
qed

section \<open>The operations\<close>

text \<open>The result of a look-up, as the code returns it: null when there is no entry.\<close>

definition ptr_of :: "'a ptr option \<Rightarrow> 'a ptr" where
  "ptr_of r = (case r of None \<Rightarrow> NULL | Some v \<Rightarrow> v)"

lemma fsm_get_ok: "fsm_ok m \<Longrightarrow> fsm_get m k = Some (ptr_of (fsm_map (items m) k))"
proof -
  assume ok: "fsm_ok m"
  then have T: "table_ok (items m)" by (simp add: fsm_ok_def)
  obtain r where r: "fsm_probe m k = Some r" "unat r < length (items m)" "stops (items m) k (unat r)"
    "items m ! unat r = Empty \<or> key_of (items m ! unat r) = Some k" using fsm_probe_ok [OF ok] by blast
  show ?thesis using r(1,2) fsm_map_at [OF T r(2-4)] by (auto simp: fsm_get_def ptr_of_def split: item.split)
qed

lemma insert_item_ok:
  assumes ok: "fsm_ok m" and c: "1 < count m"
  shows "\<exists>m'. insert_item m k v = Some (ptr_of (fsm_map (items m) k), m') \<and> fsm_ok m' \<and>
    fsm_map (items m') = (fsm_map (items m))(k \<mapsto> v) \<and> length (items m') = length (items m) \<and>
    unat (count m) \<le> Suc (unat (count m'))"
proof -
  have T: "table_ok (items m)" and cnt: "unat (count m) = empties (items m)" using ok by (auto simp: fsm_ok_def)
  obtain r where r: "fsm_probe m k = Some r" "unat r < length (items m)" "stops (items m) k (unat r)"
    "items m ! unat r = Empty \<or> key_of (items m ! unat r) = Some k" using fsm_probe_ok [OF ok] by blast
  let ?its = "(items m)[unat r := Entry k v]"
  let ?c = "if items m ! unat r = Empty then count m - 1 else count m"
  let ?m = "m\<lparr>count := ?c, items := ?its\<rparr>"
  have em: "empties ?its = empties (items m) - (if items m ! unat r = Empty then 1 else 0)"
    using r(2) by (intro empties_update) simp_all
  have c1: "1 < empties (items m)" using c cnt by (simp add: word_less_nat_alt)
  have uc: "unat ?c = empties ?its"
    using em cnt c1 by (simp add: unat_sub word_le_nat_alt)
  have E: "Empty \<in> set ?its" using em c1 by (simp add: empties_pos [symmetric] split: if_splits)
  have "insert_item m k v = Some (ptr_of (fsm_map (items m) k), ?m)"
    using r(1,2,4) fsm_map_at [OF T r(2-4)] by (cases "items m ! unat r") (auto simp: insert_item_def ptr_of_def)
  moreover have "fsm_ok ?m" using ok uc table_update [OF T r(2-4) _ E] by (simp add: fsm_ok_def)
  moreover have "fsm_map (items ?m) = (fsm_map (items m))(k \<mapsto> v)" using fsm_map_update [OF T r(2-4) _ E] by simp
  moreover have "unat (count m) \<le> Suc (unat (count ?m))" using uc em cnt by (simp split: if_splits)
  ultimately show ?thesis by (intro exI [of _ ?m]) simp
qed

lemma fsm_remove_ok:
  assumes ok: "fsm_ok m"
  shows "\<exists>m'. fsm_remove m k = Some (ptr_of (fsm_map (items m) k), m') \<and> fsm_ok m' \<and>
    fsm_map (items m') = (fsm_map (items m))(k := None) \<and> length (items m') = length (items m) \<and> count m' = count m"
proof -
  have T: "table_ok (items m)" and cnt: "unat (count m) = empties (items m)" using ok by (auto simp: fsm_ok_def)
  obtain r where r: "fsm_probe m k = Some r" "unat r < length (items m)" "stops (items m) k (unat r)"
    "items m ! unat r = Empty \<or> key_of (items m ! unat r) = Some k" using fsm_probe_ok [OF ok] by blast
  note at = fsm_map_at [OF T r(2-4)]
  show ?thesis
  proof (cases "\<exists>w. items m ! unat r = Entry k w")
    case True
    then obtain w where w: "items m ! unat r = Entry k w" by blast
    let ?its = "(items m)[unat r := Tombstone k]" let ?m = "m\<lparr>items := ?its\<rparr>"
    have em: "empties ?its = empties (items m)" using empties_update [OF r(2), of "Tombstone k"] w by simp
    have E: "Empty \<in> set ?its" using em T by (simp add: empties_pos [symmetric] table_ok_def)
    have "fsm_remove m k = Some (ptr_of (fsm_map (items m) k), ?m)" using r(1,2) w at by (simp add: fsm_remove_def ptr_of_def)
    moreover have "fsm_ok ?m" using ok em table_update [OF T r(2-4) _ E] by (simp add: fsm_ok_def)
    ultimately show ?thesis using fsm_map_update [OF T r(2-4) _ E] by (intro exI [of _ ?m]) simp
  next
    case False
    then have n: "fsm_map (items m) k = None" using at r(4) by (cases "items m ! unat r") auto
    have "fsm_remove m k = Some (NULL, m)" using r(1,2,4) False by (cases "items m ! unat r") (auto simp: fsm_remove_def)
    then show ?thesis using n ok by (intro exI [of _ m]) (simp add: ptr_of_def fun_upd_idem)
  qed
qed

section \<open>Initialisation and growth\<close>

lemma table_ok_replicate: "1 < n \<Longrightarrow> table_ok (replicate n Empty)"
  by (auto simp: table_ok_def)

lemma fsm_map_replicate [simp]: "fsm_map (replicate n Empty) = Map.empty"
  by (induction n) (simp_all add: fsm_map_def)

lemma empties_replicate [simp]: "empties (replicate n Empty) = n"
  by (induction n) (simp_all add: empties_def)

lemma fsm_init_ok:
  fixes m :: "'a fixed_size_map"
  assumes al: "malloc (sizeof_item * len)" and len: "1 < unat len" "24 * unat len < 2 ^ 64"
  shows "\<exists>m'. fsm_init malloc m len = Some m' \<and> fsm_ok m' \<and> length (items m') = unat len \<and> count m' = len \<and>
    fsm_map (items m') = Map.empty"
proof -
  let ?n = "unat len"
  have u: "unat (sizeof_item * len) = 24 * ?n" using len(2) by (simp add: sizeof_item_def unat_word_ariths)
  have st: "unat (sizeof_item * len) div unat sizeof_item = ?n" unfolding u by (simp add: sizeof_item_def)
  let ?m = "m\<lparr>fsm_length := len, items := replicate ?n Uninit_item, count := len\<rparr>"
  let ?b = "\<lambda>i m. do { its \<leftarrow> arr_set (items m) i Empty; Some (m\<lparr>items := its\<rparr>) }"
  let ?I = "\<lambda>k t. t = ?m\<lparr>items := replicate k Empty @ replicate (?n - k) Uninit_item\<rparr>"
  have "\<exists>t. c_for [0..<?n] ?b ?m = Some t \<and> ?I (length [0..<?n]) t"
  proof (rule c_for_inv)
    fix k t assume k: "k < length [0..<?n]" and t: "?I k t"
    have "replicate (?n - k) (Uninit_item :: 'a item) = Uninit_item # replicate (?n - Suc k) Uninit_item"
      using k by (metis Suc_diff_Suc diff_zero length_upt replicate_Suc)
    then have "(replicate k Empty @ replicate (?n - k) (Uninit_item :: 'a item))[k := Empty] =
        replicate (Suc k) Empty @ replicate (?n - Suc k) Uninit_item"
      by (simp add: list_update_append replicate_append_same)
    then show "\<exists>t'. ?b ([0..<?n] ! k) t = Some t' \<and> ?I (Suc k) t'" using k t by (simp add: arr_set_def)
  qed simp
  then have "fsm_init malloc m len = Some (?m\<lparr>items := replicate ?n Empty\<rparr>)"
    using al unfolding fsm_init_def st by (simp add: Let_def)
  then show ?thesis using len table_ok_replicate [of ?n] by (simp add: fsm_ok_def)
qed

lemma insert_depth_ok:
  assumes "fsm_ok m" "2 \<le> count m"
  shows "\<exists>m'. insert_depth malloc (Suc d) m k v = Some (ptr_of (fsm_map (items m) k), m') \<and> fsm_ok m' \<and>
    fsm_map (items m') = (fsm_map (items m))(k \<mapsto> v) \<and> length (items m') = length (items m) \<and>
    unat (count m) \<le> Suc (unat (count m'))"
proof -
  have c: "1 < count m" using assms(2) by (simp add: word_le_nat_alt word_less_nat_alt)
  have "insert_depth malloc (Suc d) m k v = insert_item m k v"
    using assms(2) by (simp add: fsm_realloc_if_necessary_def compute_min_count_def)
  then show ?thesis using insert_item_ok [OF assms(1) c, of k v] by simp
qed

lemma fsm_map_take:
  assumes T: "table_ok its" and k: "k < length its"
  shows "fsm_map (take (Suc k) its) =
    (case its ! k of Entry key v \<Rightarrow> (fsm_map (take k its))(key \<mapsto> v) | _ \<Rightarrow> fsm_map (take k its))"
proof -
  let ?f = "\<lambda>it. case it of Entry k v \<Rightarrow> [(k, v)] | _ \<Rightarrow> []"
  have t: "concat (map ?f (take (Suc k) its)) = concat (map ?f (take k its)) @ ?f (its ! k)"
    using k by (simp add: take_Suc_conv_app_nth)
  show ?thesis
  proof (cases "its ! k")
    case (Entry key v)
    have "map_of (concat (map ?f (take k its))) key = None"
    proof (rule ccontr)
      assume "\<not> ?thesis"
      then obtain w where "(key, w) \<in> set (concat (map ?f (take k its)))" using map_of_SomeD by fastforce
      then obtain it where "it \<in> set (take k its)" "(key, w) \<in> set (?f it)" by auto
      then have "Entry key w \<in> set (take k its)" by (cases it) auto
      then obtain j where "j < k" "its ! j = Entry key w" using k by (auto simp: in_set_conv_nth)
      then show False using table_key_unique [OF T, of j k key] k Entry by simp
    qed
    then show ?thesis using t Entry by (auto simp: fsm_map_def map_add_def fun_eq_iff split: option.splits)
  qed (use t in \<open>simp_all add: fsm_map_def\<close>)
qed

definition max_len :: nat where "max_len = 384307168202282309"

lemma length_bound: "len < SIZE_MAX div 2 div sizeof_item - 16 \<longleftrightarrow> unat len < max_len"
  by (simp add: SIZE_MAX_def sizeof_item_def max_len_def word_less_nat_alt)

lemma fsm_realloc_ok:
  assumes ok: "fsm_ok m" and al: "\<forall>n. malloc n" and r: "2 \<le> count m \<or> unat (fsm_length m) < max_len"
  shows "\<exists>m'. fsm_realloc_if_necessary malloc (insert_depth malloc (Suc d)) m = Some m' \<and> fsm_ok m' \<and>
    fsm_map (items m') = fsm_map (items m) \<and> 2 \<le> count m' \<and> length (items m) \<le> length (items m')"
proof (cases "2 \<le> count m")
  case True
  then show ?thesis using ok by (simp add: fsm_realloc_if_necessary_def compute_min_count_def)
next
  case False
  let ?n = "length (items m)" and ?ins = "insert_depth malloc (Suc d)"
  have T: "table_ok (items m)" and l: "unat (fsm_length m) = ?n" using ok by (auto simp: fsm_ok_def)
  have n: "1 < ?n" "?n < max_len" using T r False l by (auto simp: table_ok_def)
  have ul: "unat (fsm_length m * 2) = 2 * ?n" using n(2) l by (simp add: unat_word_ariths max_len_def)
  have il: "1 < unat (fsm_length m * 2)" "24 * unat (fsm_length m * 2) < 2 ^ 64" using ul n by (simp_all add: max_len_def)
  obtain m2 where m2: "fsm_init malloc m (fsm_length m * 2) = Some m2" "fsm_ok m2" "length (items m2) = 2 * ?n"
    "count m2 = fsm_length m * 2" "fsm_map (items m2) = Map.empty"
    using fsm_init_ok [where m = m and malloc = malloc, OF spec [OF al] il] ul by auto
  let ?b = "\<lambda>i m2. do { it \<leftarrow> arr_get (items m) i;
      case it of Entry k v \<Rightarrow> do { (_, m2) \<leftarrow> ?ins m2 k v; Some m2 } | Uninit_item \<Rightarrow> None | _ \<Rightarrow> Some m2 }"
  let ?I = "\<lambda>k t. fsm_ok t \<and> length (items t) = 2 * ?n \<and> fsm_map (items t) = fsm_map (take k (items m)) \<and>
      2 * ?n \<le> unat (count t) + k"
  have "\<exists>t. c_for [0..<?n] ?b m2 = Some t \<and> ?I (length [0..<?n]) t"
  proof (rule c_for_inv)
    show "?I 0 m2" using m2 ul by (simp add: fsm_map_def)
    fix k t assume k: "k < length [0..<?n]" and t: "?I k t"
    then have kn: "k < ?n" by simp
    have c: "2 \<le> count t" using t kn n(1) by (simp add: word_le_nat_alt)
    have U: "items m ! k \<noteq> Uninit_item" using T nth_mem [OF kn] by (auto simp: table_ok_def)
    show "\<exists>t'. ?b ([0..<?n] ! k) t = Some t' \<and> ?I (Suc k) t'"
    proof (cases "items m ! k")
      case (Entry key v)
      obtain t' where "?ins t key v = Some (ptr_of (fsm_map (items t) key), t')" "fsm_ok t'"
        "fsm_map (items t') = (fsm_map (items t))(key \<mapsto> v)" "length (items t') = length (items t)"
        "unat (count t) \<le> Suc (unat (count t'))" using insert_depth_ok [of t malloc d key v] t c by blast
      then show ?thesis using kn t Entry fsm_map_take [OF T kn] by (auto simp del: insert_depth.simps)
    qed (use kn t U fsm_map_take [OF T kn] in auto)
  qed
  then obtain t where t: "c_for [0..<?n] ?b m2 = Some t" "?I ?n t" by auto
  have "fsm_realloc_if_necessary malloc ?ins m = Some t"
    using False n(2) l m2(1) t(1) unfolding fsm_realloc_if_necessary_def length_bound
    by (simp add: compute_min_count_def Let_def del: insert_depth.simps)
  moreover have "2 \<le> count t" using t(2) n(1) by (simp add: word_le_nat_alt)
  ultimately show ?thesis using t(2) by auto
qed

lemma insert_depth_grow:
  assumes ok: "fsm_ok m" and al: "\<forall>n. malloc n" and r: "2 \<le> count m \<or> unat (fsm_length m) < max_len"
  shows "\<exists>m'. insert_depth malloc (Suc (Suc d)) m k v = Some (ptr_of (fsm_map (items m) k), m') \<and> fsm_ok m' \<and>
    fsm_map (items m') = (fsm_map (items m))(k \<mapsto> v)"
proof -
  obtain m1 where m1: "fsm_realloc_if_necessary malloc (insert_depth malloc (Suc d)) m = Some m1" "fsm_ok m1"
    "fsm_map (items m1) = fsm_map (items m)" "2 \<le> count m1" using fsm_realloc_ok [OF assms] by blast
  have "1 < count m1" using m1(4) by (simp add: word_le_nat_alt word_less_nat_alt)
  from insert_item_ok [OF m1(2) this, of k v] m1 show ?thesis by auto
qed

lemma fsm_insert_ok:
  assumes "fsm_ok m" "\<forall>n. malloc n" "2 \<le> count m \<or> unat (fsm_length m) < max_len"
  shows "\<exists>m'. fsm_insert malloc m k v = Some (ptr_of (fsm_map (items m) k), m') \<and> fsm_ok m' \<and>
    fsm_map (items m') = (fsm_map (items m))(k \<mapsto> v)"
  using insert_depth_grow [OF assms, of 0 k v] by (simp add: fsm_insert_def numeral_2_eq_2)

section \<open>The table as a map\<close>

text \<open>
  The interface of finite maps: the values are objects, whose addresses are not null, so that a
  look-up tells a missing key; \<open>malloc\<close> does not fail.
\<close>

definition always :: "u64 \<Rightarrow> bool" where "always n = True"

fun addr_of :: "'a ptr \<Rightarrow> 'a option" where
  "addr_of (Addr a) = Some a"
| "addr_of _ = None"

definition fsm_objects :: "'a fixed_size_map \<Rightarrow> bool" where
  "fsm_objects m \<longleftrightarrow> fsm_ok m \<and> (\<forall>k v. fsm_map (items m) k = Some v \<longrightarrow> addr_of v \<noteq> None)"

definition fsm_abs :: "'a fixed_size_map \<Rightarrow> u64 \<Rightarrow> 'a option" where
  "fsm_abs m k = addr_of (ptr_of (fsm_map (items m) k))"

definition fsm_room :: "'a fixed_size_map \<Rightarrow> bool" where
  "fsm_room m \<longleftrightarrow> 2 \<le> count m \<or> unat (fsm_length m) < max_len"

lemma fsm_abs_upd:
  "fsm_map (items m') = (fsm_map (items m))(k \<mapsto> Addr a) \<Longrightarrow> fsm_abs m' = (fsm_abs m)(k \<mapsto> a)"
  "fsm_map (items m') = (fsm_map (items m))(k := None) \<Longrightarrow> fsm_abs m' = (fsm_abs m)(k := None)"
  by (simp_all add: fsm_abs_def fun_eq_iff ptr_of_def)

interpretation fsm: remove_map fsm_objects fsm_abs "\<lambda>m k. map_option addr_of (fsm_get m k)" fsm_room
  "\<lambda>m k a. map_option snd (fsm_insert always m k (Addr a))" "\<lambda>m k. map_option snd (fsm_remove m k)"
proof unfold_locales
  fix m :: "'a fixed_size_map" and k
  assume m: "fsm_objects m"
  then have ok: "fsm_ok m" and ob: "\<forall>k v. fsm_map (items m) k = Some v \<longrightarrow> addr_of v \<noteq> None" by (auto simp: fsm_objects_def)
  show "map_option addr_of (fsm_get m k) = Some (fsm_abs m k)" using fsm_get_ok [OF ok] by (simp add: fsm_abs_def)
  obtain m' where m': "fsm_remove m k = Some (ptr_of (fsm_map (items m) k), m')" "fsm_ok m'"
    "fsm_map (items m') = (fsm_map (items m))(k := None)" using fsm_remove_ok [OF ok] by blast
  then have "fsm_objects m'" using ob by (auto simp: fsm_objects_def split: if_splits)
  then show "\<exists>s'. map_option snd (fsm_remove m k) = Some s' \<and> fsm_objects s' \<and> fsm_abs s' = (fsm_abs m)(k := None)"
    using m' fsm_abs_upd(2) [OF m'(3)] by simp
next
  fix m :: "'a fixed_size_map" and k a
  assume m: "fsm_objects m" and r: "fsm_room m"
  then have ok: "fsm_ok m" and ob: "\<forall>k v. fsm_map (items m) k = Some v \<longrightarrow> addr_of v \<noteq> None" by (auto simp: fsm_objects_def)
  have al: "\<forall>n. always n" by (simp add: always_def)
  obtain m' where m': "fsm_insert always m k (Addr a) = Some (ptr_of (fsm_map (items m) k), m')" "fsm_ok m'"
    "fsm_map (items m') = (fsm_map (items m))(k \<mapsto> Addr a)"
    using fsm_insert_ok [OF ok al] r by (auto simp: fsm_room_def)
  then have "fsm_objects m'" using ob by (auto simp: fsm_objects_def split: if_splits)
  then show "\<exists>s'. map_option snd (fsm_insert always m k (Addr a)) = Some s' \<and> fsm_objects s' \<and> fsm_abs s' = (fsm_abs m)(k \<mapsto> a)"
    using m' fsm_abs_upd(1) [OF m'(3)] by simp
qed

section \<open>Properties\<close>

text \<open>
  C10. \<open>fsm_insert\<close> on a well-formed table, when \<open>malloc\<close> succeeds and the table can still be doubled
  or has two empty slots: it terminates without a fault, returns the value that the key had, or
  null, the table stays well-formed, an empty slot is left in it, and its map is updated at the
  key, whether or not the table was copied to one of twice the size; a call depth of two is
  enough, and any larger depth works as well.
\<close>

theorem fsm_insert_spec:
  assumes "fsm_ok m" "\<forall>n. malloc n" "2 \<le> count m \<or> unat (fsm_length m) < max_len"
  shows "(\<exists>m'. fsm_insert malloc m k v = Some (ptr_of (fsm_map (items m) k), m') \<and> fsm_ok m' \<and>
      fsm_map (items m') = (fsm_map (items m))(k \<mapsto> v)) \<and>
    (\<exists>m'. insert_depth malloc (d + 2) m k v = Some (ptr_of (fsm_map (items m) k), m') \<and> fsm_ok m' \<and>
      fsm_map (items m') = (fsm_map (items m))(k \<mapsto> v))"
  using fsm_insert_ok [OF assms, of k v] insert_depth_grow [OF assms, of d k v]
  by (simp del: insert_depth.simps)

text \<open>
  The table is a map: after the insertion of an object at a key, a look-up of this key gives the
  object and one of another key what it gave before; and inserting an object at a new key and
  removing it again gives back the map.
\<close>

theorem fsm_map_laws:
  assumes "fsm_objects m" "fsm_room m"
  shows "(\<exists>m'. map_option snd (fsm_insert always m k (Addr a)) = Some m' \<and> fsm_objects m' \<and>
      map_option addr_of (fsm_get m' j) = (if j = k then Some (Some a) else map_option addr_of (fsm_get m j))) \<and>
    (fsm_abs m k = None \<longrightarrow> (\<exists>m1 m2. map_option snd (fsm_insert always m k (Addr a)) = Some m1 \<and>
      map_option snd (fsm_remove m1 k) = Some m2 \<and> fsm_objects m2 \<and> fsm_abs m2 = fsm_abs m))"
  using fsm.get_insert [OF assms] fsm.insert_remove [OF assms] by blast

text \<open>A table of two slots that has to grow for its second key.\<close>

definition demo_table :: "nat fixed_size_map" where
  "demo_table = \<lparr>items = [Empty, Entry 3 (Addr 30)], count = 1, fsm_length = 2\<rparr>"

lemma demo_table_ok: "fsm_ok demo_table"
proof -
  have "stops [Empty, Entry 3 (Addr 30)] 3 (Suc 0)"
    unfolding stops_def by (intro exI [of _ 0]) (simp add: probe_slot_def busy_def flip: numeral_2_eq_2)
  then show ?thesis
    by (auto simp: fsm_ok_def demo_table_def table_ok_def empties_def less_Suc_eq)
qed

lemma demo_table_map: "fsm_map (items demo_table) = [3 \<mapsto> Addr 30]"
  by (simp add: fsm_map_def demo_table_def)

theorem fsm_insert_spec_witness:
  "(\<exists>m'. fsm_insert always demo_table 5 (Addr 50) = Some (NULL, m') \<and> fsm_ok m' \<and>
      fsm_map (items m') = [3 \<mapsto> Addr 30, 5 \<mapsto> Addr 50]) \<and>
   (\<exists>m'. insert_depth always (7 + 2) demo_table 5 (Addr 50) = Some (NULL, m') \<and> fsm_ok m' \<and>
      fsm_map (items m') = [3 \<mapsto> Addr 30, 5 \<mapsto> Addr 50])"
proof -
  have al: "\<forall>n. always n" by (simp add: always_def)
  have r: "2 \<le> count demo_table \<or> unat (fsm_length demo_table) < max_len" by (simp add: demo_table_def max_len_def)
  show ?thesis using fsm_insert_spec [OF demo_table_ok al r, of 5 "Addr 50" 7] unfolding demo_table_map
    by (simp add: ptr_of_def del: insert_depth.simps)
qed

theorem fsm_map_laws_witness:
  "(\<exists>m'. map_option snd (fsm_insert always demo_table 5 (Addr 50)) = Some m' \<and> fsm_get m' 5 \<noteq> None) \<and>
   (\<exists>m1 m2. map_option snd (fsm_insert always demo_table 5 (Addr 50)) = Some m1 \<and>
      map_option snd (fsm_remove m1 5) = Some m2 \<and> fsm_abs m2 = [3 \<mapsto> 30])"
proof -
  have a: "fsm_abs demo_table = [3 \<mapsto> 30]" by (auto simp: fsm_abs_def demo_table_map ptr_of_def fun_eq_iff)
  have ob: "fsm_objects demo_table" using demo_table_ok by (simp add: fsm_objects_def demo_table_map)
  have r: "fsm_room demo_table" by (simp add: fsm_room_def demo_table_def max_len_def)
  from fsm_map_laws [OF ob r, where k = 5 and a = 50 and j = 5] a show ?thesis by (auto split: if_splits)
qed

end
