(* ===== verification/Talloc.thy ===== *)
theory Talloc
  imports Spinlock
begin

text \<open>
  The thread-safe free-list allocator of the tutorial, \<open>src/tutorial/t04_alloc.c\<close>.

  The memory maps addresses to words: an integer of type \<open>size_t\<close>, a pointer or a value of
  the client (\<open>'k\<close>). A free block starts with a \<open>struct alloc_entry\<close>, its size and, eight bytes
  on, the pointer to the next entry. The global \<open>allocator_state\<close> has its lock in the record below
  and its field \<open>data\<close> in the memory, at the address \<open>data_addr\<close>, since \<open>talloc\<close> takes its address.
  Reading a word at another type than it was written at is a fault.
\<close>

section \<open>The program\<close>

datatype 'k tword = TUninit | TSize u64 | TPtr "nat ptr" | TVal 'k

record 'k tmem =
  al_lock :: spinlock
  data_addr :: nat
  words :: "(nat, 'k tword) heap"

definition get_tsize :: "'k tmem \<Rightarrow> nat \<Rightarrow> u64 option" where
  "get_tsize s a = (case words s a of Some (TSize n) \<Rightarrow> Some n | _ \<Rightarrow> None)"

definition get_tptr :: "'k tmem \<Rightarrow> nat \<Rightarrow> nat ptr option" where
  "get_tptr s a = (case words s a of Some (TPtr p) \<Rightarrow> Some p | _ \<Rightarrow> None)"

definition get_tval :: "'k tmem \<Rightarrow> nat \<Rightarrow> 'k option" where
  "get_tval s a = (case words s a of Some (TVal v) \<Rightarrow> Some v | _ \<Rightarrow> None)"

definition put_word :: "'k tmem \<Rightarrow> nat \<Rightarrow> 'k tword \<Rightarrow> 'k tmem option" where
  "put_word s a v = (if words s a = None then None else Some (s\<lparr>words := (words s)(a \<mapsto> v)\<rparr>))"

text \<open>The object a valid pointer points to.\<close>

definition deref :: "nat ptr \<Rightarrow> nat option" where
  "deref p = (case p of Addr a \<Rightarrow> Some a | _ \<Rightarrow> None)"

lemma deref_Addr [simp]: "deref (Addr a) = Some a"
  by (simp add: deref_def)

text \<open>The address of the field \<open>next\<close> of an \<open>alloc_entry\<close>, and the size of the struct.\<close>

definition ae_next :: "nat \<Rightarrow> nat" where
  "ae_next a = a + 8"

definition sizeof_alloc_entry :: u64 where
  "sizeof_alloc_entry = 16"

definition lock_talloc :: "'k tmem \<Rightarrow> 'k tmem option" where
  "lock_talloc s = do { l \<leftarrow> sl_lock (al_lock s); Some (s\<lparr>al_lock := l\<rparr>) }"

definition unlock_talloc :: "'k tmem \<Rightarrow> 'k tmem" where
  "unlock_talloc s = s\<lparr>al_lock := sl_unlock (al_lock s)\<rparr>"

text \<open>
  The inner loop of \<open>talloc\<close>; \<open>prev\<close> is the address of the pointer to the current entry. It ends
  with the address to return, or without one at the end of the list.
\<close>

partial_function (option) talloc_scan :: "'k tmem \<Rightarrow> u64 \<Rightarrow> nat \<Rightarrow> (nat option \<times> 'k tmem) option" where
  "talloc_scan s sz prev =
     Option.bind (get_tptr s prev) (\<lambda>p.
       case p of
         NULL \<Rightarrow> Some (None, s)
       | Poison _ \<Rightarrow> None
       | Addr cur \<Rightarrow> Option.bind (get_tsize s cur) (\<lambda>csize.
           if csize = sz then do {
             nxt \<leftarrow> get_tptr s (ae_next cur);
             s \<leftarrow> put_word s prev (TPtr nxt);
             Some (Some cur, unlock_talloc s) }
           else if csize \<ge> sz + sizeof_alloc_entry then do {
             s \<leftarrow> put_word s cur (TSize (csize - sz));
             n \<leftarrow> get_tsize s cur;
             Some (Some (cur + unat n), unlock_talloc s) }
           else talloc_scan s sz (ae_next cur)))"

partial_function (option) talloc :: "'k tmem \<Rightarrow> u64 \<Rightarrow> (nat \<times> 'k tmem) option" where
  "talloc s sz =
     Option.bind (lock_talloc s) (\<lambda>s.
       Option.bind (talloc_scan s sz (data_addr s)) (\<lambda>(r, s).
         case r of Some ret \<Rightarrow> Some (ret, s) | None \<Rightarrow> talloc (unlock_talloc s) sz))"

definition tfree :: "'k tmem \<Rightarrow> u64 \<Rightarrow> nat \<Rightarrow> 'k tmem option" where
  "tfree s sz p =
     (if sz < sizeof_alloc_entry then Some s
      else do {
        s \<leftarrow> put_word s p (TSize sz);
        s \<leftarrow> lock_talloc s;
        d \<leftarrow> get_tptr s (data_addr s);
        s \<leftarrow> put_word s (ae_next p) (TPtr d);
        s \<leftarrow> put_word s (data_addr s) (TPtr (Addr p));
        Some (unlock_talloc s) })"

definition init_talloc :: "'k tmem \<Rightarrow> 'k tmem option" where
  "init_talloc s = (let s = s\<lparr>al_lock := sl_init (al_lock s)\<rparr> in put_word s (data_addr s) (TPtr NULL))"

definition talloc_array :: "'k tmem \<Rightarrow> u64 \<Rightarrow> u64 \<Rightarrow> (nat \<times> 'k tmem) option" where
  "talloc_array s sz n = talloc s (n * sz)"

definition tfree_array :: "'k tmem \<Rightarrow> u64 \<Rightarrow> u64 \<Rightarrow> nat \<Rightarrow> 'k tmem option" where
  "tfree_array s sz n p = tfree s (n * sz) p"

section \<open>Representation of the free list\<close>

text \<open>The bytes of a block, and of the blocks of a list.\<close>

definition tblk :: "nat \<Rightarrow> nat \<Rightarrow> nat set" where
  "tblk a n = {a..<a + n}"

definition blks :: "(nat \<times> u64) list \<Rightarrow> nat set" where
  "blks bs = (\<Union>(a, n)\<in>set bs. tblk a (unat n))"

text \<open>A block that an entry fits in, aligned to eight bytes.\<close>

definition blk_ok :: "(nat, 'k tword) heap \<Rightarrow> nat \<Rightarrow> nat \<Rightarrow> bool" where
  "blk_ok w a n \<longleftrightarrow> 8 dvd a \<and> 8 dvd n \<and> 16 \<le> n \<and> tblk a n \<subseteq> dom w"

fun free_list :: "(nat, 'k tword) heap \<Rightarrow> nat ptr \<Rightarrow> (nat \<times> u64) list \<Rightarrow> bool" where
  "free_list w p [] \<longleftrightarrow> p = NULL"
| "free_list w p ((a, n) # bs) \<longleftrightarrow> p = Addr a \<and> blk_ok w a (unat n) \<and> w a = Some (TSize n) \<and>
     tblk a (unat n) \<inter> blks bs = {} \<and> (\<exists>q. w (ae_next a) = Some (TPtr q) \<and> free_list w q bs)"

text \<open>The allocator is idle and its free blocks are \<open>bs\<close>.\<close>

definition talloc_at :: "'k tmem \<Rightarrow> (nat \<times> u64) list \<Rightarrow> bool" where
  "talloc_at s bs \<longleftrightarrow> \<not> lock (al_lock s) \<and> data_addr s \<notin> blks bs \<and>
     (\<exists>p. words s (data_addr s) = Some (TPtr p) \<and> free_list (words s) p bs)"

text \<open>First fit on the list: an exact block is unlinked, a block that is larger by at least an entry
  gives its end.\<close>

fun first_fit :: "u64 \<Rightarrow> (nat \<times> u64) list \<Rightarrow> (nat \<times> (nat \<times> u64) list) option" where
  "first_fit n [] = None"
| "first_fit n ((a, m) # bs) =
     (if m = n then Some (a, bs)
      else if m \<ge> n + 16 then Some (a + unat (m - n), (a, m - n) # bs)
      else map_option (\<lambda>(r, bs). (r, (a, m) # bs)) (first_fit n bs))"

lemma blks_simps [simp]: "blks [] = {}" "blks ((a, n) # bs) = tblk a (unat n) \<union> blks bs"
  by (auto simp: blks_def)

lemma blk_words:
  assumes "blk_ok w a n"
  shows "a \<in> tblk a n" "ae_next a \<in> tblk a n" "a \<in> dom w" "ae_next a \<in> dom w"
  using assms by (auto simp: blk_ok_def tblk_def ae_next_def subset_iff)

lemma ae_next_neq [simp]: "ae_next a \<noteq> a" "a \<noteq> ae_next a"
  by (simp_all add: ae_next_def)

lemma blk_ok_cong: "blk_ok w a n \<Longrightarrow> dom w' = dom w \<Longrightarrow> blk_ok w' a n"
  by (simp add: blk_ok_def)

lemma free_list_cong:
  "free_list w p bs \<Longrightarrow> (\<And>x. x \<in> blks bs \<Longrightarrow> w' x = w x) \<Longrightarrow> dom w' = dom w \<Longrightarrow> free_list w' p bs"
proof (induction bs arbitrary: p)
  case (Cons b bs)
  obtain a n where b: "b = (a, n)" by (cases b)
  from Cons.prems(1) b have ok: "blk_ok w a (unat n)" by simp
  have "w' a = w a" "w' (ae_next a) = w (ae_next a)" using blk_words [OF ok] b Cons.prems(2) by auto
  moreover have "free_list w' q bs" if "free_list w q bs" for q
    using that Cons.prems(2,3) b by (intro Cons.IH) auto
  ultimately show ?case using Cons.prems(1,3) ok b by (auto intro: blk_ok_cong)
qed simp

lemma free_list_dom: "free_list w p bs \<Longrightarrow> blks bs \<subseteq> dom w"
proof (induction bs arbitrary: p)
  case (Cons b bs)
  then show ?case by (cases b) (fastforce simp: blk_ok_def)
qed simp


section \<open>Allocation and release\<close>

lemma no_wrap: "unat n + 16 < 2 ^ 64 \<Longrightarrow> unat (n + 16) = unat (n :: u64) + 16"
  by (subst unat_word_ariths) simp

lemma fits_room:
  assumes "n + 16 \<le> (m :: u64)" "unat n + 16 < 2 ^ 64"
  shows "unat n + 16 \<le> unat m" "unat (m - n) = unat m - unat n"
proof -
  show "unat n + 16 \<le> unat m" using assms no_wrap [OF assms(2)] by (simp add: word_le_nat_alt)
  then show "unat (m - n) = unat m - unat n" by (simp add: unat_sub word_le_nat_alt)
qed

lemma blk_split: "k \<le> n \<Longrightarrow> tblk a n = tblk a k \<union> tblk (a + k) (n - k)" "tblk a k \<inter> tblk (a + k) j = {}"
  by (auto simp: tblk_def)

text \<open>What first fit takes and what it leaves are disjoint and make up the list it was given.\<close>

lemma first_fit_split:
  assumes "free_list w p bs" "first_fit n bs = Some (r, bs')" "unat n + 16 < 2 ^ 64" "8 dvd unat n"
  shows "tblk r (unat n) \<union> blks bs' = blks bs \<and> tblk r (unat n) \<inter> blks bs' = {} \<and> 8 dvd r \<and> tblk r (unat n) \<subseteq> dom w"
  using assms
proof (induction bs arbitrary: p bs')
  case (Cons b bs)
  obtain a m where b: "b = (a, m)" by (cases b)
  with Cons.prems have D: "blk_ok w a (unat m)" "tblk a (unat m) \<inter> blks bs = {}" "\<exists>q. free_list w q bs" by auto
  consider "m = n" | "m \<noteq> n" "n + 16 \<le> m" | "m \<noteq> n" "\<not> n + 16 \<le> m" by blast
  then show ?case
  proof cases
    case 1
    then show ?thesis using Cons.prems(2) b D by (auto simp: blk_ok_def)
  next
    case 2
    note f = fits_room [OF 2(2) assms(3)]
    have r: "r = a + (unat m - unat n)" "bs' = (a, m - n) # bs" using Cons.prems(2) b 2 f by auto
    have s: "tblk a (unat m) = tblk a (unat m - unat n) \<union> tblk r (unat n)" "tblk a (unat m - unat n) \<inter> tblk r (unat n) = {}"
      using blk_split(1) [of "unat m - unat n" "unat m" a] blk_split(2) [of a "unat m - unat n" "unat n"] f r by auto
    have "8 dvd unat m - unat n" using D(1) assms(4) by (simp add: blk_ok_def dvd_diff_nat)
    then have "8 dvd r" "tblk r (unat n) \<subseteq> dom w" using D(1) s(1) r(1) unfolding blk_ok_def by auto
    with s D(2) f r(2) show ?thesis unfolding b by auto
  next
    case 3
    then obtain ds where ds: "first_fit n bs = Some (r, ds)" "bs' = (a, m) # ds" using Cons.prems(2) b by auto
    from Cons.IH [OF _ ds(1) assms(3,4)] D(3)
    have "tblk r (unat n) \<union> blks ds = blks bs" "tblk r (unat n) \<inter> blks ds = {}" "8 dvd r" "tblk r (unat n) \<subseteq> dom w" by auto
    with D(2) ds(2) b show ?thesis by auto
  qed
qed simp

lemma first_fit_area:
  assumes "free_list w p bs" "first_fit n bs = Some (r, bs')" "unat n + 16 < 2 ^ 64" "8 dvd unat n" "16 \<le> unat n"
  shows "tblk r (unat n) \<union> blks bs' = blks bs \<and> tblk r (unat n) \<inter> blks bs' = {} \<and> blk_ok w r (unat n)"
  using first_fit_split [OF assms(1-4)] assms(4,5) by (simp add: blk_ok_def)

lemma first_fit_sub: "first_fit n bs = Some (r, bs') \<Longrightarrow> unat n + 16 < 2 ^ 64 \<Longrightarrow> blks bs' \<subseteq> blks bs"
proof (induction bs arbitrary: bs')
  case (Cons b bs)
  then show ?case using fits_room(2) [of n "snd b"] by (cases b) (fastforce simp: tblk_def split: if_splits)
qed simp

lemma scan_none:
  assumes "free_list (words s) p bs" "words s pv = Some (TPtr p)" "first_fit n bs = None"
  shows "talloc_scan s n pv = Some (None, s)"
  using assms
proof (induction bs arbitrary: p pv)
  case Nil
  then show ?case by (subst talloc_scan.simps) (simp add: get_tptr_def)
next
  case (Cons b bs)
  obtain a m where b: "b = (a, m)" by (cases b)
  with Cons.prems obtain q where q: "words s (ae_next a) = Some (TPtr q)" "free_list (words s) q bs" by auto
  have c: "m \<noteq> n" "\<not> n + 16 \<le> m" "first_fit n bs = None" using Cons.prems(3) b by (auto split: if_splits)
  show ?case using Cons.prems(1,2) b c(1,2) Cons.IH [OF q(2,1) c(3)]
    by (subst talloc_scan.simps) (auto simp: get_tptr_def get_tsize_def sizeof_alloc_entry_def)
qed

lemma scan_some:
  assumes "free_list (words s) p bs" "words s pv = Some (TPtr p)" "pv \<notin> blks bs"
    "first_fit n bs = Some (r, bs')" "unat n + 16 < 2 ^ 64" "8 dvd unat n"
  shows "\<exists>w' p'. talloc_scan s n pv = Some (Some r, unlock_talloc (s\<lparr>words := w'\<rparr>)) \<and> w' pv = Some (TPtr p') \<and>
    free_list w' p' bs' \<and> dom w' = dom (words s) \<and> (\<forall>x. x \<noteq> pv \<longrightarrow> x \<notin> blks bs \<longrightarrow> w' x = words s x)"
  using assms
proof (induction bs arbitrary: p pv bs')
  case (Cons b bs)
  obtain a m where b: "b = (a, m)" by (cases b)
  with Cons.prems obtain q where D: "blk_ok (words s) a (unat m)" "tblk a (unat m) \<inter> blks bs = {}"
    "words s (ae_next a) = Some (TPtr q)" "free_list (words s) q bs" "words s a = Some (TSize m)" "p = Addr a" by auto
  note aw = blk_words [OF D(1)]
  have pv: "pv \<notin> tblk a (unat m)" "pv \<notin> blks bs" "pv \<noteq> a" using Cons.prems(3) b aw by auto
  consider "m = n" | "m \<noteq> n" "n + 16 \<le> m" | "m \<noteq> n" "\<not> n + 16 \<le> m" by blast
  then show ?case
  proof cases
    case 1
    let ?w = "(words s)(pv \<mapsto> TPtr q)"
    have r: "r = a" "bs' = bs" using Cons.prems(4) b 1 by auto
    have "talloc_scan s n pv = Some (Some r, unlock_talloc (s\<lparr>words := ?w\<rparr>))"
      using D Cons.prems(2) 1 r by (subst talloc_scan.simps) (simp add: get_tptr_def get_tsize_def put_word_def)
    moreover have "dom ?w = dom (words s)" using Cons.prems(2) by auto
    moreover have "free_list ?w q bs'" unfolding r by (rule free_list_cong [OF D(4)]) (use pv Cons.prems(2) in auto)
    ultimately show ?thesis using pv by fastforce
  next
    case 2
    note f = fits_room [OF 2(2) assms(5)]
    let ?w = "(words s)(a \<mapsto> TSize (m - n))"
    have r: "r = a + unat (m - n)" "bs' = (a, m - n) # bs" using Cons.prems(4) b 2 by auto
    have "talloc_scan s n pv = Some (Some r, unlock_talloc (s\<lparr>words := ?w\<rparr>))"
      using D Cons.prems(2) 2 r
      by (subst talloc_scan.simps) (simp add: get_tptr_def get_tsize_def put_word_def sizeof_alloc_entry_def)
    moreover have dm: "dom ?w = dom (words s)" using D(5) by auto
    moreover have sub: "tblk a (unat (m - n)) \<subseteq> tblk a (unat m)" using f by (auto simp: tblk_def)
    moreover have "free_list ?w q bs" by (rule free_list_cong [OF D(4)]) (use D(2) aw dm in auto)
    moreover have "blk_ok ?w a (unat (m - n))"
      using D(1) f sub dm assms(6) unfolding blk_ok_def by (auto simp: dvd_diff_nat)
    ultimately have "free_list ?w (Addr a) bs'" using D(2,3) r(2) by auto
    then show ?thesis using \<open>talloc_scan s n pv = _\<close> dm pv(3) Cons.prems(2) D(6) aw b by fastforce
  next
    case 3
    then obtain ds where ds: "first_fit n bs = Some (r, ds)" "bs' = (a, m) # ds" using Cons.prems(4) b by auto
    have an: "ae_next a \<notin> blks bs" using aw D(2) by auto
    from Cons.IH [OF D(4,3) an ds(1) assms(5,6)] obtain w' p' where
      w': "talloc_scan s n (ae_next a) = Some (Some r, unlock_talloc (s\<lparr>words := w'\<rparr>))" "w' (ae_next a) = Some (TPtr p')"
        "free_list w' p' ds" "dom w' = dom (words s)" and fr: "\<And>x. x \<noteq> ae_next a \<Longrightarrow> x \<notin> blks bs \<Longrightarrow> w' x = words s x" by blast
    have "talloc_scan s n pv = Some (Some r, unlock_talloc (s\<lparr>words := w'\<rparr>))"
      using D Cons.prems(2) 3 w'(1)
      by (subst talloc_scan.simps) (simp add: get_tptr_def get_tsize_def sizeof_alloc_entry_def)
    moreover have "blks ds \<subseteq> blks bs" using first_fit_sub [OF ds(1) assms(5)] .
    moreover have "w' a = Some (TSize m)" "w' pv = Some (TPtr p)" using fr [of a] fr [of pv] D aw pv Cons.prems(2) by auto
    moreover have "free_list w' (Addr a) bs'"
      using calculation w' D(2) blk_ok_cong [OF D(1) w'(4)] ds(2) by auto
    moreover have "w' x = words s x" if "x \<notin> blks (b # bs)" for x using that b aw by (intro fr) auto
    ultimately show ?thesis using w'(4) D(6) by blast
  qed
qed simp

text \<open>
  The contract of \<open>talloc\<close>: memory is passed from the free blocks to the caller, everything
  outside the free blocks and the head of the list is untouched.
\<close>

definition same_outside :: "nat set \<Rightarrow> 'k tmem \<Rightarrow> 'k tmem \<Rightarrow> bool" where
  "same_outside A s s' \<longleftrightarrow> (\<exists>w'. s' = s\<lparr>words := w'\<rparr> \<and> dom w' = dom (words s) \<and> (\<forall>x. x \<notin> A \<longrightarrow> w' x = words s x))"

lemma same_outside_refl [simp]: "same_outside A s s"
  unfolding same_outside_def by (rule exI [of _ "words s"]) simp

lemma same_outside_trans: "same_outside A s s' \<Longrightarrow> same_outside B s' s'' \<Longrightarrow> same_outside (A \<union> B) s s''"
  unfolding same_outside_def by force

lemma same_outside_mono: "same_outside A s s' \<Longrightarrow> A \<subseteq> B \<Longrightarrow> same_outside B s s'"
  unfolding same_outside_def by blast

lemma same_outsideD:
  "same_outside A s s' \<Longrightarrow> x \<notin> A \<Longrightarrow> words s' x = words s x"
  "same_outside A s s' \<Longrightarrow> dom (words s') = dom (words s)"
  "same_outside A s s' \<Longrightarrow> data_addr s' = data_addr s"
  "same_outside A s s' \<Longrightarrow> al_lock s' = al_lock s"
  unfolding same_outside_def by (elim exE conjE; simp)+

lemma put_word_ok:
  assumes "a \<in> dom (words s)"
  shows "put_word s a v = Some (s\<lparr>words := (words s)(a \<mapsto> v)\<rparr>)"
    and "a \<in> A \<Longrightarrow> same_outside A s (s\<lparr>words := (words s)(a \<mapsto> v)\<rparr>)"
proof -
  show "put_word s a v = Some (s\<lparr>words := (words s)(a \<mapsto> v)\<rparr>)" using assms by (auto simp: put_word_def)
  assume "a \<in> A"
  moreover have "dom ((words s)(a \<mapsto> v)) = dom (words s)" using assms by auto
  ultimately show "same_outside A s (s\<lparr>words := (words s)(a \<mapsto> v)\<rparr>)"
    unfolding same_outside_def by (intro exI [of _ "(words s)(a \<mapsto> v)"]) (auto simp del: dom_fun_upd)
qed

lemma unlock_locked: "\<not> lock l \<Longrightarrow> unlock_talloc (s\<lparr>al_lock := l\<lparr>lock := True\<rparr>\<rparr>) = s\<lparr>al_lock := l\<rparr>"
  by (simp add: unlock_talloc_def sl_unlock_def)

lemma talloc_ok:
  assumes A: "talloc_at s bs" and f: "first_fit n bs = Some (r, bs')" and n: "unat n + 16 < 2 ^ 64" "8 dvd unat n"
  shows "\<exists>s'. talloc s n = Some (r, s') \<and> talloc_at s' bs' \<and> same_outside (insert (data_addr s) (blks bs)) s s'"
proof -
  let ?d = "data_addr s" and ?l = "s\<lparr>al_lock := (al_lock s)\<lparr>lock := True\<rparr>\<rparr>"
  from A obtain p where p: "\<not> lock (al_lock s)" "?d \<notin> blks bs" "words ?l ?d = Some (TPtr p)" "free_list (words ?l) p bs"
    by (auto simp: talloc_at_def)
  from scan_some [OF p(4,3,2) f n] obtain w' p' where w: "talloc_scan ?l n ?d = Some (Some r, unlock_talloc (?l\<lparr>words := w'\<rparr>))"
    "w' ?d = Some (TPtr p')" "free_list w' p' bs'" "dom w' = dom (words s)" "\<forall>x. x \<noteq> ?d \<longrightarrow> x \<notin> blks bs \<longrightarrow> w' x = words s x"
    by auto
  have u: "unlock_talloc (?l\<lparr>words := w'\<rparr>) = s\<lparr>words := w'\<rparr>"
    using p(1) by (cases s) (simp add: unlock_talloc_def sl_unlock_def)
  then have "talloc s n = Some (r, s\<lparr>words := w'\<rparr>)"
    using p(1) w(1) by (subst talloc.simps) (simp add: lock_talloc_def)
  moreover have "?d \<notin> blks bs'" using first_fit_sub [OF f n(1)] p(2) by blast
  then have "talloc_at (s\<lparr>words := w'\<rparr>) bs'" using p(1) w(2,3) by (simp add: talloc_at_def)
  ultimately show ?thesis using w(4,5) by (auto simp: same_outside_def)
qed

lemma talloc_waits:
  assumes A: "talloc_at s bs" and f: "first_fit n bs = None"
  shows "talloc s n = None"
proof (rule ccontr)
  let ?d = "data_addr s" and ?l = "s\<lparr>al_lock := (al_lock s)\<lparr>lock := True\<rparr>\<rparr>"
  from A obtain p where p: "\<not> lock (al_lock s)" "words ?l ?d = Some (TPtr p)" "free_list (words ?l) p bs"
    by (auto simp: talloc_at_def)
  have step: "lock_talloc s = Some ?l" "talloc_scan ?l n (data_addr ?l) = Some (None, ?l)" "unlock_talloc ?l = s"
    using p(1) scan_none [OF p(3,2) f] by (simp_all add: lock_talloc_def unlock_talloc_def sl_unlock_def)
  assume "talloc s n \<noteq> None"
  then obtain r where r: "talloc s n = Some r" by auto
  have "(s', n') = (s, n) \<longrightarrow> False" if "talloc s' n' = Some r" for s' n'
    using that
    by (rule talloc.raw_induct [where P = "\<lambda>s' n' r. (s', n') = (s, n) \<longrightarrow> False", rotated])
      (use step in \<open>fastforce split: option.splits prod.splits simp: bind_eq_Some_conv\<close>)
  with r show False by blast
qed

lemma tfree_ok:
  assumes A: "talloc_at s bs" and b: "blk_ok (words s) a (unat n)" "tblk a (unat n) \<inter> insert (data_addr s) (blks bs) = {}"
  shows "\<exists>s'. tfree s n a = Some s' \<and> talloc_at s' ((a, n) # bs) \<and> same_outside (insert (data_addr s) (tblk a (unat n))) s s'"
proof -
  let ?d = "data_addr s"
  from A obtain p where p: "\<not> lock (al_lock s)" "?d \<notin> blks bs" "words s ?d = Some (TPtr p)" "free_list (words s) p bs"
    by (auto simp: talloc_at_def)
  note aw = blk_words [OF b(1)]
  let ?w = "(words s)(a \<mapsto> TSize n, ae_next a \<mapsto> TPtr p, ?d \<mapsto> TPtr (Addr a))"
  have n: "\<not> n < sizeof_alloc_entry" using b(1) by (simp add: blk_ok_def sizeof_alloc_entry_def word_less_nat_alt)
  have d: "?d \<noteq> a" "?d \<noteq> ae_next a" using aw b(2) by auto
  have dm: "dom ?w = dom (words s)" using aw p(3) by auto
  have "tfree s n a = Some (s\<lparr>words := ?w\<rparr>)"
    using n p d aw by (cases s) (auto simp: tfree_def put_word_def lock_talloc_def get_tptr_def unlock_talloc_def sl_unlock_def)
  moreover have "free_list ?w p bs" by (rule free_list_cong [OF p(4)]) (use dm aw b(2) p(2) in auto)
  then have "talloc_at (s\<lparr>words := ?w\<rparr>) ((a, n) # bs)"
    using p b d dm blk_ok_cong [OF b(1) dm] by (auto simp: talloc_at_def)
  ultimately show ?thesis using dm aw unfolding same_outside_def by fastforce
qed

lemma init_talloc_ok:
  "data_addr s \<in> dom (words s) \<Longrightarrow> \<exists>s'. init_talloc s = Some s' \<and> talloc_at s' [] \<and> data_addr s' = data_addr s \<and>
    (\<forall>x. x \<noteq> data_addr s \<longrightarrow> words s' x = words s x) \<and> dom (words s') = dom (words s)"
  by (auto simp: init_talloc_def put_word_def talloc_at_def sl_init_def Let_def)

text \<open>Writes outside of the free blocks.\<close>

lemma talloc_at_outside:
  "talloc_at s bs \<Longrightarrow> same_outside A s s' \<Longrightarrow> A \<inter> insert (data_addr s) (blks bs) = {} \<Longrightarrow> talloc_at s' bs"
proof -
  assume A: "talloc_at s bs" and S: "same_outside A s s'" and d: "A \<inter> insert (data_addr s) (blks bs) = {}"
  note so = same_outsideD [OF S]
  obtain p where p: "words s (data_addr s) = Some (TPtr p)" "free_list (words s) p bs" "data_addr s \<notin> blks bs" "\<not> lock (al_lock s)"
    using A by (auto simp: talloc_at_def)
  have "words s' x = words s x" if "x \<in> blks bs" for x by (rule so(1)) (use that d in blast)
  then have "free_list (words s') p bs" by (rule free_list_cong [OF p(2)]) (assumption, rule so(2))
  moreover have "words s' (data_addr s) = Some (TPtr p)" using so(1) [of "data_addr s"] d p(1) by simp
  ultimately show ?thesis using p so by (simp add: talloc_at_def)
qed

section \<open>The contract\<close>

text \<open>
  In a state of the allocator with the free blocks \<open>bs\<close>, a call of \<open>talloc\<close> returns
  exactly when a block has the requested size or exceeds it by at least an entry (it waits
  otherwise): the memory it returns and the blocks it keeps are disjoint and are together the
  blocks before, no other memory is changed, and \<open>tfree\<close> gives the memory back.
\<close>

theorem talloc_contract:
  assumes A: "talloc_at s bs" and n: "unat n + 16 < 2 ^ 64" "8 dvd unat n" "16 \<le> unat n"
  shows "(case first_fit n bs of
      None \<Rightarrow> talloc s n = None
    | Some (r, bs') \<Rightarrow> \<exists>s' s''. talloc s n = Some (r, s') \<and> talloc_at s' bs' \<and>
        tblk r (unat n) \<union> blks bs' = blks bs \<and> tblk r (unat n) \<inter> blks bs' = {} \<and>
        same_outside (insert (data_addr s) (blks bs)) s s' \<and>
        tfree s' n r = Some s'' \<and> talloc_at s'' ((r, n) # bs'))"
proof (cases "first_fit n bs")
  case None
  then show ?thesis using talloc_waits [OF A] by simp
next
  case (Some q)
  obtain r bs' where q: "q = (r, bs')" by (cases q)
  with Some have f: "first_fit n bs = Some (r, bs')" by simp
  from A obtain p where p: "free_list (words s) p bs" "data_addr s \<notin> blks bs" by (auto simp: talloc_at_def)
  note ar = first_fit_area [OF p(1) f n]
  from talloc_ok [OF A f n(1,2)] obtain s' where
    s': "talloc s n = Some (r, s')" "talloc_at s' bs'" "same_outside (insert (data_addr s) (blks bs)) s s'" by blast
  have "blk_ok (words s') r (unat n)" using ar same_outsideD(2) [OF s'(3)] by (auto intro: blk_ok_cong)
  moreover have "data_addr s' = data_addr s" by (rule same_outsideD(3) [OF s'(3)])
  then have "tblk r (unat n) \<inter> insert (data_addr s') (blks bs') = {}" using ar p(2) by auto
  ultimately obtain s'' where "tfree s' n r = Some s''" "talloc_at s'' ((r, n) # bs')"
    using tfree_ok [OF s'(2)] by blast
  with s' ar show ?thesis unfolding Some q by auto
qed

text \<open>A memory of 64 bytes from address 16 on, free as one block, with \<open>data\<close> at address 8.\<close>

definition demo_words :: "(nat, 'k tword) heap" where
  "demo_words = (\<lambda>x. if x = 8 then Some (TPtr (Addr 16)) else if x = 16 then Some (TSize 64)
     else if x = 24 then Some (TPtr NULL) else if 16 \<le> x \<and> x < 80 then Some TUninit else None)"

definition demo_tmem :: "'k tmem" where
  "demo_tmem = \<lparr>al_lock = \<lparr>lock = False\<rparr>, data_addr = 8, words = demo_words\<rparr>"

lemma demo_talloc_at: "talloc_at demo_tmem [(16, 64)]"
  by (auto simp: talloc_at_def demo_tmem_def demo_words_def blk_ok_def tblk_def ae_next_def dom_def)

theorem talloc_contract_witness:
  "\<exists>s' s''. talloc (demo_tmem :: nat tmem) 24 = Some (56, s') \<and> talloc_at s' [(16, 40)] \<and>
     tfree s' 24 56 = Some s'' \<and> talloc_at s'' [(56, 24), (16, 40)]"
  using talloc_contract [OF demo_talloc_at, of 24] by auto

end
