(* ===== verification/Tree_Prog.thy ===== *)
theory Tree_Prog
  imports Talloc Map_Spec "HOL-Library.Tree"
begin

text \<open>
  The binary search trees of \<open>src/tutorial/t08_tree.c\<close>, on the memory of \<open>talloc\<close>.

  A value of type \<open>tree_t*\<close> is the address of a word that holds the pointer to a node, the
  variable of the caller or a field \<open>left\<close> or \<open>right\<close> of a node. The key type is a linear
  order: \<open>t08_tree.c\<close> has \<open>int\<close>, \<open>t11_tree_set.c\<close> has the same functions with \<open>size_t\<close>. No
  arithmetic is done on keys.
\<close>

section \<open>The program\<close>

text \<open>The addresses of the fields of \<open>struct tree\<close> and its size.\<close>

definition tree_left :: "nat \<Rightarrow> nat" where "tree_left a = a"
definition tree_right :: "nat \<Rightarrow> nat" where "tree_right a = a + 8"
definition tree_key :: "nat \<Rightarrow> nat" where "tree_key a = a + 16"
definition sizeof_tree :: u64 where "sizeof_tree = 24"

definition tree_empty :: "nat ptr" where
  "tree_empty = NULL"

definition tree_init :: "'k tmem \<Rightarrow> 'k \<Rightarrow> (nat ptr \<times> 'k tmem) option" where
  "tree_init s key = do {
     (node, s) \<leftarrow> talloc s sizeof_tree;
     s \<leftarrow> put_word s (tree_left node) (TPtr NULL);
     s \<leftarrow> put_word s (tree_key node) (TVal key);
     s \<leftarrow> put_word s (tree_right node) (TPtr NULL);
     Some (Addr node, s) }"

definition tree_node :: "'k tmem \<Rightarrow> nat ptr \<Rightarrow> 'k \<Rightarrow> nat ptr \<Rightarrow> (nat ptr \<times> 'k tmem) option" where
  "tree_node s lft key rgt = do {
     (node, s) \<leftarrow> talloc s sizeof_tree;
     s \<leftarrow> put_word s (tree_left node) (TPtr lft);
     s \<leftarrow> put_word s (tree_key node) (TVal key);
     s \<leftarrow> put_word s (tree_right node) (TPtr rgt);
     Some (Addr node, s) }"

partial_function (option) free_tree :: "'k tmem \<Rightarrow> nat \<Rightarrow> 'k tmem option" where
  "free_tree s t =
     Option.bind (get_tptr s t) (\<lambda>p.
       if p \<noteq> NULL then
         Option.bind (deref p) (\<lambda>a.
         Option.bind (free_tree s (tree_left a)) (\<lambda>s.
         Option.bind (Option.bind (get_tptr s t) deref) (\<lambda>a.
         Option.bind (free_tree s (tree_right a)) (\<lambda>s.
         Option.bind (Option.bind (get_tptr s t) deref) (\<lambda>a. tfree s sizeof_tree a)))))
       else Some s)"

partial_function (option) member_rec :: "('k :: linorder) tmem \<Rightarrow> nat \<Rightarrow> 'k \<Rightarrow> bool option" where
  "member_rec s t k =
     Option.bind (get_tptr s t) (\<lambda>p.
       if p = NULL then Some False
       else Option.bind (deref p) (\<lambda>a. Option.bind (get_tval s (tree_key a)) (\<lambda>key.
         if key = k then Some True
         else if k < key then member_rec s (tree_left a) k
         else member_rec s (tree_right a) k)))"

text \<open>\<open>member\<close> is its loop, \<open>cur\<close> starting at the argument.\<close>

partial_function (option) tree_member :: "('k :: linorder) tmem \<Rightarrow> nat \<Rightarrow> 'k \<Rightarrow> bool option" where
  "tree_member s cur k =
     Option.bind (get_tptr s cur) (\<lambda>p.
       if p \<noteq> NULL then
         Option.bind (deref p) (\<lambda>a. Option.bind (get_tval s (tree_key a)) (\<lambda>key.
         if key = k then Some True
         else tree_member s (if k < key then tree_left a else tree_right a) k))
       else Some False)"

partial_function (option) insert_rec :: "('k :: linorder) tmem \<Rightarrow> nat \<Rightarrow> 'k \<Rightarrow> 'k tmem option" where
  "insert_rec s t k =
     Option.bind (get_tptr s t) (\<lambda>p.
       if p = NULL then Option.bind (tree_node s NULL k NULL) (\<lambda>(n, s). put_word s t (TPtr n))
       else Option.bind (deref p) (\<lambda>a. Option.bind (get_tval s (tree_key a)) (\<lambda>key.
         if key = k then Some s
         else if k < key then insert_rec s (tree_left a) k
         else insert_rec s (tree_right a) k)))"

text \<open>The loop of \<open>insert\<close>: the address of the empty slot it ends at, or none if it returns from the loop.\<close>

partial_function (option) insert_loop :: "('k :: linorder) tmem \<Rightarrow> nat \<Rightarrow> 'k \<Rightarrow> nat option option" where
  "insert_loop s cur k =
     Option.bind (get_tptr s cur) (\<lambda>p.
       if p \<noteq> NULL then
         Option.bind (deref p) (\<lambda>a. Option.bind (get_tval s (tree_key a)) (\<lambda>key.
         if key = k then Some None
         else insert_loop s (if k < key then tree_left a else tree_right a) k))
       else Some (Some cur))"

definition tree_insert :: "('k :: linorder) tmem \<Rightarrow> nat \<Rightarrow> 'k \<Rightarrow> 'k tmem option" where
  "tree_insert s t k = do {
     c \<leftarrow> insert_loop s t k;
     case c of
       None \<Rightarrow> Some s
     | Some cur \<Rightarrow> do {
         (n, s) \<leftarrow> tree_node s NULL k NULL;
         put_word s cur (TPtr n) } }"

partial_function (option) tree_max :: "'k tmem \<Rightarrow> nat \<Rightarrow> 'k option" where
  "tree_max s t =
     Option.bind (Option.bind (get_tptr s t) deref) (\<lambda>a.
       Option.bind (get_tptr s (tree_right a)) (\<lambda>r.
         if r = NULL then get_tval s (tree_key a) else tree_max s (tree_right a)))"

partial_function (option) tree_remove :: "('k :: linorder) tmem \<Rightarrow> nat \<Rightarrow> 'k \<Rightarrow> 'k tmem option" where
  "tree_remove s t k =
     Option.bind (get_tptr s t) (\<lambda>p.
       if p = NULL then Some s
       else Option.bind (deref p) (\<lambda>a. Option.bind (get_tval s (tree_key a)) (\<lambda>key.
         if k = key then
           Option.bind (get_tptr s (tree_left a)) (\<lambda>l.
             if l \<noteq> NULL then
               Option.bind (tree_max s (tree_left a)) (\<lambda>m.
               Option.bind (tree_remove s (tree_left a) m) (\<lambda>s.
               Option.bind (Option.bind (get_tptr s t) deref) (\<lambda>a. put_word s (tree_key a) (TVal m))))
             else
               Option.bind (get_tptr s (tree_right a)) (\<lambda>tmp.
               Option.bind (tfree s sizeof_tree a) (\<lambda>s. put_word s t (TPtr tmp))))
         else if k < key then tree_remove s (tree_left a) k
         else tree_remove s (tree_right a) k)))"

text \<open>The functions of \<open>t08_tree.c\<close> that its set-typed clients call.\<close>

definition sempty :: "nat ptr" where "sempty = tree_empty"

definition sinit :: "int tmem \<Rightarrow> int \<Rightarrow> (nat ptr \<times> int tmem) option" where
  "sinit s key = tree_init s key"

definition sfree_tree :: "int tmem \<Rightarrow> nat \<Rightarrow> int tmem option" where
  "sfree_tree s t = free_tree s t"

definition smember :: "int tmem \<Rightarrow> nat \<Rightarrow> int \<Rightarrow> bool option" where
  "smember s t k = tree_member s t k"

definition sinsert :: "int tmem \<Rightarrow> nat \<Rightarrow> int \<Rightarrow> int tmem option" where
  "sinsert s t k = tree_insert s t k"

definition sremove :: "int tmem \<Rightarrow> nat \<Rightarrow> int \<Rightarrow> int tmem option" where
  "sremove s t k = tree_remove s t k"

text \<open>\<open>main\<close>, with the address \<open>t\<close> of its local variable.\<close>

definition tree_prog_main :: "int tmem \<Rightarrow> nat \<Rightarrow> (int \<times> int tmem) option" where
  "tree_prog_main s t = do {
     s \<leftarrow> put_word s t (TPtr sempty);
     (p, s) \<leftarrow> sinit s 3;
     s \<leftarrow> put_word s t (TPtr p);
     s \<leftarrow> sinsert s t 2;
     b \<leftarrow> smember s t 2;
     _ \<leftarrow> c_assert b;
     b \<leftarrow> smember s t 3;
     _ \<leftarrow> c_assert b;
     s \<leftarrow> sremove s t 3;
     s \<leftarrow> sinsert s t 3;
     b \<leftarrow> smember s t 2;
     _ \<leftarrow> c_assert b;
     s \<leftarrow> sremove s t 3;
     s \<leftarrow> sfree_tree s t;
     Some (0, s) }"

section \<open>Trees in memory\<close>

text \<open>A tree whose nodes carry their address and their key.\<close>

type_synonym 'k atree = "(nat \<times> 'k) tree"

fun foot :: "'k atree \<Rightarrow> nat set" where
  "foot Leaf = {}"
| "foot (Node l (a, k) r) = tblk a 24 \<union> foot l \<union> foot r"

fun tree_at :: "(nat, 'k tword) heap \<Rightarrow> nat ptr \<Rightarrow> 'k atree \<Rightarrow> bool" where
  "tree_at w p Leaf \<longleftrightarrow> p = NULL"
| "tree_at w p (Node l (a, k) r) \<longleftrightarrow> p = Addr a \<and> blk_ok w a 24 \<and> w (tree_key a) = Some (TVal k) \<and>
     tblk a 24 \<inter> (foot l \<union> foot r) = {} \<and> foot l \<inter> foot r = {} \<and>
     (\<exists>q. w (tree_left a) = Some (TPtr q) \<and> tree_at w q l) \<and> (\<exists>q. w (tree_right a) = Some (TPtr q) \<and> tree_at w q r)"

text \<open>The slot \<open>t\<close> holds the tree \<open>tr\<close>, and the allocator the blocks \<open>bs\<close>, all separate.\<close>

definition tree_inv :: "'k tmem \<Rightarrow> nat \<Rightarrow> 'k atree \<Rightarrow> (nat \<times> u64) list \<Rightarrow> bool" where
  "tree_inv s t tr bs \<longleftrightarrow> talloc_at s bs \<and> (\<exists>p. words s t = Some (TPtr p) \<and> tree_at (words s) p tr) \<and>
     t \<notin> insert (data_addr s) (foot tr \<union> blks bs) \<and> foot tr \<inter> insert (data_addr s) (blks bs) = {}"

text \<open>A step that may use the slot, the tree and the allocator changes nothing else, and loses no memory.\<close>

definition tree_step :: "'k tmem \<Rightarrow> nat \<Rightarrow> 'k atree \<Rightarrow> (nat \<times> u64) list \<Rightarrow> 'k tmem \<Rightarrow> 'k atree \<Rightarrow> (nat \<times> u64) list \<Rightarrow> bool" where
  "tree_step s t tr bs s' tr' bs' \<longleftrightarrow> tree_inv s' t tr' bs' \<and> foot tr' \<union> blks bs' = foot tr \<union> blks bs \<and>
     same_outside (insert t (insert (data_addr s) (foot tr \<union> blks bs))) s s'"

lemma field_words:
  assumes "blk_ok w a 24"
  shows "tree_left a \<in> tblk a 24" "tree_right a \<in> tblk a 24" "tree_key a \<in> tblk a 24"
    "tree_left a \<in> dom w" "tree_right a \<in> dom w" "tree_key a \<in> dom w"
  using assms by (auto simp: blk_ok_def tblk_def tree_left_def tree_right_def tree_key_def subset_iff)

lemma field_neq [simp]:
  "tree_left a \<noteq> tree_right a" "tree_left a \<noteq> tree_key a" "tree_right a \<noteq> tree_key a"
  "tree_right a \<noteq> tree_left a" "tree_key a \<noteq> tree_left a" "tree_key a \<noteq> tree_right a"
  by (simp_all add: tree_left_def tree_right_def tree_key_def)

lemma tree_at_cong:
  "tree_at w p tr \<Longrightarrow> (\<And>x. x \<in> foot tr \<Longrightarrow> w' x = w x) \<Longrightarrow> dom w' = dom w \<Longrightarrow> tree_at w' p tr"
proof (induction tr arbitrary: p)
  case (Node l n r)
  obtain a k where n: "n = (a, k)" by (cases n)
  from Node.prems(1) n have ok: "blk_ok w a 24" by simp
  have e: "w' (tree_left a) = w (tree_left a)" "w' (tree_right a) = w (tree_right a)" "w' (tree_key a) = w (tree_key a)"
    using Node.prems(2) field_words(1-3) [OF ok] n by auto
  have "tree_at w' q l" if "tree_at w q l" for q using that Node.prems(2,3) n by (intro Node.IH(1)) auto
  moreover have "tree_at w' q r" if "tree_at w q r" for q using that Node.prems(2,3) n by (intro Node.IH(2)) auto
  ultimately show ?case using Node.prems(1,3) e n by (auto intro: blk_ok_cong)
qed simp


lemma tree_invD:
  assumes "tree_inv s t tr bs"
  shows "talloc_at s bs" "\<exists>p. words s t = Some (TPtr p) \<and> tree_at (words s) p tr"
    "t \<notin> foot tr" "t \<notin> blks bs" "t \<noteq> data_addr s" "foot tr \<inter> blks bs = {}" "data_addr s \<notin> foot tr"
  using assms by (auto simp: tree_inv_def)

lemma tree_inv_Leaf: "tree_inv s t Leaf bs \<longleftrightarrow> talloc_at s bs \<and> words s t = Some (TPtr NULL) \<and> t \<noteq> data_addr s \<and> t \<notin> blks bs"
  by (auto simp: tree_inv_def)

text \<open>The words of the node a slot points to.\<close>

lemma tree_inv_Node:
  assumes "tree_inv s t (Node l (a, k) r) bs"
  shows "words s t = Some (TPtr (Addr a))" "words s (tree_key a) = Some (TVal k)" "blk_ok (words s) a 24"
    "tblk a 24 \<inter> (foot l \<union> foot r) = {}" "foot l \<inter> foot r = {}" "data_addr s \<notin> tblk a 24" "tblk a 24 \<inter> blks bs = {}" "t \<notin> tblk a 24"
  using assms by (auto simp: tree_inv_def)

lemma fields_out:
  assumes I: "tree_inv s t (Node l (a, k) r) bs" and "x \<in> {tree_left a, tree_right a, tree_key a}"
  shows "x \<notin> foot l" "x \<notin> foot r" "x \<notin> blks bs" "x \<noteq> data_addr s"
  using tree_inv_Node(4,6,7) [OF I] field_words(1-3) [OF tree_inv_Node(3) [OF I]] assms(2) by auto

text \<open>The fields of a node are slots of its subtrees.\<close>

lemma tree_inv_sub:
  assumes I: "tree_inv s t (Node l (a, k) r) bs"
  shows "tree_inv s (tree_left a) l bs" "tree_inv s (tree_right a) r bs"
proof -
  note N = tree_inv_Node [OF I] and f = field_words [OF tree_inv_Node(3) [OF I]]
  have "tree_left a \<notin> insert (data_addr s) (foot l \<union> blks bs)" "tree_right a \<notin> insert (data_addr s) (foot r \<union> blks bs)"
    using N f(1,2) by auto
  then show "tree_inv s (tree_left a) l bs" "tree_inv s (tree_right a) r bs" using I by (auto simp: tree_inv_def)
qed

text \<open>A step in a subtree is a step in the tree.\<close>

lemma tree_step_left:
  assumes I: "tree_inv s t (Node l (a, k) r) bs" and S: "tree_step s (tree_left a) l bs s' l' bs'"
  shows "tree_step s t (Node l (a, k) r) bs s' (Node l' (a, k) r) bs'"
proof -
  note N = tree_inv_Node [OF I] and f = field_words [OF tree_inv_Node(3) [OF I]] and D = tree_invD [OF I]
  let ?A = "insert (tree_left a) (insert (data_addr s) (foot l \<union> blks bs))"
  have S': "tree_inv s' (tree_left a) l' bs'" "foot l' \<union> blks bs' = foot l \<union> blks bs" "same_outside ?A s s'"
    using S by (auto simp: tree_step_def)
  note so = same_outsideD [OF S'(3)] and D' = tree_invD [OF S'(1)]
  have t: "t \<notin> ?A" "tree_key a \<notin> ?A" "tree_right a \<notin> ?A" "foot r \<inter> ?A = {}"
    using D(3-7) fields_out [OF I] N(5,8) f(1) by auto
  obtain q where q: "words s (tree_right a) = Some (TPtr q)" "tree_at (words s) q r" using tree_inv_sub(2) [OF I] tree_invD(2) by blast
  have "words s' x = words s x" if "x \<in> foot r" for x by (rule so(1)) (use that t(4) in blast)
  then have "tree_at (words s') q r" by (rule tree_at_cong [OF q(2)]) (assumption, rule so(2))
  moreover have "foot l' \<inter> tblk a 24 = {}" "foot l' \<inter> foot r = {}" "blks bs' \<inter> tblk a 24 = {}" "blks bs' \<inter> foot r = {}"
    using S'(2) N D by auto
  ultimately have "tree_at (words s') (Addr a) (Node l' (a, k) r)"
    using so(1) t q(1) N D'(2) blk_ok_cong [OF N(3) so(2)] by auto
  moreover have "words s' t = Some (TPtr (Addr a))" using so(1) t(1) N(1) by auto
  moreover have "t \<notin> foot l'" "t \<notin> blks bs'" using S'(2) D(3,4) by auto
  ultimately have "tree_inv s' t (Node l' (a, k) r) bs'"
    using D' D N so(3) \<open>foot l' \<inter> tblk a 24 = {}\<close> \<open>blks bs' \<inter> tblk a 24 = {}\<close> \<open>blks bs' \<inter> foot r = {}\<close>
    unfolding tree_inv_def by auto
  moreover have "same_outside (insert t (insert (data_addr s) (foot (Node l (a, k) r) \<union> blks bs))) s s'"
    by (rule same_outside_mono [OF S'(3)]) (use f(1) in auto)
  ultimately show ?thesis using S'(2) by (auto simp: tree_step_def)
qed

lemma tree_step_right:
  assumes I: "tree_inv s t (Node l (a, k) r) bs" and S: "tree_step s (tree_right a) r bs s' r' bs'"
  shows "tree_step s t (Node l (a, k) r) bs s' (Node l (a, k) r') bs'"
proof -
  note N = tree_inv_Node [OF I] and f = field_words [OF tree_inv_Node(3) [OF I]] and D = tree_invD [OF I]
  let ?A = "insert (tree_right a) (insert (data_addr s) (foot r \<union> blks bs))"
  have S': "tree_inv s' (tree_right a) r' bs'" "foot r' \<union> blks bs' = foot r \<union> blks bs" "same_outside ?A s s'"
    using S by (auto simp: tree_step_def)
  note so = same_outsideD [OF S'(3)] and D' = tree_invD [OF S'(1)]
  have t: "t \<notin> ?A" "tree_key a \<notin> ?A" "tree_left a \<notin> ?A" "foot l \<inter> ?A = {}"
    using D(3-7) fields_out [OF I] N(5,8) f(2) by auto
  obtain q where q: "words s (tree_left a) = Some (TPtr q)" "tree_at (words s) q l" using tree_inv_sub(1) [OF I] tree_invD(2) by blast
  have "words s' x = words s x" if "x \<in> foot l" for x by (rule so(1)) (use that t(4) in blast)
  then have "tree_at (words s') q l" by (rule tree_at_cong [OF q(2)]) (assumption, rule so(2))
  moreover have "foot r' \<inter> tblk a 24 = {}" "foot l \<inter> foot r' = {}" "blks bs' \<inter> tblk a 24 = {}" "blks bs' \<inter> foot l = {}"
    using S'(2) N D by auto
  ultimately have "tree_at (words s') (Addr a) (Node l (a, k) r')"
    using so(1) t q(1) N D'(2) blk_ok_cong [OF N(3) so(2)] by auto
  moreover have "words s' t = Some (TPtr (Addr a))" using so(1) t(1) N(1) by auto
  moreover have "t \<notin> foot r'" "t \<notin> blks bs'" using S'(2) D(3,4) by auto
  ultimately have "tree_inv s' t (Node l (a, k) r') bs'"
    using D' D N so(3) \<open>foot r' \<inter> tblk a 24 = {}\<close> \<open>blks bs' \<inter> tblk a 24 = {}\<close> \<open>blks bs' \<inter> foot l = {}\<close>
    unfolding tree_inv_def by auto
  moreover have "same_outside (insert t (insert (data_addr s) (foot (Node l (a, k) r) \<union> blks bs))) s s'"
    by (rule same_outside_mono [OF S'(3)]) (use f(2) in auto)
  ultimately show ?thesis using S'(2) by (auto simp: tree_step_def)
qed

lemma tree_step_refl: "tree_inv s t tr bs \<Longrightarrow> tree_step s t tr bs s tr bs"
  by (simp add: tree_step_def)


section \<open>Functional counterparts\<close>

fun t_mem :: "('k :: linorder) \<Rightarrow> 'k atree \<Rightarrow> bool" where
  "t_mem k Leaf \<longleftrightarrow> False"
| "t_mem k (Node l (a, x) r) \<longleftrightarrow> (if x = k then True else if k < x then t_mem k l else t_mem k r)"

fun t_ins :: "nat \<Rightarrow> ('k :: linorder) \<Rightarrow> 'k atree \<Rightarrow> 'k atree" where
  "t_ins b k Leaf = Node Leaf (b, k) Leaf"
| "t_ins b k (Node l (a, x) r) =
     (if x = k then Node l (a, x) r else if k < x then Node (t_ins b k l) (a, x) r else Node l (a, x) (t_ins b k r))"

fun t_max :: "'k atree \<Rightarrow> 'k option" where
  "t_max Leaf = None"
| "t_max (Node l (a, x) r) = (if r = Leaf then Some x else t_max r)"

text \<open>Removal, with the address of the node that is freed.\<close>

fun t_rem :: "('k :: linorder) \<Rightarrow> 'k atree \<Rightarrow> 'k atree \<times> nat option" where
  "t_rem k Leaf = (Leaf, None)"
| "t_rem k (Node l (a, x) r) =
     (if k = x then
        (if l = Leaf then (r, Some a)
         else let m = the (t_max l); (l', f) = t_rem m l in (Node l' (a, m) r, f))
      else if k < x then let (l', f) = t_rem k l in (Node l' (a, x) r, f)
      else let (r', f) = t_rem k r in (Node l (a, x) r', f))"

fun t_free :: "'k atree \<Rightarrow> (nat \<times> u64) list \<Rightarrow> (nat \<times> u64) list" where
  "t_free Leaf bs = bs"
| "t_free (Node l (a, x) r) bs = (a, sizeof_tree) # t_free r (t_free l bs)"

lemmas tree_reads = get_tptr_def get_tval_def

lemma member_ok:
  "tree_inv s t tr bs \<Longrightarrow> tree_member s t k = Some (t_mem k tr)"
proof (induction tr arbitrary: t)
  case Leaf
  then show ?case by (subst tree_member.simps) (simp add: tree_reads tree_inv_Leaf)
next
  case (Node l n r)
  obtain a x where n: "n = (a, x)" by (cases n)
  with Node.prems have I: "tree_inv s t (Node l (a, x) r) bs" by simp
  show ?case using tree_inv_Node(1,2) [OF I] Node.IH(1) [OF tree_inv_sub(1) [OF I]] Node.IH(2) [OF tree_inv_sub(2) [OF I]] n
    by (subst tree_member.simps) (simp add: tree_reads)
qed

lemma tree_node_ok:
  assumes A: "talloc_at s bs" and f: "first_fit sizeof_tree bs = Some (b, bs')"
  shows "\<exists>s'. tree_node s NULL k NULL = Some (Addr b, s') \<and> talloc_at s' bs' \<and>
    tree_at (words s') (Addr b) (Node Leaf (b, k) Leaf) \<and> tblk b 24 \<union> blks bs' = blks bs \<and> tblk b 24 \<inter> blks bs' = {} \<and>
    same_outside (insert (data_addr s) (blks bs)) s s'"
proof -
  have n: "unat sizeof_tree = 24" by (simp add: sizeof_tree_def)
  obtain p where p: "free_list (words s) p bs" using A by (auto simp: talloc_at_def)
  from first_fit_area [OF p f] n have ar: "tblk b 24 \<union> blks bs' = blks bs" "tblk b 24 \<inter> blks bs' = {}" "blk_ok (words s) b 24" by auto
  obtain s1 where s1: "talloc s sizeof_tree = Some (b, s1)" "talloc_at s1 bs'" "same_outside (insert (data_addr s) (blks bs)) s s1"
    using talloc_ok [OF A f] n by auto
  have ok: "blk_ok (words s1) b 24" by (rule blk_ok_cong [OF ar(3) same_outsideD(2) [OF s1(3)]])
  note fw = field_words [OF ok]
  let ?w = "(words s1)(tree_left b \<mapsto> TPtr NULL, tree_key b \<mapsto> TVal k, tree_right b \<mapsto> TPtr NULL)"
  have dm: "dom ?w = dom (words s1)" using fw(4-6) by auto
  have "tree_node s NULL k NULL = Some (Addr b, s1\<lparr>words := ?w\<rparr>)"
    using s1(1) fw(4-6) by (auto simp: tree_node_def put_word_def)
  moreover obtain q where q: "words s1 (data_addr s1) = Some (TPtr q)" "free_list (words s1) q bs'" "data_addr s1 \<notin> blks bs"
    "\<not> lock (al_lock s1)"
    using s1(2) A same_outsideD(3) [OF s1(3)] by (auto simp: talloc_at_def)
  have "free_list ?w q bs'" by (rule free_list_cong [OF q(2) _ dm]) (use ar(2) fw(1-3) in auto)
  moreover have "data_addr s1 \<notin> tblk b 24" "data_addr s1 \<notin> blks bs'" using q(3) ar(1) by auto
  ultimately have "talloc_at (s1\<lparr>words := ?w\<rparr>) bs'" using q fw(1-3) by (auto simp: talloc_at_def)
  moreover have "tree_at ?w (Addr b) (Node Leaf (b, k) Leaf)" using blk_ok_cong [OF ok dm] by simp
  moreover have "same_outside (blks bs) s1 (s1\<lparr>words := ?w\<rparr>)"
    unfolding same_outside_def using dm fw(1-3) ar(1) by (intro exI [of _ ?w]) auto
  then have "same_outside (insert (data_addr s) (blks bs)) s (s1\<lparr>words := ?w\<rparr>)"
    by (rule same_outside_mono [OF same_outside_trans [OF s1(3)]]) auto
  ultimately show ?thesis using ar \<open>tree_node s NULL k NULL = _\<close> by auto
qed


lemma insert_rec_ok:
  assumes "tree_inv s t tr bs" "t_mem k tr \<or> first_fit sizeof_tree bs = Some (b, bs')"
  shows "\<exists>s'. insert_rec s t k = Some s' \<and> tree_step s t tr bs s' (t_ins b k tr) (if t_mem k tr then bs else bs')"
  using assms
proof (induction tr arbitrary: t)
  case Leaf
  then have L: "talloc_at s bs" "words s t = Some (TPtr NULL)" "t \<noteq> data_addr s" "t \<notin> blks bs" by (auto simp: tree_inv_Leaf)
  from Leaf have f: "first_fit sizeof_tree bs = Some (b, bs')" by simp
  from tree_node_ok [OF L(1) f, of k] obtain s' where s': "tree_node s NULL k NULL = Some (Addr b, s')" "talloc_at s' bs'"
    "tree_at (words s') (Addr b) (Node Leaf (b, k) Leaf)" "tblk b 24 \<union> blks bs' = blks bs" "tblk b 24 \<inter> blks bs' = {}"
    "same_outside (insert (data_addr s) (blks bs)) s s'" by blast
  note so = same_outsideD [OF s'(6)]
  let ?s = "s'\<lparr>words := (words s')(t \<mapsto> TPtr (Addr b))\<rparr>"
  have t: "t \<in> dom (words s')" using L(2) so(2) by auto
  have nt: "t \<notin> tblk b 24" "t \<notin> blks bs'" using L(4) s'(4) by auto
  have st: "same_outside {t} s' ?s" by (rule put_word_ok(2) [OF t]) simp
  have "insert_rec s t k = Some ?s"
    using L(2) s'(1) put_word_ok(1) [OF t] by (subst insert_rec.simps) (simp add: tree_reads)
  moreover have "tree_at (words ?s) (Addr b) (Node Leaf (b, k) Leaf)"
    by (rule tree_at_cong [OF s'(3)]) (use nt same_outsideD(1,2) [OF st] in auto)
  moreover have "talloc_at ?s bs'" using talloc_at_outside [OF s'(2) st] nt L(3) so(3) by simp
  moreover have "data_addr s \<notin> blks bs" using L(1) by (simp add: talloc_at_def)
  moreover have "same_outside (insert t (insert (data_addr s) (blks bs))) s ?s"
    by (rule same_outside_mono [OF same_outside_trans [OF s'(6) st]]) auto
  ultimately show ?case using nt L(3) so(3) s'(4,5) by (auto simp: tree_step_def tree_inv_def)
next
  case (Node l n r)
  obtain a x where n: "n = (a, x)" by (cases n)
  with Node.prems have I: "tree_inv s t (Node l (a, x) r) bs" by simp
  note N = tree_inv_Node(1,2) [OF I] and u = insert_rec.simps [of s t k]
  consider "x = k" | "k < x" | "x < k" by (rule linorder_cases)
  then show ?case
  proof cases
    case 1
    then show ?thesis using N tree_step_refl [OF I] n u by (simp add: tree_reads)
  next
    case 2
    then have ne: "x \<noteq> k" by simp
    obtain s' where "insert_rec s (tree_left a) k = Some s'"
      "tree_step s (tree_left a) l bs s' (t_ins b k l) (if t_mem k l then bs else bs')"
      using Node.IH(1) [OF tree_inv_sub(1) [OF I]] Node.prems(2) n 2 ne by auto
    then show ?thesis using N n u 2 ne tree_step_left [OF I] by (simp add: tree_reads)
  next
    case 3
    then have ne: "x \<noteq> k" "\<not> k < x" by auto
    obtain s' where "insert_rec s (tree_right a) k = Some s'"
      "tree_step s (tree_right a) r bs s' (t_ins b k r) (if t_mem k r then bs else bs')"
      using Node.IH(2) [OF tree_inv_sub(2) [OF I]] Node.prems(2) n ne by auto
    then show ?thesis using N n u ne tree_step_right [OF I] by (simp add: tree_reads)
  qed
qed

text \<open>The iterative functions do what the recursive ones do, in every state.\<close>

lemma member_rec_eq: "member_rec s t k = tree_member s t k"
proof -
  have "tree_member s t k = Some r" if "member_rec s t k = Some r" for r
    using that
  proof (rule member_rec.raw_induct [where P = "\<lambda>s t k r. tree_member s t k = Some r", rotated])
    fix f s t k r
    assume IH: "\<And>s t k r. f s t k = Some r \<Longrightarrow> tree_member s t k = Some r"
      and b: "Option.bind (get_tptr s t) (\<lambda>p. if p = NULL then Some False
        else Option.bind (deref p) (\<lambda>a. Option.bind (get_tval s (tree_key a)) (\<lambda>key.
          if key = k then Some True else if k < key then f s (tree_left a) k else f s (tree_right a) k))) = Some r"
    then show "tree_member s t k = Some r"
      by (subst tree_member.simps) (auto simp: deref_def split: Option.bind_splits if_splits ptr.splits)
  qed
  moreover have "member_rec s t k = Some r" if "tree_member s t k = Some r" for r
    using that
  proof (rule tree_member.raw_induct [where P = "\<lambda>s t k r. member_rec s t k = Some r", rotated])
    fix f s t k r
    assume IH: "\<And>s t k r. f s t k = Some r \<Longrightarrow> member_rec s t k = Some r"
      and b: "Option.bind (get_tptr s t) (\<lambda>p. if p \<noteq> NULL
        then Option.bind (deref p) (\<lambda>a. Option.bind (get_tval s (tree_key a)) (\<lambda>key.
          if key = k then Some True else f s (if k < key then tree_left a else tree_right a) k))
        else Some False) = Some r"
    then show "member_rec s t k = Some r"
      by (subst member_rec.simps) (auto simp: deref_def split: Option.bind_splits if_splits ptr.splits)
  qed
  ultimately show ?thesis by (cases "member_rec s t k"; cases "tree_member s t k") auto
qed

text \<open>What \<open>insert\<close> does after its loop.\<close>

definition insert_end :: "'k tmem \<Rightarrow> 'k \<Rightarrow> nat option \<Rightarrow> 'k tmem option" where
  "insert_end s k c = (case c of None \<Rightarrow> Some s
     | Some cur \<Rightarrow> Option.bind (tree_node s NULL k NULL) (\<lambda>(n, s). put_word s cur (TPtr n)))"

lemma tree_insert_end: "tree_insert s t k = insert_loop s t k \<bind> insert_end s k"
  by (cases "insert_loop s t k") (simp_all add: tree_insert_def insert_end_def)

lemma insert_loop_rec: "insert_loop s t k = Some c \<Longrightarrow> insert_rec s t k = insert_end s k c"
proof (erule insert_loop.raw_induct [where P = "\<lambda>s t k c. insert_rec s t k = insert_end s k c", rotated])
  fix f s t k c
  assume IH: "\<And>s t k c. f s t k = Some c \<Longrightarrow> insert_rec s t k = insert_end s k c"
    and b: "Option.bind (get_tptr s t) (\<lambda>p. if p \<noteq> NULL
      then Option.bind (deref p) (\<lambda>a. Option.bind (get_tval s (tree_key a)) (\<lambda>key.
        if key = k then Some None else f s (if k < key then tree_left a else tree_right a) k))
      else Some (Some t)) = Some c"
  then show "insert_rec s t k = insert_end s k c"
    by (subst insert_rec.simps) (auto simp: insert_end_def deref_def split: Option.bind_splits if_splits ptr.splits)
qed

lemma insert_rec_loop: "insert_rec s t k = Some r \<Longrightarrow> \<exists>c. insert_loop s t k = Some c"
proof (erule insert_rec.raw_induct [where P = "\<lambda>s t k r. \<exists>c. insert_loop s t k = Some c", rotated])
  fix f s t k r
  assume IH: "\<And>s t k r. f s t k = Some r \<Longrightarrow> \<exists>c. insert_loop s t k = Some c"
    and b: "Option.bind (get_tptr s t) (\<lambda>p. if p = NULL
      then Option.bind (tree_node s NULL k NULL) (\<lambda>(n, s). put_word s t (TPtr n))
      else Option.bind (deref p) (\<lambda>a. Option.bind (get_tval s (tree_key a)) (\<lambda>key.
        if key = k then Some s else if k < key then f s (tree_left a) k else f s (tree_right a) k))) = Some r"
  then show "\<exists>c. insert_loop s t k = Some c"
    by (subst insert_loop.simps) (auto simp: deref_def split: Option.bind_splits if_splits ptr.splits)
qed

lemma insert_rec_eq: "insert_rec s t k = tree_insert s t k"
proof (cases "insert_loop s t k")
  case None
  then have "insert_rec s t k = None" using insert_rec_loop [of s t k] by (cases "insert_rec s t k") auto
  with None show ?thesis by (simp add: tree_insert_end)
next
  case (Some c)
  then show ?thesis using insert_loop_rec [OF Some] by (simp add: tree_insert_end)
qed

section \<open>Removal\<close>

lemma tree_max_ok:
  "tree_inv s t tr bs \<Longrightarrow> tr \<noteq> Leaf \<Longrightarrow> \<exists>m. t_max tr = Some m \<and> tree_max s t = Some m"
proof (induction tr arbitrary: t)
  case (Node l n r)
  obtain a x where n: "n = (a, x)" by (cases n)
  with Node.prems have I: "tree_inv s t (Node l (a, x) r) bs" by simp
  note N = tree_inv_Node(1,2) [OF I] and R = tree_inv_sub(2) [OF I]
  show ?case
  proof (cases "r = Leaf")
    case True
    then have "words s (tree_right a) = Some (TPtr NULL)" using R by (simp add: tree_inv_Leaf)
    then show ?thesis using N n True by (subst tree_max.simps) (simp add: tree_reads)
  next
    case False
    then obtain l' b y r' where r: "r = Node l' (b, y) r'" by (cases r) auto
    have "words s (tree_right a) = Some (TPtr (Addr b))" by (rule tree_inv_Node(1) [OF R [unfolded r]])
    then show ?thesis using N n False Node.IH(2) [OF R False] by (subst tree_max.simps) (auto simp: tree_reads)
  qed
qed simp

text \<open>Unlinking and freeing the node at a slot that has no left subtree.\<close>

lemma remove_root_ok:
  assumes I: "tree_inv s t (Node Leaf (a, x) r) bs"
  shows "\<exists>s'. tree_remove s t x = Some s' \<and> tree_step s t (Node Leaf (a, x) r) bs s' r ((a, sizeof_tree) # bs)"
proof -
  note N = tree_inv_Node [OF I] and D = tree_invD [OF I]
  have n: "unat sizeof_tree = 24" by (simp add: sizeof_tree_def)
  have l: "words s (tree_left a) = Some (TPtr NULL)" using tree_inv_sub(1) [OF I] by (simp add: tree_inv_Leaf)
  obtain q where q: "words s (tree_right a) = Some (TPtr q)" "tree_at (words s) q r" using tree_inv_sub(2) [OF I] tree_invD(2) by blast
  from tree_invD(1) [OF I] N(3,6,7) n obtain s1 where s1: "tfree s sizeof_tree a = Some s1" "talloc_at s1 ((a, sizeof_tree) # bs)"
    "same_outside (insert (data_addr s) (tblk a 24)) s s1" using tfree_ok [of s bs a sizeof_tree] by auto
  note so = same_outsideD [OF s1(3)]
  let ?s = "s1\<lparr>words := (words s1)(t \<mapsto> TPtr q)\<rparr>"
  have t: "t \<in> dom (words s1)" using N(1) so(2) by auto
  have st: "same_outside {t} s1 ?s" by (rule put_word_ok(2) [OF t]) simp
  note S = same_outside_trans [OF s1(3) st]
  have "tree_remove s t x = Some ?s"
    using N(1,2) l q(1) s1(1) put_word_ok(1) [OF t] by (subst tree_remove.simps) (simp add: tree_reads)
  moreover have "words ?s y = words s y" if "y \<in> foot r" for y
    by (rule same_outsideD(1) [OF S]) (use that N(4) D(3,7) in auto)
  then have "tree_at (words ?s) q r" by (rule tree_at_cong [OF q(2)]) (assumption, rule same_outsideD(2) [OF S])
  moreover have "talloc_at ?s ((a, sizeof_tree) # bs)" using talloc_at_outside [OF s1(2) st] N(8) D(4,5) n so(3) by simp
  moreover have "same_outside (insert t (insert (data_addr s) (foot (Node Leaf (a, x) r) \<union> blks bs))) s ?s"
    by (rule same_outside_mono [OF S]) auto
  ultimately show ?thesis using D N n so(3) by (auto simp: tree_step_def tree_inv_def)
qed

lemma tree_step_trans:
  assumes "tree_step s t tr bs s' tr' bs'" "tree_step s' t tr' bs' s'' tr'' bs''"
  shows "tree_step s t tr bs s'' tr'' bs''"
proof -
  let ?A = "insert t (insert (data_addr s) (foot tr \<union> blks bs))"
  have a: "same_outside ?A s s'" "foot tr' \<union> blks bs' = foot tr \<union> blks bs" using assms(1) by (auto simp: tree_step_def)
  have "same_outside ?A s' s''"
    using assms(2) a(2) same_outsideD(3) [OF a(1)] by (simp add: tree_step_def)
  from same_outside_trans [OF a(1) this] a(2) assms(2) show ?thesis by (simp add: tree_step_def)
qed

lemma key_write_ok:
  assumes I: "tree_inv s t (Node l (a, x) r) bs"
  shows "\<exists>s'. put_word s (tree_key a) (TVal m) = Some s' \<and> tree_step s t (Node l (a, x) r) bs s' (Node l (a, m) r) bs"
proof -
  note N = tree_inv_Node [OF I] and D = tree_invD [OF I] and f = field_words [OF tree_inv_Node(3) [OF I]]
  let ?s = "s\<lparr>words := (words s)(tree_key a \<mapsto> TVal m)\<rparr>"
  note P = put_word_ok [OF f(6), where v = "TVal m"]
  have S: "same_outside {tree_key a} s ?s" by (rule P(2)) simp
  have o: "tree_key a \<notin> foot l" "tree_key a \<notin> foot r" "tree_key a \<notin> blks bs" "tree_key a \<noteq> data_addr s" "tree_key a \<noteq> t"
    using fields_out [OF I, of "tree_key a"] N(8) f(3) by auto
  have "talloc_at ?s bs" by (rule talloc_at_outside [OF D(1) S]) (use o in auto)
  moreover have "tree_at (words ?s) q l" if "tree_at (words s) q l" for q
    by (rule tree_at_cong [OF that _ same_outsideD(2) [OF S]]) (use o in auto)
  moreover have "tree_at (words ?s) q r" if "tree_at (words s) q r" for q
    by (rule tree_at_cong [OF that _ same_outsideD(2) [OF S]]) (use o in auto)
  ultimately have "tree_inv ?s t (Node l (a, m) r) bs"
    using I o(5) N blk_ok_cong [OF N(3) same_outsideD(2) [OF S]] by (auto simp: tree_inv_def)
  moreover have "same_outside (insert t (insert (data_addr s) (foot (Node l (a, x) r) \<union> blks bs))) s ?s"
    by (rule same_outside_mono [OF S]) (use f(3) in auto)
  ultimately show ?thesis using P(1) by (auto simp: tree_step_def)
qed

abbreviation freed :: "nat option \<Rightarrow> (nat \<times> u64) list \<Rightarrow> (nat \<times> u64) list" where
  "freed f bs \<equiv> (case f of None \<Rightarrow> bs | Some a \<Rightarrow> (a, sizeof_tree) # bs)"

lemma tree_remove_ok:
  assumes "tree_inv s t tr bs"
  shows "\<exists>s'. tree_remove s t k = Some s' \<and> tree_step s t tr bs s' (fst (t_rem k tr)) (freed (snd (t_rem k tr)) bs)"
  using assms
proof (induction k tr arbitrary: t rule: t_rem.induct)
  case (1 k)
  then show ?case using tree_step_refl [OF 1] by (subst tree_remove.simps) (auto simp: tree_reads tree_inv_Leaf)
next
  case (2 k l a x r)
  note I = "2.prems" and u = tree_remove.simps [of s t k] and N = tree_inv_Node(1,2) [OF "2.prems"]
  consider "k = x" "l = Leaf" | "k = x" "l \<noteq> Leaf" | "k \<noteq> x" "k < x" | "k \<noteq> x" "\<not> k < x" by blast
  then show ?case
  proof cases
    case 1
    then show ?thesis using remove_root_ok [of s t a x r bs] I by simp
  next
    case 2
    note L = tree_inv_sub(1) [OF I]
    from tree_max_ok [OF L 2(2)] obtain m where m: "t_max l = Some m" "tree_max s (tree_left a) = Some m" by blast
    obtain l1 b y l2 where lN: "l = Node l1 (b, y) l2" using 2(2) by (cases l) auto
    have l: "words s (tree_left a) = Some (TPtr (Addr b))" by (rule tree_inv_Node(1) [OF L [unfolded lN]])
    from "2.IH"(1) [OF 2 refl L] m obtain s1 where
      s1: "tree_remove s (tree_left a) m = Some s1"
        "tree_step s (tree_left a) l bs s1 (fst (t_rem m l)) (freed (snd (t_rem m l)) bs)" by auto
    note S1 = tree_step_left [OF I s1(2)]
    then have I1: "tree_inv s1 t (Node (fst (t_rem m l)) (a, x) r) (freed (snd (t_rem m l)) bs)" by (simp add: tree_step_def)
    from key_write_ok [OF I1, of m] obtain s2 where s2: "put_word s1 (tree_key a) (TVal m) = Some s2"
      "tree_step s1 t (Node (fst (t_rem m l)) (a, x) r) (freed (snd (t_rem m l)) bs) s2
         (Node (fst (t_rem m l)) (a, m) r) (freed (snd (t_rem m l)) bs)" by blast
    have "tree_remove s t k = Some s2"
      using u N l m(2) s1(1) s2(1) 2(1) tree_inv_Node(1) [OF I1] by (simp add: tree_reads)
    then show ?thesis using tree_step_trans [OF S1 s2(2)] 2 m(1) by (simp add: case_prod_beta Let_def)
  next
    case 3
    from "2.IH"(2) [OF 3 tree_inv_sub(1) [OF I]] tree_step_left [OF I] show ?thesis
      using u N 3 by (auto simp: tree_reads case_prod_beta Let_def)
  next
    case 4
    from "2.IH"(3) [OF 4 tree_inv_sub(2) [OF I]] tree_step_right [OF I] show ?thesis
      using u N 4 by (auto simp: tree_reads case_prod_beta Let_def)
  qed
qed

section \<open>Freeing a tree\<close>

lemma free_tree_ok:
  assumes "tree_inv s t tr bs"
  shows "\<exists>s'. free_tree s t = Some s' \<and> talloc_at s' (t_free tr bs) \<and> blks (t_free tr bs) = foot tr \<union> blks bs \<and>
    same_outside (insert (data_addr s) (foot tr)) s s'"
  using assms
proof (induction tr arbitrary: s t bs)
  case Leaf
  then show ?case by (subst free_tree.simps) (auto simp: tree_reads tree_inv_Leaf)
next
  case (Node l n r)
  obtain a x where n: "n = (a, x)" by (cases n)
  with Node.prems have I: "tree_inv s t (Node l (a, x) r) bs" by simp
  note N = tree_inv_Node [OF I] and D = tree_invD [OF I] and f = field_words [OF tree_inv_Node(3) [OF I]]
  have sz: "unat sizeof_tree = 24" by (simp add: sizeof_tree_def)
  note o = fields_out [OF I, of "tree_right a"]
  from Node.IH(1) [OF tree_inv_sub(1) [OF I]] obtain s1 where s1: "free_tree s (tree_left a) = Some s1"
    "talloc_at s1 (t_free l bs)" "blks (t_free l bs) = foot l \<union> blks bs" "same_outside (insert (data_addr s) (foot l)) s s1" by blast
  note so1 = same_outsideD [OF s1(4)]
  obtain q where q: "words s (tree_right a) = Some (TPtr q)" "tree_at (words s) q r" using tree_inv_sub(2) [OF I] tree_invD(2) by blast
  have "words s1 y = words s y" if "y \<in> foot r" for y by (rule so1(1)) (use that N(5) D(7) in auto)
  then have "tree_at (words s1) q r" by (rule tree_at_cong [OF q(2)]) (assumption, rule so1(2))
  moreover have "words s1 (tree_right a) = Some (TPtr q)" using so1(1) [of "tree_right a"] o q(1) by simp
  ultimately have "tree_inv s1 (tree_right a) r (t_free l bs)"
    using s1(2,3) so1(3) o N(5) D(6,7) by (auto simp: tree_inv_def)
  from Node.IH(2) [OF this] obtain s2 where s2: "free_tree s1 (tree_right a) = Some s2"
    "talloc_at s2 (t_free r (t_free l bs))" "blks (t_free r (t_free l bs)) = foot r \<union> (foot l \<union> blks bs)"
    "same_outside (insert (data_addr s) (foot r)) s1 s2" using s1(3) so1(3) by auto
  note S2 = same_outside_trans [OF s1(4) s2(4)] and so2 = same_outsideD [OF s2(4)]
  have t1: "words s1 t = Some (TPtr (Addr a))" using so1(1) [of t] N(1) D(3,5) by simp
  have t2: "words s2 t = Some (TPtr (Addr a))" using so2(1) [of t] t1 D(3,5) by simp
  have "blk_ok (words s2) a (unat sizeof_tree)" using blk_ok_cong [OF N(3) same_outsideD(2) [OF S2]] sz by simp
  moreover have "tblk a (unat sizeof_tree) \<inter> insert (data_addr s2) (blks (t_free r (t_free l bs))) = {}"
    using s2(3) N(4,6,7) same_outsideD(3) [OF S2] sz by auto
  ultimately obtain s3 where s3: "tfree s2 sizeof_tree a = Some s3" "talloc_at s3 (t_free (Node l (a, x) r) bs)"
    "same_outside (insert (data_addr s2) (tblk a 24)) s2 s3" using tfree_ok [OF s2(2)] sz by fastforce
  have "free_tree s t = Some s3"
    using N(1) t1 t2 s1(1) s2(1) s3(1) by (subst free_tree.simps) (simp add: tree_reads)
  moreover have "same_outside (insert (data_addr s) (foot (Node l (a, x) r))) s s3"
    by (rule same_outside_mono [OF same_outside_trans [OF S2 s3(3)]]) (use same_outsideD(3) [OF S2] in auto)
  ultimately show ?case using n s3(2) s2(3) sz by auto
qed

section \<open>Search trees\<close>

definition tree_keys :: "'k atree \<Rightarrow> 'k set" where
  "tree_keys tr = set_tree (map_tree snd tr)"

definition tree_bst :: "('k :: linorder) atree \<Rightarrow> bool" where
  "tree_bst tr = bst (map_tree snd tr)"

lemma tree_keys_simps [simp]:
  "tree_keys Leaf = {}" "tree_keys (Node l (a, x) r) = insert x (tree_keys l \<union> tree_keys r)"
  by (auto simp: tree_keys_def)

lemma tree_bst_simps [simp]:
  "tree_bst Leaf" "tree_bst (Node l (a, x) r) \<longleftrightarrow>
     (\<forall>y\<in>tree_keys l. y < x) \<and> (\<forall>y\<in>tree_keys r. x < y) \<and> tree_bst l \<and> tree_bst r"
  by (auto simp: tree_bst_def tree_keys_def)

lemma t_mem_keys: "tree_bst tr \<Longrightarrow> t_mem k tr \<longleftrightarrow> k \<in> tree_keys tr"
  by (induction k tr rule: t_mem.induct) auto

lemma t_ins_keys: "tree_keys (t_ins b k tr) = insert k (tree_keys tr)"
  by (induction b k tr rule: t_ins.induct) auto

lemma t_ins_bst: "tree_bst tr \<Longrightarrow> tree_bst (t_ins b k tr)"
  by (induction b k tr rule: t_ins.induct) (auto simp: t_ins_keys)

lemma t_max_greatest: "tree_bst tr \<Longrightarrow> t_max tr = Some m \<Longrightarrow> m \<in> tree_keys tr \<and> (\<forall>y\<in>tree_keys tr. y \<le> m)"
proof (induction tr rule: t_max.induct)
  case (2 l a x r)
  show ?case
  proof (cases "r = Leaf")
    case True
    with 2 show ?thesis by (auto intro: less_imp_le)
  next
    case False
    with 2 have m: "m \<in> tree_keys r" "\<forall>y\<in>tree_keys r. y \<le> m" by auto
    with 2(2) have x: "x < m" "\<forall>y\<in>tree_keys l. y < x" by auto
    then have "\<forall>y\<in>tree_keys l. y \<le> m" by (meson less_imp_le less_trans)
    with m x(1) show ?thesis by auto
  qed
qed simp

lemma t_max_some: "tr \<noteq> Leaf \<Longrightarrow> \<exists>m. t_max tr = Some m"
  by (induction tr rule: t_max.induct) auto

lemma t_rem_bst: "tree_bst tr \<Longrightarrow> tree_bst (fst (t_rem k tr)) \<and> tree_keys (fst (t_rem k tr)) = tree_keys tr - {k}"
proof (induction k tr rule: t_rem.induct)
  case (2 k l a x r)
  note bst = "2.prems"
  consider "k = x" "l = Leaf" | "k = x" "l \<noteq> Leaf" | "k \<noteq> x" "k < x" | "k \<noteq> x" "\<not> k < x" by blast
  then show ?case
  proof cases
    case 1
    with bst show ?thesis by force
  next
    case 2
    obtain m where m: "t_max l = Some m" using t_max_some 2(2) by blast
    have g: "m \<in> tree_keys l" "\<And>y. y \<in> tree_keys l \<Longrightarrow> y \<le> m" using t_max_greatest [OF _ m] bst by auto
    from "2.IH"(1) [OF 2 refl] m bst
    have l: "tree_bst (fst (t_rem m l))" "tree_keys (fst (t_rem m l)) = tree_keys l - {m}" by auto
    have "\<forall>y\<in>tree_keys l - {m}. y < m" using g(2) le_neq_trans by blast
    moreover have "\<forall>y\<in>tree_keys r. m < y" using g(1) bst by (auto dest: less_trans)
    moreover have "insert m (tree_keys l - {m} \<union> tree_keys r) = insert x (tree_keys l \<union> tree_keys r) - {x}" using g(1) bst by auto
    ultimately show ?thesis using 2 m l bst by (simp add: case_prod_beta Let_def)
  next
    case 3
    with "2.IH"(2) bst show ?thesis by (auto simp: case_prod_beta Let_def)
  next
    case 4
    with "2.IH"(3) bst show ?thesis by (auto simp: case_prod_beta Let_def)
  qed
qed simp

lemma tree_insert_step:
  assumes "tree_inv s t tr bs" "t_mem k tr \<or> first_fit sizeof_tree bs = Some (b, bs')"
  shows "\<exists>s'. tree_insert s t k = Some s' \<and> tree_step s t tr bs s' (t_ins b k tr) (if t_mem k tr then bs else bs')"
  using insert_rec_ok [OF assms] by (simp add: insert_rec_eq)

section \<open>The programs refine sets\<close>

text \<open>
  C12. On a slot that holds a search tree with the set of keys \<open>tree_keys tr\<close>, \<open>member\<close>
  decides membership, and \<open>insert\<close> (with room for a node) and \<open>remove\<close> return with a search tree
  for the set with and without the key; no memory is lost, and nothing but the slot, the nodes and
  the free memory is written.
\<close>

theorem tree_refines_set:
  assumes I: "tree_inv s t tr bs" "tree_bst tr" and room: "k \<in> tree_keys tr \<or> first_fit sizeof_tree bs \<noteq> None"
  shows "tree_member s t k = Some (k \<in> tree_keys tr) \<and>
    (\<exists>s' tr' bs'. tree_insert s t k = Some s' \<and> tree_step s t tr bs s' tr' bs' \<and> tree_bst tr' \<and>
       tree_keys tr' = insert k (tree_keys tr)) \<and>
    (\<exists>s' tr' bs'. tree_remove s t k = Some s' \<and> tree_step s t tr bs s' tr' bs' \<and> tree_bst tr' \<and>
       tree_keys tr' = tree_keys tr - {k})"
proof (intro conjI)
  show "tree_member s t k = Some (k \<in> tree_keys tr)" using member_ok [OF I(1)] t_mem_keys [OF I(2)] by simp
  obtain b bs' where "t_mem k tr \<or> first_fit sizeof_tree bs = Some (b, bs')" using room t_mem_keys [OF I(2)] by auto
  from tree_insert_step [OF I(1) this] t_ins_bst [OF I(2)] t_ins_keys
  show "\<exists>s' tr' bs'. tree_insert s t k = Some s' \<and> tree_step s t tr bs s' tr' bs' \<and> tree_bst tr' \<and>
       tree_keys tr' = insert k (tree_keys tr)" by blast
  from tree_remove_ok [OF I(1), of k] t_rem_bst [OF I(2), of k]
  show "\<exists>s' tr' bs'. tree_remove s t k = Some s' \<and> tree_step s t tr bs s' tr' bs' \<and> tree_bst tr' \<and>
       tree_keys tr' = tree_keys tr - {k}" by blast
qed

text \<open>A node with key 5 at address 96, held by the slot 80 next to the demonstration memory of \<open>talloc\<close>.\<close>

definition demo_tree_words :: "(nat, int tword) heap" where
  "demo_tree_words = (\<lambda>x. if x = 80 then Some (TPtr (Addr 96)) else if x = 96 \<or> x = 104 then Some (TPtr NULL)
     else if x = 112 then Some (TVal 5) else if 96 \<le> x \<and> x < 120 then Some TUninit else demo_words x)"

definition demo_tree_mem :: "int tmem" where
  "demo_tree_mem = demo_tmem\<lparr>words := demo_tree_words\<rparr>"

lemma demo_tree_inv: "tree_inv demo_tree_mem 80 (Node Leaf (96, 5) Leaf) [(16, 64)]"
  by (auto simp: tree_inv_def talloc_at_def demo_tree_mem_def demo_tmem_def demo_tree_words_def demo_words_def blk_ok_def tblk_def
    ae_next_def tree_left_def tree_right_def tree_key_def dom_def)

theorem tree_refines_set_witness:
  "tree_member demo_tree_mem 80 7 = Some False \<and>
   (\<exists>s' tr' bs'. tree_insert demo_tree_mem 80 7 = Some s' \<and> tree_inv s' 80 tr' bs' \<and> tree_keys tr' = {5, 7}) \<and>
   (\<exists>s'. tree_remove demo_tree_mem 80 7 = Some s')"
proof -
  have "first_fit sizeof_tree [(16, 64)] \<noteq> None" by (simp add: sizeof_tree_def)
  then show ?thesis using tree_refines_set [OF demo_tree_inv, of 7] by (auto simp: tree_step_def insert_commute)
qed

text \<open>
  C13. The iterative functions are equivalent to the recursive ones: in every state of the memory,
  well-formed or not, \<open>member\<close> and \<open>member_rec\<close>, and \<open>insert\<close> and \<open>insert_rec\<close>, fault alike, run on alike or
  return the same result and memory.
\<close>

theorem tree_iterative_equiv_recursive:
  "tree_member s t k = member_rec s t k \<and> tree_insert s t k = insert_rec s t k"
  by (simp add: member_rec_eq insert_rec_eq)

section \<open>The clients\<close>

text \<open>
  The sequence of calls in the two functions \<open>main\<close>, for keys \<open>x < y\<close> and with room for two nodes.
\<close>

definition tree_session :: "('k :: linorder) tmem \<Rightarrow> nat \<Rightarrow> 'k \<Rightarrow> 'k \<Rightarrow> (int \<times> 'k tmem) option" where
  "tree_session s t x y = do {
     s \<leftarrow> put_word s t (TPtr tree_empty);
     (p, s) \<leftarrow> tree_init s y;
     s \<leftarrow> put_word s t (TPtr p);
     s \<leftarrow> tree_insert s t x;
     b \<leftarrow> tree_member s t x;
     _ \<leftarrow> c_assert b;
     b \<leftarrow> tree_member s t y;
     _ \<leftarrow> c_assert b;
     s \<leftarrow> tree_remove s t y;
     s \<leftarrow> tree_insert s t y;
     b \<leftarrow> tree_member s t x;
     _ \<leftarrow> c_assert b;
     s \<leftarrow> tree_remove s t y;
     s \<leftarrow> free_tree s t;
     Some (0, s) }"

lemma tree_init_insert: "words s t = Some (TPtr NULL) \<Longrightarrow> tree_init s k \<bind> (\<lambda>(p, s). put_word s t (TPtr p)) = insert_rec s t k"
  by (subst insert_rec.simps) (simp add: tree_reads tree_init_def tree_node_def)

lemma tree_session_ok:
  assumes A: "talloc_at s bs" and t: "t \<in> dom (words s)" "t \<noteq> data_addr s" "t \<notin> blks bs" and xy: "x < y"
    and f: "first_fit sizeof_tree bs = Some (b1, bs1)" "first_fit sizeof_tree bs1 = Some (b2, bs2)"
  shows "\<exists>s' bs'. tree_session s t x y = Some (0, s') \<and> talloc_at s' bs' \<and> blks bs' = blks bs \<and>
    same_outside (insert t (insert (data_addr s) (blks bs))) s s'"
proof -
  let ?d = "insert t (insert (data_addr s) (blks bs))" and ?n = "\<lambda>b k. Node Leaf (b, k) Leaf"
  have ne: "y \<noteq> x" "\<not> y < x" using xy by auto
  define s0 where "s0 = s\<lparr>words := (words s)(t \<mapsto> TPtr NULL)\<rparr>"
  have p0: "put_word s t (TPtr tree_empty) = Some s0" "same_outside {t} s s0"
    using put_word_ok [OF t(1)] by (simp_all add: s0_def tree_empty_def)
  have "talloc_at s0 bs" by (rule talloc_at_outside [OF A p0(2)]) (use t in auto)
  then have I0: "tree_inv s0 t Leaf bs" using t by (simp add: tree_inv_Leaf s0_def)
  obtain s1 where s1: "insert_rec s0 t y = Some s1" "tree_step s0 t Leaf bs s1 (?n b1 y) bs1"
    using insert_rec_ok [OF I0, of y b1 bs1] f by auto
  then have I1: "tree_inv s1 t (?n b1 y) bs1" by (simp add: tree_step_def)
  obtain s2 where s2: "tree_insert s1 t x = Some s2" "tree_step s1 t (?n b1 y) bs1 s2 (Node (?n b2 x) (b1, y) Leaf) bs2"
    using tree_insert_step [OF I1, of x b2 bs2] f xy by (auto split: if_splits)
  then have I2: "tree_inv s2 t (Node (?n b2 x) (b1, y) Leaf) bs2" by (simp add: tree_step_def)
  have m2: "tree_member s2 t x = Some True" "tree_member s2 t y = Some True" using member_ok [OF I2] xy by auto
  obtain s3 where s3: "tree_remove s2 t y = Some s3"
    "tree_step s2 t (Node (?n b2 x) (b1, y) Leaf) bs2 s3 (?n b1 x) ((b2, sizeof_tree) # bs2)"
    using tree_remove_ok [OF I2, of y] by auto
  then have I3: "tree_inv s3 t (?n b1 x) ((b2, sizeof_tree) # bs2)" by (simp add: tree_step_def)
  obtain s4 where s4: "tree_insert s3 t y = Some s4"
    "tree_step s3 t (?n b1 x) ((b2, sizeof_tree) # bs2) s4 (Node Leaf (b1, x) (?n b2 y)) bs2"
    using tree_insert_step [OF I3, of y b2 bs2] xy by (auto split: if_splits)
  then have I4: "tree_inv s4 t (Node Leaf (b1, x) (?n b2 y)) bs2" by (simp add: tree_step_def)
  have m4: "tree_member s4 t x = Some True" using member_ok [OF I4] by auto
  obtain s5 where s5: "tree_remove s4 t y = Some s5"
    "tree_step s4 t (Node Leaf (b1, x) (?n b2 y)) bs2 s5 (?n b1 x) ((b2, sizeof_tree) # bs2)"
    using tree_remove_ok [OF I4, of y] ne by auto
  note S = tree_step_trans [OF s1(2) tree_step_trans [OF s2(2) tree_step_trans [OF s3(2) tree_step_trans [OF s4(2) s5(2)]]]]
  then have I5: "tree_inv s5 t (?n b1 x) ((b2, sizeof_tree) # bs2)"
    and ar: "tblk b1 24 \<union> blks ((b2, sizeof_tree) # bs2) = blks bs" and S5: "same_outside ?d s0 s5"
    using same_outsideD(3) [OF p0(2)] by (auto simp: tree_step_def)
  obtain s6 where s6: "free_tree s5 t = Some s6" "talloc_at s6 ((b1, sizeof_tree) # (b2, sizeof_tree) # bs2)"
    "same_outside (insert (data_addr s5) (tblk b1 24)) s5 s6"
    using free_tree_ok [OF I5] by auto
  obtain p u where i: "tree_init s0 y = Some (p, u)" "put_word u t (TPtr p) = Some s1"
    using tree_init_insert [of s0 t y] I0 s1(1) by (auto simp: tree_inv_Leaf bind_eq_Some_conv)
  have "tree_session s t x y = Some (0, s6)"
    using p0(1) i s2(1) m2 s3(1) s4(1) m4 s5(1) s6(1) by (simp add: tree_session_def)
  moreover have "same_outside ?d s s6"
    by (rule same_outside_mono [OF same_outside_trans [OF same_outside_trans [OF p0(2) S5] s6(3)]])
      (use ar same_outsideD(3) [OF S5] same_outsideD(3) [OF p0(2)] in auto)
  moreover have "blks ((b1, sizeof_tree) # (b2, sizeof_tree) # bs2) = blks bs" using ar by (simp add: sizeof_tree_def)
  ultimately show ?thesis using s6(2) by blast
qed

text \<open>
  With room for two nodes in the allocator, \<open>main\<close> of \<open>t08_tree.c\<close> returns 0: its three
  assertions hold, it does not fault, it gives all memory back to the allocator and writes nothing else
  than its variable and the free memory.
\<close>

theorem tree_main_ok:
  assumes A: "talloc_at s bs" and t: "t \<in> dom (words s)" "t \<noteq> data_addr s" "t \<notin> blks bs"
    and f: "first_fit sizeof_tree bs = Some (b1, bs1)" "first_fit sizeof_tree bs1 = Some (b2, bs2)"
  shows "\<exists>s' bs'. tree_prog_main s t = Some (0, s') \<and> talloc_at s' bs' \<and> blks bs' = blks bs \<and>
    same_outside (insert t (insert (data_addr s) (blks bs))) s s'"
proof -
  have "tree_prog_main s t = tree_session s t 2 3"
    by (simp add: tree_prog_main_def tree_session_def sempty_def sinit_def sinsert_def smember_def sremove_def sfree_tree_def)
  with tree_session_ok [OF A t _ f, of 2 3] show ?thesis by simp
qed

theorem tree_main_ok_witness:
  "\<exists>s' bs'. tree_prog_main demo_tree_mem 80 = Some (0, s') \<and> talloc_at s' bs' \<and> blks bs' = blks [(16, 64)]"
proof -
  have "talloc_at demo_tree_mem [(16, 64)]" by (rule tree_invD(1) [OF demo_tree_inv])
  moreover have "first_fit sizeof_tree [(16, 64)] = Some (56, [(16, 40)])" "first_fit sizeof_tree [(16, 40)] = Some (32, [(16, 16)])"
    by (simp_all add: sizeof_tree_def)
  ultimately show ?thesis using tree_main_ok [of demo_tree_mem "[(16, 64)]" 80]
    by (fastforce simp: demo_tree_mem_def demo_tree_words_def demo_tmem_def tblk_def dom_def)
qed

end
