(* ===== verification/Tree_Set.thy ===== *)
theory Tree_Set
  imports Tree_Prog
begin

text \<open>
  The binary search trees of \<open>src/tutorial/t11_tree_set.c\<close>. The file repeats the functions of
  \<open>t08_tree.c\<close> with keys of type \<open>size_t\<close>; they are the functions of \<open>Tree_Prog\<close> at 64-bit words, compared
  as unsigned numbers. The functions implement the interface of a map whose values carry no
  information, that is of a set.
\<close>

section \<open>The program\<close>

definition ts_empty :: "nat ptr" where
  "ts_empty = tree_empty"

definition ts_init :: "u64 tmem \<Rightarrow> u64 \<Rightarrow> (nat ptr \<times> u64 tmem) option" where
  "ts_init s key = tree_init s key"

definition ts_node :: "u64 tmem \<Rightarrow> nat ptr \<Rightarrow> u64 \<Rightarrow> nat ptr \<Rightarrow> (nat ptr \<times> u64 tmem) option" where
  "ts_node s lft key rgt = tree_node s lft key rgt"

definition ts_free_tree :: "u64 tmem \<Rightarrow> nat \<Rightarrow> u64 tmem option" where
  "ts_free_tree s t = free_tree s t"

definition ts_member_rec :: "u64 tmem \<Rightarrow> nat \<Rightarrow> u64 \<Rightarrow> bool option" where
  "ts_member_rec s t k = member_rec s t k"

definition ts_member :: "u64 tmem \<Rightarrow> nat \<Rightarrow> u64 \<Rightarrow> bool option" where
  "ts_member s t k = tree_member s t k"

definition ts_insert_rec :: "u64 tmem \<Rightarrow> nat \<Rightarrow> u64 \<Rightarrow> u64 tmem option" where
  "ts_insert_rec s t k = insert_rec s t k"

definition ts_insert :: "u64 tmem \<Rightarrow> nat \<Rightarrow> u64 \<Rightarrow> u64 tmem option" where
  "ts_insert s t k = tree_insert s t k"

definition ts_max :: "u64 tmem \<Rightarrow> nat \<Rightarrow> u64 option" where
  "ts_max s t = tree_max s t"

definition ts_remove :: "u64 tmem \<Rightarrow> nat \<Rightarrow> u64 \<Rightarrow> u64 tmem option" where
  "ts_remove s t k = tree_remove s t k"

definition ts_main :: "u64 tmem \<Rightarrow> nat \<Rightarrow> (int \<times> u64 tmem) option" where
  "ts_main s t = do {
     s \<leftarrow> put_word s t (TPtr ts_empty);
     (p, s) \<leftarrow> ts_init s 3;
     s \<leftarrow> put_word s t (TPtr p);
     s \<leftarrow> ts_insert s t 2;
     b \<leftarrow> ts_member s t 2;
     _ \<leftarrow> c_assert b;
     b \<leftarrow> ts_member s t 3;
     _ \<leftarrow> c_assert b;
     s \<leftarrow> ts_remove s t 3;
     s \<leftarrow> ts_insert s t 3;
     b \<leftarrow> ts_member s t 2;
     _ \<leftarrow> c_assert b;
     s \<leftarrow> ts_remove s t 3;
     s \<leftarrow> ts_free_tree s t;
     Some (0, s) }"

lemmas ts_defs = ts_empty_def ts_init_def ts_node_def ts_free_tree_def ts_member_rec_def ts_member_def
  ts_insert_rec_def ts_insert_def ts_max_def ts_remove_def

section \<open>The interface of a set\<close>

text \<open>The state a client sees: the memory and the address of its variable.\<close>

definition set_inv :: "u64 tmem \<times> nat \<Rightarrow> bool" where
  "set_inv = (\<lambda>(s, t). \<exists>tr bs. tree_inv s t tr bs \<and> tree_bst tr)"

definition set_abs :: "u64 tmem \<times> nat \<Rightarrow> u64 \<Rightarrow> unit option" where
  "set_abs = (\<lambda>(s, t) k. if \<exists>tr bs. tree_inv s t tr bs \<and> k \<in> tree_keys tr then Some () else None)"

definition set_get :: "u64 tmem \<times> nat \<Rightarrow> u64 \<Rightarrow> unit option option" where
  "set_get = (\<lambda>(s, t) k. map_option (\<lambda>b. if b then Some () else None) (ts_member s t k))"

definition set_room :: "u64 tmem \<times> nat \<Rightarrow> bool" where
  "set_room = (\<lambda>(s, t). \<forall>bs. talloc_at s bs \<longrightarrow> first_fit sizeof_tree bs \<noteq> None)"

definition set_insert :: "u64 tmem \<times> nat \<Rightarrow> u64 \<Rightarrow> unit \<Rightarrow> (u64 tmem \<times> nat) option" where
  "set_insert = (\<lambda>(s, t) k u. map_option (\<lambda>s. (s, t)) (ts_insert s t k))"

definition set_remove :: "u64 tmem \<times> nat \<Rightarrow> u64 \<Rightarrow> (u64 tmem \<times> nat) option" where
  "set_remove = (\<lambda>(s, t) k. map_option (\<lambda>s. (s, t)) (ts_remove s t k))"

lemma tree_at_unique: "tree_at w p tr \<Longrightarrow> tree_at w p tr' \<Longrightarrow> tr = tr'"
proof (induction tr arbitrary: p tr')
  case (Node l n r)
  obtain a x where n: "n = (a, x)" by (cases n)
  from Node.prems n obtain l' x' r' where "tr' = Node l' (a, x') r'" by (cases tr') auto
  with Node n show ?case by auto
next
  case Leaf
  then show ?case by (cases tr') auto
qed

lemma set_abs_eq:
  assumes "tree_inv s t tr bs"
  shows "set_abs (s, t) = (\<lambda>k. if k \<in> tree_keys tr then Some () else None)"
proof -
  obtain p where p: "words s t = Some (TPtr p)" "tree_at (words s) p tr" using tree_invD(2) [OF assms] by blast
  have "tr' = tr" if I': "tree_inv s t tr' bs'" for tr' bs'
  proof -
    obtain p' where "words s t = Some (TPtr p')" "tree_at (words s) p' tr'" using tree_invD(2) [OF I'] by blast
    with p show ?thesis using tree_at_unique [of "words s" p tr' tr] by simp
  qed
  then have "(\<exists>tr' bs'. tree_inv s t tr' bs' \<and> k \<in> tree_keys tr') \<longleftrightarrow> k \<in> tree_keys tr" for k using assms by blast
  then show ?thesis by (simp add: set_abs_def)
qed

interpretation tset: remove_map set_inv set_abs set_get set_room set_insert set_remove
proof
  fix st :: "u64 tmem \<times> nat" and k :: u64 and v :: unit
  obtain s t where st: "st = (s, t)" by (cases st)
  assume "set_inv st"
  then obtain tr bs where I: "tree_inv s t tr bs" "tree_bst tr" by (auto simp: set_inv_def st)
  show "set_get st k = Some (set_abs st k)"
    using member_ok [OF I(1)] t_mem_keys [OF I(2)] set_abs_eq [OF I(1)] by (auto simp: set_get_def st ts_defs)
  obtain s' tr' bs' where r: "tree_remove s t k = Some s'" "tree_inv s' t tr' bs'" "tr' = fst (t_rem k tr)"
    using tree_remove_ok [OF I(1), of k] unfolding tree_step_def by blast
  have b: "tree_bst tr'" "tree_keys tr' = tree_keys tr - {k}" using t_rem_bst [OF I(2), of k] r(3) by auto
  have "set_abs (s', t) = (set_abs (s, t))(k := None)"
    unfolding set_abs_eq [OF I(1)] set_abs_eq [OF r(2)] b(2) by (simp add: fun_eq_iff)
  moreover have "set_inv (s', t)" using r(2) b(1) by (auto simp: set_inv_def)
  ultimately show "\<exists>st'. set_remove st k = Some st' \<and> set_inv st' \<and> set_abs st' = (set_abs st)(k := None)"
    using r(1) by (simp add: set_remove_def st ts_defs)
  assume "set_room st"
  then obtain b ds where "first_fit sizeof_tree bs = Some (b, ds)" using tree_invD(1) [OF I(1)] by (auto simp: set_room_def st)
  then obtain s' bs' where i: "tree_insert s t k = Some s'" "tree_inv s' t (t_ins b k tr) bs'"
    using tree_insert_step [OF I(1), of k b ds] unfolding tree_step_def by blast
  have "set_abs (s', t) = (set_abs (s, t))(k \<mapsto> v)"
    unfolding set_abs_eq [OF I(1)] set_abs_eq [OF i(2)] t_ins_keys by (simp add: fun_eq_iff)
  moreover have "set_inv (s', t)" using i(2) t_ins_bst [OF I(2)] by (auto simp: set_inv_def)
  ultimately show "\<exists>st'. set_insert st k v = Some st' \<and> set_inv st' \<and> set_abs st' = (set_abs st)(k \<mapsto> v)"
    using i(1) by (simp add: set_insert_def st ts_defs)
qed

section \<open>What a client of the set sees\<close>

lemma set_get_eq: "set_get (s, t) j = set_get (s', t') k \<longleftrightarrow> ts_member s t j = ts_member s' t' k"
proof -
  have "inj (\<lambda>b. if b then Some () else None)" by (auto intro: injI split: if_splits)
  then show ?thesis by (auto simp: set_get_def dest: option.inj_map [THEN injD])
qed

lemma set_get_True: "set_get (s, t) k = Some (Some ()) \<longleftrightarrow> ts_member s t k = Some True"
  by (auto simp: set_get_def)

text \<open>
  On a slot that holds a search tree with room in the allocator, \<open>insert\<close> returns with a
  tree that contains the key and otherwise the keys of before, and a \<open>remove\<close> of a key that was not there
  restores the set.
\<close>

theorem tree_set_laws:
  assumes I: "set_inv (s, t)" "set_room (s, t)" "ts_member s t k = Some False"
  shows "\<exists>s' s''. ts_insert s t k = Some s' \<and> (\<forall>j. ts_member s' t j = (if j = k then Some True else ts_member s t j)) \<and>
    ts_remove s' t k = Some s'' \<and> (\<forall>j. ts_member s'' t j = ts_member s t j)"
proof -
  have a: "set_abs (s, t) k = None" using tset.get_abs [OF I(1), of k] I(3) by (auto simp: set_get_def)
  obtain s1 s2 where s: "set_insert (s, t) k () = Some s1" "set_remove s1 k = Some s2" "set_inv s2" "set_abs s2 = set_abs (s, t)"
    using tset.insert_remove [OF I(1,2) a] by blast
  then obtain s' s'' where s': "ts_insert s t k = Some s'" "s1 = (s', t)" "ts_remove s' t k = Some s''" "s2 = (s'', t)"
    by (auto simp: set_insert_def set_remove_def)
  have "ts_member s' t j = (if j = k then Some True else ts_member s t j)" for j
    using tset.get_insert [OF I(1,2), of k "()" j] s(1) s'(2) by (cases "j = k") (auto simp: set_get_True set_get_eq)
  moreover have "ts_member s'' t j = ts_member s t j" for j
    using tset.get_abs [OF s(3), of j] tset.get_abs [OF I(1), of j] s(4) s'(4) by (simp flip: set_get_eq)
  ultimately show ?thesis using s' by blast
qed

text \<open>The slot 80 is empty, next to the demonstration memory of \<open>talloc\<close>.\<close>

definition demo_set_mem :: "u64 tmem" where
  "demo_set_mem = demo_tmem\<lparr>words := demo_words(80 \<mapsto> TPtr NULL)\<rparr>"

lemma demo_set_words: "words demo_set_mem 80 = Some (TPtr NULL)"
  by (simp add: demo_set_mem_def)

lemma demo_set_inv: "tree_inv demo_set_mem 80 Leaf [(16, 64)]"
  by (auto simp: tree_inv_def talloc_at_def demo_set_mem_def demo_tmem_def demo_words_def blk_ok_def tblk_def ae_next_def dom_def)

lemma free_list_unique: "free_list w p bs \<Longrightarrow> free_list w p ds \<Longrightarrow> bs = ds"
proof (induction bs arbitrary: p ds)
  case Nil
  then show ?case by (cases ds) auto
next
  case (Cons b bs)
  then obtain d ds' where "ds = d # ds'" by (cases ds; cases b) auto
  with Cons show ?case by (cases b; cases d) auto
qed

theorem tree_set_laws_witness:
  "\<exists>s' s''. ts_insert demo_set_mem 80 7 = Some s' \<and> ts_member s' 80 7 = Some True \<and>
    ts_remove s' 80 7 = Some s'' \<and> ts_member s'' 80 7 = ts_member demo_set_mem 80 7"
proof -
  have i: "set_inv (demo_set_mem, 80)" using demo_set_inv by (auto simp: set_inv_def intro: tree_bst_simps(1))
  have u: "bs = [(16, 64)]" if bs: "talloc_at demo_set_mem bs" for bs
  proof -
    obtain p where p: "words demo_set_mem (data_addr demo_set_mem) = Some (TPtr p)" "free_list (words demo_set_mem) p [(16, 64)]"
      using tree_invD(1) [OF demo_set_inv] unfolding talloc_at_def by blast
    obtain q where q: "words demo_set_mem (data_addr demo_set_mem) = Some (TPtr q)" "free_list (words demo_set_mem) q bs"
      using bs unfolding talloc_at_def by blast
    from p(1) q(1) have "q = p" by simp
    with q(2) p(2) show ?thesis using free_list_unique by blast
  qed
  have "first_fit sizeof_tree bs \<noteq> None" if "talloc_at demo_set_mem bs" for bs
    unfolding u [OF that] by (simp add: sizeof_tree_def)
  then have "set_room (demo_set_mem, 80)" by (simp add: set_room_def)
  moreover have "ts_member demo_set_mem 80 7 = Some False" using member_ok [OF demo_set_inv] by (simp add: ts_defs)
  ultimately show ?thesis using tree_set_laws [OF i] by force
qed

text \<open>\<open>main\<close> of the file is the session of \<open>Tree_Prog\<close> with the keys 2 and 3.\<close>

lemma ts_main_ok:
  assumes "talloc_at s bs" "t \<in> dom (words s)" "t \<noteq> data_addr s" "t \<notin> blks bs"
    and "first_fit sizeof_tree bs = Some (b1, bs1)" "first_fit sizeof_tree bs1 = Some (b2, bs2)"
  shows "\<exists>s' bs'. ts_main s t = Some (0, s') \<and> talloc_at s' bs' \<and> blks bs' = blks bs \<and>
    same_outside (insert t (insert (data_addr s) (blks bs))) s s'"
  using tree_session_ok [OF assms(1-4) _ assms(5,6), of 2 3] by (simp add: ts_main_def tree_session_def ts_defs)

end
