(* ===== verification/Btree.thy ===== *)
theory Btree
  imports Map_Spec
begin

text \<open>
  The B-trees of order 5 of \<open>src/examples/btree.c\<close> and \<open>btree.h\<close>.

  A value of type \<open>btree_t*\<close> is a slot that holds the pointer to a node: a variable of type \<open>btree_t\<close>
  or an entry of the array \<open>children\<close> of a node. The counters are natural numbers. The functions that
  rewrite a node work on the record and store it at the end; the new node of a split is another object
  than the node that is split. \<open>malloc\<close> is a parameter, which gives a free address and the garbage
  there, and \<open>None\<close> for the null pointer, on which \<open>xmalloc\<close> does not return.
\<close>

section \<open>The program\<close>

definition ORDER :: nat where "ORDER = 5"

record 'v btree =
  nb_keys :: nat
  keys :: "int list"
  vals :: "'v list"
  children :: "nat ptr list"
  height :: nat

record 'v bstate =
  bvars :: "(nat, nat ptr) heap"
  bnodes :: "(nat, 'v btree) heap"

datatype bslot = BVar nat | BChild nat nat

type_synonym 'v allocator = "'v bstate \<Rightarrow> (nat \<times> 'v btree) option"

definition get_slot :: "'v bstate \<Rightarrow> bslot \<Rightarrow> nat ptr option" where
  "get_slot s t = (case t of
     BVar x \<Rightarrow> bvars s x
   | BChild a i \<Rightarrow> do { nd \<leftarrow> bnodes s a; arr_get (children nd) i })"

definition put_slot :: "'v bstate \<Rightarrow> bslot \<Rightarrow> nat ptr \<Rightarrow> 'v bstate option" where
  "put_slot s t p = (case t of
     BVar x \<Rightarrow> do { _ \<leftarrow> bvars s x; Some (s\<lparr>bvars := (bvars s)(x \<mapsto> p)\<rparr>) }
   | BChild a i \<Rightarrow> do {
       nd \<leftarrow> bnodes s a;
       cs \<leftarrow> arr_set (children nd) i p;
       Some (s\<lparr>bnodes := (bnodes s)(a \<mapsto> nd\<lparr>children := cs\<rparr>)\<rparr>) })"

definition put_node :: "'v bstate \<Rightarrow> nat \<Rightarrow> 'v btree \<Rightarrow> 'v bstate" where
  "put_node s a nd = s\<lparr>bnodes := (bnodes s)(a \<mapsto> nd)\<rparr>"

text \<open>The object at a pointer.\<close>

definition node_of :: "'v bstate \<Rightarrow> nat ptr \<Rightarrow> (nat \<times> 'v btree) option" where
  "node_of s p = (case p of Addr a \<Rightarrow> map_option (Pair a) (bnodes s a) | _ \<Rightarrow> None)"

definition xmalloc_btree :: "'v allocator \<Rightarrow> 'v bstate \<Rightarrow> (nat \<times> 'v btree \<times> 'v bstate) option" where
  "xmalloc_btree malloc s = do {
     (a, garbage) \<leftarrow> malloc s;
     Some (a, garbage, put_node s a garbage) }"

definition new_btree :: "('v bstate \<Rightarrow> nat option) \<Rightarrow> 'v bstate \<Rightarrow> (nat \<times> 'v bstate) option" where
  "new_btree malloc_var s = do {
     t \<leftarrow> malloc_var s;
     Some (t, s\<lparr>bvars := (bvars s)(t \<mapsto> NULL)\<rparr>) }"

text \<open>\<open>free_btree_nodes\<close>: \<open>None\<close> is the entry of the function, \<open>Some i\<close> its loop at the index \<open>i\<close>.\<close>

partial_function (option) free_nodes_at :: "'v bstate \<Rightarrow> bslot \<Rightarrow> nat option \<Rightarrow> 'v bstate option" where
  "free_nodes_at s t j =
     Option.bind (get_slot s t) (\<lambda>p.
       case j of
         None \<Rightarrow> if p = NULL then Some s else free_nodes_at s t (Some 0)
       | Some i \<Rightarrow> Option.bind (node_of s p) (\<lambda>(a, nd).
           if i \<le> nb_keys nd
           then Option.bind (free_nodes_at s (BChild a i) None) (\<lambda>s. free_nodes_at s t (Some (i + 1)))
           else put_slot (s\<lparr>bnodes := (bnodes s)(a := None)\<rparr>) t NULL))"

definition free_btree_nodes :: "'v bstate \<Rightarrow> bslot \<Rightarrow> 'v bstate option" where
  "free_btree_nodes s t = free_nodes_at s t None"

definition free_btree :: "'v bstate \<Rightarrow> nat \<Rightarrow> 'v bstate option" where
  "free_btree s t = do {
     s \<leftarrow> free_btree_nodes s (BVar t);
     Some (s\<lparr>bvars := (bvars s)(t := None)\<rparr>) }"

function key_index_loop :: "int list \<Rightarrow> nat \<Rightarrow> int \<Rightarrow> nat \<Rightarrow> nat option" where
  "key_index_loop ar n k slot =
     (if slot < n then
        (case arr_get ar slot of
           None \<Rightarrow> None
         | Some x \<Rightarrow> if x < k then key_index_loop ar n k (slot + 1) else Some slot)
      else Some slot)"
  by pat_completeness auto
termination by (relation "measure (\<lambda>(ar, n, k, slot). n - slot)") auto

declare key_index_loop.simps [simp del]

definition key_index :: "int list \<Rightarrow> nat \<Rightarrow> int \<Rightarrow> nat option" where
  "key_index ar n k = key_index_loop ar n k 0"

partial_function (option) btree_member :: "'v bstate \<Rightarrow> bslot \<Rightarrow> int \<Rightarrow> bool option" where
  "btree_member s cur k =
     Option.bind (get_slot s cur) (\<lambda>p.
       if p \<noteq> NULL then
         Option.bind (node_of s p) (\<lambda>(a, nd).
         Option.bind (key_index (keys nd) (nb_keys nd) k) (\<lambda>i.
         Option.bind (if i < nb_keys nd then map_option (\<lambda>x. x = k) (arr_get (keys nd) i) else Some False) (\<lambda>found.
           if found then Some True else btree_member s (BChild a i) k)))
       else Some False)"

text \<open>The pointer \<open>btree_find\<close> returns, to an entry of the array \<open>vals\<close> of a node.\<close>

partial_function (option) btree_find :: "'v bstate \<Rightarrow> bslot \<Rightarrow> int \<Rightarrow> (nat \<times> nat) option option" where
  "btree_find s cur k =
     Option.bind (get_slot s cur) (\<lambda>p.
       if p \<noteq> NULL then
         Option.bind (node_of s p) (\<lambda>(a, nd).
         Option.bind (key_index (keys nd) (nb_keys nd) k) (\<lambda>i.
         Option.bind (if i < nb_keys nd then map_option (\<lambda>x. x = k) (arr_get (keys nd) i) else Some False) (\<lambda>found.
           if found then Some (Some (a, i)) else btree_find s (BChild a i) k)))
       else Some None)"

subsection \<open>Insertion into a node\<close>

text \<open>The bodies of the loops of \<open>insert_br\<close>: an entry moves one place up, or to the new node.\<close>

definition move_up :: "nat \<Rightarrow> 'v btree \<Rightarrow> 'v btree option" where
  "move_up i nd = do {
     x \<leftarrow> arr_get (keys nd) (i - 1);
     ks \<leftarrow> arr_set (keys nd) i x;
     y \<leftarrow> arr_get (vals nd) (i - 1);
     vs \<leftarrow> arr_set (vals nd) i y;
     c \<leftarrow> arr_get (children nd) i;
     cs \<leftarrow> arr_set (children nd) (i + 1) c;
     Some (nd\<lparr>keys := ks, vals := vs, children := cs\<rparr>) }"

definition copy_entry :: "'v btree \<Rightarrow> nat \<Rightarrow> nat \<Rightarrow> 'v btree \<Rightarrow> 'v btree option" where
  "copy_entry nd d i nw = do {
     x \<leftarrow> arr_get (keys nd) i;
     ks \<leftarrow> arr_set (keys nw) (i - d) x;
     y \<leftarrow> arr_get (vals nd) i;
     vs \<leftarrow> arr_set (vals nw) (i - d) y;
     c \<leftarrow> arr_get (children nd) (i + 1);
     cs \<leftarrow> arr_set (children nw) (i - d + 1) c;
     Some (nw\<lparr>keys := ks, vals := vs, children := cs\<rparr>) }"

definition write_entry :: "nat \<Rightarrow> int \<Rightarrow> 'v \<Rightarrow> nat ptr \<Rightarrow> 'v btree \<Rightarrow> 'v btree option" where
  "write_entry i k v b nd = do {
     ks \<leftarrow> arr_set (keys nd) i k;
     vs \<leftarrow> arr_set (vals nd) i v;
     cs \<leftarrow> arr_set (children nd) (i + 1) b;
     Some (nd\<lparr>keys := ks, vals := vs, children := cs\<rparr>) }"

definition set_child0 :: "nat ptr \<Rightarrow> 'v btree \<Rightarrow> 'v btree option" where
  "set_child0 c nd = do { cs \<leftarrow> arr_set (children nd) 0 c; Some (nd\<lparr>children := cs\<rparr>) }"

text \<open>The three cases of a split, on the full node and the new one; with the median entry.\<close>

definition split_left ::
  "nat \<Rightarrow> int \<Rightarrow> 'v \<Rightarrow> nat ptr \<Rightarrow> 'v btree \<Rightarrow> 'v btree \<Rightarrow> ((int \<times> 'v) \<times> 'v btree \<times> 'v btree) option" where
  "split_left slot k v b nd nw = do {
     let med = ORDER div 2;
     med_k \<leftarrow> arr_get (keys nd) (med - 1);
     med_v \<leftarrow> arr_get (vals nd) (med - 1);
     nw \<leftarrow> c_for [med..<ORDER] (copy_entry nd med) nw;
     c \<leftarrow> arr_get (children nd) med;
     nw \<leftarrow> set_child0 c nw;
     nd \<leftarrow> c_for (rev [slot + 1..<med]) move_up nd;
     nd \<leftarrow> write_entry slot k v b nd;
     Some ((med_k, med_v), nd\<lparr>nb_keys := med\<rparr>, nw\<lparr>nb_keys := ORDER - med - 1\<rparr>) }"

definition split_median ::
  "int \<Rightarrow> 'v \<Rightarrow> nat ptr \<Rightarrow> 'v btree \<Rightarrow> 'v btree \<Rightarrow> ((int \<times> 'v) \<times> 'v btree \<times> 'v btree) option" where
  "split_median k v b nd nw = do {
     let med = ORDER div 2;
     nw \<leftarrow> c_for [med..<ORDER - 1] (copy_entry nd med) nw;
     nw \<leftarrow> set_child0 b nw;
     Some ((k, v), nd\<lparr>nb_keys := med\<rparr>, nw\<lparr>nb_keys := ORDER - med - 1\<rparr>) }"

definition split_right ::
  "nat \<Rightarrow> int \<Rightarrow> 'v \<Rightarrow> nat ptr \<Rightarrow> 'v btree \<Rightarrow> 'v btree \<Rightarrow> ((int \<times> 'v) \<times> 'v btree \<times> 'v btree) option" where
  "split_right slot k v b nd nw = do {
     let med = ORDER div 2;
     med_k \<leftarrow> arr_get (keys nd) med;
     med_v \<leftarrow> arr_get (vals nd) med;
     nw \<leftarrow> c_for [med + 1..<slot] (copy_entry nd (med + 1)) nw;
     c \<leftarrow> arr_get (children nd) (med + 1);
     nw \<leftarrow> set_child0 c nw;
     nw \<leftarrow> write_entry (slot - (med + 1)) k v b nw;
     nw \<leftarrow> c_for [slot..<ORDER - 1] (copy_entry nd med) nw;
     Some ((med_k, med_v), nd\<lparr>nb_keys := med\<rparr>, nw\<lparr>nb_keys := ORDER - med - 1\<rparr>) }"

text \<open>\<open>insert_br\<close> returns the new node or null, and what it writes to \<open>med_k\<close> and \<open>med_v\<close>, if anything.\<close>

definition insert_br ::
  "'v allocator \<Rightarrow> 'v bstate \<Rightarrow> bslot \<Rightarrow> int \<Rightarrow> 'v \<Rightarrow> nat ptr \<Rightarrow> (nat ptr \<times> (int \<times> 'v) option \<times> 'v bstate) option" where
  "insert_br malloc s nslot k v b = do {
     p \<leftarrow> get_slot s nslot;
     (a, nd) \<leftarrow> node_of s p;
     let n = nb_keys nd;
     slot \<leftarrow> key_index (keys nd) n k;
     if nb_keys nd < ORDER - 1 then do {
       nd \<leftarrow> c_for (rev [slot + 1..<n + 1]) move_up nd;
       nd \<leftarrow> write_entry slot k v b nd;
       Some (NULL, None, put_node s a (nd\<lparr>nb_keys := nb_keys nd + 1\<rparr>)) }
     else do {
       (new_node, nw, s) \<leftarrow> xmalloc_btree malloc s;
       let nw = nw\<lparr>height := height nd\<rparr>;
       let med = ORDER div 2;
       (m, nd, nw) \<leftarrow> (if slot < med then split_left slot k v b nd nw
                      else if slot = med then split_median k v b nd nw
                      else split_right slot k v b nd nw);
       Some (Addr new_node, Some m, put_node (put_node s a nd) new_node nw) } }"

definition btree_make_root ::
  "'v allocator \<Rightarrow> 'v bstate \<Rightarrow> nat ptr \<Rightarrow> nat ptr \<Rightarrow> int \<Rightarrow> 'v \<Rightarrow> (nat ptr \<times> 'v bstate) option" where
  "btree_make_root malloc s l r k v = do {
     (root, nd, s) \<leftarrow> xmalloc_btree malloc s;
     h \<leftarrow> (if l = NULL then Some 1 else map_option (\<lambda>(_, ld). height ld + 1) (node_of s l));
     ks \<leftarrow> arr_set (keys nd) 0 k;
     vs \<leftarrow> arr_set (vals nd) 0 v;
     cs \<leftarrow> arr_set (children nd) 0 l;
     cs \<leftarrow> arr_set cs 1 r;
     Some (Addr root, put_node s root (nd\<lparr>height := h, nb_keys := 1, keys := ks, vals := vs, children := cs\<rparr>)) }"

subsection \<open>Insertion into a tree\<close>

text \<open>
  The way down: \<open>path_ptrs\<close> and \<open>path_keys\<close> are arrays with \<open>height + 1\<close> and \<open>height\<close> entries, with no
  value at first. The result is the state if the key was found and its value replaced, and otherwise the
  path and its length.
\<close>

partial_function (option) path_down ::
  "'v bstate \<Rightarrow> int \<Rightarrow> 'v \<Rightarrow> bslot option list \<Rightarrow> nat option list \<Rightarrow> nat \<Rightarrow> ('v bstate + bslot option list \<times> nat) option" where
  "path_down s k v path_ptrs path_keys cur =
     Option.bind (Option.bind (arr_get path_ptrs cur) id) (\<lambda>cur_node.
     Option.bind (get_slot s cur_node) (\<lambda>p.
       if p \<noteq> NULL then
         Option.bind (node_of s p) (\<lambda>(a, nd).
         Option.bind (key_index (keys nd) (nb_keys nd) k) (\<lambda>i.
         Option.bind (if i < nb_keys nd then map_option (\<lambda>x. x = k) (arr_get (keys nd) i) else Some False) (\<lambda>found.
           if found then
             Option.bind (arr_set (vals nd) i v) (\<lambda>vs. Some (Inl (put_node s a (nd\<lparr>vals := vs\<rparr>))))
           else
             Option.bind (arr_set path_keys cur (Some i)) (\<lambda>path_keys.
             Option.bind (arr_set path_ptrs (cur + 1) (Some (BChild a i))) (\<lambda>path_ptrs.
               path_down s k v path_ptrs path_keys (cur + 1))))))
       else Some (Inr (path_ptrs, cur))))"

text \<open>The way up: the median of a split is inserted one level above; at the top a new root is made.\<close>

fun path_up ::
  "'v allocator \<Rightarrow> 'v bstate \<Rightarrow> bslot \<Rightarrow> bslot option list \<Rightarrow> int \<Rightarrow> 'v \<Rightarrow> nat ptr \<Rightarrow> nat \<Rightarrow> 'v bstate option" where
  "path_up malloc s t path_ptrs ins_k ins_v ins_b 0 = do {
     p \<leftarrow> get_slot s t;
     (root, s) \<leftarrow> btree_make_root malloc s p ins_b ins_k ins_v;
     put_slot s t root }"
| "path_up malloc s t path_ptrs ins_k ins_v ins_b (Suc cur) = do {
     nslot \<leftarrow> arr_get path_ptrs cur \<bind> id;
     (new, med, s) \<leftarrow> insert_br malloc s nslot ins_k ins_v ins_b;
     if new = NULL then Some s
     else do {
       (med_k, med_v) \<leftarrow> med;
       path_up malloc s t path_ptrs med_k med_v new cur } }"

definition btree_insert :: "'v allocator \<Rightarrow> 'v bstate \<Rightarrow> bslot \<Rightarrow> int \<Rightarrow> 'v \<Rightarrow> 'v bstate option" where
  "btree_insert malloc s t k v = do {
     p \<leftarrow> get_slot s t;
     if p = NULL then do {
       (root, s) \<leftarrow> btree_make_root malloc s NULL NULL k v;
       put_slot s t root }
     else do {
       (a, nd) \<leftarrow> node_of s p;
       path_ptrs \<leftarrow> arr_set (replicate (height nd + 1) None) 0 (Some t);
       r \<leftarrow> path_down s k v path_ptrs (replicate (height nd) None) 0;
       case r of
         Inl s \<Rightarrow> Some s
       | Inr (path_ptrs, cur) \<Rightarrow> path_up malloc s t path_ptrs k v NULL cur } }"

section \<open>Representation\<close>

text \<open>The abstract tree: the address of a node, its entries and its subtrees.\<close>

datatype 'v bt = BLeaf | BNode nat "(int \<times> 'v) list" "'v bt list"

text \<open>A node with the entries \<open>es\<close> and the pointers \<open>ps\<close> to its children.\<close>

definition node_rep :: "'v btree \<Rightarrow> (int \<times> 'v) list \<Rightarrow> nat ptr list \<Rightarrow> bool" where
  "node_rep nd es ps \<longleftrightarrow> length (keys nd) = 4 \<and> length (vals nd) = 4 \<and> length (children nd) = 5 \<and>
     nb_keys nd = length es \<and> length es \<le> 4 \<and> take (length es) (keys nd) = map fst es \<and>
     take (length es) (vals nd) = map snd es \<and> take (length es + 1) (children nd) = ps"

lemma size_nth_le: "i < length cs \<Longrightarrow> size (cs ! i) \<le> size_list size cs"
  by (rule size_list_estimation' [of "cs ! i"]) simp_all

function bt_at :: "'v bstate \<Rightarrow> nat ptr \<Rightarrow> 'v bt \<Rightarrow> bool" where
  "bt_at s p BLeaf \<longleftrightarrow> p = NULL"
| "bt_at s p (BNode a es cs) \<longleftrightarrow> p = Addr a \<and> length cs = length es + 1 \<and>
     (\<exists>nd ps. bnodes s a = Some nd \<and> node_rep nd es ps \<and> (\<forall>i<length cs. bt_at s (ps ! i) (cs ! i)))"
  by pat_completeness auto
termination by (relation "measure (\<lambda>(s, p, t). size t)") (auto simp: less_Suc_eq_le intro!: trans_le_add2 size_nth_le)

text \<open>The entries of a tree from left to right.\<close>

fun join :: "'a list list \<Rightarrow> 'a list \<Rightarrow> 'a list" where
  "join [] ys = []"
| "join (x # xs) [] = x"
| "join (x # xs) (y # ys) = x @ y # join xs ys"

primrec bt_inorder :: "'v bt \<Rightarrow> (int \<times> 'v) list" where
  "bt_inorder BLeaf = []"
| "bt_inorder (BNode a es cs) = join (map bt_inorder cs) es"

definition ordered :: "(int \<times> 'v) list \<Rightarrow> bool" where
  "ordered es \<longleftrightarrow> sorted_wrt (<) (map fst es)"

definition below :: "int \<Rightarrow> (int \<times> 'v) list \<Rightarrow> nat" where
  "below k es = length (takeWhile (\<lambda>e. fst e < k) es)"

lemma below_simps [simp]: "below k [] = 0" "below k (e # es) = (if fst e < k then Suc (below k es) else 0)"
  by (simp_all add: below_def)

lemma below_le: "below k es \<le> length es"
  by (simp add: below_def length_takeWhile_le)

lemma ordered_Cons: "ordered (e # es) \<longleftrightarrow> (\<forall>d\<in>set es. fst e < fst d) \<and> ordered es"
  by (auto simp: ordered_def)

lemma ordered_append: "ordered (es @ ds) \<longleftrightarrow> ordered es \<and> ordered ds \<and> (\<forall>e\<in>set es. \<forall>d\<in>set ds. fst e < fst d)"
  by (auto simp: ordered_def sorted_wrt_append)

lemma ordered_distinct: "ordered es \<Longrightarrow> distinct (map fst es)"
  by (auto simp: ordered_def strict_sorted_iff)

lemma map_of_outside: "(\<And>e. e \<in> set es \<Longrightarrow> fst e \<noteq> k) \<Longrightarrow> map_of es k = None"
  by (force simp: map_of_eq_None_iff)

lemma join_entries: "length xs = length ys + 1 \<Longrightarrow> set ys \<subseteq> set (join xs ys)"
  by (induction xs ys rule: join.induct) auto

lemma join_parts: "length xs = length ys + 1 \<Longrightarrow> x \<in> set xs \<Longrightarrow> set x \<subseteq> set (join xs ys)"
  by (induction xs ys rule: join.induct) (auto split: if_splits)

text \<open>Looking a key up in a node: it is the entry at the index, or it is in the child there.\<close>

lemma join_lookup:
  assumes "length xs = length ys + 1" "ordered (join xs ys)"
  shows "map_of (join xs ys) k =
    (if below k ys < length ys \<and> fst (ys ! below k ys) = k then Some (snd (ys ! below k ys)) else map_of (xs ! below k ys) k)"
  using assms
proof (induction xs ys rule: join.induct)
  case (3 x xs y ys)
  then have o: "ordered x" "\<forall>e\<in>set x. fst e < fst y" "\<forall>e\<in>set (join xs ys). fst y < fst e" "ordered (join xs ys)"
    by (auto simp: ordered_append ordered_Cons)
  consider "fst y < k" | "fst y = k" | "k < fst y" by linarith
  then show ?case
  proof cases
    case 1
    then have "map_of x k = None" using o(2) by (intro map_of_outside) fastforce
    then show ?thesis using 3 o(4) 1 by (auto simp: map_add_def)
  next
    case 2
    then have "map_of x k = None" using o(2) by (intro map_of_outside) fastforce
    then show ?thesis using 2 by (auto simp: map_add_def)
  next
    case 3
    then have "map_of (join xs ys) k = None" using o(3) by (intro map_of_outside) fastforce
    then show ?thesis using 3 by (cases y) (auto simp: map_add_def split: option.splits)
  qed
qed auto

lemma join_ordered:
  assumes "length xs = length ys + 1" "ordered (join xs ys)"
  shows "ordered ys" "x \<in> set xs \<Longrightarrow> ordered x"
proof -
  have "ordered ys \<and> (\<forall>x\<in>set xs. ordered x)" using assms
  proof (induction xs ys rule: join.induct)
    case (3 x xs y ys)
    then have "\<forall>e\<in>set ys. fst y < fst e" using join_entries [of xs ys] by (auto simp: ordered_append ordered_Cons)
    with 3 show ?case by (auto simp: ordered_append ordered_Cons)
  qed (auto simp: ordered_def)
  then show "ordered ys" "x \<in> set xs \<Longrightarrow> ordered x" by auto
qed

section \<open>Search\<close>

lemma key_index_loop_ok:
  assumes "length es \<le> length ar" "take (length es) ar = map fst es" "slot \<le> length es"
  shows "key_index_loop ar (length es) k slot = Some (slot + below k (drop slot es))"
  using assms(3)
proof (induction "length es - slot" arbitrary: slot)
  case 0
  then show ?case by (subst key_index_loop.simps) simp
next
  case (Suc d)
  then have l: "slot < length es" by simp
  then have "ar ! slot = fst (es ! slot)" using arg_cong [OF assms(2), of "\<lambda>l. l ! slot"] by simp
  moreover have "drop slot es = es ! slot # drop (Suc slot) es" using l by (simp add: Cons_nth_drop_Suc)
  moreover have "slot < length ar" using l assms(1) by simp
  ultimately show ?case using Suc.hyps(1) [of "Suc slot"] Suc.hyps(2) l
    by (subst key_index_loop.simps) auto
qed

lemma key_index_ok: "node_rep nd es ps \<Longrightarrow> key_index (keys nd) (nb_keys nd) k = Some (below k es)"
  using key_index_loop_ok [of es "keys nd" 0 k] by (simp add: key_index_def node_rep_def)

text \<open>The value a result of \<open>btree_find\<close> points to.\<close>

definition deref_val :: "'v bstate \<Rightarrow> nat \<times> nat \<Rightarrow> 'v option" where
  "deref_val s = (\<lambda>(a, i). bnodes s a \<bind> (\<lambda>nd. arr_get (vals nd) i))"

lemma node_rep_nth:
  assumes "node_rep nd es ps" "i < length es"
  shows "arr_get (keys nd) i = Some (fst (es ! i))" "arr_get (vals nd) i = Some (snd (es ! i))"
proof -
  have l: "i < length (keys nd)" "i < length (vals nd)" using assms by (auto simp: node_rep_def)
  have e: "take (length es) (keys nd) = map fst es" "take (length es) (vals nd) = map snd es"
    using assms(1) by (simp_all add: node_rep_def)
  have "keys nd ! i = fst (es ! i)" using assms(2) arg_cong [OF e(1), of "\<lambda>l. l ! i"] by simp
  moreover have "vals nd ! i = snd (es ! i)" using assms(2) arg_cong [OF e(2), of "\<lambda>l. l ! i"] by simp
  ultimately show "arr_get (keys nd) i = Some (fst (es ! i))" "arr_get (vals nd) i = Some (snd (es ! i))"
    using l by simp_all
qed

lemma node_rep_child:
  assumes "node_rep nd es ps" "i \<le> length es"
  shows "arr_get (children nd) i = Some (ps ! i)"
  using assms by (auto simp: node_rep_def)

lemma btree_find_ok:
  assumes "bt_at s p t" "get_slot s sl = Some p" "ordered (bt_inorder t)"
  shows "\<exists>r. btree_find s sl k = Some r \<and> btree_member s sl k = Some (r \<noteq> None) \<and>
    (case r of None \<Rightarrow> map_of (bt_inorder t) k = None
     | Some q \<Rightarrow> \<exists>v. deref_val s q = Some v \<and> map_of (bt_inorder t) k = Some v)"
  using assms
proof (induction t arbitrary: p sl)
  case BLeaf
  then show ?case by (subst btree_find.simps, subst btree_member.simps) simp
next
  case (BNode a es cs)
  then obtain nd ps where nd: "p = Addr a" "length cs = length es + 1" "bnodes s a = Some nd" "node_rep nd es ps"
    and ch: "\<And>i. i < length cs \<Longrightarrow> bt_at s (ps ! i) (cs ! i)" by auto
  let ?i = "below k es"
  note K = key_index_ok [OF nd(4), of k]
  have nb: "nb_keys nd = length es" using nd(4) by (simp add: node_rep_def)
  have i: "?i < length cs" "?i \<le> length es" using below_le [of k es] nd(2) by auto
  have lk: "map_of (bt_inorder (BNode a es cs)) k =
    (if ?i < length es \<and> fst (es ! ?i) = k then Some (snd (es ! ?i)) else map_of (bt_inorder (cs ! ?i)) k)"
    using join_lookup [of "map bt_inorder cs" es k] nd(2) BNode.prems(3) i(1) by simp
  show ?case
  proof (cases "?i < length es \<and> fst (es ! ?i) = k")
    case True
    note e = node_rep_nth [OF nd(4) conjunct1 [OF True]]
    have "btree_find s sl k = Some (Some (a, ?i))"
      using BNode.prems(2) nd(1,3) K nb True e by (subst btree_find.simps) (simp add: node_of_def)
    moreover have "btree_member s sl k = Some True"
      using BNode.prems(2) nd(1,3) K nb True e by (subst btree_member.simps) (simp add: node_of_def)
    moreover have "deref_val s (a, ?i) = Some (snd (es ! ?i))" using e nd(3) by (simp add: deref_val_def)
    ultimately show ?thesis using lk True by simp
  next
    case False
    have g: "get_slot s (BChild a ?i) = Some (ps ! ?i)" using node_rep_child [OF nd(4) i(2)] nd(3) by (simp add: get_slot_def)
    have "ordered (bt_inorder (cs ! ?i))" using join_ordered(2) [of "map bt_inorder cs" es] nd(2) BNode.prems(3) i(1) by simp
    from BNode.IH [OF nth_mem [OF i(1)] ch [OF i(1)] g this]
    have IH: "\<exists>r. btree_find s (BChild a ?i) k = Some r \<and> btree_member s (BChild a ?i) k = Some (r \<noteq> None) \<and>
      (case r of None \<Rightarrow> map_of (bt_inorder (cs ! ?i)) k = None
       | Some q \<Rightarrow> \<exists>v. deref_val s q = Some v \<and> map_of (bt_inorder (cs ! ?i)) k = Some v)" .
    note e = node_rep_nth(1) [OF nd(4), of ?i]
    have "btree_find s sl k = btree_find s (BChild a ?i) k"
      using BNode.prems(2) nd(1,3) K nb False e by (subst btree_find.simps) (force simp: node_of_def)
    moreover have "btree_member s sl k = btree_member s (BChild a ?i) k"
      using BNode.prems(2) nd(1,3) K nb False e by (subst btree_member.simps) (force simp: node_of_def)
    moreover have "map_of (bt_inorder (BNode a es cs)) k = map_of (bt_inorder (cs ! ?i)) k" using lk False by (simp only: if_False)
    ultimately show ?thesis using IH by (simp only:)
  qed
qed

section \<open>Insertion into a node\<close>

definition insert_at :: "nat \<Rightarrow> 'a \<Rightarrow> 'a list \<Rightarrow> 'a list" where
  "insert_at i x xs = take i xs @ x # drop i xs"

text \<open>The arrays of a node, written out.\<close>

definition arrays :: "'v btree \<Rightarrow> bool" where
  "arrays nd \<longleftrightarrow> length (keys nd) = 4 \<and> length (vals nd) = 4 \<and> length (children nd) = 5"

lemma arrays_cases:
  assumes "arrays nd"
  obtains k0 k1 k2 k3 v0 v1 v2 v3 c0 c1 c2 c3 c4 where
    "keys nd = [k0, k1, k2, k3]" "vals nd = [v0, v1, v2, v3]" "children nd = [c0, c1, c2, c3, c4]"
  using assms by (auto simp: arrays_def numeral_eq_Suc length_Suc_conv)

lemma node_rep_arrays: "node_rep nd es ps \<Longrightarrow> arrays nd"
  by (simp add: node_rep_def arrays_def)

lemma node_rep_zip:
  assumes "node_rep nd es ps"
  shows "es = zip (take (length es) (keys nd)) (take (length es) (vals nd))" "ps = take (length es + 1) (children nd)"
  using assms by (simp_all add: node_rep_def zip_map_fst_snd)

lemmas node_ops = move_up_def copy_entry_def write_entry_def set_child0_def arr_get_def arr_set_def

lemma ORDER_simps: "ORDER div 2 = 2" "ORDER - 1 = 4" "ORDER - 2 - 1 = 2"
  by (simp_all add: ORDER_def)

lemma insert_room_raw:
  assumes A: "arrays nd" and n: "n < 4" and i: "i \<le> n"
  shows "\<exists>nd'. c_for (rev [i + 1..<n + 1]) move_up nd \<bind> write_entry i k v b = Some nd' \<and> nb_keys nd' = nb_keys nd \<and>
    height nd' = height nd \<and> node_rep (nd'\<lparr>nb_keys := n + 1\<rparr>) (insert_at i (k, v) (zip (take n (keys nd)) (take n (vals nd))))
      (insert_at (i + 1) b (take (n + 1) (children nd)))"
proof -
  obtain k0 k1 k2 k3 v0 v1 v2 v3 c0 c1 c2 c3 c4 where
    a: "keys nd = [k0, k1, k2, k3]" "vals nd = [v0, v1, v2, v3]" "children nd = [c0, c1, c2, c3, c4]"
    using arrays_cases [OF A] by metis
  have "n = 0 \<and> i = 0 \<or> n = 1 \<and> (i = 0 \<or> i = 1) \<or> n = 2 \<and> (i = 0 \<or> i = 1 \<or> i = 2) \<or>
    n = 3 \<and> (i = 0 \<or> i = 1 \<or> i = 2 \<or> i = 3)" using n i by presburger
  then show ?thesis
    by (elim disjE conjE; hypsubst; simp add: a node_ops node_rep_def insert_at_def numeral_eq_Suc)
qed

lemma split_median_raw:
  assumes A: "arrays nd" "arrays nw"
  shows "\<exists>nd' nw'. split_median k v b nd nw = Some ((k, v), nd', nw') \<and>
    node_rep nd' (zip (take 2 (keys nd)) (take 2 (vals nd))) (take 3 (children nd)) \<and>
    node_rep nw' (zip (drop 2 (keys nd)) (drop 2 (vals nd))) (b # drop 3 (children nd)) \<and> height nd' = height nd \<and> height nw' = height nw"
proof -
  obtain k0 k1 k2 k3 v0 v1 v2 v3 c0 c1 c2 c3 c4 where
    a: "keys nd = [k0, k1, k2, k3]" "vals nd = [v0, v1, v2, v3]" "children nd = [c0, c1, c2, c3, c4]"
    using arrays_cases [OF A(1)] by metis
  obtain x0 x1 x2 x3 y0 y1 y2 y3 d0 d1 d2 d3 d4 where
    b: "keys nw = [x0, x1, x2, x3]" "vals nw = [y0, y1, y2, y3]" "children nw = [d0, d1, d2, d3, d4]"
    using arrays_cases [OF A(2)] by metis
  show ?thesis unfolding split_median_def Let_def ORDER_simps
    by (simp add: a b node_ops node_rep_def numeral_eq_Suc)
qed

lemma split_right_raw:
  assumes A: "arrays nd" "arrays nw" and i: "i = 3 \<or> i = 4"
  shows "\<exists>nd' nw'. split_right i k v b nd nw = Some ((keys nd ! 2, vals nd ! 2), nd', nw') \<and>
    node_rep nd' (zip (take 2 (keys nd)) (take 2 (vals nd))) (take 3 (children nd)) \<and>
    node_rep nw' (insert_at (i - 3) (k, v) (zip (drop 3 (keys nd)) (drop 3 (vals nd)))) (insert_at (i - 2) b (drop 3 (children nd))) \<and>
    height nd' = height nd \<and> height nw' = height nw"
proof -
  obtain k0 k1 k2 k3 v0 v1 v2 v3 c0 c1 c2 c3 c4 where
    a: "keys nd = [k0, k1, k2, k3]" "vals nd = [v0, v1, v2, v3]" "children nd = [c0, c1, c2, c3, c4]"
    using arrays_cases [OF A(1)] by metis
  obtain x0 x1 x2 x3 y0 y1 y2 y3 d0 d1 d2 d3 d4 where
    b: "keys nw = [x0, x1, x2, x3]" "vals nw = [y0, y1, y2, y3]" "children nw = [d0, d1, d2, d3, d4]"
    using arrays_cases [OF A(2)] by metis
  from i show ?thesis unfolding split_right_def Let_def ORDER_simps
    by (elim disjE; simp add: a b node_ops node_rep_def insert_at_def numeral_eq_Suc)
qed

text \<open>The loop of the first case runs to the index 4, which the array of keys does not have.\<close>

lemma c_for_out:
  assumes "length (keys nd) = 4"
  shows "c_for [2..<ORDER] (copy_entry nd 2) nw = None"
proof -
  have u: "[2..<ORDER] = [2..<4] @ [4]" by (simp add: ORDER_def upt_rec numeral_eq_Suc)
  have "copy_entry nd 2 4 x = None" for x using assms by (simp add: copy_entry_def arr_get_def)
  then show ?thesis unfolding u c_for_append by (cases "c_for [2..<4] (copy_entry nd 2) nw") simp_all
qed

lemma split_left_raw: "arrays nd \<Longrightarrow> split_left i k v b nd nw = None"
  unfolding split_left_def Let_def ORDER_simps by (simp add: c_for_out arrays_def)

lemma full_node:
  assumes "node_rep nd es ps" "length es = 4"
  shows "es = zip (keys nd) (vals nd)" "ps = children nd"
  using node_rep_zip [OF assms(1)] assms by (simp_all add: node_rep_def)

text \<open>A split of a full node, in terms of its five entries with the new one.\<close>

lemma split_ok:
  assumes R: "node_rep nd es ps" "length es = 4" and g: "arrays g" and i: "2 \<le> i" "i \<le> 4"
  shows "\<exists>nd' nw. (if i = 2 then split_median k v b nd g else split_right i k v b nd g) =
      Some (insert_at i (k, v) es ! 2, nd', nw) \<and>
    node_rep nd' (take 2 (insert_at i (k, v) es)) (take 3 (insert_at (i + 1) b ps)) \<and>
    node_rep nw (drop 3 (insert_at i (k, v) es)) (drop 3 (insert_at (i + 1) b ps)) \<and>
    height nd' = height nd \<and> height nw = height g"
proof -
  note A = node_rep_arrays [OF R(1)] and F = full_node [OF R]
  obtain k0 k1 k2 k3 v0 v1 v2 v3 c0 c1 c2 c3 c4 where
    a: "keys nd = [k0, k1, k2, k3]" "vals nd = [v0, v1, v2, v3]" "children nd = [c0, c1, c2, c3, c4]"
    using arrays_cases [OF A] by metis
  have e: "es = [(k0, v0), (k1, v1), (k2, v2), (k3, v3)]" "ps = [c0, c1, c2, c3, c4]" using F a by auto
  have "i = 2 \<or> i = 3 \<or> i = 4" using i by linarith
  then show ?thesis
  proof (elim disjE)
    assume "i = 2"
    then show ?thesis using split_median_raw [OF A g, of k v b] by (simp add: e a insert_at_def)
  next
    assume "i = 3"
    then show ?thesis using split_right_raw [OF A g, of i k v b] by (simp add: e a insert_at_def)
  next
    assume "i = 4"
    then show ?thesis using split_right_raw [OF A g, of i k v b] by (simp add: e a insert_at_def)
  qed
qed

lemma put_node_simps: "put_node (put_node (put_node s b g) a x) b y = put_node (put_node s a x) b y"
  by (simp add: put_node_def fun_upd_twist)

text \<open>
  \<open>insert_br\<close> on a node with the entries \<open>es\<close> and the children \<open>ps\<close>: a node that is not full gets
  the entry at its place and the branch to the right of it. A full node is split: two entries stay, the
  third one of the five is the median, two go to the new node, with their children. When the
  entry belongs before the third one, the copying loop runs to the index 4 of the arrays of four entries:
  the access is out of bounds.
\<close>

lemma insert_br_ok:
  assumes sl: "get_slot s sl = Some (Addr a)" "bnodes s a = Some nd" and R: "node_rep nd es ps"
    and m: "malloc s = Some (c, g)" "bnodes s c = None" "arrays g"
  shows "if length es < 4 then
      \<exists>nd'. insert_br malloc s sl k v b = Some (NULL, None, put_node s a nd') \<and>
        node_rep nd' (insert_at (below k es) (k, v) es) (insert_at (below k es + 1) b ps) \<and> height nd' = height nd
    else if below k es < 2 then insert_br malloc s sl k v b = None
    else \<exists>nd' nw. insert_br malloc s sl k v b =
          Some (Addr c, Some (insert_at (below k es) (k, v) es ! 2), put_node (put_node s a nd') c nw) \<and>
        node_rep nd' (take 2 (insert_at (below k es) (k, v) es)) (take 3 (insert_at (below k es + 1) b ps)) \<and>
        node_rep nw (drop 3 (insert_at (below k es) (k, v) es)) (drop 3 (insert_at (below k es + 1) b ps)) \<and>
        height nd' = height nd \<and> height nw = height nd"
proof -
  let ?i = "below k es"
  have n: "nb_keys nd = length es" "length es \<le> 4" using R by (simp_all add: node_rep_def)
  note K = key_index_ok [OF R, of k] and A = node_rep_arrays [OF R] and i = below_le [of k es]
  have no: "node_of s (Addr a) = Some (a, nd)" using sl(2) by (simp add: node_of_def)
  have x: "xmalloc_btree malloc s = Some (c, g, put_node s c g)" using m(1) by (simp add: xmalloc_btree_def)
  consider "length es < 4" | "length es = 4" "?i < 2" | "length es = 4" "2 \<le> ?i" using n(2) by linarith
  then show ?thesis
  proof cases
    case 1
    from insert_room_raw [OF A 1 i, of k v b] node_rep_zip [OF R] obtain nd' where
      nd': "c_for (rev [?i + 1..<length es + 1]) move_up nd \<bind> write_entry ?i k v b = Some nd'" "nb_keys nd' = length es"
        "node_rep (nd'\<lparr>nb_keys := length es + 1\<rparr>) (insert_at ?i (k, v) es) (insert_at (?i + 1) b ps)" "height nd' = height nd"
      using n(1) by metis
    from nd'(1) obtain y where "c_for (rev [?i + 1..<length es + 1]) move_up nd = Some y" "write_entry ?i k v b y = Some nd'"
      unfolding bind_eq_Some_conv by blast
    then have "insert_br malloc s sl k v b = Some (NULL, None, put_node s a (nd'\<lparr>nb_keys := length es + 1\<rparr>))"
      using 1 sl(1) no K n(1) nd'(2) by (simp add: insert_br_def Let_def ORDER_def del: upt_Suc)
    then show ?thesis using 1 nd'(3,4) by auto
  next
    case 2
    then show ?thesis using sl(1) no K n(1) x split_left_raw [OF A] by (simp add: insert_br_def ORDER_def)
  next
    case 3
    have g: "arrays (g\<lparr>height := height nd\<rparr>)" using m(3) by (simp add: arrays_def)
    have "?i \<le> 4" using i 3 by simp
    from split_ok [OF R 3(1) g 3(2) this, of k v b] obtain nd' nw where
      S: "(if ?i = 2 then split_median k v b nd (g\<lparr>height := height nd\<rparr>) else split_right ?i k v b nd (g\<lparr>height := height nd\<rparr>)) =
        Some (insert_at ?i (k, v) es ! 2, nd', nw)"
      and N: "node_rep nd' (take 2 (insert_at ?i (k, v) es)) (take 3 (insert_at (?i + 1) b ps))"
        "node_rep nw (drop 3 (insert_at ?i (k, v) es)) (drop 3 (insert_at (?i + 1) b ps))" "height nd' = height nd" "height nw = height nd"
      by auto
    have "insert_br malloc s sl k v b = Some (Addr c, Some (insert_at ?i (k, v) es ! 2), put_node (put_node s a nd') c nw)"
      using S 3 sl(1) no K n(1) x by (auto simp: insert_br_def ORDER_def put_node_simps split: if_splits)
    with N 3 show ?thesis by auto
  qed
qed

text \<open>A memory with the node 10, full, held by the variable 0.\<close>

definition demo_node :: "nat btree" where
  "demo_node = \<lparr>nb_keys = 4, keys = [10, 20, 30, 40], vals = [1, 2, 3, 4], children = replicate 5 NULL, height = 1\<rparr>"

definition demo_bstate :: "nat bstate" where
  "demo_bstate = \<lparr>bvars = [0 \<mapsto> Addr 10], bnodes = [10 \<mapsto> demo_node]\<rparr>"

lemma demo_node_rep: "node_rep demo_node [(10, 1), (20, 2), (30, 3), (40, 4)] (replicate 5 NULL)"
  by (simp add: node_rep_def demo_node_def numeral_eq_Suc)

section \<open>The interface of a map\<close>

text \<open>The state of a look-up: the memory, the slot of the root, and the tree it holds.\<close>

definition bt_inv :: "'v bstate \<times> bslot \<times> 'v bt \<Rightarrow> bool" where
  "bt_inv = (\<lambda>(s, sl, t). \<exists>p. get_slot s sl = Some p \<and> bt_at s p t \<and> ordered (bt_inorder t))"

definition bt_abs :: "'v bstate \<times> bslot \<times> 'v bt \<Rightarrow> int \<Rightarrow> 'v option" where
  "bt_abs = (\<lambda>(s, sl, t). map_of (bt_inorder t))"

definition bt_get :: "'v bstate \<times> bslot \<times> 'v bt \<Rightarrow> int \<Rightarrow> 'v option option" where
  "bt_get = (\<lambda>(s, sl, t) k. btree_find s sl k \<bind> (\<lambda>r. case r of None \<Rightarrow> Some None | Some q \<Rightarrow> map_option Some (deref_val s q)))"

interpretation bt: lookup_map bt_inv bt_abs bt_get
proof
  fix st :: "'v bstate \<times> bslot \<times> 'v bt" and k
  obtain s sl t where st: "st = (s, sl, t)" by (cases st)
  assume "bt_inv st"
  then obtain p where "bt_at s p t" "get_slot s sl = Some p" "ordered (bt_inorder t)" by (auto simp: bt_inv_def st)
  from btree_find_ok [OF this, of k] show "bt_get st k = Some (bt_abs st k)"
    by (auto simp: bt_get_def bt_abs_def st split: option.splits)
qed

text \<open>
  On a slot that holds a B-tree with ordered entries, \<open>btree_find\<close> returns a pointer to the value
  of the key, or null if the tree does not have it, and \<open>btree_member\<close> tells whether it does; neither
  faults or runs on.
\<close>

theorem btree_lookup_spec:
  assumes "get_slot s sl = Some p" "bt_at s p t" "ordered (bt_inorder t)"
  shows "bt_get (s, sl, t) k = Some (map_of (bt_inorder t) k) \<and>
    btree_member s sl k = Some (map_of (bt_inorder t) k \<noteq> None)"
proof
  have "bt_inv (s, sl, t)" using assms by (auto simp: bt_inv_def)
  from bt.get_abs [OF this] show "bt_get (s, sl, t) k = Some (map_of (bt_inorder t) k)" by (simp add: bt_abs_def)
  from btree_find_ok [OF assms(2,1,3), of k] show "btree_member s sl k = Some (map_of (bt_inorder t) k \<noteq> None)"
    by (auto split: option.splits)
qed

theorem btree_lookup_spec_witness:
  "bt_get (demo_bstate, BVar 0, BNode 10 [(10, 1), (20, 2), (30, 3), (40, 4)] (replicate 5 BLeaf)) 30 = Some (Some 3) \<and>
   btree_member demo_bstate (BVar 0) 35 = Some False"
proof -
  let ?t = "BNode 10 [(10, 1), (20, 2), (30, 3), (40, 4)] (replicate 5 BLeaf)"
  have s: "get_slot demo_bstate (BVar 0) = Some (Addr 10)" by (simp add: get_slot_def demo_bstate_def)
  have t: "bt_at demo_bstate (Addr 10) ?t" using demo_node_rep by (auto simp: demo_bstate_def nth_replicate)
  have i: "bt_inorder ?t = [(10, 1), (20, 2), (30, 3), (40, 4)]" by (simp add: numeral_eq_Suc)
  have o: "ordered (bt_inorder ?t)" unfolding i by (simp add: ordered_def)
  show ?thesis using btree_lookup_spec [OF s t o, of 30] btree_lookup_spec [OF s t o, of 35] unfolding i by simp
qed

end
