(* ===== verification/Btree_Insert.thy ===== *)
theory Btree_Insert
  imports Btree
begin

text \<open>
  Correctness of \<open>btree_insert\<close> of \<open>src/examples/btree.c\<close>: the way down to a leaf and the way up with the
  splits. The invariant is that of a balanced tree whose nodes are distinct and carry their height,
  which bounds the length of the path.
\<close>

section \<open>Entries of a node with one child in focus\<close>

fun jl :: "'a list list \<Rightarrow> 'a list \<Rightarrow> 'a list" where
  "jl (x # xs) (e # es) = x @ e # jl xs es"
| "jl _ _ = []"

fun jr :: "'a list \<Rightarrow> 'a list list \<Rightarrow> 'a list" where
  "jr (e # es) (x # xs) = e # x @ jr es xs"
| "jr _ _ = []"

lemma join_focus:
  assumes "length xs1 = length es1" "length xs2 = length es2"
  shows "join (xs1 @ x # xs2) (es1 @ es2) = jl xs1 es1 @ x @ jr es2 xs2"
  using assms(1)
proof (induction xs1 es1 rule: list_induct2)
  case Nil
  show ?case using assms(2) by (induction xs2 es2 arbitrary: x rule: list_induct2) auto
qed simp

lemma join_cut:
  assumes "length xs1 = length es1 + 1"
  shows "join (xs1 @ xs2) (es1 @ e # es2) = join xs1 es1 @ e # join xs2 es2"
  using assms
proof (induction es1 arbitrary: xs1)
  case Nil
  then show ?case by (cases xs1) auto
next
  case (Cons d es1)
  then show ?case by (cases xs1) auto
qed

text \<open>\<open>L\<close> is the ordered list \<open>x\<close> with the value of \<open>k\<close> set to \<open>v\<close>.\<close>

definition upds :: "int \<Rightarrow> 'v \<Rightarrow> (int \<times> 'v) list \<Rightarrow> (int \<times> 'v) list \<Rightarrow> bool" where
  "upds k v x L \<longleftrightarrow> ordered L \<and> map_of L = (map_of x)(k \<mapsto> v)"

lemma upds_keys: "upds k v x L \<Longrightarrow> fst ` set L = insert k (fst ` set x)"
  by (auto simp: upds_def simp flip: dom_map_of_conv_image_fst)

lemma upds_mid:
  assumes "ordered (pre @ x @ post)" "upds k v x L" "\<forall>e\<in>set pre. fst e < k" "\<forall>e\<in>set post. k < fst e"
  shows "upds k v (pre @ x @ post) (pre @ L @ post)"
proof -
  have K: "fst ` set L = insert k (fst ` set x)" by (rule upds_keys [OF assms(2)])
  have B: "fst e < c" if "e \<in> set pre" "c \<in> insert k (fst ` set x)" for e c
    using assms(1,3) that by (auto simp: ordered_append)
  have C: "c < fst e" if "e \<in> set post" "c \<in> insert k (fst ` set x)" for e c
    using assms(1,4) that by (auto simp: ordered_append)
  have "fst e < fst d" if "e \<in> set pre" "d \<in> set L" for e d
    by (rule B [OF that(1)]) (use that(2) K in blast)
  moreover have "fst e < fst d" if "e \<in> set L" "d \<in> set post" for e d
    by (rule C [OF that(2)]) (use that(1) K in blast)
  ultimately have "ordered (pre @ L @ post)" using assms(1,2) by (auto simp: ordered_append upds_def)
  moreover have "map_of pre k = None" using assms(3) by (intro map_of_outside) fastforce
  then have "map_of (pre @ L @ post) = (map_of (pre @ x @ post))(k \<mapsto> v)"
    using assms(2) by (auto simp: upds_def map_add_def fun_eq_iff split: option.splits)
  ultimately show ?thesis by (simp add: upds_def)
qed

text \<open>The entries to the left of the focus are below the key, those to the right above.\<close>

lemma focus_bounds:
  assumes "ordered (join xs es)" "length xs = length es + 1" "i = below k es" "i < length es \<longrightarrow> fst (es ! i) \<noteq> k"
  shows "(\<forall>e\<in>set (jl (take i xs) (take i es)). fst e < k) \<and> (\<forall>e\<in>set (jr (drop i es) (drop (Suc i) xs)). k < fst e)"
  using assms
proof (induction xs es arbitrary: i rule: join.induct)
  case (3 x xs y ys)
  then have o: "\<forall>e\<in>set x. fst e < fst y" "\<forall>e\<in>set (join xs ys). fst y < fst e" "ordered (join xs ys)"
    by (auto simp: ordered_append ordered_Cons)
  show ?case
  proof (cases "fst y < k")
    case True
    then show ?thesis using 3 o by fastforce
  next
    case False
    then have "k < fst y" "i = 0" using "3.prems"(3,4) by auto
    moreover obtain x' xs' where xs: "xs = x' # xs'" "length xs' = length ys" using "3.prems"(2) by (cases xs) auto
    then have "set (jr (y # ys) xs) = insert y (set (join xs ys))" using join_focus [of "[]" "[]" xs' ys x'] by simp
    ultimately show ?thesis using o(2) by auto
  qed
qed auto

section \<open>Balanced trees\<close>

primrec addr_list :: "'v bt \<Rightarrow> nat list" where
  "addr_list BLeaf = []"
| "addr_list (BNode a es cs) = a # concat (map addr_list cs)"

text \<open>\<open>p\<close> points to the tree \<open>t\<close> of height \<open>n\<close>.\<close>

function bt_ok :: "'v bstate \<Rightarrow> nat \<Rightarrow> nat ptr \<Rightarrow> 'v bt \<Rightarrow> bool" where
  "bt_ok s n p BLeaf \<longleftrightarrow> p = NULL \<and> n = 0"
| "bt_ok s n p (BNode a es cs) \<longleftrightarrow> p = Addr a \<and> length cs = length es + 1 \<and> 0 < n \<and>
     (\<exists>nd ps. bnodes s a = Some nd \<and> height nd = n \<and> node_rep nd es ps \<and> (\<forall>i<length cs. bt_ok s (n - 1) (ps ! i) (cs ! i)))"
  by pat_completeness auto
termination by (relation "measure (\<lambda>(s, n, p, t). size t)") (auto simp: less_Suc_eq_le intro!: trans_le_add2 size_nth_le)

lemma node_rep_ps: "node_rep nd es ps \<Longrightarrow> length ps = length es + 1"
  by (auto simp: node_rep_def)

lemma bt_ok_Node:
  "bt_ok s n p (BNode a es cs) \<longleftrightarrow> p = Addr a \<and> 0 < n \<and>
     (\<exists>nd ps. bnodes s a = Some nd \<and> height nd = n \<and> node_rep nd es ps \<and> list_all2 (bt_ok s (n - 1)) ps cs)"
proof -
  have "length cs = length es + 1 \<and> (\<forall>i<length cs. bt_ok s (n - 1) (ps ! i) (cs ! i)) \<longleftrightarrow> list_all2 (bt_ok s (n - 1)) ps cs"
    if "node_rep nd es ps" for nd ps using node_rep_ps [OF that] by (auto simp: list_all2_conv_all_nth)
  then show ?thesis by fastforce
qed

lemma bt_ok_at: "bt_ok s n p t \<Longrightarrow> bt_at s p t"
proof (induction t arbitrary: n p)
  case (BNode a es cs)
  then obtain nd ps where nd: "p = Addr a" "length cs = length es + 1" "bnodes s a = Some nd" "node_rep nd es ps"
    "\<forall>i<length cs. bt_ok s (n - 1) (ps ! i) (cs ! i)" by auto
  have "\<forall>i<length cs. bt_at s (ps ! i) (cs ! i)" using BNode.IH nth_mem nd(5) by blast
  with nd show ?case by auto
qed simp

lemma bt_ok_addrs: "bt_ok s n p t \<Longrightarrow> set (addr_list t) \<subseteq> dom (bnodes s)"
proof (induction t arbitrary: n p)
  case (BNode a es cs)
  then obtain nd ps where nd: "bnodes s a = Some nd" "\<forall>i<length cs. bt_ok s (n - 1) (ps ! i) (cs ! i)" by auto
  have "set (addr_list c) \<subseteq> dom (bnodes s)" if "c \<in> set cs" for c
    using BNode.IH [OF that] nd(2) that unfolding in_set_conv_nth by blast
  with nd(1) show ?case by auto
qed simp

text \<open>A change of the memory that leaves the variables and the nodes outside of \<open>A\<close>.\<close>

definition frame :: "nat set \<Rightarrow> 'v bstate \<Rightarrow> 'v bstate \<Rightarrow> bool" where
  "frame A s s' \<longleftrightarrow> bvars s' = bvars s \<and>
     (\<forall>x nd. bnodes s x = Some nd \<longrightarrow> (x \<notin> A \<longrightarrow> bnodes s' x = Some nd) \<and> bnodes s' x \<noteq> None) \<and>
     (finite (dom (bnodes s)) \<longrightarrow> finite (dom (bnodes s')))"

lemma frame_refl [simp]: "frame A s s"
  by (simp add: frame_def)

lemma frame_trans: "frame A s s' \<Longrightarrow> frame A s' s'' \<Longrightarrow> frame A s s''"
  unfolding frame_def by (metis not_None_eq)

lemma frame_mono: "frame A s s' \<Longrightarrow> A \<subseteq> B \<Longrightarrow> frame B s s'"
  unfolding frame_def by blast

lemma frame_node: "frame A s s' \<Longrightarrow> bnodes s a = Some nd \<Longrightarrow> a \<notin> A \<Longrightarrow> bnodes s' a = Some nd"
  unfolding frame_def by auto

lemma frame_slot: "frame A s s' \<Longrightarrow> get_slot s sl = Some p \<Longrightarrow> (case sl of BVar x \<Rightarrow> True | BChild a i \<Rightarrow> a \<notin> A) \<Longrightarrow> get_slot s' sl = Some p"
  by (cases sl) (auto simp: get_slot_def frame_def split: option.splits Option.bind_splits)

lemma bt_ok_frame: "bt_ok s n p t \<Longrightarrow> frame A s s' \<Longrightarrow> A \<inter> set (addr_list t) = {} \<Longrightarrow> bt_ok s' n p t"
proof (induction t arbitrary: n p)
  case (BNode a es cs)
  then obtain nd ps where nd: "bnodes s a = Some nd" "height nd = n" "node_rep nd es ps" "list_all2 (bt_ok s (n - 1)) ps cs" "p = Addr a" "0 < n"
    unfolding bt_ok_Node by blast
  have "bnodes s' a = Some nd" using frame_node [OF BNode.prems(2) nd(1)] BNode.prems(3) by auto
  moreover have "bt_ok s' (n - 1) q c" if "c \<in> set cs" "bt_ok s (n - 1) q c" for q c
    using BNode.IH [OF that(1,2) BNode.prems(2)] BNode.prems(3) that(1) by auto
  then have "list_all2 (bt_ok s' (n - 1)) ps cs" using nd(4) by (auto simp: list_all2_conv_all_nth)
  ultimately show ?case using nd unfolding bt_ok_Node by blast
qed simp

lemma frame_put: "a \<in> A \<or> bnodes s a = None \<Longrightarrow> frame A s (put_node s a nd)"
  by (auto simp: frame_def put_node_def)

text \<open>The addresses of the trees of a list.\<close>

definition addrs :: "'v bt list \<Rightarrow> nat list" where
  "addrs cs = concat (map addr_list cs)"

lemma addrs_simps [simp]: "addrs [] = []" "addrs (c # cs) = addr_list c @ addrs cs" "addrs (cs @ ds) = addrs cs @ addrs ds"
  by (simp_all add: addrs_def)

lemma addr_list_Node [simp]: "addr_list (BNode a es cs) = a # addrs cs"
  by (simp add: addrs_def)

declare addr_list.simps(2) [simp del]

lemma addrs_member: "c \<in> set cs \<Longrightarrow> set (addr_list c) \<subseteq> set (addrs cs)"
  by (auto simp: addrs_def)

text \<open>Replacing a part of a list of addresses by a part of it and new ones.\<close>

lemma distinct_replace:
  assumes "distinct (xs @ ys @ zs)" "distinct ys'" "set ys' \<subseteq> set ys \<union> - D" "set xs \<union> set zs \<subseteq> D"
  shows "distinct (xs @ ys' @ zs)"
  using assms by auto

section \<open>What an insertion does to a subtree\<close>

text \<open>The subtree \<open>t\<close> at \<open>p\<close> gets the entry and keeps its place and height.\<close>

definition done_at :: "int \<Rightarrow> 'v \<Rightarrow> 'v bstate \<Rightarrow> nat \<Rightarrow> nat ptr \<Rightarrow> 'v bt \<Rightarrow> 'v bstate \<Rightarrow> bool" where
  "done_at k v s n p t s' \<longleftrightarrow> (\<exists>t'. bt_ok s' n p t' \<and> upds k v (bt_inorder t) (bt_inorder t') \<and> distinct (addr_list t') \<and>
     set (addr_list t') \<subseteq> set (addr_list t) \<union> - dom (bnodes s) \<and> frame (set (addr_list t)) s s')"

text \<open>The subtree is split in two around the entry \<open>m\<close>; the right part is at \<open>q\<close>.\<close>

definition split_at :: "int \<Rightarrow> 'v \<Rightarrow> 'v bstate \<Rightarrow> nat \<Rightarrow> nat ptr \<Rightarrow> 'v bt \<Rightarrow> 'v bstate \<Rightarrow> int \<times> 'v \<Rightarrow> nat ptr \<Rightarrow> bool" where
  "split_at k v s n p t s' m q \<longleftrightarrow> (\<exists>l r. bt_ok s' n p l \<and> bt_ok s' n q r \<and>
     upds k v (bt_inorder t) (bt_inorder l @ m # bt_inorder r) \<and> distinct (addr_list l @ addr_list r) \<and>
     set (addr_list l @ addr_list r) \<subseteq> set (addr_list t) \<union> - dom (bnodes s) \<and> frame (set (addr_list t)) s s')"

text \<open>A node with one of its children in focus, where the key \<open>k\<close> belongs.\<close>

definition focus ::
  "'v bstate \<Rightarrow> nat \<Rightarrow> int \<Rightarrow> nat \<Rightarrow> 'v btree \<Rightarrow> (int \<times> 'v) list \<Rightarrow> (int \<times> 'v) list \<Rightarrow> nat ptr list \<Rightarrow> nat ptr \<Rightarrow> nat ptr list \<Rightarrow>
   'v bt list \<Rightarrow> 'v bt \<Rightarrow> 'v bt list \<Rightarrow> bool" where
  "focus s n k a nd es1 es2 ps1 q ps2 cs1 c cs2 \<longleftrightarrow>
     bnodes s a = Some nd \<and> height nd = Suc n \<and> node_rep nd (es1 @ es2) (ps1 @ q # ps2) \<and>
     list_all2 (bt_ok s n) ps1 cs1 \<and> bt_ok s n q c \<and> list_all2 (bt_ok s n) ps2 cs2 \<and>
     length cs1 = length es1 \<and> length cs2 = length es2 \<and> distinct (a # addrs (cs1 @ c # cs2)) \<and>
     ordered (join (map bt_inorder (cs1 @ c # cs2)) (es1 @ es2)) \<and>
     (\<forall>e\<in>set (jl (map bt_inorder cs1) es1). fst e < k) \<and> (\<forall>e\<in>set (jr es2 (map bt_inorder cs2)). k < fst e)"

lemma take_drop_focus:
  assumes "i < length xs"
  shows "xs = take i xs @ xs ! i # drop (Suc i) xs" "length (take i xs) = i" "length (drop (Suc i) xs) = length xs - Suc i"
  using assms by (simp_all add: id_take_nth_drop)

lemma focus_intro:
  assumes ok: "bt_ok s n p (BNode a es cs)" "distinct (addr_list (BNode a es cs))" "ordered (bt_inorder (BNode a es cs))"
    and nf: "below k es < length es \<longrightarrow> fst (es ! below k es) \<noteq> k"
  shows "\<exists>nd m es1 es2 ps1 q ps2 cs1 c cs2. p = Addr a \<and> n = Suc m \<and> es = es1 @ es2 \<and> cs = cs1 @ c # cs2 \<and>
    length es1 = below k es \<and> length ps1 = length es1 \<and> cs ! below k es = c \<and> focus s m k a nd es1 es2 ps1 q ps2 cs1 c cs2"
proof -
  let ?i = "below k es"
  obtain nd ps where nd: "p = Addr a" "0 < n" "bnodes s a = Some nd" "height nd = n" "node_rep nd es ps" "list_all2 (bt_ok s (n - 1)) ps cs"
    using ok(1) unfolding bt_ok_Node by blast
  have len: "length ps = length es + 1" "length cs = length es + 1" using node_rep_ps [OF nd(5)] list_all2_lengthD [OF nd(6)] by auto
  have i: "?i \<le> length es" "?i < length ps" "?i < length cs" using below_le [of k es] len by auto
  note fp = take_drop_focus [OF i(2)] and fc = take_drop_focus [OF i(3)]
  have "list_all2 (bt_ok s (n - 1)) (take ?i ps) (take ?i cs)" "bt_ok s (n - 1) (ps ! ?i) (cs ! ?i)"
    "list_all2 (bt_ok s (n - 1)) (drop (Suc ?i) ps) (drop (Suc ?i) cs)"
    using nd(6) i by (auto simp: list_all2_takeI list_all2_dropI list_all2_nthD)
  moreover have "(\<forall>e\<in>set (jl (map bt_inorder (take ?i cs)) (take ?i es)). fst e < k) \<and>
    (\<forall>e\<in>set (jr (drop ?i es) (map bt_inorder (drop (Suc ?i) cs))). k < fst e)"
    using focus_bounds [of "map bt_inorder cs" es ?i k] ok(3) len nf by (simp add: take_map drop_map)
  moreover have "node_rep nd (take ?i es @ drop ?i es) (take ?i ps @ ps ! ?i # drop (Suc ?i) ps)" using nd(5) fp(1) by simp
  moreover have "distinct (a # addrs (take ?i cs @ cs ! ?i # drop (Suc ?i) cs))" using ok(2) fc(1) by (simp del: addrs_simps)
  moreover have "ordered (join (map bt_inorder (take ?i cs @ cs ! ?i # drop (Suc ?i) cs)) (take ?i es @ drop ?i es))" using ok(3) fc(1) by simp
  ultimately have "focus s (n - 1) k a nd (take ?i es) (drop ?i es) (take ?i ps) (ps ! ?i) (drop (Suc ?i) ps)
    (take ?i cs) (cs ! ?i) (drop (Suc ?i) cs)" using nd(2-4) len i(1) by (simp add: focus_def)
  moreover have "n = Suc (n - 1)" "es = take ?i es @ drop ?i es" "length (take ?i es) = ?i" "length (take ?i ps) = length (take ?i es)"
    using nd(2) i by auto
  ultimately show ?thesis using nd(1) fc(1) by metis
qed

lemma all_ok_frame:
  assumes "list_all2 (bt_ok s n) ps cs" "frame A s s'" "A \<inter> set (addrs cs) = {}"
  shows "list_all2 (bt_ok s' n) ps cs"
  using assms(1)
proof (rule list.rel_mono_strong)
  fix p c assume "c \<in> set cs" "bt_ok s n p c"
  moreover from this have "A \<inter> set (addr_list c) = {}" using assms(3) addrs_member by fast
  ultimately show "bt_ok s' n p c" using bt_ok_frame assms(2) by metis
qed

lemma all_addrs: "list_all2 (bt_ok s n) ps cs \<Longrightarrow> set (addrs cs) \<subseteq> dom (bnodes s)"
  by (induction ps cs rule: list_all2_induct) (auto dest: bt_ok_addrs)

lemma jl_entries: "length xs = length es \<Longrightarrow> set es \<subseteq> set (jl xs es)"
  by (induction xs es rule: list_induct2) auto

lemma jr_first: "length xs = length es \<Longrightarrow> es \<noteq> [] \<Longrightarrow> hd es \<in> set (jr es xs)"
  by (cases es; cases xs) auto

lemma below_append: "(\<And>e. e \<in> set es1 \<Longrightarrow> fst e < x) \<Longrightarrow> es2 \<noteq> [] \<longrightarrow> x < fst (hd es2) \<Longrightarrow> below x (es1 @ es2) = length es1"
  by (induction es1) (cases es2, auto)

lemma focus_inorder:
  assumes "focus s n k a nd es1 es2 ps1 q ps2 cs1 c cs2"
  shows "join (map bt_inorder (cs1 @ c # cs2)) (es1 @ es2) = jl (map bt_inorder cs1) es1 @ bt_inorder c @ jr es2 (map bt_inorder cs2)"
    "ordered (jl (map bt_inorder cs1) es1 @ bt_inorder c @ jr es2 (map bt_inorder cs2))"
proof -
  show e: "join (map bt_inorder (cs1 @ c # cs2)) (es1 @ es2) = jl (map bt_inorder cs1) es1 @ bt_inorder c @ jr es2 (map bt_inorder cs2)"
    using assms by (simp add: focus_def join_focus)
  show "ordered (jl (map bt_inorder cs1) es1 @ bt_inorder c @ jr es2 (map bt_inorder cs2))"
    using assms unfolding focus_def e by blast
qed

lemma focus_upd:
  assumes F: "focus s n k a nd es1 es2 ps1 q ps2 cs1 c cs2" and u: "upds k v (bt_inorder c) L"
  shows "upds k v (join (map bt_inorder (cs1 @ c # cs2)) (es1 @ es2)) (jl (map bt_inorder cs1) es1 @ L @ jr es2 (map bt_inorder cs2))"
  unfolding focus_inorder(1) [OF F]
  by (rule upds_mid [OF focus_inorder(2) [OF F] u]) (use F in \<open>auto simp: focus_def\<close>)

lemma focus_below:
  assumes F: "focus s n k a nd es1 es2 ps1 q ps2 cs1 c cs2" and x: "x \<in> insert k (fst ` set (bt_inorder c))"
  shows "below x (es1 @ es2) = length es1"
proof (rule below_append)
  let ?J = "jl (map bt_inorder cs1) es1" and ?K = "jr es2 (map bt_inorder cs2)"
  have l: "length cs1 = length es1" "length cs2 = length es2" and b: "\<forall>e\<in>set ?J. fst e < k" "\<forall>e\<in>set ?K. k < fst e"
    using F by (auto simp: focus_def)
  note o = focus_inorder(2) [OF F]
  show "fst e < x" if "e \<in> set es1" for e
  proof -
    have "e \<in> set ?J" using jl_entries [of "map bt_inorder cs1" es1] l that by auto
    then show ?thesis using x b(1) o by (auto simp: ordered_append)
  qed
  show "es2 \<noteq> [] \<longrightarrow> x < fst (hd es2)"
  proof
    assume "es2 \<noteq> []"
    then have "hd es2 \<in> set ?K" using jr_first [of "map bt_inorder cs2" es2] l by auto
    then show "x < fst (hd es2)" using x b(2) o by (auto simp: ordered_append)
  qed
qed

lemma focus_done:
  assumes F: "focus s n k a nd es1 es2 ps1 q ps2 cs1 c cs2" and D: "done_at k v s n q c s'"
  shows "done_at k v s (Suc n) (Addr a) (BNode a (es1 @ es2) (cs1 @ c # cs2)) s'"
proof -
  obtain c' where c': "bt_ok s' n q c'" "upds k v (bt_inorder c) (bt_inorder c')" "distinct (addr_list c')"
    "set (addr_list c') \<subseteq> set (addr_list c) \<union> - dom (bnodes s)" "frame (set (addr_list c)) s s'" using D by (auto simp: done_at_def)
  have f: "bnodes s a = Some nd" "height nd = Suc n" "node_rep nd (es1 @ es2) (ps1 @ q # ps2)" "list_all2 (bt_ok s n) ps1 cs1"
    "list_all2 (bt_ok s n) ps2 cs2" "length cs1 = length es1" "length cs2 = length es2"
    "distinct (a # addrs (cs1 @ c # cs2))" using F by (auto simp: focus_def)
  have "bnodes s' a = Some nd" by (rule frame_node [OF c'(5) f(1)]) (use f(8) in auto)
  moreover have "list_all2 (bt_ok s' n) ps1 cs1" by (rule all_ok_frame [OF f(4) c'(5)]) (use f(8) in auto)
  moreover have "list_all2 (bt_ok s' n) ps2 cs2" by (rule all_ok_frame [OF f(5) c'(5)]) (use f(8) in auto)
  ultimately have "bt_ok s' (Suc n) (Addr a) (BNode a (es1 @ es2) (cs1 @ c' # cs2))"
    unfolding bt_ok_Node using f(2,3) c'(1) by (auto intro!: list_all2_appendI)
  moreover have "upds k v (join (map bt_inorder (cs1 @ c # cs2)) (es1 @ es2)) (join (map bt_inorder (cs1 @ c' # cs2)) (es1 @ es2))"
    using focus_upd [OF F c'(2)] f(6,7) by (simp add: join_focus)
  moreover have other: "set (addrs cs1) \<union> set (addrs cs2) \<union> {a} \<subseteq> dom (bnodes s)"
    using all_addrs [OF f(4)] all_addrs [OF f(5)] f(1) by auto
  then have "distinct (addr_list (BNode a (es1 @ es2) (cs1 @ c' # cs2)))"
    using distinct_replace [of "a # addrs cs1" "addr_list c" "addrs cs2" "addr_list c'" "dom (bnodes s)"] f(8) c'(3,4) by auto
  ultimately show ?thesis unfolding done_at_def using c'(4) frame_mono [OF c'(5)]
    by (intro exI [of _ "BNode a (es1 @ es2) (cs1 @ c' # cs2)"]) (auto simp: subset_iff)
qed

text \<open>After a split of the child in focus, its parts and the other children, with the new entry.\<close>

lemma focus_split:
  assumes F: "focus s n k a nd es1 es2 ps1 q ps2 cs1 c cs2" and S: "split_at k v s n q c s1 m q'"
  shows "\<exists>cs'. bnodes s1 a = Some nd \<and> list_all2 (bt_ok s1 n) (ps1 @ q # q' # ps2) cs' \<and> distinct (a # addrs cs') \<and>
    set (addrs cs') \<subseteq> set (addrs (cs1 @ c # cs2)) \<union> - dom (bnodes s) \<and> length cs' = length es1 + length es2 + 2 \<and>
    upds k v (join (map bt_inorder (cs1 @ c # cs2)) (es1 @ es2)) (join (map bt_inorder cs') (es1 @ m # es2)) \<and>
    below (fst m) (es1 @ es2) = length es1 \<and> frame (set (addr_list c)) s s1"
proof -
  obtain l r where lr: "bt_ok s1 n q l" "bt_ok s1 n q' r" "upds k v (bt_inorder c) (bt_inorder l @ m # bt_inorder r)"
    "distinct (addr_list l @ addr_list r)" "set (addr_list l @ addr_list r) \<subseteq> set (addr_list c) \<union> - dom (bnodes s)"
    "frame (set (addr_list c)) s s1" using S by (auto simp: split_at_def)
  have f: "bnodes s a = Some nd" "list_all2 (bt_ok s n) ps1 cs1" "list_all2 (bt_ok s n) ps2 cs2" "length cs1 = length es1"
    "length cs2 = length es2" "distinct (a # addrs (cs1 @ c # cs2))" using F by (auto simp: focus_def)
  let ?cs = "cs1 @ l # r # cs2"
  have "bnodes s1 a = Some nd" by (rule frame_node [OF lr(6) f(1)]) (use f(6) in auto)
  moreover have "list_all2 (bt_ok s1 n) ps1 cs1" by (rule all_ok_frame [OF f(2) lr(6)]) (use f(6) in auto)
  moreover have "list_all2 (bt_ok s1 n) ps2 cs2" by (rule all_ok_frame [OF f(3) lr(6)]) (use f(6) in auto)
  ultimately have "bnodes s1 a = Some nd \<and> list_all2 (bt_ok s1 n) (ps1 @ q # q' # ps2) ?cs"
    using lr(1,2) by (auto intro!: list_all2_appendI)
  moreover have "set (addrs cs1) \<union> set (addrs cs2) \<union> {a} \<subseteq> dom (bnodes s)"
    using all_addrs [OF f(2)] all_addrs [OF f(3)] f(1) by auto
  then have "distinct (a # addrs ?cs)"
    using distinct_replace [of "a # addrs cs1" "addr_list c" "addrs cs2" "addr_list l @ addr_list r" "dom (bnodes s)"] f(6) lr(4,5) by auto
  moreover have "join (map bt_inorder ?cs) (es1 @ m # es2) =
    jl (map bt_inorder cs1) es1 @ (bt_inorder l @ m # bt_inorder r) @ jr es2 (map bt_inorder cs2)"
    using join_focus [of "map bt_inorder cs1" es1 "bt_inorder r # map bt_inorder cs2" "m # es2"] f(4,5) by simp
  then have "upds k v (join (map bt_inorder (cs1 @ c # cs2)) (es1 @ es2)) (join (map bt_inorder ?cs) (es1 @ m # es2))"
    using focus_upd [OF F lr(3)] by simp
  moreover have "fst m \<in> insert k (fst ` set (bt_inorder c))" using upds_keys [OF lr(3)] by auto
  then have "below (fst m) (es1 @ es2) = length es1" by (rule focus_below [OF F])
  moreover have "set (addrs ?cs) \<subseteq> set (addrs (cs1 @ c # cs2)) \<union> - dom (bnodes s)" using lr(5) by auto
  moreover have "length ?cs = length es1 + length es2 + 2" using f(4,5) by simp
  ultimately show ?thesis using lr(6) by blast
qed

text \<open>The entry goes into a node with room.\<close>

lemma focus_room:
  assumes F: "focus s n k a nd es1 es2 ps1 q ps2 cs1 c cs2" and S: "split_at k v s n q c s1 m q'"
    and nd': "node_rep nd' (es1 @ m # es2) (ps1 @ q # q' # ps2)" "height nd' = Suc n"
  shows "done_at k v s (Suc n) (Addr a) (BNode a (es1 @ es2) (cs1 @ c # cs2)) (put_node s1 a nd')"
proof -
  let ?t = "BNode a (es1 @ es2) (cs1 @ c # cs2)" and ?s = "put_node s1 a nd'"
  from focus_split [OF F S] obtain cs' where cs': "bnodes s1 a = Some nd" "list_all2 (bt_ok s1 n) (ps1 @ q # q' # ps2) cs'"
    "distinct (a # addrs cs')" "set (addrs cs') \<subseteq> set (addrs (cs1 @ c # cs2)) \<union> - dom (bnodes s)"
    "upds k v (bt_inorder ?t) (join (map bt_inorder cs') (es1 @ m # es2))" "frame (set (addr_list c)) s s1" by auto
  have fa: "frame {a} s1 ?s" by (rule frame_put) simp
  have "list_all2 (bt_ok ?s n) (ps1 @ q # q' # ps2) cs'" by (rule all_ok_frame [OF cs'(2) fa]) (use cs'(3) in auto)
  then have "bt_ok ?s (Suc n) (Addr a) (BNode a (es1 @ m # es2) cs')" unfolding bt_ok_Node using nd' by (auto simp: put_node_def)
  moreover have "frame (set (addr_list ?t)) s ?s"
    by (rule frame_trans [OF frame_mono [OF cs'(6)] frame_mono [OF fa]]) auto
  moreover have "set (addr_list (BNode a (es1 @ m # es2) cs')) \<subseteq> set (addr_list ?t) \<union> - dom (bnodes s)" using cs'(4) by auto
  ultimately show ?thesis unfolding done_at_def using cs'(3,5)
    by (intro exI [of _ "BNode a (es1 @ m # es2) cs'"]) (simp del: bt_ok.simps)
qed

text \<open>The entry goes into a full node, which is split at the third of the five entries.\<close>

lemma focus_full:
  assumes F: "focus s n k a nd es1 es2 ps1 q ps2 cs1 c cs2" and S: "split_at k v s n q c s1 m q'"
    and E: "E = es1 @ m # es2" "P = ps1 @ q # q' # ps2" "length E = 5"
    and nd': "node_rep nd' (take 2 E) (take 3 P)" "height nd' = Suc n"
    and nw: "node_rep nw (drop 3 E) (drop 3 P)" "height nw = Suc n" "bnodes s1 b = None"
  shows "split_at k v s (Suc n) (Addr a) (BNode a (es1 @ es2) (cs1 @ c # cs2)) (put_node (put_node s1 a nd') b nw) (E ! 2) (Addr b)"
proof -
  let ?t = "BNode a (es1 @ es2) (cs1 @ c # cs2)" and ?s = "put_node (put_node s1 a nd') b nw"
  from focus_split [OF F S] E obtain cs' where cs': "bnodes s1 a = Some nd" "list_all2 (bt_ok s1 n) P cs'"
    "distinct (a # addrs cs')" "set (addrs cs') \<subseteq> set (addrs (cs1 @ c # cs2)) \<union> - dom (bnodes s)" "length cs' = 6"
    "upds k v (bt_inorder ?t) (join (map bt_inorder cs') E)" "frame (set (addr_list c)) s s1" by auto
  have ab: "a \<noteq> b" "b \<notin> set (addrs cs')" using nw(3) cs'(1) all_addrs [OF cs'(2)] by auto
  have fa: "frame {a} s1 ?s"
    by (rule frame_trans [OF frame_put frame_put]) (use nw(3) ab in \<open>auto simp: put_node_def\<close>)
  have A: "list_all2 (bt_ok ?s n) P cs'" by (rule all_ok_frame [OF cs'(2) fa]) (use cs'(3) in auto)
  have "bt_ok ?s (Suc n) (Addr a) (BNode a (take 2 E) (take 3 cs'))" "bt_ok ?s (Suc n) (Addr b) (BNode b (drop 3 E) (drop 3 cs'))"
    unfolding bt_ok_Node using nd' nw(1,2) ab(1) list_all2_takeI [OF A] list_all2_dropI [OF A] by (auto simp: put_node_def)
  moreover have J: "join (map bt_inorder cs') E = join (map bt_inorder (take 3 cs')) (take 2 E) @ E ! 2 # join (map bt_inorder (drop 3 cs')) (drop 3 E)"
  proof -
    have "E = take 2 E @ E ! 2 # drop 3 E" using id_take_nth_drop [of 2 E] E(3) by (simp add: numeral_eq_Suc)
    moreover have "map bt_inorder cs' = map bt_inorder (take 3 cs') @ map bt_inorder (drop 3 cs')"
      by (simp flip: map_append)
    moreover have "length (map bt_inorder (take 3 cs')) = length (take 2 E) + 1" using cs'(5) E(3) by simp
    note join_cut [OF this, of "map bt_inorder (drop 3 cs')" "E ! 2" "drop 3 E"]
    ultimately show ?thesis by simp
  qed
  moreover have "addrs cs' = addrs (take 3 cs') @ addrs (drop 3 cs')" by (simp flip: addrs_simps(3))
  moreover have "frame (set (addr_list ?t)) s ?s"
    by (rule frame_trans [OF frame_mono [OF cs'(7)] frame_mono [OF fa]]) auto
  moreover have "b \<notin> dom (bnodes s)" using cs'(7) nw(3) unfolding frame_def by blast
  ultimately show ?thesis unfolding split_at_def using cs'(3,4,6) ab
    by (intro exI [of _ "BNode a (take 2 E) (take 3 cs')"] exI [of _ "BNode b (drop 3 E) (drop 3 cs')"]) (auto simp del: bt_ok.simps)
qed

section \<open>The walk down and up\<close>

text \<open>
  Whether the insertion of a key splits a subtree: \<open>None\<close> if a full node on the path would get an
  entry before its third one, which is where the code accesses its arrays out of bounds.
\<close>

function grow :: "int \<Rightarrow> 'v bt \<Rightarrow> bool option" where
  "grow k BLeaf = Some True"
| "grow k (BNode a es cs) =
     (let i = below k es in
      if i < length es \<and> fst (es ! i) = k \<or> \<not> i < length cs then Some False
      else (case grow k (cs ! i) of
              None \<Rightarrow> None
            | Some False \<Rightarrow> Some False
            | Some True \<Rightarrow> if length es < 4 then Some False else if i < 2 then None else Some True))"
  by pat_completeness auto
termination by (relation "measure (\<lambda>(k, t). size t)") (auto simp: less_Suc_eq_le intro!: trans_le_add2 size_nth_le)

declare grow.simps(2) [simp del]

definition btree_malloc_ok :: "'v allocator \<Rightarrow> bool" where
  "btree_malloc_ok malloc \<longleftrightarrow> (\<forall>s. finite (dom (bnodes s)) \<longrightarrow> (\<exists>c g. malloc s = Some (c, g) \<and> bnodes s c = None \<and> arrays g))"

definition slot_out :: "bslot \<Rightarrow> nat set \<Rightarrow> bool" where
  "slot_out sl A = (case sl of BVar x \<Rightarrow> True | BChild a i \<Rightarrow> a \<notin> A)"

text \<open>The key is in the node in reach: its value is replaced.\<close>

lemma replace_ok:
  assumes ok: "bt_ok s n p (BNode a es cs)" "distinct (addr_list (BNode a es cs))" "ordered (bt_inorder (BNode a es cs))"
    and nd: "bnodes s a = Some nd" "node_rep nd es ps" and i: "i < length es" "fst (es ! i) = k"
  shows "\<exists>vs. arr_set (vals nd) i v = Some vs \<and> done_at k v s n p (BNode a es cs) (put_node s a (nd\<lparr>vals := vs\<rparr>))"
proof -
  let ?vs = "(vals nd)[i := v]" and ?es = "es[i := (k, v)]" and ?t = "BNode a es cs"
  let ?s = "put_node s a (nd\<lparr>vals := ?vs\<rparr>)"
  have l: "i < length (vals nd)" using nd(2) i(1) by (auto simp: node_rep_def)
  obtain ps' where ps': "p = Addr a" "0 < n" "height nd = n" "node_rep nd es ps'" "list_all2 (bt_ok s (n - 1)) ps' cs"
    using ok(1) nd(1) unfolding bt_ok_Node by auto
  have R: "node_rep (nd\<lparr>vals := ?vs\<rparr>) ?es ps'"
    using ps'(4) i(1) list_update_id [of "map fst es" i] i(2) by (simp add: node_rep_def take_update_swap map_update)
  have fa: "frame {a} s ?s" by (rule frame_put) simp
  have "list_all2 (bt_ok ?s (n - 1)) ps' cs" by (rule all_ok_frame [OF ps'(5) fa]) (use ok(2) in auto)
  then have "bt_ok ?s n p (BNode a ?es cs)" unfolding bt_ok_Node using ps' R by (auto simp: put_node_def)
  moreover have len: "length cs = length es + 1" using node_rep_ps [OF ps'(4)] list_all2_lengthD [OF ps'(5)] by simp
  then have J: "join (map bt_inorder cs) (take i es @ e # drop (Suc i) es) =
    join (map bt_inorder (take (Suc i) cs)) (take i es) @ [e] @ join (map bt_inorder (drop (Suc i) cs)) (drop (Suc i) es)" for e
    using join_cut [of "map bt_inorder (take (Suc i) cs)" "take i es" "map bt_inorder (drop (Suc i) cs)" e "drop (Suc i) es"] i(1)
    by (simp flip: map_append)
  have e: "es = take i es @ es ! i # drop (Suc i) es" "?es = take i es @ (k, v) # drop (Suc i) es"
    using id_take_nth_drop [OF i(1)] upd_conv_take_nth_drop [OF i(1)] by auto
  have "upds k v (bt_inorder ?t) (bt_inorder (BNode a ?es cs))"
  proof -
    let ?A = "join (map bt_inorder (take (Suc i) cs)) (take i es)" and ?B = "join (map bt_inorder (drop (Suc i) cs)) (drop (Suc i) es)"
    have o: "ordered (?A @ [es ! i] @ ?B)" using ok(3) J [of "es ! i"] e(1) by simp
    have "upds k v [es ! i] [(k, v)]" using i(2) by (auto simp: upds_def ordered_def fun_eq_iff map_of_eq_None_iff)
    then have "upds k v (?A @ [es ! i] @ ?B) (?A @ [(k, v)] @ ?B)"
      by (rule upds_mid [OF o]) (use o i(2) in \<open>auto simp: ordered_append ordered_Cons\<close>)
    then show ?thesis using J [of "es ! i"] J [of "(k, v)"] e by simp
  qed
  ultimately have "done_at k v s n p ?t ?s" unfolding done_at_def using ok(2) frame_mono [OF fa, of "set (addr_list ?t)"]
    by (intro exI [of _ "BNode a ?es cs"]) (auto simp del: bt_ok.simps)
  then show ?thesis using l by auto
qed

text \<open>One step of the way down, at a node that does not have the key.\<close>

lemma path_down_step:
  assumes "get_slot s sl = Some (Addr a)" "bnodes s a = Some nd" "node_rep nd es ps"
    and "j < length pp" "pp ! j = Some sl" "Suc j < length pp" "j < length pk"
    and nf: "\<not> (below k es < length es \<and> fst (es ! below k es) = k)"
  shows "path_down s k v pp pk j =
    path_down s k v (pp[Suc j := Some (BChild a (below k es))]) (pk[j := Some (below k es)]) (Suc j)"
proof -
  have nb: "nb_keys nd = length es" using assms(3) by (simp add: node_rep_def)
  have "(if below k es < nb_keys nd then map_option (\<lambda>x. x = k) (arr_get (keys nd) (below k es)) else Some False) = Some False"
    using nf node_rep_nth(1) [OF assms(3), of "below k es"] nb by auto
  then show ?thesis using assms(1,2,4-7) key_index_ok [OF assms(3), of k]
    by (subst path_down.simps) (simp add: node_of_def)
qed

lemma path_down_found:
  assumes "get_slot s sl = Some (Addr a)" "bnodes s a = Some nd" "node_rep nd es ps"
    and "j < length pp" "pp ! j = Some sl" and f: "below k es < length es" "fst (es ! below k es) = k"
    and vs: "arr_set (vals nd) (below k es) v = Some vs"
  shows "path_down s k v pp pk j = Some (Inl (put_node s a (nd\<lparr>vals := vs\<rparr>)))"
proof -
  have nb: "nb_keys nd = length es" using assms(3) by (simp add: node_rep_def)
  have "(if below k es < nb_keys nd then map_option (\<lambda>x. x = k) (arr_get (keys nd) (below k es)) else Some False) = Some True"
    using f node_rep_nth(1) [OF assms(3), of "below k es"] nb by auto
  then show ?thesis using assms(1,2,4,5) vs key_index_ok [OF assms(3), of k]
    by (subst path_down.simps) (simp add: node_of_def)
qed

text \<open>One step of the way up: the split child and its parent.\<close>

lemma path_up_step:
  assumes M: "btree_malloc_ok malloc" "finite (dom (bnodes s))" and F: "focus s n k a nd es1 es2 ps1 q ps2 cs1 c cs2" "length ps1 = length es1"
    and S: "split_at k v s n q c s1 m q'" and sl: "get_slot s sl = Some (Addr a)" "slot_out sl (set (a # addrs (cs1 @ c # cs2)))"
    and pp: "j < length pp" "pp ! j = Some sl"
  shows "if length (es1 @ es2) < 4 then
      \<exists>s'. (\<forall>root. path_up malloc s1 root pp (fst m) (snd m) q' (Suc j) = Some s') \<and>
        done_at k v s (Suc n) (Addr a) (BNode a (es1 @ es2) (cs1 @ c # cs2)) s'
    else if length es1 < 2 then \<forall>root. path_up malloc s1 root pp (fst m) (snd m) q' (Suc j) = None
    else \<exists>s' m' q''. (\<forall>root. path_up malloc s1 root pp (fst m) (snd m) q' (Suc j) = path_up malloc s' root pp (fst m') (snd m') q'' j) \<and>
      split_at k v s (Suc n) (Addr a) (BNode a (es1 @ es2) (cs1 @ c # cs2)) s' m' q''"
proof -
  let ?es = "es1 @ es2"
  from focus_split [OF F(1) S] have s1: "bnodes s1 a = Some nd" "below (fst m) ?es = length es1" "frame (set (addr_list c)) s s1" by auto
  have R: "node_rep nd ?es (ps1 @ q # ps2)" "height nd = Suc n" using F(1) by (auto simp: focus_def)
  have g: "get_slot s1 sl = Some (Addr a)"
    by (rule frame_slot [OF s1(3) sl(1)]) (use sl(2) in \<open>auto simp: slot_out_def split: bslot.splits\<close>)
  have "finite (dom (bnodes s1))" using s1(3) M(2) by (simp add: frame_def)
  with M(1) obtain b gb where gb: "malloc s1 = Some (b, gb)" "bnodes s1 b = None" "arrays gb" unfolding btree_malloc_ok_def by blast
  have ins: "insert_at (length es1) (fst m, snd m) ?es = es1 @ m # es2" "insert_at (length es1 + 1) q' (ps1 @ q # ps2) = ps1 @ q # q' # ps2"
    using F(2) by (simp_all add: insert_at_def)
  note I = insert_br_ok [where malloc = malloc and s = s1 and sl = sl, OF g s1(1) R(1) gb, of "fst m" "snd m" q', unfolded s1(2) ins]
  have four: "length ?es \<le> 4" using R(1) by (simp add: node_rep_def)
  consider "length ?es < 4" | "length ?es = 4" "length es1 < 2" | "length ?es = 4" "\<not> length es1 < 2" using four by linarith
  then show ?thesis
  proof cases
    case 1
    with I obtain nd' where nd': "insert_br malloc s1 sl (fst m) (snd m) q' = Some (NULL, None, put_node s1 a nd')"
      "node_rep nd' (es1 @ m # es2) (ps1 @ q # q' # ps2)" "height nd' = Suc n" using R(2) by auto
    have "path_up malloc s1 root pp (fst m) (snd m) q' (Suc j) = Some (put_node s1 a nd')" for root using nd'(1) pp by simp
    then show ?thesis using 1 focus_room [OF F(1) S nd'(2,3)] by auto
  next
    case 2
    with I have "insert_br malloc s1 sl (fst m) (snd m) q' = None" by simp
    then show ?thesis using 2 pp by simp
  next
    case 3
    with I obtain nd' nw where nd': "insert_br malloc s1 sl (fst m) (snd m) q' =
        Some (Addr b, Some ((es1 @ m # es2) ! 2), put_node (put_node s1 a nd') b nw)"
      "node_rep nd' (take 2 (es1 @ m # es2)) (take 3 (ps1 @ q # q' # ps2))" "height nd' = Suc n"
      "node_rep nw (drop 3 (es1 @ m # es2)) (drop 3 (ps1 @ q # q' # ps2))" "height nw = Suc n" using R(2) by auto
    have "path_up malloc s1 root pp (fst m) (snd m) q' (Suc j) =
      path_up malloc (put_node (put_node s1 a nd') b nw) root pp (fst ((es1 @ m # es2) ! 2)) (snd ((es1 @ m # es2) ! 2)) (Addr b) j" for root
      using nd'(1) pp by (simp add: case_prod_beta)
    moreover have "length (es1 @ m # es2) = 5" using 3(1) by simp
    note focus_full [OF F(1) S refl refl this nd'(2,3,4,5) gb(2)]
    ultimately show ?thesis using 3 by fastforce
  qed
qed

text \<open>The outcome of the walk through a subtree whose slot is the entry \<open>j\<close> of the path.\<close>

definition walk_result ::
  "'v allocator \<Rightarrow> int \<Rightarrow> 'v \<Rightarrow> 'v bstate \<Rightarrow> nat \<Rightarrow> nat ptr \<Rightarrow> 'v bt \<Rightarrow> bslot option list \<Rightarrow> nat \<Rightarrow> ('v bstate + bslot option list \<times> nat) option \<Rightarrow> bool" where
  "walk_result malloc k v s n p t pp j r \<longleftrightarrow>
     (case r of
        None \<Rightarrow> False
      | Some (Inl s') \<Rightarrow> grow k t = Some False \<and> done_at k v s n p t s'
      | Some (Inr (pp', d)) \<Rightarrow> length pp' = length pp \<and> take (Suc j) pp' = take (Suc j) pp \<and>
          (case grow k t of
             None \<Rightarrow> \<forall>root. path_up malloc s root pp' k v NULL d = None
           | Some False \<Rightarrow> \<exists>s'. (\<forall>root. path_up malloc s root pp' k v NULL d = Some s') \<and> done_at k v s n p t s'
           | Some True \<Rightarrow> \<exists>s' m q.
               (\<forall>root. path_up malloc s root pp' k v NULL d = path_up malloc s' root pp' (fst m) (snd m) q j) \<and>
               split_at k v s n p t s' m q))"

lemma walk_leaf: "walk_result malloc k v s 0 NULL BLeaf pp j (Some (Inr (pp, j)))"
proof -
  have "split_at k v s 0 NULL BLeaf s (k, v) NULL"
    unfolding split_at_def by (intro exI [of _ BLeaf]) (simp add: upds_def ordered_def)
  then have "\<exists>s' m q. (\<forall>root. path_up malloc s root pp k v NULL j = path_up malloc s' root pp (fst m) (snd m) q j) \<and>
      split_at k v s 0 NULL BLeaf s' m q" by (intro exI [of _ s] exI [of _ "(k, v)"] exI [of _ NULL]) simp
  then show ?thesis by (simp add: walk_result_def)
qed

lemma walk_node:
  assumes M: "btree_malloc_ok malloc" "finite (dom (bnodes s))" and F: "focus s n k a nd es1 es2 ps1 q ps2 cs1 c cs2" "length ps1 = length es1"
    and b: "below k (es1 @ es2) = length es1" and nf: "\<not> (length es1 < length (es1 @ es2) \<and> fst ((es1 @ es2) ! length es1) = k)"
    and sl: "get_slot s sl = Some (Addr a)" "slot_out sl (set (a # addrs (cs1 @ c # cs2)))" "j < length pp" "pp ! j = Some sl"
    and W: "walk_result malloc k v s n q c (pp[Suc j := x]) (Suc j) r"
  shows "walk_result malloc k v s (Suc n) (Addr a) (BNode a (es1 @ es2) (cs1 @ c # cs2)) pp j r"
proof -
  let ?t = "BNode a (es1 @ es2) (cs1 @ c # cs2)"
  have l: "length cs1 = length es1" using F(1) by (simp add: focus_def)
  have gr: "grow k ?t = (case grow k c of None \<Rightarrow> None | Some False \<Rightarrow> Some False
    | Some True \<Rightarrow> if length (es1 @ es2) < 4 then Some False else if length es1 < 2 then None else Some True)"
    using b nf l by (subst grow.simps) (auto simp: Let_def nth_append)
  show ?thesis
  proof (cases r)
    case None
    then show ?thesis using W by (simp add: walk_result_def)
  next
    case (Some r')
    show ?thesis
    proof (cases r')
      case (Inl s')
      then show ?thesis using W Some gr focus_done [OF F(1)] by (simp add: walk_result_def)
    next
      case (Inr r'')
      obtain pp' d where r'': "r'' = (pp', d)" by (cases r'')
      have W': "length pp' = length pp" "take (Suc (Suc j)) pp' = take (Suc (Suc j)) (pp[Suc j := x])"
        using W Some Inr r'' by (auto simp: walk_result_def)
      have t: "take (Suc j) pp' = take (Suc j) pp"
        using arg_cong [OF W'(2), of "take (Suc j)"] by (simp add: min_def)
      then have pj: "pp' ! j = Some sl" using sl(3,4) W'(1) by (metis lessI nth_take)
      have j': "j < length pp'" using sl(3) W'(1) by simp
      show ?thesis
      proof (cases "grow k c")
        case None
        then show ?thesis using W Some Inr r'' gr t by (simp add: walk_result_def)
      next
        case (Some g)
        show ?thesis
        proof (cases g)
          case False
          with \<open>grow k c = Some g\<close> obtain s' where "\<forall>root. path_up malloc s root pp' k v NULL d = Some s'" "done_at k v s n q c s'"
            using W \<open>r = Some r'\<close> Inr r'' by (auto simp: walk_result_def)
          then show ?thesis using \<open>r = Some r'\<close> Inr r'' gr t W'(1) \<open>grow k c = Some g\<close> False focus_done [OF F(1)]
            by (auto simp: walk_result_def)
        next
          case True
          with \<open>grow k c = Some g\<close> obtain s1 m q' where
            u: "\<forall>root. path_up malloc s root pp' k v NULL d = path_up malloc s1 root pp' (fst m) (snd m) q' (Suc j)"
            and S: "split_at k v s n q c s1 m q'"
            using W unfolding walk_result_def \<open>r = Some r'\<close> Inr r''
            by (simp del: path_up.simps split_paired_Ex) blast
          from path_up_step [OF M F S sl(1,2) j' pj] show ?thesis
            using \<open>r = Some r'\<close> Inr r'' gr t W'(1) \<open>grow k c = Some g\<close> True u
            by (simp add: walk_result_def del: path_up.simps split: if_splits)
        qed
      qed
    qed
  qed
qed

lemma walk_ok:
  assumes M: "btree_malloc_ok malloc" "finite (dom (bnodes s))"
  shows "bt_ok s n p t \<Longrightarrow> distinct (addr_list t) \<Longrightarrow> ordered (bt_inorder t) \<Longrightarrow> get_slot s sl = Some p \<Longrightarrow>
    slot_out sl (set (addr_list t)) \<Longrightarrow> j + n < length pp \<Longrightarrow> pp ! j = Some sl \<Longrightarrow> j + n \<le> length pk \<Longrightarrow>
    walk_result malloc k v s n p t pp j (path_down s k v pp pk j)"
proof (induction t arbitrary: n p sl j pp pk)
  case BLeaf
  then have "path_down s k v pp pk j = Some (Inr (pp, j))" by (subst path_down.simps) simp
  then show ?case using walk_leaf BLeaf.prems(1) by simp
next
  case (BNode a es cs)
  note ok = BNode.prems(1-3) and sl = BNode.prems(4,5) and len = BNode.prems(6-8)
  obtain nd ps where nd: "p = Addr a" "0 < n" "bnodes s a = Some nd" "node_rep nd es ps"
    using ok(1) unfolding bt_ok_Node by blast
  have j: "j < length pp" "Suc j < length pp" "j < length pk" using len nd(2) by auto
  have g: "get_slot s sl = Some (Addr a)" using sl(1) nd(1) by simp
  show ?case
  proof (cases "below k es < length es \<and> fst (es ! below k es) = k")
    case True
    from replace_ok [OF ok nd(3,4) conjunct1 [OF True] conjunct2 [OF True], of v] obtain vs where
      vs: "arr_set (vals nd) (below k es) v = Some vs" "done_at k v s n p (BNode a es cs) (put_node s a (nd\<lparr>vals := vs\<rparr>))" by blast
    have "grow k (BNode a es cs) = Some False" using True by (subst grow.simps) (simp add: Let_def)
    then show ?thesis using path_down_found [OF g nd(3,4) j(1) len(2) conjunct1 [OF True] conjunct2 [OF True] vs(1)] vs(2)
      by (simp add: walk_result_def)
  next
    case False
    then have "below k es < length es \<longrightarrow> fst (es ! below k es) \<noteq> k" by blast
    from focus_intro [OF ok this] obtain nd' m es1 es2 ps1 q ps2 cs1 c cs2 where
      n: "n = Suc m" and e: "es = es1 @ es2" "cs = cs1 @ c # cs2" "length es1 = below k es" "length ps1 = length es1"
      and F: "focus s m k a nd' es1 es2 ps1 q ps2 cs1 c cs2" by blast
    have f: "bnodes s a = Some nd'" "node_rep nd' es (ps1 @ q # ps2)" "bt_ok s m q c" "distinct (a # addrs (cs1 @ c # cs2))"
      using F e(1) by (auto simp: focus_def)
    have q: "get_slot s (BChild a (below k es)) = Some q"
      using node_rep_child [OF f(2), of "below k es"] below_le [of k es] f(1) e(3,4) by (simp add: get_slot_def nth_append)
    let ?pp = "pp[Suc j := Some (BChild a (below k es))]" and ?pk = "pk[j := Some (below k es)]"
    have "ordered (bt_inorder c)" using focus_inorder(2) [OF F] by (simp add: ordered_append)
    moreover have "slot_out (BChild a (below k es)) (set (addr_list c))" "distinct (addr_list c)" "c \<in> set cs"
      using f(4) e(2) by (auto simp: slot_out_def)
    ultimately have "walk_result malloc k v s m q c ?pp (Suc j) (path_down s k v ?pp ?pk (Suc j))"
      using BNode.IH [of c m q "BChild a (below k es)" "Suc j" ?pp ?pk] f(3) q len n j by simp
    moreover have "path_down s k v pp pk j = path_down s k v ?pp ?pk (Suc j)"
      by (rule path_down_step [OF g f(1,2) j(1) len(2) j(2,3) False])
    moreover have "slot_out sl (set (a # addrs (cs1 @ c # cs2)))" using sl(2) e(2) by simp
    ultimately show ?thesis
      using walk_node [OF M F e(4) _ _ g _ j(1) len(2), of v "Some (BChild a (below k es))"] e n nd(1) False by simp
  qed
qed

section \<open>Insertion into a tree\<close>

lemma bt_ok_root:
  assumes "bt_ok s n p t"
  shows "if p = NULL then n = 0 \<and> t = BLeaf else \<exists>a nd. p = Addr a \<and> bnodes s a = Some nd \<and> height nd = n"
  using assms by (cases t) auto

lemma make_root_ok:
  assumes M: "btree_malloc_ok malloc" "finite (dom (bnodes s))" and lr: "bt_ok s n l t1" "bt_ok s n r t2" "distinct (addr_list t1 @ addr_list t2)"
  shows "\<exists>root s'. btree_make_root malloc s l r k v = Some (Addr root, s') \<and> bvars s' = bvars s \<and> finite (dom (bnodes s')) \<and>
    bt_ok s' (Suc n) (Addr root) (BNode root [(k, v)] [t1, t2]) \<and> distinct (addr_list (BNode root [(k, v)] [t1, t2]))"
proof -
  obtain root g where g: "malloc s = Some (root, g)" "bnodes s root = None" "arrays g" using M unfolding btree_malloc_ok_def by blast
  obtain k0 k1 k2 k3 v0 v1 v2 v3 c0 c1 c2 c3 c4 where
    a: "keys g = [k0, k1, k2, k3]" "vals g = [v0, v1, v2, v3]" "children g = [c0, c1, c2, c3, c4]"
    using arrays_cases [OF g(3)] by metis
  let ?g = "g\<lparr>height := Suc n, nb_keys := 1, keys := [k, k1, k2, k3], vals := [v, v1, v2, v3], children := [l, r, c2, c3, c4]\<rparr>"
  let ?s = "put_node s root ?g"
  have "btree_make_root malloc s l r k v = Some (Addr root, ?s)"
  proof (cases "l = NULL")
    case True
    then show ?thesis using bt_ok_root [OF lr(1)] g(1) by (simp add: btree_make_root_def xmalloc_btree_def a arr_set_def put_node_def)
  next
    case False
    with bt_ok_root [OF lr(1)] obtain b nb where "l = Addr b" "bnodes s b = Some nb" "height nb = n" by auto
    moreover from this have "b \<noteq> root" using g(2) by auto
    ultimately show ?thesis using g(1)
      by (simp add: btree_make_root_def xmalloc_btree_def a arr_set_def put_node_def node_of_def)
  qed
  moreover have f: "frame {} s ?s" by (rule frame_put) (use g(2) in simp)
  have "bt_ok ?s n l t1" "bt_ok ?s n r t2" by (rule bt_ok_frame [OF lr(1) f], simp) (rule bt_ok_frame [OF lr(2) f], simp)
  then have "bt_ok ?s (Suc n) (Addr root) (BNode root [(k, v)] [t1, t2])"
    unfolding bt_ok_Node by (simp add: put_node_def node_rep_def a)
  moreover have "root \<notin> set (addr_list t1 @ addr_list t2)" using bt_ok_addrs [OF lr(1)] bt_ok_addrs [OF lr(2)] g(2) by auto
  ultimately show ?thesis using lr(3) M(2) by (auto simp: put_node_def)
qed

text \<open>The variable \<open>x\<close> holds a balanced tree with ordered entries.\<close>

definition btree_ok :: "'v bstate \<Rightarrow> nat \<Rightarrow> nat \<Rightarrow> 'v bt \<Rightarrow> bool" where
  "btree_ok s x n t \<longleftrightarrow> finite (dom (bnodes s)) \<and> (\<exists>p. bvars s x = Some p \<and> bt_ok s n p t) \<and> distinct (addr_list t) \<and> ordered (bt_inorder t)"

lemma install_root:
  assumes M: "btree_malloc_ok malloc" "finite (dom (bnodes s))" and x: "bvars s x = Some p" and S: "bt_ok s n p l" "bt_ok s n q r" "distinct (addr_list l @ addr_list r)"
    and u: "upds k v L (bt_inorder l @ m # bt_inorder r)"
  shows "\<exists>s' t'. (get_slot s (BVar x) \<bind> (\<lambda>p. btree_make_root malloc s p q (fst m) (snd m) \<bind>
      (\<lambda>(root, s). put_slot s (BVar x) root))) = Some s' \<and> btree_ok s' x (Suc n) t' \<and> map_of (bt_inorder t') = (map_of L)(k \<mapsto> v)"
proof -
  from make_root_ok [OF M S, of "fst m" "snd m"] obtain root s1 where s1: "btree_make_root malloc s p q (fst m) (snd m) = Some (Addr root, s1)"
    "bvars s1 = bvars s" "bt_ok s1 (Suc n) (Addr root) (BNode root [m] [l, r])" "distinct (addr_list (BNode root [m] [l, r]))"
    "finite (dom (bnodes s1))" by auto
  let ?s = "s1\<lparr>bvars := (bvars s1)(x \<mapsto> Addr root)\<rparr>" and ?t = "BNode root [m] [l, r]"
  have same: "bt_ok ?s j z w \<longleftrightarrow> bt_ok s1 j z w" for j z w by (induction s1 j z w rule: bt_ok.induct) auto
  have "put_slot s1 (BVar x) (Addr root) = Some ?s" using x s1(2) by (simp add: put_slot_def)
  moreover have "btree_ok ?s x (Suc n) ?t" using s1(3-5) u same [of "Suc n" "Addr root" ?t] by (simp add: btree_ok_def upds_def)
  moreover have "map_of (bt_inorder ?t) = (map_of L)(k \<mapsto> v)" using u by (simp add: upds_def)
  ultimately show ?thesis using s1(1) x by (auto simp: get_slot_def)
qed

text \<open>
  C11. Insertion into a B-tree: unless a full node on the path to the key would get an entry before
  its third one (then the code accesses its arrays out of bounds), \<open>btree_insert\<close> returns, and the variable
  holds a balanced B-tree with ordered entries again, whose map is the one of before with the key mapped to
  the value.
\<close>

theorem btree_insert_spec:
  assumes M: "btree_malloc_ok malloc" and B: "btree_ok s x n t"
  shows "if grow k t = None then btree_insert malloc s (BVar x) k v = None
    else \<exists>s' n' t'. btree_insert malloc s (BVar x) k v = Some s' \<and> btree_ok s' x n' t' \<and>
      map_of (bt_inorder t') = (map_of (bt_inorder t))(k \<mapsto> v)"
proof -
  obtain p where p: "bvars s x = Some p" "bt_ok s n p t" "distinct (addr_list t)" "ordered (bt_inorder t)" and fi: "finite (dom (bnodes s))"
    using B by (auto simp: btree_ok_def)
  have g: "get_slot s (BVar x) = Some p" using p(1) by (simp add: get_slot_def)
  show ?thesis
  proof (cases "p = NULL")
    case True
    with bt_ok_root [OF p(2)] have t: "t = BLeaf" "n = 0" by auto
    have "upds k v [] (bt_inorder BLeaf @ (k, v) # bt_inorder BLeaf)" by (simp add: upds_def ordered_def)
    from install_root [OF M fi p(1) _ _ _ this, of 0 NULL] True g t show ?thesis by (auto simp: btree_insert_def)
  next
    case False
    with bt_ok_root [OF p(2)] obtain a nd where nd: "p = Addr a" "bnodes s a = Some nd" "height nd = n" by auto
    let ?pp = "(replicate (Suc n) None)[0 := Some (BVar x)]" and ?pk = "replicate n None"
    let ?r = "path_down s k v ?pp ?pk 0"
    have W: "walk_result malloc k v s n p t ?pp 0 ?r"
      by (rule walk_ok [OF M fi p(2-4) g]) (simp_all add: slot_out_def)
    have I: "btree_insert malloc s (BVar x) k v = (?r \<bind> (\<lambda>r. case r of Inl s \<Rightarrow> Some s
      | Inr (pp, cur) \<Rightarrow> path_up malloc s (BVar x) pp k v NULL cur))"
      using g nd by (simp add: btree_insert_def node_of_def arr_set_def)
    have fin: "\<exists>n' t'. btree_ok s' x n' t' \<and> map_of (bt_inorder t') = (map_of (bt_inorder t))(k \<mapsto> v)"
      if D: "done_at k v s n p t s'" for s'
    proof -
      obtain t' where "bt_ok s' n p t'" "upds k v (bt_inorder t) (bt_inorder t')" "distinct (addr_list t')" "bvars s' = bvars s"
        "finite (dom (bnodes s'))" using D fi by (auto simp: done_at_def frame_def)
      then show ?thesis using p(1) by (auto simp: btree_ok_def upds_def)
    qed
    from W obtain r where r: "?r = Some r" by (auto simp: walk_result_def split: option.splits)
    show ?thesis
    proof (cases r)
      case (Inl s')
      then show ?thesis using W I r fin [of s'] by (auto simp: walk_result_def)
    next
      case (Inr y)
      obtain pp d where y: "y = (pp, d)" by (cases y)
      have I': "btree_insert malloc s (BVar x) k v = path_up malloc s (BVar x) pp k v NULL d" using I r Inr y by simp
      consider "grow k t = None" | "grow k t = Some False" | "grow k t = Some True" by (cases "grow k t") auto
      then show ?thesis
      proof cases
        case 1
        then show ?thesis using W I' r Inr y by (simp add: walk_result_def)
      next
        case 2
        then obtain s' where "btree_insert malloc s (BVar x) k v = Some s'" "done_at k v s n p t s'"
          using W I' r Inr y by (auto simp: walk_result_def)
        then show ?thesis using 2 fin by auto
      next
        case 3
        then obtain s1 m q where u: "btree_insert malloc s (BVar x) k v = path_up malloc s1 (BVar x) pp (fst m) (snd m) q 0"
          and S: "split_at k v s n p t s1 m q" using W I' r Inr y unfolding walk_result_def
          by (simp del: path_up.simps split_paired_Ex) blast
        from S obtain l r where lr: "bt_ok s1 n p l" "bt_ok s1 n q r" "distinct (addr_list l @ addr_list r)"
          "upds k v (bt_inorder t) (bt_inorder l @ m # bt_inorder r)" "bvars s1 = bvars s" "finite (dom (bnodes s1))"
          using fi by (auto simp: split_at_def frame_def)
        from install_root [OF M lr(6) _ lr(1-4), of x] p(1) lr(5) u 3 show ?thesis by auto
      qed
    qed
  qed
qed

text \<open>An allocator for memories with finitely many nodes.\<close>

definition next_malloc :: "nat allocator" where
  "next_malloc s = Some (Suc (Max (insert 0 (dom (bnodes s)))),
     \<lparr>nb_keys = 0, keys = replicate 4 0, vals = replicate 4 0, children = replicate 5 NULL, height = 0\<rparr>)"

lemma next_malloc_ok: "btree_malloc_ok next_malloc"
proof -
  have "Suc (Max (insert 0 (dom h))) \<notin> dom h" if "finite (dom h)" for h :: "(nat, nat btree) heap"
  proof
    assume "Suc (Max (insert 0 (dom h))) \<in> dom h"
    then have "Suc (Max (insert 0 (dom h))) \<le> Max (insert 0 (dom h))" using that by (intro Max_ge) auto
    then show False by simp
  qed
  then show ?thesis unfolding btree_malloc_ok_def next_malloc_def by (auto simp: arrays_def)
qed

lemma demo_btree_ok: "btree_ok demo_bstate 0 1 (BNode 10 [(10, 1), (20, 2), (30, 3), (40, 4)] (replicate 5 BLeaf))"
proof -
  have "list_all2 (bt_ok demo_bstate 0) (replicate 5 NULL) (replicate 5 BLeaf)" by (simp add: list_all2_conv_all_nth)
  then have "bt_ok demo_bstate 1 (Addr 10) (BNode 10 [(10, 1), (20, 2), (30, 3), (40, 4)] (replicate 5 BLeaf))"
    unfolding bt_ok_Node using demo_node_rep by (auto simp: demo_bstate_def demo_node_def)
  then show ?thesis by (simp add: btree_ok_def demo_bstate_def addrs_def ordered_def numeral_eq_Suc del: bt_ok.simps)
qed

theorem btree_insert_spec_witness:
  "btree_insert next_malloc demo_bstate (BVar 0) 15 9 = None \<and>
   (\<exists>s' n' t'. btree_insert next_malloc demo_bstate (BVar 0) 35 9 = Some s' \<and> btree_ok s' 0 n' t' \<and>
      map_of (bt_inorder t') 35 = Some 9)"
proof -
  note S = btree_insert_spec [OF next_malloc_ok demo_btree_ok]
  have gr: "grow 15 (BNode 10 [(10, 1), (20, 2), (30, 3), (40, 4)] (replicate 5 BLeaf) :: nat bt) = None"
    "grow 35 (BNode 10 [(10, 1), (20, 2), (30, 3), (40, 4)] (replicate 5 BLeaf) :: nat bt) = Some True"
    by (simp_all add: grow.simps numeral_eq_Suc)
  have "btree_insert next_malloc demo_bstate (BVar 0) 15 9 = None" using S [of 15 9] gr(1) by simp
  moreover from S [of 35 9] gr(2) obtain s' n' t' where "btree_insert next_malloc demo_bstate (BVar 0) 35 9 = Some s'"
    "btree_ok s' 0 n' t'" "map_of (bt_inorder t') 35 = Some 9" by (metis fun_upd_same option.distinct(1))
  ultimately show ?thesis by blast
qed

end
