(* ===== verification/Word_List.thy ===== *)
theory Word_List
  imports Talloc
begin

text \<open>
  The singly linked lists of \<open>src/tutorial/t03_list.c\<close>, on the memory of the tutorial allocator. A \<open>list_t\<close> is
  a pointer to a node of two words, \<open>head\<close> and, eight bytes on, \<open>tail\<close>; a parameter of the type \<open>list_t *\<close> is the address of the word that has the pointer. The
  elements are pointers; \<open>member\<close> reads integers of the type \<open>size_t\<close> through them.
\<close>

section \<open>The functions\<close>

definition list_tail :: "nat \<Rightarrow> nat" where
  "list_tail a = a + 8"

definition sizeof_list :: u64 where
  "sizeof_list = 16"

definition sl_init_list :: "nat ptr" where
  "sl_init_list = NULL"

definition sl_is_empty :: "'k tmem \<Rightarrow> nat \<Rightarrow> bool option" where
  "sl_is_empty s l = do { p \<leftarrow> get_tptr s l; Some (p = NULL) }"

definition sl_push :: "'k tmem \<Rightarrow> nat ptr \<Rightarrow> nat ptr \<Rightarrow> (nat ptr \<times> 'k tmem) option" where
  "sl_push s p e = do {
     (node, s) \<leftarrow> talloc s sizeof_list;
     s \<leftarrow> put_word s node (TPtr e);
     s \<leftarrow> put_word s (list_tail node) (TPtr p);
     Some (Addr node, s) }"

definition sl_pop :: "'k tmem \<Rightarrow> nat \<Rightarrow> (nat ptr \<times> 'k tmem) option" where
  "sl_pop s p = do {
     q \<leftarrow> get_tptr s p;
     if q = NULL then Some (NULL, s)
     else do {
       node \<leftarrow> deref q;
       ret \<leftarrow> get_tptr s node;
       t \<leftarrow> get_tptr s (list_tail node);
       s \<leftarrow> put_word s p (TPtr t);
       s \<leftarrow> tfree s sizeof_list node;
       Some (ret, s) } }"

text \<open>The loop of \<open>reverse\<close>, with the reversed part \<open>w\<close>.\<close>

partial_function (option) sl_reverse_loop :: "'k tmem \<Rightarrow> nat ptr \<Rightarrow> nat ptr \<Rightarrow> (nat ptr \<times> 'k tmem) option" where
  "sl_reverse_loop s p w =
     (if p \<noteq> NULL then
        Option.bind (deref p) (\<lambda>a.
        Option.bind (get_tptr s (list_tail a)) (\<lambda>t.
        Option.bind (put_word s (list_tail a) (TPtr w)) (\<lambda>s. sl_reverse_loop s t p)))
      else Some (w, s))"

definition sl_reverse :: "'k tmem \<Rightarrow> nat ptr \<Rightarrow> (nat ptr \<times> 'k tmem) option" where
  "sl_reverse s p = sl_reverse_loop s p NULL"

partial_function (option) sl_length_loop :: "'k tmem \<Rightarrow> nat \<Rightarrow> u64 \<Rightarrow> u64 option" where
  "sl_length_loop s p len =
     Option.bind (get_tptr s p) (\<lambda>q.
       if q \<noteq> NULL then Option.bind (deref q) (\<lambda>a. sl_length_loop s (list_tail a) (len + 1))
       else Some len)"

definition sl_length :: "'k tmem \<Rightarrow> nat \<Rightarrow> u64 option" where
  "sl_length s p = sl_length_loop s p 0"

partial_function (option) sl_length_val_rec :: "'k tmem \<Rightarrow> nat ptr \<Rightarrow> u64 option" where
  "sl_length_val_rec s p =
     (if p = NULL then Some 0
      else Option.bind (deref p) (\<lambda>a.
        Option.bind (get_tptr s (list_tail a)) (\<lambda>t.
        Option.bind (sl_length_val_rec s t) (\<lambda>n. Some (n + 1)))))"

partial_function (option) sl_length_val_loop :: "'k tmem \<Rightarrow> nat ptr \<Rightarrow> u64 \<Rightarrow> u64 option" where
  "sl_length_val_loop s p len =
     (if p \<noteq> NULL then
        Option.bind (deref p) (\<lambda>a.
        Option.bind (get_tptr s (list_tail a)) (\<lambda>t. sl_length_val_loop s t (len + 1)))
      else Some len)"

definition sl_length_val :: "'k tmem \<Rightarrow> nat ptr \<Rightarrow> u64 option" where
  "sl_length_val s p = sl_length_val_loop s p 0"

partial_function (option) sl_end :: "'k tmem \<Rightarrow> nat \<Rightarrow> nat option" where
  "sl_end s e =
     Option.bind (get_tptr s e) (\<lambda>q.
       if q \<noteq> NULL then Option.bind (deref q) (\<lambda>a. sl_end s (list_tail a)) else Some e)"

definition sl_append :: "'k tmem \<Rightarrow> nat \<Rightarrow> nat ptr \<Rightarrow> 'k tmem option" where
  "sl_append s l1 l2 = do { e \<leftarrow> sl_end s l1; put_word s e (TPtr l2) }"

partial_function (option) sl_member :: "'k tmem \<Rightarrow> nat \<Rightarrow> u64 \<Rightarrow> bool option" where
  "sl_member s prev k =
     Option.bind (get_tptr s prev) (\<lambda>q.
       if q \<noteq> NULL then
         Option.bind (deref q) (\<lambda>cur.
         Option.bind (Option.bind (get_tptr s cur) deref) (\<lambda>head.
         Option.bind (get_tsize s head) (\<lambda>v.
           if v = k then Some True else sl_member s (list_tail cur) k)))
       else Some False)"

partial_function (option) sl_rev_append_loop :: "'k tmem \<Rightarrow> nat ptr \<Rightarrow> nat \<Rightarrow> 'k tmem option" where
  "sl_rev_append_loop s cur l2 =
     (if cur \<noteq> NULL then
        Option.bind (deref cur) (\<lambda>a.
        Option.bind (get_tptr s (list_tail a)) (\<lambda>cur_tail.
        Option.bind (get_tptr s l2) (\<lambda>v.
        Option.bind (put_word s (list_tail a) (TPtr v)) (\<lambda>s.
        Option.bind (put_word s l2 (TPtr cur)) (\<lambda>s. sl_rev_append_loop s cur_tail l2)))))
      else Some s)"

definition sl_rev_append :: "'k tmem \<Rightarrow> nat ptr \<Rightarrow> nat \<Rightarrow> 'k tmem option" where
  "sl_rev_append s l1 l2 = (let cur = l1 in sl_rev_append_loop s cur l2)"

text \<open>\<open>test\<close>; \<open>l\<close> is the address of the local variable \<open>list\<close>.\<close>

definition sl_test :: "'k tmem \<Rightarrow> nat \<Rightarrow> 'k tmem option" where
  "sl_test s l = do {
     s \<leftarrow> put_word s l (TPtr sl_init_list);
     (elem1, s) \<leftarrow> talloc s 8;
     (elem2, s) \<leftarrow> talloc s 8;
     (elem3, s) \<leftarrow> talloc s 8;
     b \<leftarrow> sl_is_empty s l;
     c_assert b;
     s \<leftarrow> put_word s elem1 (TSize 1);
     s \<leftarrow> put_word s elem2 (TSize 2);
     s \<leftarrow> put_word s elem3 (TSize 3);
     p \<leftarrow> get_tptr s l;
     (p, s) \<leftarrow> sl_push s p (Addr elem1);
     s \<leftarrow> put_word s l (TPtr p);
     p \<leftarrow> get_tptr s l;
     (p, s) \<leftarrow> sl_push s p (Addr elem2);
     s \<leftarrow> put_word s l (TPtr p);
     p \<leftarrow> get_tptr s l;
     (p, s) \<leftarrow> sl_push s p (Addr elem3);
     s \<leftarrow> put_word s l (TPtr p);
     b \<leftarrow> sl_member s l 1;
     c_assert b;
     p \<leftarrow> get_tptr s l;
     (p, s) \<leftarrow> sl_reverse s p;
     s \<leftarrow> put_word s l (TPtr p);
     b \<leftarrow> sl_member s l 1;
     c_assert b;
     (p1, s) \<leftarrow> sl_pop s l;
     (p2, s) \<leftarrow> sl_pop s l;
     (p3, s) \<leftarrow> sl_pop s l;
     b \<leftarrow> sl_is_empty s l;
     c_assert b;
     elem1 \<leftarrow> deref p1;
     elem2 \<leftarrow> deref p2;
     elem3 \<leftarrow> deref p3;
     v \<leftarrow> get_tsize s elem1;
     c_assert (v = 1);
     v \<leftarrow> get_tsize s elem2;
     c_assert (v = 2);
     v \<leftarrow> get_tsize s elem3;
     c_assert (v = 3);
     s \<leftarrow> tfree s 8 elem1;
     s \<leftarrow> tfree s 8 elem2;
     tfree s 8 elem3 }"

section \<open>The list of a pointer\<close>

text \<open>
  The word at \<open>l\<close> has the pointer to the first of the nodes \<open>as\<close>, which are linked by their \<open>tail\<close> fields; \<open>p\<close> is such
  a pointer.
\<close>

fun slist :: "(nat, 'k tword) heap \<Rightarrow> nat \<Rightarrow> nat list \<Rightarrow> bool" where
  "slist w l [] \<longleftrightarrow> w l = Some (TPtr NULL)"
| "slist w l (a # as) \<longleftrightarrow> w l = Some (TPtr (Addr a)) \<and> slist w (list_tail a) as"

definition first_ptr :: "nat list \<Rightarrow> nat ptr" where
  "first_ptr as = (case as of [] \<Rightarrow> NULL | a # _ \<Rightarrow> Addr a)"

definition vlist :: "(nat, 'k tword) heap \<Rightarrow> nat ptr \<Rightarrow> nat list \<Rightarrow> bool" where
  "vlist w p as \<longleftrightarrow> p = first_ptr as \<and> (as \<noteq> [] \<longrightarrow> slist w (list_tail (hd as)) (tl as))"

lemma vlist_simps [simp]:
  "vlist w p [] \<longleftrightarrow> p = NULL" "vlist w p (a # as) \<longleftrightarrow> p = Addr a \<and> slist w (list_tail a) as"
  by (simp_all add: vlist_def first_ptr_def)

lemma slist_iff: "slist w l as \<longleftrightarrow> w l = Some (TPtr (first_ptr as)) \<and> vlist w (first_ptr as) as"
  by (cases as) (auto simp: first_ptr_def)

lemma vlist_first: "vlist w p as \<Longrightarrow> p = first_ptr as"
  by (simp add: vlist_def)

lemma slistE:
  assumes "slist w l as"
  obtains p where "w l = Some (TPtr p)" "vlist w p as"
  using assms slist_iff by blast

lemma slistI: "w l = Some (TPtr p) \<Longrightarrow> vlist w p as \<Longrightarrow> slist w l as"
  using slist_iff vlist_first by metis

text \<open>The words that the shape of a list depends on.\<close>

definition list_links :: "nat list \<Rightarrow> nat set" where
  "list_links as = list_tail ` set as"

lemma list_links_simps [simp]:
  "list_links [] = {}" "list_links (a # as) = insert (list_tail a) (list_links as)"
  "list_links (as @ bs) = list_links as \<union> list_links bs" "list_links (rev as) = list_links as"
  by (auto simp: list_links_def)

lemma list_tail_inj [simp]: "list_tail a = list_tail b \<longleftrightarrow> a = b"
  by (simp add: list_tail_def)

lemma list_tail_links [simp]: "list_tail a \<in> list_links as \<longleftrightarrow> a \<in> set as"
  by (auto simp: list_links_def)

lemma slist_cong: "(\<And>x. x \<in> insert l (list_links as) \<Longrightarrow> w' x = w x) \<Longrightarrow> slist w' l as = slist w l as"
  by (induction as arbitrary: l) auto

lemma vlist_cong: "(\<And>x. x \<in> list_links as \<Longrightarrow> w' x = w x) \<Longrightarrow> vlist w' p as = vlist w p as"
  using slist_cong [of "list_tail (hd as)" "tl as" w' w] by (cases as) simp_all

lemma slist_upd [simp]: "x \<noteq> l \<Longrightarrow> x \<notin> list_links as \<Longrightarrow> slist (w(x := v)) l as = slist w l as"
  by (rule slist_cong) auto

lemma vlist_upd [simp]: "x \<notin> list_links as \<Longrightarrow> vlist (w(x := v)) p as = vlist w p as"
  by (rule vlist_cong) auto

lemma slist_here [simp]: "l \<notin> list_links as \<Longrightarrow> slist (w(l \<mapsto> TPtr p)) l as = vlist w p as"
  by (auto simp: slist_iff dest: vlist_first)

lemmas list_upd_fun [simp] = slist_upd [unfolded fun_upd_def] vlist_upd [unfolded fun_upd_def] slist_here [unfolded fun_upd_def]

lemma slist_unique: "slist w l as \<Longrightarrow> slist w l bs \<Longrightarrow> as = bs"
proof (induction as arbitrary: l bs)
  case (Cons a as)
  then show ?case by (cases bs) auto
qed (case_tac bs, auto)

lemma slist_suffix: "slist w l (as @ a # bs) \<Longrightarrow> slist w (list_tail a) bs"
  by (induction as arbitrary: l) auto

lemma slist_fresh: "slist w l as \<Longrightarrow> l \<notin> list_links as"
proof
  assume l: "slist w l as" "l \<in> list_links as"
  then obtain a xs ys where as: "as = xs @ a # ys" "l = list_tail a" by (metis imageE list_links_def split_list)
  with l(1) slist_suffix [of w l xs a ys] slist_unique [of w l as ys] show False by auto
qed

lemma slist_distinct: "slist w l as \<Longrightarrow> distinct as"
proof (induction as arbitrary: l)
  case (Cons a as)
  then have "slist w (list_tail a) as" by simp
  then have "a \<notin> set as" using slist_fresh by fastforce
  with Cons show ?case by auto
qed simp

lemma vlist_distinct: "vlist w p as \<Longrightarrow> distinct as"
  using slist_distinct [of w "list_tail (hd as)" "tl as"] slist_fresh [of w "list_tail (hd as)" "tl as"]
  by (cases as) auto

lemma same_outside_vlist: "same_outside A s s' \<Longrightarrow> A \<inter> list_links as = {} \<Longrightarrow> vlist (words s') p as = vlist (words s) p as"
  by (rule vlist_cong) (auto intro!: same_outsideD(1) simp: disjoint_iff)

section \<open>The operations on lists\<close>

lemma get_tptr_eq: "words s a = Some (TPtr p) \<Longrightarrow> get_tptr s a = Some p"
  by (simp add: get_tptr_def)

lemma reverse_loop_ok:
  assumes "vlist (words s) p as" "vlist (words s) w bs" "list_links as \<inter> list_links bs = {}"
  shows "\<exists>r s'. sl_reverse_loop s p w = Some (r, s') \<and> vlist (words s') r (rev as @ bs) \<and> same_outside (list_links as) s s'"
  using assms
proof (induction as arbitrary: s p w bs)
  case Nil
  then show ?case by (subst sl_reverse_loop.simps) simp
next
  case (Cons a as)
  then obtain q where q: "p = Addr a" "words s (list_tail a) = Some (TPtr q)" "vlist (words s) q as"
    by (auto elim: slistE)
  have d: "a \<notin> set as" "a \<notin> set bs" using vlist_distinct [OF Cons.prems(1)] Cons.prems(3) by auto
  let ?s = "s\<lparr>words := (words s)(list_tail a \<mapsto> TPtr w)\<rparr>"
  have put: "put_word s (list_tail a) (TPtr w) = Some ?s" "same_outside {list_tail a} s ?s"
    using q(2) put_word_ok [of "list_tail a" s] by auto
  have "vlist (words ?s) q as" using q(3) d by simp
  moreover have "vlist (words ?s) (Addr a) (a # bs)" using Cons.prems(2) d by simp
  ultimately obtain r s' where r: "sl_reverse_loop ?s q (Addr a) = Some (r, s')" "vlist (words s') r (rev as @ a # bs)"
    "same_outside (list_links as) ?s s'"
    using Cons.IH [of ?s q "Addr a" "a # bs"] Cons.prems(3) d by auto
  have "sl_reverse_loop s p w = Some (r, s')"
    using q put(1) r(1) by (subst sl_reverse_loop.simps) (simp add: get_tptr_eq)
  moreover have "same_outside (list_links (a # as)) s s'"
    using same_outside_trans [OF put(2) r(3)] by simp
  ultimately show ?case using r(2) by auto
qed

lemma length_loops_ok:
  "slist (words s) l as \<Longrightarrow> sl_length_loop s l n = Some (n + of_nat (length as))"
  "vlist (words s) p as \<Longrightarrow> sl_length_val_loop s p n = Some (n + of_nat (length as))"
  "vlist (words s) p as \<Longrightarrow> sl_length_val_rec s p = Some (of_nat (length as))"
proof -
  show "slist (words s) l as \<Longrightarrow> sl_length_loop s l n = Some (n + of_nat (length as))"
  proof (induction as arbitrary: l n)
    case (Cons a as)
    then show ?case by (subst sl_length_loop.simps) (simp add: get_tptr_eq)
  qed (subst sl_length_loop.simps, simp add: get_tptr_eq)
  show "vlist (words s) p as \<Longrightarrow> sl_length_val_loop s p n = Some (n + of_nat (length as))"
  proof (induction as arbitrary: p n)
    case (Cons a as)
    then show ?case by (subst sl_length_val_loop.simps) (auto simp: get_tptr_eq elim!: slistE)
  qed (subst sl_length_val_loop.simps, simp)
  show "vlist (words s) p as \<Longrightarrow> sl_length_val_rec s p = Some (of_nat (length as))"
  proof (induction as arbitrary: p)
    case (Cons a as)
    then show ?case by (subst sl_length_val_rec.simps) (auto simp: get_tptr_eq elim!: slistE)
  qed (subst sl_length_val_rec.simps, simp)
qed

text \<open>The word with the null pointer at the end of a list.\<close>

fun end_word :: "nat \<Rightarrow> nat list \<Rightarrow> nat" where
  "end_word l [] = l"
| "end_word l (a # as) = end_word (list_tail a) as"

lemma end_word_in: "end_word l as \<in> insert l (list_links as)"
  by (induction as arbitrary: l) auto

lemma end_ok: "slist (words s) l as \<Longrightarrow> sl_end s l = Some (end_word l as) \<and> words s (end_word l as) = Some (TPtr NULL)"
proof (induction as arbitrary: l)
  case Nil
  then show ?case by (subst sl_end.simps) (simp add: get_tptr_eq)
next
  case (Cons a as)
  then show ?case by (subst sl_end.simps) (simp add: get_tptr_eq)
qed

lemma append_heap:
  assumes "slist w l as" "vlist w q bs" "insert l (list_links as) \<inter> list_links bs = {}"
  shows "slist (w(end_word l as \<mapsto> TPtr q)) l (as @ bs)"
  using assms
proof (induction as arbitrary: l)
  case Nil
  then show ?case by simp
next
  case (Cons a as)
  have l: "l \<notin> list_links (a # as)" using Cons.prems(1) by (rule slist_fresh)
  have "slist (w(end_word (list_tail a) as \<mapsto> TPtr q)) (list_tail a) (as @ bs)"
    by (rule Cons.IH) (use Cons.prems in auto)
  moreover have "l \<noteq> end_word (list_tail a) as" using end_word_in [of "list_tail a" as] l by auto
  ultimately show ?case using Cons.prems(1) by (simp add: fun_upd_def)
qed

lemma append_ok:
  assumes "slist (words s) l as" "vlist (words s) q bs" "insert l (list_links as) \<inter> list_links bs = {}"
  shows "\<exists>s'. sl_append s l q = Some s' \<and> slist (words s') l (as @ bs) \<and> same_outside (insert l (list_links as)) s s'"
proof -
  note e = end_ok [OF assms(1)]
  have "put_word s (end_word l as) (TPtr q) = Some (s\<lparr>words := (words s)(end_word l as \<mapsto> TPtr q)\<rparr>)"
    "same_outside (insert l (list_links as)) s (s\<lparr>words := (words s)(end_word l as \<mapsto> TPtr q)\<rparr>)"
    using e put_word_ok [of "end_word l as" s] end_word_in [of l as] by (blast, blast)
  then show ?thesis using e append_heap [OF assms] by (simp add: sl_append_def)
qed

lemma rev_append_loop_ok:
  assumes "vlist (words s) p as" "slist (words s) l bs" "list_links as \<inter> insert l (list_links bs) = {}"
  shows "\<exists>s'. sl_rev_append_loop s p l = Some s' \<and> slist (words s') l (rev as @ bs) \<and>
    same_outside (insert l (list_links as)) s s'"
  using assms
proof (induction as arbitrary: s p bs)
  case Nil
  then show ?case by (subst sl_rev_append_loop.simps) simp
next
  case (Cons a as)
  then obtain q where q: "p = Addr a" "words s (list_tail a) = Some (TPtr q)" "vlist (words s) q as"
    by (auto elim: slistE)
  obtain v where v: "words s l = Some (TPtr v)" "vlist (words s) v bs" using Cons.prems(2) by (rule slistE)
  have d: "a \<notin> set as" "a \<notin> set bs" "list_tail a \<noteq> l" "l \<notin> list_links as" "l \<notin> list_links bs"
    using vlist_distinct [OF Cons.prems(1)] Cons.prems(3) slist_fresh [OF Cons.prems(2)] by auto
  let ?s = "s\<lparr>words := (words s)(list_tail a \<mapsto> TPtr v, l \<mapsto> TPtr (Addr a))\<rparr>"
  have put: "put_word s (list_tail a) (TPtr v) = Some (s\<lparr>words := (words s)(list_tail a \<mapsto> TPtr v)\<rparr>)"
    "put_word (s\<lparr>words := (words s)(list_tail a \<mapsto> TPtr v)\<rparr>) l (TPtr p) = Some ?s"
    using q v by (simp_all add: put_word_def)
  have so: "same_outside {list_tail a, l} s ?s"
    unfolding same_outside_def using q(2) v(1) by (intro exI [of _ "words ?s"]) auto
  have "vlist (words ?s) q as" using q(3) d by simp
  moreover have "slist (words ?s) l (a # bs)"
    using v(2) d by simp
  ultimately obtain s' where r: "sl_rev_append_loop ?s q l = Some s'" "slist (words s') l (rev as @ a # bs)"
    "same_outside (insert l (list_links as)) ?s s'"
    using Cons.IH [of ?s q "a # bs"] Cons.prems(3) d by auto
  have "sl_rev_append_loop s p l = Some s'"
    using q v r(1) put d by (subst sl_rev_append_loop.simps) (simp add: get_tptr_eq)
  moreover have "same_outside (insert l (list_links (a # as))) s s'"
    using same_outside_trans [OF so r(3)] by (rule same_outside_mono) auto
  ultimately show ?case using r(2) by auto
qed

section \<open>The type of lists\<close>

text \<open>
  The type \<open>list_t\<close> of the file: \<open>as\<close> are allocated, disjoint nodes with the elements \<open>es\<close>, which the pointer \<open>p\<close> leads to, and the allocator
  has the free blocks \<open>bs\<close> besides.
\<close>

definition node_area :: "nat list \<Rightarrow> nat set" where
  "node_area as = (\<Union>a\<in>set as. tblk a 16)"

definition list_nodes :: "(nat, 'k tword) heap \<Rightarrow> nat list \<Rightarrow> nat ptr list \<Rightarrow> bool" where
  "list_nodes w as es \<longleftrightarrow> list_all2 (\<lambda>a e. w a = Some (TPtr e)) as es \<and>
     (\<forall>a\<in>set as. blk_ok w a 16 \<and> (\<forall>b\<in>set as. b \<noteq> a \<longrightarrow> tblk a 16 \<inter> tblk b 16 = {}))"

definition list_wf :: "'k tmem \<Rightarrow> nat ptr \<Rightarrow> nat list \<Rightarrow> nat ptr list \<Rightarrow> (nat \<times> u64) list \<Rightarrow> bool" where
  "list_wf s p as es bs \<longleftrightarrow> talloc_at s bs \<and> vlist (words s) p as \<and> list_nodes (words s) as es \<and>
     node_area as \<inter> insert (data_addr s) (blks bs) = {}"

lemma node_area_simps [simp]:
  "node_area [] = {}" "node_area (a # as) = tblk a 16 \<union> node_area as" "node_area (as @ bs) = node_area as \<union> node_area bs"
  "node_area (rev as) = node_area as"
  by (auto simp: node_area_def)

lemma node_words: "a \<in> tblk a 16" "list_tail a \<in> tblk a 16" "list_tail a \<noteq> a" "a \<noteq> list_tail a"
  by (simp_all add: tblk_def list_tail_def)

lemma links_area: "list_links as \<subseteq> node_area as" "set as \<subseteq> node_area as"
  using node_words by (auto simp: list_links_def node_area_def)

lemma heads_links: "list_nodes w as es \<Longrightarrow> set as \<inter> list_links as = {}"
proof -
  assume n: "list_nodes w as es"
  have "a \<noteq> list_tail b" if "a \<in> set as" "b \<in> set as" for a b
  proof (cases "a = b")
    case False
    then have "tblk a 16 \<inter> tblk b 16 = {}" using n that by (simp add: list_nodes_def)
    then show ?thesis using node_words by (metis disjoint_iff)
  qed (simp add: node_words)
  then show ?thesis by (auto simp: list_links_def)
qed

lemma list_nodes_cong:
  assumes "list_nodes w as es" "\<And>x. x \<in> set as \<Longrightarrow> w' x = w x" "dom w' = dom w"
  shows "list_nodes w' as es"
proof -
  have "list_all2 (\<lambda>a e. w' a = Some (TPtr e)) as es"
    using assms(1,2) by (auto simp: list_nodes_def list_all2_conv_all_nth)
  then show ?thesis using assms(1) blk_ok_cong [OF _ assms(3)] by (simp add: list_nodes_def)
qed

lemma list_nodes_perm:
  "list_nodes w as es \<Longrightarrow> list_nodes w (rev as) (rev es)"
  by (auto simp: list_nodes_def)

lemma list_nodes_append:
  "list_nodes w as es \<Longrightarrow> list_nodes w cs fs \<Longrightarrow> node_area as \<inter> node_area cs = {} \<Longrightarrow> list_nodes w (as @ cs) (es @ fs)"
proof -
  assume a: "list_nodes w as es" "list_nodes w cs fs" and d: "node_area as \<inter> node_area cs = {}"
  have c: "tblk x 16 \<inter> tblk y 16 = {}" if "x \<in> set as" "y \<in> set cs" for x y
    using d that unfolding node_area_def by blast
  have "tblk x 16 \<inter> tblk y 16 = {}" if "x \<in> set (as @ cs)" "y \<in> set (as @ cs)" "y \<noteq> x" for x y
    using a that c [of x y] c [of y x] unfolding list_nodes_def by (metis Un_iff inf_commute set_append)
  then show ?thesis using a by (auto simp: list_nodes_def intro: list_all2_appendI)
qed

lemma area_cong:
  assumes "\<And>x. x \<in> node_area as \<Longrightarrow> w' x = w x" "dom w' = dom w" "vlist w p as" "list_nodes w as es"
  shows "vlist w' p as" "list_nodes w' as es"
proof -
  show "vlist w' p as" using vlist_cong [of as w' w p] assms(1,3) links_area(1) [of as] by blast
  show "list_nodes w' as es" by (rule list_nodes_cong [OF assms(4) _ assms(2)]) (use assms(1) links_area(2) [of as] in blast)
qed

text \<open>An operation that writes links of the nodes, and words outside of the nodes and of the allocator.\<close>

lemma list_wf_write:
  assumes "list_wf s p as es bs" "same_outside A s s'" "vlist (words s') r cs" "list_nodes (words s') cs fs"
    and "node_area cs \<inter> insert (data_addr s) (blks bs) = {}" "A \<inter> insert (data_addr s) (blks bs) = {}"
  shows "list_wf s' r cs fs bs"
  using assms talloc_at_outside [OF _ assms(2,6)] same_outsideD(3) [OF assms(2)] by (simp add: list_wf_def)

lemma list_wf_reverse:
  assumes "list_wf s p as es bs"
  shows "\<exists>r s'. sl_reverse s p = Some (r, s') \<and> list_wf s' r (rev as) (rev es) bs \<and> same_outside (list_links as) s s'"
proof -
  have w: "vlist (words s) p as" "list_nodes (words s) as es" "node_area as \<inter> insert (data_addr s) (blks bs) = {}"
    using assms by (simp_all add: list_wf_def)
  from reverse_loop_ok [OF w(1), of NULL "[]"] obtain r s' where r: "sl_reverse s p = Some (r, s')"
    "vlist (words s') r (rev as)" "same_outside (list_links as) s s'" by (auto simp: sl_reverse_def)
  have "list_nodes (words s') as es"
    by (rule list_nodes_cong [OF w(2) same_outsideD(1,2) [OF r(3)]]) (use heads_links [OF w(2)] in auto)
  then have "list_nodes (words s') (rev as) (rev es)" by (rule list_nodes_perm)
  then have "list_wf s' r (rev as) (rev es) bs"
    using w(3) links_area(1) [of as] by (intro list_wf_write [OF assms r(3,2)]) auto
  with r show ?thesis by blast
qed

lemma list_wf_push:
  assumes "list_wf s p as es bs" "first_fit sizeof_list bs = Some (b, bs')"
  shows "\<exists>s'. sl_push s p e = Some (Addr b, s') \<and> list_wf s' (Addr b) (b # as) (e # es) bs' \<and>
    tblk b 16 \<union> blks bs' = blks bs \<and> tblk b 16 \<inter> blks bs' = {} \<and> same_outside (insert (data_addr s) (blks bs)) s s'"
proof -
  have n: "unat sizeof_list = 16" by (simp add: sizeof_list_def)
  have w: "talloc_at s bs" "vlist (words s) p as" "list_nodes (words s) as es" "node_area as \<inter> insert (data_addr s) (blks bs) = {}"
    using assms(1) by (simp_all add: list_wf_def)
  obtain q where q: "free_list (words s) q bs" "data_addr s \<notin> blks bs" using w(1) by (auto simp: talloc_at_def)
  from first_fit_area [OF q(1) assms(2)] n have ar: "tblk b 16 \<union> blks bs' = blks bs" "tblk b 16 \<inter> blks bs' = {}"
    "blk_ok (words s) b 16" by auto
  obtain s1 where s1: "talloc s sizeof_list = Some (b, s1)" "talloc_at s1 bs'" "same_outside (insert (data_addr s) (blks bs)) s s1"
    using talloc_ok [OF w(1) assms(2)] n by auto
  note so1 = same_outsideD [OF s1(3)]
  have ok: "blk_ok (words s1) b 16" by (rule blk_ok_cong [OF ar(3) so1(2)])
  have dm: "b \<in> dom (words s1)" "list_tail b \<in> dom (words s1)" using ok node_words [of b] by (auto simp: blk_ok_def)
  let ?w = "(words s1)(b \<mapsto> TPtr e, list_tail b \<mapsto> TPtr p)" and ?s = "s1\<lparr>words := (words s1)(b \<mapsto> TPtr e, list_tail b \<mapsto> TPtr p)\<rparr>"
  have run: "sl_push s p e = Some (Addr b, ?s)" using s1(1) dm by (auto simp: sl_push_def put_word_def)
  have so2: "same_outside {b, list_tail b} s1 ?s"
    unfolding same_outside_def using dm by (intro exI [of _ ?w]) auto
  have bd: "tblk b 16 \<inter> insert (data_addr s1) (blks bs') = {}" using ar q(2) so1(3) by auto
  have ba: "tblk b 16 \<inter> node_area as = {}" using w(4) ar(1) by auto
  have tl: "talloc_at ?s bs'" by (rule talloc_at_outside [OF s1(2) so2]) (use bd node_words [of b] in auto)
  have same: "words ?s x = words s x" if "x \<in> node_area as" for x
  proof -
    have "words ?s x = words s1 x" using that ba node_words [of b] by (intro same_outsideD(1) [OF so2]) auto
    also have "\<dots> = words s x" using that w(4) by (intro so1(1)) auto
    finally show ?thesis .
  qed
  have d2: "dom (words ?s) = dom (words s)" using same_outsideD(2) [OF so2] so1(2) by simp
  note v = area_cong [OF same d2 w(2,3)]
  have "slist (words ?s) (list_tail b) as" by (rule slistI [OF _ v(1)]) simp
  moreover have "list_nodes (words ?s) [b] [e]" using blk_ok_cong [OF ar(3) d2] node_words [of b] by (simp add: list_nodes_def)
  then have "list_nodes (words ?s) ([b] @ as) ([e] @ es)" using v(2) ba by (intro list_nodes_append) auto
  ultimately have "list_wf ?s (Addr b) (b # as) (e # es) bs'"
    using tl bd w(4) so1(3) ar(1) unfolding list_wf_def by auto
  moreover have "same_outside (insert (data_addr s) (blks bs)) s ?s"
    using same_outside_trans [OF s1(3) so2] by (rule same_outside_mono) (use ar(1) node_words [of b] in auto)
  ultimately show ?thesis using run ar by blast
qed

lemma list_wf_pop:
  assumes "list_wf s p (a # as) (e # es) bs" "words s l = Some (TPtr p)" "l \<notin> insert (data_addr s) (blks bs \<union> node_area (a # as))"
  shows "\<exists>q s'. sl_pop s l = Some (e, s') \<and> words s' l = Some (TPtr q) \<and> list_wf s' q as es ((a, sizeof_list) # bs) \<and>
    same_outside (insert l (insert (data_addr s) (tblk a 16))) s s'"
proof -
  have n: "unat sizeof_list = 16" by (simp add: sizeof_list_def)
  have w: "talloc_at s bs" "p = Addr a" "slist (words s) (list_tail a) as" "list_nodes (words s) (a # as) (e # es)"
    "node_area (a # as) \<inter> insert (data_addr s) (blks bs) = {}"
    using assms(1) by (simp_all add: list_wf_def)
  obtain q where q: "words s (list_tail a) = Some (TPtr q)" "vlist (words s) q as" using w(3) by (rule slistE)
  have e: "words s a = Some (TPtr e)" "blk_ok (words s) a 16" "list_nodes (words s) as es" "tblk a 16 \<inter> node_area as = {}"
  proof -
    have "a \<notin> set as" using slist_fresh [OF w(3)] by simp
    then show "words s a = Some (TPtr e)" "blk_ok (words s) a 16" "list_nodes (words s) as es" "tblk a 16 \<inter> node_area as = {}"
      using w(4) unfolding list_nodes_def node_area_def by auto
  qed
  let ?s1 = "s\<lparr>words := (words s)(l \<mapsto> TPtr q)\<rparr>"
  have so1: "same_outside {l} s ?s1" using put_word_ok(2) [of l s "{l}"] assms(2) by auto
  have t1: "talloc_at ?s1 bs" by (rule talloc_at_outside [OF w(1) so1]) (use assms(3) in auto)
  have b1: "blk_ok (words ?s1) a (unat sizeof_list)" using blk_ok_cong [OF e(2) same_outsideD(2) [OF so1]] n by simp
  have "tblk a (unat sizeof_list) \<inter> insert (data_addr ?s1) (blks bs) = {}" using w(5) n by auto
  from tfree_ok [OF t1 b1 this] obtain s2 where s2: "tfree ?s1 sizeof_list a = Some s2" "talloc_at s2 ((a, sizeof_list) # bs)"
    "same_outside (insert (data_addr s) (tblk a 16)) ?s1 s2" using n by auto
  have run: "sl_pop s l = Some (e, s2)"
    using assms(2) w(2) e(1) q(1) s2(1) by (simp add: sl_pop_def get_tptr_eq put_word_def)
  have l2: "words s2 l = Some (TPtr q)" using same_outsideD(1) [OF s2(3), of l] assms(3) by simp
  have same: "words s2 x = words s x" if "x \<in> node_area as" for x
  proof -
    have "words s2 x = words ?s1 x" using that w(5) e(4) by (intro same_outsideD(1) [OF s2(3)]) auto
    also have "\<dots> = words s x" using that assms(3) by auto
    finally show ?thesis .
  qed
  have d2: "dom (words s2) = dom (words s)" using same_outsideD(2) [OF s2(3)] same_outsideD(2) [OF so1] by simp
  note v = area_cong [OF same d2 q(2) e(3)]
  moreover have "data_addr s2 = data_addr s" using same_outsideD(3) [OF s2(3)] by simp
  ultimately have "list_wf s2 q as es ((a, sizeof_list) # bs)" using s2(2) w(5) e(4) n unfolding list_wf_def by auto
  moreover have "same_outside (insert l (insert (data_addr s) (tblk a 16))) s s2"
    using same_outside_trans [OF so1 s2(3)] by (simp add: insert_commute)
  ultimately show ?thesis using run l2 by blast
qed

lemma list_wf_append:
  assumes "list_wf s p as es bs" "words s l = Some (TPtr p)" "l \<notin> insert (data_addr s) (blks bs \<union> node_area (as @ cs))"
    and "list_wf s q cs fs bs" "node_area as \<inter> node_area cs = {}"
  shows "\<exists>r s'. sl_append s l q = Some s' \<and> words s' l = Some (TPtr r) \<and> list_wf s' r (as @ cs) (es @ fs) bs \<and>
    same_outside (insert l (list_links as)) s s'"
proof -
  have w: "vlist (words s) p as" "list_nodes (words s) as es" "node_area as \<inter> insert (data_addr s) (blks bs) = {}"
    "vlist (words s) q cs" "list_nodes (words s) cs fs" "node_area cs \<inter> insert (data_addr s) (blks bs) = {}"
    using assms by (simp_all add: list_wf_def)
  have "slist (words s) l as" using assms(2) w(1) by (rule slistI)
  moreover have "insert l (list_links as) \<inter> list_links cs = {}" using assms(3,5) links_area(1) [of as] links_area(1) [of cs] by auto
  ultimately obtain s' where s': "sl_append s l q = Some s'" "slist (words s') l (as @ cs)" "same_outside (insert l (list_links as)) s s'"
    using append_ok [OF _ w(4)] by blast
  note so = same_outsideD [OF s'(3)]
  have "list_nodes (words s) (as @ cs) (es @ fs)" by (rule list_nodes_append [OF w(2,5) assms(5)])
  moreover have "set (as @ cs) \<inter> insert l (list_links as) = {}"
    using heads_links [OF w(2)] links_area(1) [of as] links_area(2) [of as] links_area(2) [of cs] assms(3,5) by auto
  ultimately have n: "list_nodes (words s') (as @ cs) (es @ fs)"
    by (intro list_nodes_cong [OF _ so(1,2)]) auto
  obtain r where r: "words s' l = Some (TPtr r)" "vlist (words s') r (as @ cs)" using s'(2) by (rule slistE)
  have "list_wf s' r (as @ cs) (es @ fs) bs"
    by (rule list_wf_write [OF assms(1) s'(3) r(2) n]) (use w(3,6) assms(3) links_area(1) [of as] in auto)
  with s' r show ?thesis by blast
qed

lemma list_wf_rev_append:
  assumes "list_wf s p as es bs" "words s l = Some (TPtr q)" "l \<notin> insert (data_addr s) (blks bs \<union> node_area (as @ cs))"
    and "list_wf s q cs fs bs" "node_area as \<inter> node_area cs = {}"
  shows "\<exists>r s'. sl_rev_append s p l = Some s' \<and> words s' l = Some (TPtr r) \<and> list_wf s' r (rev as @ cs) (rev es @ fs) bs \<and>
    same_outside (insert l (list_links as)) s s'"
proof -
  have w: "vlist (words s) p as" "list_nodes (words s) as es" "node_area as \<inter> insert (data_addr s) (blks bs) = {}"
    "vlist (words s) q cs" "list_nodes (words s) cs fs" "node_area cs \<inter> insert (data_addr s) (blks bs) = {}"
    using assms by (simp_all add: list_wf_def)
  have "slist (words s) l cs" using assms(2) w(4) by (rule slistI)
  moreover have "list_links as \<inter> insert l (list_links cs) = {}" using assms(3,5) links_area(1) [of as] links_area(1) [of cs] by auto
  ultimately obtain s' where s': "sl_rev_append s p l = Some s'" "slist (words s') l (rev as @ cs)" "same_outside (insert l (list_links as)) s s'"
    unfolding sl_rev_append_def Let_def using rev_append_loop_ok [OF w(1)] by blast
  note so = same_outsideD [OF s'(3)]
  have "list_nodes (words s) (rev as @ cs) (rev es @ fs)"
    using list_nodes_perm [OF w(2)] w(5) assms(5) by (intro list_nodes_append) simp_all
  moreover have "set (rev as @ cs) \<inter> insert l (list_links as) = {}"
    using heads_links [OF w(2)] links_area(1) [of as] links_area(2) [of as] links_area(2) [of cs] assms(3,5) by auto
  ultimately have n: "list_nodes (words s') (rev as @ cs) (rev es @ fs)"
    by (intro list_nodes_cong [OF _ so(1,2)]) auto
  obtain r where r: "words s' l = Some (TPtr r)" "vlist (words s') r (rev as @ cs)" using s'(2) by (rule slistE)
  have "list_wf s' r (rev as @ cs) (rev es @ fs) bs"
    by (rule list_wf_write [OF assms(1) s'(3) r(2) n]) (use w(3,6) assms(3) links_area(1) [of as] in auto)
  with s' r show ?thesis by blast
qed

text \<open>The integers that the elements of a list point to.\<close>

definition elem_vals :: "(nat, 'k tword) heap \<Rightarrow> nat ptr list \<Rightarrow> u64 list \<Rightarrow> bool" where
  "elem_vals w es vs = list_all2 (\<lambda>e v. \<exists>x. e = Addr x \<and> w x = Some (TSize v)) es vs"

lemma member_list_ok:
  assumes "slist (words s) l as" "list_all2 (\<lambda>a e. words s a = Some (TPtr e)) as es" "elem_vals (words s) es vs"
  shows "sl_member s l k = Some (k \<in> set vs)"
  using assms
proof (induction as arbitrary: l es vs)
  case Nil
  then show ?case by (subst sl_member.simps) (auto simp: elem_vals_def get_tptr_eq)
next
  case (Cons a as)
  then obtain e es' where e: "es = e # es'" "words s a = Some (TPtr e)" "list_all2 (\<lambda>a e. words s a = Some (TPtr e)) as es'"
    by (auto simp: list_all2_Cons1)
  then obtain x v vs' where v: "vs = v # vs'" "e = Addr x" "words s x = Some (TSize v)" "elem_vals (words s) es' vs'"
    using Cons.prems(3) by (auto simp: elem_vals_def list_all2_Cons1)
  have l: "words s l = Some (TPtr (Addr a))" "slist (words s) (list_tail a) as" using Cons.prems(1) by simp_all
  show ?case using Cons.IH [OF l(2) e(3) v(4)] e v l
    by (subst sl_member.simps) (auto simp: get_tptr_eq get_tsize_def)
qed

section \<open>A variable of the type \<open>list_t\<close>\<close>

text \<open>
  The word \<open>l\<close> has the list with the nodes \<open>as\<close> and the elements \<open>es\<close>; \<open>cs\<close> are words of the caller, outside of the list and
  of the allocator.
\<close>

definition list_var :: "'k tmem \<Rightarrow> nat \<Rightarrow> nat list \<Rightarrow> nat ptr list \<Rightarrow> (nat \<times> u64) list \<Rightarrow> (nat, 'k tword) heap \<Rightarrow> bool" where
  "list_var s l as es bs cs \<longleftrightarrow> words s l = Some (TPtr (first_ptr as)) \<and> list_wf s (first_ptr as) as es bs \<and> cs \<subseteq>\<^sub>m words s \<and>
     insert l (dom cs) \<inter> insert (data_addr s) (blks bs \<union> node_area as) = {} \<and> l \<notin> dom cs"

lemma map_le_outside:
  assumes "cs \<subseteq>\<^sub>m words s" "same_outside A s s'" "dom cs \<inter> A = {}"
  shows "cs \<subseteq>\<^sub>m words s'"
  unfolding map_le_def
proof
  fix x assume x: "x \<in> dom cs"
  then have "words s' x = words s x" using assms(3) by (intro same_outsideD(1) [OF assms(2)]) blast
  then show "cs x = words s' x" using assms(1) x by (simp add: map_le_def)
qed

lemma list_varI:
  assumes "words s l = Some (TPtr p)" "list_wf s p as es bs" "cs \<subseteq>\<^sub>m words s"
    "insert l (dom cs) \<inter> insert (data_addr s) (blks bs \<union> node_area as) = {}" "l \<notin> dom cs"
  shows "list_var s l as es bs cs"
proof -
  have "p = first_ptr as" using assms(2) vlist_first by (auto simp: list_wf_def)
  then show ?thesis using assms by (simp add: list_var_def)
qed

lemma list_varD:
  assumes "list_var s l as es bs cs"
  shows "words s l = Some (TPtr (first_ptr as))" "list_wf s (first_ptr as) as es bs" "cs \<subseteq>\<^sub>m words s"
    "insert l (dom cs) \<inter> insert (data_addr s) (blks bs \<union> node_area as) = {}" "l \<notin> dom cs"
  using assms by (simp_all add: list_var_def)

text \<open>The assignment of a list to the variable.\<close>

lemma list_var_assign:
  assumes "list_wf s q as es bs" "cs \<subseteq>\<^sub>m words s" "insert l (dom cs) \<inter> insert (data_addr s) (blks bs \<union> node_area as) = {}"
    and "l \<notin> dom cs" "l \<in> dom (words s)"
  shows "\<exists>s'. put_word s l (TPtr q) = Some s' \<and> list_var s' l as es bs cs"
proof -
  let ?s = "s\<lparr>words := (words s)(l \<mapsto> TPtr q)\<rparr>"
  note w = put_word_ok(1) [OF assms(5), of "TPtr q"] put_word_ok(2) [OF assms(5) singletonI, of "TPtr q"]
  have n: "vlist (words s) q as" "list_nodes (words s) as es" "node_area as \<inter> insert (data_addr s) (blks bs) = {}"
    using assms(1) by (simp_all add: list_wf_def)
  have same: "words ?s x = words s x" if "x \<in> node_area as" for x
    by (rule same_outsideD(1) [OF w(2)]) (use that assms(3) in auto)
  have "list_wf ?s q as es bs"
    by (rule list_wf_write [OF assms(1) w(2) area_cong [OF same same_outsideD(2) [OF w(2)] n(1,2)] n(3)]) (use assms(3) in auto)
  moreover have "cs \<subseteq>\<^sub>m words ?s" by (rule map_le_outside [OF assms(2) w(2)]) (use assms(4) in auto)
  ultimately have "list_var ?s l as es bs cs" using assms(3,4) by (intro list_varI [where p = q]) auto
  with w(1) show ?thesis by blast
qed

lemma list_var_push:
  assumes "list_var s l as es bs cs" "first_fit sizeof_list bs = Some (b, bs')"
  shows "\<exists>p s1 s2. get_tptr s l = Some p \<and> sl_push s p e = Some (Addr b, s1) \<and> put_word s1 l (TPtr (Addr b)) = Some s2 \<and>
    list_var s2 l (b # as) (e # es) bs' cs"
proof -
  note v = list_varD [OF assms(1)]
  from list_wf_push [OF v(2) assms(2)] obtain s1 where s1: "sl_push s (first_ptr as) e = Some (Addr b, s1)"
    "list_wf s1 (Addr b) (b # as) (e # es) bs'"
    "tblk b 16 \<union> blks bs' = blks bs" "same_outside (insert (data_addr s) (blks bs)) s s1" by blast
  note so = same_outsideD [OF s1(4)]
  have "cs \<subseteq>\<^sub>m words s1" by (rule map_le_outside [OF v(3) s1(4)]) (use v(4) in auto)
  moreover have "insert l (dom cs) \<inter> insert (data_addr s1) (blks bs' \<union> node_area (b # as)) = {}" using v(4) s1(3) so(3) by auto
  moreover have "l \<in> dom (words s1)" using so(2) v(1) by auto
  ultimately show ?thesis using list_var_assign [OF s1(2) _ _ v(5)] v(1) s1(1) by (metis get_tptr_eq)
qed

lemma list_var_reverse:
  assumes "list_var s l as es bs cs"
  shows "\<exists>p q s1 s2. get_tptr s l = Some p \<and> sl_reverse s p = Some (q, s1) \<and> put_word s1 l (TPtr q) = Some s2 \<and>
    list_var s2 l (rev as) (rev es) bs cs"
proof -
  note v = list_varD [OF assms(1)]
  from list_wf_reverse [OF v(2)] obtain q s1 where s1: "sl_reverse s (first_ptr as) = Some (q, s1)" "list_wf s1 q (rev as) (rev es) bs"
    "same_outside (list_links as) s s1" by blast
  note so = same_outsideD [OF s1(3)]
  have "cs \<subseteq>\<^sub>m words s1" by (rule map_le_outside [OF v(3) s1(3)]) (use v(4) links_area(1) [of as] in auto)
  moreover have "insert l (dom cs) \<inter> insert (data_addr s1) (blks bs \<union> node_area (rev as)) = {}" using v(4) so(3) by auto
  moreover have "l \<in> dom (words s1)" using so(2) v(1) by auto
  ultimately show ?thesis using list_var_assign [OF s1(2) _ _ v(5)] v(1) s1(1) by (metis get_tptr_eq)
qed

lemma list_var_pop:
  assumes "list_var s l (a # as) (e # es) bs cs"
  shows "\<exists>s'. sl_pop s l = Some (e, s') \<and> list_var s' l as es ((a, sizeof_list) # bs) cs"
proof -
  note v = list_varD [OF assms]
  have n: "unat sizeof_list = 16" by (simp add: sizeof_list_def)
  from list_wf_pop [OF v(2,1)] v(4) obtain q s' where s': "sl_pop s l = Some (e, s')" "words s' l = Some (TPtr q)"
    "list_wf s' q as es ((a, sizeof_list) # bs)" "same_outside (insert l (insert (data_addr s) (tblk a 16))) s s'" by blast
  have "cs \<subseteq>\<^sub>m words s'" by (rule map_le_outside [OF v(3) s'(4)]) (use v(4,5) in auto)
  moreover have "insert l (dom cs) \<inter> insert (data_addr s') (blks ((a, sizeof_list) # bs) \<union> node_area as) = {}"
    using v(4) same_outsideD(3) [OF s'(4)] n by auto
  ultimately show ?thesis using list_varI [OF s'(2,3) _ _ v(5)] s'(1) by blast
qed

lemma list_var_empty:
  assumes "list_var s l as es bs cs"
  shows "sl_is_empty s l = Some (es = [])" "es = [] \<Longrightarrow> sl_pop s l = Some (NULL, s)" "es = [] \<longleftrightarrow> as = []"
proof -
  note v = list_varD [OF assms]
  have "list_all2 (\<lambda>a e. words s a = Some (TPtr e)) as es" using v(2) by (simp add: list_wf_def list_nodes_def)
  then show e: "es = [] \<longleftrightarrow> as = []" by auto
  show "sl_is_empty s l = Some (es = [])" unfolding e sl_is_empty_def using v(1) by (cases as) (auto simp: get_tptr_eq first_ptr_def)
  show "es = [] \<Longrightarrow> sl_pop s l = Some (NULL, s)" unfolding e sl_pop_def using v(1) by (auto simp: get_tptr_eq first_ptr_def)
qed

text \<open>A second list, joined to the one of the variable.\<close>

lemma list_var_joins:
  assumes "list_var s l as es bs cs" "list_wf s q xs fs bs" "insert l (dom cs \<union> node_area as) \<inter> node_area xs = {}"
  shows "\<exists>s'. sl_append s l q = Some s' \<and> list_var s' l (as @ xs) (es @ fs) bs cs"
    and "\<exists>s'. sl_rev_append s q l = Some s' \<and> list_var s' l (rev xs @ as) (rev fs @ es) bs cs"
proof -
  note v = list_varD [OF assms(1)]
  have d: "l \<notin> insert (data_addr s) (blks bs \<union> node_area (as @ xs))" "l \<notin> insert (data_addr s) (blks bs \<union> node_area (xs @ as))"
    "node_area as \<inter> node_area xs = {}" "node_area xs \<inter> node_area as = {}"
    using v(4) assms(3) by auto
  have frame: "cs \<subseteq>\<^sub>m words s' \<and> insert l (dom cs) \<inter> insert (data_addr s') (blks bs \<union> node_area (as @ xs)) = {}"
    if so: "same_outside (insert l (list_links ys)) s s'" and ys: "ys = as \<or> ys = xs" for s' ys
  proof
    show "cs \<subseteq>\<^sub>m words s'"
      by (rule map_le_outside [OF v(3) so]) (use v(4,5) assms(3) ys links_area(1) [of ys] in auto)
    show "insert l (dom cs) \<inter> insert (data_addr s') (blks bs \<union> node_area (as @ xs)) = {}"
      using v(4) assms(3) same_outsideD(3) [OF so] by auto
  qed
  from list_wf_append [OF v(2,1) d(1) assms(2) d(3)] obtain r s' where a: "sl_append s l q = Some s'" "words s' l = Some (TPtr r)"
    "list_wf s' r (as @ xs) (es @ fs) bs" "same_outside (insert l (list_links as)) s s'" by blast
  have "list_var s' l (as @ xs) (es @ fs) bs cs" using frame [OF a(4)] v(5) by (intro list_varI [OF a(2,3)]) simp_all
  with a(1) show "\<exists>s'. sl_append s l q = Some s' \<and> list_var s' l (as @ xs) (es @ fs) bs cs" by blast
  from list_wf_rev_append [OF assms(2) v(1) d(2) v(2) d(4)] obtain r s' where a: "sl_rev_append s q l = Some s'" "words s' l = Some (TPtr r)"
    "list_wf s' r (rev xs @ as) (rev fs @ es) bs" "same_outside (insert l (list_links xs)) s s'" by blast
  have "list_var s' l (rev xs @ as) (rev fs @ es) bs cs"
    using frame [OF a(4)] v(5) by (intro list_varI [OF a(2,3)]) (simp_all add: Un_commute)
  with a(1) show "\<exists>s'. sl_rev_append s q l = Some s' \<and> list_var s' l (rev xs @ as) (rev fs @ es) bs cs" by blast
qed

lemma list_var_length:
  assumes "list_var s l as es bs cs"
  shows "sl_length s l = Some (of_nat (length es))" "sl_length_val s (first_ptr as) = Some (of_nat (length es))"
    "sl_length_val_rec s (first_ptr as) = Some (of_nat (length es))"
proof -
  note v = list_varD [OF assms]
  have w: "vlist (words s) (first_ptr as) as" "length as = length es"
    using v(2) by (auto simp: list_wf_def list_nodes_def dest: list_all2_lengthD)
  then show "sl_length s l = Some (of_nat (length es))" "sl_length_val s (first_ptr as) = Some (of_nat (length es))"
    "sl_length_val_rec s (first_ptr as) = Some (of_nat (length es))"
    using length_loops_ok(1) [OF slistI [OF v(1) w(1)]] length_loops_ok(2,3) [OF w(1)] by (simp_all add: sl_length_def sl_length_val_def)
qed

text \<open>Elements that are words of the caller.\<close>

lemma list_var_member:
  assumes "list_var s l as es bs cs" "elem_vals cs es vs"
  shows "sl_member s l k = Some (k \<in> set vs)"
proof -
  note v = list_varD [OF assms(1)]
  have "slist (words s) l as" using v(1,2) by (auto simp: list_wf_def intro: slistI)
  moreover have "elem_vals (words s) es vs"
    using assms(2) v(3) unfolding elem_vals_def by (elim list_all2_mono) (auto simp: map_le_def dom_def)
  moreover have "list_all2 (\<lambda>a e. words s a = Some (TPtr e)) as es" using v(2) unfolding list_wf_def list_nodes_def by blast
  ultimately show ?thesis by (intro member_list_ok)
qed

text \<open>Memory that the caller gets from the allocator, and writes to its words.\<close>

lemma list_var_alloc:
  assumes "list_var s l as es bs cs" "first_fit 8 bs = Some (b, bs')"
  shows "\<exists>s' v. talloc s 8 = Some (b, s') \<and> list_var s' l as es bs' (cs(b \<mapsto> v)) \<and> b \<notin> dom cs"
proof -
  note v = list_varD [OF assms(1)]
  have t: "talloc_at s bs" "vlist (words s) (first_ptr as) as" "list_nodes (words s) as es" "node_area as \<inter> insert (data_addr s) (blks bs) = {}"
    using v(2) by (simp_all add: list_wf_def)
  obtain p where p: "free_list (words s) p bs" "data_addr s \<notin> blks bs" using t(1) by (auto simp: talloc_at_def)
  from talloc_ok [OF t(1) assms(2)] obtain s' where s': "talloc s 8 = Some (b, s')" "talloc_at s' bs'"
    "same_outside (insert (data_addr s) (blks bs)) s s'" by auto
  note so = same_outsideD [OF s'(3)]
  have "unat (8 :: u64) = 8" by simp
  with first_fit_split [OF p(1) assms(2)]
  have ar: "tblk b 8 \<union> blks bs' = blks bs" "tblk b 8 \<inter> blks bs' = {}" "tblk b 8 \<subseteq> dom (words s)" by auto
  moreover have "b \<in> tblk b 8" by (simp add: tblk_def)
  ultimately have b: "b \<in> blks bs" "b \<notin> blks bs'" "b \<in> dom (words s')" using so(2) by blast+
  then obtain w where w: "words s' b = Some w" by blast
  have "cs \<subseteq>\<^sub>m words s'" by (rule map_le_outside [OF v(3) s'(3)]) (use v(4) in auto)
  then have "cs(b \<mapsto> w) \<subseteq>\<^sub>m words s'" using w by (simp add: map_le_def)
  moreover have "words s' l = Some (TPtr (first_ptr as))" using so(1) [of l] v(1,4) by simp
  moreover have "words s' x = words s x" if "x \<in> node_area as" for x by (rule so(1)) (use that t(4) in auto)
  then have "list_wf s' (first_ptr as) as es bs'"
    using area_cong [OF _ so(2) t(2,3)] s'(2) t(4) so(3) ar(1) unfolding list_wf_def by auto
  ultimately have "list_var s' l as es bs' (cs(b \<mapsto> w))"
    using v(4,5) b(1,2) ar(1) p(2) t(4) so(3) unfolding list_var_def by auto
  with s'(1) v(4) b(1) show ?thesis by blast
qed

lemma list_var_poke:
  assumes "list_var s l as es bs cs" "x \<in> dom cs"
  shows "\<exists>s'. put_word s x v = Some s' \<and> list_var s' l as es bs (cs(x \<mapsto> v))"
proof -
  note d = list_varD [OF assms(1)]
  have "x \<in> dom (words s)" using d(3) assms(2) by (auto simp: map_le_def dom_def)
  note w = put_word_ok(1) [OF this, of v] put_word_ok(2) [OF this singletonI, of v]
  let ?s = "s\<lparr>words := (words s)(x \<mapsto> v)\<rparr>"
  have x: "x \<noteq> l" "x \<noteq> data_addr s" "x \<notin> blks bs" "x \<notin> node_area as" using d(4,5) assms(2) by auto
  have n: "vlist (words s) (first_ptr as) as" "list_nodes (words s) as es" "node_area as \<inter> insert (data_addr s) (blks bs) = {}"
    using d(2) by (simp_all add: list_wf_def)
  have same: "words ?s y = words s y" if "y \<in> node_area as" for y using that x(4) by auto
  have "list_wf ?s (first_ptr as) as es bs"
    by (rule list_wf_write [OF d(2) w(2) area_cong [OF same same_outsideD(2) [OF w(2)] n(1,2)] n(3)]) (use x in auto)
  moreover have "cs(x \<mapsto> v) \<subseteq>\<^sub>m words ?s" using d(3) by (simp add: map_le_def)
  ultimately have "list_var ?s l as es bs (cs(x \<mapsto> v))" using d(1,4,5) x assms(2) unfolding list_var_def by auto
  with w(1) show ?thesis by blast
qed

section \<open>The type of the operations\<close>

text \<open>
  C28. Every operation of \<open>t03_list.c\<close> keeps the type \<open>list_t\<close>. With a variable \<open>l\<close> that has the elements \<open>es\<close>:
  the result of \<open>init\<close> makes it the empty list; \<open>is_empty\<close> tells whether there are none; \<open>push\<close> returns exactly when the allocator has room for a node, and puts the element in front;
  \<open>pop\<close> gives the first element and frees its node, and gives \<open>NULL\<close> and changes nothing when the list is empty; \<open>reverse\<close> reverses; \<open>length\<close>,
  \<open>length_val\<close> and the recursive \<open>length_val_rec\<close> agree on the number of elements (modulo \<open>2\<^sup>6\<^sup>4\<close>); \<open>member\<close>, on elements that point to
  integers \<open>vs\<close> of the caller, tells whether the given one is among them; \<open>append\<close> puts a second list, given by its pointer \<open>q\<close>, behind the list of the variable,
  and \<open>rev_append\<close> puts it in front in the opposite order. Each of them returns, \<open>push\<close> only when there is room, the list stays well formed
  and disjoint from the allocator's memory, and no word \<open>cs\<close> of the caller changes.
\<close>

theorem list_t_typing:
  assumes "list_var s l as es bs cs"
  shows "(\<exists>s'. put_word s l (TPtr sl_init_list) = Some s' \<and> list_var s' l [] [] bs cs) \<and>
    sl_is_empty s l = Some (es = []) \<and>
    (case first_fit sizeof_list bs of
       None \<Rightarrow> sl_push s (first_ptr as) e = None
     | Some (b, bs') \<Rightarrow> \<exists>s1 s2. sl_push s (first_ptr as) e = Some (Addr b, s1) \<and> put_word s1 l (TPtr (Addr b)) = Some s2 \<and>
         list_var s2 l (b # as) (e # es) bs' cs) \<and>
    (case es of
       [] \<Rightarrow> sl_pop s l = Some (NULL, s)
     | x # xs \<Rightarrow> \<exists>s'. sl_pop s l = Some (x, s') \<and> list_var s' l (tl as) xs ((hd as, sizeof_list) # bs) cs) \<and>
    (\<exists>q s1 s2. sl_reverse s (first_ptr as) = Some (q, s1) \<and> put_word s1 l (TPtr q) = Some s2 \<and> list_var s2 l (rev as) (rev es) bs cs) \<and>
    sl_length s l = Some (of_nat (length es)) \<and> sl_length_val s (first_ptr as) = sl_length s l \<and>
    sl_length_val_rec s (first_ptr as) = sl_length s l \<and>
    (\<forall>vs k. elem_vals cs es vs \<longrightarrow> sl_member s l k = Some (k \<in> set vs)) \<and>
    (\<forall>q xs fs. list_wf s q xs fs bs \<and> insert l (dom cs \<union> node_area as) \<inter> node_area xs = {} \<longrightarrow>
      (\<exists>s'. sl_append s l q = Some s' \<and> list_var s' l (as @ xs) (es @ fs) bs cs) \<and>
      (\<exists>s'. sl_rev_append s q l = Some s' \<and> list_var s' l (rev xs @ as) (rev fs @ es) bs cs))"
proof (intro conjI allI impI)
  note v = list_varD [OF assms] and g = get_tptr_eq [OF list_varD(1) [OF assms]]
  have "list_wf s NULL [] [] bs" using v(2) by (simp add: list_wf_def list_nodes_def)
  then show "\<exists>s'. put_word s l (TPtr sl_init_list) = Some s' \<and> list_var s' l [] [] bs cs" unfolding sl_init_list_def
    by (rule list_var_assign) (use v(1,3-5) in auto)
  show "sl_is_empty s l = Some (es = [])" by (rule list_var_empty [OF assms])
  have "talloc_at s bs" using v(2) by (simp add: list_wf_def)
  then show "case first_fit sizeof_list bs of
       None \<Rightarrow> sl_push s (first_ptr as) e = None
     | Some (b, bs') \<Rightarrow> \<exists>s1 s2. sl_push s (first_ptr as) e = Some (Addr b, s1) \<and> put_word s1 l (TPtr (Addr b)) = Some s2 \<and>
         list_var s2 l (b # as) (e # es) bs' cs"
    using talloc_waits [of s bs sizeof_list] list_var_push [OF assms] g by (auto simp: sl_push_def split: option.split)
  show "case es of [] \<Rightarrow> sl_pop s l = Some (NULL, s)
     | x # xs \<Rightarrow> \<exists>s'. sl_pop s l = Some (x, s') \<and> list_var s' l (tl as) xs ((hd as, sizeof_list) # bs) cs"
  proof (cases es)
    case (Cons x xs)
    then obtain a as' where "as = a # as'" using list_var_empty(3) [OF assms] by (cases as) auto
    then show ?thesis using list_var_pop [of s l a as' x xs bs cs] assms Cons by simp
  qed (use list_var_empty(2) [OF assms] in simp)
  show "\<exists>q s1 s2. sl_reverse s (first_ptr as) = Some (q, s1) \<and> put_word s1 l (TPtr q) = Some s2 \<and> list_var s2 l (rev as) (rev es) bs cs"
    using list_var_reverse [OF assms] g by auto
  show "sl_member s l k = Some (k \<in> set vs)" if "elem_vals cs es vs" for vs k by (rule list_var_member [OF assms that])
  fix q xs fs assume q: "list_wf s q xs fs bs \<and> insert l (dom cs \<union> node_area as) \<inter> node_area xs = {}"
  note j = list_var_joins [OF assms conjunct1 [OF q] conjunct2 [OF q]]
  show "\<exists>s'. sl_append s l q = Some s' \<and> list_var s' l (as @ xs) (es @ fs) bs cs" by (rule j(1))
  show "\<exists>s'. sl_rev_append s q l = Some s' \<and> list_var s' l (rev xs @ as) (rev fs @ es) bs cs" by (rule j(2))
qed (use list_var_length [OF assms] in simp_all)

text \<open>A memory with a free block of 64 bytes and the variable \<open>list\<close>, which is empty, at the address 96.\<close>

definition demo_list :: "'k tmem" where
  "demo_list = demo_tmem\<lparr>words := demo_words(96 \<mapsto> TPtr NULL)\<rparr>"

lemma demo_list_var: "list_var demo_list 96 [] [] [(16, 64)] Map.empty"
  by (auto simp: list_var_def list_wf_def talloc_at_def list_nodes_def first_ptr_def demo_list_def demo_tmem_def demo_words_def
      blk_ok_def tblk_def ae_next_def dom_def)

text \<open>The nodes at 112 and 128 with the integers at 144 and 152: one in the list of the variable, one in the other list.\<close>

definition demo_cells :: "(nat, 'k tword) heap" where
  "demo_cells = [144 \<mapsto> TSize 7, 152 \<mapsto> TSize 9]"

definition demo_lists :: "'k tmem" where
  "demo_lists = demo_tmem\<lparr>words := (\<lambda>x. if x = 96 then Some (TPtr (Addr 112)) else if x = 112 then Some (TPtr (Addr 144))
     else if x = 120 then Some (TPtr NULL) else if x = 128 then Some (TPtr (Addr 152)) else if x = 136 then Some (TPtr NULL)
     else if x = 144 then Some (TSize 7) else if x = 152 then Some (TSize 9)
     else if 112 \<le> x \<and> x < 144 then Some TUninit else demo_words x)\<rparr>"

lemma demo_lists_var:
  "list_var demo_lists 96 [112] [Addr 144] [(16, 64)] demo_cells" "list_wf demo_lists (Addr 128) [128] [Addr 152] [(16, 64)]"
  by (auto simp: list_var_def list_wf_def talloc_at_def list_nodes_def first_ptr_def demo_lists_def demo_tmem_def demo_words_def
      demo_cells_def blk_ok_def tblk_def ae_next_def list_tail_def dom_def map_le_def)

theorem list_t_typing_witness:
  "(\<exists>s1 s2. sl_push (demo_list :: nat tmem) NULL (Addr 5) = Some (Addr 64, s1) \<and> put_word s1 96 (TPtr (Addr 64)) = Some s2 \<and>
     list_var s2 96 [64] [Addr 5] [(16, 48)] Map.empty) \<and>
   sl_member (demo_lists :: nat tmem) 96 7 = Some True \<and>
   (\<exists>s'. sl_append (demo_lists :: nat tmem) 96 (Addr 128) = Some s' \<and> list_var s' 96 [112, 128] [Addr 144, Addr 152] [(16, 64)] demo_cells)"
proof (intro conjI)
  have "first_fit sizeof_list [(16, 64)] = Some (64, [(16, 48)])" by (simp add: sizeof_list_def)
  then show "\<exists>s1 s2. sl_push (demo_list :: nat tmem) NULL (Addr 5) = Some (Addr 64, s1) \<and> put_word s1 96 (TPtr (Addr 64)) = Some s2 \<and>
     list_var s2 96 [64] [Addr 5] [(16, 48)] Map.empty"
    using list_t_typing [OF demo_list_var, of "Addr 5"] by (auto simp: first_ptr_def simp del: first_fit.simps)
  note t = list_t_typing [OF demo_lists_var(1), where 'a = nat]
  have "elem_vals (demo_cells :: (nat, nat tword) heap) [Addr 144] [7]" by (simp add: elem_vals_def demo_cells_def)
  then show "sl_member (demo_lists :: nat tmem) 96 7 = Some True" using t by simp
  have d: "insert 96 (dom (demo_cells :: (nat, nat tword) heap) \<union> node_area [112]) \<inter> node_area [128] = {}"
    by (auto simp: demo_cells_def tblk_def)
  have "\<exists>s'. sl_append (demo_lists :: nat tmem) 96 (Addr 128) = Some s' \<and>
      list_var s' 96 ([112] @ [128]) ([Addr 144] @ [Addr 152]) [(16, 64)] demo_cells"
    using t demo_lists_var(2) d by blast
  then show "\<exists>s'. sl_append (demo_lists :: nat tmem) 96 (Addr 128) = Some s' \<and>
      list_var s' 96 [112, 128] [Addr 144, Addr 152] [(16, 64)] demo_cells"
    by simp
qed

section \<open>The test\<close>

lemma first_fit_top:
  assumes "m = unat k + r" "16 \<le> r" "m < 2 ^ 64"
  shows "first_fit k [(a, of_nat m)] = Some (a + r, [(a, of_nat r)])"
proof -
  have m: "unat (of_nat m :: u64) = m" "unat (of_nat r :: u64) = r"
    using assms unfolding unsigned_of_nat by (simp_all add: take_bit_nat_eq_self)
  have "unat (k + 16) = unat k + 16" using assms by (intro no_wrap) simp
  then have le: "k + 16 \<le> of_nat m" "of_nat m \<noteq> k" using assms(1,2) m(1) by (auto simp: word_le_nat_alt)
  have "(of_nat m :: u64) - k = of_nat r" unfolding assms(1) by simp
  then show ?thesis using le m(2) by (simp only: first_fit.simps if_True if_False le)
qed

text \<open>The elements: three words of the allocator with the integers 1, 2 and 3.\<close>

lemma sl_test_elems:
  assumes v: "list_var s l [] [] [(a, of_nat n)] Map.empty" and n: "n = m + 24" "16 \<le> m" "n < 2 ^ 64"
  shows "\<exists>s1 s2 s3 s4 s5 s6 cs. talloc s 8 = Some (a + (m + 16), s1) \<and> talloc s1 8 = Some (a + (m + 8), s2) \<and>
    talloc s2 8 = Some (a + m, s3) \<and> sl_is_empty s3 l = Some True \<and> put_word s3 (a + (m + 16)) (TSize 1) = Some s4 \<and>
    put_word s4 (a + (m + 8)) (TSize 2) = Some s5 \<and> put_word s5 (a + m) (TSize 3) = Some s6 \<and>
    list_var s6 l [] [] [(a, of_nat m)] cs \<and> cs (a + (m + 16)) = Some (TSize 1) \<and> cs (a + (m + 8)) = Some (TSize 2) \<and>
    cs (a + m) = Some (TSize 3)"
proof -
  let ?x1 = "a + (m + 16)" and ?x2 = "a + (m + 8)" and ?x3 = "a + m"
  have ff: "first_fit 8 [(a, of_nat n)] = Some (?x1, [(a, of_nat (m + 16))])"
    "first_fit 8 [(a, of_nat (m + 16))] = Some (?x2, [(a, of_nat (m + 8))])"
    "first_fit 8 [(a, of_nat (m + 8))] = Some (?x3, [(a, of_nat m)])"
    by (rule first_fit_top; use n in simp)+
  from list_var_alloc [OF v ff(1)] obtain s1 c1 where
    s1: "talloc s 8 = Some (?x1, s1)" "list_var s1 l [] [] [(a, of_nat (m + 16))] [?x1 \<mapsto> c1]" by blast
  from list_var_alloc [OF s1(2) ff(2)] obtain s2 c2 where
    s2: "talloc s1 8 = Some (?x2, s2)" "list_var s2 l [] [] [(a, of_nat (m + 8))] [?x1 \<mapsto> c1, ?x2 \<mapsto> c2]" by blast
  from list_var_alloc [OF s2(2) ff(3)] obtain s3 c3 where
    s3: "talloc s2 8 = Some (?x3, s3)" "list_var s3 l [] [] [(a, of_nat m)] [?x1 \<mapsto> c1, ?x2 \<mapsto> c2, ?x3 \<mapsto> c3]" by blast
  let ?c = "[?x1 \<mapsto> c1, ?x2 \<mapsto> c2, ?x3 \<mapsto> c3]"
  have dm: "?x1 \<in> dom ?c" "?x2 \<in> dom (?c(?x1 \<mapsto> TSize 1))" "?x3 \<in> dom (?c(?x1 \<mapsto> TSize 1, ?x2 \<mapsto> TSize 2))" by simp_all
  from list_var_poke [OF s3(2) dm(1), of "TSize 1"] obtain s4 where
    s4: "put_word s3 ?x1 (TSize 1) = Some s4" "list_var s4 l [] [] [(a, of_nat m)] (?c(?x1 \<mapsto> TSize 1))" by blast
  from list_var_poke [OF s4(2) dm(2), of "TSize 2"] obtain s5 where
    s5: "put_word s4 ?x2 (TSize 2) = Some s5" "list_var s5 l [] [] [(a, of_nat m)] (?c(?x1 \<mapsto> TSize 1, ?x2 \<mapsto> TSize 2))" by blast
  from list_var_poke [OF s5(2) dm(3), of "TSize 3"] obtain s6 where
    s6: "put_word s5 ?x3 (TSize 3) = Some s6" "list_var s6 l [] [] [(a, of_nat m)] (?c(?x1 \<mapsto> TSize 1, ?x2 \<mapsto> TSize 2, ?x3 \<mapsto> TSize 3))" by blast
  show ?thesis
    by (rule exI [of _ s1], rule exI [of _ s2], rule exI [of _ s3], rule exI [of _ s4], rule exI [of _ s5], rule exI [of _ s6],
        rule exI [of _ "?c(?x1 \<mapsto> TSize 1, ?x2 \<mapsto> TSize 2, ?x3 \<mapsto> TSize 3)"])
      (use s1(1) s2(1) s3(1) list_var_empty(1) [OF s3(2)] s4(1) s5(1) s6 in simp)
qed

lemma sl_test_run:
  assumes A: "talloc_at s [(a, of_nat n)]" and n: "n = m + 72" "16 \<le> m" "n < 2 ^ 64"
    and l: "l \<in> dom (words s)" "l \<notin> insert (data_addr s) (tblk a n)"
  shows "\<exists>s'. sl_test s l = Some s' \<and>
    talloc_at s' [(a + m, 16), (a + (m + 16), 16), (a + (m + 32), 16), (a, of_nat m)]"
proof -
  have u: "unat (of_nat n :: u64) = n" using n(3) by (simp add: unsigned_of_nat take_bit_nat_eq_self)
  have "list_wf s NULL [] [] [(a, of_nat n)]" using A by (simp add: list_wf_def list_nodes_def)
  from list_var_assign [OF this, of Map.empty l] l u obtain s0 where
    s0: "put_word s l (TPtr NULL) = Some s0" "list_var s0 l [] [] [(a, of_nat n)] Map.empty" by auto
  let ?k = "m + 48" and ?b1 = "a + (m + 32)" and ?b2 = "a + (m + 16)" and ?b3 = "a + m"
  let ?x1 = "a + (?k + 16)" and ?x2 = "a + (?k + 8)" and ?x3 = "a + ?k"
  have "n = ?k + 24" "16 \<le> ?k" using n by simp_all
  from sl_test_elems [OF s0(2) this n(3)] obtain s1 s2 s3 s4 s5 s6 cs where
    t: "talloc s0 8 = Some (?x1, s1)" "talloc s1 8 = Some (?x2, s2)" "talloc s2 8 = Some (?x3, s3)" "sl_is_empty s3 l = Some True"
      "put_word s3 ?x1 (TSize 1) = Some s4" "put_word s4 ?x2 (TSize 2) = Some s5" "put_word s5 ?x3 (TSize 3) = Some s6"
      "list_var s6 l [] [] [(a, of_nat ?k)] cs" and cs: "cs ?x1 = Some (TSize 1)" "cs ?x2 = Some (TSize 2)" "cs ?x3 = Some (TSize 3)"
    by (elim exE conjE) (rule that)
  have fn: "first_fit sizeof_list [(a, of_nat (m + 48))] = Some (?b1, [(a, of_nat (m + 32))])"
    "first_fit sizeof_list [(a, of_nat (m + 32))] = Some (?b2, [(a, of_nat (m + 16))])"
    "first_fit sizeof_list [(a, of_nat (m + 16))] = Some (?b3, [(a, of_nat m)])"
    by (rule first_fit_top; use n in \<open>simp add: sizeof_list_def\<close>)+
  from list_var_push [OF t(8) fn(1), of "Addr ?x1"] obtain p1 u1 v1 where
    p1: "get_tptr s6 l = Some p1" "sl_push s6 p1 (Addr ?x1) = Some (Addr ?b1, u1)" "put_word u1 l (TPtr (Addr ?b1)) = Some v1"
      "list_var v1 l [?b1] [Addr ?x1] [(a, of_nat (m + 32))] cs" by blast
  from list_var_push [OF p1(4) fn(2), of "Addr ?x2"] obtain p2 u2 v2 where
    p2: "get_tptr v1 l = Some p2" "sl_push v1 p2 (Addr ?x2) = Some (Addr ?b2, u2)" "put_word u2 l (TPtr (Addr ?b2)) = Some v2"
      "list_var v2 l [?b2, ?b1] [Addr ?x2, Addr ?x1] [(a, of_nat (m + 16))] cs" by blast
  from list_var_push [OF p2(4) fn(3), of "Addr ?x3"] obtain p3 u3 v3 where
    p3: "get_tptr v2 l = Some p3" "sl_push v2 p3 (Addr ?x3) = Some (Addr ?b3, u3)" "put_word u3 l (TPtr (Addr ?b3)) = Some v3"
      "list_var v3 l [?b3, ?b2, ?b1] [Addr ?x3, Addr ?x2, Addr ?x1] [(a, of_nat m)] cs" by blast
  have "elem_vals cs [Addr ?x3, Addr ?x2, Addr ?x1] [3, 2, 1]" using cs by (simp add: elem_vals_def)
  from list_var_member [OF p3(4) this, of 1] have m1: "sl_member v3 l 1 = Some True" by simp
  from list_var_reverse [OF p3(4)] obtain p4 q4 u4 v4 where
    p4: "get_tptr v3 l = Some p4" "sl_reverse v3 p4 = Some (q4, u4)" "put_word u4 l (TPtr q4) = Some v4"
      "list_var v4 l [?b1, ?b2, ?b3] [Addr ?x1, Addr ?x2, Addr ?x3] [(a, of_nat m)] cs" by fastforce
  have "elem_vals cs [Addr ?x1, Addr ?x2, Addr ?x3] [1, 2, 3]" using cs by (simp add: elem_vals_def)
  from list_var_member [OF p4(4) this, of 1] have m2: "sl_member v4 l 1 = Some True" by simp
  from list_var_pop [OF p4(4)] obtain w1 where w1: "sl_pop v4 l = Some (Addr ?x1, w1)"
    "list_var w1 l [?b2, ?b3] [Addr ?x2, Addr ?x3] [(?b1, sizeof_list), (a, of_nat m)] cs" by blast
  from list_var_pop [OF w1(2)] obtain w2 where w2: "sl_pop w1 l = Some (Addr ?x2, w2)"
    "list_var w2 l [?b3] [Addr ?x3] [(?b2, sizeof_list), (?b1, sizeof_list), (a, of_nat m)] cs" by blast
  from list_var_pop [OF w2(2)] obtain w3 where w3: "sl_pop w2 l = Some (Addr ?x3, w3)"
    "list_var w3 l [] [] [(?b3, sizeof_list), (?b2, sizeof_list), (?b1, sizeof_list), (a, of_nat m)] cs" by blast
  have e3: "sl_is_empty w3 l = Some True" using list_var_empty(1) [OF w3(2)] by simp
  have "cs \<subseteq>\<^sub>m words w3" using w3(2) by (simp add: list_var_def)
  then have g: "get_tsize w3 ?x1 = Some 1" "get_tsize w3 ?x2 = Some 2" "get_tsize w3 ?x3 = Some 3"
    using cs by (auto simp: get_tsize_def map_le_def dom_def)
  have tf: "tfree w3 8 x = Some w3" for x by (simp add: tfree_def sizeof_alloc_entry_def)
  have "sl_test s l = Some w3"
    unfolding sl_test_def sl_init_list_def
    by (simp only: s0(1) t p1(1-3) p2(1-3) p3(1-3) p4(1-3) m1 m2 w1(1) w2(1) w3(1) e3 g tf Option.bind.bind_lunit prod.case
        c_assert_True refl deref_Addr)
  moreover have "talloc_at w3 [(?b3, 16), (?b2, 16), (?b1, 16), (a, of_nat m)]"
    using w3(2) by (simp add: list_var_def list_wf_def sizeof_list_def)
  ultimately show ?thesis by blast
qed

section \<open>The program of \<open>t05_main.c\<close>\<close>

text \<open>
  \<open>main\<close> hands the 10000 bytes of \<open>allocator_data\<close>, at the address \<open>d\<close>, to the allocator, releases the latch and runs the test, which
  has its variable at \<open>l\<close>; \<open>main2\<close>, for other threads, waits for the latch first.
\<close>

definition DATA_SIZE :: u64 where
  "DATA_SIZE = 10000"

definition tut_main :: "'k tmem \<Rightarrow> latch \<Rightarrow> nat \<Rightarrow> nat \<Rightarrow> (int \<times> latch \<times> 'k tmem) option" where
  "tut_main s initialized d l = do {
     s \<leftarrow> init_talloc s;
     s \<leftarrow> tfree s DATA_SIZE d;
     let initialized = latch_release initialized;
     s \<leftarrow> sl_test s l;
     Some (0, initialized, s) }"

definition tut_main2 :: "'k tmem \<Rightarrow> latch \<Rightarrow> nat \<Rightarrow> (int \<times> 'k tmem) option" where
  "tut_main2 s initialized l = do {
     _ \<leftarrow> latch_wait initialized;
     s \<leftarrow> sl_test s l;
     Some (0, s) }"

lemma latch_wait_blocks:
  assumes "\<not> released la"
  shows "latch_wait la = None"
proof (rule ccontr)
  assume "latch_wait la \<noteq> None"
  then obtain r where "latch_wait la = Some r" by auto
  then have "released la"
    by (rule latch_wait.raw_induct [where P = "\<lambda>la r. released la", rotated]) (auto split: if_splits)
  with assms show False by simp
qed

text \<open>
  C29. The program of \<open>t05_main.c\<close> runs to its end from uninitialised memory: no assertion of the test fails, \<open>main\<close> returns 0 with the latch
  released, and a thread in \<open>main2\<close> does not return before. The test gives back the nodes but not its elements: \<open>tfree\<close> ignores a block of 8 bytes, so
  of the 10000 bytes of \<open>allocator_data\<close> the allocator has 9976 at the end.
\<close>

theorem tut_main_spec:
  assumes "data_addr s \<in> dom (words s)" "8 dvd d" "tblk d 10000 \<subseteq> dom (words s)" "data_addr s \<notin> tblk d 10000"
    and "l \<in> dom (words s)" "l \<notin> insert (data_addr s) (tblk d 10000)" "\<not> released la"
  shows "tut_main2 s la l = None \<and> (\<exists>la' s' bs. tut_main s la d l = Some (0, la', s') \<and> released la' \<and> talloc_at s' bs \<and> blks bs = tblk d 9976)"
proof
  have "latch_wait la = None" using assms(7) latch_wait_blocks by blast
  then show "tut_main2 s la l = None" by (simp add: tut_main2_def)
  have n: "unat DATA_SIZE = 10000" "DATA_SIZE = of_nat 10000" by (simp_all add: DATA_SIZE_def)
  from init_talloc_ok [OF assms(1)] obtain s1 where s1: "init_talloc s = Some s1" "talloc_at s1 []" "data_addr s1 = data_addr s"
    "dom (words s1) = dom (words s)" by blast
  have "blk_ok (words s1) d (unat DATA_SIZE)" using assms(2,3) s1(4) n by (simp add: blk_ok_def)
  moreover have "tblk d (unat DATA_SIZE) \<inter> insert (data_addr s1) (blks []) = {}" using assms(4) s1(3) n by simp
  ultimately obtain s2 where s2: "tfree s1 DATA_SIZE d = Some s2" "talloc_at s2 [(d, DATA_SIZE)]"
    "same_outside (insert (data_addr s1) (tblk d (unat DATA_SIZE))) s1 s2" using tfree_ok [OF s1(2)] by blast
  note so = same_outsideD [OF s2(3)]
  have l: "l \<in> dom (words s2)" "l \<notin> insert (data_addr s2) (tblk d 10000)" using assms(5,6) so(2,3) s1(3,4) by auto
  from sl_test_run [OF s2(2) [unfolded n(2)], of 9928, OF _ _ _ l] obtain s3 where s3: "sl_test s2 l = Some s3"
    "talloc_at s3 [(d + 9928, 16), (d + (9928 + 16), 16), (d + (9928 + 32), 16), (d, of_nat 9928)]" by auto
  have "tut_main s la d l = Some (0, latch_release la, s3)" using s1(1) s2(1) s3(1) by (simp add: tut_main_def)
  moreover have "blks [(d + 9928, 16), (d + (9928 + 16), 16), (d + (9928 + 32), 16), (d, of_nat 9928)] = tblk d 9976"
    by (auto simp: tblk_def)
  ultimately show "\<exists>la' s' bs. tut_main s la d l = Some (0, la', s') \<and> released la' \<and> talloc_at s' bs \<and> blks bs = tblk d 9976"
    using s3(2) by (auto simp: latch_release_def)
qed

text \<open>A memory with \<open>allocator_state\<close> at 8, \<open>allocator_data\<close> at 16 and the variable of the test at 10016.\<close>

definition tut_mem :: "'k tmem" where
  "tut_mem = \<lparr>al_lock = \<lparr>lock = True\<rparr>, data_addr = 8, words = (\<lambda>x. if 8 \<le> x \<and> x \<le> 10016 then Some TUninit else None)\<rparr>"

theorem tut_main_spec_witness:
  "tut_main2 (tut_mem :: nat tmem) \<lparr>released = False\<rparr> 10016 = None \<and>
   (\<exists>la' s' bs. tut_main (tut_mem :: nat tmem) \<lparr>released = False\<rparr> 16 10016 = Some (0, la', s') \<and> released la' \<and>
      talloc_at s' bs \<and> blks bs = tblk 16 9976)"
  by (rule tut_main_spec) (auto simp: tut_mem_def tblk_def dom_def)

end
