(* ===== verification/List_Quicksort.thy ===== *)
theory List_Quicksort
  imports Word_List
begin

text \<open>
  Quicksort on linked lists, \<open>src/tutorial/quicksort_solution.c\<close> (and the same code without annotations in
  \<open>quicksort_exercise.c\<close>). A node has the integer \<open>val\<close> in its first word and the pointer \<open>next\<close> eight bytes on, so that the layout is the one of
  \<open>t03_list.c\<close>; the memory has no allocator in use. The integers of the type \<open>int\<close> are only compared.
\<close>

section \<open>The functions\<close>

type_synonym lmem = "int tmem"

partial_function (option) lq_append :: "lmem \<Rightarrow> nat \<Rightarrow> nat ptr \<Rightarrow> lmem option" where
  "lq_append s l k =
     Option.bind (get_tptr s l) (\<lambda>p.
       if p = NULL then put_word s l (TPtr k)
       else Option.bind (deref p) (\<lambda>a. lq_append s (list_tail a) k))"

partial_function (option) lq_partition :: "lmem \<Rightarrow> nat \<Rightarrow> int \<Rightarrow> (nat ptr \<times> lmem) option" where
  "lq_partition s l pivot =
     Option.bind (get_tptr s l) (\<lambda>p.
       if p = NULL then Some (NULL, s)
       else Option.bind (deref p) (\<lambda>a.
         Option.bind (lq_partition s (list_tail a) pivot) (\<lambda>(rest, s).
           Option.bind (get_tptr s l) (\<lambda>head.
           Option.bind (deref head) (\<lambda>a.
           Option.bind (get_tval s a) (\<lambda>val.
             if pivot \<le> val then
               Option.bind (get_tptr s (list_tail a)) (\<lambda>t.
               Option.bind (put_word s l (TPtr t)) (\<lambda>s.
               Option.bind (put_word s (list_tail a) (TPtr rest)) (\<lambda>s. Some (head, s))))
             else Some (rest, s)))))))"

text \<open>A call has its variable \<open>higher\<close> at the address \<open>sp\<close>; the calls it makes have theirs from the next word on.\<close>

partial_function (option) lq_quicksort :: "lmem \<Rightarrow> nat \<Rightarrow> nat \<Rightarrow> lmem option" where
  "lq_quicksort s l sp =
     Option.bind (get_tptr s l) (\<lambda>p.
       if p = NULL then Some s
       else Option.bind (deref p) (\<lambda>a.
         Option.bind (get_tval s a) (\<lambda>pivot.
         Option.bind (lq_partition s l pivot) (\<lambda>(r, s).
         Option.bind (put_word s sp (TPtr r)) (\<lambda>s.
         Option.bind (lq_quicksort s sp (sp + 8)) (\<lambda>s.
         Option.bind (lq_quicksort s l (sp + 8)) (\<lambda>s.
         Option.bind (get_tptr s sp) (\<lambda>higher. lq_append s l higher))))))))"

section \<open>Append\<close>

text \<open>The recursive \<open>append\<close> does what the loop of \<open>t03_list.c\<close> does.\<close>

lemma lq_append_eq: "slist (words s) l as \<Longrightarrow> lq_append s l k = sl_append s l k"
proof (induction as arbitrary: l)
  case Nil
  then show ?case by (subst lq_append.simps, simp add: sl_append_def, subst sl_end.simps) (simp add: get_tptr_eq)
next
  case (Cons a as)
  then have "lq_append s l k = lq_append s (list_tail a) k" "sl_end s l = sl_end s (list_tail a)"
    by (subst lq_append.simps, simp add: get_tptr_eq) (use Cons.prems in \<open>subst sl_end.simps, simp add: get_tptr_eq\<close>)
  then show ?case using Cons by (simp add: sl_append_def)
qed

section \<open>Partition\<close>

text \<open>The values of the nodes.\<close>

definition node_vals :: "(nat, int tword) heap \<Rightarrow> nat list \<Rightarrow> int list \<Rightarrow> bool" where
  "node_vals w as xs \<longleftrightarrow> list_all2 (\<lambda>a x. w a = Some (TVal x)) as xs"

definition val_of :: "(nat, int tword) heap \<Rightarrow> nat \<Rightarrow> int" where
  "val_of w a = (case w a of Some (TVal x) \<Rightarrow> x | _ \<Rightarrow> 0)"

lemma node_vals_iff: "node_vals w as xs \<longleftrightarrow> (\<forall>a\<in>set as. w a = Some (TVal (val_of w a))) \<and> xs = map (val_of w) as"
  unfolding node_vals_def by (induction as arbitrary: xs) (auto simp: list_all2_Cons1 val_of_def)

lemma node_vals_cong: "node_vals w as xs \<Longrightarrow> (\<And>x. x \<in> set as \<Longrightarrow> w' x = w x) \<Longrightarrow> node_vals w' as xs"
  unfolding node_vals_def by (auto simp: list_all2_conv_all_nth)

lemma node_vals_filter:
  "node_vals w as xs \<Longrightarrow> (\<And>a. a \<in> set as \<Longrightarrow> P a = Q (val_of w a)) \<Longrightarrow> node_vals w (filter P as) (filter Q xs)"
  unfolding node_vals_iff by (simp add: filter_map comp_def cong: filter_cong)

lemma vals_links: "node_vals w as xs \<Longrightarrow> slist w l as \<Longrightarrow> set as \<inter> insert l (list_links as) = {}"
proof -
  assume v: "node_vals w as xs" and l: "slist w l as"
  have "\<exists>p. w x = Some (TPtr p)" if "x \<in> insert l (list_links as)" for x
    using l that by (induction as arbitrary: l) auto
  then show ?thesis using v unfolding node_vals_iff by fastforce
qed

lemma list_links_filter: "list_links (filter P as) \<subseteq> list_links as"
  by (auto simp: list_links_def)

lemma partition_ok:
  assumes "slist (words s) l as" "\<And>a. a \<in> set as \<Longrightarrow> words s a = Some (TVal (f a))"
  shows "\<exists>r s'. lq_partition s l pv = Some (r, s') \<and> slist (words s') l (filter (\<lambda>a. f a < pv) as) \<and>
    vlist (words s') r (filter (\<lambda>a. pv \<le> f a) as) \<and> same_outside (insert l (list_links as)) s s'"
  using assms
proof (induction as arbitrary: l)
  case Nil
  then show ?case by (subst lq_partition.simps) (simp add: get_tptr_eq)
next
  case (Cons a as)
  have l: "words s l = Some (TPtr (Addr a))" "slist (words s) (list_tail a) as" using Cons.prems(1) by simp_all
  let ?lo = "filter (\<lambda>a. f a < pv) as" and ?hi = "filter (\<lambda>a. pv \<le> f a) as"
  from Cons.IH [OF l(2)] Cons.prems(2) obtain r s1 where
    s1: "lq_partition s (list_tail a) pv = Some (r, s1)" "slist (words s1) (list_tail a) ?lo" "vlist (words s1) r ?hi"
      "same_outside (insert (list_tail a) (list_links as)) s s1" by auto
  have fr: "l \<notin> insert (list_tail a) (list_links as)" "a \<notin> set as" using slist_fresh [OF Cons.prems(1)] slist_distinct [OF Cons.prems(1)] by auto
  have "node_vals (words s) (a # as) (map f (a # as))" using Cons.prems(2) by (auto simp: node_vals_iff val_of_def)
  from vals_links [OF this Cons.prems(1)] have na: "a \<notin> insert (list_tail a) (list_links as)" by simp
  have w1: "words s1 l = Some (TPtr (Addr a))" "words s1 a = Some (TVal (f a))"
    using same_outsideD(1) [OF s1(4) fr(1)] same_outsideD(1) [OF s1(4) na] l(1) Cons.prems(2) by simp_all
  obtain t where t: "words s1 (list_tail a) = Some (TPtr t)" "vlist (words s1) t ?lo" using s1(2) by (rule slistE)
  have nl: "l \<notin> list_links ?lo" "l \<notin> list_links ?hi" using fr(1) list_links_filter by blast+
  show ?case
  proof (cases "pv \<le> f a")
    case True
    let ?s2 = "s1\<lparr>words := (words s1)(l \<mapsto> TPtr t)\<rparr>"
    let ?s3 = "s1\<lparr>words := (words s1)(l \<mapsto> TPtr t, list_tail a \<mapsto> TPtr r)\<rparr>"
    have p: "put_word s1 l (TPtr t) = Some ?s2" "put_word ?s2 (list_tail a) (TPtr r) = Some ?s3" using w1(1) t(1) by (simp_all add: put_word_def)
    have run: "lq_partition s l pv = Some (Addr a, ?s3)"
      using l(1) s1(1) w1 t(1) p True by (subst lq_partition.simps) (simp add: get_tptr_eq get_tval_def)
    have "same_outside {l, list_tail a} s1 ?s3" using w1(1) t(1) unfolding same_outside_def
      by (intro exI [of _ "(words s1)(l \<mapsto> TPtr t, list_tail a \<mapsto> TPtr r)"]) auto
    from same_outside_trans [OF s1(4) this] have so: "same_outside (insert l (list_links (a # as))) s ?s3"
      by (rule same_outside_mono) auto
    have "slist (words ?s3) l ?lo" using t(2) fr nl(1) by (intro slistI) simp_all
    moreover have "vlist (words ?s3) (Addr a) (a # ?hi)" using s1(3) fr nl(2) by simp
    ultimately show ?thesis using run so True by auto
  next
    case False
    then have run: "lq_partition s l pv = Some (r, s1)"
      using l(1) s1(1) w1 by (subst lq_partition.simps) (simp add: get_tptr_eq get_tval_def)
    moreover have "slist (words s1) l (a # ?lo)" using w1(1) s1(2) by simp
    moreover have "same_outside (insert l (list_links (a # as))) s s1" by (rule same_outside_mono [OF s1(4)]) auto
    ultimately show ?thesis using s1(3) False by auto
  qed
qed

text \<open>
  \<open>partition\<close> leaves in the list the nodes with a value below the pivot and returns the others, both in their order; no value and
  no other memory changes. \<open>append\<close> puts the second list behind the first, as the loop of \<open>t03_list.c\<close> does.
\<close>

theorem lq_partition_spec:
  assumes "slist (words s) l as" "node_vals (words s) as xs"
  shows "\<exists>r s' bs cs. lq_partition s l pivot = Some (r, s') \<and>
      slist (words s') l bs \<and> node_vals (words s') bs (filter (\<lambda>x. x < pivot) xs) \<and>
      vlist (words s') r cs \<and> node_vals (words s') cs (filter (\<lambda>x. pivot \<le> x) xs) \<and>
      same_outside (insert l (list_links as)) s s' \<and>
      (\<exists>s''. lq_append s' l r = Some s'' \<and> sl_append s' l r = Some s'' \<and> slist (words s'') l (bs @ cs))"
proof -
  let ?f = "val_of (words s)" and ?lo = "filter (\<lambda>a. val_of (words s) a < pivot) as" and ?hi = "filter (\<lambda>a. pivot \<le> val_of (words s) a) as"
  have f: "\<And>a. a \<in> set as \<Longrightarrow> words s a = Some (TVal (?f a))" using assms(2) by (simp add: node_vals_iff)
  from partition_ok [OF assms(1) f] obtain r s' where
    r: "lq_partition s l pivot = Some (r, s')" "slist (words s') l ?lo" "vlist (words s') r ?hi" "same_outside (insert l (list_links as)) s s'"
    by blast
  have v: "node_vals (words s') as xs"
    by (rule node_vals_cong [OF assms(2) same_outsideD(1) [OF r(4)]]) (use vals_links [OF assms(2,1)] in auto)
  have "val_of (words s') a = ?f a" if "a \<in> set as" for a
  proof -
    have "words s' a = words s a" by (rule same_outsideD(1) [OF r(4)]) (use vals_links [OF assms(2,1)] that in auto)
    then show ?thesis by (simp add: val_of_def)
  qed
  then have "node_vals (words s') ?lo (filter (\<lambda>x. x < pivot) xs)" "node_vals (words s') ?hi (filter (\<lambda>x. pivot \<le> x) xs)"
    using v by (auto intro: node_vals_filter)
  moreover have "insert l (list_links ?lo) \<inter> list_links ?hi = {}"
    using slist_fresh [OF assms(1)] list_links_filter [of _ as] by (auto simp: list_links_def)
  from append_ok [OF r(2,3) this] obtain s'' where "sl_append s' l r = Some s''" "slist (words s'') l (?lo @ ?hi)" by blast
  ultimately show ?thesis using r lq_append_eq [OF r(2), of r] by metis
qed

text \<open>A list of the values 3, 1 and 2 at the nodes 16, 32 and 48, with its variable at 8.\<close>

definition demo_lmem :: lmem where
  "demo_lmem = \<lparr>al_lock = \<lparr>lock = False\<rparr>, data_addr = 0, words = (\<lambda>x. if x = 8 then Some (TPtr (Addr 16)) else
     if x = 16 then Some (TVal 3) else if x = 24 then Some (TPtr (Addr 32)) else
     if x = 32 then Some (TVal 1) else if x = 40 then Some (TPtr (Addr 48)) else
     if x = 48 then Some (TVal 2) else if x = 56 then Some (TPtr NULL) else if 64 \<le> x then Some TUninit else None)\<rparr>"

lemma demo_lmem_list: "slist (words demo_lmem) 8 [16, 32, 48]" "node_vals (words demo_lmem) [16, 32, 48] [3, 1, 2]"
  by (simp_all add: demo_lmem_def list_tail_def node_vals_def)

theorem lq_partition_spec_witness:
  "\<exists>r s' bs cs. lq_partition demo_lmem 8 2 = Some (r, s') \<and> slist (words s') 8 bs \<and> node_vals (words s') bs [1] \<and>
     vlist (words s') r cs \<and> node_vals (words s') cs [3, 2]"
  using lq_partition_spec [OF demo_lmem_list, of 2] by fastforce

section \<open>Quicksort does not return\<close>

text \<open>The stack: every word from \<open>sp\<close> on is there, and the list lies below.\<close>

definition stack_above :: "lmem \<Rightarrow> nat \<Rightarrow> nat \<Rightarrow> nat list \<Rightarrow> bool" where
  "stack_above s sp l as \<longleftrightarrow> {sp..} \<subseteq> dom (words s) \<and> (\<forall>x \<in> insert l (list_links as \<union> set as). x < sp)"

text \<open>The first recursive call gets the first node again.\<close>

lemma quicksort_step:
  assumes "slist (words s) l (a # as)" "node_vals (words s) (a # as) xs" "stack_above s sp l (a # as)"
  shows "\<exists>pivot r s1 s2 cs ys. get_tptr s l = Some (Addr a) \<and> get_tval s a = Some pivot \<and> lq_partition s l pivot = Some (r, s1) \<and>
    put_word s1 sp (TPtr r) = Some s2 \<and> slist (words s2) sp (a # cs) \<and> node_vals (words s2) (a # cs) ys \<and> stack_above s2 (sp + 8) sp (a # cs)"
proof -
  let ?w = "words s" and ?pv = "val_of (words s) a"
  have f: "\<And>b. b \<in> set (a # as) \<Longrightarrow> ?w b = Some (TVal (val_of ?w b))" using assms(2) unfolding node_vals_iff by blast
  let ?cs = "filter (\<lambda>b. ?pv \<le> val_of ?w b) as"
  from partition_ok [OF assms(1) f, of ?pv] obtain r s1 where
    r: "lq_partition s l ?pv = Some (r, s1)" "vlist (words s1) r (a # ?cs)" "same_outside (insert l (list_links (a # as))) s s1" by fastforce
  have b: "\<forall>x \<in> insert l (list_links (a # as) \<union> set (a # as)). x < sp" "{sp..} \<subseteq> dom (words s)" using assms(3) by (simp_all add: stack_above_def)
  have sub: "list_links ?cs \<subseteq> list_links as" "set ?cs \<subseteq> set as" by (auto simp: list_links_def)
  have dm: "dom (words s1) = dom (words s)" by (rule same_outsideD(2) [OF r(3)])
  let ?s2 = "s1\<lparr>words := (words s1)(sp \<mapsto> TPtr r)\<rparr>"
  have sp: "sp \<in> dom (words s1)" using b(2) dm by auto
  have fresh: "sp \<notin> list_links (a # ?cs)" using b(1) sub(1) by fastforce
  have sl: "slist (words ?s2) sp (a # ?cs)" using r(2) fresh by (intro slistI) simp_all
  have v1: "node_vals (words s1) (a # as) xs"
    by (rule node_vals_cong [OF assms(2) same_outsideD(1) [OF r(3)]]) (use vals_links [OF assms(2,1)] in auto)
  have nv: "node_vals (words ?s2) (a # ?cs) (map (val_of (words s1)) (a # ?cs))"
  proof -
    have "node_vals (words s1) (a # ?cs) (map (val_of (words s1)) (a # ?cs))" using v1 by (simp add: node_vals_iff)
    then show ?thesis by (rule node_vals_cong) (use b(1) sub(2) in fastforce)
  qed
  have lt: "x < sp + 8" if "x \<in> insert sp (list_links (a # ?cs) \<union> set (a # ?cs))" for x
  proof (cases "x = sp")
    case False
    have "list_links (a # ?cs) \<union> set (a # ?cs) \<subseteq> list_links (a # as) \<union> set (a # as)" using sub by auto
    with False that have "x \<in> insert l (list_links (a # as) \<union> set (a # as))" by blast
    with b(1) have "x < sp" by blast
    then show ?thesis by simp
  qed simp
  have "{sp + 8..} \<subseteq> {sp..}" by simp
  from order_trans [OF this b(2)] have "{sp + 8..} \<subseteq> dom (words s1)" unfolding dm .
  then have "{sp + 8..} \<subseteq> dom (words ?s2)" by (simp add: subset_insertI2)
  then have st: "stack_above ?s2 (sp + 8) sp (a # ?cs)" unfolding stack_above_def using lt by simp
  have put: "put_word s1 sp (TPtr r) = Some ?s2" by (rule put_word_ok(1) [OF sp])
  have "get_tptr s l = Some (Addr a)" "get_tval s a = Some ?pv" using assms(1) f [of a] by (simp_all add: get_tptr_eq get_tval_def)
  with r(1) put sl nv st show ?thesis by blast
qed

text \<open>
  C30. \<open>quicksort\<close> returns only for the empty list. The pivot is the value of the first node, and \<open>partition\<close> takes the nodes with a value of at least
  the pivot: the list \<open>higher\<close> that the first recursive call gets begins with the same node, so that the recursion never ends, whatever the
  size of the stack. (The specification in the source, that the list is sorted on return, holds since there is no return.)
\<close>

theorem lq_quicksort_diverges:
  assumes "slist (words s) l as" "node_vals (words s) as xs" "stack_above s sp l as"
  shows "lq_quicksort s l sp = (if as = [] then Some s else None)"
proof (cases as)
  case Nil
  then show ?thesis using assms(1) by (subst lq_quicksort.simps) (simp add: get_tptr_eq)
next
  case (Cons a as')
  have "\<forall>as xs. slist (words s) l as \<longrightarrow> node_vals (words s) as xs \<longrightarrow> stack_above s sp l as \<longrightarrow> as = []" if "lq_quicksort s l sp = Some r" for s l sp r
    using that
  proof (rule lq_quicksort.raw_induct [rotated], intro allI impI)
    fix f s l sp r as xs
    assume IH: "\<And>s l sp r. f s l sp = Some r \<Longrightarrow>
        \<forall>as xs. slist (words s) l as \<longrightarrow> node_vals (words s) as xs \<longrightarrow> stack_above s sp l as \<longrightarrow> as = []"
      and eq: "Option.bind (get_tptr s l) (\<lambda>p. if p = NULL then Some s
         else Option.bind (deref p) (\<lambda>a.
           Option.bind (get_tval s a) (\<lambda>pivot.
           Option.bind (lq_partition s l pivot) (\<lambda>(r, s).
           Option.bind (put_word s sp (TPtr r)) (\<lambda>s.
           Option.bind (f s sp (sp + 8)) (\<lambda>s.
           Option.bind (f s l (sp + 8)) (\<lambda>s.
           Option.bind (get_tptr s sp) (\<lambda>higher. lq_append s l higher)))))))) = Some r"
      and a: "slist (words s) l as" "node_vals (words s) as xs" "stack_above s sp l as"
    show "as = []"
    proof (cases as)
      case (Cons b bs)
      from quicksort_step [OF a [unfolded Cons]] obtain pivot q s1 s2 cs ys where
        q: "get_tptr s l = Some (Addr b)" "get_tval s b = Some pivot" "lq_partition s l pivot = Some (q, s1)" "put_word s1 sp (TPtr q) = Some s2"
          and n: "slist (words s2) sp (b # cs)" "node_vals (words s2) (b # cs) ys" "stack_above s2 (sp + 8) sp (b # cs)" by blast
      from eq q obtain s3 where "f s2 sp (sp + 8) = Some s3" by (auto simp: bind_eq_Some_conv)
      from IH [OF this] n have False by blast
      then show ?thesis ..
    qed
  qed
  then have "lq_quicksort s l sp \<noteq> Some r" for r using assms Cons by blast
  then show ?thesis using Cons by auto
qed

theorem lq_quicksort_diverges_witness:
  "lq_quicksort demo_lmem 8 64 = None"
proof -
  have "stack_above demo_lmem 64 8 [16, 32, 48]" by (auto simp: stack_above_def demo_lmem_def list_tail_def)
  then show ?thesis using lq_quicksort_diverges [OF demo_lmem_list] by simp
qed

end
