(* ===== verification/Reverse.thy ===== *)
theory Reverse
  imports Word_List
begin

text \<open>
  The linked lists of \<open>src/examples/reverse.c\<close>, where the caller gives the memory of the nodes. The layout of a node is the one of
  \<open>Word_List\<close>; the memory is used without its allocator.
\<close>

section \<open>The functions\<close>

definition rv_init :: "nat ptr" where
  "rv_init = NULL"

definition rv_push :: "'k tmem \<Rightarrow> nat ptr \<Rightarrow> nat ptr \<Rightarrow> nat \<Rightarrow> (nat ptr \<times> 'k tmem) option" where
  "rv_push s p e nd = do {
     s \<leftarrow> put_word s nd (TPtr e);
     s \<leftarrow> put_word s (list_tail nd) (TPtr p);
     Some (Addr nd, s) }"

definition rv_pop :: "'k tmem \<Rightarrow> nat \<Rightarrow> (nat ptr \<times> 'k tmem) option" where
  "rv_pop s p = do {
     q \<leftarrow> get_tptr s p;
     if q = NULL then Some (NULL, s)
     else do {
       a \<leftarrow> deref q;
       ret \<leftarrow> get_tptr s a;
       t \<leftarrow> get_tptr s (list_tail a);
       s \<leftarrow> put_word s p (TPtr t);
       Some (ret, s) } }"

partial_function (option) rv_member_rec :: "'k tmem \<Rightarrow> nat \<Rightarrow> u64 \<Rightarrow> bool option" where
  "rv_member_rec s p k =
     Option.bind (get_tptr s p) (\<lambda>q.
       if q = NULL then Some False
       else Option.bind (deref q) (\<lambda>a.
         Option.bind (get_tptr s a) (\<lambda>head.
         Option.bind (deref head) (\<lambda>x.
         Option.bind (get_tsize s x) (\<lambda>v.
           if v = k then Some True else rv_member_rec s (list_tail a) k)))))"

partial_function (option) rv_member_loop :: "'k tmem \<Rightarrow> nat \<Rightarrow> u64 \<Rightarrow> bool option" where
  "rv_member_loop s prev k =
     Option.bind (get_tptr s prev) (\<lambda>cur.
       if cur \<noteq> NULL then
         Option.bind (deref cur) (\<lambda>a.
         Option.bind (get_tptr s a) (\<lambda>head.
         Option.bind (deref head) (\<lambda>x.
         Option.bind (get_tsize s x) (\<lambda>v.
           if v = k then Some True else rv_member_loop s (list_tail a) k))))
       else Some False)"

definition rv_member :: "'k tmem \<Rightarrow> nat \<Rightarrow> u64 \<Rightarrow> bool option" where
  "rv_member s p k = (let prev = p in rv_member_loop s prev k)"

partial_function (option) rv_reverse_loop :: "'k tmem \<Rightarrow> nat ptr \<Rightarrow> nat ptr \<Rightarrow> (nat ptr \<times> 'k tmem) option" where
  "rv_reverse_loop s w v =
     (if v \<noteq> NULL then
        Option.bind (deref v) (\<lambda>a.
        Option.bind (get_tptr s (list_tail a)) (\<lambda>t.
        Option.bind (put_word s (list_tail a) (TPtr w)) (\<lambda>s. rv_reverse_loop s v t)))
      else Some (w, s))"

definition rv_reverse :: "'k tmem \<Rightarrow> nat ptr \<Rightarrow> (nat ptr \<times> 'k tmem) option" where
  "rv_reverse s p = (let w = NULL; v = p in rv_reverse_loop s w v)"

text \<open>\<open>forward\<close> walks along the list; its parameter \<open>p\<close> is a variable, and \<open>a\<close> its address.\<close>

partial_function (option) rv_forward_loop :: "'k tmem \<Rightarrow> nat \<Rightarrow> unit option" where
  "rv_forward_loop s prev =
     Option.bind (get_tptr s prev) (\<lambda>cur.
       if cur \<noteq> NULL then Option.bind (deref cur) (\<lambda>a. rv_forward_loop s (list_tail a))
       else Some ())"

definition rv_forward :: "'k tmem \<Rightarrow> nat \<Rightarrow> (nat ptr) option" where
  "rv_forward s a = do {
     _ \<leftarrow> rv_forward_loop s a;
     get_tptr s a }"

text \<open>
  \<open>test\<close>, with the addresses of its variables \<open>list\<close>, \<open>local1\<close>, \<open>local2\<close>, \<open>local1_node\<close> and \<open>local2_node\<close>, up to the empty loop at its end, which does
  not terminate. The variable \<open>local1\<close> has an integer.
\<close>

definition rv_test :: "'k tmem \<Rightarrow> nat \<Rightarrow> nat \<Rightarrow> nat \<Rightarrow> nat \<Rightarrow> nat \<Rightarrow> 'k tmem option" where
  "rv_test s list local1 local2 local1_node local2_node = do {
     s \<leftarrow> put_word s list (TPtr rv_init);
     s \<leftarrow> put_word s local1 (TSize 0);
     p \<leftarrow> get_tptr s list;
     (p, s) \<leftarrow> rv_push s p (Addr local1) local1_node;
     s \<leftarrow> put_word s list (TPtr p);
     s \<leftarrow> put_word s local2 (TPtr (Addr list));
     p \<leftarrow> get_tptr s list;
     (p, s) \<leftarrow> rv_push s p (Addr local2) local2_node;
     s \<leftarrow> put_word s list (TPtr p);
     (local3, s) \<leftarrow> rv_pop s list;
     l3 \<leftarrow> deref local3;
     l \<leftarrow> get_tptr s l3;
     l \<leftarrow> deref l;
     (local4, s) \<leftarrow> rv_pop s l;
     l4 \<leftarrow> deref local4;
     v \<leftarrow> get_tsize s l4;
     c_assert (v = 0);
     Some s }"

section \<open>Properties\<close>

lemma rv_members_ok:
  assumes "slist (words s) l as" "list_all2 (\<lambda>a e. words s a = Some (TPtr e)) as es" "elem_vals (words s) es vs"
  shows "rv_member_rec s l k = Some (k \<in> set vs)" "rv_member_loop s l k = Some (k \<in> set vs)"
proof -
  have "rv_member_rec s l k = Some (k \<in> set vs) \<and> rv_member_loop s l k = Some (k \<in> set vs)"
    using assms
  proof (induction as arbitrary: l es vs)
    case Nil
    then show ?case by (subst rv_member_rec.simps, subst rv_member_loop.simps) (auto simp: elem_vals_def get_tptr_eq)
  next
    case (Cons a as)
    then obtain e es' where e: "es = e # es'" "words s a = Some (TPtr e)" "list_all2 (\<lambda>a e. words s a = Some (TPtr e)) as es'"
      by (auto simp: list_all2_Cons1)
    then obtain x v vs' where v: "vs = v # vs'" "e = Addr x" "words s x = Some (TSize v)" "elem_vals (words s) es' vs'"
      using Cons.prems(3) by (auto simp: elem_vals_def list_all2_Cons1)
    have l: "words s l = Some (TPtr (Addr a))" "slist (words s) (list_tail a) as" using Cons.prems(1) by simp_all
    show ?case using Cons.IH [OF l(2) e(3) v(4)] e v l
      by (subst rv_member_rec.simps, subst rv_member_loop.simps) (auto simp: get_tptr_eq get_tsize_def)
  qed
  then show "rv_member_rec s l k = Some (k \<in> set vs)" "rv_member_loop s l k = Some (k \<in> set vs)" by auto
qed

lemma rv_reverse_eq: "vlist (words s) p as \<Longrightarrow> rv_reverse_loop s w p = sl_reverse_loop s p w"
proof (induction as arbitrary: s p w)
  case Nil
  then show ?case by (subst rv_reverse_loop.simps, subst sl_reverse_loop.simps) simp
next
  case (Cons a as)
  then obtain q where q: "p = Addr a" "words s (list_tail a) = Some (TPtr q)" "vlist (words s) q as" by (auto elim: slistE)
  have "a \<notin> set as" using vlist_distinct [OF Cons.prems] by simp
  then have "rv_reverse_loop (s\<lparr>words := (words s)(list_tail a \<mapsto> TPtr w)\<rparr>) (Addr a) q =
      sl_reverse_loop (s\<lparr>words := (words s)(list_tail a \<mapsto> TPtr w)\<rparr>) q (Addr a)" using q(3) by (intro Cons.IH) simp
  then show ?case using q by (subst rv_reverse_loop.simps, subst sl_reverse_loop.simps) (simp add: get_tptr_eq put_word_def)
qed

lemma rv_forward_ok: "slist (words s) l as \<Longrightarrow> rv_forward_loop s l = Some ()"
proof (induction as arbitrary: l)
  case Nil
  then show ?case by (subst rv_forward_loop.simps) (simp add: get_tptr_eq)
next
  case (Cons a as)
  then show ?case by (subst rv_forward_loop.simps) (simp add: get_tptr_eq)
qed

text \<open>
  The functions of \<open>reverse.c\<close>, on a list at \<open>l\<close> whose elements point to the integers \<open>vs\<close>: the recursive and the iterative \<open>member\<close> agree and
  tell whether the integer is there; \<open>forward\<close> comes to the end of the list and gives its pointer; \<open>reverse\<close> does what \<open>reverse\<close> of \<open>t03_list.c\<close> does,
  and reverses the nodes; \<open>push\<close> puts the node of the caller in front; \<open>pop\<close> gives the first element and takes its node out, and gives \<open>NULL\<close> for
  an empty list.
\<close>

theorem reverse_c_spec:
  assumes l: "slist (words s) l as" "list_all2 (\<lambda>a e. words s a = Some (TPtr e)) as es" "elem_vals (words s) es vs"
    and n: "n \<in> dom (words s)" "list_tail n \<in> dom (words s)" "{n, list_tail n} \<inter> insert l (list_links as) = {}"
  shows "rv_member_rec s l k = Some (k \<in> set vs) \<and> rv_member s l k = rv_member_rec s l k \<and>
    rv_forward s l = Some (first_ptr as) \<and>
    (\<exists>r s'. rv_reverse s (first_ptr as) = Some (r, s') \<and> sl_reverse s (first_ptr as) = Some (r, s') \<and> vlist (words s') r (rev as)) \<and>
    (\<exists>s'. rv_push s (first_ptr as) e n = Some (Addr n, s') \<and> vlist (words s') (Addr n) (n # as) \<and> words s' n = Some (TPtr e)) \<and>
    (\<exists>s'. rv_pop s l = Some (case es of [] \<Rightarrow> NULL | x # _ \<Rightarrow> x, s') \<and> slist (words s') l (tl as))"
proof (intro conjI)
  have w: "words s l = Some (TPtr (first_ptr as))" "vlist (words s) (first_ptr as) as" using l(1) by (simp_all add: slist_iff)
  note m = rv_members_ok [OF l]
  show "rv_member_rec s l k = Some (k \<in> set vs)" by (rule m)
  show "rv_member s l k = rv_member_rec s l k" using m by (simp add: rv_member_def)
  show "rv_forward s l = Some (first_ptr as)" using rv_forward_ok [OF l(1)] w(1) by (simp add: rv_forward_def get_tptr_eq)
  from reverse_loop_ok [OF w(2), of NULL "[]"] show "\<exists>r s'. rv_reverse s (first_ptr as) = Some (r, s') \<and> sl_reverse s (first_ptr as) = Some (r, s') \<and> vlist (words s') r (rev as)"
    using rv_reverse_eq [OF w(2), of NULL] by (auto simp: rv_reverse_def sl_reverse_def)
  have "list_tail n \<noteq> n" by (simp add: list_tail_def)
  then show "\<exists>s'. rv_push s (first_ptr as) e n = Some (Addr n, s') \<and> vlist (words s') (Addr n) (n # as) \<and> words s' n = Some (TPtr e)"
    using n w(2) by (intro exI [of _ "s\<lparr>words := (words s)(n \<mapsto> TPtr e, list_tail n \<mapsto> TPtr (first_ptr as))\<rparr>"])
      (auto simp: rv_push_def put_word_def)
  show "\<exists>s'. rv_pop s l = Some (case es of [] \<Rightarrow> NULL | x # _ \<Rightarrow> x, s') \<and> slist (words s') l (tl as)"
  proof (cases as)
    case Nil
    then show ?thesis using l w(1) by (auto simp: rv_pop_def get_tptr_eq)
  next
    case (Cons a as')
    then obtain x xs where x: "es = x # xs" "words s a = Some (TPtr x)" using l(2) by (auto simp: list_all2_Cons1)
    have "slist (words s) (list_tail a) as'" "l \<notin> list_links as'" using l(1) slist_fresh [OF l(1)] Cons by auto
    then obtain t where t: "words s (list_tail a) = Some (TPtr t)" "vlist (words s) t as'" by (auto elim: slistE)
    let ?s = "s\<lparr>words := (words s)(l \<mapsto> TPtr t)\<rparr>"
    have "rv_pop s l = Some (x, ?s)" using w(1) Cons x(2) t(1) by (simp add: rv_pop_def get_tptr_eq put_word_def first_ptr_def)
    moreover have "slist (words ?s) l as'" using t(2) \<open>l \<notin> list_links as'\<close> by (intro slistI) simp_all
    ultimately show ?thesis using x(1) Cons by auto
  qed
qed

theorem reverse_c_spec_witness:
  "rv_member_rec (demo_lists :: nat tmem) 96 7 = Some True \<and> rv_forward (demo_lists :: nat tmem) 96 = Some (Addr 112) \<and>
   (\<exists>s'. rv_pop (demo_lists :: nat tmem) 96 = Some (Addr 144, s') \<and> slist (words s') 96 [])"
proof -
  let ?s = "demo_lists :: nat tmem"
  have "slist (words ?s) 96 [112]" "list_all2 (\<lambda>a e. words ?s a = Some (TPtr e)) [112] [Addr 144]" "elem_vals (words ?s) [Addr 144] [7]"
    "128 \<in> dom (words ?s)" "list_tail 128 \<in> dom (words ?s)" "{128, list_tail 128} \<inter> insert 96 (list_links [112]) = {}"
    by (auto simp: demo_lists_def list_tail_def elem_vals_def)
  from reverse_c_spec [OF this, of 7 NULL] show ?thesis by (simp add: first_ptr_def)
qed

text \<open>The assertion of \<open>test\<close> holds: the test comes to the loop at its end.\<close>

lemma rv_test_ok:
  assumes "distinct [l, x1, x2, n1, list_tail n1, n2, list_tail n2]" "{l, x1, x2, n1, list_tail n1, n2, list_tail n2} \<subseteq> dom (words s)"
  shows "\<exists>s'. rv_test s l x1 x2 n1 n2 = Some s'"
proof -
  obtain v1 v2 v3 v4 v5 v6 v7 where v: "words s l = Some v1" "words s x1 = Some v2" "words s x2 = Some v3" "words s n1 = Some v4"
    "words s (list_tail n1) = Some v5" "words s n2 = Some v6" "words s (list_tail n2) = Some v7" using assms(2) by auto
  have d: "l \<noteq> x1" "l \<noteq> x2" "l \<noteq> n1" "l \<noteq> list_tail n1" "l \<noteq> n2" "l \<noteq> list_tail n2" "x1 \<noteq> x2" "x1 \<noteq> n1" "x1 \<noteq> list_tail n1" "x1 \<noteq> n2"
    "x1 \<noteq> list_tail n2" "x2 \<noteq> n1" "x2 \<noteq> list_tail n1" "x2 \<noteq> n2" "x2 \<noteq> list_tail n2" "n1 \<noteq> list_tail n1" "n1 \<noteq> n2" "n1 \<noteq> list_tail n2"
    "list_tail n1 \<noteq> n2" "n1 \<noteq> n2" "n2 \<noteq> list_tail n2" using assms(1) by auto
  note d' = d d [symmetric]
  show ?thesis unfolding rv_test_def rv_push_def rv_pop_def rv_init_def
    by (simp add: v d' put_word_def get_tptr_def get_tsize_def)
qed

end
