(* ===== verification/Queue.thy ===== *)
theory Queue
  imports Word_List
begin

text \<open>
  The queue of \<open>src/examples/queue.c\<close>: a struct with the pointer \<open>head\<close> to the first element and, eight bytes on, the pointer \<open>tail\<close> to the word that
  has the pointer to the next new element: the field \<open>head\<close> itself, or the field \<open>next\<close> of the last element. An element has the same layout as
  a node of \<open>Word_List\<close>. The memory is a map from addresses to words; \<open>malloc\<close> is a parameter, which gives the address of a block for a
  memory and a size.
\<close>

section \<open>The interface of a queue\<close>

datatype 'v queue_op = Enqueue 'v | Dequeue

text \<open>A sequence of operations on a state, with the results of the calls of \<open>dequeue\<close>; and the same on a list, where \<open>none\<close> is the result for
  an empty queue.\<close>

primrec queue_run :: "('s \<Rightarrow> 'v \<Rightarrow> 's option) \<Rightarrow> ('s \<Rightarrow> ('v \<times> 's) option) \<Rightarrow> 'v queue_op list \<Rightarrow> 's \<Rightarrow> ('v list \<times> 's) option" where
  "queue_run enq deq [] s = Some ([], s)"
| "queue_run enq deq (c # cs) s = (case c of
     Enqueue x \<Rightarrow> Option.bind (enq s x) (queue_run enq deq cs)
   | Dequeue \<Rightarrow> Option.bind (deq s) (\<lambda>(y, s). map_option (\<lambda>(ys, s). (y # ys, s)) (queue_run enq deq cs s)))"

primrec fifo_run :: "'v \<Rightarrow> 'v queue_op list \<Rightarrow> 'v list \<Rightarrow> 'v list \<times> 'v list" where
  "fifo_run none [] xs = ([], xs)"
| "fifo_run none (c # cs) xs = (case c of
     Enqueue x \<Rightarrow> fifo_run none cs (xs @ [x])
   | Dequeue \<Rightarrow> (case xs of [] \<Rightarrow> apfst (Cons none) (fifo_run none cs []) | y # ys \<Rightarrow> apfst (Cons y) (fifo_run none cs ys)))"

text \<open>The contract, on states \<open>'s\<close> with the contents \<open>rep\<close>.\<close>

locale fifo_queue =
  fixes rep :: "'s \<Rightarrow> 'v list \<Rightarrow> bool" and enq :: "'s \<Rightarrow> 'v \<Rightarrow> 's option" and deq :: "'s \<Rightarrow> ('v \<times> 's) option" and none :: 'v
  assumes enq_rep: "rep s xs \<Longrightarrow> \<exists>s'. enq s x = Some s' \<and> rep s' (xs @ [x])"
    and deq_rep: "rep s (x # xs) \<Longrightarrow> \<exists>s'. deq s = Some (x, s') \<and> rep s' xs"
    and deq_none: "rep s [] \<Longrightarrow> deq s = Some (none, s)"
begin

lemma run_fifo: "rep s xs \<Longrightarrow> \<exists>s'. queue_run enq deq cs s = Some (fst (fifo_run none cs xs), s') \<and> rep s' (snd (fifo_run none cs xs))"
proof (induction cs arbitrary: s xs)
  case (Cons c cs)
  show ?case
  proof (cases c)
    case (Enqueue x)
    obtain s1 where "enq s x = Some s1" "rep s1 (xs @ [x])" using enq_rep [OF Cons.prems] by blast
    then show ?thesis using Cons.IH [of s1 "xs @ [x]"] Enqueue by simp
  next
    case Dequeue
    show ?thesis
    proof (cases xs)
      case Nil
      then show ?thesis using Cons.IH [of s "[]"] Cons.prems deq_none [of s] Dequeue by auto
    next
      case ys: (Cons y ys)
      then obtain s1 where "deq s = Some (y, s1)" "rep s1 ys" using deq_rep [of s y ys] Cons.prems by blast
      then show ?thesis using Cons.IH [of s1 ys] Dequeue ys by auto
    qed
  qed
qed simp

end

section \<open>The program\<close>

type_synonym 'k wheap = "(nat, 'k tword) heap"
type_synonym 'k wmalloc = "'k wheap \<Rightarrow> u64 \<Rightarrow> nat ptr"

definition word_ptr :: "'k wheap \<Rightarrow> nat \<Rightarrow> nat ptr option" where
  "word_ptr w a = (case w a of Some (TPtr p) \<Rightarrow> Some p | _ \<Rightarrow> None)"

definition word_put :: "'k wheap \<Rightarrow> nat \<Rightarrow> 'k tword \<Rightarrow> 'k wheap option" where
  "word_put w a v = (if a \<in> dom w then Some (w(a \<mapsto> v)) else None)"

text \<open>
  \<open>xmalloc\<close> of a struct of two words, and \<open>free\<close>. When \<open>malloc\<close> fails, \<open>safe_exit\<close> ends the program, and the call has
  no result.
\<close>

definition queue_tail :: "nat \<Rightarrow> nat" where
  "queue_tail a = a + 8"

definition xmalloc_pair :: "'k wmalloc \<Rightarrow> 'k wheap \<Rightarrow> (nat \<times> 'k wheap) option" where
  "xmalloc_pair malloc w = (case malloc w 16 of Addr a \<Rightarrow> Some (a, w(a \<mapsto> TUninit, a + 8 \<mapsto> TUninit)) | _ \<Rightarrow> None)"

definition free_pair :: "'k wheap \<Rightarrow> nat \<Rightarrow> 'k wheap option" where
  "free_pair w a = (if a \<in> dom w \<and> a + 8 \<in> dom w then Some (w(a := None, a + 8 := None)) else None)"

definition init_queue :: "'k wmalloc \<Rightarrow> 'k wheap \<Rightarrow> (nat ptr \<times> 'k wheap) option" where
  "init_queue malloc w = do {
     (queue, w) \<leftarrow> xmalloc_pair malloc w;
     w \<leftarrow> word_put w queue (TPtr NULL);
     w \<leftarrow> word_put w (queue_tail queue) (TPtr (Addr queue));
     Some (Addr queue, w) }"

text \<open>The parameter \<open>q\<close> is the address of a variable of the type \<open>queue_t\<close>.\<close>

definition queue_is_empty :: "'k wheap \<Rightarrow> nat \<Rightarrow> bool option" where
  "queue_is_empty w q = do {
     b \<leftarrow> word_ptr w q;
     b \<leftarrow> deref b;
     h \<leftarrow> word_ptr w b;
     Some (h \<noteq> NULL) }"

definition enqueue :: "'k wmalloc \<Rightarrow> nat \<Rightarrow> 'k wheap \<Rightarrow> nat ptr \<Rightarrow> 'k wheap option" where
  "enqueue malloc q w v = do {
     (e, w) \<leftarrow> xmalloc_pair malloc w;
     w \<leftarrow> word_put w e (TPtr v);
     w \<leftarrow> word_put w (list_tail e) (TPtr NULL);
     b \<leftarrow> word_ptr w q;
     b \<leftarrow> deref b;
     t \<leftarrow> word_ptr w (queue_tail b);
     t \<leftarrow> deref t;
     w \<leftarrow> word_put w t (TPtr (Addr e));
     b \<leftarrow> word_ptr w q;
     b \<leftarrow> deref b;
     word_put w (queue_tail b) (TPtr (Addr (list_tail e))) }"

definition dequeue :: "nat \<Rightarrow> 'k wheap \<Rightarrow> (nat ptr \<times> 'k wheap) option" where
  "dequeue q w = do {
     b \<leftarrow> word_ptr w q;
     b \<leftarrow> deref b;
     h \<leftarrow> word_ptr w b;
     if h = NULL then Some (NULL, w)
     else do {
       e \<leftarrow> deref h;
       ret \<leftarrow> word_ptr w e;
       n \<leftarrow> word_ptr w (list_tail e);
       w \<leftarrow> (if n = NULL then do {
           w \<leftarrow> word_put w b (TPtr NULL);
           word_put w (queue_tail b) (TPtr (Addr b)) }
         else word_put w b (TPtr n));
       w \<leftarrow> free_pair w e;
       Some (ret, w) } }"

section \<open>The contents of a queue\<close>

definition queue_rep :: "nat \<Rightarrow> nat \<Rightarrow> nat list \<Rightarrow> 'k wheap \<Rightarrow> nat ptr list \<Rightarrow> bool" where
  "queue_rep q b as w es \<longleftrightarrow> finite (dom w) \<and> w q = Some (TPtr (Addr b)) \<and> slist w b as \<and> w (queue_tail b) = Some (TPtr (Addr (end_word b as))) \<and>
     list_all2 (\<lambda>a e. w a = Some (TPtr e)) as es \<and> distinct (q # b # queue_tail b # as @ map list_tail as)"

text \<open>The documented behaviour of \<open>malloc\<close>: it gives memory that is not in use. There is always some in a finite memory.\<close>

definition qmalloc_ok :: "'k wmalloc \<Rightarrow> bool" where
  "qmalloc_ok malloc \<longleftrightarrow> (\<forall>w. finite (dom w) \<longrightarrow> (\<exists>a. malloc w 16 = Addr a \<and> a \<notin> dom w \<and> a + 8 \<notin> dom w))"

lemma end_word_map: "end_word b as = (if as = [] then b else list_tail (last as))"
  by (induction as arbitrary: b) auto

lemma queue_words:
  assumes "queue_rep q b as w es"
  shows "{q, b, queue_tail b} \<union> set as \<union> list_links as \<subseteq> dom w" "list_links as = list_tail ` set as"
proof -
  have "\<And>b. slist w b as \<Longrightarrow> insert b (list_links as) \<subseteq> dom w" by (induction as) auto
  moreover have "list_all2 (\<lambda>a e. w a = Some (TPtr e)) as es \<Longrightarrow> set as \<subseteq> dom w" by (auto simp: list_all2_conv_all_nth in_set_conv_nth)
  ultimately show "{q, b, queue_tail b} \<union> set as \<union> list_links as \<subseteq> dom w" using assms unfolding queue_rep_def by auto
  show "list_links as = list_tail ` set as" by (auto simp: list_links_def)
qed

lemma elems_cong: "list_all2 (\<lambda>a e. w a = Some (TPtr e)) as es \<Longrightarrow> (\<And>a. a \<in> set as \<Longrightarrow> w' a = w a) \<Longrightarrow> list_all2 (\<lambda>a e. w' a = Some (TPtr e)) as es"
  by (auto simp: list_all2_conv_all_nth)

lemma enqueue_rep:
  assumes "queue_rep q b as w es" "malloc w 16 = Addr a" "a \<notin> dom w" "a + 8 \<notin> dom w"
  shows "\<exists>w'. enqueue malloc q w v = Some w' \<and> queue_rep q b (as @ [a]) w' (es @ [v])"
proof -
  let ?e = "end_word b as"
  let ?w = "w(a \<mapsto> TPtr v, list_tail a \<mapsto> TPtr NULL)" and ?w' = "w(a \<mapsto> TPtr v, list_tail a \<mapsto> TPtr NULL, ?e \<mapsto> TPtr (Addr a), queue_tail b \<mapsto> TPtr (Addr (list_tail a)))"
  have r: "finite (dom w)" "w q = Some (TPtr (Addr b))" "slist w b as" "w (queue_tail b) = Some (TPtr (Addr ?e))"
    "list_all2 (\<lambda>a e. w a = Some (TPtr e)) as es" "distinct (q # b # queue_tail b # as @ map list_tail as)" using assms(1) by (simp_all add: queue_rep_def)
  note d = queue_words [OF assms(1)]
  have t: "list_tail a = a + 8" "list_tail a \<noteq> a" by (simp_all add: list_tail_def)
  have fresh: "a \<notin> {q, b, queue_tail b} \<union> set as \<union> list_links as" "list_tail a \<notin> {q, b, queue_tail b} \<union> set as \<union> list_links as"
    using d(1) assms(3,4) t(1) by (metis subsetD)+
  have e: "?e \<in> insert b (list_links as)" "?e \<in> dom w" using end_word_in [of b as] d(1) by auto
  have disj: "insert b (list_links as) \<inter> insert q (insert (queue_tail b) (set as)) = {}" 
    using r(6) unfolding distinct.simps distinct_append list.set set_append set_map d(2) [symmetric] by blast
  have "?e \<notin> insert q (insert (queue_tail b) (set as))" using e(1) disj by (meson disjoint_iff)
  moreover have "?e \<in> {q, b, queue_tail b} \<union> set as \<union> list_links as" using e(1) by auto
  ultimately have ne: "?e \<noteq> q" "?e \<noteq> queue_tail b" "?e \<notin> set as" "?e \<noteq> a" "?e \<noteq> list_tail a" using fresh by (simp, simp, simp, metis, metis)
  have run: "enqueue malloc q w v = Some ?w'"
    using assms(2) r(2,4) e(2) ne fresh t
    by (auto simp: enqueue_def xmalloc_pair_def word_put_def word_ptr_def deref_def fun_upd_twist)
  have s1: "slist ?w b as" using r(3) fresh by simp
  have "vlist ?w (Addr a) [a]" by simp
  from append_heap [OF s1 this] have "slist (?w(?e \<mapsto> TPtr (Addr a))) b (as @ [a])" using fresh by simp
  then have "slist ?w' b (as @ [a])" using r(6) fresh unfolding d(2) by (simp add: d(2))
  moreover have "list_all2 (\<lambda>a e. ?w' a = Some (TPtr e)) as es" by (rule elems_cong [OF r(5)]) (use r(6) fresh ne in auto)
  then have "list_all2 (\<lambda>a e. ?w' a = Some (TPtr e)) (as @ [a]) (es @ [v])" using fresh ne t by (intro list_all2_appendI) auto
  moreover have "distinct (q # b # queue_tail b # (as @ [a]) @ map list_tail (as @ [a]))" using r(6) fresh t d(2) by auto
  moreover have "?w' q = Some (TPtr (Addr b))" using r(2,6) fresh ne by auto
  moreover have "end_word b (as @ [a]) = list_tail a" by (simp add: end_word_map)
  ultimately have "queue_rep q b (as @ [a]) ?w' (es @ [v])" unfolding queue_rep_def using r(1) by simp
  with run show ?thesis by blast
qed

lemma dequeue_rep:
  assumes "queue_rep q b (a # as) w (e # es)"
  shows "\<exists>w'. dequeue q w = Some (e, w') \<and> queue_rep q b as w' es \<and> dom w' = dom w - {a, list_tail a}"
proof -
  have r: "finite (dom w)" "w q = Some (TPtr (Addr b))" "w b = Some (TPtr (Addr a))" "slist w (list_tail a) as"
    "w (queue_tail b) = Some (TPtr (Addr (end_word b (a # as))))" "w a = Some (TPtr e)" "list_all2 (\<lambda>a e. w a = Some (TPtr e)) as es"
    "distinct (q # b # queue_tail b # a # as @ list_tail a # map list_tail as)" using assms by (simp_all add: queue_rep_def)
  obtain n where n: "w (list_tail a) = Some (TPtr n)" "vlist w n as" using r(4) by (rule slistE)
  have nn: "n = NULL \<longleftrightarrow> as = []" using n(2) by (cases as) auto
  have links: "list_links as = set (map list_tail as)" by (auto simp: list_links_def)
  let ?u = "if n = NULL then w(b \<mapsto> TPtr NULL, queue_tail b \<mapsto> TPtr (Addr b)) else w(b \<mapsto> TPtr n)"
  let ?w' = "?u(a := None, list_tail a := None)"
  have t: "a + 8 = list_tail a" by (simp add: list_tail_def)
  have run: "dequeue q w = Some (e, ?w')"
    using r(2,3,5,6,8) n(1) by (auto simp: dequeue_def word_ptr_def word_put_def free_pair_def deref_def t)
  have ab: "a \<notin> list_links as" "list_tail a \<notin> list_links as" "b \<notin> list_links as" "queue_tail b \<notin> list_links as" "b \<noteq> a" "b \<noteq> list_tail a"
    using r(8) unfolding links by auto
  have "vlist ?u n as" using n(2) ab(3,4) by (cases "n = NULL") simp_all
  then have "vlist ?w' n as" using ab(1,2) by simp
  moreover have "?w' b = Some (TPtr n)" using ab(5,6) r(8) by auto
  ultimately have "slist ?w' b as" by (intro slistI)
  moreover have "list_all2 (\<lambda>a e. ?w' a = Some (TPtr e)) as es" by (rule elems_cong [OF r(7)]) (use r(8) in auto)
  moreover have "?w' (queue_tail b) = Some (TPtr (Addr (end_word b as)))" using r(5,8) nn by (auto simp: end_word_map)
  moreover have "?w' q = Some (TPtr (Addr b))" using r(2,8) by auto
  moreover have d: "dom ?w' = dom w - {a, list_tail a}" using r(3,5) by auto
  moreover have "finite (dom ?w')" unfolding d using r(1) by simp
  ultimately have "queue_rep q b as ?w' es" unfolding queue_rep_def using r(8) by auto
  with run d show ?thesis by blast
qed

lemma queue_empty_rep: "queue_rep q b as w es \<Longrightarrow> queue_is_empty w q = Some (es \<noteq> []) \<and> (es = [] \<longrightarrow> dequeue q w = Some (NULL, w))"
  unfolding queue_rep_def by (cases as; cases es) (auto simp: queue_is_empty_def dequeue_def word_ptr_def deref_def)

lemma init_queue_rep:
  assumes "finite (dom w)" "malloc w 16 = Addr a" "a \<notin> dom w" "a + 8 \<notin> dom w" "q \<in> dom w"
  shows "\<exists>w'. init_queue malloc w = Some (Addr a, w') \<and> queue_rep q a [] (w'(q \<mapsto> TPtr (Addr a))) []"
  using assms by (auto simp: init_queue_def xmalloc_pair_def word_put_def queue_tail_def queue_rep_def)

section \<open>The queue implements the interface\<close>

text \<open>The state of the program: the allocator, the variable of the type \<open>queue_t\<close>, and the memory.\<close>

record 'k queue_state =
  qs_malloc :: "'k wmalloc"
  qs_var :: nat
  qs_mem :: "'k wheap"

definition qs_enqueue :: "'k queue_state \<Rightarrow> nat ptr \<Rightarrow> 'k queue_state option" where
  "qs_enqueue s v = map_option (\<lambda>w. s\<lparr>qs_mem := w\<rparr>) (enqueue (qs_malloc s) (qs_var s) (qs_mem s) v)"

definition qs_dequeue :: "'k queue_state \<Rightarrow> (nat ptr \<times> 'k queue_state) option" where
  "qs_dequeue s = map_option (\<lambda>(v, w). (v, s\<lparr>qs_mem := w\<rparr>)) (dequeue (qs_var s) (qs_mem s))"

definition queue_at :: "'k queue_state \<Rightarrow> nat ptr list \<Rightarrow> bool" where
  "queue_at s es \<longleftrightarrow> qmalloc_ok (qs_malloc s) \<and> (\<exists>b as. queue_rep (qs_var s) b as (qs_mem s) es)"

interpretation cq: fifo_queue queue_at qs_enqueue qs_dequeue NULL
proof unfold_locales
  fix s :: "'k queue_state" and xs x
  assume "queue_at s xs"
  then obtain b as where r: "qmalloc_ok (qs_malloc s)" "queue_rep (qs_var s) b as (qs_mem s) xs" by (auto simp: queue_at_def)
  then have "finite (dom (qs_mem s))" by (simp add: queue_rep_def)
  with r(1) obtain a where "qs_malloc s (qs_mem s) 16 = Addr a" "a \<notin> dom (qs_mem s)" "a + 8 \<notin> dom (qs_mem s)" unfolding qmalloc_ok_def by blast
  from enqueue_rep [where malloc = "qs_malloc s", OF r(2) this] r(1) show "\<exists>s'. qs_enqueue s x = Some s' \<and> queue_at s' (xs @ [x])"
    by (fastforce simp: qs_enqueue_def queue_at_def)
next
  fix s :: "'k queue_state" and x xs
  assume "queue_at s (x # xs)"
  then obtain b as where r: "qmalloc_ok (qs_malloc s)" "queue_rep (qs_var s) b as (qs_mem s) (x # xs)" by (auto simp: queue_at_def)
  then obtain a cs where "as = a # cs" by (cases as) (auto simp: queue_rep_def)
  with r(2) have "queue_rep (qs_var s) b (a # cs) (qs_mem s) (x # xs)" by simp
  from dequeue_rep [OF this] r(1) show "\<exists>s'. qs_dequeue s = Some (x, s') \<and> queue_at s' xs"
    by (fastforce simp: qs_dequeue_def queue_at_def)
next
  fix s :: "'k queue_state"
  assume "queue_at s []"
  then show "qs_dequeue s = Some (NULL, s)" using queue_empty_rep by (fastforce simp: qs_dequeue_def queue_at_def)
qed

text \<open>
  C31. The queue of \<open>queue.c\<close> is first in, first out: any sequence of calls of \<open>enqueue\<close> and \<open>dequeue\<close> on a queue with the elements \<open>es\<close> returns, gives
  the results that the same calls on a list give (\<open>NULL\<close> when the queue is empty), and leaves the queue with the elements of the list. The function
  \<open>is_empty\<close> gives true exactly when there are elements. The hypothesis in \<open>queue_at\<close> is that \<open>malloc\<close> gives memory not in use.
\<close>

theorem queue_is_fifo:
  assumes "queue_at s es"
  shows "(\<exists>s'. queue_run qs_enqueue qs_dequeue cs s = Some (fst (fifo_run NULL cs es), s') \<and> queue_at s' (snd (fifo_run NULL cs es))) \<and>
    queue_is_empty (qs_mem s) (qs_var s) = Some (es \<noteq> [])"
proof
  show "\<exists>s'. queue_run qs_enqueue qs_dequeue cs s = Some (fst (fifo_run NULL cs es), s') \<and> queue_at s' (snd (fifo_run NULL cs es))"
    by (rule cq.run_fifo [OF assms])
  obtain b as where "queue_rep (qs_var s) b as (qs_mem s) es" using assms unfolding queue_at_def by blast
  from queue_empty_rep [OF this] show "queue_is_empty (qs_mem s) (qs_var s) = Some (es \<noteq> [])" ..
qed

text \<open>An allocator that gives the words above all that are in use, and a memory with an empty queue at 16 and its variable at 8.\<close>

definition demo_malloc :: "'k wmalloc" where
  "demo_malloc w n = Addr (Suc (Max (insert 0 (dom w))))"

definition demo_queue :: "'k queue_state" where
  "demo_queue = \<lparr>qs_malloc = demo_malloc, qs_var = 8, qs_mem = [8 \<mapsto> TPtr (Addr 16), 16 \<mapsto> TPtr NULL, 24 \<mapsto> TPtr (Addr 16)]\<rparr>"

lemma demo_qmalloc_ok: "qmalloc_ok demo_malloc"
  unfolding qmalloc_ok_def
proof (intro allI impI)
  fix w :: "'k wheap"
  assume "finite (dom w)"
  then have "x \<le> Max (insert 0 (dom w))" if "x \<in> dom w" for x using that by (intro Max_ge) auto
  then have "Suc (Max (insert 0 (dom w))) \<notin> dom w" "Suc (Max (insert 0 (dom w))) + 8 \<notin> dom w" by (meson Suc_n_not_le_n, fastforce)
  then show "\<exists>a. demo_malloc w 16 = Addr a \<and> a \<notin> dom w \<and> a + 8 \<notin> dom w" unfolding demo_malloc_def by blast
qed

theorem queue_is_fifo_witness:
  "\<exists>s'. queue_run qs_enqueue qs_dequeue [Enqueue (Addr 1), Enqueue (Addr 2), Dequeue, Dequeue, Dequeue] (demo_queue :: nat queue_state) =
     Some ([Addr 1, Addr 2, NULL], s') \<and> queue_at s' []"
proof -
  have "queue_rep 8 16 [] (qs_mem (demo_queue :: nat queue_state)) []" by (auto simp: queue_rep_def demo_queue_def queue_tail_def)
  then have "queue_at (demo_queue :: nat queue_state) []" using demo_qmalloc_ok by (auto simp: queue_at_def demo_queue_def)
  from queue_is_fifo [OF this, of "[Enqueue (Addr 1), Enqueue (Addr 2), Dequeue, Dequeue, Dequeue]"] show ?thesis
    by (simp del: queue_run.simps)
qed

end
