(* ===== verification/Binary_Search.thy ===== *)
theory Binary_Search
  imports Prelude
begin

text \<open>
  Binary search with a comparison function, \<open>src/examples/binary_search.c\<close>. The array \<open>xs\<close> has pointers into the memory, which the comparison
  function reads; the memory of the functions below the search has integers of type \<open>size_t\<close>. \<open>malloc\<close> and \<open>free\<close> are
  not in the repository: \<open>malloc\<close> is a parameter that gives a free address and what the memory there holds, and \<open>None\<close> for the null pointer, on
  which \<open>xmalloc\<close> does not return; \<open>free\<close> takes the cell away.
\<close>

section \<open>The program\<close>

text \<open>The middle is in the interval, and nothing wraps around.\<close>

lemma middle:
  assumes "l < (r :: u64)"
  shows "unat (l + (r - l) div 2) = unat l + (unat r - unat l) div 2"
    and "unat l \<le> unat (l + (r - l) div 2)" "unat (l + (r - l) div 2) < unat r"
    and "unat (l + (r - l) div 2 + 1) = Suc (unat (l + (r - l) div 2))"
proof -
  have lr: "unat l < unat r" using assms by (simp add: word_less_nat_alt)
  have r: "unat r < 2 ^ 64" using unsigned_less [of r] by simp
  have d: "unat (r - l) = unat r - unat l" using assms by (simp add: unat_sub less_imp_le)
  have "unat ((r - l) div 2) = (unat r - unat l) div 2" using d by (simp add: unat_div)
  moreover have s: "unat l + (unat r - unat l) div 2 < unat r" using lr by linarith
  ultimately show m: "unat (l + (r - l) div 2) = unat l + (unat r - unat l) div 2"
    using r by (simp add: unat_word_ariths)
  then show "unat l \<le> unat (l + (r - l) div 2)" "unat (l + (r - l) div 2) < unat r" using s by simp_all
  then show "unat (l + (r - l) div 2 + 1) = Suc (unat (l + (r - l) div 2))"
    using r by (simp add: unat_word_ariths)
qed

function binary_search_loop ::
  "('m \<Rightarrow> 'p \<Rightarrow> 'p \<Rightarrow> bool option) \<Rightarrow> 'm \<Rightarrow> 'p list \<Rightarrow> 'p \<Rightarrow> u64 \<Rightarrow> u64 \<Rightarrow> u64 option" where
  "binary_search_loop cmp m xs x l r =
     (if l < r then
        let k = l + (r - l) div 2 in
        Option.bind (arr_get xs (unat k)) (\<lambda>p.
        Option.bind (cmp m p x) (\<lambda>b.
          if b then binary_search_loop cmp m xs x (k + 1) r
          else binary_search_loop cmp m xs x l k))
      else Some l)"
  by auto

termination
proof (relation "measure (\<lambda>(cmp, m, xs, x, l, r). unat r - unat l)", goal_cases)
  case (2 cmp m xs x l r k p b)
  then show ?case using middle(2-4) [of l r] by auto
next
  case (3 cmp m xs x l r k p b)
  then show ?case using middle(2-4) [of l r] by auto
qed simp

declare binary_search_loop.simps [simp del]

definition binary_search :: "('m \<Rightarrow> 'p \<Rightarrow> 'p \<Rightarrow> bool option) \<Rightarrow> 'm \<Rightarrow> 'p list \<Rightarrow> u64 \<Rightarrow> 'p \<Rightarrow> u64 option" where
  "binary_search cmp m xs n x = (let l = 0; r = n in binary_search_loop cmp m xs x l r)"

type_synonym szheap = "(nat, u64) heap"

definition compare_int :: "szheap \<Rightarrow> nat ptr \<Rightarrow> nat ptr \<Rightarrow> bool option" where
  "compare_int h x y = do {
     xi \<leftarrow> load h x;
     yi \<leftarrow> load h y;
     Some (xi \<le> yi) }"

definition xmalloc_size :: "(szheap \<Rightarrow> (nat \<times> u64) option) \<Rightarrow> szheap \<Rightarrow> (nat ptr \<times> szheap) option" where
  "xmalloc_size malloc h = do { (a, garbage) \<leftarrow> malloc h; Some (Addr a, h(a \<mapsto> garbage)) }"

definition free_size :: "szheap \<Rightarrow> nat ptr \<Rightarrow> szheap option" where
  "free_size h p = (case p of Addr a \<Rightarrow> if h a = None then None else Some (h(a := None)) | _ \<Rightarrow> None)"

text \<open>\<open>test\<close>; \<open>a\<close> is the address of the local variable \<open>needle\<close>, and the array \<open>ptrs\<close> is a list.\<close>

definition binary_search_test :: "(szheap \<Rightarrow> (nat \<times> u64) option) \<Rightarrow> nat \<Rightarrow> szheap \<Rightarrow> szheap option" where
  "binary_search_test malloc a h = do {
     (p0, h) \<leftarrow> xmalloc_size malloc h;
     (p1, h) \<leftarrow> xmalloc_size malloc h;
     (p2, h) \<leftarrow> xmalloc_size malloc h;
     (p3, h) \<leftarrow> xmalloc_size malloc h;
     (p4, h) \<leftarrow> xmalloc_size malloc h;
     h \<leftarrow> modify h p0 (\<lambda>_. 0);
     h \<leftarrow> modify h p1 (\<lambda>_. 1);
     h \<leftarrow> modify h p2 (\<lambda>_. 2);
     h \<leftarrow> modify h p3 (\<lambda>_. 3);
     h \<leftarrow> modify h p4 (\<lambda>_. 4);
     h \<leftarrow> modify h (Addr a) (\<lambda>_. 2);
     res \<leftarrow> binary_search compare_int h [p0, p1, p2, p3, p4] 5 (Addr a);
     c_assert (sint (ucast res :: u32) = 3);
     h \<leftarrow> free_size h p0;
     h \<leftarrow> free_size h p1;
     h \<leftarrow> free_size h p2;
     h \<leftarrow> free_size h p3;
     free_size h p4 }"

section \<open>Properties\<close>

lemma binary_search_loop_ok:
  assumes "\<And>i. i < n \<Longrightarrow> cmp m (xs ! i) x = Some (P i)" "\<And>i j. i < j \<Longrightarrow> j < n \<Longrightarrow> P j \<Longrightarrow> P i" "n \<le> length xs"
    and "unat l \<le> unat r" "unat r \<le> n" "\<And>i. i < unat l \<Longrightarrow> P i" "\<And>i. unat r \<le> i \<Longrightarrow> i < n \<Longrightarrow> \<not> P i"
  shows "\<exists>k. binary_search_loop cmp m xs x l r = Some k \<and> unat k \<le> n \<and> (\<forall>i<n. P i \<longleftrightarrow> i < unat k)"
  using assms(4-)
proof (induction "unat r - unat l" arbitrary: l r rule: less_induct)
  case less
  show ?case
  proof (cases "l < r")
    case False
    then have "unat l = unat r" using less.prems(1) by (simp add: word_less_nat_alt)
    then have "\<forall>i<n. P i \<longleftrightarrow> i < unat l" using less.prems(3,4) by (metis not_le)
    with False less.prems show ?thesis by (subst binary_search_loop.simps) auto
  next
    case True
    let ?k = "l + (r - l) div 2"
    note k = middle(2-4) [OF True]
    have kn: "unat ?k < n" using k(2) less.prems(2) by simp
    then have run: "binary_search_loop cmp m xs x l r =
        (if P (unat ?k) then binary_search_loop cmp m xs x (?k + 1) r else binary_search_loop cmp m xs x l ?k)"
      using True assms(1,3) by (subst binary_search_loop.simps) (simp add: Let_def)
    show ?thesis
    proof (cases "P (unat ?k)")
      case pk: True
      then have "P i" if "i < unat (?k + 1)" for i
        using that assms(2) [of i "unat ?k"] kn k(3) by (cases "i = unat ?k") auto
      then have "\<exists>k. binary_search_loop cmp m xs x (?k + 1) r = Some k \<and> unat k \<le> n \<and> (\<forall>i<n. P i \<longleftrightarrow> i < unat k)"
        using less.prems k by (intro less.hyps) auto
      then show ?thesis using run pk by simp
    next
      case pk: False
      then have "\<not> P i" if "unat ?k \<le> i" "i < n" for i
        using that assms(2) [of "unat ?k" i] by (cases "i = unat ?k") auto
      then have "\<exists>k. binary_search_loop cmp m xs x l ?k = Some k \<and> unat k \<le> n \<and> (\<forall>i<n. P i \<longleftrightarrow> i < unat k)"
        using less.prems k by (intro less.hyps) auto
      then show ?thesis using run pk by simp
    qed
  qed
qed

text \<open>
  C33. Binary search finds the boundary: when the comparison with \<open>x\<close> succeeds on every element of the array and holds on a prefix of it, the
  search returns the length of that prefix, with no access out of bounds and no overflow for every length of type \<open>size_t\<close>.
\<close>

theorem binary_search_spec:
  assumes "\<And>i. i < unat n \<Longrightarrow> cmp m (xs ! i) x = Some (P i)"
    and "\<And>i j. i < j \<Longrightarrow> j < unat n \<Longrightarrow> P j \<Longrightarrow> P i" "unat n \<le> length xs"
  shows "\<exists>k. binary_search cmp m xs n x = Some k \<and> unat k = card {i. i < unat n \<and> P i} \<and>
    (\<forall>i<unat n. P i \<longleftrightarrow> i < unat k)"
proof -
  obtain k where k: "binary_search cmp m xs n x = Some k" "unat k \<le> unat n" "\<forall>i<unat n. P i \<longleftrightarrow> i < unat k"
    using binary_search_loop_ok [of "unat n" cmp m xs x P 0 n] assms by (auto simp: binary_search_def)
  then have "{i. i < unat n \<and> P i} = {..<unat k}" by auto
  with k show ?thesis by auto
qed

theorem binary_search_spec_witness:
  "\<exists>k. binary_search compare_int [10 \<mapsto> 4, 11 \<mapsto> 6, 12 \<mapsto> 9, 20 \<mapsto> 6] [Addr 10, Addr 11, Addr 12] 3 (Addr 20) = Some k \<and> unat k = 2"
proof -
  let ?h = "[10 \<mapsto> 4, 11 \<mapsto> 6, 12 \<mapsto> 9, 20 \<mapsto> 6] :: szheap" and ?P = "\<lambda>i. i < (2 :: nat)"
  have "compare_int ?h ([Addr 10, Addr 11, Addr 12] ! i) (Addr 20) = Some (?P i)" if "i < unat (3 :: u64)" for i
  proof -
    from that have "i = 0 \<or> i = 1 \<or> i = 2" by auto
    then show ?thesis by (auto simp: compare_int_def load_def)
  qed
  moreover have "{i. i < unat (3 :: u64) \<and> ?P i} = {..<2}" by auto
  ultimately show ?thesis
    using binary_search_spec [of 3 compare_int ?h "[Addr 10, Addr 11, Addr 12]" "Addr 20" ?P] by auto
qed

text \<open>The test program returns, whatever \<open>malloc\<close> gives, and frees all that it allocated.\<close>

lemma xmalloc_size_ok:
  assumes "\<And>h. finite (dom h) \<Longrightarrow> \<exists>b g. malloc h = Some (b, g) \<and> h b = None" "finite (dom h)"
  obtains b g where "xmalloc_size malloc h = Some (Addr b, h(b \<mapsto> g))" "h b = None" "finite (dom (h(b \<mapsto> g)))"
  using assms(1) [OF assms(2)] assms(2) that by (auto simp: xmalloc_size_def)

lemma binary_search_test_ok:
  assumes m: "\<And>h. finite (dom h) \<Longrightarrow> \<exists>b g. malloc h = Some (b, g) \<and> h b = None" and h: "finite (dom h)" "h a \<noteq> None"
  shows "binary_search_test malloc a h = Some (h(a \<mapsto> 2))"
proof -
  obtain b0 g0 where 0: "xmalloc_size malloc h = Some (Addr b0, h(b0 \<mapsto> g0))" "h b0 = None" "finite (dom (h(b0 \<mapsto> g0)))"
    by (rule xmalloc_size_ok [OF m h(1)])
  let ?h0 = "h(b0 \<mapsto> g0)"
  obtain b1 g1 where 1: "xmalloc_size malloc ?h0 = Some (Addr b1, ?h0(b1 \<mapsto> g1))" "?h0 b1 = None" "finite (dom (?h0(b1 \<mapsto> g1)))"
    by (rule xmalloc_size_ok [OF m 0(3)])
  let ?h1 = "?h0(b1 \<mapsto> g1)"
  obtain b2 g2 where 2: "xmalloc_size malloc ?h1 = Some (Addr b2, ?h1(b2 \<mapsto> g2))" "?h1 b2 = None" "finite (dom (?h1(b2 \<mapsto> g2)))"
    by (rule xmalloc_size_ok [OF m 1(3)])
  let ?h2 = "?h1(b2 \<mapsto> g2)"
  obtain b3 g3 where 3: "xmalloc_size malloc ?h2 = Some (Addr b3, ?h2(b3 \<mapsto> g3))" "?h2 b3 = None" "finite (dom (?h2(b3 \<mapsto> g3)))"
    by (rule xmalloc_size_ok [OF m 2(3)])
  let ?h3 = "?h2(b3 \<mapsto> g3)"
  obtain b4 g4 where 4: "xmalloc_size malloc ?h3 = Some (Addr b4, ?h3(b4 \<mapsto> g4))" "?h3 b4 = None"
    by (rule xmalloc_size_ok [OF m 3(3)])
  let ?xs = "[Addr b0, Addr b1, Addr b2, Addr b3, Addr b4]"
  let ?h = "h(b0 \<mapsto> 0, b1 \<mapsto> 1, b2 \<mapsto> 2, b3 \<mapsto> 3, b4 \<mapsto> 4, a \<mapsto> 2)"
  have d: "distinct [a, b0, b1, b2, b3, b4]" using h(2) 0(2) 1(2) 2(2) 3(2) 4(2) by (auto split: if_splits)
  have "compare_int ?h (?xs ! i) (Addr a) = Some (i < 3)" if "i < unat (5 :: u64)" for i
  proof -
    from that have "i = 0 \<or> i = 1 \<or> i = 2 \<or> i = 3 \<or> i = 4" by auto
    then show ?thesis using d by (auto simp: compare_int_def load_def)
  qed
  then obtain k where k: "binary_search compare_int ?h ?xs 5 (Addr a) = Some k" "\<forall>i<unat (5 :: u64). i < 3 \<longleftrightarrow> i < unat k" "unat k \<le> 5"
    using binary_search_loop_ok [of 5 compare_int ?h ?xs "Addr a" "\<lambda>i. i < 3" 0 5] by (auto simp: binary_search_def)
  have "k = 3"
  proof -
    have "(2 < unat k) \<and> \<not> 3 < unat k" using spec [OF k(2), of 2] spec [OF k(2), of 3] by simp
    then show ?thesis by (simp add: word_unat_eq_iff)
  qed
  moreover have "?h(b0 := None, b1 := None, b2 := None, b3 := None, b4 := None) = h(a \<mapsto> 2)"
    using 0(2) 1(2) 2(2) 3(2) 4(2) d by (auto simp: fun_eq_iff split: if_splits)
  moreover have "distinct [b4, b3, b2, b1, b0, a]" using d by auto
  moreover obtain y where "h a = Some y" using h(2) by blast
  ultimately show ?thesis
    using 0(1) 1(1) 2(1) 3(1) 4(1) k(1) d
    by (simp add: binary_search_test_def modify_def free_size_def fun_upd_twist)
qed

end
