(* ===== verification/Quick_Sort.thy ===== *)
theory Quick_Sort
  imports Prelude "HOL-Library.Multiset"
begin

text \<open>
  Quicksort on an array, \<open>src/examples/quick_sort.c\<close>. The elements and the indices have the type \<open>int\<close> of 32 bits:
  an index outside of the array, and an addition or subtraction on indices that leaves the range of the type, give
  \<open>None\<close>. The elements are only compared and copied.
\<close>

section \<open>The program\<close>

definition i32 :: "int \<Rightarrow> int option" where
  "i32 x = (if - (2 ^ 31) \<le> x \<and> x < 2 ^ 31 then Some x else None)"

definition iget :: "int list \<Rightarrow> int \<Rightarrow> int option" where
  "iget xs i = (if 0 \<le> i \<and> i < int (length xs) then Some (xs ! nat i) else None)"

definition iset :: "int list \<Rightarrow> int \<Rightarrow> int \<Rightarrow> int list option" where
  "iset xs i v = (if 0 \<le> i \<and> i < int (length xs) then Some (xs[nat i := v]) else None)"

text \<open>The two inner loops of \<open>partition\<close>.\<close>

partial_function (option) scan_down :: "int list \<Rightarrow> int \<Rightarrow> int \<Rightarrow> int \<Rightarrow> int option" where
  "scan_down arr key i j =
     (if i < j then Option.bind (iget arr j) (\<lambda>v.
        if v \<ge> key then Option.bind (i32 (j - 1)) (\<lambda>j. scan_down arr key i j) else Some j)
      else Some j)"

partial_function (option) scan_up :: "int list \<Rightarrow> int \<Rightarrow> int \<Rightarrow> int \<Rightarrow> int option" where
  "scan_up arr key i j =
     (if i < j then Option.bind (iget arr i) (\<lambda>v.
        if v \<le> key then Option.bind (i32 (i + 1)) (\<lambda>i. scan_up arr key i j) else Some i)
      else Some i)"

text \<open>The outer loop.\<close>

partial_function (option) partition_loop :: "int list \<Rightarrow> int \<Rightarrow> int \<Rightarrow> int \<Rightarrow> (int \<times> int list) option" where
  "partition_loop arr key i j =
     (if i < j then
        Option.bind (scan_down arr key i j) (\<lambda>j.
        Option.bind (iget arr j) (\<lambda>v.
        Option.bind (iset arr i v) (\<lambda>arr.
        Option.bind (scan_up arr key i j) (\<lambda>i.
        Option.bind (iget arr i) (\<lambda>v.
        Option.bind (iset arr j v) (\<lambda>arr. partition_loop arr key i j))))))
      else Some (i, arr))"

definition qs_partition :: "int list \<Rightarrow> int \<Rightarrow> int \<Rightarrow> (int \<times> int list) option" where
  "qs_partition arr lo hi = do {
     let i = lo;
     let j = hi;
     key \<leftarrow> iget arr i;
     (i, arr) \<leftarrow> partition_loop arr key i j;
     arr \<leftarrow> iset arr i key;
     Some (i, arr) }"

partial_function (option) qsort :: "int list \<Rightarrow> int \<Rightarrow> int \<Rightarrow> int list option" where
  "qsort arr lo hi =
     (if lo < hi then
        Option.bind (qs_partition arr lo hi) (\<lambda>(k, arr).
        Option.bind (i32 (k - 1)) (\<lambda>k1.
        Option.bind (qsort arr lo k1) (\<lambda>arr.
        Option.bind (i32 (k + 1)) (\<lambda>k2. qsort arr k2 hi))))
      else Some arr)"

section \<open>Ranges of an array\<close>

text \<open>Every element with an index from \<open>a\<close> to \<open>b\<close>.\<close>

definition all_in :: "int \<Rightarrow> int \<Rightarrow> (int \<Rightarrow> bool) \<Rightarrow> int list \<Rightarrow> bool" where
  "all_in a b P xs \<longleftrightarrow> (\<forall>k. a \<le> k \<and> k \<le> b \<longrightarrow> P (xs ! nat k))"

text \<open>\<open>ys\<close> has the elements of \<open>xs\<close>, and the same ones outside of the range from \<open>lo\<close> to \<open>hi\<close>.\<close>

definition range_perm :: "int \<Rightarrow> int \<Rightarrow> int list \<Rightarrow> int list \<Rightarrow> bool" where
  "range_perm lo hi xs ys \<longleftrightarrow> mset ys = mset xs \<and> (\<forall>i. int i < lo \<or> hi < int i \<longrightarrow> i < length xs \<longrightarrow> ys ! i = xs ! i)"

definition sorted_in :: "int \<Rightarrow> int \<Rightarrow> int list \<Rightarrow> bool" where
  "sorted_in lo hi xs \<longleftrightarrow> (\<forall>i j. lo \<le> i \<and> i \<le> j \<and> j \<le> hi \<longrightarrow> xs ! nat i \<le> xs ! nat j)"

lemma range_perm_length: "range_perm lo hi xs ys \<Longrightarrow> length ys = length xs"
  by (auto simp: range_perm_def dest: mset_eq_length)

lemma range_perm_out: "range_perm lo hi xs ys \<Longrightarrow> int i < lo \<or> hi < int i \<Longrightarrow> i < length xs \<Longrightarrow> ys ! i = xs ! i"
  by (auto simp: range_perm_def)

lemma range_perm_refl: "range_perm lo hi xs xs"
  by (simp add: range_perm_def)

lemma range_perm_trans: "range_perm lo hi xs ys \<Longrightarrow> range_perm lo hi ys zs \<Longrightarrow> range_perm lo hi xs zs"
  using range_perm_length [of lo hi xs ys] by (auto simp: range_perm_def)

lemma range_perm_mono: "range_perm a b xs ys \<Longrightarrow> lo \<le> a \<Longrightarrow> b \<le> hi \<Longrightarrow> range_perm lo hi xs ys"
  by (auto simp: range_perm_def)

lemma iget_in [simp]: "0 \<le> i \<Longrightarrow> i < int (length xs) \<Longrightarrow> iget xs i = Some (xs ! nat i)"
  by (simp add: iget_def)

lemma iset_in [simp]: "0 \<le> i \<Longrightarrow> i < int (length xs) \<Longrightarrow> iset xs i v = Some (xs[nat i := v])"
  by (simp add: iset_def)

lemma i32_in [simp]: "- (2 ^ 31) \<le> x \<Longrightarrow> x < 2 ^ 31 \<Longrightarrow> i32 x = Some x"
  by (simp add: i32_def)

lemma nth_upd: "0 \<le> i \<Longrightarrow> 0 \<le> k \<Longrightarrow> i < int (length xs) \<Longrightarrow> xs[nat i := v] ! nat k = (if k = i then v else xs ! nat k)"
  by (auto simp: nth_list_update nat_eq_iff2)

text \<open>A property of all elements of the range is one of the permuted range.\<close>

lemma range_perm_slice:
  assumes "range_perm lo hi xs ys" "0 \<le> lo" "lo \<le> hi" "hi < int (length xs)"
  defines "a \<equiv> nat lo" and "n \<equiv> nat (hi - lo + 1)"
  shows "mset (take n (drop a ys)) = mset (take n (drop a xs))"
proof -
  have l: "length ys = length xs" using assms(1) by (rule range_perm_length)
  have an: "a + n \<le> length xs" "int (a + n) = hi + 1" "int a = lo" using assms by (auto simp: a_def n_def)
  have out: "ys ! i = xs ! i" if "i < a \<or> a + n \<le> i" "i < length xs" for i
  proof -
    have "int i < lo \<or> hi < int i" using that(1) an(2,3) by linarith
    then show ?thesis using assms(1) that(2) by (intro range_perm_out)
  qed
  have "take a ys = take a xs" using out an l by (auto intro!: nth_equalityI)
  moreover have "drop (a + n) ys = drop (a + n) xs" using out an l by (auto intro!: nth_equalityI)
  moreover have "zs = take a zs @ take n (drop a zs) @ drop (a + n) zs" for zs :: "int list"
    by (metis append_take_drop_id drop_drop add.commute)
  ultimately have "mset xs = mset (take a xs) + mset (take n (drop a xs)) + mset (drop (a + n) xs)"
    "mset ys = mset (take a xs) + mset (take n (drop a ys)) + mset (drop (a + n) xs)"
    by (metis mset_append union_assoc)+
  moreover have "mset ys = mset xs" using assms(1) by (simp add: range_perm_def)
  ultimately show ?thesis by simp
qed

lemma all_in_slice:
  assumes "0 \<le> lo" "lo \<le> hi" "hi < int (length xs)"
  shows "all_in lo hi P xs \<longleftrightarrow> (\<forall>x\<in>set (take (nat (hi - lo + 1)) (drop (nat lo) xs)). P x)"
proof -
  let ?n = "nat (hi - lo + 1)"
  have l: "length (take ?n (drop (nat lo) xs)) = ?n" using assms by simp
  have "all_in lo hi P xs \<longleftrightarrow> (\<forall>i<?n. P (xs ! (nat lo + i)))"
  proof
    assume r: "\<forall>i<?n. P (xs ! (nat lo + i))"
    show "all_in lo hi P xs" unfolding all_in_def
    proof (intro allI impI)
      fix k assume k: "lo \<le> k \<and> k \<le> hi"
      then have "nat (k - lo) < ?n" "nat lo + nat (k - lo) = nat k" using assms by auto
      with r show "P (xs ! nat k)" by metis
    qed
  next
    assume "all_in lo hi P xs"
    then show "\<forall>i<?n. P (xs ! (nat lo + i))" unfolding all_in_def
    proof (intro allI impI)
      fix i assume a: "\<forall>k. lo \<le> k \<and> k \<le> hi \<longrightarrow> P (xs ! nat k)" and i: "i < ?n"
      from i assms have "lo \<le> lo + int i" "lo + int i \<le> hi" "nat (lo + int i) = nat lo + i" by auto
      with a show "P (xs ! (nat lo + i))" by metis
    qed
  qed
  also have "\<dots> \<longleftrightarrow> (\<forall>i<?n. P (take ?n (drop (nat lo) xs) ! i))" using assms by simp
  finally show ?thesis using l by (simp add: all_set_conv_all_nth)
qed

lemma all_in_perm:
  assumes "range_perm lo hi xs ys" "all_in lo hi P xs" "0 \<le> lo" "hi < int (length xs)"
  shows "all_in lo hi P ys"
proof (cases "lo \<le> hi")
  case True
  have "mset (take (nat (hi - lo + 1)) (drop (nat lo) ys)) = mset (take (nat (hi - lo + 1)) (drop (nat lo) xs))"
    by (rule range_perm_slice [OF assms(1,3) True assms(4)])
  then have "set (take (nat (hi - lo + 1)) (drop (nat lo) ys)) = set (take (nat (hi - lo + 1)) (drop (nat lo) xs))"
    by (rule mset_eq_setD)
  then show ?thesis using assms True range_perm_length [OF assms(1)] by (simp add: all_in_slice)
qed (auto simp: all_in_def)

lemma all_in_out:
  assumes "range_perm lo hi xs ys" "all_in a b P xs" "b < lo \<or> hi < a" "0 \<le> a" "b < int (length xs)"
  shows "all_in a b P ys"
  unfolding all_in_def
proof (intro allI impI)
  fix k assume k: "a \<le> k \<and> k \<le> b"
  then have "int (nat k) < lo \<or> hi < int (nat k)" "nat k < length xs" using assms(3-5) by auto
  then have "ys ! nat k = xs ! nat k" using assms(1) by (intro range_perm_out)
  with k assms(2) show "P (ys ! nat k)" by (simp add: all_in_def)
qed

lemma all_in_split: "all_in a b P xs \<Longrightarrow> a \<le> c \<Longrightarrow> d \<le> b \<Longrightarrow> all_in c d P xs"
  by (auto simp: all_in_def)

section \<open>Partition\<close>

lemma scan_down_ok:
  assumes "0 \<le> i" "i \<le> j" "j < int (length arr)" "length arr < 2 ^ 31" "all_in (j + 1) hi (\<lambda>x. key \<le> x) arr"
  shows "\<exists>j'. scan_down arr key i j = Some j' \<and> i \<le> j' \<and> j' \<le> j \<and> all_in (j' + 1) hi (\<lambda>x. key \<le> x) arr \<and>
    (i < j' \<longrightarrow> arr ! nat j' < key)"
  using assms
proof (induction "nat (j - i)" arbitrary: j rule: less_induct)
  case less
  show ?case
  proof (cases "i < j \<and> key \<le> arr ! nat j")
    case True
    have "all_in (j - 1 + 1) hi (\<lambda>x. key \<le> x) arr"
      unfolding all_in_def using less.prems(5) True
      by (metis all_in_def diff_add_cancel order_le_less zless_imp_add1_zle)
    then obtain j' where "scan_down arr key i (j - 1) = Some j'" "i \<le> j'" "j' \<le> j - 1" "all_in (j' + 1) hi (\<lambda>x. key \<le> x) arr"
      "i < j' \<longrightarrow> arr ! nat j' < key"
      using less.hyps [of "j - 1"] less.prems True by auto
    then show ?thesis using True less.prems by (subst scan_down.simps) auto
  next
    case False
    then show ?thesis using less.prems by (subst scan_down.simps) auto
  qed
qed

lemma scan_up_ok:
  assumes "0 \<le> i" "i \<le> j" "j < int (length arr)" "length arr < 2 ^ 31" "all_in lo (i - 1) (\<lambda>x. x \<le> key) arr"
  shows "\<exists>i'. scan_up arr key i j = Some i' \<and> i \<le> i' \<and> i' \<le> j \<and> all_in lo (i' - 1) (\<lambda>x. x \<le> key) arr \<and>
    (i' < j \<longrightarrow> key < arr ! nat i')"
  using assms
proof (induction "nat (j - i)" arbitrary: i rule: less_induct)
  case less
  show ?case
  proof (cases "i < j \<and> arr ! nat i \<le> key")
    case True
    have "all_in lo (i + 1 - 1) (\<lambda>x. x \<le> key) arr"
      unfolding all_in_def using less.prems(5) True
      by (metis all_in_def add_diff_cancel_right' order_le_less zle_diff1_eq)
    then obtain i' where "scan_up arr key (i + 1) j = Some i'" "i + 1 \<le> i'" "i' \<le> j" "all_in lo (i' - 1) (\<lambda>x. x \<le> key) arr"
      "i' < j \<longrightarrow> key < arr ! nat i'"
      using less.hyps [of "i + 1"] less.prems True by auto
    then show ?thesis using True less.prems by (subst scan_up.simps) auto
  next
    case False
    then show ?thesis using less.prems by (subst scan_up.simps) auto
  qed
qed

text \<open>The element \<open>key\<close> is kept out of the array: the array with \<open>key\<close> put back at the hole has the elements of before.\<close>

lemma hole_move:
  assumes "i < length xs" "j < length xs"
  shows "mset (xs[i := xs ! j, j := key]) = mset (xs[i := key])"
proof (cases "i = j")
  case False
  let ?ys = "xs[i := key]"
  have "?ys[j := ?ys ! i, i := ?ys ! j] = xs[i := xs ! j, j := key]"
    using assms False by (intro nth_equalityI) (auto simp: nth_list_update)
  moreover have "mset (?ys[j := ?ys ! i, i := ?ys ! j]) = mset ?ys" using assms by (intro mset_swap) simp_all
  ultimately show ?thesis by simp
qed simp

definition hole :: "int \<Rightarrow> int \<Rightarrow> int list \<Rightarrow> int \<Rightarrow> int \<Rightarrow> int list \<Rightarrow> bool" where
  "hole lo hi xs key i ys \<longleftrightarrow> length ys = length xs \<and> range_perm lo hi xs (ys[nat i := key])"

lemma hole_step:
  assumes "hole lo hi xs key i ys" "0 \<le> lo" "lo \<le> i" "lo \<le> j" "i \<le> hi" "j \<le> hi" "hi < int (length xs)"
  shows "hole lo hi xs key j (ys[nat i := ys ! nat j])"
proof -
  have b: "nat i < length ys" "nat j < length ys" using assms by (auto simp: hole_def)
  have "range_perm lo hi (ys[nat i := key]) (ys[nat i := ys ! nat j, nat j := key])"
    unfolding range_perm_def
  proof (intro conjI allI impI)
    show "mset (ys[nat i := ys ! nat j, nat j := key]) = mset (ys[nat i := key])" by (rule hole_move [OF b])
    fix k assume "int k < lo \<or> hi < int k" "k < length (ys[nat i := key])"
    moreover then have "k \<noteq> nat i" "k \<noteq> nat j" using assms by (auto split: if_splits)
    ultimately show "ys[nat i := ys ! nat j, nat j := key] ! k = ys[nat i := key] ! k" by simp
  qed
  then show ?thesis using assms(1) by (auto simp: hole_def intro: range_perm_trans)
qed

lemma all_in_upd: "k < a \<or> b < k \<Longrightarrow> 0 \<le> a \<Longrightarrow> 0 \<le> k \<Longrightarrow> all_in a b P (xs[nat k := v]) = all_in a b P xs"
  unfolding all_in_def by (rule all_cong1) (auto simp: nat_eq_iff2 nth_list_update)

lemma partition_loop_ok:
  assumes "0 \<le> lo" "hi < int (length xs)" "length xs < 2 ^ 31"
    and "lo \<le> i" "i \<le> j" "j \<le> hi" "hole lo hi xs key i ys"
    and "all_in lo (i - 1) (\<lambda>x. x \<le> key) ys" "all_in (j + 1) hi (\<lambda>x. key \<le> x) ys"
  shows "\<exists>k zs. partition_loop ys key i j = Some (k, zs) \<and> lo \<le> k \<and> k \<le> hi \<and> hole lo hi xs key k zs \<and>
    all_in lo (k - 1) (\<lambda>x. x \<le> key) zs \<and> all_in (k + 1) hi (\<lambda>x. key \<le> x) zs"
  using assms(4-)
proof (induction "nat (j - i)" arbitrary: i j ys rule: less_induct)
  case less
  show ?case
  proof (cases "i < j")
    case False
    then show ?thesis using less.prems by (subst partition_loop.simps) auto
  next
    case True
    have l: "length ys = length xs" using less.prems by (simp add: hole_def)
    obtain j1 where j1: "scan_down ys key i j = Some j1" "i \<le> j1" "j1 \<le> j" "all_in (j1 + 1) hi (\<lambda>x. key \<le> x) ys"
      "i < j1 \<longrightarrow> ys ! nat j1 < key"
      using scan_down_ok [of i j ys hi key] assms(1-3) less.prems l by auto
    let ?ys = "ys[nat i := ys ! nat j1]"
    have h1: "hole lo hi xs key j1 ?ys" using hole_step [OF less.prems(4), of j1] assms less.prems j1 by simp
    have a1: "all_in lo (i - 1) (\<lambda>x. x \<le> key) ?ys" "all_in (j1 + 1) hi (\<lambda>x. key \<le> x) ?ys"
      using assms less.prems j1 by (simp_all add: all_in_upd)
    obtain i1 where i1: "scan_up ?ys key i j1 = Some i1" "i \<le> i1" "i1 \<le> j1" "all_in lo (i1 - 1) (\<lambda>x. x \<le> key) ?ys"
      "i1 < j1 \<longrightarrow> key < ?ys ! nat i1"
      using scan_up_ok [of i j1 ?ys lo key] assms(1-3) less.prems j1 l a1 by auto
    let ?zs = "?ys[nat j1 := ?ys ! nat i1]"
    have h2: "hole lo hi xs key i1 ?zs" using hole_step [OF h1, of i1] assms less.prems j1 i1 by simp
    have a2: "all_in lo (i1 - 1) (\<lambda>x. x \<le> key) ?zs" "all_in (j1 + 1) hi (\<lambda>x. key \<le> x) ?zs"
      using assms less.prems j1 i1 a1 by (simp_all add: all_in_upd)
    have "i < i1" if "j1 = j"
    proof (rule ccontr)
      assume "\<not> i < i1"
      with i1 have "i1 = i" by simp
      moreover have "?ys ! nat i < key" using that True j1 l assms less.prems by (simp add: nth_upd)
      ultimately show False using i1(5) True that by simp
    qed
    then have m: "nat (j1 - i1) < nat (j - i)" using True j1 i1 by (cases "j1 = j") auto
    have "partition_loop ys key i j = partition_loop ?zs key i1 j1"
      using True j1 i1 l assms(1,2) less.prems by (subst partition_loop.simps) simp
    then show ?thesis using less.hyps [OF m _ i1(3) _ h2 a2] less.prems j1 i1 by simp
  qed
qed

lemma qs_partition_ok:
  assumes "0 \<le> lo" "lo < hi" "hi < int (length xs)" "length xs < 2 ^ 31"
  shows "\<exists>k ys. qs_partition xs lo hi = Some (k, ys) \<and> lo \<le> k \<and> k \<le> hi \<and> range_perm lo hi xs ys \<and>
    all_in lo (k - 1) (\<lambda>x. x \<le> ys ! nat k) ys \<and> all_in (k + 1) hi (\<lambda>x. ys ! nat k \<le> x) ys"
proof -
  let ?key = "xs ! nat lo"
  have "hole lo hi xs ?key lo xs" by (simp add: hole_def range_perm_refl)
  then obtain k zs where k: "partition_loop xs ?key lo hi = Some (k, zs)" "lo \<le> k" "k \<le> hi" "hole lo hi xs ?key k zs"
    "all_in lo (k - 1) (\<lambda>x. x \<le> ?key) zs" "all_in (k + 1) hi (\<lambda>x. ?key \<le> x) zs"
    using partition_loop_ok [of lo hi xs lo hi ?key xs] assms by (auto simp: all_in_def)
  let ?ys = "zs[nat k := ?key]"
  have l: "length zs = length xs" "range_perm lo hi xs ?ys" using k(4) by (simp_all add: hole_def)
  have "?ys ! nat k = ?key" using k l assms by simp
  moreover have "all_in lo (k - 1) (\<lambda>x. x \<le> ?key) ?ys" "all_in (k + 1) hi (\<lambda>x. ?key \<le> x) ?ys"
    using k assms by (simp_all add: all_in_upd)
  moreover have "qs_partition xs lo hi = Some (k, ?ys)" using k l assms by (simp add: qs_partition_def Let_def)
  ultimately show ?thesis using k l by auto
qed

section \<open>Sorting\<close>

lemma sorted_in_join:
  assumes "sorted_in lo (k - 1) xs" "sorted_in (k + 1) hi xs"
    and "all_in lo (k - 1) (\<lambda>x. x \<le> xs ! nat k) xs" "all_in (k + 1) hi (\<lambda>x. xs ! nat k \<le> x) xs"
  shows "sorted_in lo hi xs"
  unfolding sorted_in_def
proof (intro allI impI)
  fix i j assume ij: "lo \<le> i \<and> i \<le> j \<and> j \<le> hi"
  consider "j < k" | "k < i" | "i \<le> k" "k \<le> j" by linarith
  then show "xs ! nat i \<le> xs ! nat j"
  proof cases
    case 3
    have "xs ! nat i \<le> xs ! nat k" using assms(3) ij 3 by (cases "i = k") (auto simp: all_in_def)
    also have "\<dots> \<le> xs ! nat j" using assms(4) ij 3 by (cases "j = k") (auto simp: all_in_def)
    finally show ?thesis .
  qed (use assms(1,2) ij in \<open>auto simp: sorted_in_def\<close>)
qed

lemma sorted_in_out:
  assumes "range_perm lo hi xs ys" "sorted_in a b xs" "b < lo \<or> hi < a" "0 \<le> a" "b < int (length xs)"
  shows "sorted_in a b ys"
  unfolding sorted_in_def
proof (intro allI impI)
  fix i j assume ij: "a \<le> i \<and> i \<le> j \<and> j \<le> b"
  have "ys ! nat k = xs ! nat k" if "a \<le> k" "k \<le> b" for k
    by (rule range_perm_out [OF assms(1)]) (use that assms in auto)
  then show "ys ! nat i \<le> ys ! nat j" using ij assms(2) by (simp add: sorted_in_def)
qed

lemma qsort_ok:
  assumes "0 \<le> lo" "hi < int (length xs)" "length xs < 2 ^ 31"
  shows "\<exists>ys. qsort xs lo hi = Some ys \<and> range_perm lo hi xs ys \<and> sorted_in lo hi ys"
  using assms
proof (induction "nat (hi - lo + 1)" arbitrary: lo hi xs rule: less_induct)
  case less
  show ?case
  proof (cases "lo < hi")
    case False
    then have "i = j" if "lo \<le> i \<and> i \<le> j \<and> j \<le> hi" for i j using that by linarith
    then have "sorted_in lo hi xs" unfolding sorted_in_def by blast
    with False show ?thesis by (subst qsort.simps) (simp add: range_perm_refl)
  next
    case True
    obtain k p where p: "qs_partition xs lo hi = Some (k, p)" "lo \<le> k" "k \<le> hi" "range_perm lo hi xs p"
      "all_in lo (k - 1) (\<lambda>x. x \<le> p ! nat k) p" "all_in (k + 1) hi (\<lambda>x. p ! nat k \<le> x) p"
      using qs_partition_ok [OF less.prems(1) True less.prems(2,3)] by blast
    have lp: "length p = length xs" using p(4) by (rule range_perm_length)
    obtain q where q: "qsort p lo (k - 1) = Some q" "range_perm lo (k - 1) p q" "sorted_in lo (k - 1) q"
      using less.hyps [of "k - 1" lo p] less.prems p(2,3) lp by auto
    have lq: "length q = length xs" using range_perm_length [OF q(2)] lp by simp
    obtain r where r: "qsort q (k + 1) hi = Some r" "range_perm (k + 1) hi q r" "sorted_in (k + 1) hi r"
      using less.hyps [of hi "k + 1" q] less.prems p(2,3) lq by auto
    have k: "r ! nat k = p ! nat k"
      using range_perm_out [OF q(2), of "nat k"] range_perm_out [OF r(2), of "nat k"] p(2,3) less.prems lp lq by auto
    have 1: "all_in lo (k - 1) (\<lambda>x. x \<le> p ! nat k) q" using all_in_perm [OF q(2) p(5)] less.prems p lp by simp
    have 2: "all_in lo (k - 1) (\<lambda>x. x \<le> p ! nat k) r" using all_in_out [OF r(2) 1] less.prems p lq by simp
    have 3: "all_in (k + 1) hi (\<lambda>x. p ! nat k \<le> x) q" using all_in_out [OF q(2) p(6)] less.prems p lp by simp
    have 4: "all_in (k + 1) hi (\<lambda>x. p ! nat k \<le> x) r" using all_in_perm [OF r(2) 3] less.prems p lq by simp
    have 5: "sorted_in lo (k - 1) r" using sorted_in_out [OF r(2) q(3)] less.prems p lq by simp
    have "sorted_in lo hi r" using sorted_in_join [OF 5 r(3)] 2 4 k by simp
    moreover have "range_perm lo hi xs r"
      using range_perm_trans [OF range_perm_trans [OF p(4) range_perm_mono [OF q(2)]] range_perm_mono [OF r(2)]] p by simp
    moreover have "qsort xs lo hi = Some r" using True p q r less.prems by (subst qsort.simps) simp
    ultimately show ?thesis by blast
  qed
qed

section \<open>Properties\<close>

text \<open>
  C32. \<open>qsort\<close> sorts: on an array of less than \<open>2 ^ 31\<close> elements and a range of it, it returns, without an access out of bounds or an
  overflow of an index, and permutes the array such that the range is sorted and the rest is as before; on the whole array the result is the sorted list.
\<close>

theorem qsort_spec:
  assumes "0 \<le> lo" "hi < int (length xs)" "length xs < 2 ^ 31"
  shows "\<exists>ys. qsort xs lo hi = Some ys \<and> mset ys = mset xs \<and>
    (\<forall>i<length xs. int i < lo \<or> hi < int i \<longrightarrow> ys ! i = xs ! i) \<and>
    (\<forall>i j. lo \<le> int i \<longrightarrow> i \<le> j \<longrightarrow> int j \<le> hi \<longrightarrow> ys ! i \<le> ys ! j) \<and>
    (lo = 0 \<and> hi = int (length xs) - 1 \<longrightarrow> ys = sort xs)"
proof -
  obtain ys where ys: "qsort xs lo hi = Some ys" "range_perm lo hi xs ys" "sorted_in lo hi ys"
    using qsort_ok [OF assms] by blast
  have s: "ys ! i \<le> ys ! j" if "lo \<le> int i" "i \<le> j" "int j \<le> hi" for i j
    using ys(3) that unfolding sorted_in_def by (metis nat_int of_nat_le_iff)
  have "sorted ys" if "lo = 0" "hi = int (length xs) - 1"
    unfolding sorted_iff_nth_mono using s that range_perm_length [OF ys(2)] by simp
  then have "ys = sort xs" if "lo = 0" "hi = int (length xs) - 1"
    using that ys(2) properties_for_sort [of ys xs] by (simp add: range_perm_def)
  with ys s show ?thesis by (auto simp: range_perm_def)
qed

theorem qsort_spec_witness: "qsort [3, 1, 2, 1] 0 3 = Some [1, 1, 2, 3]"
proof -
  have "sort [3, 1, 2, 1 :: int] = [1, 1, 2, 3]" by simp
  then show ?thesis using qsort_spec [of 0 3 "[3, 1, 2, 1]"] by auto
qed

end
