(* ===== verification/Permutations.thy ===== *)
theory Permutations
  imports Quick_Sort "HOL-Library.List_Lexorder"
begin

text \<open>
  The next permutation in lexicographic order, and the list of all permutations: \<open>src/examples/VerifyThis2021/challenge1.c\<close>. The array has
  elements of the type \<open>int\<close>; as in \<open>Quick_Sort\<close>, an index outside of the array or an overflow of an index gives \<open>None\<close>.
\<close>

section \<open>The program\<close>

partial_function (option) np_scan :: "int list \<Rightarrow> int \<Rightarrow> int option" where
  "np_scan A i =
     (if i > 0 then
        Option.bind (i32 (i - 1)) (\<lambda>k.
        Option.bind (iget A k) (\<lambda>x.
        Option.bind (iget A i) (\<lambda>y. if x \<ge> y then np_scan A k else Some i)))
      else Some i)"

partial_function (option) np_find :: "int list \<Rightarrow> int \<Rightarrow> int \<Rightarrow> int option" where
  "np_find A i j =
     Option.bind (iget A j) (\<lambda>x.
     Option.bind (i32 (i - 1)) (\<lambda>k.
     Option.bind (iget A k) (\<lambda>y.
       if x \<le> y then Option.bind (i32 (j - 1)) (\<lambda>j. np_find A i j) else Some j)))"

partial_function (option) np_reverse :: "int list \<Rightarrow> int \<Rightarrow> int \<Rightarrow> int list option" where
  "np_reverse A i j =
     (if i < j then
        Option.bind (iget A i) (\<lambda>temp.
        Option.bind (iget A j) (\<lambda>v.
        Option.bind (iset A i v) (\<lambda>A.
        Option.bind (iset A j temp) (\<lambda>A.
        Option.bind (i32 (i + 1)) (\<lambda>i.
        Option.bind (i32 (j - 1)) (\<lambda>j. np_reverse A i j))))))
      else Some A)"

definition perm_next :: "int list \<Rightarrow> int \<Rightarrow> (bool \<times> int list) option" where
  "perm_next A sz = do {
     i \<leftarrow> i32 (sz - 1);
     i \<leftarrow> np_scan A i;
     if i \<le> 0 then Some (False, A)
     else do {
       j \<leftarrow> i32 (sz - 1);
       j \<leftarrow> np_find A i j;
       k \<leftarrow> i32 (i - 1);
       temp \<leftarrow> iget A k;
       v \<leftarrow> iget A j;
       A \<leftarrow> iset A k v;
       A \<leftarrow> iset A j temp;
       j \<leftarrow> i32 (sz - 1);
       A \<leftarrow> np_reverse A i j;
       Some (True, A) } }"

text \<open>
  \<open>permut\<close>. The functions \<open>sort\<close>, \<open>copy_array\<close>, \<open>list_new\<close> and \<open>list_snoc\<close> are only declared in the source and are
  parameters; \<open>'l\<close> is what they take for a list of arrays.
\<close>

partial_function (option) permut_loop :: "(int list \<Rightarrow> int list) \<Rightarrow> ('l \<Rightarrow> int list \<Rightarrow> 'l) \<Rightarrow> 'l \<Rightarrow> int list \<Rightarrow> int \<Rightarrow> ('l \<times> int list) option" where
  "permut_loop copy_array list_snoc l A sz =
     Option.bind (perm_next A sz) (\<lambda>(b, A).
       if b then permut_loop copy_array list_snoc (list_snoc l (copy_array A)) A sz
       else Some (l, A))"

definition permut :: "(int list \<Rightarrow> int list) \<Rightarrow> (int list \<Rightarrow> int list) \<Rightarrow> 'l \<Rightarrow> ('l \<Rightarrow> int list \<Rightarrow> 'l) \<Rightarrow> int list \<Rightarrow> int \<Rightarrow> ('l \<times> int list) option" where
  "permut sort_array copy_array list_new list_snoc A sz =
     (let l = list_new in
      if sz = 0 then Some (l, A)
      else let A = sort_array A; copy = copy_array A; l = list_snoc l copy in permut_loop copy_array list_snoc l A sz)"

section \<open>The loops\<close>

lemma iget_app [simp]: "i = int (length X) \<Longrightarrow> iget (X @ y # Z) i = Some y"
  by (simp add: iget_def)

lemma iset_app [simp]: "i = int (length X) \<Longrightarrow> iset (X @ y # Z) i v = Some (X @ v # Z)"
  by (simp add: iset_def)

lemma np_scan_ok:
  assumes "sorted_wrt (\<ge>) S" "S \<noteq> []" "length (X @ S) < 2 ^ 31"
  shows "\<exists>X' S'. X @ S = X' @ S' \<and> np_scan (X @ S) (int (length X)) = Some (int (length X')) \<and> sorted_wrt (\<ge>) S' \<and> S' \<noteq> [] \<and>
    (X' \<noteq> [] \<longrightarrow> last X' < hd S')"
  using assms
proof (induction X arbitrary: S rule: rev_induct)
  case Nil
  then show ?case by (intro exI [of _ "[]"] exI [of _ S]) (subst np_scan.simps, simp)
next
  case (snoc x X)
  obtain y T where S: "S = y # T" using snoc.prems(2) by (cases S) auto
  have g: "iget ((X @ [x]) @ S) (int (length X)) = Some x" "iget ((X @ [x]) @ S) (int (length (X @ [x]))) = Some y"
    using iget_app [of "int (length X)" X x S] iget_app [of "int (length (X @ [x]))" "X @ [x]" y T] S by simp_all
  have step: "np_scan ((X @ [x]) @ S) (int (length (X @ [x]))) =
      (if x \<ge> y then np_scan ((X @ [x]) @ S) (int (length X)) else Some (int (length (X @ [x]))))"
    using g snoc.prems(3) by (subst np_scan.simps) simp
  show ?case
  proof (cases "x \<ge> y")
    case True
    then have "sorted_wrt (\<ge>) (x # S)" using snoc.prems(1) S by auto
    from snoc.IH [OF this] snoc.prems(3) show ?thesis using step True by auto
  next
    case False
    then show ?thesis using step snoc.prems S by (intro exI [of _ "X @ [x]"] exI [of _ S]) simp
  qed
qed

lemma np_find_ok:
  assumes "x \<in> set U" "x > a" "\<forall>v\<in>set V. v \<le> a" "length (P @ a # U @ V) < 2 ^ 31"
  shows "\<exists>U' b V'. U @ V = U' @ b # V' \<and> b > a \<and> (\<forall>v\<in>set V'. v \<le> a) \<and>
    np_find (P @ a # U @ V) (int (length P) + 1) (int (length P + length U)) = Some (int (length P + 1 + length U'))"
  using assms
proof (induction U arbitrary: V rule: rev_induct)
  case (snoc u U)
  have g: "iget (P @ a # (U @ [u]) @ V) (int (length P + length (U @ [u]))) = Some u" "iget (P @ a # (U @ [u]) @ V) (int (length P)) = Some a"
    using iget_app [of _ "P @ a # U" u V] by simp_all
  show ?case
  proof (cases "u \<le> a")
    case True
    then have x: "x \<in> set U" "\<forall>v\<in>set (u # V). v \<le> a" using snoc.prems by auto
    from snoc.IH [OF x(1) snoc.prems(2) x(2)] snoc.prems(4) obtain U' b V' where
      r: "U @ u # V = U' @ b # V'" "b > a" "\<forall>v\<in>set V'. v \<le> a"
        "np_find (P @ a # U @ u # V) (int (length P) + 1) (int (length P + length U)) = Some (int (length P + 1 + length U'))" by auto
    have "np_find (P @ a # (U @ [u]) @ V) (int (length P) + 1) (int (length P + length (U @ [u]))) =
        np_find (P @ a # U @ u # V) (int (length P) + 1) (int (length P + length U))"
      using g True snoc.prems(4) by (subst np_find.simps) simp
    with r show ?thesis by (intro exI [of _ U'] exI [of _ b] exI [of _ V']) simp
  next
    case False
    then show ?thesis using g snoc.prems by (intro exI [of _ U] exI [of _ u] exI [of _ V]) (subst np_find.simps, simp)
  qed
qed simp

lemma np_reverse_ok:
  assumes "length (X @ M @ Y) < 2 ^ 31"
  shows "np_reverse (X @ M @ Y) (int (length X)) (int (length X) + int (length M) - 1) = Some (X @ rev M @ Y)"
  using assms
proof (induction M arbitrary: X Y rule: length_induct)
  case (1 M)
  show ?case
  proof (cases "length M < 2")
    case True
    then have "rev M = M" by (cases M) auto
    then show ?thesis using True by (subst np_reverse.simps) auto
  next
    case False
    then obtain x N where "M = x # N" "N \<noteq> []" by (cases M) auto
    then obtain L y where M: "M = x # L @ [y]" by (metis append_butlast_last_id)
    have g: "iget (X @ M @ Y) (int (length X)) = Some x" "iget (X @ M @ Y) (int (length X) + int (length M) - 1) = Some y"
      "iset (X @ M @ Y) (int (length X)) y = Some (X @ y # L @ y # Y)"
      "iset (X @ y # L @ y # Y) (int (length X) + int (length M) - 1) x = Some (X @ y # L @ x # Y)"
      using iget_app [of _ X x "L @ y # Y"] iget_app [of _ "X @ x # L" y Y] iset_app [of _ X x "L @ y # Y" y] iset_app [of _ "X @ y # L" y Y x]
      unfolding M by simp_all
    have "np_reverse ((X @ [y]) @ L @ (x # Y)) (int (length (X @ [y]))) (int (length (X @ [y])) + int (length L) - 1) = Some ((X @ [y]) @ rev L @ (x # Y))"
      using 1 M by (intro 1(1) [rule_format]) simp_all
    then show ?thesis using g M 1(2) by (subst np_reverse.simps) (simp add: add.commute)
  qed
qed

section \<open>The lexicographic order of the permutations\<close>

text \<open>A list in descending order is the last of its permutations, one in ascending order the first.\<close>

lemma descending_max: "sorted_wrt (\<ge>) A \<Longrightarrow> mset B = mset A \<Longrightarrow> B \<le> (A :: int list)"
proof (induction A arbitrary: B)
  case (Cons a A)
  then obtain b C where B: "B = b # C" by (cases B) auto
  then have "b \<in> set (a # A)" using Cons.prems(2) by (metis list.set_intros(1) set_mset_mset)
  then have "b \<le> a" using Cons.prems(1) by auto
  moreover have "C \<le> A" if "b = a" using Cons B that by auto
  ultimately show ?case using B by auto
qed simp

lemma ascending_min: "sorted A \<Longrightarrow> mset B = mset A \<Longrightarrow> A \<le> (B :: int list)"
proof (induction A arbitrary: B)
  case (Cons a A)
  then obtain b C where B: "B = b # C" by (cases B) auto
  then have "b \<in> set (a # A)" using Cons.prems(2) by (metis list.set_intros(1) set_mset_mset)
  then have "a \<le> b" using Cons.prems(1) by auto
  moreover have "A \<le> C" if "b = a" using Cons B that by auto
  ultimately show ?case using B by auto
qed simp

text \<open>The successor: the last descent is at \<open>a\<close>, which is replaced by the least larger element \<open>b\<close> of what follows.\<close>

lemma tail_next:
  fixes a b :: int
  assumes S: "sorted_wrt (\<ge>) (U @ b # V)" and b: "a < b" "\<forall>v\<in>set V. v \<le> a" and B: "mset B = mset (a # U @ b # V)" "a # U @ b # V < B"
  shows "b # rev (U @ a # V) \<le> B"
proof -
  have "length B = length (a # U @ b # V)" using B(1) by (rule mset_eq_length)
  then obtain c T where c: "B = c # T" by (cases B) auto
  have "sorted (rev (U @ a # V))" using S b by (auto simp: sorted_wrt_append sorted_append sorted_wrt_rev simp del: rev_append)
  have "c \<noteq> a"
  proof
    assume "c = a"
    then have "mset T = mset (U @ b # V)" "U @ b # V < T" using B c by auto
    then show False using descending_max [OF S] by fastforce
  qed
  then have ac: "a < c" using B(2) c by auto
  have "c \<in> set (a # U @ b # V)" using B(1) c by (metis list.set_intros(1) set_mset_mset)
  with ac b(2) have "c \<in> set U \<or> c = b" by auto
  then have "b \<le> c" using S by (auto simp: sorted_wrt_append)
  moreover have "rev (U @ a # V) \<le> T" if "c = b"
  proof -
    have "mset T = mset (rev (U @ a # V))" using B(1) c that by simp
    then show ?thesis using \<open>sorted (rev (U @ a # V))\<close> by (rule ascending_min [rotated])
  qed
  ultimately show ?thesis using c by auto
qed

lemma prefix_next:
  fixes A' :: "int list"
  assumes "\<And>B. mset B = mset A \<Longrightarrow> A < B \<Longrightarrow> A' \<le> B" "mset A' = mset A" "mset B = mset (P @ A)" "P @ A < B"
  shows "P @ A' \<le> B"
  using assms(3,4)
proof (induction P arbitrary: B)
  case (Cons p P)
  then obtain b C where B: "B = b # C" by (cases B) auto
  show ?case using Cons.prems Cons.IH [of C] B by (cases "b = p") auto
qed (use assms(1) in simp)

lemma prefix_less: "P @ A < P @ (B :: int list) \<longleftrightarrow> A < B"
  by (induction P) auto

section \<open>The next permutation\<close>

definition next_perm_rel :: "int list \<Rightarrow> bool \<Rightarrow> int list \<Rightarrow> bool" where
  "next_perm_rel A b A' \<longleftrightarrow> mset A' = mset A \<and>
     (if b then A < A' \<and> (\<forall>B. mset B = mset A \<longrightarrow> A < B \<longrightarrow> A' \<le> B)
      else A' = A \<and> (\<forall>B. mset B = mset A \<longrightarrow> B \<le> A))"

text \<open>
  \<open>next\<close> returns for every array that is not empty (and has at most \<open>2\<^sup>3\<^sup>1 - 1\<close> elements): when it gives true, the array is the
  next permutation, that is, the least of the permutations that are greater in the lexicographic order; when it gives false, the array is not changed
  and is the greatest permutation. No access is out of bounds.
\<close>

theorem perm_next_spec:
  assumes "A \<noteq> []" "length A < 2 ^ 31"
  shows "\<exists>b A'. perm_next A (int (length A)) = Some (b, A') \<and> next_perm_rel A b A'"
proof -
  obtain X0 z where X0: "A = X0 @ [z]" using assms(1) by (metis append_butlast_last_id)
  have len0: "int (length A) - 1 = int (length X0)" using X0 by simp
  have "\<exists>X S. X0 @ [z] = X @ S \<and> np_scan (X0 @ [z]) (int (length X0)) = Some (int (length X)) \<and> sorted_wrt (\<ge>) S \<and> S \<noteq> [] \<and>
      (X \<noteq> [] \<longrightarrow> last X < hd S)"
    by (rule np_scan_ok) (use assms(2) X0 in simp_all)
  then obtain X S where
    X: "A = X @ S" "np_scan A (int (length A) - 1) = Some (int (length X))" "sorted_wrt (\<ge>) S" "S \<noteq> []" "X \<noteq> [] \<longrightarrow> last X < hd S"
    unfolding len0 [symmetric] X0 [symmetric] by (elim exE conjE) (rule that)
  show ?thesis
  proof (cases X rule: rev_cases)
    case Nil
    then have "perm_next A (int (length A)) = Some (False, A)" using X(2) assms(2) by (simp add: perm_next_def)
    moreover have "next_perm_rel A False A" using descending_max X(1,3) Nil by (simp add: next_perm_rel_def)
    ultimately show ?thesis by blast
  next
    case (snoc P a)
    let ?n = "int (length A)"
    have A: "A = P @ a # S" "hd S \<in> set S" "hd S > a" using X snoc by auto
    have "length (P @ a # S @ []) < 2 ^ 31" using assms(2) A(1) by simp
    note np_find_ok [OF A(2,3) _ this, unfolded append_Nil2 A(1) [symmetric]]
    then obtain U b V where
      f: "S = U @ b # V" "b > a" "\<forall>v\<in>set V. v \<le> a" "np_find A (int (length P) + 1) (int (length P + length S)) = Some (int (length P + 1 + length U))"
      by (simp only: list.set ball_empty simp_thms) blast
    have A': "A = P @ a # U @ b # V" using A f by simp
    have g: "iget A (int (length P)) = Some a" "iget A (int (length P + 1 + length U)) = Some b" "iset A (int (length P)) b = Some (P @ b # U @ b # V)"
      "iset (P @ b # U @ b # V) (int (length P + 1 + length U)) a = Some ((P @ [b]) @ (U @ a # V) @ [])"
      using iget_app [of _ P a "U @ b # V"] iget_app [of _ "P @ a # U" b V] iset_app [of _ P a "U @ b # V" b] iset_app [of _ "P @ b # U" b V a]
      unfolding A' by simp_all
    have r: "np_reverse ((P @ [b]) @ (U @ a # V) @ []) (int (length (P @ [b]))) (int (length (P @ [b])) + int (length (U @ a # V)) - 1) =
        Some ((P @ [b]) @ rev (U @ a # V) @ [])" by (rule np_reverse_ok) (use assms(2) A' in simp)
    have len: "?n - 1 = int (length P + length S)" "int (length X) = int (length P) + 1"
      "?n - 1 = int (length (P @ [b])) + int (length (U @ a # V)) - 1" "int (length P) + 1 = int (length (P @ [b]))"
      using A(1) snoc f(1) by simp_all
    have b32: "i32 (?n - 1) = Some (?n - 1)" "i32 (int (length X) - 1) = Some (int (length P))" using assms len(2) A(1) by simp_all
    have pos: "(int (length X) \<le> 0) = False" using len(2) by simp
    have "np_find A (int (length X)) (?n - 1) = Some (int (length P + 1 + length U))" unfolding len(1,2) by (rule f(4))
    moreover have "np_reverse ((P @ [b]) @ (U @ a # V) @ []) (int (length X)) (?n - 1) = Some ((P @ [b]) @ rev (U @ a # V) @ [])"
      unfolding len(2-4) by (rule r)
    ultimately have "perm_next A ?n = Some (True, (P @ [b]) @ rev (U @ a # V) @ [])"
      unfolding perm_next_def by (simp only: b32 X(2) pos g Option.bind.bind_lunit if_False)
    then have "perm_next A ?n = Some (True, P @ b # rev (U @ a # V))" by simp
    moreover have "next_perm_rel A True (P @ b # rev (U @ a # V))"
    proof -
      have "P @ b # rev (U @ a # V) \<le> B" if "mset B = mset A" "A < B" for B
        by (rule prefix_next [where A = "a # U @ b # V"]) (use tail_next [OF X(3) [unfolded f(1)] f(2,3)] that A' in auto)
      moreover have "A < P @ b # rev (U @ a # V)" unfolding A' prefix_less using f(2) by simp
      ultimately show ?thesis unfolding next_perm_rel_def using A' by simp
    qed
    ultimately show ?thesis by blast
  qed
qed

theorem perm_next_spec_witness:
  "\<exists>b A'. perm_next [1, 3, 2] 3 = Some (b, A') \<and> next_perm_rel [1, 3, 2] b A'"
  using perm_next_spec [of "[1, 3, 2]"] by simp

section \<open>All permutations\<close>

lemma finite_perms: "finite {B. mset B = mset A}"
proof (rule finite_subset)
  show "{B. mset B = mset A} \<subseteq> {B. set B \<subseteq> set A \<and> length B = length A}" using mset_eq_setD mset_eq_length by fastforce
qed (rule finite_lists_length_eq, simp)

lemma permut_loop_ok:
  assumes "A \<noteq> []" "length A < 2 ^ 31"
  shows "\<exists>ps. permut_loop copy_array list_snoc l A (int (length A)) = Some (foldl (\<lambda>l B. list_snoc l (copy_array B)) l ps, last (A # ps)) \<and>
    sorted_wrt (<) (A # ps) \<and> set (A # ps) = {B. mset B = mset A \<and> A \<le> B}"
  using assms
proof (induction "card {B. mset B = mset A \<and> A < B}" arbitrary: A l rule: less_induct)
  case less
  from perm_next_spec [OF less.prems] obtain b A' where
    n: "perm_next A (int (length A)) = Some (b, A')" "next_perm_rel A b A'" by blast
  show ?case
  proof (cases b)
    case False
    then have "A' = A" "\<And>B. mset B = mset A \<Longrightarrow> B \<le> A" using n(2) by (simp_all add: next_perm_rel_def)
    then have "{B. mset B = mset A \<and> A \<le> B} = {A}" by (auto intro: order_antisym)
    moreover have "permut_loop copy_array list_snoc l A (int (length A)) = Some (l, A)"
      using n(1) False \<open>A' = A\<close> by (subst permut_loop.simps) simp
    ultimately show ?thesis by (intro exI [of _ "[]"]) simp
  next
    case True
    then have A': "mset A' = mset A" "A < A'" "\<And>B. mset B = mset A \<Longrightarrow> A < B \<Longrightarrow> A' \<le> B" using n(2) by (simp_all add: next_perm_rel_def)
    have len: "length A' = length A" using A'(1) by (rule mset_eq_length)
    have sub: "{B. mset B = mset A' \<and> A' < B} \<subset> {B. mset B = mset A \<and> A < B}" using A' by (auto intro: less_trans)
    have "finite {B. mset B = mset A \<and> A < B}" by (rule finite_subset [OF _ finite_perms [of A]]) auto
    with sub have "card {B. mset B = mset A' \<and> A' < B} < card {B. mset B = mset A \<and> A < B}" by (simp add: psubset_card_mono)
    moreover have "A' \<noteq> []" "length A' < 2 ^ 31" using less.prems len by auto
    ultimately obtain ps where ps: "permut_loop copy_array list_snoc (list_snoc l (copy_array A')) A' (int (length A')) =
        Some (foldl (\<lambda>l B. list_snoc l (copy_array B)) (list_snoc l (copy_array A')) ps, last (A' # ps))"
      "sorted_wrt (<) (A' # ps)" "set (A' # ps) = {B. mset B = mset A' \<and> A' \<le> B}" using less.hyps [of A'] by blast
    have "permut_loop copy_array list_snoc l A (int (length A)) =
        Some (foldl (\<lambda>l B. list_snoc l (copy_array B)) l (A' # ps), last (A # A' # ps))"
      using n(1) True ps(1) len by (subst permut_loop.simps) simp
    moreover have "sorted_wrt (<) (A # A' # ps)" using ps(2) A'(2) by (auto intro: less_trans)
    moreover have "B = A \<or> A' \<le> B" if "mset B = mset A" "A \<le> B" for B using that A'(3) [of B] by (auto simp: le_less)
    then have "set (A # A' # ps) = {B. mset B = mset A \<and> A \<le> B}" unfolding list.set(2) [of A] ps(3) using A' by auto
    ultimately show ?thesis by blast
  qed
qed

text \<open>
  C34. \<open>permut\<close> returns for every array and lists each permutation of a non-empty array exactly once, in ascending
  lexicographic order. The functions that the source only declares are assumed to do what their declarations say: \<open>sort\<close> gives an ascending permutation,
  \<open>copy_array\<close> gives an array with the same elements, \<open>list_new\<close> has no elements, and \<open>list_snoc\<close> adds one at the end; \<open>elems\<close> are the elements of
  a list.
\<close>

theorem permut_spec:
  assumes "sorted (sort_array A)" "mset (sort_array A) = mset A" "\<And>B. copy_array B = B"
    and "elems list_new = []" "\<And>l B. elems (list_snoc l B) = elems l @ [B]" and "length A < 2 ^ 31"
  shows "\<exists>l A'. permut sort_array copy_array list_new list_snoc A (int (length A)) = Some (l, A') \<and>
    sorted_wrt (<) (elems l) \<and> distinct (elems l) \<and> set (elems l) = (if A = [] then {} else {B. mset B = mset A})"
proof (cases "A = []")
  case True
  then show ?thesis using assms(4) by (simp add: permut_def)
next
  case False
  let ?S = "sort_array A" and ?l = "list_snoc list_new (copy_array (sort_array A))"
  have S: "?S \<noteq> []" "length ?S = length A" using assms(2) False mset_eq_length [OF assms(2)] by auto
  from permut_loop_ok [of ?S copy_array list_snoc ?l] S assms(6) obtain ps where
    ps: "permut_loop copy_array list_snoc ?l ?S (int (length A)) = Some (foldl (\<lambda>l B. list_snoc l (copy_array B)) ?l ps, last (?S # ps))"
      "sorted_wrt (<) (?S # ps)" "set (?S # ps) = {B. mset B = mset ?S \<and> ?S \<le> B}" by auto
  have fold: "elems (foldl (\<lambda>l B. list_snoc l (copy_array B)) l ps) = elems l @ ps" for l
    by (induction ps arbitrary: l) (simp_all add: assms(3,5))
  have "elems (foldl (\<lambda>l B. list_snoc l (copy_array B)) ?l ps) = ?S # ps" unfolding fold by (simp add: assms(3-5))
  moreover have "{B. mset B = mset ?S \<and> ?S \<le> B} = {B. mset B = mset A}" using ascending_min [OF assms(1)] assms(2) by auto
  moreover have "distinct (?S # ps)" using ps(2) by (simp add: strict_sorted_iff del: sorted_wrt.simps)
  moreover have "permut sort_array copy_array list_new list_snoc A (int (length A)) =
      Some (foldl (\<lambda>l B. list_snoc l (copy_array B)) ?l ps, last (?S # ps))"
    using False ps(1) by (simp add: permut_def Let_def)
  ultimately show ?thesis using ps(2,3) False by metis
qed

theorem permut_spec_witness:
  "\<exists>l A'. permut sort (\<lambda>B. B) [] (\<lambda>l B. l @ [B]) [2, 1, 2] 3 = Some (l, A') \<and>
    sorted_wrt (<) l \<and> distinct l \<and> set l = {B. mset B = mset [2, 1, 2 :: int]}"
  using permut_spec [of sort "[2, 1, 2]" "\<lambda>B. B" "\<lambda>l. l" "[]" "\<lambda>l B. l @ [B]"] by simp

end
