(* ===== verification/Dll_Bst.thy ===== *)
theory Dll_Bst
  imports Prelude "HOL-Library.Tree"
begin

text \<open>
  The conversion of a sorted doubly linked list to a balanced binary search tree in place: \<open>src/examples/VerifyThis2021/challenge2.c\<close>.
  The fields \<open>prev\<close> and \<open>next\<close> of a node are its neighbours in the list, and the left and the right subtree in the tree.
\<close>

section \<open>The program\<close>

record dl_node =
  nd_data :: int
  nd_prev :: "nat ptr"
  nd_next :: "nat ptr"

type_synonym dl_heap = "(nat, dl_node) heap"

partial_function (option) size_rec :: "dl_heap \<Rightarrow> nat ptr \<Rightarrow> u64 option" where
  "size_rec h head =
     (if head = NULL then Some 0
      else Option.bind (load h head) (\<lambda>nd. Option.bind (size_rec h (nd_next nd)) (\<lambda>n. Some (n + 1))))"

partial_function (option) size_loop :: "dl_heap \<Rightarrow> nat ptr \<Rightarrow> u64 \<Rightarrow> u64 option" where
  "size_loop h head len =
     (if head \<noteq> NULL then Option.bind (load h head) (\<lambda>nd. size_loop h (nd_next nd) (len + 1))
      else Some len)"

definition size_iter :: "dl_heap \<Rightarrow> nat ptr \<Rightarrow> u64 option" where
  "size_iter h head = size_loop h head 0"

text \<open>The result has the root of the tree, and the pointer that the function stores in \<open>*right\<close>.\<close>

partial_function (option) dll_to_bst_rec :: "dl_heap \<Rightarrow> nat ptr \<Rightarrow> u64 \<Rightarrow> (nat ptr \<times> nat ptr \<times> dl_heap) option" where
  "dll_to_bst_rec h head n =
     (if n = 0 then Some (NULL, head, h)
      else
        Option.bind (dll_to_bst_rec h head (n div 2)) (\<lambda>(left, root, h).
        Option.bind (modify h root (nd_prev_update (\<lambda>_. left))) (\<lambda>h.
        Option.bind (load h root) (\<lambda>nd.
        Option.bind (dll_to_bst_rec h (nd_next nd) (n - n div 2 - 1)) (\<lambda>(temp, right, h).
        Option.bind (modify h root (nd_next_update (\<lambda>_. temp))) (\<lambda>h. Some (root, right, h)))))))"

definition dll_to_bst :: "dl_heap \<Rightarrow> nat ptr \<Rightarrow> (nat ptr \<times> dl_heap) option" where
  "dll_to_bst h head = do {
     n \<leftarrow> size_iter h head;
     (root, right, h) \<leftarrow> dll_to_bst_rec h head n;
     Some (root, h) }"

section \<open>Lists and trees of the heap\<close>

fun dl_chain :: "dl_heap \<Rightarrow> nat ptr \<Rightarrow> nat list \<Rightarrow> bool" where
  "dl_chain h p [] \<longleftrightarrow> p = NULL"
| "dl_chain h p (a # as) \<longleftrightarrow> p = Addr a \<and> a \<in> dom h \<and> dl_chain h (nd_next (the (h a))) as"

fun bst_at :: "dl_heap \<Rightarrow> nat ptr \<Rightarrow> nat tree \<Rightarrow> bool" where
  "bst_at h p Leaf \<longleftrightarrow> p = NULL"
| "bst_at h p (Node l a r) \<longleftrightarrow> p = Addr a \<and> a \<in> dom h \<and> bst_at h (nd_prev (the (h a))) l \<and> bst_at h (nd_next (the (h a))) r"

lemma dl_chain_cong: "dl_chain h p as \<Longrightarrow> (\<And>a. a \<in> set as \<Longrightarrow> h' a = h a) \<Longrightarrow> dl_chain h' p as"
  by (induction as arbitrary: p) (auto simp: dom_def)

lemma bst_at_cong: "bst_at h p t \<Longrightarrow> (\<And>a. a \<in> set_tree t \<Longrightarrow> h' a = h a) \<Longrightarrow> bst_at h' p t"
  by (induction t arbitrary: p) (auto simp: dom_def)

lemma dl_chain_dom: "dl_chain h p as \<Longrightarrow> set as \<subseteq> dom h"
  by (induction as arbitrary: p) auto

lemma dl_chain_unique: "dl_chain h p as \<Longrightarrow> dl_chain h p bs \<Longrightarrow> as = bs"
proof (induction as arbitrary: p bs)
  case Nil
  then show ?case by (cases bs) auto
next
  case (Cons a as)
  then show ?case by (cases bs) auto
qed

lemma dl_chain_suffix: "dl_chain h p (as @ a # bs) \<Longrightarrow> dl_chain h (Addr a) (a # bs)"
  by (induction as arbitrary: p) auto

lemma dl_chain_distinct: "dl_chain h p as \<Longrightarrow> distinct as"
proof (induction as arbitrary: p)
  case (Cons a as)
  have "a \<notin> set as"
  proof
    assume "a \<in> set as"
    then obtain bs cs where "as = bs @ a # cs" by (meson split_list)
    with Cons.prems have "dl_chain h (Addr a) (a # cs)" "dl_chain h (Addr a) (a # as)" using dl_chain_suffix [of h _ bs a cs] by auto
    from dl_chain_unique [OF this] \<open>as = bs @ a # cs\<close> show False by simp
  qed
  then show ?case using Cons by auto
qed simp

lemma sizes_ok: "dl_chain h p as \<Longrightarrow> size_rec h p = Some (of_nat (length as)) \<and> size_loop h p n = Some (n + of_nat (length as))"
proof (induction as arbitrary: p n)
  case Nil
  then show ?case by (subst size_rec.simps, subst size_loop.simps) simp
next
  case (Cons a as)
  then show ?case by (subst size_rec.simps, subst size_loop.simps) (auto simp: load_def)
qed

section \<open>The balanced tree of a list\<close>

function bst_of :: "'a list \<Rightarrow> 'a tree" where
  "bst_of xs = (if xs = [] then Leaf
     else Node (bst_of (take (length xs div 2) xs)) (xs ! (length xs div 2)) (bst_of (drop (Suc (length xs div 2)) xs)))"
  by pat_completeness auto
termination by (relation "measure length") auto

declare bst_of.simps [simp del]

lemma inorder_bst_of: "inorder (bst_of xs) = xs"
proof (induction xs rule: bst_of.induct)
  case (1 xs)
  show ?case
  proof (cases "xs = []")
    case False
    then have "length xs div 2 < length xs" by simp
    then show ?thesis using 1 False by (subst bst_of.simps) (simp add: id_take_nth_drop [symmetric])
  qed (simp add: bst_of.simps)
qed

text \<open>Its height is the least height of a tree with as many nodes.\<close>

lemma bst_of_height: "length xs < 2 ^ height (bst_of xs) \<and> (xs \<noteq> [] \<longrightarrow> 2 ^ (height (bst_of xs) - 1) \<le> length xs)"
proof (induction xs rule: bst_of.induct)
  case (1 xs)
  show ?case
  proof (cases "xs = []")
    case False
    let ?n = "length xs" and ?l = "bst_of (take (length xs div 2) xs)" and ?r = "bst_of (drop (Suc (length xs div 2)) xs)"
    have len: "length (take (?n div 2) xs) = ?n div 2" "length (drop (Suc (?n div 2)) xs) = ?n - ?n div 2 - 1" by auto
    have l: "?n div 2 < 2 ^ height ?l" "take (?n div 2) xs \<noteq> [] \<longrightarrow> 2 ^ (height ?l - 1) \<le> ?n div 2"
      using 1(1) [OF False] len(1) by auto
    have r: "drop (Suc (?n div 2)) xs \<noteq> [] \<longrightarrow> 2 ^ (height ?r - 1) \<le> ?n - ?n div 2 - 1" using 1(2) [OF False] len(2) by auto
    have h: "height (bst_of xs) = Suc (max (height ?l) (height ?r))" using False by (subst bst_of.simps) simp
    have "height ?r \<le> height ?l"
    proof (rule ccontr)
      assume a: "\<not> height ?r \<le> height ?l"
      then have "drop (Suc (?n div 2)) xs \<noteq> []" by (auto simp: bst_of.simps)
      with r have "2 ^ (height ?r - 1) \<le> ?n div 2" by linarith
      moreover have "(2 :: nat) ^ height ?l \<le> 2 ^ (height ?r - 1)" using a by (intro power_increasing) auto
      ultimately show False using l(1) by linarith
    qed
    then have h': "height (bst_of xs) = Suc (height ?l)" using h by simp
    have "2 ^ height ?l \<le> ?n"
    proof (cases "?n div 2 = 0")
      case True
      then show ?thesis using False by (simp add: bst_of.simps Suc_le_eq)
    next
      case nz: False
      then have "2 ^ (height ?l - 1) \<le> ?n div 2" "height ?l \<noteq> 0" using l by auto
      then have "2 * 2 ^ (height ?l - 1) \<le> ?n" by linarith
      then show ?thesis using \<open>height ?l \<noteq> 0\<close> by (simp add: power_eq_if)
    qed
    then show ?thesis using h' l(1) by auto
  qed (simp add: bst_of.simps)
qed

lemma bst_of_least: "size (t :: 'b tree) = length xs \<Longrightarrow> height (bst_of xs) \<le> height t"
proof (rule ccontr)
  assume s: "size t = length xs" and h: "\<not> height (bst_of xs) \<le> height t"
  then have "xs \<noteq> []" by (auto simp: bst_of.simps)
  with bst_of_height [of xs] have "2 ^ (height (bst_of xs) - 1) \<le> length xs" by blast
  moreover have "(2 :: nat) ^ height t \<le> 2 ^ (height (bst_of xs) - 1)" using h by (intro power_increasing) auto
  moreover have "length xs + 1 \<le> 2 ^ height t" using size1_height [of t] s by (simp add: size1_size)
  ultimately show False by linarith
qed

section \<open>The conversion\<close>

text \<open>What the conversion keeps: the nodes outside of \<open>A\<close>, and the data of every node.\<close>

definition same_data :: "nat set \<Rightarrow> dl_heap \<Rightarrow> dl_heap \<Rightarrow> bool" where
  "same_data A h h' \<longleftrightarrow> dom h' = dom h \<and> (\<forall>a. a \<notin> A \<longrightarrow> h' a = h a) \<and> (\<forall>a. map_option nd_data (h' a) = map_option nd_data (h a))"

lemma same_data_trans: "same_data A h h' \<Longrightarrow> same_data B h' h'' \<Longrightarrow> A \<union> B \<subseteq> C \<Longrightarrow> same_data C h h''"
  unfolding same_data_def by (metis Un_iff subsetD)

lemma same_data_modify:
  "h a = Some nd \<Longrightarrow> nd_data (f nd) = nd_data nd \<Longrightarrow> modify h (Addr a) f = Some (h(a \<mapsto> f nd)) \<and> same_data {a} h (h(a \<mapsto> f nd))"
  by (auto simp: modify_def same_data_def)

lemma bst_of_Node:
  "length xs div 2 = m \<Longrightarrow> xs \<noteq> [] \<Longrightarrow> bst_of xs = Node (bst_of (take m xs)) (xs ! m) (bst_of (drop (Suc m) xs))"
  using bst_of.simps [of xs] by presburger

lemma bst_of_split:
  assumes "as = L @ a # R @ D" "length L = n div 2" "n = length L + length R + 1"
  shows "bst_of (take n as) = Node (bst_of L) a (bst_of R)"
proof -
  have t: "take n as = L @ a # R" using assms(1,3) by simp
  have "length (L @ a # R) = n" using assms(3) by simp
  then have "length (L @ a # R) div 2 = length L" using assms(2) by metis
  from bst_of_Node [OF this] show ?thesis unfolding t by simp
qed

lemma dll_to_bst_rec_ok:
  assumes "dl_chain h p as" "unat n \<le> length as"
  shows "\<exists>q r h'. dll_to_bst_rec h p n = Some (q, r, h') \<and> bst_at h' q (bst_of (take (unat n) as)) \<and> dl_chain h' r (drop (unat n) as) \<and>
    same_data (set (take (unat n) as)) h h'"
  using assms
proof (induction "unat n" arbitrary: h p n as rule: less_induct)
  case less
  show ?case
  proof (cases "n = 0")
    case True
    then show ?thesis using less.prems by (subst dll_to_bst_rec.simps) (simp add: bst_of.simps same_data_def)
  next
    case False
    let ?k = "unat n div 2" and ?m = "unat n - unat n div 2 - 1"
    have n: "0 < unat n" using False by (simp add: unat_gt_0)
    have u: "unat (n div 2) = ?k" by (simp add: unat_div)
    have le: "n div 2 \<le> n" using u by (simp add: word_le_nat_alt)
    then have "unat (n - n div 2) = unat n - ?k" using u by (simp add: unat_sub)
    moreover from this have "1 \<le> n - n div 2" using n by (simp add: word_le_nat_alt)
    ultimately have m: "unat (n - n div 2 - 1) = ?m" by (simp add: unat_sub)
    have k: "?k < unat n" "?k < length as" using n less.prems(2) by auto
    define L a X where "L = take ?k as" and "a = as ! ?k" and "X = drop (Suc ?k) as"
    have as: "as = L @ a # X" unfolding L_def a_def X_def by (rule id_take_nth_drop [OF k(2)])
    have dist: "distinct (L @ a # X)" using dl_chain_distinct [OF less.prems(1)] as by simp
    from less.hyps [of "n div 2" h p as] u k less.prems obtain q r h1 where
      h1: "dll_to_bst_rec h p (n div 2) = Some (q, r, h1)" "bst_at h1 q (bst_of L)" "dl_chain h1 r (a # X)" "same_data (set L) h h1"
      unfolding L_def a_def X_def by (auto simp: Cons_nth_drop_Suc)
    then obtain nd where nd: "r = Addr a" "h1 a = Some nd" "dl_chain h1 (nd_next nd) X" by auto
    let ?h2 = "h1(a \<mapsto> nd\<lparr>nd_prev := q\<rparr>)"
    have h2: "modify h1 r (nd_prev_update (\<lambda>_. q)) = Some ?h2" "same_data {a} h1 ?h2"
      using same_data_modify [of h1 a nd "nd_prev_update (\<lambda>_. q)"] nd by simp_all
    have c2: "dl_chain ?h2 (nd_next nd) X" by (rule dl_chain_cong [OF nd(3)]) (use dist in auto)
    have "?m \<le> length X" "?m < unat n" using less.prems(2) n by (auto simp: X_def)
    with less.hyps [of "n - n div 2 - 1" ?h2 "nd_next nd" X] m c2 obtain t r' h3 where
      h3: "dll_to_bst_rec ?h2 (nd_next nd) (n - n div 2 - 1) = Some (t, r', h3)" "bst_at h3 t (bst_of (take ?m X))" "dl_chain h3 r' (drop ?m X)"
        "same_data (set (take ?m X)) ?h2 h3" by auto
    have out: "a \<notin> set (take ?m X)" using dist set_take_subset [of ?m X] by auto
    have a3: "h3 a = Some (nd\<lparr>nd_prev := q\<rparr>)" using h3(4) out by (simp add: same_data_def)
    let ?h4 = "h3(a \<mapsto> nd\<lparr>nd_prev := q, nd_next := t\<rparr>)"
    have h4: "modify h3 r (nd_next_update (\<lambda>_. t)) = Some ?h4" "same_data {a} h3 ?h4"
      using same_data_modify [of h3 a _ "nd_next_update (\<lambda>_. t)"] a3 nd(1) by simp_all
    have run: "dll_to_bst_rec h p n = Some (Addr a, r', ?h4)"
      using False h1(1) h2(1) h3(1) h4(1) nd(1) by (subst dll_to_bst_rec.simps) (simp add: load_def)
    have "?h4 x = h1 x" if "x \<in> set L" for x
    proof -
      have "x \<noteq> a" "x \<notin> set (take ?m X)" using that dist set_take_subset [of ?m X] by auto
      then show ?thesis using h3(4) by (simp add: same_data_def)
    qed
    then have "bst_at ?h4 q (bst_of L)" by (intro bst_at_cong [OF h1(2)]) (simp add: inorder_bst_of flip: set_inorder)
    moreover have "bst_at ?h4 t (bst_of (take ?m X))" by (rule bst_at_cong [OF h3(2)]) (use out in \<open>auto simp: inorder_bst_of simp flip: set_inorder\<close>)
    moreover have "length L = ?k" "length (take ?m X) = ?m" using k(2) less.prems(2) by (auto simp: L_def X_def)
    then have "bst_of (take (unat n) as) = Node (bst_of L) a (bst_of (take ?m X))" "take (unat n) as = L @ a # take ?m X"
      using n as bst_of_split [of as L a "take ?m X" "drop ?m X" "unat n"] by (auto simp: take_Cons')
    ultimately have tr: "bst_at ?h4 (Addr a) (bst_of (take (unat n) as))" "take (unat n) as = L @ a # take ?m X" by simp_all
    have "same_data (insert a (set L)) h ?h2" by (rule same_data_trans [OF h1(4) h2(2)]) simp
    moreover have "same_data (insert a (set (take ?m X))) ?h2 ?h4" by (rule same_data_trans [OF h3(4) h4(2)]) simp
    ultimately have sd: "same_data (set (take (unat n) as)) h ?h4" unfolding tr(2) by (rule same_data_trans) auto
    have "drop (unat n) as = drop ?m X" unfolding X_def using n by simp
    moreover have "dl_chain ?h4 r' (drop ?m X)" by (rule dl_chain_cong [OF h3(3)]) (use dist set_drop_subset [of ?m X] in auto)
    ultimately have "dl_chain ?h4 r' (drop (unat n) as)" by simp
    with run tr(1) sd show ?thesis by blast
  qed
qed

text \<open>
  C35. \<open>dll_to_bst\<close> returns for every list (of fewer than \<open>2\<^sup>6\<^sup>4\<close> nodes) and makes it a tree in place: the tree has the nodes of the list in the same
  order, with their data, no other node of the memory changes, and no tree with as many nodes has a smaller height. So a sorted list gives
  a balanced binary search tree. The recursive and the iterative \<open>size\<close> agree.
\<close>

theorem dll_to_bst_spec:
  assumes "dl_chain h p as" "length as < 2 ^ 64"
  shows "\<exists>root h' t. dll_to_bst h p = Some (root, h') \<and> bst_at h' root t \<and> inorder t = as \<and>
    (\<forall>t' :: nat tree. size t' = length as \<longrightarrow> height t \<le> height t') \<and> same_data (set as) h h' \<and>
    (sorted (map (\<lambda>a. nd_data (the (h a))) as) \<longrightarrow> sorted (map (\<lambda>a. nd_data (the (h' a))) (inorder t))) \<and>
    size_iter h p = size_rec h p"
proof -
  let ?n = "of_nat (length as) :: u64"
  have n: "unat ?n = length as" using assms(2) by (simp add: unsigned_of_nat take_bit_nat_eq_self)
  have sz: "size_iter h p = Some ?n" "size_rec h p = Some ?n" using sizes_ok [OF assms(1), of 0] by (simp_all add: size_iter_def)
  from dll_to_bst_rec_ok [OF assms(1), of ?n] n obtain root r h' where
    r: "dll_to_bst_rec h p ?n = Some (root, r, h')" "bst_at h' root (bst_of as)" "same_data (set as) h h'" by auto
  have "dll_to_bst h p = Some (root, h')" using r(1) sz(1) by (simp add: dll_to_bst_def)
  moreover have "nd_data (the (h' a)) = nd_data (the (h a))" if "a \<in> set as" for a
  proof -
    have "map_option nd_data (h' a) = map_option nd_data (h a)" using r(3) by (simp add: same_data_def)
    moreover have "a \<in> dom h" using dl_chain_dom [OF assms(1)] that by blast
    ultimately show ?thesis by auto
  qed
  then have "map (\<lambda>a. nd_data (the (h' a))) as = map (\<lambda>a. nd_data (the (h a))) as" by simp
  ultimately show ?thesis using r(2,3) sz inorder_bst_of [of as] bst_of_least by metis
qed

text \<open>A list of three nodes.\<close>

definition demo_dll :: dl_heap where
  "demo_dll = [1 \<mapsto> \<lparr>nd_data = 10, nd_prev = NULL, nd_next = Addr 2\<rparr>, 2 \<mapsto> \<lparr>nd_data = 20, nd_prev = Addr 1, nd_next = Addr 3\<rparr>,
     3 \<mapsto> \<lparr>nd_data = 30, nd_prev = Addr 2, nd_next = NULL\<rparr>]"

theorem dll_to_bst_spec_witness:
  "\<exists>root h' t. dll_to_bst demo_dll (Addr 1) = Some (root, h') \<and> bst_at h' root t \<and> inorder t = [1, 2, 3]"
proof -
  have "dl_chain demo_dll (Addr 1) [1, 2, 3]" by (simp add: demo_dll_def)
  from dll_to_bst_spec [OF this] show ?thesis by fastforce
qed

end
