(* ===== verification/Entry_Pools.thy ===== *)
theory Entry_Pools
  imports Prelude
begin

text \<open>
  Allocators of entries of one size: the slab allocator of \<open>src/examples/malloc1.c\<close> and the pool of \<open>src/examples/mpool_simpl.c\<close>. Both
  link the free entries through a pointer in their first eight bytes. The memory is a map of bytes, so that writes to entries that overlap destroy each
  other. A locale has the contract and the theorem on clients; each allocator interprets it.
\<close>

section \<open>The contract\<close>

text \<open>
  \<open>rep s U A\<close>: the allocator manages the entries \<open>U\<close>, each of \<open>esize\<close> bytes, of which those of \<open>A\<close> are free. A client may write to every byte
  of an entry that it holds: \<open>poke s a i v\<close> writes \<open>v\<close> to the byte \<open>a + i\<close>.
\<close>

locale entry_pool =
  fixes rep :: "'s \<Rightarrow> nat set \<Rightarrow> nat set \<Rightarrow> bool" and get :: "'s \<Rightarrow> (nat ptr \<times> 's) option" and put :: "'s \<Rightarrow> nat \<Rightarrow> 's option"
    and poke :: "'s \<Rightarrow> nat \<Rightarrow> nat \<Rightarrow> 'v \<Rightarrow> 's option" and esize :: nat
  assumes rep_sub: "rep s U A \<Longrightarrow> A \<subseteq> U"
    and get_none: "rep s U {} \<Longrightarrow> get s = Some (NULL, s)"
    and get_some: "rep s U A \<Longrightarrow> A \<noteq> {} \<Longrightarrow> \<exists>a s'. get s = Some (Addr a, s') \<and> a \<in> A \<and> rep s' U (A - {a})"
    and put_rep: "rep s U A \<Longrightarrow> a \<in> U - A \<Longrightarrow> \<exists>s'. put s a = Some s' \<and> rep s' U (insert a A)"
    and poke_rep: "rep s U A \<Longrightarrow> a \<in> U - A \<Longrightarrow> i < esize \<Longrightarrow> \<exists>s'. poke s a i v = Some s' \<and> rep s' U A"

datatype 'v pool_op = Get | Put nat | Poke nat nat 'v

text \<open>
  A client that holds the entries \<open>H\<close>, and puts back and writes only what it holds. A step to \<open>None\<close> is a fault, or an entry that is handed out although it
  is held.
\<close>

primrec pool_run :: "('s \<Rightarrow> (nat ptr \<times> 's) option) \<Rightarrow> ('s \<Rightarrow> nat \<Rightarrow> 's option) \<Rightarrow> ('s \<Rightarrow> nat \<Rightarrow> nat \<Rightarrow> 'v \<Rightarrow> 's option) \<Rightarrow> nat \<Rightarrow>
    'v pool_op list \<Rightarrow> 's \<times> nat set \<Rightarrow> ('s \<times> nat set) option" where
  "pool_run get put poke es [] c = Some c"
| "pool_run get put poke es (x # xs) c = (case c of (s, H) \<Rightarrow> (case x of
     Get \<Rightarrow> Option.bind (get s) (\<lambda>(p, s). case p of
         Addr a \<Rightarrow> if a \<in> H then None else pool_run get put poke es xs (s, insert a H)
       | _ \<Rightarrow> pool_run get put poke es xs (s, H))
   | Put a \<Rightarrow>
       if a \<in> H then Option.bind (put s a) (\<lambda>s. pool_run get put poke es xs (s, H - {a})) else pool_run get put poke es xs (s, H)
   | Poke a i v \<Rightarrow>
       if a \<in> H \<and> i < es then Option.bind (poke s a i v) (\<lambda>s. pool_run get put poke es xs (s, H)) else pool_run get put poke es xs (s, H)))"

context entry_pool
begin

lemma client_ok:
  "rep s U (U - H) \<Longrightarrow> H \<subseteq> U \<Longrightarrow> \<exists>s' H'. pool_run get put poke esize xs (s, H) = Some (s', H') \<and> rep s' U (U - H') \<and> H' \<subseteq> U"
proof (induction xs arbitrary: s H)
  case (Cons x xs)
  show ?case
  proof (cases x)
    case Get
    show ?thesis
    proof (cases "U - H = {}")
      case True
      then show ?thesis using get_none [of s U] Cons.prems Cons.IH [OF Cons.prems] Get by simp
    next
      case False
      from get_some [OF Cons.prems(1) False] obtain a s' where
        a: "get s = Some (Addr a, s')" "a \<in> U - H" "rep s' U (U - H - {a})" by blast
      have "U - H - {a} = U - insert a H" by auto
      then show ?thesis using Cons.IH [of s' "insert a H"] a Cons.prems(2) Get by auto
    qed
  next
    case (Put a)
    show ?thesis
    proof (cases "a \<in> H")
      case True
      then have "a \<in> U - (U - H)" using Cons.prems(2) by blast
      from put_rep [OF Cons.prems(1) this] obtain s' where s': "put s a = Some s'" "rep s' U (insert a (U - H))" by blast
      have "insert a (U - H) = U - (H - {a})" using True Cons.prems(2) by auto
      then show ?thesis using Cons.IH [of s' "H - {a}"] s' Cons.prems(2) Put True by auto
    qed (use Cons.IH [OF Cons.prems] Put in simp)
  next
    case (Poke a i v)
    show ?thesis
    proof (cases "a \<in> H \<and> i < esize")
      case True
      then have "a \<in> U - (U - H)" "i < esize" using Cons.prems(2) by blast+
      from poke_rep [OF Cons.prems(1) this, of v] obtain s' where s': "poke s a i v = Some s'" "rep s' U (U - H)" by blast
      then show ?thesis using Cons.IH [of s' H] Cons.prems(2) Poke True by auto
    qed (use Cons.IH [OF Cons.prems] Poke in auto)
  qed
qed simp

end

section \<open>Bytes and linked entries\<close>

text \<open>
  A byte of the memory is a byte of a pointer (as in the memory of the repository's own semantics, \<open>MPtrFrag\<close> of \<open>src/theories/caesium/val.v\<close>) or some
  other value. A pointer is read and written as a whole at an address that is aligned to its eight bytes: a read needs all bytes of one pointer, a write
  replaces the eight bytes.
\<close>

datatype ptr_byte = Frag "nat ptr" nat | Raw u8

type_synonym ptr_mem = "nat \<rightharpoonup> ptr_byte"

definition get_ptr :: "ptr_mem \<Rightarrow> nat ptr \<Rightarrow> nat ptr option" where
  "get_ptr m p = (case p of
     Addr a \<Rightarrow> (case m a of
         Some (Frag v _) \<Rightarrow> if 8 dvd a \<and> (\<forall>i\<in>{..<8}. m (a + i) = Some (Frag v i)) then Some v else None
       | _ \<Rightarrow> None)
   | _ \<Rightarrow> None)"

definition put_ptr :: "ptr_mem \<Rightarrow> nat ptr \<Rightarrow> nat ptr \<Rightarrow> ptr_mem option" where
  "put_ptr m p v = (case p of
     Addr a \<Rightarrow> if 8 dvd a \<and> (\<forall>i\<in>{..<8}. m (a + i) \<noteq> None)
       then Some (\<lambda>x. if a \<le> x \<and> x < a + 8 then Some (Frag v (x - a)) else m x) else None
   | _ \<Rightarrow> None)"

definition poke_byte :: "ptr_mem \<Rightarrow> nat \<Rightarrow> ptr_byte \<Rightarrow> ptr_mem option" where
  "poke_byte m a v = (if m a = None then None else Some (m(a \<mapsto> v)))"

lemma get_ptr_iff: "get_ptr m (Addr a) = Some v \<longleftrightarrow> 8 dvd a \<and> (\<forall>i<8. m (a + i) = Some (Frag v i))"
proof
  show "get_ptr m (Addr a) = Some v \<Longrightarrow> 8 dvd a \<and> (\<forall>i<8. m (a + i) = Some (Frag v i))"
    by (auto simp: get_ptr_def split: option.splits ptr_byte.splits if_splits)
  assume r: "8 dvd a \<and> (\<forall>i<8. m (a + i) = Some (Frag v i))"
  then have "m (a + 0) = Some (Frag v 0)" by (metis zero_less_numeral)
  then show "get_ptr m (Addr a) = Some v" using r by (simp add: get_ptr_def)
qed

lemma get_ptr_frame:
  assumes "\<And>x. a \<le> x \<Longrightarrow> x < a + 8 \<Longrightarrow> m' x = m x"
  shows "get_ptr m' (Addr a) = get_ptr m (Addr a)"
proof -
  have "get_ptr m' (Addr a) = Some v \<longleftrightarrow> get_ptr m (Addr a) = Some v" for v using assms by (simp add: get_ptr_iff)
  then show ?thesis by (metis not_Some_eq)
qed

fun linked_entries :: "ptr_mem \<Rightarrow> nat ptr \<Rightarrow> nat list \<Rightarrow> bool" where
  "linked_entries m p [] \<longleftrightarrow> p = NULL"
| "linked_entries m p (a # as) \<longleftrightarrow> p = Addr a \<and> (\<exists>q. get_ptr m (Addr a) = Some q \<and> linked_entries m q as)"

lemma linked_entries_NULL: "linked_entries m p as \<Longrightarrow> p = NULL \<longleftrightarrow> as = []"
  by (cases as) auto

text \<open>The entries \<open>U\<close> of \<open>es\<close> bytes: each is aligned, has room for a pointer, is backed by memory and shares no byte with another.\<close>

definition entries_ok :: "nat \<Rightarrow> nat set \<Rightarrow> ptr_mem \<Rightarrow> bool" where
  "entries_ok es U m \<longleftrightarrow> 8 \<le> es \<and> (\<forall>a\<in>U. 8 dvd a \<and> {a..<a + es} \<subseteq> dom m) \<and> (\<forall>a\<in>U. \<forall>b\<in>U. a < b \<longrightarrow> a + es \<le> b)"

lemma entries_ok_apart:
  assumes "entries_ok es U m" "a \<in> U" "b \<in> U" "a \<noteq> b" "b \<le> x" "x < b + es"
  shows "\<not> (a \<le> x \<and> x < a + es)"
proof (cases "a < b")
  case True
  then have "a + es \<le> b" using assms(1-3) unfolding entries_ok_def by blast
  then show ?thesis using assms(5) by linarith
next
  case False
  then have "b + es \<le> a" using assms(1-4) unfolding entries_ok_def by (meson nat_neq_iff)
  then show ?thesis using assms(6) by linarith
qed

text \<open>A write inside one entry keeps the entries and every list of others.\<close>

lemma entries_write:
  assumes "entries_ok es U m" "a \<in> U" "\<And>x. \<not> (a \<le> x \<and> x < a + es) \<Longrightarrow> m' x = m x" "dom m \<subseteq> dom m'"
  shows "entries_ok es U m'" "set as \<subseteq> U - {a} \<Longrightarrow> linked_entries m' p as = linked_entries m p as"
proof -
  show "entries_ok es U m'" using assms(1,4) unfolding entries_ok_def by blast
  show "set as \<subseteq> U - {a} \<Longrightarrow> linked_entries m' p as = linked_entries m p as"
  proof (induction as arbitrary: p)
    case (Cons b as)
    then have b: "b \<in> U" "a \<noteq> b" by auto
    have "8 \<le> es" using assms(1) by (simp add: entries_ok_def)
    then have "m' x = m x" if "b \<le> x" "x < b + 8" for x
      using entries_ok_apart [OF assms(1,2) b, of x] assms(3) that by simp
    then have "get_ptr m' (Addr b) = get_ptr m (Addr b)" by (rule get_ptr_frame)
    then show ?case using Cons by simp
  qed simp
qed

lemma put_ptr_ok:
  assumes "entries_ok es U m" "a \<in> U"
  shows "\<exists>m'. put_ptr m (Addr a) v = Some m' \<and> entries_ok es U m' \<and> get_ptr m' (Addr a) = Some v \<and>
    (\<forall>as p. set as \<subseteq> U - {a} \<longrightarrow> linked_entries m' p as = linked_entries m p as)"
proof -
  let ?m = "\<lambda>x. if a \<le> x \<and> x < a + 8 then Some (Frag v (x - a)) else m x"
  have e: "8 \<le> es" "8 dvd a" "{a..<a + es} \<subseteq> dom m" using assms by (auto simp: entries_ok_def)
  then have "m (a + i) \<noteq> None" if "i < 8" for i using that by (auto simp: subset_iff dom_def)
  then have "put_ptr m (Addr a) v = Some ?m" using e(2) by (simp add: put_ptr_def)
  moreover have "?m x = m x" if "\<not> (a \<le> x \<and> x < a + es)" for x using that e(1) by auto
  note w = entries_write [OF assms this]
  have "dom m \<subseteq> dom ?m" by auto
  note w = w [OF _ this]
  moreover have "get_ptr ?m (Addr a) = Some v" using e(2) by (simp add: get_ptr_iff)
  ultimately show ?thesis by blast
qed

lemma poke_byte_ok:
  assumes "entries_ok es U m" "a \<in> U" "i < es"
  shows "\<exists>m'. poke_byte m (a + i) v = Some m' \<and> entries_ok es U m' \<and>
    (\<forall>as p. set as \<subseteq> U - {a} \<longrightarrow> linked_entries m' p as = linked_entries m p as)"
proof -
  have "a + i \<in> {a..<a + es}" "{a..<a + es} \<subseteq> dom m" using assms by (auto simp: entries_ok_def)
  then have "m (a + i) \<noteq> None" by blast
  then have "poke_byte m (a + i) v = Some (m(a + i \<mapsto> v))" by (simp add: poke_byte_def)
  moreover have "(m(a + i \<mapsto> v)) x = m x" if "\<not> (a \<le> x \<and> x < a + es)" for x using that assms(3) by auto
  note w = entries_write [OF assms(1,2) this]
  have "dom m \<subseteq> dom (m(a + i \<mapsto> v))" by auto
  note w = w [OF _ this]
  ultimately show ?thesis by blast
qed

section \<open>The pool of \<open>mpool_simpl.c\<close>\<close>

record simple_pool =
  sp_mem :: ptr_mem
  entry_list :: "nat ptr"

definition sp_init :: "simple_pool \<Rightarrow> simple_pool" where
  "sp_init p = p\<lparr>entry_list := NULL\<rparr>"

definition sp_get :: "simple_pool \<Rightarrow> (nat ptr \<times> simple_pool) option" where
  "sp_get p =
     (if entry_list p = NULL then Some (NULL, p)
      else do {
        let entry = entry_list p;
        nxt \<leftarrow> get_ptr (sp_mem p) entry;
        Some (entry, p\<lparr>entry_list := nxt\<rparr>) })"

definition sp_put :: "simple_pool \<Rightarrow> nat \<Rightarrow> simple_pool option" where
  "sp_put p e = do {
     m \<leftarrow> put_ptr (sp_mem p) (Addr e) (entry_list p);
     Some (p\<lparr>sp_mem := m, entry_list := Addr e\<rparr>) }"

text \<open>\<open>main\<close>, with the addresses of the variables \<open>e1\<close> and \<open>e2\<close>.\<close>

definition sp_main :: "simple_pool \<Rightarrow> nat \<Rightarrow> nat \<Rightarrow> simple_pool option" where
  "sp_main p e1 e2 = do {
     let p = sp_init p;
     p \<leftarrow> sp_put p e1;
     p \<leftarrow> sp_put p e2;
     (p1, p) \<leftarrow> sp_get p;
     c_assert (p1 \<noteq> NULL);
     (p2, p) \<leftarrow> sp_get p;
     c_assert (p2 \<noteq> NULL);
     Some p }"

definition sp_poke :: "simple_pool \<Rightarrow> nat \<Rightarrow> nat \<Rightarrow> ptr_byte \<Rightarrow> simple_pool option" where
  "sp_poke p a i v = do { m \<leftarrow> poke_byte (sp_mem p) (a + i) v; Some (p\<lparr>sp_mem := m\<rparr>) }"

text \<open>An entry has the 16 bytes of \<open>ENTRY_LAYOUT\<close>.\<close>

definition sp_rep :: "simple_pool \<Rightarrow> nat set \<Rightarrow> nat set \<Rightarrow> bool" where
  "sp_rep p U A \<longleftrightarrow> entries_ok 16 U (sp_mem p) \<and> A \<subseteq> U \<and> (\<exists>as. distinct as \<and> set as = A \<and> linked_entries (sp_mem p) (entry_list p) as)"

lemma sp_rep_list:
  assumes "sp_rep p U A"
  obtains as where "distinct as" "set as = A" "linked_entries (sp_mem p) (entry_list p) as"
  using assms by (auto simp: sp_rep_def)

lemma sp_rep_put:
  assumes "sp_rep s U A" "a \<in> U - A"
  shows "\<exists>s'. sp_put s a = Some s' \<and> sp_rep s' U (insert a A)"
proof -
  obtain as where as: "distinct as" "set as = A" "linked_entries (sp_mem s) (entry_list s) as" by (rule sp_rep_list [OF assms(1)])
  have U: "entries_ok 16 U (sp_mem s)" "A \<subseteq> U" using assms(1) by (auto simp: sp_rep_def)
  obtain m where m: "put_ptr (sp_mem s) (Addr a) (entry_list s) = Some m" "entries_ok 16 U m" "get_ptr m (Addr a) = Some (entry_list s)"
    "\<And>as p. set as \<subseteq> U - {a} \<Longrightarrow> linked_entries m p as = linked_entries (sp_mem s) p as"
    using put_ptr_ok [OF U(1), of a "entry_list s"] assms(2) by blast
  have "linked_entries m (Addr a) (a # as)" using m(3) m(4) [of as] as U(2) assms(2) by auto
  then have "sp_rep (s\<lparr>sp_mem := m, entry_list := Addr a\<rparr>) U (insert a A)" unfolding sp_rep_def
    using m(2) as U(2) assms(2) by (auto simp del: linked_entries.simps intro!: exI [of _ "a # as"])
  then show ?thesis using m(1) by (simp add: sp_put_def)
qed

lemma sp_rep_poke:
  assumes "sp_rep s U A" "a \<in> U - A" "i < 16"
  shows "\<exists>s'. sp_poke s a i v = Some s' \<and> sp_rep s' U A"
proof -
  have U: "entries_ok 16 U (sp_mem s)" "A \<subseteq> U" using assms(1) by (auto simp: sp_rep_def)
  obtain m where m: "poke_byte (sp_mem s) (a + i) v = Some m" "entries_ok 16 U m"
    "\<And>as p. set as \<subseteq> U - {a} \<Longrightarrow> linked_entries m p as = linked_entries (sp_mem s) p as"
    using poke_byte_ok [where a = a and v = v, OF U(1) _ assms(3)] assms(2) by blast
  have "set as = A \<Longrightarrow> set as \<subseteq> U - {a}" for as using U(2) assms(2) by blast
  then have "sp_rep (s\<lparr>sp_mem := m\<rparr>) U A" using assms(1) m(2,3) unfolding sp_rep_def by auto
  then show ?thesis using m(1) by (simp add: sp_poke_def)
qed

interpretation sp: entry_pool sp_rep sp_get sp_put sp_poke 16
proof unfold_locales
  fix s U A
  show "sp_rep s U A \<Longrightarrow> A \<subseteq> U" by (simp add: sp_rep_def)
  show "sp_rep s U {} \<Longrightarrow> sp_get s = Some (NULL, s)" by (auto simp: sp_rep_def sp_get_def)
  show "\<exists>a s'. sp_get s = Some (Addr a, s') \<and> a \<in> A \<and> sp_rep s' U (A - {a})" if r: "sp_rep s U A" "A \<noteq> {}"
  proof -
    obtain as where as: "distinct as" "set as = A" "linked_entries (sp_mem s) (entry_list s) as" by (rule sp_rep_list [OF r(1)])
    then obtain b bs q where b: "as = b # bs" "entry_list s = Addr b" "get_ptr (sp_mem s) (Addr b) = Some q" "linked_entries (sp_mem s) q bs"
      using r(2) by (cases as) auto
    then have "sp_get s = Some (Addr b, s\<lparr>entry_list := q\<rparr>)" by (simp add: sp_get_def)
    moreover have "sp_rep (s\<lparr>entry_list := q\<rparr>) U (A - {b})" unfolding sp_rep_def
      using r(1) as b by (auto simp: sp_rep_def intro!: exI [of _ bs])
    ultimately show ?thesis using b as by auto
  qed
qed (fact sp_rep_put sp_rep_poke)+

section \<open>The slab of \<open>malloc1.c\<close>\<close>

record slab =
  sb_mem :: ptr_mem
  chunksize :: u64
  sb_entry_size :: u64
  chunk :: nat
  sb_free :: "nat ptr"

definition slab_init :: "slab \<Rightarrow> nat \<Rightarrow> u64 \<Rightarrow> u64 \<Rightarrow> slab" where
  "slab_init s p cs es = s\<lparr>chunk := p, chunksize := cs, sb_entry_size := es, sb_free := NULL\<rparr>"

definition slab_alloc :: "slab \<Rightarrow> (nat ptr \<times> slab) option" where
  "slab_alloc s =
     (if sb_free s \<noteq> NULL then do {
        let f = sb_free s;
        nxt \<leftarrow> get_ptr (sb_mem s) f;
        let s = s\<lparr>sb_free := nxt\<rparr>;
        let r = f;
        Some (r, s) }
      else if sb_entry_size s > chunksize s then Some (NULL, s)
      else do {
        let r = Addr (chunk s);
        let s = s\<lparr>chunk := chunk s + unat (sb_entry_size s)\<rparr>;
        let s = s\<lparr>chunksize := chunksize s - sb_entry_size s\<rparr>;
        Some (r, s) })"

definition slab_free :: "slab \<Rightarrow> nat \<Rightarrow> slab option" where
  "slab_free s f = do {
     m \<leftarrow> put_ptr (sb_mem s) (Addr f) (sb_free s);
     Some (s\<lparr>sb_mem := m, sb_free := Addr f\<rparr>) }"

definition slab_poke :: "slab \<Rightarrow> nat \<Rightarrow> nat \<Rightarrow> ptr_byte \<Rightarrow> slab option" where
  "slab_poke s a i v = do { m \<leftarrow> poke_byte (sb_mem s) (a + i) v; Some (s\<lparr>sb_mem := m\<rparr>) }"

text \<open>
  The entries of a chunk of \<open>n\<close> bytes, and the entries of a slab that are free: those of the list and those of the chunk. As the annotations of
  \<open>struct slab\<close> and \<open>slab_init\<close> demand, an entry has the size and the alignment of a pointer (\<open>entries_ok\<close>).
\<close>

definition chunk_entries :: "nat \<Rightarrow> nat \<Rightarrow> nat \<Rightarrow> nat set" where
  "chunk_entries p n es = {p + i * es |i. i < n div es}"

abbreviation slab_chunk :: "slab \<Rightarrow> nat set" where
  "slab_chunk s \<equiv> chunk_entries (chunk s) (unat (chunksize s)) (unat (sb_entry_size s))"

definition slab_rep :: "u64 \<Rightarrow> slab \<Rightarrow> nat set \<Rightarrow> nat set \<Rightarrow> bool" where
  "slab_rep es s U A \<longleftrightarrow> sb_entry_size s = es \<and> entries_ok (unat es) U (sb_mem s) \<and> A \<subseteq> U \<and>
     (\<exists>as. distinct as \<and> linked_entries (sb_mem s) (sb_free s) as \<and> set as \<inter> slab_chunk s = {} \<and> A = set as \<union> slab_chunk s)"

lemma slab_rep_list:
  assumes "slab_rep es s U A"
  obtains as where "distinct as" "linked_entries (sb_mem s) (sb_free s) as" "set as \<inter> slab_chunk s = {}" "A = set as \<union> slab_chunk s"
  using assms by (auto simp: slab_rep_def)

lemma chunk_entries_empty: "0 < es \<Longrightarrow> chunk_entries p n es = {} \<longleftrightarrow> n < es"
  using div_eq_0_iff [of n es] by (auto simp: chunk_entries_def)

lemma chunk_entries_take:
  assumes "0 < es" "es \<le> n"
  shows "p \<in> chunk_entries p n es" "chunk_entries (p + es) (n - es) es = chunk_entries p n es - {p}"
proof -
  have d: "n div es = Suc ((n - es) div es)" using assms by (simp add: le_div_geq)
  show "p \<in> chunk_entries p n es" unfolding chunk_entries_def d by (auto intro!: exI [of _ 0])
  have "x \<in> chunk_entries (p + es) (n - es) es \<longleftrightarrow> x \<in> chunk_entries p n es \<and> x \<noteq> p" for x
  proof
    assume "x \<in> chunk_entries (p + es) (n - es) es"
    then obtain i where "x = p + es + i * es" "i < (n - es) div es" by (auto simp: chunk_entries_def)
    then have "x = p + Suc i * es" "Suc i < n div es" "x \<noteq> p" using d assms(1) by simp_all
    then show "x \<in> chunk_entries p n es \<and> x \<noteq> p" unfolding chunk_entries_def by blast
  next
    assume a: "x \<in> chunk_entries p n es \<and> x \<noteq> p"
    then obtain i where i: "x = p + i * es" "i < n div es" by (auto simp: chunk_entries_def)
    then obtain j where "i = Suc j" using a by (cases i) auto
    then have "x = p + es + j * es" "j < (n - es) div es" using i d by simp_all
    then show "x \<in> chunk_entries (p + es) (n - es) es" unfolding chunk_entries_def by blast
  qed
  then show "chunk_entries (p + es) (n - es) es = chunk_entries p n es - {p}" by auto
qed

lemma chunk_entries_ok:
  assumes "8 \<le> es" "8 dvd es" "8 dvd p" "{p..<p + n} \<subseteq> dom m"
  shows "entries_ok es (chunk_entries p n es) m"
proof -
  have "{p + i * es..<p + i * es + es} \<subseteq> {p..<p + n}" if "i < n div es" for i
  proof -
    have "Suc i * es \<le> n div es * es" using that by (intro mult_le_mono1) simp
    also have "n div es * es \<le> n" by (rule div_times_less_eq_dividend)
    finally have "i * es + es \<le> n" by simp
    then show ?thesis by auto
  qed
  then have "\<forall>a\<in>chunk_entries p n es. {a..<a + es} \<subseteq> dom m" using assms(4) unfolding chunk_entries_def by blast
  moreover have "p + i * es + es \<le> p + j * es" if "p + i * es < p + j * es" for i j
  proof -
    have "Suc i \<le> j" using that by (simp add: Suc_le_eq)
    then have "Suc i * es \<le> j * es" by (rule mult_le_mono1)
    then show ?thesis by simp
  qed
  then have "\<forall>a\<in>chunk_entries p n es. \<forall>b\<in>chunk_entries p n es. a < b \<longrightarrow> a + es \<le> b" unfolding chunk_entries_def by blast
  moreover have "\<forall>a\<in>chunk_entries p n es. 8 dvd a" using assms(2,3) by (auto simp: chunk_entries_def)
  ultimately show ?thesis using assms(1) by (simp add: entries_ok_def)
qed

lemma slab_get_some:
  assumes "slab_rep es s U A" "A \<noteq> {}"
  shows "\<exists>a s'. slab_alloc s = Some (Addr a, s') \<and> a \<in> A \<and> slab_rep es s' U (A - {a})"
proof -
  let ?es = "unat es" and ?n = "unat (chunksize s)"
  obtain as where as: "distinct as" "linked_entries (sb_mem s) (sb_free s) as" "set as \<inter> slab_chunk s = {}" "A = set as \<union> slab_chunk s"
    by (rule slab_rep_list [OF assms(1)])
  have U: "sb_entry_size s = es" "entries_ok ?es U (sb_mem s)" "A \<subseteq> U" using assms(1) by (auto simp: slab_rep_def)
  have es: "0 < ?es" using U(2) by (simp add: entries_ok_def)
  show ?thesis
  proof (cases as)
    case (Cons b bs)
    then obtain q where q: "sb_free s = Addr b" "get_ptr (sb_mem s) (Addr b) = Some q" "linked_entries (sb_mem s) q bs" using as(2) by auto
    then have "slab_alloc s = Some (Addr b, s\<lparr>sb_free := q\<rparr>)" by (simp add: slab_alloc_def)
    moreover have "slab_rep es (s\<lparr>sb_free := q\<rparr>) U (A - {b})" unfolding slab_rep_def
      using U as q Cons by (auto intro!: exI [of _ bs])
    ultimately show ?thesis using as(4) Cons by auto
  next
    case Nil
    then have f: "sb_free s = NULL" "slab_chunk s \<noteq> {}" "A = slab_chunk s" using as(2,4) assms(2) by auto
    then have le: "?es \<le> ?n" using chunk_entries_empty [OF es] U(1) by (simp add: not_less)
    let ?s = "s\<lparr>chunk := chunk s + ?es, chunksize := chunksize s - es\<rparr>"
    have le': "es \<le> chunksize s" using le by (simp add: word_le_nat_alt)
    then have "slab_alloc s = Some (Addr (chunk s), ?s)" using f(1) U(1) by (simp add: slab_alloc_def)
    moreover have "unat (chunksize s - es) = ?n - ?es" using le' by (simp add: unat_sub)
    then have "slab_chunk ?s = A - {chunk s}" using U(1) f(3) chunk_entries_take(2) [OF es le, of "chunk s"] by simp
    then have "slab_rep es ?s U (A - {chunk s})" unfolding slab_rep_def
      using U f(1) by (intro conjI exI [of _ "[]"]) auto
    ultimately show ?thesis using f(3) U(1) chunk_entries_take(1) [OF es le] by blast
  qed
qed

lemma slab_rep_put:
  assumes "slab_rep es s U A" "a \<in> U - A"
  shows "\<exists>s'. slab_free s a = Some s' \<and> slab_rep es s' U (insert a A)"
proof -
  obtain as where as: "distinct as" "linked_entries (sb_mem s) (sb_free s) as" "set as \<inter> slab_chunk s = {}" "A = set as \<union> slab_chunk s"
    by (rule slab_rep_list [OF assms(1)])
  have U: "sb_entry_size s = es" "entries_ok (unat es) U (sb_mem s)" "A \<subseteq> U" using assms(1) by (auto simp: slab_rep_def)
  obtain m where m: "put_ptr (sb_mem s) (Addr a) (sb_free s) = Some m" "entries_ok (unat es) U m" "get_ptr m (Addr a) = Some (sb_free s)"
    "\<And>as p. set as \<subseteq> U - {a} \<Longrightarrow> linked_entries m p as = linked_entries (sb_mem s) p as"
    using put_ptr_ok [OF U(2), of a "sb_free s"] assms(2) by blast
  have "linked_entries m (Addr a) (a # as)" using m(3) m(4) [of as] as U(3) assms(2) by auto
  then have "slab_rep es (s\<lparr>sb_mem := m, sb_free := Addr a\<rparr>) U (insert a A)" unfolding slab_rep_def
    using m(2) as U assms(2) by (auto simp del: linked_entries.simps intro!: exI [of _ "a # as"])
  then show ?thesis using m(1) by (simp add: slab_free_def)
qed

lemma slab_rep_poke:
  assumes "slab_rep es s U A" "a \<in> U - A" "i < unat es"
  shows "\<exists>s'. slab_poke s a i v = Some s' \<and> slab_rep es s' U A"
proof -
  have U: "entries_ok (unat es) U (sb_mem s)" "A \<subseteq> U" using assms(1) by (auto simp: slab_rep_def)
  obtain m where m: "poke_byte (sb_mem s) (a + i) v = Some m" "entries_ok (unat es) U m"
    "\<And>as p. set as \<subseteq> U - {a} \<Longrightarrow> linked_entries m p as = linked_entries (sb_mem s) p as"
    using poke_byte_ok [where a = a and v = v, OF U(1) _ assms(3)] assms(2) by blast
  obtain as where as: "distinct as" "linked_entries (sb_mem s) (sb_free s) as" "set as \<inter> slab_chunk s = {}" "A = set as \<union> slab_chunk s"
    by (rule slab_rep_list [OF assms(1)])
  have "linked_entries m (sb_free s) as" using m(3) [of as] as(2,4) U(2) assms(2) by auto
  then have "slab_rep es (s\<lparr>sb_mem := m\<rparr>) U A" using assms(1) m(2) as unfolding slab_rep_def by auto
  then show ?thesis using m(1) by (simp add: slab_poke_def)
qed

interpretation slab: entry_pool "slab_rep es" slab_alloc slab_free slab_poke "unat es" for es
proof unfold_locales
  fix s U A
  show "slab_rep es s U A \<Longrightarrow> A \<subseteq> U" by (simp add: slab_rep_def)
  show "slab_alloc s = Some (NULL, s)" if r: "slab_rep es s U {}"
  proof -
    have f: "sb_free s = NULL" "slab_chunk s = {}" "sb_entry_size s = es" "0 < unat es"
      using r by (auto simp: slab_rep_def entries_ok_def)
    then have "chunksize s < sb_entry_size s" using chunk_entries_empty by (simp add: word_less_nat_alt)
    then show ?thesis using f(1) by (simp add: slab_alloc_def)
  qed
qed (fact slab_get_some slab_rep_put slab_rep_poke)+

section \<open>Clients\<close>

lemma sp_init_rep: "sp_rep (sp_init p) {} {}"
  by (simp add: sp_rep_def sp_init_def entries_ok_def)

lemma slab_init_rep:
  assumes "8 \<le> es" "8 dvd unat es" "8 dvd p" "{p..<p + unat cs} \<subseteq> dom (sb_mem s)"
  shows "slab_rep es (slab_init s p cs es) (chunk_entries p (unat cs) (unat es)) (chunk_entries p (unat cs) (unat es))"
proof -
  have "8 \<le> unat es" using assms(1) by (simp add: word_le_nat_alt)
  from chunk_entries_ok [OF this assms(2-4)] show ?thesis by (auto simp: slab_rep_def slab_init_def intro!: exI [of _ "[]"])
qed

text \<open>\<open>main\<close> on two globals of the size that the annotation gives them.\<close>

lemma sp_main_ok:
  assumes "entries_ok 16 {e1, e2} (sp_mem p)" "e1 \<noteq> e2"
  shows "\<exists>p'. sp_main p e1 e2 = Some p'"
proof -
  let ?U = "{e1, e2}"
  have "sp_rep (sp_init p) ?U {}" using assms(1) by (simp add: sp_rep_def sp_init_def)
  from sp.put_rep [OF this, of e1] obtain p1 where p1: "sp_put (sp_init p) e1 = Some p1" "sp_rep p1 ?U {e1}" by auto
  from sp.put_rep [OF this(2), of e2] obtain p2 where p2: "sp_put p1 e2 = Some p2" "sp_rep p2 ?U {e2, e1}" using assms(2) by auto
  from sp.get_some [OF p2(2)] obtain a p3 where p3: "sp_get p2 = Some (Addr a, p3)" "a \<in> {e2, e1}" "sp_rep p3 ?U ({e2, e1} - {a})" by blast
  have "{e2, e1} - {a} \<noteq> {}" using p3(2) assms(2) by auto
  from sp.get_some [OF p3(3) this] obtain b p4 where "sp_get p3 = Some (Addr b, p4)" by blast
  then show ?thesis using p1(1) p2(1) p3(1) by (simp add: sp_main_def Let_def)
qed

text \<open>
  C36. After \<open>slab_init\<close> on a chunk of memory, with an entry size that has room for a pointer (at least 8 bytes) and is, as the chunk, aligned to 8 bytes,
  whatever a client allocates, frees and writes (it frees only entries that it holds, and writes any byte of them), no call faults, \<open>slab_alloc\<close> never hands out an
  entry that the client holds, and every entry is either held or free: the slab has as free entries exactly those of the chunk that the
  client does not hold, and so fails only when all of them are held. The pool of \<open>mpool_simpl.c\<close> keeps the same contract from every state with
  the free entries \<open>A\<close> out of \<open>U\<close>, which are aligned, of 16 bytes and do not overlap. In both no byte of a held entry is a byte of another entry.
\<close>

theorem entry_pools_safe:
  assumes "8 \<le> es" "8 dvd unat es" "8 dvd p" "{p..<p + unat cs} \<subseteq> dom (sb_mem s)" and "sp_rep q U A"
  shows "(\<exists>s' H. pool_run slab_alloc slab_free slab_poke (unat es) xs (slab_init s p cs es, {}) = Some (s', H) \<and>
      H \<subseteq> chunk_entries p (unat cs) (unat es) \<and>
      slab_rep es s' (chunk_entries p (unat cs) (unat es)) (chunk_entries p (unat cs) (unat es) - H)) \<and>
    (\<exists>q' H. pool_run sp_get sp_put sp_poke 16 xs (q, U - A) = Some (q', H) \<and> H \<subseteq> U \<and> sp_rep q' U (U - H))"
proof
  let ?U = "chunk_entries p (unat cs) (unat es)"
  have "slab_rep es (slab_init s p cs es) ?U (?U - {})" using slab_init_rep [OF assms(1-4)] by simp
  from slab.client_ok [OF this]
  show "\<exists>s' H. pool_run slab_alloc slab_free slab_poke (unat es) xs (slab_init s p cs es, {}) = Some (s', H) \<and> H \<subseteq> ?U \<and>
      slab_rep es s' ?U (?U - H)"
    by blast
  have "U - (U - A) = A" using sp.rep_sub [OF assms(5)] by blast
  then have "sp_rep q U (U - (U - A))" using assms(5) by simp
  from sp.client_ok [OF this] show "\<exists>q' H. pool_run sp_get sp_put sp_poke 16 xs (q, U - A) = Some (q', H) \<and> H \<subseteq> U \<and> sp_rep q' U (U - H)" by blast
qed

text \<open>A chunk of two entries of 16 bytes at address 64; a pool with the entries 16 and 32, of which the first is free.\<close>

definition demo_slab :: slab where
  "demo_slab = \<lparr>sb_mem = (\<lambda>_. Some (Raw 0)), chunksize = 0, sb_entry_size = 0, chunk = 0, sb_free = NULL\<rparr>"

definition demo_pool :: simple_pool where
  "demo_pool = \<lparr>sp_mem = (\<lambda>x. if x < 16 then None else if x < 24 then Some (Frag NULL (x - 16)) else Some (Raw 0)), entry_list = Addr 16\<rparr>"

theorem entry_pools_safe_witness:
  "(\<exists>s' H. pool_run slab_alloc slab_free slab_poke 16 [Get, Get, Get, Poke 64 15 (Raw 7), Put 64] (slab_init demo_slab 64 32 16, {}) = Some (s', H) \<and>
      slab_rep 16 s' (chunk_entries 64 32 16) (chunk_entries 64 32 16 - H)) \<and>
   (\<exists>q' H. pool_run sp_get sp_put sp_poke 16 [Get, Get, Get, Poke 64 15 (Raw 7), Put 64] (demo_pool, {32}) = Some (q', H) \<and>
      sp_rep q' {16, 32} ({16, 32} - H))"
proof -
  have c: "{64..<64 + unat (32 :: u64)} \<subseteq> dom (sb_mem demo_slab)" "(8 :: u64) \<le> 16" "8 dvd unat (16 :: u64)" "8 dvd (64 :: nat)"
    by (auto simp: demo_slab_def)
  have "entries_ok 16 {16, 32} (sp_mem demo_pool)" by (auto simp: entries_ok_def demo_pool_def)
  moreover have "linked_entries (sp_mem demo_pool) (entry_list demo_pool) [16]" by (simp add: demo_pool_def get_ptr_iff)
  ultimately have p: "sp_rep demo_pool {16, 32} {16}" unfolding sp_rep_def by (auto intro!: exI [of _ "[16]"])
  have "{16, 32} - {16} = {32 :: nat}" by auto
  from entry_pools_safe [OF c(2,3,4,1) p, of "[Get, Get, Get, Poke 64 15 (Raw 7), Put 64]"] this show ?thesis
    by (simp del: pool_run.simps) blast
qed

end
