(* ===== verification/Chunks.thy ===== *)
theory Chunks
  imports Talloc "HOL-Library.Multiset"
begin

text \<open>
  The sorted free list of \<open>src/examples/paper_example_2_2.c\<close>, on the memory of the tutorial allocator. A chunk starts with
  its size and, eight bytes on, the pointer to the next chunk; a \<open>chunks_t *\<close> is the address of the word that has the pointer.
\<close>

section \<open>The program\<close>

definition chunk_next :: "nat \<Rightarrow> nat" where
  "chunk_next a = a + 8"

text \<open>The loop of \<open>free\<close>: the address of the pointer in front of which the new chunk belongs.\<close>

partial_function (option) chunks_place :: "'k tmem \<Rightarrow> u64 \<Rightarrow> nat \<Rightarrow> nat option" where
  "chunks_place s sz cur =
     Option.bind (get_tptr s cur) (\<lambda>p.
       if p \<noteq> NULL then
         Option.bind (deref p) (\<lambda>c.
         Option.bind (get_tsize s c) (\<lambda>n.
           if sz \<le> n then Some cur else chunks_place s sz (chunk_next c)))
       else Some cur)"

definition chunks_free :: "'k tmem \<Rightarrow> nat \<Rightarrow> nat \<Rightarrow> u64 \<Rightarrow> 'k tmem option" where
  "chunks_free s lst dat sz = do {
     let cur = lst;
     cur \<leftarrow> chunks_place s sz cur;
     let entry = dat;
     s \<leftarrow> put_word s entry (TSize sz);
     p \<leftarrow> get_tptr s cur;
     s \<leftarrow> put_word s (chunk_next entry) (TPtr p);
     put_word s cur (TPtr (Addr entry)) }"

section \<open>Representation\<close>

text \<open>Memory that is aligned and holds at least a \<open>struct chunk\<close>; its size is arbitrary otherwise.\<close>

definition chunk_ok :: "(nat, 'k tword) heap \<Rightarrow> nat \<Rightarrow> nat \<Rightarrow> bool" where
  "chunk_ok w a n \<longleftrightarrow> 8 dvd a \<and> 16 \<le> n \<and> tblk a n \<subseteq> dom w"

fun chunk_list :: "(nat, 'k tword) heap \<Rightarrow> nat ptr \<Rightarrow> (nat \<times> u64) list \<Rightarrow> bool" where
  "chunk_list w p [] \<longleftrightarrow> p = NULL"
| "chunk_list w p ((a, n) # bs) \<longleftrightarrow> p = Addr a \<and> chunk_ok w a (unat n) \<and> w a = Some (TSize n) \<and>
     tblk a (unat n) \<inter> blks bs = {} \<and> (\<exists>q. w (chunk_next a) = Some (TPtr q) \<and> chunk_list w q bs)"

definition chunk_var :: "'k tmem \<Rightarrow> nat \<Rightarrow> (nat \<times> u64) list \<Rightarrow> bool" where
  "chunk_var s l bs \<longleftrightarrow> l \<notin> blks bs \<and> (\<exists>p. words s l = Some (TPtr p) \<and> chunk_list (words s) p bs)"

fun insert_chunk :: "nat \<Rightarrow> u64 \<Rightarrow> (nat \<times> u64) list \<Rightarrow> (nat \<times> u64) list" where
  "insert_chunk d n [] = [(d, n)]"
| "insert_chunk d n ((a, m) # bs) = (if n \<le> m then (d, n) # (a, m) # bs else (a, m) # insert_chunk d n bs)"

lemma insert_chunk_mset [simp]: "mset (insert_chunk d n bs) = add_mset (d, n) (mset bs)"
  by (induction d n bs rule: insert_chunk.induct) auto

lemma insert_chunk_blks [simp]: "blks (insert_chunk d n bs) = tblk d (unat n) \<union> blks bs"
  by (induction d n bs rule: insert_chunk.induct) auto

lemma insert_chunk_set [simp]: "set (insert_chunk d n bs) = insert (d, n) (set bs)"
  by (induction d n bs rule: insert_chunk.induct) auto

lemma insert_chunk_sorted: "sorted (map snd bs) \<Longrightarrow> sorted (map snd (insert_chunk d n bs))"
  by (induction d n bs rule: insert_chunk.induct) auto

lemma insert_chunk_split: "\<exists>as cs. insert_chunk d n bs = as @ (d, n) # cs \<and> (\<forall>x\<in>set as. snd x < n)"
proof (induction bs)
  case (Cons b bs)
  then obtain as cs where "insert_chunk d n bs = as @ (d, n) # cs" "\<forall>x\<in>set as. snd x < n" by blast
  then have "insert_chunk d n (b # bs) = (if n \<le> snd b then [] @ (d, n) # b # bs else (b # as) @ (d, n) # cs)" by (cases b) simp
  moreover have "\<forall>x\<in>set (b # as). snd x < n" if "\<not> n \<le> snd b" using that \<open>\<forall>x\<in>set as. _\<close> by simp
  ultimately show ?case by (cases "n \<le> snd b") (metis empty_iff empty_set, metis)
qed (simp add: exI [of _ "[]"])

section \<open>Correctness\<close>

lemma chunk_words:
  assumes "chunk_ok w a n"
  shows "a \<in> tblk a n" "chunk_next a \<in> tblk a n" "a \<in> dom w" "chunk_next a \<in> dom w"
  using assms by (auto simp: chunk_ok_def tblk_def chunk_next_def subset_iff)

lemma chunk_next_neq [simp]: "chunk_next a \<noteq> a" "a \<noteq> chunk_next a"
  by (simp_all add: chunk_next_def)

lemma chunk_ok_cong: "chunk_ok w a n \<Longrightarrow> dom w' = dom w \<Longrightarrow> chunk_ok w' a n"
  by (simp add: chunk_ok_def)

lemma chunk_list_cong:
  "chunk_list w p bs \<Longrightarrow> (\<And>x. x \<in> blks bs \<Longrightarrow> w' x = w x) \<Longrightarrow> dom w' = dom w \<Longrightarrow> chunk_list w' p bs"
proof (induction bs arbitrary: p)
  case (Cons b bs)
  obtain a n where b: "b = (a, n)" by (cases b)
  from Cons.prems(1) b have ok: "chunk_ok w a (unat n)" by simp
  have "w' a = w a" "w' (chunk_next a) = w (chunk_next a)" using chunk_words [OF ok] b Cons.prems(2) by auto
  moreover have "chunk_list w' q bs" if "chunk_list w q bs" for q
    using that Cons.prems(2,3) b by (intro Cons.IH) auto
  ultimately show ?case using Cons.prems(1,3) ok b by (auto intro: chunk_ok_cong)
qed simp

text \<open>
  The heap after linking the chunk \<open>d\<close> at the place \<open>c\<close>. The loop ends at the place that \<open>insert_chunk\<close> gives.
\<close>

definition linked_chunk :: "(nat, 'k tword) heap \<Rightarrow> nat \<Rightarrow> u64 \<Rightarrow> nat \<Rightarrow> nat ptr \<Rightarrow> (nat, 'k tword) heap" where
  "linked_chunk w d n c q = w(d \<mapsto> TSize n, chunk_next d \<mapsto> TPtr q, c \<mapsto> TPtr (Addr d))"

lemma linked_chunk_place [simp]: "linked_chunk w d n c q c = Some (TPtr (Addr d))"
  by (simp add: linked_chunk_def)

lemma linked_chunk_frame:
  assumes "chunk_ok w d (unat n)" "w c = Some v"
  shows "dom (linked_chunk w d n c q) = dom w"
    and "x \<notin> tblk d (unat n) \<Longrightarrow> x \<noteq> c \<Longrightarrow> linked_chunk w d n c q x = w x"
  using chunk_words [OF assms(1)] assms(2) by (auto simp: linked_chunk_def)

lemma linked_chunk_new:
  assumes "chunk_ok w d (unat n)" "w c = Some v" "c \<notin> tblk d (unat n)" "chunk_list w q bs" "c \<notin> blks bs" "tblk d (unat n) \<inter> blks bs = {}"
  shows "chunk_list (linked_chunk w d n c q) (Addr d) ((d, n) # bs)"
proof -
  let ?w = "linked_chunk w d n c q"
  note aw = chunk_words [OF assms(1)] and fr = linked_chunk_frame [OF assms(1,2)]
  have "?w d = Some (TSize n)" "?w (chunk_next d) = Some (TPtr q)" using aw assms(3) by (auto simp: linked_chunk_def)
  moreover have "chunk_list ?w q bs"
    by (rule chunk_list_cong [OF assms(4) _ fr(1)], rule fr(2)) (use assms(5,6) in auto)
  ultimately show ?thesis using chunk_ok_cong [OF assms(1) fr(1)] assms(6) by auto
qed

lemma chunks_place_ok:
  assumes "chunk_list (words s) p bs" "words s l = Some (TPtr p)" "l \<notin> blks bs"
    and "chunk_ok (words s) d (unat n)" "tblk d (unat n) \<inter> insert l (blks bs) = {}"
  shows "\<exists>c q p'. chunks_place s n l = Some c \<and> words s c = Some (TPtr q) \<and> c \<in> insert l (blks bs) \<and>
    linked_chunk (words s) d n c q l = Some (TPtr p') \<and> chunk_list (linked_chunk (words s) d n c q) p' (insert_chunk d n bs)"
  using assms
proof (induction bs arbitrary: p l)
  case Nil
  then have "chunks_place s n l = Some l" by (subst chunks_place.simps) (simp add: get_tptr_def)
  moreover have "chunk_list (linked_chunk (words s) d n l NULL) (Addr d) [(d, n)]"
    using Nil by (intro linked_chunk_new) auto
  ultimately show ?case using Nil.prems(1,2)
    by (intro exI [of _ l] exI [of _ NULL] exI [of _ "Addr d"]) (simp del: chunk_list.simps, simp)
next
  case (Cons b bs)
  obtain a m where b: "b = (a, m)" by (cases b)
  with Cons.prems obtain q where D: "chunk_ok (words s) a (unat m)" "tblk a (unat m) \<inter> blks bs = {}" "words s (chunk_next a) = Some (TPtr q)"
    "chunk_list (words s) q bs" "words s a = Some (TSize m)" "p = Addr a" by auto
  note aw = chunk_words [OF D(1)] and dw = chunk_words [OF Cons.prems(4)]
  show ?case
  proof (cases "n \<le> m")
    case True
    then have "chunks_place s n l = Some l" using Cons.prems(2) D by (subst chunks_place.simps) (simp add: get_tptr_def get_tsize_def)
    moreover have "chunk_list (linked_chunk (words s) d n l p) (Addr d) ((d, n) # b # bs)"
      using Cons.prems by (intro linked_chunk_new) auto
    ultimately show ?thesis using True b Cons.prems(2)
      by (intro exI [of _ l] exI [of _ p] exI [of _ "Addr d"]) (simp del: chunk_list.simps)
  next
    case False
    then have st: "chunks_place s n l = chunks_place s n (chunk_next a)"
      using Cons.prems(2) D by (subst chunks_place.simps) (simp add: get_tptr_def get_tsize_def)
    have nx: "chunk_next a \<notin> blks bs" using aw D(2) by auto
    have dj: "tblk d (unat n) \<inter> insert (chunk_next a) (blks bs) = {}" using Cons.prems(5) aw b by auto
    from Cons.IH [OF D(4,3) nx Cons.prems(4) dj] obtain c r p' where
      c: "chunks_place s n (chunk_next a) = Some c" "words s c = Some (TPtr r)" "c \<in> insert (chunk_next a) (blks bs)"
        "linked_chunk (words s) d n c r (chunk_next a) = Some (TPtr p')" "chunk_list (linked_chunk (words s) d n c r) p' (insert_chunk d n bs)"
      by blast
    let ?w = "linked_chunk (words s) d n c r"
    note fr = linked_chunk_frame [OF Cons.prems(4) c(2)]
    have "c \<noteq> l" "c \<noteq> a" "l \<notin> tblk d (unat n)" "a \<notin> tblk d (unat n)" using c(3) aw D(2) Cons.prems(3,5) b by auto
    then have "?w l = words s l" "?w a = words s a" using fr(2) by blast+
    moreover have "tblk a (unat m) \<inter> blks (insert_chunk d n bs) = {}" using D(2) Cons.prems(5) b by auto
    ultimately have "chunk_list ?w (Addr a) (insert_chunk d n (b # bs))" "?w l = Some (TPtr p)"
      using c(4,5) D(5) Cons.prems(2) chunk_ok_cong [OF D(1) fr(1)] False b by auto
    moreover have "c \<in> insert l (blks (b # bs))" using c(3) aw(2) b by auto
    ultimately show ?thesis using st c(1,2) D(6)
      by (intro exI [of _ c] exI [of _ r] exI [of _ p]) (simp only: simp_thms)
  qed
qed

text \<open>
  C38. Releasing a chunk returns, keeps the list sorted by size, adds exactly the released chunk to it, and touches
  nothing but the chunk, the list and its head. Chunks of one size are in the order last in, first out.
\<close>

theorem chunks_free_sorted:
  assumes "chunk_var s l bs" "sorted (map snd bs)" "chunk_ok (words s) d (unat n)" "tblk d (unat n) \<inter> insert l (blks bs) = {}"
  shows "\<exists>s' bs'. chunks_free s l d n = Some s' \<and> chunk_var s' l bs' \<and> sorted (map snd bs') \<and> mset bs' = add_mset (d, n) (mset bs) \<and>
    (\<exists>as cs. bs' = as @ (d, n) # cs \<and> (\<forall>x\<in>set as. snd x < n)) \<and> same_outside (insert l (tblk d (unat n) \<union> blks bs)) s s'"
proof -
  from assms(1) obtain p where p: "words s l = Some (TPtr p)" "chunk_list (words s) p bs" "l \<notin> blks bs" by (auto simp: chunk_var_def)
  from chunks_place_ok [OF p(2,1,3) assms(3,4)] obtain c q p' where
    c: "chunks_place s n l = Some c" "words s c = Some (TPtr q)" "c \<in> insert l (blks bs)"
      "linked_chunk (words s) d n c q l = Some (TPtr p')" "chunk_list (linked_chunk (words s) d n c q) p' (insert_chunk d n bs)" by blast
  let ?s = "s\<lparr>words := linked_chunk (words s) d n c q\<rparr>"
  note dw = chunk_words [OF assms(3)] and fr = linked_chunk_frame [OF assms(3) c(2)]
  have "c \<notin> tblk d (unat n)" using c(3) assms(4) by auto
  then have "c \<noteq> d" "c \<noteq> chunk_next d" using dw by auto
  then have "chunks_free s l d n = Some ?s" using c(1,2) dw
    by (auto simp: chunks_free_def put_word_def get_tptr_def linked_chunk_def)
  moreover have "chunk_var ?s l (insert_chunk d n bs)" using c(4,5) p(3) assms(4) by (auto simp: chunk_var_def)
  moreover have "same_outside (insert l (tblk d (unat n) \<union> blks bs)) s ?s" unfolding same_outside_def
    using fr c(3) by (intro exI [of _ "linked_chunk (words s) d n c q"]) blast
  ultimately show ?thesis using insert_chunk_sorted [OF assms(2)] insert_chunk_split [of d n bs] insert_chunk_mset by blast
qed

definition demo_chunks :: "nat tmem" where
  "demo_chunks = \<lparr>al_lock = \<lparr>lock = False\<rparr>, data_addr = 0, words = (\<lambda>x. if x < 128 then
     Some (if x = 0 then TPtr (Addr 16) else if x = 16 then TSize 24 else if x = 24 then TPtr NULL else TUninit) else None)\<rparr>"

theorem chunks_free_sorted_witness:
  "\<exists>s' bs'. chunks_free demo_chunks 0 64 40 = Some s' \<and> chunk_var s' 0 bs' \<and> sorted (map snd bs') \<and> mset bs' = {#(64, 40), (16, 24)#}"
proof -
  have "chunk_var demo_chunks 0 [(16, 24)]" "chunk_ok (words demo_chunks) 64 (unat (40 :: u64))"
    by (auto simp: chunk_var_def demo_chunks_def chunk_ok_def tblk_def chunk_next_def dom_def)
  moreover have "tblk 64 (unat (40 :: u64)) \<inter> insert 0 (blks [(16, 24)]) = {}" by (auto simp: tblk_def)
  ultimately show ?thesis using chunks_free_sorted [of demo_chunks 0 "[(16, 24)]" 64 40] by auto
qed

end
