(* ===== verification/Bump_Alloc.thy ===== *)
theory Bump_Alloc
  imports Spinlock
begin

text \<open>
  The allocators over a \<open>struct mem_t\<close>, which hand out the end or the start of a buffer:
  \<open>paper_example_2_1.c\<close>, \<open>talk_demo_alloc.c\<close> and \<open>talk_demo_alloc_full.c\<close> of \<open>src/examples\<close>.
  The functions come first, with their clients; then the contract that the variants share, and the
  interleaving of threads that call \<open>thread_safe_alloc\<close>.
\<close>

section \<open>The functions of \<open>paper_example_2_1.c\<close>\<close>

record mem_t =
  mem_len :: u64
  mem_buffer :: nat

definition alloc :: "mem_t \<Rightarrow> u64 \<Rightarrow> nat ptr \<times> mem_t" where
  "alloc d sz =
     (if sz > mem_len d then (NULL, d)
      else let d = d\<lparr>mem_len := mem_len d - sz\<rparr> in (Addr (mem_buffer d + unat (mem_len d)), d))"

definition alloc_from_start :: "mem_t \<Rightarrow> u64 \<Rightarrow> nat ptr \<times> mem_t" where
  "alloc_from_start d sz =
     (if sz > mem_len d then (NULL, d)
      else let d = d\<lparr>mem_len := mem_len d - sz\<rparr>;
               res = mem_buffer d;
               d = d\<lparr>mem_buffer := mem_buffer d + unat sz\<rparr>
           in (Addr res, d))"

text \<open>The globals \<open>lock\<close>, \<open>data\<close> and \<open>param\<close>.\<close>

record alloc_globals =
  glob_lock :: spinlock
  glob_data :: mem_t
  glob_param :: u64

definition thread_safe_alloc :: "alloc_globals \<Rightarrow> u64 \<Rightarrow> (nat ptr \<times> alloc_globals) option" where
  "thread_safe_alloc g n = do {
     l \<leftarrow> sl_lock (glob_lock g);
     let g = g\<lparr>glob_lock := l\<rparr>;
     let (ret, d) = alloc (glob_data g) n;
     let g = g\<lparr>glob_data := d\<rparr>;
     let g = g\<lparr>glob_lock := sl_unlock (glob_lock g)\<rparr>;
     Some (ret, g) }"

text \<open>\<open>fork\<close>, whose implementation in the source calls the function.\<close>

definition fork :: "('a \<Rightarrow> 's \<Rightarrow> 's option) \<Rightarrow> 'a \<Rightarrow> 's \<Rightarrow> 's option" where
  "fork fn arg s = fn arg s"

text \<open>The argument is a pointer to the number; here, the function that reads it.\<close>

definition test_thread_safe_alloc_fork_fn :: "(alloc_globals \<Rightarrow> u64) \<Rightarrow> alloc_globals \<Rightarrow> alloc_globals option" where
  "test_thread_safe_alloc_fork_fn num g = do { (_, g) \<leftarrow> thread_safe_alloc g (num g); Some g }"

definition test_thread_safe_alloc :: "alloc_globals \<Rightarrow> alloc_globals option" where
  "test_thread_safe_alloc g = do {
     let g = g\<lparr>glob_param := 5\<rparr>;
     g \<leftarrow> fork test_thread_safe_alloc_fork_fn glob_param g;
     (_, g) \<leftarrow> thread_safe_alloc g 5;
     Some g }"

section \<open>The functions of \<open>talk_demo_alloc.c\<close>\<close>

text \<open>The bytes that the clients write; \<open>None\<close> inside is a byte that is not initialised.\<close>

type_synonym byte_mem = "(nat, u8 option) heap"

definition put_byte :: "byte_mem \<Rightarrow> nat ptr \<Rightarrow> nat \<Rightarrow> u8 \<Rightarrow> byte_mem option" where
  "put_byte m p i v = (case p of Addr a \<Rightarrow> modify m (Addr (a + i)) (\<lambda>_. Some v) | _ \<Rightarrow> None)"

definition get_byte :: "byte_mem \<Rightarrow> nat ptr \<Rightarrow> nat \<Rightarrow> u8 option" where
  "get_byte m p i = (case p of Addr a \<Rightarrow> Option.bind (load m (Addr (a + i))) id | _ \<Rightarrow> None)"

definition talk_alloc :: "mem_t \<Rightarrow> u64 \<Rightarrow> (nat ptr \<times> mem_t) option" where
  "talk_alloc d sz = do {
     c_assert (sz \<le> mem_len d);
     let d = d\<lparr>mem_len := mem_len d - sz\<rparr>;
     Some (Addr (mem_buffer d + unat (mem_len d)), d) }"

definition talk_client :: "byte_mem \<Rightarrow> mem_t \<Rightarrow> (u8 \<times> byte_mem \<times> mem_t) option" where
  "talk_client m d = do {
     (a, d) \<leftarrow> talk_alloc d 3;
     m \<leftarrow> put_byte m a 0 0;
     m \<leftarrow> put_byte m a 1 1;
     m \<leftarrow> put_byte m a 2 2;
     x \<leftarrow> (case a of Addr b \<Rightarrow> Some (Addr (b + 2)) | _ \<Rightarrow> None);
     r \<leftarrow> get_byte m x 0;
     Some (r, m, d) }"

section \<open>The functions of \<open>talk_demo_alloc_full.c\<close>\<close>

definition alloc_1 :: "mem_t \<Rightarrow> u64 \<Rightarrow> nat ptr \<times> mem_t" where
  "alloc_1 d sz =
     (if sz > mem_len d then (NULL, d)
      else let d = d\<lparr>mem_len := mem_len d - sz\<rparr> in (Addr (mem_buffer d + unat (mem_len d)), d))"

definition alloc_2 :: "mem_t \<Rightarrow> u64 \<Rightarrow> nat ptr \<times> mem_t" where
  "alloc_2 d sz =
     (if sz > mem_len d then (NULL, d)
      else let d = d\<lparr>mem_len := mem_len d - sz\<rparr> in (Addr (mem_buffer d + unat (mem_len d)), d))"

text \<open>The size of \<open>struct xy\<close>, two bytes, of which \<open>x\<close> is the first.\<close>

definition sizeof_xy :: u64 where
  "sizeof_xy = 2"

definition client_2 :: "byte_mem \<Rightarrow> mem_t \<Rightarrow> (byte_mem \<times> mem_t) option" where
  "client_2 m d =
     (let (s, d) = alloc_2 d sizeof_xy in
      if s = NULL then Some (m, d) else do { m \<leftarrow> put_byte m s 0 0; Some (m, d) })"

definition alloc_2_alt :: "mem_t \<Rightarrow> u64 \<Rightarrow> nat ptr \<times> mem_t" where
  "alloc_2_alt d sz =
     (if sz > mem_len d then (NULL, d)
      else let d = d\<lparr>mem_len := mem_len d - sz\<rparr> in (Addr (mem_buffer d + unat (mem_len d)), d))"

definition alloc_3 :: "mem_t \<Rightarrow> u64 \<Rightarrow> nat ptr \<times> mem_t" where
  "alloc_3 d sz =
     (if sz > mem_len d then (NULL, d)
      else let d = d\<lparr>mem_len := mem_len d - sz\<rparr> in (Addr (mem_buffer d + unat (mem_len d)), d))"

definition alloc_full :: "mem_t \<Rightarrow> u64 \<Rightarrow> nat ptr \<times> mem_t" where
  "alloc_full d sz =
     (if sz > mem_len d then (NULL, d)
      else let d = d\<lparr>mem_len := mem_len d - sz\<rparr> in (Addr (mem_buffer d + unat (mem_len d)), d))"

definition client_full :: "byte_mem \<Rightarrow> mem_t \<Rightarrow> (byte_mem \<times> mem_t) option" where
  "client_full m d =
     (let (s, d) = alloc_full d sizeof_xy in
      if s = NULL then Some (m, d)
      else do {
        m \<leftarrow> put_byte m s 0 0;
        let (t, d) = alloc_full d sizeof_xy;
        if t = NULL then Some (m, d) else do { m \<leftarrow> put_byte m t 0 0; Some (m, d) } })"

definition full_alloc_from_start :: "mem_t \<Rightarrow> u64 \<Rightarrow> nat ptr \<times> mem_t" where
  "full_alloc_from_start d sz =
     (if sz > mem_len d then (NULL, d)
      else let d = d\<lparr>mem_len := mem_len d - sz\<rparr>;
               res = mem_buffer d;
               d = d\<lparr>mem_buffer := mem_buffer d + unat sz\<rparr>
           in (Addr res, d))"

section \<open>The contract of the variants\<close>

text \<open>
  The free bytes of a \<open>mem_t\<close>. A request is served exactly when as many bytes are free; what it gets was free and is
  no longer.
\<close>

definition free_bytes :: "mem_t \<Rightarrow> nat set" where
  "free_bytes d = {mem_buffer d..<mem_buffer d + unat (mem_len d)}"

locale bump_allocator =
  fixes al :: "mem_t \<Rightarrow> u64 \<Rightarrow> nat ptr \<times> mem_t"
  assumes al_none: "mem_len d < n \<Longrightarrow> al d n = (NULL, d)"
    and al_some: "n \<le> mem_len d \<Longrightarrow> \<exists>a d'. al d n = (Addr a, d') \<and> free_bytes d = {a..<a + unat n} \<union> free_bytes d' \<and>
      {a..<a + unat n} \<inter> free_bytes d' = {} \<and> mem_len d' = mem_len d - n"

text \<open>The blocks that a sequence of requests gets.\<close>

primrec serve :: "(mem_t \<Rightarrow> u64 \<Rightarrow> nat ptr \<times> mem_t) \<Rightarrow> u64 list \<Rightarrow> mem_t \<Rightarrow> nat set option list" where
  "serve al [] d = []"
| "serve al (n # ns) d = (case al d n of (p, d') \<Rightarrow>
     (case p of Addr a \<Rightarrow> Some {a..<a + unat n} | _ \<Rightarrow> None) # serve al ns d')"

lemma length_serve [simp]: "length (serve al ns d) = length ns"
  by (induction ns arbitrary: d) (auto split: prod.split)

text \<open>Which requests fit, by arithmetic alone.\<close>

primrec fits :: "u64 list \<Rightarrow> u64 \<Rightarrow> bool list" where
  "fits [] l = []"
| "fits (n # ns) l = (n \<le> l) # fits ns (if n \<le> l then l - n else l)"

context bump_allocator
begin

lemma serve_fits: "map (\<lambda>b. b \<noteq> None) (serve al ns d) = fits ns (mem_len d)"
proof (induction ns arbitrary: d)
  case (Cons n ns)
  show ?case
  proof (cases "n \<le> mem_len d")
    case True
    from al_some [OF this] obtain a d' where "al d n = (Addr a, d')" "mem_len d' = mem_len d - n" by blast
    then show ?thesis using Cons [of d'] True by simp
  next
    case False
    then show ?thesis using Cons [of d] al_none [of d n] by simp
  qed
qed simp

lemma serve_free: "Some B \<in> set (serve al ns d) \<Longrightarrow> B \<subseteq> free_bytes d"
proof (induction ns arbitrary: d)
  case (Cons n ns)
  show ?case
  proof (cases "n \<le> mem_len d")
    case True
    from al_some [OF this] obtain a d' where a: "al d n = (Addr a, d')" "free_bytes d = {a..<a + unat n} \<union> free_bytes d'" by blast
    from Cons.prems a(1) consider "B = {a..<a + unat n}" | "Some B \<in> set (serve al ns d')" by auto
    then show ?thesis using Cons.IH [of d'] a(2) by cases blast+
  next
    case False
    then show ?thesis using Cons al_none [of d n] by simp
  qed
qed simp

lemma serve_disjoint:
  "i < j \<Longrightarrow> j < length ns \<Longrightarrow> serve al ns d ! i = Some A \<Longrightarrow> serve al ns d ! j = Some B \<Longrightarrow> A \<inter> B = {}"
proof (induction ns arbitrary: d i j)
  case (Cons n ns)
  obtain k where k: "j = Suc k" using Cons.prems(1) by (cases j) auto
  show ?case
  proof (cases "n \<le> mem_len d")
    case True
    from al_some [OF this] obtain a d' where a: "al d n = (Addr a, d')" "{a..<a + unat n} \<inter> free_bytes d' = {}" by blast
    show ?thesis
    proof (cases i)
      case 0
      have "serve al ns d' ! k = Some B" "k < length (serve al ns d')" using Cons.prems(2,4) a(1) k by simp_all
      then have "Some B \<in> set (serve al ns d')" by (metis nth_mem)
      then show ?thesis using serve_free [of B ns d'] a 0 Cons.prems(3) by auto
    next
      case (Suc i')
      then show ?thesis using Cons.IH [of i' k d'] Cons.prems a(1) k by simp
    qed
  next
    case False
    then have d: "al d n = (NULL, d)" using al_none [of d n] by simp
    then have "i \<noteq> 0" using Cons.prems(3) by (intro notI) simp
    then show ?thesis using Cons.IH [of "i - 1" k d] Cons.prems d k by (cases i) auto
  qed
qed simp

end

lemma unat_le_sub: "n \<le> l \<Longrightarrow> unat (l - n) = unat l - unat (n :: u64)" "n \<le> l \<Longrightarrow> unat n \<le> unat l"
  by (simp_all add: unat_sub word_le_nat_alt)

lemma from_end_laws:
  "mem_len d < n \<Longrightarrow> alloc d n = (NULL, d)"
  "n \<le> mem_len d \<Longrightarrow> \<exists>a d'. alloc d n = (Addr a, d') \<and> free_bytes d = {a..<a + unat n} \<union> free_bytes d' \<and>
    {a..<a + unat n} \<inter> free_bytes d' = {} \<and> mem_len d' = mem_len d - n"
proof -
  show "mem_len d < n \<Longrightarrow> alloc d n = (NULL, d)" by (simp add: alloc_def)
  assume n: "n \<le> mem_len d"
  then have "alloc d n = (Addr (mem_buffer d + unat (mem_len d - n)), d\<lparr>mem_len := mem_len d - n\<rparr>)" by (auto simp: alloc_def Let_def)
  then show "\<exists>a d'. alloc d n = (Addr a, d') \<and> free_bytes d = {a..<a + unat n} \<union> free_bytes d' \<and>
    {a..<a + unat n} \<inter> free_bytes d' = {} \<and> mem_len d' = mem_len d - n"
    using unat_le_sub [OF n] by (auto simp: free_bytes_def)
qed

lemma from_start_laws:
  "mem_len d < n \<Longrightarrow> alloc_from_start d n = (NULL, d)"
  "n \<le> mem_len d \<Longrightarrow> \<exists>a d'. alloc_from_start d n = (Addr a, d') \<and> free_bytes d = {a..<a + unat n} \<union> free_bytes d' \<and>
    {a..<a + unat n} \<inter> free_bytes d' = {} \<and> mem_len d' = mem_len d - n"
proof -
  show "mem_len d < n \<Longrightarrow> alloc_from_start d n = (NULL, d)" by (simp add: alloc_from_start_def)
  assume n: "n \<le> mem_len d"
  then have "alloc_from_start d n = (Addr (mem_buffer d), d\<lparr>mem_len := mem_len d - n, mem_buffer := mem_buffer d + unat n\<rparr>)"
    by (auto simp: alloc_from_start_def Let_def)
  then show "\<exists>a d'. alloc_from_start d n = (Addr a, d') \<and> free_bytes d = {a..<a + unat n} \<union> free_bytes d' \<and>
    {a..<a + unat n} \<inter> free_bytes d' = {} \<and> mem_len d' = mem_len d - n"
    using unat_le_sub [OF n] by (auto simp: free_bytes_def)
qed

interpretation from_end: bump_allocator alloc
  by unfold_locales (fact from_end_laws)+

interpretation from_start: bump_allocator alloc_from_start
  by unfold_locales (fact from_start_laws)+

lemma full_variants:
  "alloc_1 = alloc" "alloc_2 = alloc" "alloc_2_alt = alloc" "alloc_3 = alloc" "alloc_full = alloc" "full_alloc_from_start = alloc_from_start"
  by (intro ext; simp add: alloc_def alloc_1_def alloc_2_def alloc_2_alt_def alloc_3_def alloc_full_def
      full_alloc_from_start_def alloc_from_start_def)+

text \<open>The variants serve the same requests, and each serves them from disjoint parts of the buffer.\<close>

lemma bump_variants_equiv:
  "map (\<lambda>b. b \<noteq> None) (serve alloc ns d) = map (\<lambda>b. b \<noteq> None) (serve alloc_from_start ns d)"
  "i < j \<Longrightarrow> j < length ns \<Longrightarrow> serve alloc ns d ! i = Some A \<Longrightarrow> serve alloc ns d ! j = Some B \<Longrightarrow> A \<inter> B = {}"
  "i < j \<Longrightarrow> j < length ns \<Longrightarrow> serve alloc_from_start ns d ! i = Some A \<Longrightarrow> serve alloc_from_start ns d ! j = Some B \<Longrightarrow> A \<inter> B = {}"
  by (simp_all only: from_end.serve_fits from_start.serve_fits from_end.serve_disjoint from_start.serve_disjoint)

section \<open>The clients\<close>

lemma put_byte_free:
  "a + i \<in> free_bytes d \<Longrightarrow> free_bytes d \<subseteq> dom m \<Longrightarrow> put_byte m (Addr a) i v = Some (m(a + i \<mapsto> Some v))"
  by (auto simp: put_byte_def modify_def)

lemma talk_client_ok:
  assumes "3 \<le> mem_len d" "free_bytes d \<subseteq> dom m"
  shows "\<exists>m' d'. talk_client m d = Some (2, m', d') \<and> mem_len d' = mem_len d - 3"
proof -
  let ?l = "mem_len d - 3"
  let ?a = "mem_buffer d + unat ?l"
  have l: "unat ?l + 3 = unat (mem_len d)" using unat_le_sub [OF assms(1)] by simp
  then have "{?a, ?a + 1, ?a + 2} \<subseteq> free_bytes d" by (auto simp: free_bytes_def)
  then have "{?a, ?a + 1, ?a + 2} \<subseteq> dom m" using assms(2) by blast
  then obtain x y z where "m ?a = Some x" "m (?a + 1) = Some y" "m (?a + 2) = Some z" by auto
  then show ?thesis using assms(1)
    by (simp add: talk_client_def talk_alloc_def put_byte_def get_byte_def modify_def load_def)
qed

lemma client_full_ok:
  assumes "free_bytes d \<subseteq> dom m"
  shows "\<exists>m' d'. client_full m d = Some (m', d') \<and> dom m' = dom m"
proof -
  have put: "\<exists>m'. put_byte m (Addr a) 0 0 = Some m' \<and> dom m' = dom m" if "a \<in> dom m" for a and m :: byte_mem
    using that by (auto simp: put_byte_def modify_def)
  have in_block: "a \<in> {a..<a + unat sizeof_xy}" for a by (simp add: sizeof_xy_def)
  show ?thesis
  proof (cases "sizeof_xy \<le> mem_len d")
    case True
    from from_end_laws(2) [OF this] obtain a d' where a: "alloc d sizeof_xy = (Addr a, d')"
      "free_bytes d = {a..<a + unat sizeof_xy} \<union> free_bytes d'" by blast
    then have "a \<in> dom m" "free_bytes d' \<subseteq> dom m" using assms in_block by blast+
    from put [OF this(1)] obtain m' where m': "put_byte m (Addr a) 0 0 = Some m'" "dom m' = dom m" by blast
    show ?thesis
    proof (cases "sizeof_xy \<le> mem_len d'")
      case True
      from from_end_laws(2) [OF this] obtain b e where b: "alloc d' sizeof_xy = (Addr b, e)"
        "free_bytes d' = {b..<b + unat sizeof_xy} \<union> free_bytes e" by blast
      then have "b \<in> dom m'" using \<open>free_bytes d' \<subseteq> dom m\<close> m'(2) in_block by blast
      from put [OF this] show ?thesis using a(1) b(1) m' by (auto simp: client_full_def full_variants)
    qed (use a(1) m' from_end_laws(1) [of d' sizeof_xy] in \<open>simp add: client_full_def full_variants\<close>)
  qed (use from_end_laws(1) [of d sizeof_xy] in \<open>simp add: client_full_def full_variants\<close>)
qed

lemma thread_safe_alloc_eq:
  "\<not> lock (glob_lock g) \<Longrightarrow> thread_safe_alloc g n =
     Some (fst (alloc (glob_data g) n), g\<lparr>glob_data := snd (alloc (glob_data g) n)\<rparr>)"
  by (cases g) (auto simp: thread_safe_alloc_def sl_unlock_def split: prod.split)

lemma test_thread_safe_alloc_ok:
  assumes "\<not> lock (glob_lock g)" "10 \<le> mem_len (glob_data g)"
  shows "\<exists>g'. test_thread_safe_alloc g = Some g' \<and> mem_len (glob_data g') = mem_len (glob_data g) - 10 \<and> \<not> lock (glob_lock g')"
proof -
  have "5 \<le> mem_len (glob_data g)" "5 \<le> mem_len (glob_data g) - 5"
    using assms(2) unat_le_sub [of 5 "mem_len (glob_data g)"] by (simp_all add: word_le_nat_alt)
  then show ?thesis using assms(1)
    by (auto simp: test_thread_safe_alloc_def fork_def test_thread_safe_alloc_fork_fn_def thread_safe_alloc_eq alloc_def Let_def not_less)
qed

section \<open>The interleaving of threads\<close>

text \<open>
  Any number of threads call \<open>thread_safe_alloc\<close>. A step is one access to the lock or to a field of \<open>data\<close>: the check reads
  \<open>len\<close>, the subtraction reads it and writes it back, and the result reads it again. \<open>given\<close> has the blocks
  that were returned, the last one first.
\<close>

datatype alloc_pc = Out | Waiting u64 | Inside u64 | Checked u64 | Loaded u64 u64 | Stored u64 | Leaving "nat ptr"

record alloc_threads =
  at_lock :: bool
  at_data :: mem_t
  at_pc :: "nat \<Rightarrow> alloc_pc"
  given :: "(nat \<times> u64) list"

definition goto :: "nat \<Rightarrow> alloc_pc \<Rightarrow> alloc_threads \<Rightarrow> alloc_threads" where
  "goto t c s = s\<lparr>at_pc := (at_pc s)(t := c)\<rparr>"

inductive alloc_step :: "alloc_threads \<Rightarrow> alloc_threads \<Rightarrow> bool" where
  call: "at_pc s t = Out \<Longrightarrow> alloc_step s (goto t (Waiting n) s)"
| spin: "at_pc s t = Waiting n \<Longrightarrow> at_lock s \<Longrightarrow> alloc_step s s"
| enter: "at_pc s t = Waiting n \<Longrightarrow> \<not> at_lock s \<Longrightarrow> alloc_step s (goto t (Inside n) (s\<lparr>at_lock := True\<rparr>))"
| check: "at_pc s t = Inside n \<Longrightarrow>
    alloc_step s (goto t (if n > mem_len (at_data s) then Leaving NULL else Checked n) s)"
| load: "at_pc s t = Checked n \<Longrightarrow> alloc_step s (goto t (Loaded n (mem_len (at_data s))) s)"
| store: "at_pc s t = Loaded n l \<Longrightarrow>
    alloc_step s (goto t (Stored n) (s\<lparr>at_data := (at_data s)\<lparr>mem_len := l - n\<rparr>\<rparr>))"
| result: "at_pc s t = Stored n \<Longrightarrow> a = mem_buffer (at_data s) + unat (mem_len (at_data s)) \<Longrightarrow>
    alloc_step s (goto t (Leaving (Addr a)) (s\<lparr>given := (a, n) # given s\<rparr>))"
| leave: "at_pc s t = Leaving p \<Longrightarrow> alloc_step s (goto t Out (s\<lparr>at_lock := False\<rparr>))"

inductive alloc_reachable :: "mem_t \<Rightarrow> alloc_threads \<Rightarrow> bool" for d where
  start: "alloc_reachable d \<lparr>at_lock = False, at_data = d, at_pc = (\<lambda>_. Out), given = []\<rparr>"
| step: "alloc_reachable d s \<Longrightarrow> alloc_step s s' \<Longrightarrow> alloc_reachable d s'"

fun critical :: "alloc_pc \<Rightarrow> bool" where
  "critical Out = False" | "critical (Waiting n) = False" | "critical c = True"

text \<open>Blocks that follow one another from \<open>lo\<close> to \<open>hi\<close> without gaps.\<close>

fun chained :: "nat \<Rightarrow> (nat \<times> u64) list \<Rightarrow> nat \<Rightarrow> bool" where
  "chained lo [] hi \<longleftrightarrow> lo = hi"
| "chained lo ((a, n) # bs) hi \<longleftrightarrow> a = lo \<and> chained (a + unat n) bs hi"

text \<open>What the thread in the critical section knows, where \<open>T\<close> is the size of the buffer at the start.\<close>

fun alloc_pc_ok :: "alloc_threads \<Rightarrow> nat \<Rightarrow> alloc_pc \<Rightarrow> bool" where
  "alloc_pc_ok s hi (Stored n) \<longleftrightarrow> chained (mem_buffer (at_data s) + unat (mem_len (at_data s)) + unat n) (given s) hi"
| "alloc_pc_ok s hi (Checked n) \<longleftrightarrow> n \<le> mem_len (at_data s) \<and> chained (mem_buffer (at_data s) + unat (mem_len (at_data s))) (given s) hi"
| "alloc_pc_ok s hi (Loaded n l) \<longleftrightarrow> l = mem_len (at_data s) \<and> n \<le> l \<and> chained (mem_buffer (at_data s) + unat l) (given s) hi"
| "alloc_pc_ok s hi c \<longleftrightarrow> chained (mem_buffer (at_data s) + unat (mem_len (at_data s))) (given s) hi"

definition alloc_inv :: "mem_t \<Rightarrow> alloc_threads \<Rightarrow> bool" where
  "alloc_inv d s \<longleftrightarrow> mem_buffer (at_data s) = mem_buffer d \<and>
     (if at_lock s then \<exists>t. critical (at_pc s t) \<and> alloc_pc_ok s (mem_buffer d + unat (mem_len d)) (at_pc s t) \<and> (\<forall>u. u \<noteq> t \<longrightarrow> \<not> critical (at_pc s u))
      else alloc_pc_ok s (mem_buffer d + unat (mem_len d)) Out \<and> (\<forall>u. \<not> critical (at_pc s u)))"

lemma goto_simps [simp]:
  "at_lock (goto t c s) = at_lock s" "at_data (goto t c s) = at_data s" "given (goto t c s) = given s"
  "at_pc (goto t c s) = (at_pc s)(t := c)"
  by (simp_all add: goto_def)

lemma alloc_invI:
  assumes "mem_buffer (at_data s) = mem_buffer d" "at_lock s" "critical (at_pc s t)"
    "alloc_pc_ok s (mem_buffer d + unat (mem_len d)) (at_pc s t)" "\<And>u. u \<noteq> t \<Longrightarrow> \<not> critical (at_pc s u)"
  shows "alloc_inv d s"
  unfolding alloc_inv_def using assms by auto

lemma alloc_inv_critical:
  assumes "alloc_inv d s" "critical (at_pc s t)"
  shows "at_lock s" "alloc_pc_ok s (mem_buffer d + unat (mem_len d)) (at_pc s t)" "u \<noteq> t \<Longrightarrow> \<not> critical (at_pc s u)"
  using assms unfolding alloc_inv_def by (metis (full_types))+

lemma alloc_inv_step: "alloc_step s s' \<Longrightarrow> alloc_inv d s \<Longrightarrow> alloc_inv d s'"
proof (induction rule: alloc_step.induct)
  case (call s t n)
  have pc: "alloc_pc_ok (goto t (Waiting n) s) hi c = alloc_pc_ok s hi c" for hi c by (cases c) simp_all
  have cr: "critical (at_pc (goto t (Waiting n) s) u) = critical (at_pc s u)" for u using call(1) by simp
  have same: "at_pc (goto t (Waiting n) s) u = at_pc s u" if "critical (at_pc s u)" for u using that call(1) by auto
  show ?case
  proof (cases "at_lock s")
    case True
    then obtain u where u: "critical (at_pc s u)" "alloc_pc_ok s (mem_buffer d + unat (mem_len d)) (at_pc s u)" "\<forall>v. v \<noteq> u \<longrightarrow> \<not> critical (at_pc s v)"
      using call(2) by (auto simp: alloc_inv_def)
    have b: "mem_buffer (at_data s) = mem_buffer d" using call(2) by (simp add: alloc_inv_def)
    show ?thesis by (rule alloc_invI [where t = u]) (use u b True in \<open>simp_all only: pc cr same [OF u(1)] goto_simps(1,2) simp_thms\<close>)
  next
    case False
    with call(2) show ?thesis unfolding alloc_inv_def pc cr by auto
  qed
next
  case (enter s t n)
  then have "\<forall>u. \<not> critical (at_pc s u)" by (simp add: alloc_inv_def)
  with enter show ?case by (intro alloc_invI [where t = t]) (auto simp: alloc_inv_def)
next
  case (check s t n)
  note I = alloc_inv_critical [OF check(2), of t, unfolded check(1)]
  show ?case using I check(2) by (intro alloc_invI [where t = t]) (auto simp: alloc_inv_def)
next
  case (load s t n)
  note I = alloc_inv_critical [OF load(2), of t, unfolded load(1)]
  show ?case using I load(2) by (intro alloc_invI [where t = t]) (auto simp: alloc_inv_def)
next
  case (store s t n l)
  note I = alloc_inv_critical [OF store(2), of t, unfolded store(1)]
  show ?case using I store(2) unat_le_sub [of n l] by (intro alloc_invI [where t = t]) (auto simp: alloc_inv_def)
next
  case (result s t n a)
  note I = alloc_inv_critical [OF result(3), of t, unfolded result(1)]
  show ?case using I result(2,3) by (intro alloc_invI [where t = t]) (auto simp: alloc_inv_def)
next
  case (leave s t p)
  note I = alloc_inv_critical [OF leave(2), of t, unfolded leave(1)]
  show ?case using I leave(2) by (auto simp: alloc_inv_def)
qed

lemma alloc_inv_reachable: "alloc_reachable d s \<Longrightarrow> alloc_inv d s"
proof (induction rule: alloc_reachable.induct)
  case (step s s')
  then show ?case by (blast intro: alloc_inv_step)
qed (simp add: alloc_inv_def)

lemma chained_sum: "chained lo bs hi \<Longrightarrow> lo + (\<Sum>b\<leftarrow>bs. unat (snd b)) = hi"
  by (induction lo bs hi rule: chained.induct) auto

lemma chained_sub: "chained lo bs hi \<Longrightarrow> (a, n) \<in> set bs \<Longrightarrow> lo \<le> a \<and> a + unat n \<le> hi"
proof (induction lo bs hi rule: chained.induct)
  case (2 lo b m bs hi)
  have "b + unat m \<le> hi" using 2(2) chained_sum [of "b + unat m" bs hi] by auto
  with 2 show ?case by force
qed simp

lemma chained_disjoint:
  "chained lo bs hi \<Longrightarrow> i < j \<Longrightarrow> j < length bs \<Longrightarrow> bs ! i = (a, n) \<Longrightarrow> bs ! j = (b, m) \<Longrightarrow> a + unat n \<le> b"
proof (induction lo bs hi arbitrary: i j rule: chained.induct)
  case (2 lo c k bs hi)
  obtain j' where j: "j = Suc j'" using 2(3) by (cases j) auto
  show ?case
  proof (cases i)
    case 0
    have "(b, m) \<in> set bs" using 2(4,6) j nth_mem [of j' bs] by simp
    then show ?thesis using chained_sub [of "c + unat k" bs hi b m] 2(2,5) 0 by auto
  next
    case (Suc i')
    then show ?thesis using 2(1) [of i' j'] 2(2-6) j by auto
  qed
qed simp

lemma alloc_chained:
  assumes "alloc_inv d s"
  shows "\<exists>lo. chained lo (given s) (mem_buffer d + unat (mem_len d)) \<and> mem_buffer d \<le> lo"
    and "(\<forall>t. \<not> critical (at_pc s t)) \<Longrightarrow> chained (mem_buffer d + unat (mem_len (at_data s))) (given s) (mem_buffer d + unat (mem_len d))"
proof -
  have "\<exists>c. alloc_pc_ok s (mem_buffer d + unat (mem_len d)) c" "mem_buffer (at_data s) = mem_buffer d"
    using assms unfolding alloc_inv_def by (metis (full_types))+
  then obtain c where "alloc_pc_ok s (mem_buffer d + unat (mem_len d)) c" "mem_buffer (at_data s) = mem_buffer d" by blast
  then show "\<exists>lo. chained lo (given s) (mem_buffer d + unat (mem_len d)) \<and> mem_buffer d \<le> lo" by (cases c) auto
  assume "\<forall>t. \<not> critical (at_pc s t)"
  then have "\<not> at_lock s" using assms by (auto simp: alloc_inv_def)
  then show "chained (mem_buffer d + unat (mem_len (at_data s))) (given s) (mem_buffer d + unat (mem_len d))"
    using assms by (auto simp: alloc_inv_def)
qed

text \<open>
  C37. However threads that call \<open>thread_safe_alloc\<close> interleave, at most one is in the critical section, the blocks that were
  returned lie in the buffer and are disjoint, and when no thread is in the critical section the returned bytes and
  the free ones add up to the buffer.
\<close>

theorem thread_safe_alloc_safe:
  assumes "alloc_reachable d s"
  shows "(\<forall>t u. critical (at_pc s t) \<and> critical (at_pc s u) \<longrightarrow> t = u) \<and>
    (\<forall>(a, n)\<in>set (given s). {a..<a + unat n} \<subseteq> free_bytes d) \<and>
    (\<forall>i j. i < j \<and> j < length (given s) \<longrightarrow>
       (case (given s ! i, given s ! j) of ((a, n), (b, m)) \<Rightarrow> {a..<a + unat n} \<inter> {b..<b + unat m} = {})) \<and>
    ((\<forall>t. \<not> critical (at_pc s t)) \<longrightarrow> unat (mem_len (at_data s)) + (\<Sum>b\<leftarrow>given s. unat (snd b)) = unat (mem_len d))"
proof -
  note I = alloc_inv_reachable [OF assms]
  from alloc_chained(1) [OF I] obtain lo where c: "chained lo (given s) (mem_buffer d + unat (mem_len d))" "mem_buffer d \<le> lo" by blast
  have "\<forall>(a, n)\<in>set (given s). {a..<a + unat n} \<subseteq> free_bytes d"
    using chained_sub [OF c(1)] c(2) by (fastforce simp: free_bytes_def)
  moreover have "\<forall>i j. i < j \<and> j < length (given s) \<longrightarrow>
       (case (given s ! i, given s ! j) of ((a, n), (b, m)) \<Rightarrow> {a..<a + unat n} \<inter> {b..<b + unat m} = {})"
    using chained_disjoint [OF c(1)] by (fastforce split: prod.split)
  moreover have "\<forall>t u. critical (at_pc s t) \<and> critical (at_pc s u) \<longrightarrow> t = u" using alloc_inv_critical(3) [OF I] by blast
  ultimately show ?thesis using chained_sum [OF alloc_chained(2) [OF I]] by simp
qed

text \<open>A call that runs alone is served from the end of the buffer.\<close>

lemma solo_call:
  assumes "alloc_reachable d s" "at_pc s t = Out" "\<not> at_lock s" "n \<le> mem_len (at_data s)"
  defines "l \<equiv> mem_len (at_data s) - n"
  shows "alloc_reachable d (s\<lparr>at_data := (at_data s)\<lparr>mem_len := l\<rparr>, given := (mem_buffer (at_data s) + unat l, n) # given s\<rparr>)"
proof -
  let ?d = "(at_data s)\<lparr>mem_len := l\<rparr>" and ?a = "mem_buffer (at_data s) + unat l"
  have "alloc_reachable d (goto t (Waiting n) s)" by (rule alloc_reachable.step [OF assms(1)]) (rule call, fact)
  then have "alloc_reachable d (goto t (Inside n) (s\<lparr>at_lock := True\<rparr>))"
    by (rule alloc_reachable.step) (use enter [of "goto t (Waiting n) s" t n] assms(3) in \<open>simp add: goto_def\<close>)
  then have "alloc_reachable d (goto t (Checked n) (s\<lparr>at_lock := True\<rparr>))"
    by (rule alloc_reachable.step) (use check [of "goto t (Inside n) (s\<lparr>at_lock := True\<rparr>)" t n] leD [OF assms(4)] in \<open>simp add: goto_def\<close>)
  then have "alloc_reachable d (goto t (Loaded n (mem_len (at_data s))) (s\<lparr>at_lock := True\<rparr>))"
    by (rule alloc_reachable.step) (use load [of "goto t (Checked n) (s\<lparr>at_lock := True\<rparr>)" t n] in \<open>simp add: goto_def\<close>)
  then have "alloc_reachable d (goto t (Stored n) (s\<lparr>at_lock := True, at_data := ?d\<rparr>))"
    by (rule alloc_reachable.step)
      (use store [of "goto t (Loaded n (mem_len (at_data s))) (s\<lparr>at_lock := True\<rparr>)" t n] in \<open>simp add: goto_def l_def\<close>)
  then have "alloc_reachable d (goto t (Leaving (Addr ?a)) (s\<lparr>at_lock := True, at_data := ?d, given := (?a, n) # given s\<rparr>))"
    by (rule alloc_reachable.step)
      (use result [of "goto t (Stored n) (s\<lparr>at_lock := True, at_data := ?d\<rparr>)" t n ?a] in \<open>simp add: goto_def\<close>)
  then have "alloc_reachable d (goto t Out (s\<lparr>at_data := ?d, given := (?a, n) # given s, at_lock := False\<rparr>))"
    by (rule alloc_reachable.step)
      (use leave [of "goto t (Leaving (Addr ?a)) (s\<lparr>at_lock := True, at_data := ?d, given := (?a, n) # given s\<rparr>)" t] in \<open>simp add: goto_def\<close>)
  moreover have "goto t Out (s\<lparr>at_data := ?d, given := (?a, n) # given s, at_lock := False\<rparr>) = s\<lparr>at_data := ?d, given := (?a, n) # given s\<rparr>"
    using assms(2,3) by (cases s) (auto simp: goto_def)
  ultimately show ?thesis by simp
qed

theorem thread_safe_alloc_safe_witness:
  "\<exists>s. alloc_reachable \<lparr>mem_len = 10, mem_buffer = 100\<rparr> s \<and> given s = [(105, 2), (107, 3)] \<and>
    unat (mem_len (at_data s)) + (\<Sum>b\<leftarrow>given s. unat (snd b)) = 10"
proof -
  let ?d = "\<lparr>mem_len = 10, mem_buffer = 100\<rparr>"
  note a = solo_call [OF alloc_reachable.start [of ?d], where t = 0 and n = 3, simplified]
  note b = solo_call [OF a, where t = 1 and n = 2, simplified]
  show ?thesis by (intro exI conjI, rule b) (use thread_safe_alloc_safe [OF b] in simp_all)
qed

end
