(* ===== verification/Lock_Test.thy ===== *)
theory Lock_Test
  imports Spinlock
begin

text \<open>
  Data behind a lock, \<open>src/examples/lock.c\<close>: an integer that no lock protects, an integer that is protected, and a
  protected struct whose two numbers have a constant sum.
\<close>

section \<open>The functions\<close>

record lock_test_inner =
  lti_a :: u64
  lti_b :: u64

record lock_test =
  lt_outside :: u64
  lt_lock :: spinlock
  locked_int :: u64
  locked_struct :: lock_test_inner

definition lt_init :: "lock_test \<Rightarrow> lock_test" where
  "lt_init t =
     (let t = t\<lparr>lt_outside := 0\<rparr>;
          t = t\<lparr>locked_int := 0\<rparr>;
          t = t\<lparr>locked_struct := (locked_struct t)\<lparr>lti_a := 0\<rparr>\<rparr>;
          t = t\<lparr>locked_struct := (locked_struct t)\<lparr>lti_b := 10\<rparr>\<rparr>
      in t\<lparr>lt_lock := sl_init (lt_lock t)\<rparr>)"

definition write_outside :: "lock_test \<Rightarrow> u64 \<Rightarrow> lock_test" where
  "write_outside t n = t\<lparr>lt_outside := n\<rparr>"

definition read_outside :: "lock_test \<Rightarrow> u64" where
  "read_outside t = lt_outside t"

definition write_locked :: "lock_test \<Rightarrow> u64 \<Rightarrow> lock_test option" where
  "write_locked t n = do {
     l \<leftarrow> sl_lock (lt_lock t);
     let t = t\<lparr>lt_lock := l\<rparr>;
     let t = t\<lparr>locked_int := n\<rparr>;
     Some (t\<lparr>lt_lock := sl_unlock (lt_lock t)\<rparr>) }"

definition read_locked :: "lock_test \<Rightarrow> (u64 \<times> lock_test) option" where
  "read_locked t = do {
     l \<leftarrow> sl_lock (lt_lock t);
     let t = t\<lparr>lt_lock := l\<rparr>;
     let ret = locked_int t;
     Some (ret, t\<lparr>lt_lock := sl_unlock (lt_lock t)\<rparr>) }"

definition increment :: "lock_test \<Rightarrow> (u64 \<times> lock_test) option" where
  "increment t = do {
     l \<leftarrow> sl_lock (lt_lock t);
     let t = t\<lparr>lt_lock := l\<rparr>;
     let t = (if lti_b (locked_struct t) > 0 then
                let t = t\<lparr>locked_struct := (locked_struct t)\<lparr>lti_a := lti_a (locked_struct t) + 1\<rparr>\<rparr>
                in t\<lparr>locked_struct := (locked_struct t)\<lparr>lti_b := lti_b (locked_struct t) - 1\<rparr>\<rparr>
              else t);
     let ret = lti_a (locked_struct t);
     Some (ret, t\<lparr>lt_lock := sl_unlock (lt_lock t)\<rparr>) }"

section \<open>Sequences of calls\<close>

datatype lt_call = WriteOutside u64 | ReadOutside | WriteLocked u64 | ReadLocked | Increment

text \<open>The values that the calls return, \<open>None\<close> for a call without a result.\<close>

primrec lt_run :: "lt_call list \<Rightarrow> lock_test \<Rightarrow> (u64 option list \<times> lock_test) option" where
  "lt_run [] t = Some ([], t)"
| "lt_run (c # cs) t = do {
     (r, t) \<leftarrow> (case c of
         WriteOutside n \<Rightarrow> Some (None, write_outside t n)
       | ReadOutside \<Rightarrow> Some (Some (read_outside t), t)
       | WriteLocked n \<Rightarrow> map_option (Pair None) (write_locked t n)
       | ReadLocked \<Rightarrow> map_option (map_prod Some id) (read_locked t)
       | Increment \<Rightarrow> map_option (map_prod Some id) (increment t));
     (rs, t) \<leftarrow> lt_run cs t;
     Some (r # rs, t) }"

text \<open>The abstract object: two registers and a counter up to ten.\<close>

primrec lt_spec :: "lt_call list \<Rightarrow> u64 \<Rightarrow> u64 \<Rightarrow> nat \<Rightarrow> u64 option list" where
  "lt_spec [] x y k = []"
| "lt_spec (c # cs) x y k = (case c of
     WriteOutside n \<Rightarrow> None # lt_spec cs n y k
   | ReadOutside \<Rightarrow> Some x # lt_spec cs x y k
   | WriteLocked n \<Rightarrow> None # lt_spec cs x n k
   | ReadLocked \<Rightarrow> Some y # lt_spec cs x y k
   | Increment \<Rightarrow> Some (word_of_nat (min (Suc k) 10)) # lt_spec cs x y (min (Suc k) 10))"

definition lt_rep :: "lock_test \<Rightarrow> u64 \<Rightarrow> u64 \<Rightarrow> nat \<Rightarrow> bool" where
  "lt_rep t x y k \<longleftrightarrow> \<not> lock (lt_lock t) \<and> lt_outside t = x \<and> locked_int t = y \<and> k \<le> 10 \<and>
     locked_struct t = \<lparr>lti_a = word_of_nat k, lti_b = word_of_nat (10 - k)\<rparr>"

lemma lt_unlock_lock [simp]:
  "\<not> lock l \<Longrightarrow> sl_unlock (l\<lparr>lock := True\<rparr>) = l"
  by (cases l) (simp add: sl_unlock_def)

lemma write_locked_eq: "\<not> lock (lt_lock t) \<Longrightarrow> write_locked t n = Some (t\<lparr>locked_int := n\<rparr>)"
  by (cases t) (simp add: write_locked_def)

lemma read_locked_eq: "\<not> lock (lt_lock t) \<Longrightarrow> read_locked t = Some (locked_int t, t)"
  by (cases t) (simp add: read_locked_def)

lemma lt_init_rep: "lt_rep (lt_init t) 0 0 0"
  by (simp add: lt_init_def lt_rep_def sl_init_def)

lemma increment_rep:
  assumes "lt_rep t x y k"
  shows "\<exists>t'. increment t = Some (word_of_nat (min (Suc k) 10), t') \<and> lt_rep t' x y (min (Suc k) 10)"
proof (cases "k = 10")
  case True
  with assms show ?thesis by (auto simp: increment_def lt_rep_def)
next
  case False
  with assms have k: "k < 10" by (simp add: lt_rep_def)
  then obtain j where j: "10 - k = Suc j" by (cases "10 - k") auto
  have "j < 10" using j k by simp
  then have "unat (word_of_nat (Suc j) :: u64) = Suc j" by (simp add: unsigned_of_nat take_bit_nat_eq_self del: of_nat_Suc)
  then have pos: "0 < (word_of_nat (Suc j) :: u64)" by (simp add: word_less_nat_alt del: of_nat_Suc)
  have "min (Suc k) 10 = Suc k" "10 - Suc k = j" using k j by auto
  with assms pos j show ?thesis by (auto simp: increment_def lt_rep_def)
qed

lemma lt_run_rep: "lt_rep t x0 y0 k0 \<Longrightarrow> \<exists>t' x y k. lt_run cs t = Some (lt_spec cs x0 y0 k0, t') \<and> lt_rep t' x y k"
proof (induction cs arbitrary: t x0 y0 k0)
  case (Cons c cs)
  have st: "\<exists>t' x y k. lt_run (c # cs) t = Some (r # lt_spec cs x1 y1 k1, t') \<and> lt_rep t' x y k"
    if "lt_run (c # cs) t = do { (rs, t) \<leftarrow> lt_run cs t1; Some (r # rs, t) }" "lt_rep t1 x1 y1 k1" for r t1 x1 y1 k1
    using Cons.IH [OF that(2)] by (auto simp del: lt_run.simps simp: that(1)) blast
  show ?case
  proof (cases c)
    case (WriteOutside n)
    then show ?thesis using st [of "write_outside t n" None n y0 k0] Cons.prems by (simp add: write_outside_def lt_rep_def)
  next
    case ReadOutside
    then show ?thesis using st [of t "Some x0" x0 y0 k0] Cons.prems by (simp add: read_outside_def lt_rep_def)
  next
    case (WriteLocked n)
    then show ?thesis using st [of "t\<lparr>locked_int := n\<rparr>" None x0 n k0] Cons.prems by (simp add: write_locked_eq lt_rep_def)
  next
    case ReadLocked
    then show ?thesis using st [of t "Some y0" x0 y0 k0] Cons.prems by (simp add: read_locked_eq lt_rep_def)
  next
    case Increment
    from increment_rep [OF Cons.prems] obtain t1 where t1: "increment t = Some (word_of_nat (min (Suc k0) 10), t1)"
      "lt_rep t1 x0 y0 (min (Suc k0) 10)" by blast
    have "lt_run (c # cs) t = do { (rs, t) \<leftarrow> lt_run cs t1; Some (Some (word_of_nat (min (Suc k0) 10)) # rs, t) }"
      by (simp only: lt_run.simps Increment lt_call.case t1(1) option.map map_prod_simp id_apply Option.bind.bind_lunit prod.case)
    from st [OF this t1(2)] show ?thesis unfolding Increment by simp
  qed
qed auto

text \<open>
  From the initialisation on, every sequence of calls returns what two registers and a counter that stops at ten
  return; in particular the lock is free between the calls and the sum of the two numbers is always ten.
\<close>

theorem lt_run_refines: "\<exists>t'. lt_run cs (lt_init t) = Some (lt_spec cs 0 0 0, t') \<and> \<not> lock (lt_lock t') \<and>
    unat (lti_a (locked_struct t')) + unat (lti_b (locked_struct t')) = 10"
proof -
  from lt_run_rep [OF lt_init_rep] obtain t' x y k where t': "lt_run cs (lt_init t) = Some (lt_spec cs 0 0 0, t')" "lt_rep t' x y k" by blast
  have small: "unat (word_of_nat j :: u64) = j" if "j \<le> 10" for j using that by (simp add: unsigned_of_nat take_bit_nat_eq_self)
  have "k \<le> 10" "10 - k \<le> 10" using t'(2) by (auto simp: lt_rep_def)
  with t'(2) have "unat (lti_a (locked_struct t')) + unat (lti_b (locked_struct t')) = 10" "\<not> lock (lt_lock t')"
    by (simp_all add: lt_rep_def small del: of_nat_diff)
  with t'(1) show ?thesis by blast
qed

end
