(* ===== verification/Find_Buddy.thy ===== *)
theory Find_Buddy
  imports Buddy
begin

unbundle bit_operations_syntax

text \<open>
  The search for a buddy in \<open>src/linux/casestudies/page_alloc_find_buddy.c\<close>, an earlier version of the function of the page allocator.
  The page descriptors have four bytes here and are named by their addresses: \<open>vm\<close> is the address of \<open>hyp_vmemmap\<close>.
  The page frame number is the difference of two pointers, so that the shift to the physical address is on signed numbers, which is
  a fault when it overflows.
\<close>

record fb_pool =
  fb_range_start :: u64
  fb_range_end :: u64
  fb_max_order :: u16

definition sizeof_hyp_page :: nat where
  "sizeof_hyp_page = 4"

definition fb_page_to_pfn :: "nat \<Rightarrow> nat \<Rightarrow> int option" where
  "fb_page_to_pfn vm p = do {
     c_assert (int sizeof_hyp_page dvd int p - int vm);
     Some ((int p - int vm) div int sizeof_hyp_page) }"

definition fb_pfn_to_phys :: "int \<Rightarrow> u64 option" where
  "fb_pfn_to_phys pfn = do {
     c_assert (0 \<le> pfn \<and> pfn * 2 ^ PAGE_SHIFT < 2 ^ 63);
     Some (word_of_int (pfn * 2 ^ PAGE_SHIFT)) }"

definition fb_phys_to_page :: "nat \<Rightarrow> u64 \<Rightarrow> nat" where
  "fb_phys_to_page vm phys = vm + sizeof_hyp_page * unat (drop_bit PAGE_SHIFT phys)"

definition fb_find_buddy :: "nat \<Rightarrow> fb_pool \<Rightarrow> nat \<Rightarrow> u32 \<Rightarrow> nat ptr option" where
  "fb_find_buddy vm pool p ord = do {
     pfn \<leftarrow> fb_page_to_pfn vm p;
     addr \<leftarrow> fb_pfn_to_phys pfn;
     c_assert (unat ord < 19);
     let addr = addr XOR push_bit (unat ord) (word_of_nat PAGE_SIZE);
     if addr < fb_range_start pool \<or> addr \<ge> fb_range_end pool then Some NULL
     else Some (Addr (fb_phys_to_page vm addr)) }"

text \<open>The descriptor of a page frame.\<close>

definition fb_page :: "nat \<Rightarrow> nat \<Rightarrow> nat" where
  "fb_page vm n = vm + sizeof_hyp_page * n"

lemma fb_page_to_pfn_page [simp]: "fb_page_to_pfn vm (fb_page vm n) = Some (int n)"
  by (simp add: fb_page_to_pfn_def fb_page_def sizeof_hyp_page_def)

lemma fb_pfn_to_phys_eq: "n < 2 ^ 51 \<Longrightarrow> fb_pfn_to_phys (int n) = Some (hyp_page_to_phys n)"
  by (simp add: fb_pfn_to_phys_def hyp_page_to_phys_def PAGE_SHIFT_def push_bit_eq_mult mult.commute c_assert_def)

lemma fb_phys_to_page_eq: "fb_phys_to_page vm phys = fb_page vm (hyp_phys_to_page phys)"
  by (simp add: fb_phys_to_page_def fb_page_def hyp_phys_to_page_def)

text \<open>
  Where the page frame number has at most 51 bits, the function gives the descriptor of the page that the function of the page
  allocator finds, for a pool of the same range.
\<close>

lemma fb_find_buddy_equiv:
  assumes "n < 2 ^ 51" "pools s P = Some pl" "fb_range_start pool = range_start pl" "fb_range_end pool = range_end pl"
  shows "fb_find_buddy vm pool (fb_page vm n) ord = map_option (map_ptr (fb_page vm)) (find_buddy s P n ord)"
  using assms(2-4)
  by (cases "unat ord < 19")
    (simp_all add: fb_find_buddy_def find_buddy_def fb_pfn_to_phys_eq [OF assms(1)] load_def fb_phys_to_page_eq Let_def)

text \<open>
  The function returns the descriptor of the buddy, the page whose number differs in the bit of the order, when the pool has that
  page, and null otherwise; called on that descriptor with the same order, it leads back to the page.
\<close>

theorem fb_find_buddy_spec:
  assumes "fb_range_start pool = hyp_page_to_phys a" "fb_range_end pool = hyp_page_to_phys b"
    and "a < 2 ^ 51" "b < 2 ^ 51" "n \<in> {a..<b}" "unat ord < 19"
  defines "m \<equiv> buddy_of n (unat ord)"
  shows "fb_find_buddy vm pool (fb_page vm n) ord = Some (if m \<in> {a..<b} then Addr (fb_page vm m) else NULL) \<and>
    (m \<in> {a..<b} \<longrightarrow> fb_find_buddy vm pool (fb_page vm m) ord = Some (Addr (fb_page vm n)))"
proof -
  define pl where "pl = \<lparr>pl_lock = \<lparr>lock = False\<rparr>, range_start = fb_range_start pool, range_end = fb_range_end pool\<rparr>"
  define s :: "unit hyp" where "s = \<lparr>pools = [0 \<mapsto> pl], pages = Map.empty, nodes = Map.empty, hyp_physvirt_offset = 0, mem = ()\<rparr>"
  have s: "pools s 0 = Some pl" "range_start pl = hyp_page_to_phys a" "range_end pl = hyp_page_to_phys b" using assms(1,2) by (simp_all add: s_def pl_def)
  have lim: "x < 2 ^ 51 \<Longrightarrow> x < pfn_limit" for x by (simp add: pfn_limit_def)
  have f: "fb_find_buddy vm pool (fb_page vm k) ord = Some (if a \<le> buddy_of k (unat ord) \<and> buddy_of k (unat ord) < b then Addr (fb_page vm (buddy_of k (unat ord))) else NULL)"
    if "k < b" for k
  proof -
    have k: "k < 2 ^ 51" using that assms(4) by simp
    show ?thesis using fb_find_buddy_equiv [OF k s(1), of pool vm ord] find_buddy_eq [OF s lim [OF assms(3)] lim [OF assms(4)] lim [OF k] assms(6)] s assms(1,2) by simp
  qed
  show ?thesis using f [of n] f [of m] assms(5) by (auto simp: m_def)
qed

text \<open>The pool of four pages of the comment in the source: the buddy of page 2 at order 0 is page 3.\<close>

theorem fb_find_buddy_spec_witness:
  "fb_find_buddy 1000 \<lparr>fb_range_start = 0, fb_range_end = 16384, fb_max_order = 2\<rparr> 1008 0 = Some (Addr 1012)"
proof -
  let ?pool = "\<lparr>fb_range_start = 0, fb_range_end = 16384, fb_max_order = 2\<rparr>"
  have "fb_range_start ?pool = hyp_page_to_phys 0" "fb_range_end ?pool = hyp_page_to_phys 4"
    by (simp_all add: hyp_page_to_phys_def PAGE_SHIFT_def push_bit_eq_mult)
  from fb_find_buddy_spec [OF this, of 2 0 1000] show ?thesis by (simp add: fb_page_def sizeof_hyp_page_def buddy_of_eq)
qed

end
