(* ===== verification/List_Append.thy ===== *)
theory List_Append
  imports Word_List
begin

text \<open>
  The lists of integers of the lessons in \<open>src/tutorial/VerifyThis\<close> (\<open>t02_ownership.c\<close>, \<open>t03_ownership_and_refinements.c\<close>, \<open>t04_loops.c\<close>):
  \<open>append\<close> by recursion and by a loop, and \<open>reverse\<close>. A node has its value and, eight bytes on, the pointer \<open>next\<close>, as the nodes of
  \<open>Word_List\<close>. The files \<open>talk_demo1.c\<close> to \<open>talk_demo3.c\<close> of \<open>src/examples\<close> have the same \<open>append\<close>.
\<close>

section \<open>The functions\<close>

definition sizeof_list_node :: u64 where
  "sizeof_list_node = 16"

text \<open>\<open>append\<close>: a call of itself on the address of the next pointer.\<close>

partial_function (option) il_append :: "'k tmem \<Rightarrow> nat \<Rightarrow> nat ptr \<Rightarrow> 'k tmem option" where
  "il_append s l k =
     Option.bind (get_tptr s l) (\<lambda>p.
       if p = NULL then put_word s l (TPtr k)
       else Option.bind (deref p) (\<lambda>a. il_append s (list_tail a) k))"

text \<open>\<open>append_loop_1\<close>, whose loop is the one of \<open>sl_end\<close>.\<close>

definition il_append_loop :: "'k tmem \<Rightarrow> nat \<Rightarrow> nat ptr \<Rightarrow> 'k tmem option" where
  "il_append_loop s l k = do {
     let end_ptr = l;
     end_ptr \<leftarrow> sl_end s end_ptr;
     put_word s end_ptr (TPtr k) }"

definition il_reverse :: "'k tmem \<Rightarrow> nat ptr \<Rightarrow> (nat ptr \<times> 'k tmem) option" where
  "il_reverse s l = (let reversed = NULL in sl_reverse_loop s l reversed)"

text \<open>\<open>test\<close> of the lesson on refinements; \<open>l\<close> is the address of the local variable \<open>node1\<close>.\<close>

definition il_test :: "int tmem \<Rightarrow> nat \<Rightarrow> int tmem option" where
  "il_test s l = do {
     (n, s) \<leftarrow> talloc s sizeof_list_node;
     s \<leftarrow> put_word s l (TPtr (Addr n));
     s \<leftarrow> put_word s n (TVal 1);
     s \<leftarrow> put_word s (list_tail n) (TPtr NULL);
     (node2, s) \<leftarrow> talloc s sizeof_list_node;
     s \<leftarrow> put_word s node2 (TVal 2);
     s \<leftarrow> put_word s (list_tail node2) (TPtr NULL);
     s \<leftarrow> il_append s l (Addr node2);
     node1 \<leftarrow> get_tptr s l;
     if node1 \<noteq> NULL then do {
       a \<leftarrow> deref node1;
       v \<leftarrow> get_tval s a;
       c_assert (v = 1);
       Some s }
     else Some s }"

section \<open>Recursion and loop\<close>

lemma append_le_loop: "il_append s l k = Some s' \<Longrightarrow> il_append_loop s l k = Some s'"
proof (rule il_append.raw_induct [where P = "\<lambda>s l k s'. il_append_loop s l k = Some s'", rotated])
  fix f and s :: "'k tmem" and l k s'
  assume IH: "\<And>s l k s'. f s l k = Some s' \<Longrightarrow> il_append_loop s l k = Some s'"
    and eq: "Option.bind (get_tptr s l) (\<lambda>p. if p = NULL then put_word s l (TPtr k) else Option.bind (deref p) (\<lambda>a. f s (list_tail a) k)) = Some s'"
  then obtain p where p: "get_tptr s l = Some p" by (auto simp: bind_eq_Some_conv)
  show "il_append_loop s l k = Some s'"
  proof (cases "p = NULL")
    case True
    then show ?thesis using eq p by (simp add: il_append_loop_def sl_end.simps [of s l])
  next
    case False
    then obtain a where a: "deref p = Some a" "f s (list_tail a) k = Some s'" using eq p by (auto simp: bind_eq_Some_conv)
    have "sl_end s l = sl_end s (list_tail a)" using p a(1) False by (subst sl_end.simps) simp
    then show ?thesis using IH [OF a(2)] by (simp add: il_append_loop_def)
  qed
qed

lemma end_le_append: "sl_end s l = Some e \<Longrightarrow> il_append s l k = put_word s e (TPtr k)"
proof (rule sl_end.raw_induct [where P = "\<lambda>s l e. il_append s l k = put_word s e (TPtr k)", rotated])
  fix f and s :: "'k tmem" and l e
  assume IH: "\<And>s l e. f s l = Some e \<Longrightarrow> il_append s l k = put_word s e (TPtr k)"
    and eq: "Option.bind (get_tptr s l) (\<lambda>q. if q \<noteq> NULL then Option.bind (deref q) (\<lambda>a. f s (list_tail a)) else Some l) = Some e"
  then obtain q where q: "get_tptr s l = Some q" by (auto simp: bind_eq_Some_conv)
  show "il_append s l k = put_word s e (TPtr k)"
  proof (cases "q = NULL")
    case True
    then show ?thesis using eq q by (subst il_append.simps) simp
  next
    case False
    then obtain a where a: "deref q = Some a" "f s (list_tail a) = Some e" using eq q by (auto simp: bind_eq_Some_conv)
    show ?thesis using q a(1) False IH [OF a(2)] by (subst il_append.simps) simp
  qed
qed

lemma append_eq_loop: "il_append s l k = il_append_loop s l k"
proof (cases "sl_end s l")
  case None
  then have "il_append_loop s l k = None" by (simp add: il_append_loop_def)
  then show ?thesis using append_le_loop [of s l k] by (cases "il_append s l k") auto
next
  case (Some e)
  then show ?thesis using end_le_append [OF Some] by (simp add: il_append_loop_def)
qed

lemma il_append_ok:
  assumes "slist (words s) l as" "vlist (words s) q bs" "insert l (list_links as) \<inter> list_links bs = {}"
  shows "\<exists>s'. il_append s l q = Some s' \<and> slist (words s') l (as @ bs) \<and> same_outside (insert l (list_links as)) s s'"
  using append_ok [OF assms] by (simp add: append_eq_loop il_append_loop_def sl_append_def)

lemma il_reverse_ok:
  "vlist (words s) p as \<Longrightarrow> \<exists>r s'. il_reverse s p = Some (r, s') \<and> vlist (words s') r (rev as) \<and> same_outside (list_links as) s s'"
  using reverse_loop_ok [of s p as NULL "[]"] by (simp add: il_reverse_def)

text \<open>
  C39. The recursive \<open>append\<close> and the loop are the same function: on every memory they both fault, both run forever, or
  return the same memory. On a list they append the second one, and reversing the result gives back the parts in the opposite order.
\<close>

theorem append_recursion_equals_loop:
  "il_append s l k = il_append_loop s l k \<and>
   (slist (words s) l as \<and> vlist (words s) k bs \<and> insert l (list_links as) \<inter> list_links bs = {} \<longrightarrow>
     (\<exists>s' p r s''. il_append s l k = Some s' \<and> get_tptr s' l = Some p \<and> vlist (words s') p (as @ bs) \<and>
        il_reverse s' p = Some (r, s'') \<and> vlist (words s'') r (rev bs @ rev as)))"
proof (intro conjI impI append_eq_loop)
  assume A: "slist (words s) l as \<and> vlist (words s) k bs \<and> insert l (list_links as) \<inter> list_links bs = {}"
  note h = conjunct1 [OF A] conjunct1 [OF conjunct2 [OF A]] conjunct2 [OF conjunct2 [OF A]]
  from il_append_ok [OF h] obtain s' where s': "il_append s l k = Some s'" "slist (words s') l (as @ bs)" by (elim exE conjE) (rule that)
  note v = get_tptr_eq [OF conjunct1 [OF slist_iff [THEN iffD1, OF s'(2)]]] conjunct2 [OF slist_iff [THEN iffD1, OF s'(2)]]
  from il_reverse_ok [OF v(2)] show "\<exists>s' p r s''. il_append s l k = Some s' \<and> get_tptr s' l = Some p \<and> vlist (words s') p (as @ bs) \<and>
      il_reverse s' p = Some (r, s'') \<and> vlist (words s'') r (rev bs @ rev as)"
    by (elim exE conjE) (intro exI conjI, rule s'(1), rule v(1), rule v(2), assumption, simp only: rev_append)
qed

definition demo_il :: "int tmem" where
  "demo_il = \<lparr>al_lock = \<lparr>lock = False\<rparr>, data_addr = 1000, words = [0 \<mapsto> TPtr (Addr 8), 8 \<mapsto> TVal 1, 16 \<mapsto> TPtr NULL,
     24 \<mapsto> TVal 2, 32 \<mapsto> TPtr NULL]\<rparr>"

theorem append_recursion_equals_loop_witness:
  "\<exists>s' p r s''. il_append demo_il 0 (Addr 24) = Some s' \<and> get_tptr s' 0 = Some p \<and> vlist (words s') p [8, 24] \<and>
     il_reverse s' p = Some (r, s'') \<and> vlist (words s'') r [24, 8]"
proof -
  have "slist (words demo_il) 0 [8] \<and> vlist (words demo_il) (Addr 24) [24] \<and> insert 0 (list_links [8]) \<inter> list_links [24] = {}"
    by (simp add: demo_il_def list_tail_def)
  then show ?thesis using append_recursion_equals_loop [THEN conjunct2, THEN mp, of demo_il 0 "[8]" "Addr 24" "[24]"]
    by (simp del: vlist_simps)
qed

section \<open>The client\<close>

text \<open>The assertion of \<open>test\<close> holds, whatever the allocator hands out.\<close>

lemma il_test_ok:
  assumes "talloc_at s bs" "first_fit sizeof_list_node bs = Some (n, bs1)" "first_fit sizeof_list_node bs1 = Some (m, bs2)"
    and "l \<in> dom (words s)" "l \<notin> insert (data_addr s) (blks bs)"
  shows "\<exists>s'. il_test s l = Some s'"
proof -
  have sz: "unat sizeof_list_node + 16 < 2 ^ 64" "8 dvd unat sizeof_list_node" "unat sizeof_list_node = 16" by (simp_all add: sizeof_list_node_def)
  have area: "tblk a 16 \<union> blks cs' = blks cs \<and> tblk a 16 \<inter> blks cs' = {} \<and> blk_ok (words t) a 16 \<and> data_addr t \<notin> blks cs"
    if "talloc_at t cs" "first_fit sizeof_list_node cs = Some (a, cs')" for t :: "int tmem" and a cs cs'
    using that(1) first_fit_area [OF _ that(2) sz(1,2)] sz(3) by (auto simp: talloc_at_def)
  note A = area [OF assms(1,2)]
  from talloc_ok [OF assms(1,2) sz(1,2)] obtain s1 where s1: "talloc s sizeof_list_node = Some (n, s1)" "talloc_at s1 bs1"
    "same_outside (insert (data_addr s) (blks bs)) s s1" by blast
  define w where "w = (words s1)(l \<mapsto> TPtr (Addr n), n \<mapsto> TVal 1, list_tail n \<mapsto> TPtr NULL)"
  define s2 where "s2 = s1\<lparr>words := w\<rparr>"
  have d1: "data_addr s1 = data_addr s" "dom (words s1) = dom (words s)" using same_outsideD [OF s1(3)] by simp_all
  have nw: "n \<in> tblk n 16" "list_tail n \<in> tblk n 16" "l \<notin> tblk n 16" using A assms(5) node_words by blast+
  have dn: "n \<in> dom (words s1)" "list_tail n \<in> dom (words s1)" "l \<in> dom (words s1)"
    using A nw(1,2) d1 assms(4) by (auto simp: blk_ok_def)
  have "dom w = dom (words s1)" using dn unfolding w_def by auto
  then have so: "same_outside (insert l (tblk n 16)) s1 s2" unfolding same_outside_def s2_def
    using nw by (intro exI [of _ w]) (auto simp: w_def simp del: dom_fun_upd)
  have "insert l (tblk n 16) \<inter> insert (data_addr s1) (blks bs1) = {}" using A assms(5) d1 by auto
  from talloc_at_outside [OF s1(2) so this] have t2: "talloc_at s2 bs1" .
  note B = area [OF t2 assms(3)]
  from talloc_ok [OF t2 assms(3) sz(1,2)] obtain s3 where s3: "talloc s2 sizeof_list_node = Some (m, s3)" "talloc_at s3 bs2"
    "same_outside (insert (data_addr s2) (blks bs1)) s2 s3" by blast
  have d3: "dom (words s3) = dom (words s2)" using same_outsideD [OF s3(3)] by simp
  have mw: "m \<in> tblk m 16" "list_tail m \<in> tblk m 16" "l \<notin> tblk m 16" "tblk m 16 \<inter> tblk n 16 = {}"
    using node_words [of m] A B assms(5) by (simp_all, blast, blast)
  have dm: "m \<in> dom (words s3)" "list_tail m \<in> dom (words s3)" using B mw(1,2) d3 by (auto simp: blk_ok_def)
  have out: "x \<notin> insert (data_addr s2) (blks bs1)" if "x \<in> insert l (tblk n 16)" for x
    using that A assms(5) d1 by (auto simp: s2_def)
  define s4 where "s4 = s3\<lparr>words := (words s3)(m \<mapsto> TVal 2, list_tail m \<mapsto> TPtr NULL)\<rparr>"
  have keep: "words s4 x = w x" if "x \<in> insert l (tblk n 16)" for x
    using that mw same_outsideD(1) [OF s3(3) out [OF that]] by (auto simp: s4_def s2_def)
  have "words s4 l = Some (TPtr (Addr n))" "words s4 n = Some (TVal 1)" "words s4 (list_tail n) = Some (TPtr NULL)"
    using keep nw node_words [of n] by (auto simp: w_def)
  moreover have "slist (words s4) (list_tail m) []" by (simp add: s4_def)
  ultimately have L: "slist (words s4) l [n]" "vlist (words s4) (Addr m) [m]" and v: "words s4 n = Some (TVal 1)" by simp_all
  have "insert l (list_links [n]) \<inter> list_links [m] = {}" using nw mw by auto
  from il_append_ok [OF L this] obtain s5 where s5: "il_append s4 l (Addr m) = Some s5" "slist (words s5) l [n, m]"
    "same_outside (insert l (list_links [n])) s4 s5" by auto
  have "n \<notin> insert l (list_links [n])" using nw node_words [of n] by auto
  then have "get_tval s5 n = Some 1" "get_tptr s5 l = Some (Addr n)"
    using same_outsideD(1) [OF s5(3)] v s5(2) by (auto simp: get_tval_def get_tptr_def)
  moreover have "il_test s l = do {
     s \<leftarrow> il_append s4 l (Addr m);
     node1 \<leftarrow> get_tptr s l;
     if node1 \<noteq> NULL then do { a \<leftarrow> deref node1; v \<leftarrow> get_tval s a; c_assert (v = 1); Some s } else Some s }"
    using s1(1) s3(1) dn dm by (simp add: il_test_def put_word_ok(1) s2_def s4_def w_def)
  ultimately show ?thesis using s5(1) by simp
qed

end
