(* ===== verification/Provenance.thy ===== *)
theory Provenance
  imports Prelude
begin

unbundle bit_operations_syntax

text \<open>
  Casts between pointers and integers: \<open>tagged_ptr.c\<close>, \<open>intptr.c\<close> and \<open>ocaml_runtime.c\<close> of \<open>src/examples\<close>. A pointer has a provenance beside its
  address, the allocation that it may access; an integer that was cast from a pointer remembers it, until it is used in
  arithmetic. The casts are those of the semantics of C that the repository defines in \<open>src/theories/caesium/lang.v\<close>, without function pointers.
\<close>

section \<open>Pointers and integers with provenance\<close>

datatype prov = ProvNull | ProvAlloc "nat option"

record ploc =
  l_prov :: prov
  l_addr :: u64

record cint =
  i_val :: u64
  i_prov :: "nat option"

record allocation =
  al_start :: u64
  al_len :: nat
  al_alive :: bool

text \<open>The allocations and the integers that are stored, by their addresses.\<close>

record pv_state =
  allocs :: "nat \<Rightarrow> allocation option"
  ints :: "u64 \<Rightarrow> int option"

definition NULL_loc :: ploc where
  "NULL_loc = \<lparr>l_prov = ProvNull, l_addr = 0\<rparr>"

definition the_alloc :: "pv_state \<Rightarrow> prov \<Rightarrow> allocation option" where
  "the_alloc st p = (case p of ProvAlloc (Some i) \<Rightarrow> allocs st i | _ \<Rightarrow> None)"

definition block_alive :: "ploc \<Rightarrow> pv_state \<Rightarrow> bool" where
  "block_alive l st = (case the_alloc st (l_prov l) of Some al \<Rightarrow> al_alive al | None \<Rightarrow> False)"

definition loc_in_bounds :: "ploc \<Rightarrow> nat \<Rightarrow> pv_state \<Rightarrow> bool" where
  "loc_in_bounds l n st = (case the_alloc st (l_prov l) of
     Some al \<Rightarrow> unat (al_start al) \<le> unat (l_addr l) \<and> unat (l_addr l) + n \<le> unat (al_start al) + al_len al
   | None \<Rightarrow> False)"

definition valid_ptr :: "ploc \<Rightarrow> pv_state \<Rightarrow> bool" where
  "valid_ptr l st \<longleftrightarrow> block_alive l st \<and> loc_in_bounds l 0 st"

definition cast_ptr_int :: "pv_state \<Rightarrow> ploc \<Rightarrow> cint option" where
  "cast_ptr_int st l = (case l_prov l of
     ProvAlloc p \<Rightarrow> if block_alive l st then Some \<lparr>i_val = l_addr l, i_prov = p\<rparr> else None
   | ProvNull \<Rightarrow> if l = NULL_loc then Some \<lparr>i_val = 0, i_prov = None\<rparr> else None)"

definition cast_int_ptr :: "pv_state \<Rightarrow> cint \<Rightarrow> ploc" where
  "cast_int_ptr st i =
     (let l = \<lparr>l_prov = ProvAlloc (i_prov i), l_addr = i_val i\<rparr> in
      if valid_ptr l st then l
      else if i_val i = 0 then NULL_loc
      else \<lparr>l_prov = ProvAlloc None, l_addr = i_val i\<rparr>)"

definition copy_alloc_id :: "pv_state \<Rightarrow> cint \<Rightarrow> ploc \<Rightarrow> ploc option" where
  "copy_alloc_id st i l =
     (if valid_ptr \<lparr>l_prov = l_prov l, l_addr = i_val i\<rparr> st then Some \<lparr>l_prov = l_prov l, l_addr = i_val i\<rparr> else None)"

text \<open>Arithmetic on integers, which drops the provenance, and constants.\<close>

definition i_op :: "(u64 \<Rightarrow> u64 \<Rightarrow> u64) \<Rightarrow> cint \<Rightarrow> u64 \<Rightarrow> cint" where
  "i_op f i n = \<lparr>i_val = f (i_val i) n, i_prov = None\<rparr>"

text \<open>Reading and writing an integer of \<open>n\<close> bytes, and the offset of a pointer to \<open>int\<close> by \<open>k\<close> elements.\<close>

definition read_at :: "nat \<Rightarrow> pv_state \<Rightarrow> ploc \<Rightarrow> int option" where
  "read_at n st l = (if block_alive l st \<and> loc_in_bounds l n st then ints st (l_addr l) else None)"

definition write_at :: "nat \<Rightarrow> pv_state \<Rightarrow> ploc \<Rightarrow> int \<Rightarrow> pv_state option" where
  "write_at n st l v = (if block_alive l st \<and> loc_in_bounds l n st then Some (st\<lparr>ints := (ints st)(l_addr l \<mapsto> v)\<rparr>) else None)"

definition ptr_add :: "pv_state \<Rightarrow> ploc \<Rightarrow> int \<Rightarrow> ploc option" where
  "ptr_add st l k =
     (let l' = l\<lparr>l_addr := l_addr l + word_of_int (4 * k)\<rparr> in if valid_ptr l' st then Some l' else None)"

section \<open>Tagged pointers\<close>

definition TAG_SIZE :: nat where "TAG_SIZE = 3"
definition TAG_MOD :: u64 where "TAG_MOD = push_bit TAG_SIZE 1"
definition TAG_MASK :: u64 where "TAG_MASK = TAG_MOD - 1"

definition tag_of :: "pv_state \<Rightarrow> ploc \<Rightarrow> u8 option" where
  "tag_of st p = do {
     i \<leftarrow> cast_ptr_int st p;
     let t = ucast (i_val (i_op (AND) i TAG_MASK));
     Some t }"

definition tag :: "pv_state \<Rightarrow> ploc \<Rightarrow> u8 \<Rightarrow> ploc option" where
  "tag st p t = do {
     i \<leftarrow> cast_ptr_int st p;
     let new_i = i_op (OR) (i_op (AND) i (NOT TAG_MASK)) (ucast t);
     q \<leftarrow> copy_alloc_id st new_i p;
     Some q }"

definition untag :: "pv_state \<Rightarrow> ploc \<Rightarrow> ploc option" where
  "untag st p = tag st p 0"

definition untag2 :: "pv_state \<Rightarrow> ploc \<Rightarrow> ploc option" where
  "untag2 st p = do {
     i \<leftarrow> cast_ptr_int st p;
     copy_alloc_id st (i_op (-) i (i_val (i_op (mod) i TAG_MOD))) p }"

text \<open>\<open>test\<close>; \<open>x\<close> is the location of the local variable.\<close>

definition tagged_test :: "pv_state \<Rightarrow> ploc \<Rightarrow> int option" where
  "tagged_test st x = do {
     st \<leftarrow> write_at 8 st x 0;
     tp \<leftarrow> tag st x 1;
     t \<leftarrow> tag_of st tp;
     c_assert (t = 1);
     px \<leftarrow> untag st tp;
     read_at 8 st px }"

definition is_aligned :: "pv_state \<Rightarrow> ploc \<Rightarrow> bool option" where
  "is_aligned st p = do {
     i \<leftarrow> cast_ptr_int st p;
     Some (i_val (i_op (mod) i TAG_MOD) = 0) }"

section \<open>Bits\<close>

lemma TAG_MASK_mask: "TAG_MASK = mask 3"
  by (simp add: TAG_MASK_def TAG_MOD_def TAG_SIZE_def mask_eq_exp_minus_1)

lemma tag_bits:
  fixes x t :: u64
  assumes "take_bit 3 t = t"
  shows "((x AND NOT (mask 3)) OR t) AND mask 3 = t" "((x AND NOT (mask 3)) OR t) AND NOT (mask 3) = x AND NOT (mask 3)"
proof -
  have t: "bit t n \<longleftrightarrow> n < 3 \<and> bit t n" for n by (subst (1) assms [symmetric]) (simp add: bit_take_bit_iff)
  show "((x AND NOT (mask 3)) OR t) AND mask 3 = t"
    by (rule bit_word_eqI) (use t in \<open>auto simp: bit_simps\<close>)
  show "((x AND NOT (mask 3)) OR t) AND NOT (mask 3) = x AND NOT (mask 3)"
    by (rule bit_word_eqI) (use t in \<open>auto simp: bit_simps\<close>)
qed

lemma tag_mod: "x mod TAG_MOD = x AND mask 3"
  using take_bit_eq_mod [of 3 x] take_bit_eq_mask [of 3 x] by (simp add: TAG_MOD_def TAG_SIZE_def)

lemma tag_clear: "x - x mod TAG_MOD = x AND NOT (mask 3)" for x :: u64
proof -
  have "(x AND NOT (mask 3)) + (x AND mask 3) = (x AND NOT (mask 3)) OR (x AND mask 3)"
    by (rule disjunctive_add) (auto simp: bit_simps)
  also have "\<dots> = x" by (rule bit_word_eqI) (auto simp: bit_simps)
  finally show ?thesis by (simp add: tag_mod algebra_simps)
qed

section \<open>Tagged pointers, correctness\<close>

text \<open>An aligned pointer into an allocation with room for every tag.\<close>

definition taggable :: "pv_state \<Rightarrow> ploc \<Rightarrow> bool" where
  "taggable st l \<longleftrightarrow> block_alive l st \<and> loc_in_bounds l 7 st \<and> l_addr l AND mask 3 = 0"

text \<open>The pointer with its address raised by the tag.\<close>

definition tagged :: "ploc \<Rightarrow> u8 \<Rightarrow> ploc" where
  "tagged l t = l\<lparr>l_addr := (l_addr l AND NOT (mask 3)) OR ucast t\<rparr>"

lemma take_bit_3_self: "unat t < 8 \<Longrightarrow> take_bit 3 t = t" for t :: u64
  by (rule word_unat_eq_iff [THEN iffD2]) (simp add: unsigned_take_bit_eq take_bit_nat_eq_self)

lemma unat_ucast_tag: "unat (ucast t :: u64) = unat t" for t :: u8
  by (simp add: unsigned_ucast_eq take_bit_nat_eq_self unsigned_less [THEN order_less_trans])

lemma small_tag: "t < 8 \<Longrightarrow> take_bit 3 (ucast t :: u64) = ucast t" for t :: u8
  by (rule take_bit_3_self) (simp add: unat_ucast_tag word_less_nat_alt)

lemma aligned_clear: "x AND mask 3 = 0 \<Longrightarrow> x AND NOT (mask 3) = x" for x :: u64
  using tag_clear [of x] by (simp add: tag_mod)

lemma aligned_add:
  fixes x t :: u64
  assumes "x AND mask 3 = 0" "take_bit 3 t = t"
  shows "unat (x OR t) = unat x + unat t"
proof -
  have "\<not> bit x n \<or> \<not> bit t n" for n
  proof -
    have "\<not> bit (x AND mask 3) n" using assms(1) by simp
    moreover have "bit (take_bit 3 t) n = bit t n" using assms(2) by simp
    ultimately show ?thesis by (auto simp: bit_simps)
  qed
  then have "x OR t = x + t" by (rule disjunctive_add [symmetric])
  moreover have "unat x mod 8 = 0" using assms(1) tag_mod [of x] unat_mod_distrib [of x 8] by (simp add: TAG_MOD_def TAG_SIZE_def)
  moreover have "unat t < 8"
    using arg_cong [OF assms(2), of unat] take_bit_nat_less_exp [of 3 "unat t"] by (simp add: unsigned_take_bit_eq)
  moreover have "unat x < 18446744073709551616" using unsigned_less [of x, where ?'a = nat] by simp
  ultimately have "unat x + unat t < 18446744073709551616" by (auto simp: mod_eq_0_iff_dvd elim!: dvdE)
  then show ?thesis using \<open>x OR t = x + t\<close> by (simp add: unat_word_ariths(1))
qed

lemma block_alive_addr [simp]: "block_alive (l\<lparr>l_addr := a\<rparr>) st = block_alive l st"
  by (simp add: block_alive_def)

lemma block_alive_prov: "block_alive l st \<Longrightarrow> \<exists>k. l_prov l = ProvAlloc (Some k)"
  by (auto simp: block_alive_def the_alloc_def split: prov.splits option.splits)

lemma cast_ptr_int_alive: "block_alive l st \<Longrightarrow> \<exists>p. cast_ptr_int st l = Some \<lparr>i_val = l_addr l, i_prov = p\<rparr>"
  using block_alive_prov [of l st] by (auto simp: cast_ptr_int_def)

lemma tagged_valid:
  assumes "taggable st l" "t < 8"
  shows "valid_ptr (tagged l t) st" "block_alive (tagged l t) st"
proof -
  have al: "block_alive l st" "loc_in_bounds l 7 st" "l_addr l AND mask 3 = 0" using assms(1) by (simp_all add: taggable_def)
  have "unat (l_addr (tagged l t)) = unat (l_addr l) + unat t"
    using aligned_add [OF al(3) small_tag [OF assms(2)]] aligned_clear [OF al(3)] by (simp add: tagged_def unat_ucast_tag)
  moreover have "unat t \<le> 7" using assms(2) by (simp add: word_less_nat_alt)
  ultimately have "loc_in_bounds (tagged l t) 0 st" using al(2) by (auto simp: loc_in_bounds_def tagged_def split: option.splits)
  then show "valid_ptr (tagged l t) st" "block_alive (tagged l t) st" using al(1) by (simp_all add: valid_ptr_def tagged_def)
qed

lemma tagged_tagged: "t < 8 \<Longrightarrow> tagged (tagged l t) u = tagged l u"
  by (simp add: tagged_def tag_bits(2) [OF small_tag])

lemma tagged_0: "taggable st l \<Longrightarrow> tagged l 0 = l"
  by (simp add: tagged_def taggable_def aligned_clear)

lemma tag_eq: "block_alive l st \<Longrightarrow> tag st l t = (if valid_ptr (tagged l t) st then Some (tagged l t) else None)"
  using cast_ptr_int_alive [of l st] by (cases l) (auto simp: tag_def i_op_def copy_alloc_id_def TAG_MASK_mask tagged_def)

lemma tag_of_eq: "block_alive l st \<Longrightarrow> tag_of st l = Some (ucast (l_addr l AND mask 3))"
  using cast_ptr_int_alive [of l st] by (auto simp: tag_of_def i_op_def TAG_MASK_mask)

lemma untag2_eq: "block_alive l st \<Longrightarrow> untag2 st l = (if valid_ptr (tagged l 0) st then Some (tagged l 0) else None)"
  using cast_ptr_int_alive [of l st] by (cases l) (auto simp: untag2_def i_op_def copy_alloc_id_def tag_clear tagged_def)

lemma is_aligned_eq: "block_alive l st \<Longrightarrow> is_aligned st l = Some (l_addr l AND mask 3 = 0)"
  using cast_ptr_int_alive [of l st] by (auto simp: is_aligned_def i_op_def tag_mod)

lemma ucast_ucast_tag: "ucast (ucast t :: u64) = t" for t :: u8
  by (rule word_unat_eq_iff [THEN iffD2]) (simp add: unsigned_ucast_eq take_bit_word_eq_self)

text \<open>
  C40. Tagging a pointer to an aligned block succeeds, the tag can be read back, both ways of removing it give back the pointer, with its
  provenance, and a second tag replaces the first one; a tag of eight or more would be a different address, and is not part of the claim.
\<close>

theorem tagged_roundtrip:
  assumes "taggable st l" "t < 8"
  shows "\<exists>q. tag st l t = Some q \<and> l_prov q = l_prov l \<and> tag_of st q = Some t \<and> untag st q = Some l \<and> untag2 st q = Some l \<and>
    is_aligned st q = Some (t = 0) \<and> (\<forall>u. tag st q u = tag st l u)"
proof -
  let ?q = "tagged l t"
  note v = tagged_valid [OF assms]
  have al: "block_alive l st" using assms(1) by (simp add: taggable_def)
  have m: "l_addr ?q AND mask 3 = ucast t" by (simp add: tagged_def tag_bits(1) [OF small_tag [OF assms(2)]])
  have "tag st l t = Some ?q" using v by (simp add: tag_eq [OF al])
  moreover have "tag_of st ?q = Some t" using m by (simp add: tag_of_eq [OF v(2)] ucast_ucast_tag)
  moreover have "valid_ptr (tagged ?q 0) st" "tagged ?q 0 = l"
    using tagged_valid(1) [OF assms(1), of 0] tagged_0 [OF assms(1)] by (simp_all add: tagged_tagged [OF assms(2)])
  then have "untag st ?q = Some l" "untag2 st ?q = Some l" by (simp_all add: untag_def tag_eq [OF v(2)] untag2_eq [OF v(2)])
  moreover have "is_aligned st ?q = Some (t = 0)" using m ucast_ucast_tag [of t] by (auto simp: is_aligned_eq [OF v(2)])
  moreover have "tag st ?q u = tag st l u" for u by (simp add: tag_eq [OF v(2)] tag_eq [OF al] tagged_tagged [OF assms(2)])
  ultimately show ?thesis by (auto simp: tagged_def)
qed

theorem tagged_roundtrip_witness:
  "\<exists>q. tag \<lparr>allocs = [0 \<mapsto> \<lparr>al_start = 64, al_len = 8, al_alive = True\<rparr>], ints = Map.empty\<rparr> \<lparr>l_prov = ProvAlloc (Some 0), l_addr = 64\<rparr> 5 = Some q \<and>
     tag_of \<lparr>allocs = [0 \<mapsto> \<lparr>al_start = 64, al_len = 8, al_alive = True\<rparr>], ints = Map.empty\<rparr> q = Some 5"
proof -
  let ?st = "\<lparr>allocs = [0 \<mapsto> \<lparr>al_start = 64, al_len = 8, al_alive = True\<rparr>], ints = Map.empty\<rparr>" and ?l = "\<lparr>l_prov = ProvAlloc (Some 0), l_addr = 64\<rparr>"
  have "taggable ?st ?l" by (simp add: taggable_def block_alive_def loc_in_bounds_def the_alloc_def mask_eq_exp_minus_1)
  from tagged_roundtrip [OF this, of 5] show ?thesis by auto
qed

section \<open>The functions of \<open>intptr.c\<close>\<close>

definition int_ptr1 :: "pv_state \<Rightarrow> ploc \<Rightarrow> cint option" where
  "int_ptr1 st p = do { i \<leftarrow> cast_ptr_int st p; Some i }"

definition int_ptr2 :: "pv_state \<Rightarrow> ploc \<Rightarrow> cint option" where
  "int_ptr2 st p = do { i \<leftarrow> cast_ptr_int st p; Some i }"

definition int_ptr3 :: "pv_state \<Rightarrow> ploc \<Rightarrow> cint option" where
  "int_ptr3 st p = do { i \<leftarrow> cast_ptr_int st p; Some (i_op (+) i 0) }"

definition min_ptr_val1 :: "pv_state \<Rightarrow> ploc \<Rightarrow> ploc \<Rightarrow> cint option" where
  "min_ptr_val1 st p1 p2 = do {
     i1 \<leftarrow> cast_ptr_int st p1;
     i2 \<leftarrow> cast_ptr_int st p2;
     if i_val i1 \<le> i_val i2 then Some i1 else Some i2 }"

definition min_ptr_val2 :: "pv_state \<Rightarrow> ploc \<Rightarrow> ploc \<Rightarrow> cint option" where
  "min_ptr_val2 st p1 p2 = do {
     i1 \<leftarrow> cast_ptr_int st p1;
     i2 \<leftarrow> cast_ptr_int st p2;
     if i_val i1 \<le> i_val i2 then Some i1 else Some i2 }"

text \<open>The local variables \<open>x\<close> and \<open>y\<close> are given by their locations, here and below.\<close>

definition pointer_to_integer_comp_det :: "pv_state \<Rightarrow> ploc \<Rightarrow> ploc \<Rightarrow> pv_state option" where
  "pointer_to_integer_comp_det st x y = do {
     st \<leftarrow> write_at 4 st x 0;
     st \<leftarrow> write_at 4 st y 0;
     i \<leftarrow> cast_ptr_int st x;
     j \<leftarrow> cast_ptr_int st y;
     st \<leftarrow> (if i_val i < i_val j then write_at 4 st y 10 else write_at 4 st x 10);
     if i_val i < i_val j then do {
       b \<leftarrow> read_at 4 st y; c_assert (b = 10);
       a \<leftarrow> read_at 4 st x; c_assert (a = 0); Some st }
     else do {
       a \<leftarrow> read_at 4 st x; c_assert (a = 10);
       b \<leftarrow> read_at 4 st y; c_assert (b = 0); Some st } }"

definition roundtrip1 :: "pv_state \<Rightarrow> ploc \<Rightarrow> ploc option" where
  "roundtrip1 st p = do { i \<leftarrow> cast_ptr_int st p; let q = cast_int_ptr st i; Some q }"

definition roundtrip2 :: "pv_state \<Rightarrow> ploc \<Rightarrow> ploc option" where
  "roundtrip2 st p = do { i \<leftarrow> cast_ptr_int st p; let q = cast_int_ptr st (i_op (+) i 0); Some q }"

definition roundtrip3 :: "pv_state \<Rightarrow> ploc \<Rightarrow> ploc option" where
  "roundtrip3 st p = do { i \<leftarrow> cast_ptr_int st p; let k = i_op (+) i 0; copy_alloc_id st k p }"

definition roundtrip_and_read1 :: "pv_state \<Rightarrow> ploc \<Rightarrow> int option" where
  "roundtrip_and_read1 st p = do { i \<leftarrow> cast_ptr_int st p; let q = cast_int_ptr st i; r \<leftarrow> read_at 4 st q; Some r }"

definition roundtrip_and_read2 :: "pv_state \<Rightarrow> ploc \<Rightarrow> int option" where
  "roundtrip_and_read2 st p = do {
     i \<leftarrow> cast_ptr_int st p; let j = i_op (*) i 1; q \<leftarrow> copy_alloc_id st j p; r \<leftarrow> read_at 4 st q; Some r }"

definition roundtrip_and_read3 :: "pv_state \<Rightarrow> ploc \<Rightarrow> int option" where
  "roundtrip_and_read3 st p = do { i \<leftarrow> cast_ptr_int st p; q \<leftarrow> copy_alloc_id st (i_op (*) i 1) p; read_at 4 st q }"

definition roundtrip_and_read4 :: "pv_state \<Rightarrow> ploc \<Rightarrow> int option" where
  "roundtrip_and_read4 st p = do { i \<leftarrow> cast_ptr_int st p; let j = i_op (*) i 1; q \<leftarrow> copy_alloc_id st j p; read_at 4 st q }"

definition roundtrip_and_read_past_the_end :: "pv_state \<Rightarrow> ploc \<Rightarrow> int option" where
  "roundtrip_and_read_past_the_end st x = do {
     st \<leftarrow> write_at 4 st x 0;
     p \<leftarrow> ptr_add st x 1;
     i \<leftarrow> cast_ptr_int st p;
     q \<leftarrow> ptr_add st (cast_int_ptr st i) (- 1);
     read_at 4 st q }"

definition roundtrip_and_read_past_the_end_copy_alloc_id :: "pv_state \<Rightarrow> ploc \<Rightarrow> int option" where
  "roundtrip_and_read_past_the_end_copy_alloc_id st x = do {
     st \<leftarrow> write_at 4 st x 0;
     p \<leftarrow> ptr_add st x 1;
     i \<leftarrow> cast_ptr_int st p;
     let i = i_op (+) i 0;
     c \<leftarrow> copy_alloc_id st i x;
     q \<leftarrow> ptr_add st c (- 1);
     read_at 4 st q }"

definition cast_NULL :: "pv_state \<Rightarrow> int option" where
  "cast_NULL st = do { i \<leftarrow> cast_ptr_int st NULL_loc; Some (sint (ucast (i_val i) :: 32 word)) }"

section \<open>The macros of \<open>ocaml_runtime.c\<close>\<close>

definition Is_long :: "u64 \<Rightarrow> bool" where
  "Is_long x \<longleftrightarrow> x AND 1 \<noteq> 0"

definition Is_block :: "u64 \<Rightarrow> bool" where
  "Is_block x \<longleftrightarrow> x AND 1 = 0"

definition Val_long :: "u64 \<Rightarrow> u64" where
  "Val_long x = push_bit 1 x + 1"

definition Long_val :: "u64 \<Rightarrow> u64" where
  "Long_val x = drop_bit 1 x"

text \<open>\<open>client\<close>; \<open>large_int\<close> is the location of the local variable. The integer is \<open>0xdeadbeef\<close>.\<close>

definition ocaml_client :: "pv_state \<Rightarrow> ploc \<Rightarrow> unit option" where
  "ocaml_client st large_int = do {
     st \<leftarrow> write_at 8 st large_int 3735928559;
     let small_int = 42;
     v1 \<leftarrow> cast_ptr_int st large_int;
     let v2 = Val_long small_int;
     c_assert (Is_block (i_val v1));
     c_assert (Is_long v2);
     let large_int_ptr = cast_int_ptr st v1;
     c_assert (Long_val v2 = 42);
     r \<leftarrow> read_at 8 st large_int_ptr;
     c_assert (r = 3735928559) }"

section \<open>What the casts keep\<close>

lemma ints_frame [simp]:
  "block_alive l (st\<lparr>ints := m\<rparr>) = block_alive l st" "loc_in_bounds l n (st\<lparr>ints := m\<rparr>) = loc_in_bounds l n st"
  "valid_ptr l (st\<lparr>ints := m\<rparr>) = valid_ptr l st"
  by (simp_all add: valid_ptr_def block_alive_def loc_in_bounds_def the_alloc_def split: prov.split option.split)

lemma int_in_bounds: "loc_in_bounds l n st \<Longrightarrow> loc_in_bounds l 0 st"
  by (auto simp: loc_in_bounds_def split: option.splits)

lemma cast_int_ptr_back: "valid_ptr l st \<Longrightarrow> l_prov l = ProvAlloc p \<Longrightarrow> cast_int_ptr st \<lparr>i_val = l_addr l, i_prov = p\<rparr> = l"
  by (cases l) (simp add: cast_int_ptr_def)

text \<open>
  A valid pointer survives the casts as long as no arithmetic intervenes or the provenance is copied; otherwise its address is
  right, and it can no longer be read through.
\<close>

lemma roundtrip_provenance:
  assumes "valid_ptr l st" "l_addr l \<noteq> 0"
  shows "roundtrip1 st l = Some l" "roundtrip3 st l = Some l"
    "\<exists>q. roundtrip2 st l = Some q \<and> l_addr q = l_addr l \<and> read_at 4 st q = None"
proof -
  have al: "block_alive l st" using assms(1) by (simp add: valid_ptr_def)
  from block_alive_prov [OF al] obtain k where k: "l_prov l = ProvAlloc (Some k)" by blast
  then have c: "cast_ptr_int st l = Some \<lparr>i_val = l_addr l, i_prov = Some k\<rparr>" using al by (simp add: cast_ptr_int_def)
  then show "roundtrip1 st l = Some l" using cast_int_ptr_back [OF assms(1) k] by (simp add: roundtrip1_def)
  have l: "\<lparr>l_prov = l_prov l, l_addr = l_addr l\<rparr> = l" by (cases l) simp
  show "roundtrip3 st l = Some l" using c assms(1) by (simp add: roundtrip3_def i_op_def copy_alloc_id_def l)
  have "\<not> block_alive \<lparr>l_prov = ProvAlloc None, l_addr = l_addr l\<rparr> st" by (simp add: block_alive_def the_alloc_def)
  then show "\<exists>q. roundtrip2 st l = Some q \<and> l_addr q = l_addr l \<and> read_at 4 st q = None"
    using c assms(2) by (simp add: roundtrip2_def i_op_def cast_int_ptr_def valid_ptr_def read_at_def)
qed

lemma roundtrip_reads:
  assumes "block_alive l st" "loc_in_bounds l 4 st"
  shows "roundtrip_and_read1 st l = ints st (l_addr l)" "roundtrip_and_read2 st l = ints st (l_addr l)"
    "roundtrip_and_read3 st l = ints st (l_addr l)" "roundtrip_and_read4 st l = ints st (l_addr l)"
proof -
  have v: "valid_ptr l st" using assms int_in_bounds by (simp add: valid_ptr_def)
  from block_alive_prov [OF assms(1)] obtain k where k: "l_prov l = ProvAlloc (Some k)" by blast
  then have c: "cast_ptr_int st l = Some \<lparr>i_val = l_addr l, i_prov = Some k\<rparr>" using assms(1) by (simp add: cast_ptr_int_def)
  have l: "\<lparr>l_prov = l_prov l, l_addr = l_addr l\<rparr> = l" by (cases l) simp
  show "roundtrip_and_read1 st l = ints st (l_addr l)"
    using c cast_int_ptr_back [OF v k] assms by (simp add: roundtrip_and_read1_def read_at_def)
  show "roundtrip_and_read2 st l = ints st (l_addr l)" "roundtrip_and_read3 st l = ints st (l_addr l)" "roundtrip_and_read4 st l = ints st (l_addr l)"
    using c v assms by (simp_all add: roundtrip_and_read2_def roundtrip_and_read3_def roundtrip_and_read4_def i_op_def copy_alloc_id_def l read_at_def)
qed

lemma min_ptr_val_min:
  assumes "block_alive p1 st" "block_alive p2 st"
  shows "map_option i_val (min_ptr_val1 st p1 p2) = Some (min (l_addr p1) (l_addr p2))" "min_ptr_val2 st p1 p2 = min_ptr_val1 st p1 p2"
  using cast_ptr_int_alive [OF assms(1)] cast_ptr_int_alive [OF assms(2)]
  by (auto simp: min_ptr_val1_def min_ptr_val2_def min_def)

lemma comp_det_ok:
  assumes "block_alive x st" "loc_in_bounds x 4 st" "block_alive y st" "loc_in_bounds y 4 st" "l_addr x \<noteq> l_addr y"
  shows "\<exists>st'. pointer_to_integer_comp_det st x y = Some st'"
proof -
  obtain a b where "l_prov x = ProvAlloc (Some a)" "l_prov y = ProvAlloc (Some b)" using block_alive_prov assms(1,3) by blast
  then show ?thesis using assms by (simp add: pointer_to_integer_comp_det_def write_at_def read_at_def cast_ptr_int_def)
qed

lemma cast_NULL_0: "cast_NULL st = Some 0"
  by (simp add: cast_NULL_def cast_ptr_int_def NULL_loc_def)

lemma Val_long_bits: "bit (Val_long x) n \<longleftrightarrow> n = 0 \<or> (n < 64 \<and> bit x (n - 1))"
proof -
  have "Val_long x = push_bit 1 x OR 1" unfolding Val_long_def
    by (rule disjunctive_add) (auto simp only: bit_push_bit_iff bit_1_iff)
  then have "bit (Val_long x) n \<longleftrightarrow> bit (push_bit 1 x) n \<or> bit (1 :: u64) n" by (simp only: bit_or_iff)
  then show ?thesis by (auto simp only: bit_push_bit_iff bit_1_iff possible_bit_word len_num1 len_bit0)
qed

lemma Val_long_roundtrip:
  "Is_long (Val_long x)" "\<not> Is_block (Val_long x)" "x < 2 ^ 63 \<Longrightarrow> Long_val (Val_long x) = x"
proof -
  have "odd (Val_long x)" using Val_long_bits [of x 0] by (simp add: bit_0)
  then show "Is_long (Val_long x)" "\<not> Is_block (Val_long x)" by (simp_all add: Is_long_def Is_block_def and_one_eq mod2_eq_if)
  assume "x < 2 ^ 63"
  then have "take_bit 63 x = x" by (simp add: word_unat_eq_iff unsigned_take_bit_eq take_bit_nat_eq_self word_less_nat_alt)
  then have "bit x n \<longleftrightarrow> n < 63 \<and> bit x n" for n using bit_take_bit_iff [of 63 x n] by simp
  then show "Long_val (Val_long x) = x" by (intro bit_word_eqI) (auto simp: Long_val_def bit_drop_bit_eq Val_long_bits)
qed

lemma ocaml_client_ok:
  assumes "block_alive l st" "loc_in_bounds l 8 st" "l_addr l AND 1 = 0"
  shows "ocaml_client st l = Some ()"
proof -
  from block_alive_prov [OF assms(1)] obtain k where k: "l_prov l = ProvAlloc (Some k)" by blast
  have "valid_ptr l st" using assms int_in_bounds by (simp add: valid_ptr_def)
  moreover have "Is_long (Val_long 42)" "Long_val (Val_long 42) = 42" using Val_long_roundtrip by simp_all
  ultimately show ?thesis using assms k cast_int_ptr_back [of l]
    by (simp add: ocaml_client_def write_at_def read_at_def cast_ptr_int_def Is_block_def)
qed

lemma tagged_test_ok:
  assumes "taggable st l" "loc_in_bounds l 8 st"
  shows "tagged_test st l = Some 0"
proof -
  let ?st = "st\<lparr>ints := (ints st)(l_addr l \<mapsto> 0)\<rparr>"
  have t: "taggable ?st l" "block_alive l st" using assms(1) by (simp_all add: taggable_def)
  note v = tagged_valid [OF t(1), of 1] tagged_valid [OF t(1), of 0]
  have "tag ?st l 1 = Some (tagged l 1)" using v tag_eq [of l ?st 1] t(2) by simp
  moreover have "l_addr (tagged l 1) AND mask 3 = ucast (1 :: u8)" 
    using tag_bits(1) [OF small_tag [of 1], of "l_addr l"] by (simp add: tagged_def)
  then have "tag_of ?st (tagged l 1) = Some 1" using tag_of_eq [OF v(2)] by simp
  moreover have "untag ?st (tagged l 1) = Some l"
    using v tag_eq [OF v(2), of 0] tagged_tagged [of 1 l 0] tagged_0 [OF t(1)] by (simp add: untag_def)
  ultimately show ?thesis using assms(2) t(2) by (simp add: tagged_test_def write_at_def read_at_def)
qed

text \<open>An array of one \<open>int\<close>: the pointer past its end is valid, survives the casts, and leads back to the element.\<close>

lemma past_the_end_ok:
  assumes "l_prov x = ProvAlloc (Some k)" "allocs st k = Some \<lparr>al_start = l_addr x, al_len = 4, al_alive = True\<rparr>" "unat (l_addr x) + 4 < 2 ^ 64"
  shows "roundtrip_and_read_past_the_end st x = Some 0" "roundtrip_and_read_past_the_end_copy_alloc_id st x = Some 0"
proof -
  let ?st = "st\<lparr>ints := (ints st)(l_addr x \<mapsto> 0)\<rparr>" and ?e = "x\<lparr>l_addr := l_addr x + 4\<rparr>"
  have a: "unat (l_addr x + 4) = unat (l_addr x) + 4" using assms(3) by (simp add: unat_word_ariths(1))
  have b: "block_alive x st" "loc_in_bounds x 4 st" "loc_in_bounds x 0 st" "loc_in_bounds ?e 0 st"
    using assms(1,2) a by (simp_all add: block_alive_def loc_in_bounds_def the_alloc_def)
  then have v: "valid_ptr ?e st" "valid_ptr x st" by (simp_all add: valid_ptr_def)
  have w: "write_at 4 st x 0 = Some ?st" using b by (simp add: write_at_def)
  have p: "ptr_add ?st x 1 = Some ?e" using v by (simp add: ptr_add_def)
  have c: "cast_ptr_int ?st ?e = Some \<lparr>i_val = l_addr x + 4, i_prov = Some k\<rparr>" using assms(1) b by (simp add: cast_ptr_int_def)
  have e: "\<lparr>l_prov = l_prov x, l_addr = l_addr x + 4\<rparr> = ?e" by (cases x) simp
  then have i: "cast_int_ptr ?st \<lparr>i_val = l_addr x + 4, i_prov = Some k\<rparr> = ?e"
    using cast_int_ptr_back [of ?e ?st "Some k"] v assms(1) by simp
  have q: "ptr_add ?st ?e (- 1) = Some x" using v(2) by (cases x) (simp add: ptr_add_def)
  have r: "read_at 4 ?st x = Some 0" using b by (simp add: read_at_def)
  show "roundtrip_and_read_past_the_end st x = Some 0"
    by (simp only: roundtrip_and_read_past_the_end_def w p c i q r Option.bind.bind_lunit)
  have "copy_alloc_id ?st (i_op (+) \<lparr>i_val = l_addr x + 4, i_prov = Some k\<rparr> 0) x = Some ?e" using v(1) by (simp add: copy_alloc_id_def i_op_def e)
  then show "roundtrip_and_read_past_the_end_copy_alloc_id st x = Some 0"
    by (simp only: roundtrip_and_read_past_the_end_copy_alloc_id_def w p c q r Option.bind.bind_lunit Let_def)
qed

end
