(* ===== verification/Int_Arrays.thy ===== *)
theory Int_Arrays
  imports Quick_Sort
begin

text \<open>
  Lessons on arrays of \<open>int\<close>: the binary search of \<open>src/tutorial/t00_intro.c\<close>, and \<open>permute\<close> and \<open>min_array\<close> of \<open>src/tutorial/t07_arrays.c\<close>, with the
  checked indices and arithmetic of \<open>Quick_Sort\<close>.
\<close>

section \<open>The functions\<close>

partial_function (option) int_search_loop :: "int list \<Rightarrow> int \<Rightarrow> int \<Rightarrow> int \<Rightarrow> int option" where
  "int_search_loop xs x l r =
     (if l < r then
        Option.bind (i32 (r - l)) (\<lambda>d.
        Option.bind (i32 (l + d div 2)) (\<lambda>k.
        Option.bind (iget xs k) (\<lambda>v.
          if v = x then Some k
          else if v < x then Option.bind (i32 (k + 1)) (\<lambda>l. int_search_loop xs x l r)
          else int_search_loop xs x l k)))
      else Some (- 1))"

definition int_binary_search :: "int list \<Rightarrow> int \<Rightarrow> int \<Rightarrow> int option" where
  "int_binary_search xs n x = (let l = 0; r = n in int_search_loop xs x l r)"

definition permute :: "int list \<Rightarrow> int \<Rightarrow> int \<Rightarrow> int list option" where
  "permute ar i j = do {
     k \<leftarrow> iget ar i;
     v \<leftarrow> iget ar j;
     ar \<leftarrow> iset ar i v;
     iset ar j k }"

definition use_permute :: "int list \<Rightarrow> int \<Rightarrow> int list option" where
  "use_permute ar n = do { ar \<leftarrow> permute ar 1 2; permute ar 1 2 }"

partial_function (option) min_array_loop :: "int list \<Rightarrow> int \<Rightarrow> int \<Rightarrow> int \<Rightarrow> int option" where
  "min_array_loop ar n i res =
     (if i < n then
        Option.bind (iget ar i) (\<lambda>v.
        Option.bind (iget ar res) (\<lambda>w.
          let res = (if v < w then i else res) in
          Option.bind (i32 (i + 1)) (\<lambda>i. min_array_loop ar n i res)))
      else Some res)"

definition min_array :: "int list \<Rightarrow> int \<Rightarrow> int option" where
  "min_array ar n = (if n = 0 then Some (- 1) else let res = 0 in min_array_loop ar n 1 res)"

section \<open>Binary search\<close>

lemma int_search_loop_ok:
  assumes "sorted xs" "int (length xs) < 2 ^ 31"
    and "0 \<le> l" "l \<le> r" "r \<le> int (length xs)" "\<And>i. i < nat l \<Longrightarrow> xs ! i < x" "\<And>i. nat r \<le> i \<Longrightarrow> i < length xs \<Longrightarrow> x < xs ! i"
  shows "\<exists>k. int_search_loop xs x l r = Some k \<and>
    (if x \<in> set xs then 0 \<le> k \<and> k < int (length xs) \<and> xs ! nat k = x else k = - 1)"
  using assms(3-)
proof (induction "nat (r - l)" arbitrary: l r rule: less_induct)
  case less
  show ?case
  proof (cases "l < r")
    case False
    then have "x \<notin> set xs" using less.prems(2,4,5) by (auto simp: in_set_conv_nth) (metis linorder_not_less nless_le)
    then show ?thesis using False by (subst int_search_loop.simps) simp
  next
    case True
    define k where "k = l + (r - l) div 2"
    have k: "l \<le> k" "k < r" "k < int (length xs)" "0 \<le> k" using True less.prems(1-3) by (auto simp: k_def)
    have step: "int_search_loop xs x l r = (if xs ! nat k = x then Some k
        else if xs ! nat k < x then int_search_loop xs x (k + 1) r else int_search_loop xs x l k)"
      using True k less.prems(1-3) assms(2) by (subst int_search_loop.simps) (simp add: i32_in iget_in k_def [symmetric])
    have srt: "xs ! i \<le> xs ! j" if "i \<le> j" "j < length xs" for i j using assms(1) that by (simp add: sorted_nth_mono)
    consider "xs ! nat k = x" | "xs ! nat k < x" | "x < xs ! nat k" by linarith
    then show ?thesis
    proof cases
      case 1
      then have "x \<in> set xs" using k by (metis nat_less_iff nth_mem)
      then show ?thesis using step 1 k by simp
    next
      case 2
      have "xs ! i < x" if "i < nat (k + 1)" for i using srt [of i "nat k"] that 2 k by (auto simp: nat_less_iff) (simp add: le_nat_iff zless_nat_eq_int_zless)
      moreover have "int_search_loop xs x l r = int_search_loop xs x (k + 1) r" using step 2 by simp
      ultimately show ?thesis using less.hyps [of r "k + 1"] less.prems k by simp
    next
      case 3
      have "x < xs ! i" if "nat k \<le> i" "i < length xs" for i using srt [of "nat k" i] that 3 by simp
      moreover have "int_search_loop xs x l r = int_search_loop xs x l k" using step 3 by simp
      ultimately show ?thesis using less.hyps [of k l] less.prems k by simp
    qed
  qed
qed

text \<open>
  On a sorted array whose length fits in an \<open>int\<close>, the search returns, without a fault or an overflow, an index of the value if the array has it, and \<open>-1\<close>
  otherwise.
\<close>

theorem int_binary_search_spec:
  assumes "sorted xs" "int (length xs) < 2 ^ 31"
  shows "\<exists>k. int_binary_search xs (int (length xs)) x = Some k \<and>
    (if x \<in> set xs then 0 \<le> k \<and> k < int (length xs) \<and> xs ! nat k = x else k = - 1)"
  using int_search_loop_ok [OF assms, of 0 "int (length xs)" x] by (simp add: int_binary_search_def)

theorem int_binary_search_spec_witness: "\<exists>k. int_binary_search [1, 3, 5] 3 4 = Some k \<and> k = - 1"
  using int_binary_search_spec [of "[1, 3, 5]" 4] by simp

section \<open>Exchange and minimum\<close>

lemma permute_ok:
  assumes "0 \<le> i" "i < int (length xs)" "0 \<le> j" "j < int (length xs)"
  shows "permute xs i j = Some (xs[nat i := xs ! nat j, nat j := xs ! nat i])"
  using assms by (simp add: permute_def iget_def iset_def)

lemma use_permute_id:
  assumes "2 < length xs"
  shows "use_permute xs n = Some xs"
proof -
  have "xs[1 := xs ! 2, 2 := xs ! 1, 1 := xs ! 1, 2 := xs ! 2] = xs"
    by (rule nth_equalityI) (use assms in \<open>auto simp: nth_list_update\<close>)
  then show ?thesis using assms by (simp add: use_permute_def permute_ok nth_list_update numeral_2_eq_2)
qed

text \<open>The index of the first minimum of the first \<open>n\<close> elements.\<close>

definition first_min :: "int list \<Rightarrow> nat \<Rightarrow> nat \<Rightarrow> bool" where
  "first_min xs n r \<longleftrightarrow> r < n \<and> (\<forall>i<n. xs ! r \<le> xs ! i) \<and> (\<forall>i<r. xs ! r < xs ! i)"

lemma first_min_Suc: "first_min xs n r \<Longrightarrow> first_min xs (Suc n) (if xs ! n < xs ! r then n else r)"
  by (auto simp: first_min_def less_Suc_eq)

lemma min_array_loop_ok:
  assumes "n \<le> length xs" "int (length xs) < 2 ^ 31" "i \<le> n" "first_min xs i r"
  shows "\<exists>k. min_array_loop xs (int n) (int i) (int r) = Some (int k) \<and> first_min xs n k"
  using assms(3,4)
proof (induction "n - i" arbitrary: i r)
  case 0
  then show ?case by (subst min_array_loop.simps) auto
next
  case (Suc m)
  then have i: "i < n" by simp
  have r: "r < i" using Suc.prems(2) by (simp add: first_min_def)
  have "min_array_loop xs (int n) (int i) (int r) = min_array_loop xs (int n) (int (Suc i)) (int (if xs ! i < xs ! r then i else r))"
    using i r assms(1,2) by (subst min_array_loop.simps) (simp add: i32_def iget_def add.commute)
  then show ?case using Suc.hyps(1) [of "Suc i"] Suc.hyps(2) i first_min_Suc [OF Suc.prems(2)] by simp
qed

lemma min_array_ok:
  assumes "n \<le> length xs" "int (length xs) < 2 ^ 31"
  shows "n = 0 \<Longrightarrow> min_array xs (int n) = Some (- 1)"
    and "0 < n \<Longrightarrow> \<exists>k. min_array xs (int n) = Some (int k) \<and> first_min xs n k"
proof -
  show "n = 0 \<Longrightarrow> min_array xs (int n) = Some (- 1)" by (simp add: min_array_def)
  assume "0 < n"
  moreover have "first_min xs 1 0" by (simp add: first_min_def)
  ultimately show "\<exists>k. min_array xs (int n) = Some (int k) \<and> first_min xs n k"
    using min_array_loop_ok [OF assms, of 1 0] by (simp add: min_array_def)
qed

end
