(* ===== verification/Lessons.thy ===== *)
theory Lessons
  imports Quick_Sort "HOL-Library.Signed_Division"
begin

unbundle bit_operations_syntax

text \<open>
  Single functions of the tutorial and of the examples, on integers, small structs and pointers to integers: \<open>t01_basic.c\<close>, \<open>t06_struct.c\<close>, \<open>t09_switch.c\<close>, \<open>t10_loops.c\<close>,
  \<open>lithium.c\<close> and \<open>VerifyThis/t01_refinements.c\<close> of \<open>src/tutorial\<close>; \<open>shift.c\<close>, \<open>flags.c\<close>, \<open>wrapping_add.c\<close>, \<open>pointers.c\<close>, \<open>container_of.c\<close> and \<open>simple_union.c\<close> of \<open>src/examples\<close>. Arithmetic on
  \<open>int\<close> that overflows is a fault (\<open>i32\<close>); unsigned numbers wrap around.
\<close>

section \<open>\<open>t01_basic.c\<close>\<close>

definition int_id :: "int \<Rightarrow> int" where
  "int_id a = a"

definition int_id2 :: "int \<Rightarrow> int" where
  "int_id2 a = a"

definition add1 :: "int \<Rightarrow> int option" where
  "add1 a = i32 (a + 1)"

definition int_min :: "int \<Rightarrow> int \<Rightarrow> int option" where
  "int_min a b = do {
     let r = (if a < b then a else b);
     c_assert (r \<le> a);
     c_assert (r \<le> b);
     Some r }"

partial_function (option) looping_add :: "int \<Rightarrow> int \<Rightarrow> int option" where
  "looping_add a b =
     (if a > 0 then Option.bind (i32 (b + 1)) (\<lambda>b. Option.bind (i32 (a - 1)) (\<lambda>a. looping_add a b)) else Some b)"

text \<open>Memory with integers.\<close>

type_synonym int_heap = "(nat, int) heap"

definition int_ptrs :: "int_heap \<Rightarrow> nat ptr \<Rightarrow> nat ptr \<Rightarrow> int_heap option" where
  "int_ptrs h p1 p2 = do {
     h \<leftarrow> modify h p1 (\<lambda>_. 1);
     v \<leftarrow> load h p1; c_assert (v = 1);
     h \<leftarrow> modify h p2 (\<lambda>_. 2);
     v \<leftarrow> load h p1; c_assert (v = 1);
     v \<leftarrow> load h p2; c_assert (v = 2);
     Some h }"

text \<open>The addresses of the local variables are parameters, here and below.\<close>

definition call_int_ptrs :: "int_heap \<Rightarrow> nat \<Rightarrow> nat \<Rightarrow> int_heap option" where
  "call_int_ptrs h p1 p2 = do {
     let h = h(p1 \<mapsto> 0, p2 \<mapsto> 0);
     int_ptrs h (Addr p1) (Addr p2) }"

definition init_int :: "int_heap \<Rightarrow> nat ptr \<Rightarrow> int_heap option" where
  "init_int h p = modify h p (\<lambda>_. 1)"

definition init_int_test :: "int_heap \<Rightarrow> nat ptr \<Rightarrow> nat \<Rightarrow> int_heap option" where
  "init_int_test h p i = do { h \<leftarrow> init_int h (Addr i); init_int h (Addr i) }"

record basic =
  basic_a :: int
  basic_b :: int

definition struct_test :: "(nat, basic) heap \<Rightarrow> nat ptr \<Rightarrow> (nat, basic) heap option" where
  "struct_test h p = do {
     h \<leftarrow> modify h p (\<lambda>_. \<lparr>basic_a = 1, basic_b = 0\<rparr>);
     s \<leftarrow> load h p;
     a \<leftarrow> i32 (basic_a s + 1);
     modify h p (\<lambda>s. s\<lparr>basic_a := a\<rparr>) }"

section \<open>\<open>t06_struct.c\<close>\<close>

record color =
  red_part :: u8
  green_part :: u8
  blue_part :: u8

definition rgb :: "u8 \<Rightarrow> u8 \<Rightarrow> u8 \<Rightarrow> color" where
  "rgb r g b = \<lparr>red_part = r, green_part = g, blue_part = b\<rparr>"

definition red :: "u8 \<Rightarrow> color" where
  "red r = \<lparr>red_part = r, green_part = 0, blue_part = 0\<rparr>"

definition green :: "u8 \<Rightarrow> color" where
  "green g = \<lparr>red_part = 0, green_part = g, blue_part = 0\<rparr>"

definition blue :: "u8 \<Rightarrow> color" where
  "blue b = \<lparr>red_part = 0, green_part = 0, blue_part = b\<rparr>"

definition getblue :: "color \<Rightarrow> u8" where
  "getblue b = blue_part b"

definition set_red :: "color \<Rightarrow> u8 \<Rightarrow> color" where
  "set_red c r = c\<lparr>red_part := r\<rparr>"

definition set_green :: "color \<Rightarrow> u8 \<Rightarrow> color" where
  "set_green c g = c\<lparr>green_part := g\<rparr>"

definition set_blue :: "color \<Rightarrow> u8 \<Rightarrow> color" where
  "set_blue c b = c\<lparr>blue_part := b\<rparr>"

definition argtest :: "unit option" where
  "argtest = c_assert (getblue (blue 5) = 5)"

section \<open>\<open>t09_switch.c\<close>\<close>

text \<open>A number of increments in sequence, which is what a \<open>switch\<close> without \<open>break\<close> executes from a label on.\<close>

primrec incr_by :: "nat \<Rightarrow> int \<Rightarrow> int option" where
  "incr_by 0 v = Some v"
| "incr_by (Suc k) v = Option.bind (i32 (v + 1)) (incr_by k)"

definition test_switch :: "int \<Rightarrow> int option" where
  "test_switch i =
     (let v = i in
      if i = 0 then incr_by 4 v else if i = 1 then incr_by 3 v else if i = 2 then incr_by 2 v else if i = 3 then incr_by 1 v else Some v)"

definition test_switch_default :: "int \<Rightarrow> int option" where
  "test_switch_default i =
     (let v = i in
      if i = 0 then incr_by 5 v else if i = 1 then incr_by 4 v else if i = 2 then incr_by 3 v else if i = 3 then incr_by 2 v else incr_by 1 v)"

definition incr_less_than_5 :: "int \<Rightarrow> int option" where
  "incr_less_than_5 i =
     (let v = i in
      if i = 0 then incr_by 1 v else if i = 1 then incr_by 1 v else if i = 2 then incr_by 1 v else if i = 3 then incr_by 1 v
      else if i = 4 then incr_by 1 v else Some v)"

text \<open>The loop of Duff's device, entered with the last \<open>k\<close> of its four increments.\<close>

partial_function (option) duff_loop :: "nat \<Rightarrow> int \<Rightarrow> int \<Rightarrow> int option" where
  "duff_loop k v n =
     Option.bind (incr_by k v) (\<lambda>v.
     Option.bind (i32 (n - 1)) (\<lambda>n. if n > 0 then duff_loop 4 v n else Some v))"

definition duffs_identity :: "int \<Rightarrow> int option" where
  "duffs_identity i = do {
     let v = 0;
     s \<leftarrow> i32 (i + 3);
     let n = s sdiv 4;
     let c = i smod 4;
     if c = 0 then duff_loop 4 v n
     else if c = 3 then duff_loop 3 v n
     else if c = 2 then duff_loop 2 v n
     else if c = 1 then duff_loop 1 v n
     else Some v }"

section \<open>\<open>t10_loops.c\<close> and \<open>lithium.c\<close>\<close>

partial_function (option) while_one :: "int \<Rightarrow> unit option" where
  "while_one a = (if a = 1 then while_one a else Some ())"

definition loop_without_annot :: "int \<Rightarrow> int \<Rightarrow> int \<Rightarrow> unit option" where
  "loop_without_annot a b c = do { while_one a; while_one b; while_one c }"

definition lithium_test :: "int_heap \<Rightarrow> nat ptr \<Rightarrow> int option" where
  "lithium_test h a = (if a \<noteq> NULL then do { v \<leftarrow> load h a; i32 (v + 0) } else Some 0)"

section \<open>\<open>VerifyThis/t01_refinements.c\<close>\<close>

definition avg_1 :: "u32 \<Rightarrow> u32 \<Rightarrow> u32" where
  "avg_1 a b = (a + b) div 2"

definition avg_2 :: "u32 \<Rightarrow> u32 \<Rightarrow> u32" where
  "avg_2 a b = (a + b) div 2"

definition avg_3 :: "u32 \<Rightarrow> u32 \<Rightarrow> u32" where
  "avg_3 a b = (let low = (if a < b then a else b); high = (if a < b then b else a) in low + (high - low) div 2)"

definition avg_4 :: "u32 \<Rightarrow> u32 \<Rightarrow> u32" where
  "avg_4 a b = (let low = (if a < b then a else b); high = (if a < b then b else a) in low + (high - low) div 2)"

definition avg_5 :: "u32 \<Rightarrow> u32 \<Rightarrow> u32" where
  "avg_5 a b = (let low = (if a < b then a else b); high = (if a < b then b else a) in low + (high - low) div 2)"

section \<open>Bits and wrapping\<close>

definition times_two :: "u32 \<Rightarrow> u32" where
  "times_two x = push_bit 1 x"

definition div_two :: "u32 \<Rightarrow> u32" where
  "div_two x = drop_bit 1 x"

record flags =
  flag_bits :: u8

definition IS_SET :: "flags \<Rightarrow> nat \<Rightarrow> u8" where
  "IS_SET f n = drop_bit n (flag_bits f) AND 1"

definition flags_sum :: "flags \<Rightarrow> u32 \<Rightarrow> u32 \<Rightarrow> u32" where
  "flags_sum f arg1 arg2 =
     (let r = 0;
          r = (if IS_SET f 0 \<noteq> 0 then r + arg1 else r);
          r = (if IS_SET f 1 \<noteq> 0 then r + arg2 else r)
      in r)"

definition wrapping_add :: "u64 \<Rightarrow> u64 \<Rightarrow> u64 \<Rightarrow> u64" where
  "wrapping_add a b c = a + (b + c)"

section \<open>\<open>pointers.c\<close> and \<open>container_of.c\<close>\<close>

definition read_int :: "int_heap \<Rightarrow> nat ptr \<Rightarrow> int option" where
  "read_int h a = load h a"

definition use_read_int :: "int_heap \<Rightarrow> nat \<Rightarrow> int_heap option" where
  "use_read_int h local = do {
     let h = h(local \<mapsto> 1);
     r \<leftarrow> read_int h (Addr local);
     v \<leftarrow> load h (Addr local); c_assert (v = r);
     v \<leftarrow> load h (Addr local); c_assert (v = 1);
     Some h }"

definition no_alias :: "int_heap \<Rightarrow> nat ptr \<Rightarrow> nat ptr \<Rightarrow> int_heap option" where
  "no_alias h a b = do {
     old_b \<leftarrow> load h b;
     h \<leftarrow> modify h a (\<lambda>_. 1);
     v \<leftarrow> load h b; c_assert (v = old_b);
     Some h }"

definition local_vars :: "int_heap \<Rightarrow> bool \<Rightarrow> nat \<Rightarrow> unit option" where
  "local_vars h b var = do {
     let h = h(var \<mapsto> 1);
     let p = Addr var;
     dummy \<leftarrow> (if b then do { dummy \<leftarrow> load h (Addr var); load h p } else do { dummy \<leftarrow> load h p; load h (Addr var) });
     Some () }"

definition ptrs :: "int_heap \<Rightarrow> bool \<Rightarrow> nat ptr \<Rightarrow> unit option" where
  "ptrs h b p = do {
     let p1 = p;
     let p2 = p;
     v \<leftarrow> (if b then do { v \<leftarrow> load h p1; load h p2 } else do { v \<leftarrow> load h p2; load h p1 });
     Some () }"

text \<open>\<open>ptrs2\<close> takes the address \<open>pp\<close> of its parameter; \<open>g\<close> is the memory with pointers.\<close>

definition ptrs2 :: "int_heap \<Rightarrow> (nat, nat ptr) heap \<Rightarrow> nat \<Rightarrow> bool \<Rightarrow> nat ptr \<Rightarrow> unit option" where
  "ptrs2 h g pp b p = do {
     let g = g(pp \<mapsto> p);
     let p1 = Addr pp;
     v \<leftarrow> (if b then do { q \<leftarrow> load g p1; v \<leftarrow> load h q; q \<leftarrow> load g (Addr pp); load h q }
           else do { q \<leftarrow> load g (Addr pp); v \<leftarrow> load h q; q \<leftarrow> load g p1; load h q });
     Some () }"

definition ptr_id :: "nat ptr \<Rightarrow> int \<Rightarrow> nat ptr" where
  "ptr_id p x = p"

definition ptr_id_test :: "int_heap \<Rightarrow> nat \<Rightarrow> int_heap option" where
  "ptr_id_test h x = do {
     let h = h(x \<mapsto> 1);
     n \<leftarrow> i32 (1 + 1);
     v \<leftarrow> load h (ptr_id (Addr x) n); c_assert (v = 1);
     Some h }"

text \<open>The struct of \<open>container_of_test\<close> is at the address \<open>t\<close>: its member \<open>a\<close> there, and \<open>b\<close> four bytes on.\<close>

definition container_of_test :: "int_heap \<Rightarrow> nat \<Rightarrow> (int \<times> int_heap) option" where
  "container_of_test h t = do {
     let h = h(t \<mapsto> 1, t + 4 \<mapsto> 2);
     let b = t + 4;
     h \<leftarrow> modify h (Addr b) (\<lambda>_. 3);
     let pt = b - 4;
     h \<leftarrow> modify h (Addr pt) (\<lambda>_. 4);
     r \<leftarrow> load h (Addr t);
     Some (r, h) }"

section \<open>\<open>simple_union.c\<close>\<close>

text \<open>The member of the union that was written last; reading another one is a fault.\<close>

datatype item_union = UEmpty u64 | UEntry "u64 option" "nat ptr option" | UTombstone u64

record union_item =
  item_tag :: u64
  item_u :: item_union

definition ITEM_EMPTY :: u64 where "ITEM_EMPTY = 0"
definition ITEM_ENTRY :: u64 where "ITEM_ENTRY = 1"
definition ITEM_TOMBSTONE :: u64 where "ITEM_TOMBSTONE = 2"

definition test_item_set_empty :: "union_item \<Rightarrow> union_item" where
  "test_item_set_empty i = (let i = i\<lparr>item_tag := ITEM_EMPTY\<rparr> in i\<lparr>item_u := UEmpty 0\<rparr>)"

definition test_item_set_entry :: "union_item \<Rightarrow> u64 \<Rightarrow> nat ptr \<Rightarrow> union_item" where
  "test_item_set_entry i k v =
     (let i = i\<lparr>item_tag := ITEM_ENTRY\<rparr>;
          i = i\<lparr>item_u := UEntry (Some k) (case item_u i of UEntry _ w \<Rightarrow> w | _ \<Rightarrow> None)\<rparr>
      in i\<lparr>item_u := UEntry (case item_u i of UEntry k _ \<Rightarrow> k | _ \<Rightarrow> None) (Some v)\<rparr>)"

definition test_item_modify_entry :: "union_item \<Rightarrow> u64 \<Rightarrow> (u64 \<times> union_item) option" where
  "test_item_modify_entry i k =
     (if item_tag i = ITEM_ENTRY then do {
        old_key \<leftarrow> (case item_u i of UEntry k _ \<Rightarrow> k | _ \<Rightarrow> None);
        let i = i\<lparr>item_tag := ITEM_TOMBSTONE\<rparr>;
        let i = i\<lparr>item_u := UTombstone k\<rparr>;
        Some (old_key, i) }
      else Some (k, i))"

section \<open>Properties: integers and pointers\<close>

lemma int_min_ok: "int_min a b = Some (min a b)"
  by (simp add: int_min_def min_def)

lemma looping_add_ok: "0 \<le> a \<Longrightarrow> a + b < 2 ^ 31 \<Longrightarrow> a < 2 ^ 31 \<Longrightarrow> - (2 ^ 31) \<le> b \<Longrightarrow> looping_add a b = Some (a + b)"
proof (induction "nat a" arbitrary: a b)
  case 0
  then show ?case by (subst looping_add.simps) simp
next
  case (Suc n)
  then have "looping_add (a - 1) (b + 1) = Some (a + b)" using Suc.hyps(1) [of "a - 1" "b + 1"] by auto
  then show ?case using Suc.prems Suc.hyps(2) by (subst looping_add.simps) (auto simp: i32_def)
qed

text \<open>The assertions of \<open>int_ptrs\<close> hold exactly when both pointers are valid and they do not alias.\<close>

lemma int_ptrs_iff: "int_ptrs h p q \<noteq> None \<longleftrightarrow> valid h p \<and> valid h q \<and> p \<noteq> q"
  by (cases "valid h p"; cases "valid h q") (auto simp: int_ptrs_def heap_simps)

lemma call_int_ptrs_ok: "p \<noteq> q \<Longrightarrow> call_int_ptrs h p q \<noteq> None"
  using int_ptrs_iff [of "h(p \<mapsto> 0, q \<mapsto> 0)" "Addr p" "Addr q"] by (simp add: call_int_ptrs_def)

lemma init_int_test_ok: "i \<in> dom h \<Longrightarrow> \<exists>h'. init_int_test h p i = Some h' \<and> h' i = Some 1"
  by (auto simp: init_int_test_def init_int_def modify_def)

lemma struct_test_ok: "a \<in> dom h \<Longrightarrow> struct_test h (Addr a) = Some (h(a \<mapsto> \<lparr>basic_a = 2, basic_b = 0\<rparr>))"
  by (auto simp: struct_test_def modify_def load_def i32_def)

lemma no_alias_iff: "valid h p \<Longrightarrow> valid h q \<Longrightarrow> no_alias h p q \<noteq> None \<longleftrightarrow> p \<noteq> q \<or> node h q = 1"
  by (auto simp: no_alias_def heap_simps c_assert_def)

lemma pointer_clients_ok:
  "use_read_int h x \<noteq> None" "ptr_id_test h x \<noteq> None" "local_vars h b x = Some ()" "valid h p \<Longrightarrow> ptrs h b p = Some ()"
  "valid h p \<Longrightarrow> ptrs2 h g pp b p = Some ()"
  by (auto simp: ptrs2_def use_read_int_def read_int_def ptr_id_test_def ptr_id_def load_def i32_def local_vars_def ptrs_def Let_def valid_def
      split: ptr.splits option.splits)

lemma container_of_test_ok: "\<exists>h'. container_of_test h t = Some (4, h')"
  by (simp add: container_of_test_def modify_def load_def Let_def)

lemma argtest_ok: "argtest = Some ()"
  by (simp add: argtest_def getblue_def blue_def)

lemma color_ops: "set_blue (set_green (set_red c r) g) b = rgb r g b" "getblue (set_blue c b) = b"
  by (simp_all add: set_blue_def set_green_def set_red_def rgb_def getblue_def)

lemma lithium_test_ok: "lithium_test h NULL = Some 0" "h a = Some v \<Longrightarrow> - (2 ^ 31) \<le> v \<Longrightarrow> v < 2 ^ 31 \<Longrightarrow> lithium_test h (Addr a) = Some v"
  by (simp_all add: lithium_test_def load_def i32_def)

lemma while_one_diverges: "while_one 1 = None"
proof (rule ccontr)
  assume "while_one 1 \<noteq> None"
  then obtain u where "while_one 1 = Some u" by auto
  then have "(1 :: int) \<noteq> 1"
    by (rule while_one.raw_induct [where P = "\<lambda>a u. a \<noteq> 1", rotated]) (auto split: if_splits)
  then show False by simp
qed

lemma loop_without_annot_iff: "loop_without_annot a b c = Some () \<longleftrightarrow> a \<noteq> 1 \<and> b \<noteq> 1 \<and> c \<noteq> 1"
proof -
  have w: "while_one x = (if x = 1 then None else Some ())" for x
    using while_one_diverges by (cases "x = 1") (simp, subst while_one.simps, simp)
  show ?thesis by (simp add: loop_without_annot_def w)
qed

section \<open>Properties: \<open>switch\<close>\<close>

lemma incr_by_ok: "- (2 ^ 31) \<le> v \<Longrightarrow> v + int k < 2 ^ 31 \<Longrightarrow> incr_by k v = Some (v + int k)"
  by (induction k arbitrary: v) (simp_all add: i32_def)

lemma switch_ok:
  "0 \<le> i \<Longrightarrow> i < 2 ^ 31 \<Longrightarrow> test_switch i = Some (if i \<le> 4 then 4 else i)"
  "0 \<le> i \<Longrightarrow> i + 1 < 2 ^ 31 \<Longrightarrow> test_switch_default i = Some (if i \<le> 4 then 5 else i + 1)"
  "0 \<le> i \<Longrightarrow> i < 2 ^ 31 \<Longrightarrow> incr_less_than_5 i = Some (if i \<le> 4 then i + 1 else i)"
  by (auto simp: test_switch_def test_switch_default_def incr_less_than_5_def incr_by_ok)

lemma duff_loop_ok:
  assumes "0 < n" "0 \<le> v" "v + int k + 4 * (int n - 1) < 2 ^ 31" "int n < 2 ^ 31"
  shows "duff_loop k v (int n) = Some (v + int k + 4 * (int n - 1))"
  using assms
proof (induction n arbitrary: k v)
  case (Suc n)
  have v: "incr_by k v = Some (v + int k)" using Suc.prems by (intro incr_by_ok) auto
  show ?case
  proof (cases "n = 0")
    case True
    then show ?thesis using v by (subst duff_loop.simps) (simp add: i32_def)
  next
    case False
    then have "duff_loop 4 (v + int k) (int n) = Some (v + int k + 4 + 4 * (int n - 1))" using Suc.IH [of "v + int k" 4] Suc.prems by simp
    then show ?thesis using v False Suc.prems(4) by (subst duff_loop.simps) (simp add: i32_def)
  qed
qed simp

lemma duffs_identity_ok:
  assumes "0 < i" "i + 3 < 2 ^ 31"
  shows "duffs_identity i = Some i"
proof -
  define n where "n = nat ((i + 3) div 4)"
  have n: "int n = (i + 3) div 4" "0 < n" "int n < 2 ^ 31" using assms by (auto simp: n_def)
  have d: "(i + 3) sdiv 4 = int n" "i smod 4 = i mod 4" using assms n(1) 
    by (simp_all add: signed_modulo_int_def signed_divide_int_def minus_div_mult_eq_mod)
  have "0 \<le> i mod 4" "i mod 4 < 4" by simp_all
  then consider "i mod 4 = 0" | "i mod 4 = 1" | "i mod 4 = 2" | "i mod 4 = 3" by linarith
  then show ?thesis
  proof cases
    case 1
    then have "4 + 4 * (int n - 1) = i" using n(1) by presburger
    then show ?thesis using duff_loop_ok [of n 0 4] n assms d 1 by (simp add: duffs_identity_def i32_def)
  next
    case 2
    then have "1 + 4 * (int n - 1) = i" using n(1) by presburger
    then show ?thesis using duff_loop_ok [of n 0 1] n assms d 2 by (simp add: duffs_identity_def i32_def)
  next
    case 3
    then have "2 + 4 * (int n - 1) = i" using n(1) by presburger
    then show ?thesis using duff_loop_ok [of n 0 2] n assms d 3 by (simp add: duffs_identity_def i32_def)
  next
    case 4
    then have "3 + 4 * (int n - 1) = i" using n(1) by presburger
    then show ?thesis using duff_loop_ok [of n 0 3] n assms d 4 by (simp add: duffs_identity_def i32_def)
  qed
qed

section \<open>Properties: averages and bits\<close>

text \<open>The average by the difference is the average of the numbers; the one by the sum only where the sum has 32 bits.\<close>

lemma avg_variants: "avg_2 = avg_1" "avg_4 = avg_3" "avg_5 = avg_3"
  by (intro ext; simp add: avg_1_def avg_2_def avg_3_def avg_4_def avg_5_def)+

lemma avg_3_ok: "unat (avg_3 a b) = (unat a + unat b) div 2"
proof -
  have half: "unat (x + (y - x) div 2) = (unat x + unat y) div 2" if "unat x \<le> unat y" for x y :: u32
  proof -
    have "unat (y - x) = unat y - unat x" using that by (simp add: unat_sub word_le_nat_alt)
    moreover have "unat x + (unat y - unat x) div 2 < 2 ^ 32" using that unsigned_less [of y, where ?'a = nat] by simp
    ultimately have "unat (x + (y - x) div 2) = unat x + (unat y - unat x) div 2" by (simp add: unat_word_ariths(1) unat_div)
    then show ?thesis using that by simp
  qed
  show ?thesis using half [of a b] half [of b a] by (auto simp: avg_3_def Let_def word_less_nat_alt add.commute)
qed

lemma avg_1_iff: "unat (avg_1 a b) = (unat a + unat b) div 2 \<longleftrightarrow> unat a + unat b < 2 ^ 32"
proof -
  have "unat (avg_1 a b) = (unat a + unat b) mod 2 ^ 32 div 2" by (simp add: avg_1_def unat_div unat_word_ariths(1))
  moreover have "(unat a + unat b) mod 2 ^ 32 div 2 \<noteq> (unat a + unat b) div 2" if "2 ^ 32 \<le> unat a + unat b"
  proof -
    have "unat a + unat b - 2 ^ 32 < 2 ^ 32" using unsigned_less [of a, where ?'a = nat] unsigned_less [of b, where ?'a = nat] by simp
    then have "(unat a + unat b) mod 2 ^ 32 = unat a + unat b - 2 ^ 32" using that by (simp only: le_mod_geq mod_less)
    then show ?thesis using that by simp
  qed
  ultimately show ?thesis by (metis mod_less not_less)
qed

lemma shift_ok: "unat x < 2 ^ 31 \<Longrightarrow> unat (times_two x) = 2 * unat x" "unat (div_two x) = unat x div 2"
  using unsigned_less [of x, where ?'a = nat] by (simp_all add: times_two_def div_two_def unat_word_ariths drop_bit_Suc unat_div)

lemma IS_SET_bit: "IS_SET f n \<noteq> 0 \<longleftrightarrow> bit (flag_bits f) n"
  by (simp add: IS_SET_def and_one_eq mod2_eq_if bit_iff_odd_drop_bit)

lemma flags_sum_ok: "flags_sum f a b = (if bit (flag_bits f) 0 then a else 0) + (if bit (flag_bits f) 1 then b else 0)"
  by (simp add: flags_sum_def IS_SET_bit Let_def)

lemma wrapping_add_ok: "unat b + unat c < 2 ^ 64 \<Longrightarrow> unat (wrapping_add a b c) = (unat a + (unat b + unat c)) mod 2 ^ 64"
  by (simp add: wrapping_add_def unat_word_ariths(1))

lemma union_ops:
  "test_item_modify_entry (test_item_set_entry i k v) j = Some (k, \<lparr>item_tag = ITEM_TOMBSTONE, item_u = UTombstone j\<rparr>)"
  "test_item_modify_entry (test_item_set_empty i) j = Some (j, test_item_set_empty i)"
  by (simp_all add: test_item_modify_entry_def test_item_set_entry_def test_item_set_empty_def ITEM_ENTRY_def ITEM_EMPTY_def Let_def)

end
