(* ===== verification/Feature_Tests.thy ===== *)
theory Feature_Tests
  imports Lessons
begin

unbundle bit_operations_syntax

text \<open>
  The tests of single features in \<open>src/examples/tests.c\<close> and the functions of \<open>src/tutorial/t02_evars.c\<close>. Conditions are the numbers of C, where 0 is
  false; a test without a result is in \<open>unit option\<close>, and \<open>None\<close> is a failing assertion, a fault, or an endless loop. Annotations (\<open>rc_assert\<close>, \<open>rc_stop\<close>, \<open>rc_reduce_expr\<close>) have no effect.
\<close>

section \<open>The functions\<close>

text \<open>The value of a comparison, and of the logical operators, whose second operand is only evaluated when the first one does not decide.\<close>

definition c_bool :: "bool \<Rightarrow> int" where
  "c_bool b = (if b then 1 else 0)"

definition c_or :: "int option \<Rightarrow> int option \<Rightarrow> int option" where
  "c_or a b = do { x \<leftarrow> a; if x \<noteq> 0 then Some 1 else do { y \<leftarrow> b; Some (c_bool (y \<noteq> 0)) } }"

definition c_and :: "int option \<Rightarrow> int option \<Rightarrow> int option" where
  "c_and a b = do { x \<leftarrow> a; if x = 0 then Some 0 else do { y \<leftarrow> b; Some (c_bool (y \<noteq> 0)) } }"

definition c_div :: "int \<Rightarrow> int \<Rightarrow> int option" where
  "c_div a b = (if b = 0 then None else i32 (a sdiv b))"

definition test1 :: "unit option" where
  "test1 =
     (let ll = (0 :: int); l = (0 :: int); i = (0 :: int); s = (0 :: int); c = (0 :: int) in
      if ll = l then Some () else if ll = l then Some () else if ll = i then Some () else if ll = s then Some () else if ll = c then Some ()
      else if ll = 0 then Some () else if l = 0 then Some () else if i = 0 then Some () else if s = 0 then Some () else if c = 0 then Some ()
      else Some ())"

definition return1 :: int where
  "return1 = 1"

text \<open>\<open>unreachable\<close> is declared without a body: a parameter. \<open>local\<close> is the address of the local variable.\<close>

definition test_ternary :: "int option \<Rightarrow> nat \<Rightarrow> unit option" where
  "test_ternary unreachable local = do {
     c_assert ((if (2 :: int) \<noteq> 0 then 3 else 2) = (3 :: int));
     v \<leftarrow> (if Addr local \<noteq> NULL then do { r \<leftarrow> (if return1 \<noteq> 0 then Some return1 else unreachable); i32 (r + 3) } else Some 2);
     c_assert (v = 4) }"

partial_function (option) safe_exit :: "int \<Rightarrow> int option" where
  "safe_exit u = safe_exit u"

definition assume_int :: "int \<Rightarrow> int option" where
  "assume_int x = (if x = 0 then do { safe_exit 0; Some 0 } else Some 0)"

definition test_assume :: "unit option" where
  "test_assume = do { assume_int 0; c_assert ((1 :: int) = 2) }"

definition test_bits :: "unit option" where
  "test_bits = do {
     let m = (0xf0 :: u32);
     let a = 0x12345678;
     let setting_bits = a OR m;
     let selecting_bits = a AND m;
     let clearing_bits = a AND NOT m;
     c_assert (setting_bits = 0x123456f8);
     c_assert (selecting_bits = 0x70);
     c_assert (clearing_bits = 0x12345608);
     c_assert (NOT (- 2 :: int) = 1);
     c_assert (NOT (0 :: int) = - 1) }"

definition test_comma :: "int option" where
  "test_comma = do {
     let x = (let _ = (NULL :: nat ptr) in 42);
     _ \<leftarrow> i32 (x + x);
     i32 (x - x) }"

text \<open>The global variable \<open>global\<close> is the state of the next two.\<close>

definition inline_global1 :: "int \<Rightarrow> int" where
  "inline_global1 g = g"

definition inline_global2 :: "int \<Rightarrow> int" where
  "inline_global2 g = inline_global1 g"

definition test_logical :: "unit option" where
  "test_logical = do {
     c \<leftarrow> c_or (c_and (Some 1) (Some 2)) (c_div 0 0);
     c_assert (if c \<noteq> 0 then (1 :: int) \<noteq> 0 else (0 :: int) \<noteq> 0);
     a \<leftarrow> c_and (Some 1) (Some 2);
     b \<leftarrow> c_or (Some 2) (Some 0);
     d \<leftarrow> c_and (Some (c_bool (a = 1))) (Some (c_bool (b = 1)));
     c_assert (d \<noteq> 0);
     c_assert (if (2147483647 :: int) \<noteq> 0 then (1 :: int) \<noteq> 0 else (0 :: int) \<noteq> 0);
     c_assert ((- 1 :: u32) \<noteq> 0) }"

text \<open>\<open>i\<close> is the address of the local variable.\<close>

definition test_not_ptr :: "nat \<Rightarrow> unit option" where
  "test_not_ptr i = do {
     let pi = Addr i;
     (if pi = NULL then c_assert False else Some ());
     c_assert (if pi \<noteq> NULL then True else False);
     c_assert (pi \<noteq> NULL);
     let p = (NULL :: nat ptr);
     (if p \<noteq> NULL then c_assert False else Some ());
     c_assert (if p = NULL then True else False);
     c_assert (p = NULL) }"

record test_struct =
  ts_a :: int

definition test_struct_return :: "test_struct" where
  "test_struct_return = \<lparr>ts_a = 1\<rparr>"

definition test_fn_params :: "'f \<Rightarrow> 'f" where
  "test_fn_params f = f"

record test2 =
  t2_a :: int
  t2_next :: "nat ptr"

definition test_struct2 :: "test2 \<Rightarrow> int" where
  "test_struct2 s = t2_a s"

definition test_reduce :: int where
  "test_reduce = (1 OR 0xff0) AND 0xff"

definition test_conditional_annot :: int where
  "test_conditional_annot = (let i2 = (if (0 :: int) \<noteq> 0 then 0 else (0 :: u16)) in uint i2)"

definition test_rc_assert :: "int \<Rightarrow> int" where
  "test_rc_assert i = i"

text \<open>A function that takes a function on pointers, and its client.\<close>

type_synonym hof_arg = "int_heap \<Rightarrow> nat ptr \<Rightarrow> nat ptr \<Rightarrow> (nat ptr \<times> int_heap) option"

definition test_hof :: "hof_arg \<Rightarrow> int_heap \<Rightarrow> nat \<Rightarrow> nat \<Rightarrow> int_heap option" where
  "test_hof f h n1 n2 = do {
     let h = h(n1 \<mapsto> 0, n2 \<mapsto> 0);
     (_, h) \<leftarrow> f h (Addr n1) (Addr n2);
     Some h }"

definition test_f :: hof_arg where
  "test_f h x y = do { h \<leftarrow> modify h x (\<lambda>_. 1); Some (x, h) }"

definition test_hof_client :: "int_heap \<Rightarrow> nat \<Rightarrow> nat \<Rightarrow> int_heap option" where
  "test_hof_client h n1 n2 = test_hof test_f h n1 n2"

definition evar_create_return_int :: int where
  "evar_create_return_int = 5"

definition return_multiple_of_8 :: int where
  "return_multiple_of_8 = 32"

definition return_multiple_of_5 :: int where
  "return_multiple_of_5 = 20"

section \<open>The tests pass\<close>

lemma tests_pass:
  "test1 = Some ()" "test_ternary u l = Some ()" "test_comma = Some 0" "test_not_ptr i = Some ()" "test_logical = Some ()"
  by (simp_all add: test1_def test_ternary_def return1_def i32_def test_comma_def test_not_ptr_def test_logical_def c_or_def c_and_def c_bool_def)

lemma test_bits_pass: "test_bits = Some ()"
  by (simp add: test_bits_def)

lemma test_reduce_eq: "test_reduce = 0xf0 + 1" "test_conditional_annot = 0"
  by (simp_all add: test_reduce_def test_conditional_annot_def)

lemma test_hof_client_ok: "n1 \<noteq> n2 \<Longrightarrow> test_hof_client h n1 n2 = Some (h(n1 \<mapsto> 1, n2 \<mapsto> 0))"
  by (auto simp: test_hof_client_def test_hof_def test_f_def modify_def)

lemma evars_ok: "0 < evar_create_return_int" "8 dvd return_multiple_of_8" "5 dvd return_multiple_of_5"
  by (simp_all add: evar_create_return_int_def return_multiple_of_8_def return_multiple_of_5_def)

text \<open>An assumption that fails is an endless loop, so that the assertion after it is not reached.\<close>

lemma safe_exit_diverges: "safe_exit u = None"
proof (rule ccontr)
  assume "safe_exit u \<noteq> None"
  then obtain r where "safe_exit u = Some r" by auto
  then have False by (rule safe_exit.raw_induct [where P = "\<lambda>u r. False", rotated]) blast
  then show False .
qed

lemma test_assume_diverges: "test_assume = None"
  by (simp add: test_assume_def assume_int_def safe_exit_diverges)

end
