(* ===== verification/Spec2Isabelle.thy ===== *)
theory Spec2Isabelle
  imports Hlist Spinlock Buddy_Init Ticket_Lock Early_Alloc Pgtable_Walk Fdsched_App Mpool Mutable_Map Tree_Set Btree_Insert
    List_Quicksort Reverse Queue Binary_Search Permutations Dll_Bst Entry_Pools Chunks Bump_Alloc Lock_Test
    Find_Buddy List_Append Provenance Int_Arrays Feature_Tests
begin

text \<open>
  Verification library for the C programs of the RefinedC repository.

  \<^bold>\<open>The programs.\<close> The repository holds a verifier for C (an OCaml front end and Coq theories)
  and the C programs it is used on: parts of the pKVM hypervisor (\<open>src/linux\<close>), a
  message-driven scheduler, the memory pool of Hafnium, a hash table, B-trees, locks, a queue, sorting and searching, solutions of
  the VerifyThis competition (\<open>src/examples\<close>), and the
  allocator, lists and search trees of the tutorial (\<open>src/tutorial\<close>). This library is about the C programs.

  \<^bold>\<open>Conventions.\<close> A C function that can fault is a function into \<open>option\<close>: \<open>None\<close> is a null,
  dangling or ill-typed access, an index out of bounds, a failing \<open>assert\<close>, a panic, or a loop that never ends
  (\<open>partial_function (option)\<close>); the value does not tell these apart, and a theorem that a call has no result says that one of them happens. A theorem with \<open>Some\<close> in its conclusion is therefore a theorem of
  memory safety and of termination. Machine integers are words of their width. Structs are records
  in a heap per type (\<open>Prelude\<close>), or words at addresses where the code casts free memory to list
  entries (\<open>Mpool\<close>, \<open>Talloc\<close>), or bytes where the size of an entry is a parameter (\<open>Entry_Pools\<close>). Annotations (\<open>rc_unlock\<close>, \<open>rc_unfold\<close>, \<open>rc_share\<close>) have no effect. Functions
  that the repository does not define (\<open>malloc\<close>, \<open>read\<close>, \<open>memset\<close>, \<open>clear_page\<close>, \<open>round_pointer_up\<close>) are
  parameters, with what is documented of them as named hypotheses of the theorems that need it.

  \<^bold>\<open>Theories, by component.\<close>

  \<^item> \<open>Prelude\<close>: words, pointers, heaps, footprints (\<open>upd_only\<close>), arrays, assertions, \<open>for\<close> loops.
  \<^item> \<open>Intrusive_List_Spec\<close>: the locale \<open>intrusive_list\<close>, the contract of an intrusive list library
    and the facts on families of disjoint lists that its clients use. \<open>Linux_List\<close> models
    \<open>src/linux/no_proofs/list.c\<close> on a heap of \<open>list_head\<close> nodes and interprets the locale (\<open>ll\<close>).
    \<open>Linux_Entry\<close> has the macros over structs with an embedded list head, \<open>Hlist\<close> the lists with one head pointer.
  \<^item> \<open>Spinlock\<close>: \<open>src/examples/spinlock.c\<close> and \<open>latch.c\<close>, and the interleavings of threads that take
    pairs of locks: mutual exclusion and absence of deadlocks. \<open>Ticket_Lock\<close>: the 16-bit ticket lock of
    \<open>src/linux/pkvm/spinlock.c\<close> with its reset at the end of the ticket range, as a step relation.
  \<^item> \<open>Buddy_Blocks\<close> (abstract blocks), \<open>Buddy\<close> (\<open>src/linux/casestudies/page_alloc.c\<close>), \<open>Buddy_Correct\<close>
    (the invariant and the refinement of the blocks, over the interpretation \<open>ll\<close>), \<open>Buddy_Init\<close>
    (initialisation, sequences of client calls, and the contracts).
  \<^item> \<open>Early_Alloc\<close>: the three early page allocators of \<open>src/linux/pkvm\<close> and \<open>src/linux/casestudies\<close>.
  \<^item> \<open>Pgtable\<close>: page table entries, \<open>src/linux/casestudies/pgtable.c\<close>. \<open>Pgtable_Walk\<close>: the walker of
    \<open>src/linux/no_proofs/pgtable.c\<close>, against an abstract page table.
  \<^item> \<open>Priority\<close>, \<open>Npfp\<close>, \<open>Fdsched\<close>, \<open>Fdsched_App\<close>: the scheduler of \<open>src/examples/scheduler\<close>, from the
    bitmap of priority levels through the queues and the reading of descriptors to \<open>main.c\<close>.
  \<^item> \<open>Mpool\<close>: \<open>src/examples/mpool.c\<close>, with the lock of \<open>Spinlock\<close>.
  \<^item> \<open>Map_Spec\<close>: the locales \<open>lookup_map\<close>, \<open>insert_map\<close> and \<open>remove_map\<close>, each extending the one before.
    \<open>Mutable_Map\<close> (\<open>src/examples/mutable_map.c\<close>) and \<open>Tree_Set\<close> interpret \<open>remove_map\<close> (\<open>fsm\<close>, \<open>tset\<close>).
  \<^item> \<open>Btree\<close>: the B-trees of \<open>src/examples/btree.c\<close>, the look-up (interpretation \<open>bt\<close> of \<open>lookup_map\<close>) and the
    insertion into a node; \<open>Btree_Insert\<close>: the insertion along a path, with splits up to a new root.
  \<^item> \<open>Talloc\<close>: the allocator of \<open>src/tutorial/t04_alloc.c\<close>, with the lock of \<open>Spinlock\<close>. \<open>Tree_Prog\<close>:
    the search trees of \<open>t08_tree.c\<close> in its memory. \<open>Tree_Set\<close>: \<open>t11_tree_set.c\<close>, the same functions at
    another key type.
  \<^item> \<open>Word_List\<close>: the lists of \<open>t03_list.c\<close> in the same memory, and the programs of \<open>t05_main.c\<close>; \<open>List_Quicksort\<close>: the quicksort of
    \<open>quicksort_solution.c\<close>; \<open>Reverse\<close>: \<open>src/examples/reverse.c\<close>; \<open>Queue\<close>: \<open>src/examples/queue.c\<close>, with the locale
    \<open>fifo_queue\<close> of a queue and its interpretation \<open>cq\<close>.
  \<^item> \<open>Quick_Sort\<close>, \<open>Binary_Search\<close>: \<open>quick_sort.c\<close> and \<open>binary_search.c\<close> of \<open>src/examples\<close>, on arrays. \<open>Permutations\<close>, \<open>Dll_Bst\<close>:
    \<open>challenge1.c\<close> and \<open>challenge2.c\<close> of \<open>src/examples/VerifyThis2021\<close>.
  \<^item> \<open>Entry_Pools\<close>: the slab of \<open>malloc1.c\<close> and the pool of \<open>mpool_simpl.c\<close>, interpretations \<open>slab\<close> and \<open>sp\<close> of the locale \<open>entry_pool\<close>, on a
    memory of bytes in which a pointer takes eight: the contract needs entries of that size at least, aligned and apart from each other.
    \<open>Bump_Alloc\<close>: the allocators over a buffer (\<open>paper_example_2_1.c\<close>, \<open>talk_demo_alloc.c\<close>, \<open>talk_demo_alloc_full.c\<close>), interpretations \<open>from_end\<close> and \<open>from_start\<close> of
    the locale \<open>bump_allocator\<close>, and the threads in \<open>thread_safe_alloc\<close> as a step relation. \<open>Chunks\<close>: the sorted free list of
    \<open>paper_example_2_2.c\<close>. \<open>Lock_Test\<close>: \<open>lock.c\<close>. \<open>Find_Buddy\<close>: \<open>page_alloc_find_buddy.c\<close>, on addresses of descriptors.
  \<^item> \<open>List_Append\<close>, \<open>Int_Arrays\<close>, \<open>Lessons\<close>, \<open>Feature_Tests\<close>: the lessons of \<open>src/tutorial\<close> and the small examples. \<open>Provenance\<close>: \<open>tagged_ptr.c\<close>, \<open>intptr.c\<close> and
    \<open>ocaml_runtime.c\<close>, with the casts of \<open>src/theories/caesium/lang.v\<close>.

  \<^bold>\<open>What the theorems show.\<close> The allocators (buddy, early, mpool, talloc, slab, pools and buffers) hand out disjoint memory,
  lose none, and serve a request exactly when they have room; releasing is inverse to allocating.
  The lists and the scheduler have the functional behaviour of lists and of stable priority queues.
  The locks exclude mutually in every interleaving. The hash table and the trees refine maps and
  sets, keep their invariants, and terminate. The walker visits exactly the entries of a range that starts with a leaf. The queue is
  first in, first out; sorting sorts, searching finds the boundary, the permutations are complete and in order, the tree of a list is balanced. Where the code does less than it means to, a theorem states what it does:
  truncated sizes (\<open>hyp_pool_init_spec\<close>, \<open>early_alloc_truncates\<close>), wrapping reference
  counts (\<open>put_page_errors\<close>), a lock taken twice (\<open>sl_lock_both_result\<close>), the end of an
  input (\<open>receive_messages_eof\<close>), a split that reads past its arrays (\<open>btree_insert_spec\<close>), a walk that starts inside
  a leaf and misses the end of its range (\<open>kvm_pgtable_walk_skips\<close>), memory too small to be given back (\<open>tut_main_spec\<close>), and a
  quicksort that never returns (\<open>lq_quicksort_diverges\<close>).

  \<^bold>\<open>Bounds.\<close> Loops are structural, have a termination proof, or are \<open>partial_function (option)\<close> with theorems
  that they return. Three groups have a bound instead. \<open>fsm_insert\<close> and
  \<open>fsm_realloc_if_necessary\<close> call each other, and \<open>insert_depth\<close> bounds the nesting by two; \<open>fsm_insert_spec\<close>
  shows that two levels are enough, as the copied table has room for all entries. \<open>kvm_pgtable_walk_depth\<close> bounds the nesting
  of the walk by five, enough since the fifth level is refused (\<open>walk_depth_enough\<close>). The \<open>list_for_each\<close> loops of
  \<open>Linux_List\<close> and \<open>Linux_Entry\<close> have fuel, and their theorems hold for any fuel above the length of the list. The number of threads, the
  lengths of lists and the sizes of memories are arbitrary.

  \<^bold>\<open>Not modelled.\<close> Memory orders weaker than sequential consistency; concurrency of the allocators
  beyond their locks (a locked section runs alone, except in \<open>Bump_Alloc\<close>, which interleaves the accesses of \<open>thread_safe_alloc\<close>); the two functions of \<open>list.c\<close> that are commented out; the socket set-up of the
  scheduler (\<open>io.c\<close>, pure I/O). Functions of \<open>t02_evars.c\<close> and \<open>tests.c\<close> that do nothing but carry annotations; the talk demos
  repeat the \<open>append\<close> of the lessons; the casts of function pointers have no function here that uses them. The OCaml front end and the
  Coq theories are not C programs.
\<close>

end
